(* ===== verification/Prelude.thy ===== *)
theory Prelude
  imports Main "HOL-Library.Word"
begin

text \<open>
  Shared vocabulary of the development.  The theory names the machine types of the C sources
  (\<open>size_t\<close>, \<open>uint64_t\<close>, \<open>uint32_t\<close>, bytes), models the few functions of the C standard library
  the sources call (\<open>isspace\<close>, \<open>isdigit\<close>, \<open>isxdigit\<close>, \<open>tolower\<close>, \<open>strtoull\<close>, \<open>strtoll\<close>, the decimal and
  hexadecimal conversions of \<open>printf\<close>), gives one combinator for the
  search loops \<open>for (i = lo; i < hi; i++) if (p(i)) return i\<close>, and proves the list and number
  lemmas that several components use.  A C string is a \<open>string\<close> (a list of 8-bit characters)
  without its terminating NUL.
\<close>

unbundle bit_operations_syntax

named_theorems c_defs \<open>definitions of straight-line C helpers, for unfolding\<close>
named_theorems c_bounds \<open>size facts that bound the result of an operation\<close>
named_theorems c_views \<open>what an operation does to the abstract view of its state\<close>

type_synonym u8 = "8 word"
type_synonym u32 = "32 word"
type_synonym u64 = "64 word"
type_synonym i64 = "64 word"

definition SIZE_MAX :: nat where
  "SIZE_MAX = 2 ^ 64 - 1"

section \<open>Search loops\<close>

text \<open>The least index of \<open>[lo, hi)\<close> that satisfies \<open>p\<close>, as a \<open>for\<close> loop with an early return
  computes it.\<close>

function for_first :: "(nat \<Rightarrow> bool) \<Rightarrow> nat \<Rightarrow> nat \<Rightarrow> nat option" where
  "for_first p i n = (if i < n then (if p i then Some i else for_first p (Suc i) n) else None)"
  by pat_completeness auto
termination
  by (relation "measure (\<lambda>(p, i, n). n - i)") auto

declare for_first.simps [simp del]

lemma for_first_None: "for_first p i n = None \<longleftrightarrow> (\<forall>k. i \<le> k \<and> k < n \<longrightarrow> \<not> p k)"
proof (induction p i n rule: for_first.induct)
  case (1 p i n)
  have le: "(i \<le> k) = (k = i \<or> Suc i \<le> k)" for k
    by auto
  show ?case
  proof (cases "i < n \<and> \<not> p i")
    case True
    then have "for_first p i n = for_first p (Suc i) n"
      by (simp add: for_first.simps [of p i n])
    moreover have "(for_first p (Suc i) n = None) = (\<forall>k. Suc i \<le> k \<and> k < n \<longrightarrow> \<not> p k)"
      using True "1.IH" by simp
    ultimately show ?thesis using True unfolding le by metis
  next
    case False
    then show ?thesis by (auto simp: for_first.simps [of p i n])
  qed
qed

lemma for_first_Some:
  "for_first p i n = Some k \<longleftrightarrow> i \<le> k \<and> k < n \<and> p k \<and> (\<forall>j. i \<le> j \<and> j < k \<longrightarrow> \<not> p j)"
proof (induction p i n rule: for_first.induct)
  case (1 p i n)
  have le: "(i \<le> j) = (j = i \<or> Suc i \<le> j)" for j
    by auto
  show ?case
  proof (cases "i < n")
    case False
    then show ?thesis by (simp add: for_first.simps [of p i n])
  next
    case True
    show ?thesis
    proof (cases "p i")
      case True
      with \<open>i < n\<close> have "for_first p i n = Some i"
        by (simp add: for_first.simps [of p i n])
      then show ?thesis using \<open>i < n\<close> True
        by (auto simp: le_less)
    next
      case False
      with \<open>i < n\<close> have "for_first p i n = for_first p (Suc i) n"
        by (simp add: for_first.simps [of p i n])
      with "1.IH" \<open>i < n\<close> False show ?thesis
        unfolding le [of k] by (auto simp: le)
    qed
  qed
qed

lemma for_first_cong:
  assumes "\<And>k. i \<le> k \<Longrightarrow> k < n \<Longrightarrow> p k = q k"
  shows "for_first p i n = for_first q i n"
proof (cases "for_first q i n")
  case None
  with assms have "for_first p i n = None"
    by (simp add: for_first_None)
  with None show ?thesis by simp
next
  case (Some k)
  with assms have "for_first p i n = Some k"
    by (simp add: for_first_Some)
  with Some show ?thesis by simp
qed

lemma for_first_bound [c_bounds]: "for_first p i n = Some k \<Longrightarrow> k < n"
  by (simp add: for_first_Some)

text \<open>A search over the indices of a list is \<open>takeWhile\<close>.\<close>

lemma for_first_takeWhile:
  "for_first (\<lambda>i. P (xs ! i)) 0 (length xs) =
     (if length (takeWhile (\<lambda>x. \<not> P x) xs) < length xs
      then Some (length (takeWhile (\<lambda>x. \<not> P x) xs)) else None)"
proof (cases "length (takeWhile (\<lambda>x. \<not> P x) xs) < length xs")
  case True
  let ?k = "length (takeWhile (\<lambda>x. \<not> P x) xs)"
  have "P (xs ! ?k)"
    using nth_length_takeWhile [OF True] by simp
  moreover have "\<not> P (xs ! j)" if "j < ?k" for j
    using that by (metis nth_mem set_takeWhileD takeWhile_nth)
  ultimately have "for_first (\<lambda>i. P (xs ! i)) 0 (length xs) = Some ?k"
    using True by (simp add: for_first_Some)
  then show ?thesis using True by simp
next
  case False
  then have "takeWhile (\<lambda>x. \<not> P x) xs = xs"
    by (metis length_takeWhile_le nle_le not_less takeWhile_eq_take take_all)
  then have "\<forall>x \<in> set xs. \<not> P x"
    by (simp add: takeWhile_eq_all_conv)
  then show ?thesis using False
    by (auto simp: for_first_None)
qed

section \<open>Lists\<close>

lemma takeWhile_all_prefix [simp]:
  "\<lbrakk>\<forall>x \<in> set xs. P x; \<not> P y\<rbrakk> \<Longrightarrow> takeWhile P (xs @ y # ys) = xs"
  by (induction xs) auto

lemma dropWhile_all_prefix [simp]:
  "\<lbrakk>\<forall>x \<in> set xs. P x; \<not> P y\<rbrakk> \<Longrightarrow> dropWhile P (xs @ y # ys) = y # ys"
  by (induction xs) auto

lemma takeWhile_all [simp]: "\<forall>x \<in> set xs. P x \<Longrightarrow> takeWhile P xs = xs"
  by (simp add: takeWhile_eq_all_conv)

lemma dropWhile_all [simp]: "\<forall>x \<in> set xs. P x \<Longrightarrow> dropWhile P xs = []"
  by (simp add: dropWhile_eq_Nil_conv)

lemma takeWhile_length_lt: "length (takeWhile P xs) < length xs \<longleftrightarrow> (\<exists>x \<in> set xs. \<not> P x)"
  by (metis le_neq_implies_less length_takeWhile_le nless_le takeWhile_eq_all_conv
      takeWhile_eq_take take_all)

section \<open>Characters\<close>

abbreviation code :: "char \<Rightarrow> nat" where
  "code c \<equiv> of_char c"

definition isspace :: "char \<Rightarrow> bool" where
  "isspace c \<longleftrightarrow> c = CHR '' '' \<or> (9 \<le> code c \<and> code c \<le> 13)"

definition isdigit :: "char \<Rightarrow> bool" where
  "isdigit c \<longleftrightarrow> 48 \<le> code c \<and> code c \<le> 57"

definition isupper :: "char \<Rightarrow> bool" where
  "isupper c \<longleftrightarrow> 65 \<le> code c \<and> code c \<le> 90"

definition islower :: "char \<Rightarrow> bool" where
  "islower c \<longleftrightarrow> 97 \<le> code c \<and> code c \<le> 122"

definition isalpha :: "char \<Rightarrow> bool" where
  "isalpha c \<longleftrightarrow> isupper c \<or> islower c"

definition isxdigit :: "char \<Rightarrow> bool" where
  "isxdigit c \<longleftrightarrow> isdigit c \<or> (65 \<le> code c \<and> code c \<le> 70) \<or> (97 \<le> code c \<and> code c \<le> 102)"

definition tolower :: "char \<Rightarrow> char" where
  "tolower c = (if isupper c then char_of (code c + 32) else c)"

lemmas ctype_defs = isspace_def isdigit_def isupper_def islower_def isalpha_def isxdigit_def

lemma code_char_of [simp]: "n < 256 \<Longrightarrow> code (char_of n) = n"
  by (simp add: of_char_of)

text \<open>A pointer into a C string is the suffix it points at: \<open>*ptr == c\<close> for a character that is not NUL.\<close>

definition at :: "string \<Rightarrow> char \<Rightarrow> bool" where
  "at cur c \<longleftrightarrow> cur \<noteq> [] \<and> hd cur = c"

lemma at_simps [simp]: "\<not> at [] c" "at (x # xs) c \<longleftrightarrow> x = c"
  by (simp_all add: at_def)

lemma tolower_not_upper: "\<not> isupper (tolower c)"
  by (auto simp: tolower_def isupper_def)

lemma tolower_idem [simp]: "tolower (tolower c) = tolower c"
  using tolower_not_upper [of c] by (simp add: tolower_def)

section \<open>Decimal and hexadecimal numbers\<close>

definition digit_char :: "nat \<Rightarrow> char" where
  "digit_char d = char_of (48 + d)"

definition digit_val :: "char \<Rightarrow> nat" where
  "digit_val c = code c - 48"

text \<open>The value of a run of decimal digits, read left to right.\<close>

definition dec_val :: "string \<Rightarrow> nat" where
  "dec_val ds = foldl (\<lambda>n c. 10 * n + digit_val c) 0 ds"

text \<open>The conversion \<open>%llu\<close> of \<open>printf\<close>.\<close>

fun dec_str :: "nat \<Rightarrow> string" where
  "dec_str n = (if n < 10 then [digit_char n] else dec_str (n div 10) @ [digit_char (n mod 10)])"

declare dec_str.simps [simp del]

lemma digit_char_props [simp]:
  assumes "d < 10"
  shows "isdigit (digit_char d)" and "digit_val (digit_char d) = d"
  using assms by (simp_all add: digit_char_def isdigit_def digit_val_def)

lemma dec_str_digits: "\<forall>c \<in> set (dec_str n). isdigit c"
proof (induction n rule: dec_str.induct)
  case (1 n)
  then show ?case by (cases "n < 10") (auto simp: dec_str.simps [of n])
qed

lemma dec_str_nonempty [simp]: "dec_str n \<noteq> []"
  by (subst dec_str.simps) simp

lemma dec_val_snoc [simp]: "dec_val (ds @ [c]) = 10 * dec_val ds + digit_val c"
  by (simp add: dec_val_def)

lemma dec_val_dec_str [simp]: "dec_val (dec_str n) = n"
proof (induction n rule: dec_str.induct)
  case (1 n)
  show ?case
  proof (cases "n < 10")
    case True
    then show ?thesis by (simp add: dec_str.simps [of n] dec_val_def)
  next
    case False
    with 1 show ?thesis by (simp add: dec_str.simps [of n])
  qed
qed

text \<open>Upper and lower bounds of the number of digits the conversion writes.\<close>

lemma dec_str_length: "n < 10 ^ k \<Longrightarrow> 0 < k \<Longrightarrow> length (dec_str n) \<le> k"
proof (induction n arbitrary: k rule: dec_str.induct)
  case (1 n)
  show ?case
  proof (cases "n < 10")
    case True
    with 1 show ?thesis by (simp add: dec_str.simps [of n])
  next
    case False
    with "1.prems" obtain j where k: "k = Suc j" and j: "0 < j"
      by (cases k; cases "k - 1") auto
    from "1.prems"(1) k have "n div 10 < 10 ^ j"
      by (simp add: div_less_iff_less_mult mult.commute)
    with "1.IH" False j have "length (dec_str (n div 10)) \<le> j" by simp
    with False k show ?thesis by (simp add: dec_str.simps [of n])
  qed
qed

text \<open>The conversion \<open>%lld\<close>.\<close>

definition int_str :: "int \<Rightarrow> string" where
  "int_str i = (if i < 0 then CHR ''-'' # dec_str (nat (- i)) else dec_str (nat i))"

definition hex_char :: "nat \<Rightarrow> char" where
  "hex_char d = char_of (if d < 10 then 48 + d else 87 + d)"

text \<open>The value of one hexadecimal digit of either case; \<open>None\<close> for any other character.\<close>

definition hex_val :: "char \<Rightarrow> nat option" where
  "hex_val c =
     (if 48 \<le> code c \<and> code c \<le> 57 then Some (code c - 48)
      else if 97 \<le> code c \<and> code c \<le> 102 then Some (code c - 87)
      else if 65 \<le> code c \<and> code c \<le> 70 then Some (code c - 55)
      else None)"

lemma hex_val_hex_char [simp]: "d < 16 \<Longrightarrow> hex_val (hex_char d) = Some d"
  by (auto simp: hex_val_def hex_char_def)

lemma hex_val_bound: "hex_val c = Some d \<Longrightarrow> d < 16"
  by (auto simp: hex_val_def split: if_splits)

lemma isxdigit_hex_val: "isxdigit c \<longleftrightarrow> hex_val c \<noteq> None"
  by (auto simp: hex_val_def ctype_defs)

section \<open>strtoull and strtoll\<close>

text \<open>
  \<open>strtoull(buf, &end, 10)\<close>: leading white space, an optional sign, then the longest run of
  digits.  The result is the value, the number of characters up to \<open>end\<close> and whether \<open>errno\<close> is
  set to \<open>ERANGE\<close>.  Without digits the value is 0 and \<open>end = buf\<close>; out of range the value is
  \<open>ULLONG_MAX\<close>; a minus sign negates modulo \<open>2 ^ 64\<close>.
\<close>

definition num_prefix :: "string \<Rightarrow> nat \<times> bool \<times> string" where
  "num_prefix s =
     (let ws = length (takeWhile isspace s); s1 = drop ws s;
          neg = (s1 \<noteq> [] \<and> hd s1 = CHR ''-'');
          sg = (if s1 \<noteq> [] \<and> (hd s1 = CHR ''-'' \<or> hd s1 = CHR ''+'') then 1 else 0)
      in (ws + sg, neg, takeWhile isdigit (drop sg s1)))"

definition strtoull :: "string \<Rightarrow> u64 \<times> nat \<times> bool" where
  "strtoull s =
     (case num_prefix s of (skip, neg, ds) \<Rightarrow>
        if ds = [] then (0, 0, False)
        else let n = dec_val ds; e = skip + length ds in
          if 2 ^ 64 \<le> n then (- 1, e, True)
          else (if neg then - of_nat n else of_nat n, e, False))"

definition strtoll :: "string \<Rightarrow> int \<times> nat \<times> bool" where
  "strtoll s =
     (case num_prefix s of (skip, neg, ds) \<Rightarrow>
        if ds = [] then (0, 0, False)
        else let n = int (dec_val ds); e = skip + length ds in
          if neg then (if 2 ^ 63 < n then (- (2 ^ 63), e, True) else (- n, e, False))
          else (if 2 ^ 63 \<le> n then (2 ^ 63 - 1, e, True) else (n, e, False)))"

lemma num_prefix_bound: "num_prefix s = (k, neg, ds) \<Longrightarrow> ds \<noteq> [] \<Longrightarrow> k + length ds \<le> length s"
proof -
  assume n: "num_prefix s = (k, neg, ds)" and ds: "ds \<noteq> []"
  let ?ws = "length (takeWhile isspace s)"
  obtain sg where k: "k = ?ws + sg" and d: "ds = takeWhile isdigit (drop sg (drop ?ws s))"
    using n by (auto simp: num_prefix_def Let_def)
  have "drop sg (drop ?ws s) \<noteq> []"
    using ds d by (metis takeWhile.simps(1))
  then have "sg + ?ws < length s" by simp
  moreover have "length ds \<le> length (drop sg (drop ?ws s))"
    unfolding d by (rule length_takeWhile_le)
  ultimately show ?thesis using k by simp
qed

lemma strtoull_bound [c_bounds]: "strtoull s = (v, e, r) \<Longrightarrow> e \<le> length s"
  by (auto simp: strtoull_def Let_def split: prod.splits if_splits dest: num_prefix_bound)

lemma isdigit_not_space [simp]: "isdigit c \<Longrightarrow> \<not> isspace c"
  by (auto simp: ctype_defs)

lemma isdigit_not_sign: "isdigit c \<Longrightarrow> c \<noteq> CHR ''-'' \<and> c \<noteq> CHR ''+''"
  by (auto simp: isdigit_def)

text \<open>A decimal numeral followed by anything but a digit is read back exactly.\<close>

lemma num_prefix_digits:
  assumes "ds \<noteq> []" "\<forall>c \<in> set ds. isdigit c" "rest = [] \<or> \<not> isdigit (hd rest)"
  shows "num_prefix (ds @ rest) = (0, False, ds)"
proof -
  obtain c cs where cs: "ds = c # cs" using assms(1) by (cases ds) auto
  have "takeWhile isdigit (ds @ rest) = ds" using assms(2,3) by (cases rest) auto
  then show ?thesis
    using isdigit_not_sign [of c] assms(2) by (simp add: num_prefix_def cs Let_def)
qed

lemma num_prefix_dec_str:
  assumes "rest = [] \<or> \<not> isdigit (hd rest)"
  shows "num_prefix (dec_str n @ rest) = (0, False, dec_str n)"
  using assms dec_str_digits by (intro num_prefix_digits) auto

lemma strtoull_dec_str:
  assumes "n < 2 ^ 64" and "rest = [] \<or> \<not> isdigit (hd rest)"
  shows "strtoull (dec_str n @ rest) = (of_nat n, length (dec_str n), False)"
  using assms by (simp add: strtoull_def num_prefix_dec_str)

section \<open>Bit fields\<close>

lemma or_shift_add: "b < 2 ^ k \<Longrightarrow> a * 2 ^ k OR b = a * 2 ^ k + (b :: nat)"
proof -
  assume "b < 2 ^ k"
  then have b: "take_bit k b = b" by (simp add: take_bit_nat_eq_self)
  have "push_bit k a + b = push_bit k a OR b"
  proof (rule disjunctive_add)
    fix n
    show "\<not> bit (push_bit k a) n \<or> \<not> bit b n"
      by (metis b bit_push_bit_iff bit_take_bit_iff not_le)
  qed
  then show ?thesis by (simp add: push_bit_nat_def)
qed

lemma and_mask_mod: "(n :: nat) AND (2 ^ k - 1) = n mod 2 ^ k"
  by (metis mask_eq_exp_minus_1 take_bit_eq_mask take_bit_nat_def)

lemmas and_mod_nat =
  and_mask_mod [of _ 4, simplified] and_mask_mod [of _ 6, simplified] and_mask_mod [of _ 8, simplified]

lemmas or_add_nat =
  or_shift_add [of _ 4, simplified] or_shift_add [of _ 6, simplified]
  or_shift_add [of _ 8, simplified] or_shift_add [of _ 16, simplified]

lemmas unat_bits =
  unsigned_or_eq unsigned_and_eq unsigned_push_bit_eq unsigned_drop_bit_eq
  push_bit_nat_def drop_bit_nat_def take_bit_nat_def

lemma code_less: "256 \<le> n \<Longrightarrow> code c < n"
  using nat_of_char_less_256 [of c] by (rule less_le_trans)

lemma unat_of_char [simp]: "8 \<le> LENGTH('a :: len) \<Longrightarrow> unat (of_char c :: 'a word) = code c"
proof -
  assume l: "8 \<le> LENGTH('a)"
  have "(of_char c :: 'a word) = of_nat (code c)"
    by (cases c) (simp add: of_char_def)
  moreover have "code c < 2 ^ LENGTH('a)"
    using power_increasing [OF l, of "2 :: nat"] by (intro code_less) simp
  ultimately show ?thesis by (simp add: unat_of_nat)
qed

lemma unat_less:
  "unat (w :: u8) < 256" "unat (x :: u32) < 4294967296" "unat (y :: u64) < 18446744073709551616"
  using unsigned_less [of w] unsigned_less [of x] unsigned_less [of y] by (simp_all add: word_less_nat_alt)

text \<open>\<open>memchr\<close>: the text before the first occurrence and the text behind it.\<close>

definition memchr_split :: "char \<Rightarrow> string \<Rightarrow> (string \<times> string) option" where
  "memchr_split c s =
     (if c \<in> set s then let a = takeWhile (\<lambda>x. x \<noteq> c) s in Some (a, drop (length a + 1) s) else None)"

lemma memchr_split_append: "c \<notin> set a \<Longrightarrow> memchr_split c (a @ c # r) = Some (a, r)"
proof -
  assume "c \<notin> set a"
  then have "takeWhile (\<lambda>x. x \<noteq> c) (a @ c # r) = a" by (induction a) auto
  then show ?thesis by (simp add: memchr_split_def)
qed

lemma memchr_split_None: "memchr_split c s = None \<longleftrightarrow> c \<notin> set s"
  by (simp add: memchr_split_def Let_def)

lemma memchr_split_less [c_bounds]: "memchr_split c s = Some (a, r) \<Longrightarrow> length a + length r < length s"
proof -
  assume m: "memchr_split c s = Some (a, r)"
  then have "c \<in> set s" by (auto simp: memchr_split_def split: if_splits)
  then have "length (takeWhile (\<lambda>x. x \<noteq> c) s) < length s" by (induction s) auto
  with m show ?thesis by (auto simp: memchr_split_def Let_def split: if_splits)
qed

end
