(* ===== verification/Slices.thy ===== *)
theory Slices
  imports Prelude
begin

text \<open>
  \<open>sentry_slice.c\<close> and the inline functions of \<open>sentry_slice.h\<close>: borrowed, explicitly sized
  strings.  A slice is a pointer and a length; the pointer is modelled by the memory it points
  at, the bytes from that address to the end of the underlying object.  \<open>slice_wf\<close> says that the
  length stays inside the object, \<open>slice_view\<close> is the text a slice denotes, and every operation
  is characterised by what it does to the view.
\<close>

record sentry_slice_t =
  ptr :: string
  len :: nat

definition slice_wf :: "sentry_slice_t \<Rightarrow> bool" where
  "slice_wf a \<longleftrightarrow> len a \<le> length (ptr a)"

definition slice_view :: "sentry_slice_t \<Rightarrow> string" where
  "slice_view a = take (len a) (ptr a)"

text \<open>\<open>None\<close> is a null pointer, whose guarded length is 0.\<close>

definition sentry__slice_from_str :: "string option \<Rightarrow> sentry_slice_t" where
  "sentry__slice_from_str str =
     (case str of None \<Rightarrow> \<lparr>ptr = [], len = 0\<rparr> | Some s \<Rightarrow> \<lparr>ptr = s, len = length s\<rparr>)"

definition sentry__slice_to_owned :: "sentry_slice_t \<Rightarrow> string" where
  "sentry__slice_to_owned a = take (len a) (ptr a)"

text \<open>\<open>strncpy\<close> copies up to the first NUL and pads with NULs; the buffer beyond the copied
  part keeps its old contents.\<close>

definition strncpy_bytes :: "string \<Rightarrow> nat \<Rightarrow> string" where
  "strncpy_bytes s n =
     (let cs = takeWhile (\<lambda>c. c \<noteq> CHR 0x00) (take n s)
      in cs @ replicate (n - length cs) (CHR 0x00))"

definition sentry__slice_to_buffer :: "sentry_slice_t \<Rightarrow> string \<Rightarrow> nat \<Rightarrow> string" where
  "sentry__slice_to_buffer a buffer buffer_len =
     (if buffer_len = 0 then buffer
      else let copy_len = min (len a) (buffer_len - 1)
           in strncpy_bytes (ptr a) copy_len @ CHR 0x00 # drop (copy_len + 1) buffer)"

definition sentry__slice_eq :: "sentry_slice_t \<Rightarrow> sentry_slice_t \<Rightarrow> bool" where
  "sentry__slice_eq a b \<longleftrightarrow> len a = len b \<and> take (len a) (ptr a) = take (len a) (ptr b)"

definition sentry__slice_eqs :: "sentry_slice_t \<Rightarrow> string \<Rightarrow> bool" where
  "sentry__slice_eqs a str \<longleftrightarrow> sentry__slice_eq a (sentry__slice_from_str (Some str))"

definition sentry__slice_split_at :: "sentry_slice_t \<Rightarrow> char \<Rightarrow> sentry_slice_t" where
  "sentry__slice_split_at a c =
     (case for_first (\<lambda>i. ptr a ! i = c) 0 (len a) of
        Some i \<Rightarrow> a\<lparr>len := i\<rparr>
      | None \<Rightarrow> a)"

definition sentry__slice_find :: "sentry_slice_t \<Rightarrow> char \<Rightarrow> nat" where
  "sentry__slice_find a c =
     (case for_first (\<lambda>i. ptr a ! i = c) 0 (len a) of Some i \<Rightarrow> i | None \<Rightarrow> SIZE_MAX)"

definition is_space :: "char \<Rightarrow> bool" where
  "is_space c \<longleftrightarrow> c = CHR '' '' \<or> c = CHR 0x09 \<or> c = CHR 0x0D \<or> c = CHR 0x0A"

text \<open>The two loops of \<open>sentry__slice_trim\<close>: forward over the pointer, backward over the length.\<close>

function trim_front :: "sentry_slice_t \<Rightarrow> sentry_slice_t" where
  "trim_front a =
     (if 0 < len a \<and> is_space (ptr a ! 0)
      then trim_front (a\<lparr>ptr := drop 1 (ptr a), len := len a - 1\<rparr>) else a)"
  by pat_completeness auto
termination
  by (relation "measure len") auto

function trim_back :: "sentry_slice_t \<Rightarrow> sentry_slice_t" where
  "trim_back a =
     (if 0 < len a \<and> is_space (ptr a ! (len a - 1))
      then trim_back (a\<lparr>len := len a - 1\<rparr>) else a)"
  by pat_completeness auto
termination
  by (relation "measure len") auto

declare trim_front.simps [simp del] trim_back.simps [simp del]

definition sentry__slice_trim :: "sentry_slice_t \<Rightarrow> sentry_slice_t" where
  "sentry__slice_trim a = trim_back (trim_front a)"

definition sentry__slice_advance :: "sentry_slice_t \<Rightarrow> nat \<Rightarrow> sentry_slice_t" where
  "sentry__slice_advance s bytes = \<lparr>ptr = drop bytes (ptr s), len = len s - bytes\<rparr>"

definition sentry__slice_consume_if :: "sentry_slice_t \<Rightarrow> char \<Rightarrow> bool \<times> sentry_slice_t" where
  "sentry__slice_consume_if a c =
     (if 0 < len a \<and> ptr a ! 0 = c
      then (True, a\<lparr>ptr := drop 1 (ptr a), len := len a - 1\<rparr>) else (False, a))"

text \<open>The copy of the slice is NUL-terminated before \<open>strtoull\<close> reads it; a parse that
  contains a minus sign is refused.  The result carries the number written to \<open>num_out\<close>.
  The allocation of the copy is taken to succeed.\<close>

definition sentry__slice_consume_uint64 ::
  "sentry_slice_t \<Rightarrow> (u64 \<times> sentry_slice_t) option" where
  "sentry__slice_consume_uint64 a =
     (let buf = take (len a) (ptr a); (val, diff, _) = strtoull buf
      in if diff \<noteq> 0 \<and> CHR ''-'' \<notin> set (take diff buf)
         then Some (val, a\<lparr>len := len a - diff, ptr := drop diff (ptr a)\<rparr>)
         else None)"

section \<open>Well-formedness and views\<close>

lemma slice_view_length [simp]: "slice_wf a \<Longrightarrow> length (slice_view a) = len a"
  by (simp add: slice_wf_def slice_view_def)

lemma slice_view_nth: "i < len a \<Longrightarrow> slice_view a ! i = ptr a ! i"
  by (simp add: slice_view_def)

lemma from_str_view [simp, c_views]:
  "slice_view (sentry__slice_from_str (Some s)) = s" "slice_wf (sentry__slice_from_str x)"
  by (simp_all add: sentry__slice_from_str_def slice_view_def slice_wf_def split: option.splits)

lemma to_owned_view [simp, c_views]: "sentry__slice_to_owned a = slice_view a"
  by (simp add: sentry__slice_to_owned_def slice_view_def)

lemma slice_eq_view [c_views]:
  "slice_wf a \<Longrightarrow> slice_wf b \<Longrightarrow> sentry__slice_eq a b \<longleftrightarrow> slice_view a = slice_view b"
  by (metis sentry__slice_eq_def slice_view_def slice_view_length)

lemma slice_eqs_view [c_views]: "slice_wf a \<Longrightarrow> sentry__slice_eqs a s \<longleftrightarrow> slice_view a = s"
  by (simp add: sentry__slice_eqs_def slice_eq_view)

lemma slice_search:
  assumes "slice_wf a"
  shows "for_first (\<lambda>i. ptr a ! i = c) 0 (len a) =
    (if c \<in> set (slice_view a) then Some (length (takeWhile (\<lambda>x. x \<noteq> c) (slice_view a))) else None)"
proof -
  have "for_first (\<lambda>i. ptr a ! i = c) 0 (len a) =
      for_first (\<lambda>i. slice_view a ! i = c) 0 (length (slice_view a))"
    unfolding slice_view_length [OF assms] by (rule for_first_cong) (simp add: slice_view_nth)
  also have "\<dots> = (if length (takeWhile (\<lambda>x. \<not> x = c) (slice_view a)) < length (slice_view a)
      then Some (length (takeWhile (\<lambda>x. \<not> x = c) (slice_view a))) else None)"
    by (rule for_first_takeWhile)
  finally show ?thesis
    by (simp add: takeWhile_length_lt)
qed

lemma split_at_view [c_views]:
  "slice_wf a \<Longrightarrow> slice_view (sentry__slice_split_at a c) = takeWhile (\<lambda>x. x \<noteq> c) (slice_view a)"
proof -
  assume wf: "slice_wf a"
  let ?t = "takeWhile (\<lambda>x. x \<noteq> c) (slice_view a)"
  have "take (length ?t) (slice_view a) = ?t"
    by (simp add: takeWhile_eq_take [symmetric])
  moreover have "length ?t \<le> len a"
    using length_takeWhile_le [of "\<lambda>x. x \<noteq> c" "slice_view a"] wf by simp
  ultimately have "take (length ?t) (ptr a) = ?t"
    by (simp add: slice_view_def min_absorb1)
  moreover have "c \<notin> set (slice_view a) \<Longrightarrow> ?t = slice_view a"
    by (rule takeWhile_all) auto
  ultimately show ?thesis
    using wf by (simp add: sentry__slice_split_at_def slice_search slice_view_def)
qed

lemma split_at_wf [simp]: "slice_wf a \<Longrightarrow> slice_wf (sentry__slice_split_at a c)"
  by (auto simp: sentry__slice_split_at_def slice_wf_def split: option.splits dest: for_first_bound)

lemma split_at_ptr [simp]: "ptr (sentry__slice_split_at a c) = ptr a"
  by (simp add: sentry__slice_split_at_def split: option.splits)

lemma find_view [c_views]:
  "slice_wf a \<Longrightarrow> sentry__slice_find a c =
     (if c \<in> set (slice_view a) then length (takeWhile (\<lambda>x. x \<noteq> c) (slice_view a)) else SIZE_MAX)"
  by (simp add: sentry__slice_find_def slice_search)

lemma advance_view [simp, c_views]:
  "slice_view (sentry__slice_advance s n) = drop n (slice_view s)"
  by (simp add: sentry__slice_advance_def slice_view_def drop_take)

lemma advance_wf [simp]: "slice_wf s \<Longrightarrow> slice_wf (sentry__slice_advance s n)"
  by (auto simp: sentry__slice_advance_def slice_wf_def)

lemma advance_len [simp]: "len (sentry__slice_advance s n) = len s - n"
  by (simp add: sentry__slice_advance_def)

lemma slice_view_Cons:
  "slice_wf a \<Longrightarrow> 0 < len a \<Longrightarrow>
     slice_view a = ptr a ! 0 # take (len a - 1) (drop 1 (ptr a))"
  by (cases "ptr a"; cases "len a") (auto simp: slice_view_def slice_wf_def)

lemma consume_if_view [c_views]:
  assumes "slice_wf a"
  shows "fst (sentry__slice_consume_if a c) \<longleftrightarrow> (\<exists>r. slice_view a = c # r)"
    and "slice_view (snd (sentry__slice_consume_if a c)) =
      (if \<exists>r. slice_view a = c # r then tl (slice_view a) else slice_view a)"
    and "slice_wf (snd (sentry__slice_consume_if a c))"
proof -
  have empty: "len a = 0 \<Longrightarrow> slice_view a = []"
    by (simp add: slice_view_def)
  show "fst (sentry__slice_consume_if a c) \<longleftrightarrow> (\<exists>r. slice_view a = c # r)"
    using assms empty slice_view_Cons [of a]
    by (cases "len a = 0") (auto simp: sentry__slice_consume_if_def)
  show "slice_view (snd (sentry__slice_consume_if a c)) =
      (if \<exists>r. slice_view a = c # r then tl (slice_view a) else slice_view a)"
    using assms empty slice_view_Cons [of a]
    by (cases "len a = 0") (auto simp: sentry__slice_consume_if_def slice_view_def [of "a\<lparr>ptr := _, len := _\<rparr>"])
  show "slice_wf (snd (sentry__slice_consume_if a c))"
    using assms by (auto simp: sentry__slice_consume_if_def slice_wf_def)
qed

lemma consume_if_len [c_bounds]: "len (snd (sentry__slice_consume_if a c)) \<le> len a"
  by (simp add: sentry__slice_consume_if_def)

subsection \<open>Trimming\<close>

lemma trim_front_view:
  "slice_wf a \<Longrightarrow> slice_wf (trim_front a) \<and> slice_view (trim_front a) = dropWhile is_space (slice_view a)"
proof (induction a rule: trim_front.induct)
  case (1 a)
  show ?case
  proof (cases "0 < len a \<and> is_space (ptr a ! 0)")
    case True
    let ?b = "a\<lparr>ptr := drop 1 (ptr a), len := len a - 1\<rparr>"
    have "slice_wf ?b" using 1(2) by (auto simp: slice_wf_def)
    with 1(1) True have ih: "slice_wf (trim_front ?b) \<and>
        slice_view (trim_front ?b) = dropWhile is_space (slice_view ?b)" by blast
    have "slice_view a = ptr a ! 0 # slice_view ?b"
      using slice_view_Cons [OF 1(2)] True by (simp add: slice_view_def)
    then have "dropWhile is_space (slice_view a) = dropWhile is_space (slice_view ?b)"
      using True by simp
    with ih show ?thesis using True by (simp add: trim_front.simps [of a])
  next
    case False
    have "dropWhile is_space (slice_view a) = slice_view a"
    proof (cases "len a = 0")
      case True
      then show ?thesis by (simp add: slice_view_def)
    next
      case False
      then show ?thesis
        using slice_view_Cons [OF 1(2)] \<open>\<not> (0 < len a \<and> is_space (ptr a ! 0))\<close> by simp
    qed
    moreover have "trim_front a = a" using False by (simp only: trim_front.simps [of a] if_False)
    ultimately show ?thesis using 1(2) by simp
  qed
qed

lemma trim_back_view:
  "slice_wf a \<Longrightarrow>
     slice_wf (trim_back a) \<and> slice_view (trim_back a) = rev (dropWhile is_space (rev (slice_view a)))"
proof (induction a rule: trim_back.induct)
  case (1 a)
  have snoc: "0 < len a \<Longrightarrow> slice_view a = take (len a - 1) (ptr a) @ [ptr a ! (len a - 1)]"
    using 1(2) by (cases "len a") (auto simp: slice_view_def slice_wf_def take_Suc_conv_app_nth)
  show ?case
  proof (cases "0 < len a \<and> is_space (ptr a ! (len a - 1))")
    case True
    let ?b = "a\<lparr>len := len a - 1\<rparr>"
    have "slice_wf ?b" using 1(2) by (auto simp: slice_wf_def)
    with 1(1) True have "slice_wf (trim_back ?b) \<and>
        slice_view (trim_back ?b) = rev (dropWhile is_space (rev (slice_view ?b)))" by blast
    moreover have "slice_view a = slice_view ?b @ [ptr a ! (len a - 1)]"
      using snoc True by (simp add: slice_view_def)
    ultimately show ?thesis using True by (simp add: trim_back.simps [of a])
  next
    case False
    have "rev (dropWhile is_space (rev (slice_view a))) = slice_view a"
    proof (cases "len a = 0")
      case True
      then show ?thesis by (simp add: slice_view_def)
    next
      case False
      then show ?thesis
        using snoc \<open>\<not> (0 < len a \<and> is_space (ptr a ! (len a - 1)))\<close> by simp
    qed
    moreover have "trim_back a = a" using False by (simp only: trim_back.simps [of a] if_False)
    ultimately show ?thesis using 1(2) by simp
  qed
qed

definition trim_spec :: "string \<Rightarrow> string" where
  "trim_spec s = rev (dropWhile is_space (rev (dropWhile is_space s)))"

lemma trim_view [c_views]:
  assumes "slice_wf a"
  shows "slice_view (sentry__slice_trim a) = trim_spec (slice_view a)"
    and "slice_wf (sentry__slice_trim a)"
  using trim_front_view [OF assms] trim_back_view
  by (auto simp: sentry__slice_trim_def trim_spec_def)

lemma trim_spec_decomp:
  "\<exists>pre post. s = pre @ trim_spec s @ post \<and> (\<forall>c \<in> set pre \<union> set post. is_space c)"
proof -
  have "s = takeWhile is_space s @ dropWhile is_space s" by simp
  moreover have "dropWhile is_space s =
      trim_spec s @ rev (takeWhile is_space (rev (dropWhile is_space s)))"
    unfolding trim_spec_def by (metis rev_append rev_rev_ident takeWhile_dropWhile_id)
  ultimately have "s = takeWhile is_space s @ trim_spec s @
      rev (takeWhile is_space (rev (dropWhile is_space s)))" by simp
  moreover have "\<forall>c \<in> set (takeWhile is_space s) \<union>
      set (rev (takeWhile is_space (rev (dropWhile is_space s)))). is_space c"
    by (auto dest: set_takeWhileD)
  ultimately show ?thesis by blast
qed

lemma trim_spec_last: "trim_spec s \<noteq> [] \<Longrightarrow> \<not> is_space (last (trim_spec s))"
  unfolding trim_spec_def
  by (metis Nil_is_rev_conv hd_dropWhile last_rev)

lemma trim_spec_hd: "trim_spec s \<noteq> [] \<Longrightarrow> \<not> is_space (hd (trim_spec s))"
proof -
  assume ne: "trim_spec s \<noteq> []"
  obtain post where p: "dropWhile is_space s = trim_spec s @ post"
    unfolding trim_spec_def by (metis rev_append rev_rev_ident takeWhile_dropWhile_id)
  then have "dropWhile is_space s \<noteq> []" using ne by simp
  then have "\<not> is_space (hd (dropWhile is_space s))" by (rule hd_dropWhile)
  then show ?thesis using p ne by simp
qed

lemma trim_spec_id: "\<lbrakk>s = [] \<or> \<not> is_space (hd s); s = [] \<or> \<not> is_space (last s)\<rbrakk> \<Longrightarrow> trim_spec s = s"
proof -
  assume h: "s = [] \<or> \<not> is_space (hd s)" and l: "s = [] \<or> \<not> is_space (last s)"
  have "dropWhile is_space s = s" using h by (cases s) auto
  moreover have "dropWhile is_space (rev s) = rev s" using l by (cases s rule: rev_cases) auto
  ultimately show ?thesis by (simp add: trim_spec_def)
qed

lemma trim_len [c_bounds]: "len (sentry__slice_trim a) \<le> len a"
proof -
  have f: "len (trim_front b) \<le> len b" for b
  proof (induction b rule: trim_front.induct)
    case (1 b)
    then show ?case by (subst trim_front.simps) (auto dest: le_trans)
  qed
  have g: "len (trim_back b) \<le> len b" for b
  proof (induction b rule: trim_back.induct)
    case (1 b)
    then show ?case by (subst trim_back.simps) (auto dest: le_trans)
  qed
  show ?thesis using f [of a] g [of "trim_front a"] by (simp add: sentry__slice_trim_def)
qed

lemma trim_spec_pad: "\<forall>c \<in> set pad. is_space c \<Longrightarrow> trim_spec (pad @ s) = trim_spec s"
  by (simp add: trim_spec_def dropWhile_append)

subsection \<open>Consuming a number\<close>

lemma consume_uint64_len [c_bounds]:
  "sentry__slice_consume_uint64 a = Some (v, b) \<Longrightarrow> len b < len a"
proof -
  assume c: "sentry__slice_consume_uint64 a = Some (v, b)"
  obtain val diff r where s: "strtoull (take (len a) (ptr a)) = (val, diff, r)"
    by (metis prod_cases3)
  with c have "diff \<noteq> 0" and "b = a\<lparr>len := len a - diff, ptr := drop diff (ptr a)\<rparr>"
    by (auto simp: sentry__slice_consume_uint64_def split: if_splits)
  moreover have "diff \<le> len a"
    using strtoull_bound [OF s] by simp
  ultimately show ?thesis by auto
qed

lemma consume_uint64_wf:
  "slice_wf a \<Longrightarrow> sentry__slice_consume_uint64 a = Some (v, b) \<Longrightarrow> slice_wf b"
  by (auto simp: sentry__slice_consume_uint64_def slice_wf_def Let_def split: prod.splits if_splits)

lemma consume_uint64_dec:
  assumes wf: "slice_wf a" and v: "slice_view a = dec_str n @ rest"
    and n: "n < 2 ^ 64" and rest: "rest = [] \<or> \<not> isdigit (hd rest)"
  obtains b where "sentry__slice_consume_uint64 a = Some (of_nat n, b)"
    and "slice_view b = rest" and "slice_wf b"
proof -
  let ?d = "length (dec_str n)"
  let ?b = "a\<lparr>len := len a - ?d, ptr := drop ?d (ptr a)\<rparr>"
  have st: "strtoull (take (len a) (ptr a)) = (of_nat n, ?d, False)"
    using strtoull_dec_str [OF n rest] v by (simp add: slice_view_def)
  have tk: "take ?d (take (len a) (ptr a)) = dec_str n"
    using v by (simp add: slice_view_def)
  have "CHR ''-'' \<notin> set (dec_str n)"
    using dec_str_digits [of n] isdigit_not_sign by blast
  then have "sentry__slice_consume_uint64 a = Some (of_nat n, ?b)"
    using st tk by (simp add: sentry__slice_consume_uint64_def Let_def)
  moreover have "slice_view ?b = rest"
    using v by (simp add: slice_view_def flip: drop_take)
  moreover have "slice_wf ?b" using wf by (auto simp: slice_wf_def)
  ultimately show ?thesis by (rule that)
qed

end
