(* ===== verification/RateLimiter.thy ===== *)
theory RateLimiter
  imports Slices
begin

text \<open>
  \<open>sentry_ratelimiter.c\<close>: the per-category "disabled until" clock of the transport, updated from
  the \<open>X-Sentry-Rate-Limits\<close> header, the \<open>Retry-After\<close> header and a bare 429 response.
  \<open>sentry__monotonic_time\<close> is the environment: a function from the number of the call to the
  time it returns (in milliseconds).
\<close>

record sentry_rate_limiter_t =
  disabled_until :: "u64 list"

abbreviation SENTRY_RL_CATEGORY_ANY :: nat where "SENTRY_RL_CATEGORY_ANY \<equiv> 0"
abbreviation SENTRY_RL_CATEGORY_ERROR :: nat where "SENTRY_RL_CATEGORY_ERROR \<equiv> 1"
abbreviation SENTRY_RL_CATEGORY_SESSION :: nat where "SENTRY_RL_CATEGORY_SESSION \<equiv> 2"
abbreviation SENTRY_RL_CATEGORY_TRANSACTION :: nat where "SENTRY_RL_CATEGORY_TRANSACTION \<equiv> 3"
abbreviation SENTRY_RL_CATEGORY_REPLAY :: nat where "SENTRY_RL_CATEGORY_REPLAY \<equiv> 4"

abbreviation MAX_RATE_LIMITS :: nat where "MAX_RATE_LIMITS \<equiv> 5"
abbreviation MAX_RETRY_AFTER :: u64 where "MAX_RETRY_AFTER \<equiv> 86400"

definition calculate_disabled_until :: "u64 \<Rightarrow> u64 \<Rightarrow> u64" where
  "calculate_disabled_until now retry_after =
     (let retry_after = (if retry_after > MAX_RETRY_AFTER then MAX_RETRY_AFTER else retry_after)
      in now + retry_after * 1000)"

definition sentry__rate_limiter_new :: sentry_rate_limiter_t where
  "sentry__rate_limiter_new = \<lparr>disabled_until = replicate MAX_RATE_LIMITS 0\<rparr>"

definition rl_set :: "nat \<Rightarrow> u64 \<Rightarrow> sentry_rate_limiter_t \<Rightarrow> sentry_rate_limiter_t" where
  "rl_set i t rl = rl\<lparr>disabled_until := (disabled_until rl)[i := t]\<rparr>"

definition set_category :: "sentry_rate_limiter_t \<Rightarrow> sentry_slice_t \<Rightarrow> u64 \<Rightarrow> sentry_rate_limiter_t" where
  "set_category rl category retry_after =
     (if sentry__slice_eqs category ''error'' then rl_set SENTRY_RL_CATEGORY_ERROR retry_after rl
      else if sentry__slice_eqs category ''session'' then rl_set SENTRY_RL_CATEGORY_SESSION retry_after rl
      else if sentry__slice_eqs category ''transaction''
      then rl_set SENTRY_RL_CATEGORY_TRANSACTION retry_after rl
      else if sentry__slice_eqs category ''replay'' then rl_set SENTRY_RL_CATEGORY_REPLAY retry_after rl
      else rl)"

definition next_categories :: "sentry_slice_t \<Rightarrow> sentry_slice_t" where
  "next_categories categories =
     (let category = sentry__slice_split_at categories CHR '';'';
          categories = sentry__slice_advance categories (len category)
      in snd (sentry__slice_consume_if categories CHR '';''))"

lemma next_categories_less: "0 < len c \<Longrightarrow> len (next_categories c) < len c"
proof (cases "len (sentry__slice_split_at c CHR '';'') = 0")
  case True
  assume c: "0 < len c"
  with True have "ptr c ! 0 = CHR '';''"
    by (auto simp: sentry__slice_split_at_def for_first_Some split: option.splits)
  with True c show ?thesis
    by (simp add: next_categories_def sentry__slice_advance_def sentry__slice_consume_if_def)
next
  case False
  assume c: "0 < len c"
  have "len (next_categories c) \<le> len (sentry__slice_advance c (len (sentry__slice_split_at c CHR '';'')))"
    by (simp add: next_categories_def Let_def consume_if_len del: advance_len)
  also have "\<dots> < len c" using False c by simp
  finally show ?thesis .
qed

text \<open>The inner loop over the \<open>;\<close>-separated categories of one limit.\<close>

function update_categories ::
  "sentry_rate_limiter_t \<Rightarrow> sentry_slice_t \<Rightarrow> u64 \<Rightarrow> sentry_rate_limiter_t" where
  "update_categories rl categories retry_after =
     (if len categories > 0
      then update_categories
        (set_category rl (sentry__slice_split_at categories CHR '';'') retry_after)
        (next_categories categories) retry_after
      else rl)"
  by pat_completeness auto
termination
  by (relation "measure (\<lambda>(rl, c, r). len c)") (auto simp: next_categories_less)

declare update_categories.simps [simp del]

text \<open>The outer loop: \<open>clock k\<close> is what the \<open>k\<close>-th call of \<open>sentry__monotonic_time\<close> returns.\<close>

function update_from_header_loop ::
  "(nat \<Rightarrow> u64) \<Rightarrow> nat \<Rightarrow> sentry_rate_limiter_t \<Rightarrow> sentry_slice_t \<Rightarrow> bool \<times> sentry_rate_limiter_t" where
  "update_from_header_loop clock k rl sl =
     (case sentry__slice_consume_uint64 (sentry__slice_trim sl) of
        None \<Rightarrow> (False, rl)
      | Some (retry_after, sl) \<Rightarrow>
          let retry_after = calculate_disabled_until (clock k) retry_after;
              colon = sentry__slice_consume_if sl CHR '':''
          in if \<not> fst colon then (False, rl)
             else let sl = snd colon;
                      categories = sentry__slice_split_at sl CHR '':'';
                      rl = (if len categories = 0 then rl_set SENTRY_RL_CATEGORY_ANY retry_after rl else rl);
                      rl = update_categories rl categories retry_after;
                      next = sentry__slice_find sl CHR '',''
                  in if next \<noteq> SIZE_MAX
                     then update_from_header_loop clock (Suc k) rl (sentry__slice_advance sl (next + 1))
                     else (True, rl))"
  by pat_completeness auto
termination
proof (relation "measure (\<lambda>(clock, k, rl, s). len s)", goal_cases)
  case 1
  show ?case by simp
next
  case (2 clock k rl s p r s1)
  then have "len s1 < len (sentry__slice_trim s)"
    using consume_uint64_len by blast
  moreover have "len (snd (sentry__slice_consume_if s1 CHR '':'')) \<le> len s1"
    by (rule consume_if_len)
  ultimately show ?case using trim_len [of s] 2 by auto
qed

declare update_from_header_loop.simps [simp del]

definition sentry__rate_limiter_update_from_header ::
  "(nat \<Rightarrow> u64) \<Rightarrow> sentry_rate_limiter_t \<Rightarrow> string \<Rightarrow> bool \<times> sentry_rate_limiter_t" where
  "sentry__rate_limiter_update_from_header clock rl sentry_header =
     update_from_header_loop clock 0 rl (sentry__slice_from_str (Some sentry_header))"

definition sentry__rate_limiter_update_from_http_retry_after ::
  "u64 \<Rightarrow> sentry_rate_limiter_t \<Rightarrow> string \<Rightarrow> bool \<times> sentry_rate_limiter_t" where
  "sentry__rate_limiter_update_from_http_retry_after now rl retry_after =
     (let eta = (case sentry__slice_consume_uint64 (sentry__slice_from_str (Some retry_after)) of
                   Some (n, _) \<Rightarrow> n | None \<Rightarrow> 60)
      in (True, rl_set SENTRY_RL_CATEGORY_ANY (calculate_disabled_until now eta) rl))"

definition sentry__rate_limiter_update_from_429 ::
  "u64 \<Rightarrow> sentry_rate_limiter_t \<Rightarrow> bool \<times> sentry_rate_limiter_t" where
  "sentry__rate_limiter_update_from_429 now rl =
     (True, rl_set SENTRY_RL_CATEGORY_ANY (now + 60 * 1000) rl)"

definition sentry__rate_limiter_is_disabled :: "u64 \<Rightarrow> sentry_rate_limiter_t \<Rightarrow> nat \<Rightarrow> bool" where
  "sentry__rate_limiter_is_disabled now rl category \<longleftrightarrow>
     disabled_until rl ! SENTRY_RL_CATEGORY_ANY > now \<or> disabled_until rl ! category > now"

section \<open>The header grammar and what the parser makes of it\<close>

text \<open>One limit of the header: seconds, categories and the rest (the scope), with the white
  space that may precede it.\<close>

record rate_limit =
  rl_pad :: string
  rl_seconds :: nat
  rl_categories :: "string list"
  rl_scope :: string

fun join :: "char \<Rightarrow> string list \<Rightarrow> string" where
  "join c [] = []"
| "join c [s] = s"
| "join c (s # t # ss) = s @ c # join c (t # ss)"

definition show_limit :: "rate_limit \<Rightarrow> string" where
  "show_limit l = rl_pad l @ dec_str (rl_seconds l) @ CHR '':'' #
     join CHR '';'' (rl_categories l) @ CHR '':'' # rl_scope l"

definition limit_ok :: "rate_limit \<Rightarrow> bool" where
  "limit_ok l \<longleftrightarrow> (\<forall>c \<in> set (rl_pad l). is_space c) \<and> rl_seconds l < 2 ^ 64 \<and>
     (\<forall>s \<in> set (rl_categories l). \<forall>c \<in> set s. c \<notin> {CHR '':'', CHR '';'', CHR '',''}) \<and>
     (\<forall>c \<in> set (rl_scope l). c \<noteq> CHR '','' \<and> \<not> is_space c)"

definition category_index :: "string \<Rightarrow> nat option" where
  "category_index s =
     (if s = ''error'' then Some SENTRY_RL_CATEGORY_ERROR
      else if s = ''session'' then Some SENTRY_RL_CATEGORY_SESSION
      else if s = ''transaction'' then Some SENTRY_RL_CATEGORY_TRANSACTION
      else if s = ''replay'' then Some SENTRY_RL_CATEGORY_REPLAY else None)"

definition apply_category :: "u64 \<Rightarrow> string \<Rightarrow> sentry_rate_limiter_t \<Rightarrow> sentry_rate_limiter_t" where
  "apply_category t s rl = (case category_index s of None \<Rightarrow> rl | Some i \<Rightarrow> rl_set i t rl)"

definition apply_limit :: "u64 \<Rightarrow> rate_limit \<Rightarrow> sentry_rate_limiter_t \<Rightarrow> sentry_rate_limiter_t" where
  "apply_limit now l rl =
     (let t = calculate_disabled_until now (of_nat (rl_seconds l))
      in if concat (rl_categories l) = [] \<and> length (rl_categories l) \<le> 1
         then rl_set SENTRY_RL_CATEGORY_ANY t rl
         else fold (apply_category t) (rl_categories l) rl)"

fun apply_limits ::
  "(nat \<Rightarrow> u64) \<Rightarrow> nat \<Rightarrow> rate_limit list \<Rightarrow> sentry_rate_limiter_t \<Rightarrow> sentry_rate_limiter_t" where
  "apply_limits clock k [] rl = rl"
| "apply_limits clock k (l # ls) rl = apply_limits clock (Suc k) ls (apply_limit (clock k) l rl)"

lemma set_category_view:
  "slice_wf c \<Longrightarrow> set_category rl c t = apply_category t (slice_view c) rl"
  by (simp add: set_category_def apply_category_def category_index_def slice_eqs_view)

lemma next_categories_view:
  assumes "slice_wf c" and "slice_view c = s @ rest" and "CHR '';'' \<notin> set s"
    and "rest = [] \<or> hd rest = CHR '';''"
  shows "slice_wf (next_categories c)" and "slice_view (next_categories c) = tl rest"
    and "slice_view (sentry__slice_split_at c CHR '';'') = s"
proof -
  have s: "takeWhile (\<lambda>x. x \<noteq> CHR '';'') (s @ rest) = s"
    using assms(3,4) by (cases rest) (auto intro: takeWhile_all takeWhile_all_prefix)
  then show v: "slice_view (sentry__slice_split_at c CHR '';'') = s"
    using assms(1,2) by (simp add: split_at_view)
  then have l: "len (sentry__slice_split_at c CHR '';'') = length s"
    using assms(1) slice_view_length [OF split_at_wf [OF assms(1)]] by metis
  show "slice_wf (next_categories c)"
    using assms(1) by (simp add: next_categories_def Let_def consume_if_view)
  show "slice_view (next_categories c) = tl rest"
    using assms l by (cases rest) (auto simp: next_categories_def Let_def consume_if_view)
qed

lemma update_categories_view:
  assumes "slice_wf c" and "slice_view c = join CHR '';'' ss"
    and "\<forall>s \<in> set ss. CHR '';'' \<notin> set s" and "concat ss \<noteq> [] \<or> 1 < length ss"
  shows "update_categories rl c t = fold (apply_category t) ss rl"
  using assms
proof (induction "CHR '';''" ss arbitrary: c rl rule: join.induct)
  case 1
  then show ?case by simp
next
  case (2 s)
  have pos: "len c > 0" using 2 slice_view_length [of c] by (cases "len c") auto
  note n = next_categories_view [OF 2(1), of s "[]"]
  have "slice_view (next_categories c) = []" and wf: "slice_wf (next_categories c)"
    using n 2 by simp_all
  then have "len (next_categories c) = 0"
    using slice_view_length [OF wf] by simp
  then have "update_categories (set_category rl (sentry__slice_split_at c CHR '';'') t) (next_categories c) t
      = apply_category t s rl"
    using n 2 set_category_view [OF split_at_wf [OF 2(1)]]
    by (subst update_categories.simps) simp
  with pos show ?case by (subst update_categories.simps) simp
next
  case (3 s u ss)
  have pos: "len c > 0" using 3 slice_view_length [of c] by (cases "len c") auto
  note n = next_categories_view [OF 3(2), of s "CHR '';'' # join CHR '';'' (u # ss)"]
  have step: "update_categories rl c t =
      update_categories (apply_category t s rl) (next_categories c) t"
    using pos n 3 set_category_view [OF split_at_wf [OF 3(2)]]
    by (subst update_categories.simps) simp
  show ?case
  proof (cases "concat (u # ss) \<noteq> [] \<or> 1 < length (u # ss)")
    case True
    then show ?thesis using step 3 n by simp
  next
    case False
    then have [simp]: "u = []" "ss = []" by auto
    have wf: "slice_wf (next_categories c)" and "slice_view (next_categories c) = []"
      using n 3 by simp_all
    then have "len (next_categories c) = 0" using slice_view_length [OF wf] by simp
    then show ?thesis
      using step by (simp add: update_categories.simps apply_category_def category_index_def)
  qed
qed

lemma join_nil: "join c ss = [] \<longleftrightarrow> concat ss = [] \<and> length ss \<le> 1"
  by (induction c ss rule: join.induct) auto

lemma join_set: "x \<in> set (join c ss) \<Longrightarrow> x = c \<or> (\<exists>s \<in> set ss. x \<in> set s)"
  by (induction c ss rule: join.induct) auto


lemma join_last: "ss \<noteq> [] \<Longrightarrow> \<forall>s \<in> set ss. s \<noteq> [] \<Longrightarrow> join c ss \<noteq> [] \<and> last (join c ss) = last (last ss)"
  by (induction c ss rule: join.induct) auto

lemma show_limit_last: "limit_ok l \<Longrightarrow> show_limit l \<noteq> [] \<and> \<not> is_space (last (show_limit l))"
  by (auto simp: show_limit_def limit_ok_def is_space_def)

lemma trim_limit:
  assumes "limit_ok l" and "\<not> is_space (last (show_limit l @ rest))"
  shows "trim_spec (show_limit l @ rest) = dec_str (rl_seconds l) @ CHR '':'' #
     join CHR '';'' (rl_categories l) @ CHR '':'' # rl_scope l @ rest" (is "_ = ?w")
proof -
  have split: "show_limit l @ rest = rl_pad l @ ?w"
    by (simp add: show_limit_def)
  obtain d ds where d: "dec_str (rl_seconds l) = d # ds"
    by (cases "dec_str (rl_seconds l)") auto
  have "isdigit d" using dec_str_digits [of "rl_seconds l"] d by simp
  then have "\<not> is_space (hd ?w)"
    using d by (auto simp: isdigit_def is_space_def)
  moreover have "\<not> is_space (last ?w)"
    using assms(2) split by (simp del: append.simps)
  ultimately have "trim_spec ?w = ?w" by (intro trim_spec_id) auto
  then show ?thesis
    using trim_spec_pad [of "rl_pad l" ?w] assms(1) unfolding split limit_ok_def by auto
qed

text \<open>What remains of one limit once its number and colon are consumed.\<close>

lemma limit_tail:
  assumes l: "limit_ok l" and wf: "slice_wf c" and size: "length (slice_view c) < SIZE_MAX"
    and v: "slice_view c = join CHR '';'' (rl_categories l) @ CHR '':'' # rl_scope l @ rest"
    and rest: "rest = [] \<or> hd rest = CHR '',''"
  shows "slice_view (sentry__slice_split_at c CHR '':'') = join CHR '';'' (rl_categories l)"
    and "sentry__slice_find c CHR '','' =
      (if rest = [] then SIZE_MAX else length (slice_view c) - length rest)"
proof -
  have cats: "x \<in> set (join CHR '';'' (rl_categories l)) \<Longrightarrow> x \<noteq> CHR '':'' \<and> x \<noteq> CHR '',''" for x
    using l join_set [of x "CHR '';''" "rl_categories l"] by (auto simp: limit_ok_def)
  then have "takeWhile (\<lambda>x. x \<noteq> CHR '':'') (slice_view c) = join CHR '';'' (rl_categories l)"
    unfolding v by (intro takeWhile_all_prefix) auto
  then show "slice_view (sentry__slice_split_at c CHR '':'') = join CHR '';'' (rl_categories l)"
    using wf by (simp add: split_at_view)
  let ?p = "join CHR '';'' (rl_categories l) @ CHR '':'' # rl_scope l"
  have p: "\<forall>x \<in> set ?p. x \<noteq> CHR '',''"
    using cats l by (auto simp: limit_ok_def)
  have v': "slice_view c = ?p @ rest" using v by simp
  show "sentry__slice_find c CHR '','' =
      (if rest = [] then SIZE_MAX else length (slice_view c) - length rest)"
  proof (cases rest)
    case Nil
    then show ?thesis using p v' wf by (auto simp: find_view)
  next
    case (Cons x r)
    then have "takeWhile (\<lambda>x. x \<noteq> CHR '','') (slice_view c) = ?p"
      using p rest unfolding v' by (auto intro!: takeWhile_all_prefix)
    then show ?thesis using Cons rest v' wf by (simp add: find_view)
  qed
qed

lemma update_limit:
  assumes l: "limit_ok l" and wf: "slice_wf c"
    and v: "slice_view c = join CHR '';'' (rl_categories l)"
  shows "update_categories
      (if len c = 0 then rl_set SENTRY_RL_CATEGORY_ANY (calculate_disabled_until now (of_nat (rl_seconds l))) rl else rl)
      c (calculate_disabled_until now (of_nat (rl_seconds l))) = apply_limit now l rl"
proof (cases "len c = 0")
  case True
  then have "join CHR '';'' (rl_categories l) = []"
    using v by (simp add: slice_view_def)
  with True show ?thesis
    by (auto simp: update_categories.simps apply_limit_def join_nil Let_def)
next
  case False
  then have ne: "join CHR '';'' (rl_categories l) \<noteq> []"
    using v slice_view_length [OF wf] by auto
  have "\<forall>s \<in> set (rl_categories l). CHR '';'' \<notin> set s"
    using l by (auto simp: limit_ok_def)
  with False ne show ?thesis
    using update_categories_view [OF wf v] by (auto simp: apply_limit_def join_nil Let_def)
qed

lemma header_step:
  assumes l: "limit_ok l" and wf: "slice_wf s" and v: "slice_view s = show_limit l @ rest"
    and size: "length (slice_view s) < SIZE_MAX" and rest: "rest = [] \<or> hd rest = CHR '',''"
    and last: "\<not> is_space (last (show_limit l @ rest))"
  obtains c where "slice_wf c" and "slice_view c = tl rest"
    and "update_from_header_loop clock k rl s =
      (if rest = [] then (True, apply_limit (clock k) l rl)
       else update_from_header_loop clock (Suc k) (apply_limit (clock k) l rl) c)"
proof -
  let ?n = "rl_seconds l"
  let ?w = "join CHR '';'' (rl_categories l) @ CHR '':'' # rl_scope l @ rest"
  have tv: "slice_view (sentry__slice_trim s) = dec_str ?n @ CHR '':'' # ?w"
    using trim_view [OF wf] trim_limit [OF l last] v by simp
  have twf: "slice_wf (sentry__slice_trim s)" using trim_view [OF wf] by simp
  have n: "?n < 2 ^ 64" using l by (simp add: limit_ok_def)
  have colon: "CHR '':'' # ?w = [] \<or> \<not> isdigit (hd (CHR '':'' # ?w))" by (simp add: isdigit_def)
  obtain b where b: "sentry__slice_consume_uint64 (sentry__slice_trim s) = Some (of_nat ?n, b)"
    "slice_view b = CHR '':'' # ?w" "slice_wf b"
    by (rule consume_uint64_dec [OF twf tv n colon])
  define c where "c = snd (sentry__slice_consume_if b CHR '':'')"
  have c: "fst (sentry__slice_consume_if b CHR '':'')" "slice_wf c" "slice_view c = ?w"
    using b consume_if_view [OF b(3)] by (simp_all add: c_def)
  have csize: "length (slice_view c) < SIZE_MAX"
    using size v c(3) by (simp add: show_limit_def)
  note t = limit_tail [OF l c(2) csize c(3) rest]
  note u = update_limit [OF l split_at_wf [OF c(2)] t(1)]
  let ?i = "length (slice_view c) - length rest"
  have step: "update_from_header_loop clock k rl s =
      (if rest = [] then (True, apply_limit (clock k) l rl)
       else update_from_header_loop clock (Suc k) (apply_limit (clock k) l rl)
         (sentry__slice_advance c (?i + 1)))"
    using b c t u csize
    by (subst update_from_header_loop.simps) (simp add: c_def Let_def)
  have "slice_view (sentry__slice_advance c (?i + 1)) = tl rest"
    using c(3) by (cases rest) simp_all
  with step c(2) show ?thesis by (intro that) auto
qed

lemma header_loop_limits:
  assumes "ls \<noteq> []" and "\<forall>l \<in> set ls. limit_ok l" and "slice_wf s"
    and "slice_view s = join CHR '','' (map show_limit ls)" and "length (slice_view s) < SIZE_MAX"
  shows "update_from_header_loop clock k rl s = (True, apply_limits clock k ls rl)"
  using assms
proof (induction ls arbitrary: s k rl)
  case Nil
  then show ?case by simp
next
  case (Cons l ls)
  define rest where "rest = (if ls = [] then [] else CHR '','' # join CHR '','' (map show_limit ls))"
  have v: "slice_view s = show_limit l @ rest"
    using Cons.prems(4) by (cases ls) (simp_all add: rest_def)
  have "\<not> is_space (last (join CHR '','' (map show_limit (l # ls))))"
    using join_last [of "map show_limit (l # ls)" "CHR '',''"] Cons.prems(2) show_limit_last
    by (simp add: last_map)
  then have last: "\<not> is_space (last (show_limit l @ rest))"
    using v Cons.prems(4) by simp
  have rest: "rest = [] \<or> hd rest = CHR '',''" by (simp add: rest_def)
  have l: "limit_ok l" using Cons.prems(2) by simp
  obtain c where c: "slice_wf c" "slice_view c = tl rest"
    "update_from_header_loop clock k rl s =
      (if rest = [] then (True, apply_limit (clock k) l rl)
       else update_from_header_loop clock (Suc k) (apply_limit (clock k) l rl) c)"
    by (rule header_step [OF l Cons.prems(3) v Cons.prems(5) rest last])
  show ?case
  proof (cases "ls = []")
    case True
    then show ?thesis using c(3) by (simp add: rest_def)
  next
    case False
    then have cv: "slice_view c = join CHR '','' (map show_limit ls)"
      using c(2) by (simp add: rest_def)
    then have "length (slice_view c) < SIZE_MAX"
      using Cons.prems(5) v False by (simp add: rest_def)
    then show ?thesis
      using Cons.IH [OF False _ c(1) cv] Cons.prems(2) c(3) False by (simp add: rest_def)
  qed
qed

section \<open>Bounds\<close>

definition rl_wf :: "sentry_rate_limiter_t \<Rightarrow> bool" where
  "rl_wf rl \<longleftrightarrow> length (disabled_until rl) = MAX_RATE_LIMITS"

text \<open>No entry lies further in the future than \<open>b\<close>.\<close>

definition rl_within :: "nat \<Rightarrow> sentry_rate_limiter_t \<Rightarrow> bool" where
  "rl_within b rl \<longleftrightarrow> rl_wf rl \<and> (\<forall>t \<in> set (disabled_until rl). unat t \<le> b)"

lemma rl_within_set: "rl_within b rl \<Longrightarrow> unat t \<le> b \<Longrightarrow> rl_within b (rl_set i t rl)"
  by (auto simp: rl_within_def rl_wf_def rl_set_def dest!: set_update_subset_insert [THEN subsetD])

lemma calculate_disabled_until_bound:
  assumes "unat now + 86400000 < 2 ^ 64"
  shows "unat (calculate_disabled_until now r) \<le> unat now + 86400000"
proof -
  define q where "q = (if r > MAX_RETRY_AFTER then MAX_RETRY_AFTER else r)"
  have q: "unat q \<le> 86400"
    by (auto simp: q_def word_less_nat_alt)
  then have "unat (q * 1000) = unat q * 1000"
    by (simp add: unat_word_ariths)
  then have "unat (now + q * 1000) = unat now + unat q * 1000"
    using q assms by (simp add: unat_word_ariths)
  then show ?thesis using q by (simp add: calculate_disabled_until_def q_def Let_def)
qed

lemma set_category_within: "rl_within b rl \<Longrightarrow> unat t \<le> b \<Longrightarrow> rl_within b (set_category rl c t)"
  by (simp add: set_category_def rl_within_set)

lemma update_categories_within:
  "rl_within b rl \<Longrightarrow> unat t \<le> b \<Longrightarrow> rl_within b (update_categories rl c t)"
proof (induction rl c t rule: update_categories.induct)
  case (1 rl c t)
  then show ?case by (subst update_categories.simps) (simp add: set_category_within)
qed

lemma header_loop_within:
  assumes "\<forall>k. unat (clock k) + 86400000 \<le> b" and "b < 2 ^ 64" and "rl_within b rl"
  shows "rl_within b (snd (update_from_header_loop clock k rl s))"
  using assms
proof (induction clock k rl s rule: update_from_header_loop.induct)
  case (1 clock k rl s)
  show ?case
  proof (cases "sentry__slice_consume_uint64 (sentry__slice_trim s)")
    case None
    with "1.prems" show ?thesis by (subst update_from_header_loop.simps) simp
  next
    case (Some p)
    then obtain r c where p: "sentry__slice_consume_uint64 (sentry__slice_trim s) = Some (r, c)"
      by (cases p) auto
    let ?t = "calculate_disabled_until (clock k) r"
    let ?c = "snd (sentry__slice_consume_if c CHR '':'')"
    let ?cats = "sentry__slice_split_at ?c CHR '':''"
    let ?rl = "if len ?cats = 0 then rl_set SENTRY_RL_CATEGORY_ANY ?t rl else rl"
    have "unat (clock k) + 86400000 < 2 ^ 64"
      using "1.prems"(1,2) order_le_less_trans by blast
    then have t: "unat ?t \<le> b"
      using calculate_disabled_until_bound "1.prems"(1) order_trans by blast
    have "rl_within b ?rl" using "1.prems"(3) t by (simp add: rl_within_set)
    then have "rl_within b (update_categories ?rl ?cats ?t)"
      using t by (rule update_categories_within)
    then show ?thesis
      using "1.IH" [OF p refl] "1.prems" p
      by (subst update_from_header_loop.simps) (simp add: Let_def)
  qed
qed

section \<open>Properties\<close>

text \<open>C20. A well-formed \<open>X-Sentry-Rate-Limits\<close> header is understood exactly: for every list of limits
  (seconds, categories, scope, with any leading white space) the printed header is accepted and
  the resulting state is the limits applied one after the other, each with the time of its own
  clock reading; an empty category list limits everything, unknown categories are ignored.\<close>

theorem rate_limiter_header_applies_limits:
  assumes "ls \<noteq> []" and "\<forall>l \<in> set ls. limit_ok l"
    and "length (join CHR '','' (map show_limit ls)) < SIZE_MAX"
  shows "sentry__rate_limiter_update_from_header clock rl (join CHR '','' (map show_limit ls)) =
     (True, apply_limits clock 0 ls rl)"
  unfolding sentry__rate_limiter_update_from_header_def
  using assms by (intro header_loop_limits) simp_all

theorem rate_limiter_header_applies_limits_witness:
  "sentry__rate_limiter_update_from_header (\<lambda>_. 1000) sentry__rate_limiter_new ''60:error;session:key'' =
     (True, \<lparr>disabled_until = [0, 61000, 61000, 0, 0]\<rparr>)"
proof -
  let ?l = "\<lparr>rl_pad = [], rl_seconds = 60, rl_categories = [''error'', ''session''], rl_scope = ''key''\<rparr>"
  have ok: "limit_ok ?l" by (simp add: limit_ok_def is_space_def)
  have str: "join CHR '','' (map show_limit [?l]) = ''60:error;session:key''"
    by code_simp
  have "sentry__rate_limiter_update_from_header (\<lambda>_. 1000) sentry__rate_limiter_new
      (join CHR '','' (map show_limit [?l])) =
     (True, apply_limits (\<lambda>_. 1000) 0 [?l] sentry__rate_limiter_new)"
    by (rule rate_limiter_header_applies_limits) (use ok str in \<open>simp_all add: SIZE_MAX_def\<close>)
  moreover have "apply_limits (\<lambda>_. 1000) 0 [?l] sentry__rate_limiter_new
      = \<lparr>disabled_until = [0, 61000, 61000, 0, 0]\<rparr>"
    by code_simp
  ultimately show ?thesis unfolding str by metis
qed

text \<open>The rate limiter can never be disabled for more than 24 hours: whatever bytes the server
  sends, if no entry exceeded the bound before and the clock stays 24 hours below it, then no
  entry exceeds it afterwards, and no addition wraps around.\<close>

theorem rate_limiter_header_bounded:
  assumes "\<forall>k. unat (clock k) + 86400000 \<le> b" and "b < 2 ^ 64" and "rl_within b rl"
  shows "rl_within b (snd (sentry__rate_limiter_update_from_header clock rl header))"
  unfolding sentry__rate_limiter_update_from_header_def
  by (rule header_loop_within [OF assms])

theorem rate_limiter_header_bounded_witness:
  "rl_within 86401000 (snd (sentry__rate_limiter_update_from_header (\<lambda>_. 1000)
      sentry__rate_limiter_new ''99999999999999999999:error:''))"
  by (rule rate_limiter_header_bounded)
    (simp_all add: rl_within_def rl_wf_def sentry__rate_limiter_new_def)

end
