(* ===== verification/Values.thy ===== *)
theory Values
  imports Slices
begin

text \<open>
  \<open>sentry_value.c\<close>, seen through the values it denotes.  A \<open>sentry_value_t\<close> is a tree: the
  immediate constants and 32-bit integers, the boxed scalars (always frozen), strings (a blob with
  an explicit length, so NUL bytes may occur inside) and the two containers, each with the frozen
  bit of its \<open>thing_t\<close>.  Object pairs keep their order and, like the \<open>obj_t\<close> array, could hold a
  key twice; keys are stored as C strings.  Doubles are their IEEE-754 bit patterns.  The
  mutating operations return the C result code and the new container.  Reference counts
  and the sharing of containers between values are not modelled.
\<close>

type_synonym double = "64 word"

datatype sentry_value =
    VNull
  | VBool bool
  | VInt32 "32 word"
  | VInt64 i64
  | VUint64 u64
  | VDouble double
  | VString string
  | VList bool "sentry_value list"
  | VObject bool "(string \<times> sentry_value) list"

datatype sentry_value_type_t =
    SENTRY_VALUE_TYPE_NULL | SENTRY_VALUE_TYPE_BOOL | SENTRY_VALUE_TYPE_INT32
  | SENTRY_VALUE_TYPE_INT64 | SENTRY_VALUE_TYPE_UINT64 | SENTRY_VALUE_TYPE_DOUBLE
  | SENTRY_VALUE_TYPE_STRING | SENTRY_VALUE_TYPE_LIST | SENTRY_VALUE_TYPE_OBJECT

datatype sentry_level_t =
    SENTRY_LEVEL_TRACE | SENTRY_LEVEL_DEBUG | SENTRY_LEVEL_INFO
  | SENTRY_LEVEL_WARNING | SENTRY_LEVEL_ERROR | SENTRY_LEVEL_FATAL

fun level_as_string :: "sentry_level_t \<Rightarrow> string" where
  "level_as_string SENTRY_LEVEL_TRACE = ''trace''"
| "level_as_string SENTRY_LEVEL_DEBUG = ''debug''"
| "level_as_string SENTRY_LEVEL_WARNING = ''warning''"
| "level_as_string SENTRY_LEVEL_ERROR = ''error''"
| "level_as_string SENTRY_LEVEL_FATAL = ''fatal''"
| "level_as_string SENTRY_LEVEL_INFO = ''info''"

text \<open>What a C string function sees of a byte buffer.\<close>

definition cstr :: "string \<Rightarrow> string" where
  "cstr s = takeWhile (\<lambda>c. c \<noteq> CHR 0x00) s"

section \<open>Reading\<close>

fun sentry_value_get_type :: "sentry_value \<Rightarrow> sentry_value_type_t" where
  "sentry_value_get_type VNull = SENTRY_VALUE_TYPE_NULL"
| "sentry_value_get_type (VBool _) = SENTRY_VALUE_TYPE_BOOL"
| "sentry_value_get_type (VInt32 _) = SENTRY_VALUE_TYPE_INT32"
| "sentry_value_get_type (VInt64 _) = SENTRY_VALUE_TYPE_INT64"
| "sentry_value_get_type (VUint64 _) = SENTRY_VALUE_TYPE_UINT64"
| "sentry_value_get_type (VDouble _) = SENTRY_VALUE_TYPE_DOUBLE"
| "sentry_value_get_type (VString _) = SENTRY_VALUE_TYPE_STRING"
| "sentry_value_get_type (VList _ _) = SENTRY_VALUE_TYPE_LIST"
| "sentry_value_get_type (VObject _ _) = SENTRY_VALUE_TYPE_OBJECT"

definition sentry_value_is_null :: "sentry_value \<Rightarrow> bool" where
  "sentry_value_is_null v \<longleftrightarrow> v = VNull"

text \<open>Every value that is not a heap thing, and every scalar thing, counts as frozen.\<close>

fun sentry_value_is_frozen :: "sentry_value \<Rightarrow> bool" where
  "sentry_value_is_frozen (VList f _) = f"
| "sentry_value_is_frozen (VObject f _) = f"
| "sentry_value_is_frozen _ = True"

fun sentry_value_get_length :: "sentry_value \<Rightarrow> nat" where
  "sentry_value_get_length (VString s) = length s"
| "sentry_value_get_length (VList _ xs) = length xs"
| "sentry_value_get_length (VObject _ ps) = length ps"
| "sentry_value_get_length _ = 0"

fun sentry_value_get_by_index :: "sentry_value \<Rightarrow> nat \<Rightarrow> sentry_value" where
  "sentry_value_get_by_index (VList _ xs) index = (if index < length xs then xs ! index else VNull)"
| "sentry_value_get_by_index _ index = VNull"

text \<open>\<open>k\<close> is the \<open>k_len\<close> bytes at the key pointer; a stored key matches when it is the same
  C string, so the first matching pair wins.\<close>

fun obj_get :: "(string \<times> sentry_value) list \<Rightarrow> string \<Rightarrow> sentry_value option" where
  "obj_get [] k = None"
| "obj_get ((k', v) # ps) k = (if k = k' then Some v else obj_get ps k)"

fun sentry_value_get_by_key_n :: "sentry_value \<Rightarrow> string \<Rightarrow> sentry_value" where
  "sentry_value_get_by_key_n (VObject _ ps) k = (case obj_get ps k of Some v \<Rightarrow> v | None \<Rightarrow> VNull)"
| "sentry_value_get_by_key_n _ k = VNull"

abbreviation sentry_value_get_by_key :: "sentry_value \<Rightarrow> string \<Rightarrow> sentry_value" where
  "sentry_value_get_by_key \<equiv> sentry_value_get_by_key_n"

fun sentry_value_as_int32 :: "sentry_value \<Rightarrow> 32 word" where
  "sentry_value_as_int32 (VInt32 i) = i"
| "sentry_value_as_int32 _ = 0"

fun sentry_value_as_int64 :: "sentry_value \<Rightarrow> i64" where
  "sentry_value_as_int64 (VInt32 i) = scast i"
| "sentry_value_as_int64 (VInt64 i) = i"
| "sentry_value_as_int64 _ = 0"

fun sentry_value_as_uint64 :: "sentry_value \<Rightarrow> u64" where
  "sentry_value_as_uint64 (VUint64 i) = i"
| "sentry_value_as_uint64 _ = 0"

text \<open>The conversion of an integer of at most 53 bits to the double that represents it exactly:
  sign, biased exponent, and the mantissa without its leading one.\<close>

definition double_of_int :: "int \<Rightarrow> double" where
  "double_of_int n =
     (if n = 0 then 0
      else let m = nat \<bar>n\<bar>; e = length (takeWhile (\<lambda>i. 2 ^ i \<le> m) [1..<53])
           in (if n < 0 then push_bit 63 1 else 0) OR push_bit 52 (of_nat (1023 + e))
              OR of_nat (m * 2 ^ (52 - e) - 2 ^ 52))"

definition double_nan :: double where
  "double_nan = 0x7ff8000000000000"

definition double_is_zero :: "double \<Rightarrow> bool" where
  "double_is_zero d \<longleftrightarrow> d = 0 \<or> d = push_bit 63 1"

definition double_is_finite :: "double \<Rightarrow> bool" where
  "double_is_finite d \<longleftrightarrow> drop_bit 52 d AND 0x7ff \<noteq> 0x7ff"

fun sentry_value_as_double :: "sentry_value \<Rightarrow> double" where
  "sentry_value_as_double (VInt32 i) = double_of_int (sint i)"
| "sentry_value_as_double (VDouble d) = d"
| "sentry_value_as_double _ = double_nan"

fun sentry_value_as_string :: "sentry_value \<Rightarrow> string" where
  "sentry_value_as_string (VString s) = cstr s"
| "sentry_value_as_string _ = ''''"

definition sentry_value_is_true :: "sentry_value \<Rightarrow> bool" where
  "sentry_value_is_true value =
     (if value = VBool True then True
      else case sentry_value_get_type value of
          SENTRY_VALUE_TYPE_BOOL \<Rightarrow> False
        | SENTRY_VALUE_TYPE_NULL \<Rightarrow> False
        | SENTRY_VALUE_TYPE_INT32 \<Rightarrow> sentry_value_as_int32 value \<noteq> 0
        | SENTRY_VALUE_TYPE_INT64 \<Rightarrow> sentry_value_as_int64 value \<noteq> 0
        | SENTRY_VALUE_TYPE_UINT64 \<Rightarrow> sentry_value_as_uint64 value \<noteq> 0
        | SENTRY_VALUE_TYPE_DOUBLE \<Rightarrow> \<not> double_is_zero (sentry_value_as_double value)
        | _ \<Rightarrow> sentry_value_get_length value > 0)"

section \<open>Writing\<close>

fun obj_set :: "(string \<times> sentry_value) list \<Rightarrow> string \<Rightarrow> sentry_value \<Rightarrow> (string \<times> sentry_value) list" where
  "obj_set [] k v = [(cstr k, v)]"
| "obj_set ((k', v') # ps) k v = (if k = k' then (cstr k, v) # ps else (k', v') # obj_set ps k v)"

fun sentry_value_set_by_key_n :: "sentry_value \<Rightarrow> string \<Rightarrow> sentry_value \<Rightarrow> nat \<times> sentry_value" where
  "sentry_value_set_by_key_n (VObject False ps) k v = (0, VObject False (obj_set ps k v))"
| "sentry_value_set_by_key_n value k v = (1, value)"

abbreviation sentry_value_set_by_key :: "sentry_value \<Rightarrow> string \<Rightarrow> sentry_value \<Rightarrow> nat \<times> sentry_value" where
  "sentry_value_set_by_key \<equiv> sentry_value_set_by_key_n"

text \<open>The common case of a call whose result code is ignored.\<close>

abbreviation set_key :: "string \<Rightarrow> sentry_value \<Rightarrow> sentry_value \<Rightarrow> sentry_value" where
  "set_key k v value \<equiv> snd (sentry_value_set_by_key_n value k v)"

fun obj_remove :: "(string \<times> sentry_value) list \<Rightarrow> string \<Rightarrow> (string \<times> sentry_value) list option" where
  "obj_remove [] k = None"
| "obj_remove ((k', v) # ps) k = (if k = k' then Some ps else map_option ((#) (k', v)) (obj_remove ps k))"

fun sentry_value_remove_by_key_n :: "sentry_value \<Rightarrow> string \<Rightarrow> nat \<times> sentry_value" where
  "sentry_value_remove_by_key_n (VObject False ps) k =
     (case obj_remove ps k of Some ps' \<Rightarrow> (0, VObject False ps') | None \<Rightarrow> (1, VObject False ps))"
| "sentry_value_remove_by_key_n value k = (1, value)"

fun sentry_value_append :: "sentry_value \<Rightarrow> sentry_value \<Rightarrow> nat \<times> sentry_value" where
  "sentry_value_append (VList False xs) v = (0, VList False (xs @ [v]))"
| "sentry_value_append value v = (1, value)"

text \<open>Writing past the end pads the list with nulls.\<close>

definition list_pad :: "sentry_value list \<Rightarrow> nat \<Rightarrow> sentry_value list" where
  "list_pad xs n = xs @ replicate (n - length xs) VNull"

fun sentry_value_set_by_index :: "sentry_value \<Rightarrow> nat \<Rightarrow> sentry_value \<Rightarrow> nat \<times> sentry_value" where
  "sentry_value_set_by_index (VList False xs) index v =
     (0, VList False ((if index \<ge> length xs then list_pad xs (index + 1) else xs)[index := v]))"
| "sentry_value_set_by_index value index v = (1, value)"

fun sentry_value_remove_by_index :: "sentry_value \<Rightarrow> nat \<Rightarrow> nat \<times> sentry_value" where
  "sentry_value_remove_by_index (VList False xs) index =
     (if index \<ge> length xs then (0, VList False xs)
      else (0, VList False (take index xs @ drop (index + 1) xs)))"
| "sentry_value_remove_by_index value index = (1, value)"

text \<open>Freezing stops at a container that is frozen already.\<close>

fun sentry_value_freeze :: "sentry_value \<Rightarrow> sentry_value" where
  "sentry_value_freeze (VList f xs) = (if f then VList f xs else VList True (map sentry_value_freeze xs))"
| "sentry_value_freeze (VObject f ps) =
     (if f then VObject f ps else VObject True (map (\<lambda>(k, v). (k, sentry_value_freeze v)) ps))"
| "sentry_value_freeze v = v"

text \<open>A clone is an unfrozen container whose containers are clones; scalars are shared.\<close>

fun sentry__value_clone :: "sentry_value \<Rightarrow> sentry_value" where
  "sentry__value_clone (VList f xs) = VList False (map sentry__value_clone xs)"
| "sentry__value_clone (VObject f ps) = VObject False (map (\<lambda>(k, v). (k, sentry__value_clone v)) ps)"
| "sentry__value_clone v = v"

section \<open>Lookup and update of object pairs\<close>

definition keys_ok :: "(string \<times> sentry_value) list \<Rightarrow> bool" where
  "keys_ok ps \<longleftrightarrow> distinct (map fst ps) \<and> (\<forall>k \<in> set (map fst ps). CHR 0x00 \<notin> set k)"

lemma cstr_id [simp]: "CHR 0x00 \<notin> set s \<Longrightarrow> cstr s = s"
  unfolding cstr_def by (rule takeWhile_all) auto

lemma cstr_no_nul [simp]: "CHR 0x00 \<notin> set (cstr s)"
  by (auto simp: cstr_def dest: set_takeWhileD)

lemma obj_get_set [simp]:
  "CHR 0x00 \<notin> set k \<Longrightarrow> obj_get (obj_set ps k v) k' = (if k' = k then Some v else obj_get ps k')"
  by (induction ps k v rule: obj_set.induct) auto

lemma obj_set_keys: "CHR 0x00 \<notin> set k \<Longrightarrow>
    map fst (obj_set ps k v) = (if k \<in> set (map fst ps) then map fst ps else map fst ps @ [k])"
  by (induction ps k v rule: obj_set.induct) auto

lemma keys_ok_set: "keys_ok ps \<Longrightarrow> CHR 0x00 \<notin> set k \<Longrightarrow> keys_ok (obj_set ps k v)"
  by (auto simp: keys_ok_def obj_set_keys simp del: set_map)

lemma obj_get_None: "obj_get ps k = None \<longleftrightarrow> k \<notin> set (map fst ps)"
  by (induction ps k rule: obj_get.induct) auto

lemma obj_remove_None: "obj_remove ps k = None \<longleftrightarrow> k \<notin> set (map fst ps)"
  by (induction ps k rule: obj_remove.induct) auto

lemma obj_get_remove:
  "obj_remove ps k = Some ps' \<Longrightarrow> distinct (map fst ps) \<Longrightarrow>
     obj_get ps' k' = (if k' = k then None else obj_get ps k')"
proof (induction ps k arbitrary: ps' rule: obj_remove.induct)
  case (2 a v ps k)
  then show ?case by (force split: if_splits simp: obj_get_None)
qed simp

lemma obj_get_clone: "obj_get (map (\<lambda>(k, v). (k, sentry__value_clone v)) ps) k = map_option sentry__value_clone (obj_get ps k)"
  by (induction ps k rule: obj_get.induct) auto

lemma clone_unfrozen: "sentry_value_is_frozen (sentry__value_clone v) \<longrightarrow>
    sentry_value_get_type v \<notin> {SENTRY_VALUE_TYPE_LIST, SENTRY_VALUE_TYPE_OBJECT}"
  by (cases v) auto

end
