(* ===== verification/Ringbuffer.thy ===== *)
theory Ringbuffer
  imports Values
begin

text \<open>
  \<open>sentry_ringbuffer.c\<close>: the bounded buffer of breadcrumbs, a value list used circularly.
  The specification is a queue of the most recent \<open>max_size\<close> items, stated as a locale that
  the buffer interprets.
\<close>

record sentry_ringbuffer_t =
  rb_list :: sentry_value
  max_size :: nat
  start_idx :: nat

definition sentry__ringbuffer_new :: "nat \<Rightarrow> sentry_ringbuffer_t" where
  "sentry__ringbuffer_new n = \<lparr>rb_list = VList False [], max_size = n, start_idx = 0\<rparr>"

definition sentry__ringbuffer_clone :: "sentry_ringbuffer_t \<Rightarrow> sentry_ringbuffer_t" where
  "sentry__ringbuffer_clone rb =
     \<lparr>rb_list = sentry__value_clone (rb_list rb), max_size = max_size rb, start_idx = start_idx rb\<rparr>"

text \<open>The result code is the C \<open>int\<close>: 0, -1 for a refused item, 1 when the list refuses it.\<close>

definition sentry__ringbuffer_append ::
  "sentry_ringbuffer_t \<Rightarrow> sentry_value \<Rightarrow> int \<times> sentry_ringbuffer_t" where
  "sentry__ringbuffer_append rb v =
     (if max_size rb = 0 then (-1, rb)
      else let current_len = sentry_value_get_length (rb_list rb)
           in if current_len < max_size rb
              then (case sentry_value_append (rb_list rb) v of (rc, l) \<Rightarrow> (int rc, rb\<lparr>rb_list := l\<rparr>))
              else if current_len = max_size rb
              then (0, rb\<lparr>rb_list := snd (sentry_value_set_by_index (rb_list rb) (start_idx rb) v),
                          start_idx := (start_idx rb + 1) mod max_size rb\<rparr>)
              else (-1, rb))"

fun to_list_loop :: "sentry_ringbuffer_t \<Rightarrow> nat \<Rightarrow> nat list \<Rightarrow> sentry_value \<Rightarrow> sentry_value" where
  "to_list_loop rb n [] result = result"
| "to_list_loop rb n (i # is) result =
     to_list_loop rb n is
       (snd (sentry_value_append result (sentry_value_get_by_index (rb_list rb) ((start_idx rb + i) mod n))))"

definition sentry__ringbuffer_to_list :: "sentry_ringbuffer_t \<Rightarrow> sentry_value" where
  "sentry__ringbuffer_to_list rb =
     (let current_len = sentry_value_get_length (rb_list rb)
      in to_list_loop rb current_len [0..<current_len] (VList False []))"

definition sentry__ringbuffer_set_max_size :: "sentry_ringbuffer_t \<Rightarrow> nat \<Rightarrow> sentry_ringbuffer_t" where
  "sentry__ringbuffer_set_max_size rb n =
     (if sentry_value_get_length (rb_list rb) > 0 then rb else rb\<lparr>max_size := n\<rparr>)"

section \<open>Invariant and contents\<close>

definition rb_inv :: "sentry_ringbuffer_t \<Rightarrow> bool" where
  "rb_inv rb \<longleftrightarrow> (\<exists>xs. rb_list rb = VList False xs \<and> length xs \<le> max_size rb \<and>
     (length xs < max_size rb \<longrightarrow> start_idx rb = 0) \<and> (xs \<noteq> [] \<longrightarrow> start_idx rb < length xs) \<and>
     (xs = [] \<longrightarrow> start_idx rb = 0))"

definition rb_items :: "sentry_ringbuffer_t \<Rightarrow> sentry_value list" where
  "rb_items rb = (case rb_list rb of VList _ xs \<Rightarrow> rotate (start_idx rb) xs | _ \<Rightarrow> [])"

text \<open>The interface of a buffer that keeps the most recent \<open>cap\<close> items in order.\<close>

locale recent_buffer =
  fixes inv :: "'b \<Rightarrow> bool" and cap :: "'b \<Rightarrow> nat" and items :: "'b \<Rightarrow> 'a list"
    and push :: "'a \<Rightarrow> 'b \<Rightarrow> 'b"
  assumes inv_push: "inv b \<Longrightarrow> inv (push x b)"
    and cap_push: "inv b \<Longrightarrow> cap (push x b) = cap b"
    and items_cap: "inv b \<Longrightarrow> length (items b) \<le> cap b"
    and items_push: "inv b \<Longrightarrow>
      items (push x b) = drop (Suc (length (items b)) - cap b) (items b @ [x])"
begin

definition pushes :: "'a list \<Rightarrow> 'b \<Rightarrow> 'b" where
  "pushes xs b = fold push xs b"

lemma pushes_inv: "inv b \<Longrightarrow> inv (pushes xs b) \<and> cap (pushes xs b) = cap b"
  by (induction xs arbitrary: b) (auto simp: pushes_def inv_push cap_push)

lemma drop_recent:
  "drop (Suc (length (drop (length zs - c) zs)) - c) (drop (length zs - c) zs @ [x]) =
     drop (Suc (length zs) - c) (zs @ [x])"
proof (cases "length zs < c")
  case True
  then show ?thesis by simp
next
  case False
  let ?d = "length zs - c"
  have "Suc (length (drop ?d zs)) - c = 1" using False by simp
  moreover have "drop ?d zs @ [x] = drop ?d (zs @ [x])" by simp
  moreover have "Suc (length zs) - c = 1 + ?d" using False by simp
  ultimately show ?thesis by (simp only: drop_drop)
qed

lemma pushes_items:
  "inv b \<Longrightarrow> items (pushes xs b) = drop (length (items b) + length xs - cap b) (items b @ xs)"
proof (induction xs rule: rev_induct)
  case Nil
  then show ?case using items_cap [of b] by (simp add: pushes_def)
next
  case (snoc x xs)
  have i: "inv (pushes xs b)" "cap (pushes xs b) = cap b"
    using pushes_inv snoc.prems by auto
  have "items (pushes (xs @ [x]) b) = items (push x (pushes xs b))"
    by (simp add: pushes_def)
  also have "\<dots> = drop (Suc (length (items (pushes xs b))) - cap b) (items (pushes xs b) @ [x])"
    using items_push [OF i(1)] i(2) by simp
  finally show ?case
    using snoc drop_recent [of "items b @ xs" "cap b" x] by simp
qed

end

lemma rb_invE:
  assumes "rb_inv rb"
  obtains xs where "rb_list rb = VList False xs" and "length xs \<le> max_size rb"
    and "length xs < max_size rb \<longrightarrow> start_idx rb = 0" and "xs \<noteq> [] \<longrightarrow> start_idx rb < length xs"
    and "xs = [] \<longrightarrow> start_idx rb = 0"
  using assms unfolding rb_inv_def by blast

lemma rotate_overwrite:
  assumes "i < length xs"
  shows "rotate (Suc i mod length xs) (xs[i := x]) = drop 1 (rotate i xs) @ [x]"
proof (rule nth_equalityI)
  show "length (rotate (Suc i mod length xs) (xs[i := x])) = length (drop 1 (rotate i xs) @ [x])"
    using assms by simp
  fix j assume "j < length (rotate (Suc i mod length xs) (xs[i := x]))"
  then have j: "j < length xs" by simp
  have l: "rotate (Suc i mod length xs) (xs[i := x]) ! j = xs[i := x] ! ((Suc i + j) mod length xs)"
    using j by (simp add: nth_rotate mod_add_left_eq)
  show "rotate (Suc i mod length xs) (xs[i := x]) ! j = (drop 1 (rotate i xs) @ [x]) ! j"
  proof (cases "j = length xs - 1")
    case True
    then have "Suc i + j = i + length xs" using assms by simp
    then have "(Suc i + j) mod length xs = i"
      using assms by (simp only: mod_add_self2 mod_less)
    with True l assms show ?thesis by (simp add: nth_append)
  next
    case False
    with j have j': "Suc j < length xs" by simp
    have "(Suc i + j) mod length xs =
        (if Suc i + j < length xs then Suc i + j else Suc i + j - length xs)"
      using assms j' by (simp add: mod_if)
    then have "(Suc i + j) mod length xs \<noteq> i"
      using j' by (auto split: if_splits)
    moreover have "j < length xs - 1" using j' by simp
    ultimately show ?thesis using l j' by (simp add: nth_append nth_rotate)
  qed
qed


abbreviation rb_push :: "sentry_value \<Rightarrow> sentry_ringbuffer_t \<Rightarrow> sentry_ringbuffer_t" where
  "rb_push v rb \<equiv> snd (sentry__ringbuffer_append rb v)"

lemma append_inv: "rb_inv rb \<Longrightarrow> rb_inv (rb_push v rb) \<and> max_size (rb_push v rb) = max_size rb"
proof (elim rb_invE)
  fix xs
  assume "rb_list rb = VList False xs" and "length xs \<le> max_size rb"
    and "length xs < max_size rb \<longrightarrow> start_idx rb = 0"
    and "xs \<noteq> [] \<longrightarrow> start_idx rb < length xs" and "xs = [] \<longrightarrow> start_idx rb = 0"
  then show ?thesis
    by (cases "length xs < max_size rb")
      (auto simp: sentry__ringbuffer_append_def rb_inv_def Let_def)
qed

lemma append_items:
  assumes "rb_inv rb"
  shows "rb_items (rb_push v rb) = drop (Suc (length (rb_items rb)) - max_size rb) (rb_items rb @ [v])"
  using assms
proof (elim rb_invE)
  fix xs
  assume l: "rb_list rb = VList False xs" and le: "length xs \<le> max_size rb"
    and part: "length xs < max_size rb \<longrightarrow> start_idx rb = 0"
    and idx: "xs \<noteq> [] \<longrightarrow> start_idx rb < length xs" and nil: "xs = [] \<longrightarrow> start_idx rb = 0"
  consider "max_size rb = 0" | "length xs < max_size rb" | "length xs = max_size rb" "xs \<noteq> []"
    using le by (cases xs) fastforce+
  then show ?thesis
  proof cases
    case 1
    then show ?thesis using l le by (simp add: sentry__ringbuffer_append_def rb_items_def)
  next
    case 2
    then show ?thesis using l part by (simp add: sentry__ringbuffer_append_def rb_items_def)
  next
    case 3
    then show ?thesis
      using l idx rotate_overwrite [of "start_idx rb" xs v]
      by (simp add: sentry__ringbuffer_append_def rb_items_def)
  qed
qed

interpretation breadcrumbs: recent_buffer rb_inv max_size rb_items rb_push
proof
  fix b :: sentry_ringbuffer_t and x :: sentry_value
  assume inv: "rb_inv b"
  show "rb_inv (rb_push x b)" and "max_size (rb_push x b) = max_size b"
    using append_inv [OF inv] by auto
  show "length (rb_items b) \<le> max_size b"
    using inv by (elim rb_invE) (simp add: rb_items_def)
  show "rb_items (rb_push x b) = drop (Suc (length (rb_items b)) - max_size b) (rb_items b @ [x])"
    by (rule append_items [OF inv])
qed

lemma new_inv: "rb_inv (sentry__ringbuffer_new n)" "rb_items (sentry__ringbuffer_new n) = []"
  "max_size (sentry__ringbuffer_new n) = n"
  by (simp_all add: sentry__ringbuffer_new_def rb_inv_def rb_items_def)

lemma to_list_loop_append:
  "to_list_loop rb n is (VList False acc) =
     VList False (acc @ map (\<lambda>i. sentry_value_get_by_index (rb_list rb) ((start_idx rb + i) mod n)) is)"
  by (induction "is" arbitrary: acc) simp_all

lemma to_list_items: "rb_inv rb \<Longrightarrow> sentry__ringbuffer_to_list rb = VList False (rb_items rb)"
proof (elim rb_invE)
  fix xs
  assume l: "rb_list rb = VList False xs"
  have "map (\<lambda>i. sentry_value_get_by_index (VList False xs) ((start_idx rb + i) mod length xs)) [0..<length xs]
      = rotate (start_idx rb) xs"
    by (rule nth_equalityI) (auto simp: nth_rotate intro: mod_less_divisor)
  then show ?thesis
    using l by (simp add: sentry__ringbuffer_to_list_def rb_items_def to_list_loop_append)
qed

section \<open>Properties\<close>

text \<open>C34. After any sequence of appends to a new ring buffer, \<open>sentry__ringbuffer_to_list\<close> is a
  fresh list of the last \<open>max_size\<close> items in the order of their arrival.\<close>

theorem ringbuffer_keeps_most_recent:
  "sentry__ringbuffer_to_list (fold rb_push vs (sentry__ringbuffer_new n)) =
     VList False (drop (length vs - n) vs)"
proof -
  have "rb_inv (fold rb_push vs (sentry__ringbuffer_new n))"
    using breadcrumbs.pushes_inv [OF new_inv(1)] by (simp add: breadcrumbs.pushes_def)
  moreover have "rb_items (fold rb_push vs (sentry__ringbuffer_new n)) = drop (length vs - n) vs"
    using breadcrumbs.pushes_items [OF new_inv(1)] by (simp add: breadcrumbs.pushes_def new_inv)
  ultimately show ?thesis by (simp add: to_list_items)
qed

lemma ringbuffer_ops:
  assumes "rb_inv rb"
  shows "rb_inv (snd (sentry__ringbuffer_append rb v))"
    and "fst (sentry__ringbuffer_append rb v) = (if max_size rb = 0 then -1 else 0)"
    and "rb_inv (sentry__ringbuffer_clone rb)"
    and "rb_items (sentry__ringbuffer_clone rb) = map sentry__value_clone (rb_items rb)"
    and "rb_items (sentry__ringbuffer_set_max_size rb n) = rb_items rb"
    and "rb_inv (sentry__ringbuffer_set_max_size rb n)"
proof -
  obtain xs where l: "rb_list rb = VList False xs" and le: "length xs \<le> max_size rb"
    and inv: "length xs < max_size rb \<longrightarrow> start_idx rb = 0" "xs \<noteq> [] \<longrightarrow> start_idx rb < length xs"
      "xs = [] \<longrightarrow> start_idx rb = 0"
    using assms by (rule rb_invE)
  show "rb_inv (snd (sentry__ringbuffer_append rb v))" using append_inv [OF assms] by simp
  show "fst (sentry__ringbuffer_append rb v) = (if max_size rb = 0 then -1 else 0)"
    using l le by (auto simp: sentry__ringbuffer_append_def Let_def)
  show "rb_inv (sentry__ringbuffer_clone rb)"
    using l le inv by (auto simp: sentry__ringbuffer_clone_def rb_inv_def)
  show "rb_items (sentry__ringbuffer_clone rb) = map sentry__value_clone (rb_items rb)"
    using l by (simp add: sentry__ringbuffer_clone_def rb_items_def rotate_map)
  show "rb_items (sentry__ringbuffer_set_max_size rb n) = rb_items rb"
    using l by (simp add: sentry__ringbuffer_set_max_size_def rb_items_def)
  show "rb_inv (sentry__ringbuffer_set_max_size rb n)"
    using l le inv by (auto simp: sentry__ringbuffer_set_max_size_def rb_inv_def)
qed

text \<open>Every operation of the ring buffer keeps its invariant (the list never outgrows
  \<open>max_size\<close>, the start index stays inside it), an append on a buffer with room reports
  success, and resizing never changes the contents.\<close>

theorem ringbuffer_invariant:
  assumes "rb_inv rb"
  shows "rb_inv (snd (sentry__ringbuffer_append rb v))
    \<and> fst (sentry__ringbuffer_append rb v) = (if max_size rb = 0 then -1 else 0)
    \<and> rb_inv (sentry__ringbuffer_clone rb)
    \<and> rb_items (sentry__ringbuffer_clone rb) = map sentry__value_clone (rb_items rb)
    \<and> rb_items (sentry__ringbuffer_set_max_size rb n) = rb_items rb
    \<and> rb_inv (sentry__ringbuffer_set_max_size rb n)"
  using ringbuffer_ops [OF assms] by blast

theorem ringbuffer_invariant_witness:
  "fst (sentry__ringbuffer_append (sentry__ringbuffer_new 2) VNull) = 0"
  using ringbuffer_invariant [OF new_inv(1), of 2 VNull] by (simp add: new_inv)

end
