(* ===== verification/StringBuilder.thy ===== *)
theory StringBuilder
  imports Prelude "HOL-Library.Sublist"
begin

text \<open>
  The growable byte buffer of \<open>sentry_string.c\<close> and \<open>sentry_string.h\<close>.  A builder is a block of
  \<open>allocated\<close> bytes of which the first \<open>len\<close> are in use.  The allocator is a parameter: \<open>malloc n\<close>
  is a fresh block with unspecified contents, or \<open>None\<close>; all that is used of it is that a block has
  the size asked for.  The abstraction of a builder is the byte string appended so far.
\<close>

type_synonym malloc = "nat \<Rightarrow> string option"

definition malloc_sized :: "malloc \<Rightarrow> bool" where
  "malloc_sized malloc \<longleftrightarrow> (\<forall>n b. malloc n = Some b \<longrightarrow> length b = n)"

record sentry_stringbuilder_t =
  sb_buf :: "string option"
  sb_allocated :: nat
  sb_len :: nat

definition INITIAL_BUFFER_SIZE :: nat where
  "INITIAL_BUFFER_SIZE = 128"

definition sentry__stringbuilder_init :: sentry_stringbuilder_t where
  "sentry__stringbuilder_init = \<lparr>sb_buf = None, sb_allocated = 0, sb_len = 0\<rparr>"

text \<open>\<open>memcpy(b + i, s, length s)\<close>.\<close>

definition memcpy_at :: "string \<Rightarrow> nat \<Rightarrow> string \<Rightarrow> string" where
  "memcpy_at b i s = take i b @ s @ drop (i + length s) b"

text \<open>The doubling loop.  It is entered with a positive size only; the test of 0 makes the
  recursion well-founded.\<close>

function grow_size :: "nat \<Rightarrow> nat \<Rightarrow> nat" where
  "grow_size new_alloc_size needed =
     (if 0 < new_alloc_size \<and> new_alloc_size < needed
      then if new_alloc_size > SIZE_MAX div 2 then needed else grow_size (new_alloc_size * 2) needed
      else new_alloc_size)"
  by pat_completeness auto
termination
  by (relation "measure (\<lambda>(s, n). n - s)") auto

declare grow_size.simps [simp del]

text \<open>Returns the builder and whether a reservation was made; the reservation starts at \<open>sb_len\<close>.\<close>

definition sentry__stringbuilder_reserve ::
  "malloc \<Rightarrow> sentry_stringbuilder_t \<Rightarrow> nat \<Rightarrow> sentry_stringbuilder_t \<times> bool" where
  "sentry__stringbuilder_reserve malloc sb n =
     (if n > SIZE_MAX - sb_len sb then (sb, False)
      else
        let needed = sb_len sb + n in
        if sb_buf sb = None \<or> needed > sb_allocated sb
        then
          let new_alloc_size =
                grow_size (if sb_allocated sb = 0 then INITIAL_BUFFER_SIZE else sb_allocated sb) needed
          in case malloc new_alloc_size of
               None \<Rightarrow> (sb, False)
             | Some new_buf \<Rightarrow>
                 (sb\<lparr>sb_buf := Some (case sb_buf sb of None \<Rightarrow> new_buf
                       | Some old \<Rightarrow> memcpy_at new_buf 0 (take (sb_allocated sb) old)),
                     sb_allocated := new_alloc_size\<rparr>, True)
        else (sb, True))"

text \<open>The result code is 0 on success and 1 when the size overflows or the allocation fails.\<close>

definition sentry__stringbuilder_append_buf ::
  "malloc \<Rightarrow> sentry_stringbuilder_t \<Rightarrow> string \<Rightarrow> sentry_stringbuilder_t \<times> nat" where
  "sentry__stringbuilder_append_buf malloc sb s =
     (if sb_len sb = SIZE_MAX \<or> length s > SIZE_MAX - sb_len sb - 1 then (sb, 1)
      else
        let needed = sb_len sb + length s + 1;
            (sb1, ok) = (if sb_buf sb = None \<or> needed > sb_allocated sb
                         then sentry__stringbuilder_reserve malloc sb (length s + 1)
                         else (sb, True))
        in if \<not> ok then (sb1, 1)
           else
             let b = memcpy_at (the (sb_buf sb1)) (sb_len sb1) s;
                 n = sb_len sb1 + length s
             in (sb1\<lparr>sb_len := n, sb_buf := Some (b[n := CHR 0x00])\<rparr>, 0))"

definition sentry__stringbuilder_append ::
  "malloc \<Rightarrow> sentry_stringbuilder_t \<Rightarrow> string \<Rightarrow> sentry_stringbuilder_t \<times> nat" where
  "sentry__stringbuilder_append malloc sb s =
     sentry__stringbuilder_append_buf malloc sb (takeWhile (\<lambda>c. c \<noteq> CHR 0x00) s)"

definition sentry__stringbuilder_append_char ::
  "malloc \<Rightarrow> sentry_stringbuilder_t \<Rightarrow> char \<Rightarrow> sentry_stringbuilder_t \<times> nat" where
  "sentry__stringbuilder_append_char malloc sb c = sentry__stringbuilder_append_buf malloc sb [c]"

definition sentry__stringbuilder_set_len :: "sentry_stringbuilder_t \<Rightarrow> nat \<Rightarrow> sentry_stringbuilder_t" where
  "sentry__stringbuilder_set_len sb n = sb\<lparr>sb_len := n\<rparr>"

text \<open>Detaches the block; without one the result is a fresh copy of the empty string, one NUL.\<close>

definition sentry_stringbuilder_take_string ::
  "malloc \<Rightarrow> sentry_stringbuilder_t \<Rightarrow> string option \<times> sentry_stringbuilder_t" where
  "sentry_stringbuilder_take_string malloc sb =
     (case sb_buf sb of
        Some b \<Rightarrow> Some b
      | None \<Rightarrow> (case malloc 1 of None \<Rightarrow> None | Some b \<Rightarrow> Some (b[0 := CHR 0x00])),
      \<lparr>sb_buf = None, sb_allocated = 0, sb_len = 0\<rparr>)"

definition sentry__stringbuilder_into_string :: "malloc \<Rightarrow> sentry_stringbuilder_t \<Rightarrow> string option" where
  "sentry__stringbuilder_into_string malloc sb = fst (sentry_stringbuilder_take_string malloc sb)"

definition sentry__stringbuilder_append_int64 ::
  "malloc \<Rightarrow> sentry_stringbuilder_t \<Rightarrow> int \<Rightarrow> sentry_stringbuilder_t \<times> nat" where
  "sentry__stringbuilder_append_int64 malloc sb val = sentry__stringbuilder_append malloc sb (int_str val)"

text \<open>The C string at the start of a block, and a run of appends whose result codes are ignored.\<close>

definition c_str :: "string \<Rightarrow> string" where
  "c_str b = takeWhile (\<lambda>c. c \<noteq> CHR 0x00) b"

definition sb_append_all :: "malloc \<Rightarrow> sentry_stringbuilder_t \<Rightarrow> string list \<Rightarrow> sentry_stringbuilder_t" where
  "sb_append_all malloc sb ps = foldl (\<lambda>sb s. fst (sentry__stringbuilder_append malloc sb s)) sb ps"

section \<open>Invariant and abstraction\<close>

text \<open>A builder that has a block keeps room for the terminating NUL behind the bytes in use, and
  that NUL is there.\<close>

definition sb_wf :: "sentry_stringbuilder_t \<Rightarrow> bool" where
  "sb_wf sb \<longleftrightarrow> (case sb_buf sb of
     None \<Rightarrow> sb_allocated sb = 0 \<and> sb_len sb = 0
   | Some b \<Rightarrow> length b = sb_allocated sb \<and> sb_len sb < sb_allocated sb \<and> sb_allocated sb \<le> SIZE_MAX
       \<and> b ! sb_len sb = CHR 0x00)"

definition sb_view :: "sentry_stringbuilder_t \<Rightarrow> string" where
  "sb_view sb = (case sb_buf sb of None \<Rightarrow> [] | Some b \<Rightarrow> take (sb_len sb) b)"

lemma sb_init [simp]: "sb_wf sentry__stringbuilder_init" "sb_view sentry__stringbuilder_init = []"
  by (simp_all add: sentry__stringbuilder_init_def sb_wf_def sb_view_def)

lemma length_sb_view: "sb_wf sb \<Longrightarrow> length (sb_view sb) = sb_len sb"
  by (auto simp: sb_wf_def sb_view_def split: option.splits)

lemma length_memcpy_at: "i + length s \<le> length b \<Longrightarrow> length (memcpy_at b i s) = length b"
  by (simp add: memcpy_at_def)

lemma take_memcpy_at: "i + length s \<le> length b \<Longrightarrow> take (i + length s) (memcpy_at b i s) = take i b @ s"
  by (simp add: memcpy_at_def)

text \<open>The growth policy: at least what is needed, never less than before, and less than twice the
  need unless the block was already that large.\<close>

lemma grow_size_bounds:
  "\<lbrakk>0 < s; s \<le> SIZE_MAX; n \<le> SIZE_MAX\<rbrakk> \<Longrightarrow>
     n \<le> grow_size s n \<and> s \<le> grow_size s n \<and> grow_size s n \<le> SIZE_MAX \<and> grow_size s n \<le> max s (2 * n)"
proof (induction s n rule: grow_size.induct)
  case (1 s n)
  show ?case
  proof (cases "s < n \<and> s \<le> SIZE_MAX div 2")
    case True
    then have "grow_size s n = grow_size (s * 2) n"
      using "1.prems" by (simp add: grow_size.simps [of s n])
    with 1 True show ?thesis by (fastforce simp: max_def split: if_splits)
  next
    case False
    then show ?thesis using "1.prems" by (auto simp: grow_size.simps [of s n])
  qed
qed

lemma reserve_room:
  assumes "sb_wf sb" "malloc_sized malloc" "sentry__stringbuilder_reserve malloc sb n = (sb', True)"
  obtains b where "sb_buf sb' = Some b" "length b = sb_allocated sb'" "sb_len sb' = sb_len sb"
    "sb_len sb + n \<le> sb_allocated sb'" "sb_allocated sb' \<le> SIZE_MAX" "take (sb_len sb) b = sb_view sb"
proof -
  let ?s = "if sb_allocated sb = 0 then INITIAL_BUFFER_SIZE else sb_allocated sb"
  have "sb_len sb \<le> SIZE_MAX"
    using assms(1) by (auto simp: sb_wf_def split: option.splits)
  moreover have "\<not> n > SIZE_MAX - sb_len sb"
    using assms(3) by (auto simp: sentry__stringbuilder_reserve_def)
  ultimately have n: "sb_len sb + n \<le> SIZE_MAX"
    by simp
  have s: "0 < ?s" "?s \<le> SIZE_MAX"
    using assms(1) by (auto simp: sb_wf_def INITIAL_BUFFER_SIZE_def SIZE_MAX_def split: option.splits)
  note g = grow_size_bounds [OF s n]
  show ?thesis
  proof (cases "sb_buf sb = None \<or> sb_len sb + n > sb_allocated sb")
    case False
    with assms that show ?thesis
      by (auto simp: sentry__stringbuilder_reserve_def sb_wf_def sb_view_def split: if_splits)
  next
    case True
    with assms(3) n obtain nb where nb: "malloc (grow_size ?s (sb_len sb + n)) = Some nb"
      and sb': "sb' = sb\<lparr>sb_buf := Some (case sb_buf sb of None \<Rightarrow> nb
                       | Some old \<Rightarrow> memcpy_at nb 0 (take (sb_allocated sb) old)),
                     sb_allocated := grow_size ?s (sb_len sb + n)\<rparr>"
      by (auto simp: sentry__stringbuilder_reserve_def Let_def split: if_splits option.splits)
    have l: "length nb = grow_size ?s (sb_len sb + n)"
      using nb assms(2) by (simp add: malloc_sized_def)
    show ?thesis
    proof (cases "sb_buf sb")
      case None
      with l g sb' assms(1) that [of nb] show ?thesis by (simp add: sb_wf_def sb_view_def)
    next
      case (Some old)
      with l g sb' assms(1) that [of "memcpy_at nb 0 (take (sb_allocated sb) old)"] show ?thesis
        by (simp add: sb_wf_def sb_view_def memcpy_at_def split: if_splits)
    qed
  qed
qed

text \<open>One step of the builder: a call either reports failure and leaves the bytes as they were, or
  it appends exactly its argument.\<close>

lemma append_buf_cases:
  assumes "sb_wf sb" "malloc_sized malloc" "sentry__stringbuilder_append_buf malloc sb s = (sb', rc)"
  shows "sb_wf sb' \<and> (rc = 0 \<and> sb_view sb' = sb_view sb @ s \<or> rc = 1 \<and> sb' = sb)"
proof (cases "sb_len sb = SIZE_MAX \<or> length s > SIZE_MAX - sb_len sb - 1")
  case True
  with assms show ?thesis by (auto simp: sentry__stringbuilder_append_buf_def)
next
  case False
  define r where "r = (if sb_buf sb = None \<or> sb_len sb + length s + 1 > sb_allocated sb
                         then sentry__stringbuilder_reserve malloc sb (length s + 1) else (sb, True))"
  obtain sb1 ok where r': "r = (sb1, ok)" by (cases r)
  have app: "sentry__stringbuilder_append_buf malloc sb s = (if \<not> ok then (sb1, 1)
      else (sb1\<lparr>sb_len := sb_len sb1 + length s,
         sb_buf := Some ((memcpy_at (the (sb_buf sb1)) (sb_len sb1) s)[sb_len sb1 + length s := CHR 0x00])\<rparr>, 0))"
    using False r' by (simp add: sentry__stringbuilder_append_buf_def r_def Let_def split: if_splits)
  show ?thesis
  proof (cases ok)
    case False
    then have "sb1 = sb"
      using r' by (auto simp: r_def sentry__stringbuilder_reserve_def Let_def split: if_splits option.splits)
    with False app assms show ?thesis by simp
  next
    case True
    obtain b where b: "sb_buf sb1 = Some b" "length b = sb_allocated sb1" "sb_len sb1 = sb_len sb"
        "sb_len sb + (length s + 1) \<le> sb_allocated sb1" "sb_allocated sb1 \<le> SIZE_MAX" "take (sb_len sb) b = sb_view sb"
    proof (cases "sb_buf sb = None \<or> sb_len sb + length s + 1 > sb_allocated sb")
      case True
      with r' \<open>ok\<close> have "sentry__stringbuilder_reserve malloc sb (length s + 1) = (sb1, True)"
        by (simp add: r_def)
      from reserve_room [OF assms(1,2) this] that show ?thesis by metis
    next
      case False
      with r' assms(1) that show ?thesis by (auto simp: r_def sb_wf_def sb_view_def)
    qed
    with True app assms(3) show ?thesis
      by (auto simp: sb_wf_def sb_view_def length_memcpy_at take_memcpy_at)
  qed
qed

lemma reserve_succeeds:
  assumes "\<And>k. malloc k \<noteq> None" "sb_len sb + n \<le> SIZE_MAX"
  shows "snd (sentry__stringbuilder_reserve malloc sb n)"
proof -
  let ?g = "grow_size (if sb_allocated sb = 0 then INITIAL_BUFFER_SIZE else sb_allocated sb) (sb_len sb + n)"
  obtain nb where "malloc ?g = Some nb"
    using assms(1) [of ?g] by auto
  moreover have "\<not> n > SIZE_MAX - sb_len sb"
    using assms(2) by arith
  ultimately show ?thesis
    by (simp add: sentry__stringbuilder_reserve_def Let_def)
qed

lemma append_buf_succeeds:
  assumes "sb_wf sb" "\<And>k. malloc k \<noteq> None" "length (sb_view sb) + length s < SIZE_MAX"
  shows "snd (sentry__stringbuilder_append_buf malloc sb s) = 0"
proof -
  have l: "sb_len sb + length s < SIZE_MAX"
    using assms(3) length_sb_view [OF assms(1)] by simp
  then have "snd (sentry__stringbuilder_reserve malloc sb (length s + 1))"
    using assms(2) by (intro reserve_succeeds) simp_all
  moreover have "sb_len sb \<noteq> SIZE_MAX" "\<not> length s > SIZE_MAX - sb_len sb - 1"
    using l by arith+
  ultimately show ?thesis
    by (simp add: sentry__stringbuilder_append_buf_def Let_def case_prod_beta)
qed

section \<open>The interface of a byte sink\<close>

text \<open>
  What a client of a builder relies on: an append either adds its bytes or reports failure and adds
  nothing.  The clients ignore the result code, so a sequence of appends writes the concatenation
  of some of its pieces, and of all of them when none can fail.
\<close>

locale byte_sink =
  fixes wf :: "'s \<Rightarrow> bool" and view :: "'s \<Rightarrow> string" and append :: "'s \<Rightarrow> string \<Rightarrow> 's \<times> nat"
  assumes append_wf: "wf s \<Longrightarrow> wf (fst (append s bs))"
    and append_view: "wf s \<Longrightarrow>
      view (fst (append s bs)) = (if snd (append s bs) = 0 then view s @ bs else view s)"
begin

lemma appends_wf: "wf s \<Longrightarrow> wf (foldl (\<lambda>s bs. fst (append s bs)) s ps)"
  by (induction ps arbitrary: s) (auto simp: append_wf)

lemma appends_subseq:
  "wf s \<Longrightarrow> \<exists>qs. subseq qs ps \<and> view (foldl (\<lambda>s bs. fst (append s bs)) s ps) = view s @ concat qs"
proof (induction ps arbitrary: s)
  case (Cons p ps)
  obtain qs where qs: "subseq qs ps"
    "view (foldl (\<lambda>s bs. fst (append s bs)) (fst (append s p)) ps) = view (fst (append s p)) @ concat qs"
    using Cons.IH [OF append_wf [OF Cons.prems]] by blast
  show ?case
  proof (cases "snd (append s p) = 0")
    case True
    with qs Cons.prems have "subseq (p # qs) (p # ps)"
      "view (foldl (\<lambda>s bs. fst (append s bs)) s (p # ps)) = view s @ concat (p # qs)"
      by (simp_all add: append_view)
    then show ?thesis by blast
  next
    case False
    with qs Cons.prems have "subseq qs (p # ps)"
      and "view (foldl (\<lambda>s bs. fst (append s bs)) s (p # ps)) = view s @ concat qs"
      by (auto simp: append_view)
    then show ?thesis by blast
  qed
qed (auto intro: exI [of _ "[]"])

end

locale total_sink = byte_sink +
  fixes limit :: nat
  assumes append_succeeds: "wf s \<Longrightarrow> length (view s) + length bs < limit \<Longrightarrow> snd (append s bs) = 0"
begin

lemma appends_view:
  "wf s \<Longrightarrow> length (view s) + length (concat ps) < limit \<Longrightarrow>
     view (foldl (\<lambda>s bs. fst (append s bs)) s ps) = view s @ concat ps"
proof (induction ps arbitrary: s)
  case (Cons p ps)
  then have "view (fst (append s p)) = view s @ p"
    by (simp add: append_view append_succeeds)
  with Cons.IH [OF append_wf [OF Cons.prems(1)]] Cons.prems(2) show ?case by simp
qed simp

end

interpretation builder: byte_sink "\<lambda>sb. sb_wf sb \<and> malloc_sized malloc" sb_view
    "sentry__stringbuilder_append_buf malloc" for malloc
proof
  fix s bs
  assume w: "sb_wf s \<and> malloc_sized malloc"
  obtain sb' rc where r: "sentry__stringbuilder_append_buf malloc s bs = (sb', rc)"
    by (cases "sentry__stringbuilder_append_buf malloc s bs")
  from append_buf_cases [OF conjunct1 [OF w] conjunct2 [OF w] r] r w
  show "sb_wf (fst (sentry__stringbuilder_append_buf malloc s bs)) \<and> malloc_sized malloc"
    and "sb_view (fst (sentry__stringbuilder_append_buf malloc s bs)) =
      (if snd (sentry__stringbuilder_append_buf malloc s bs) = 0 then sb_view s @ bs else sb_view s)"
    by auto
qed

interpretation total_builder: total_sink
    "\<lambda>sb. sb_wf sb \<and> malloc_sized malloc \<and> (\<forall>n. malloc n \<noteq> None)" sb_view
    "sentry__stringbuilder_append_buf malloc" SIZE_MAX for malloc
  by unfold_locales
    (use builder.append_wf builder.append_view append_buf_succeeds in auto)

text \<open>The strings the URL and header builders return.\<close>

lemma c_str_id: "CHR 0x00 \<notin> set s \<Longrightarrow> c_str s = s"
  unfolding c_str_def by (rule takeWhile_all) auto

lemma append_all_pieces:
  "\<forall>p \<in> set ps. CHR 0x00 \<notin> set p \<Longrightarrow>
     sb_append_all malloc sb ps = foldl (\<lambda>sb s. fst (sentry__stringbuilder_append_buf malloc sb s)) sb ps"
  unfolding sb_append_all_def
  by (induction ps arbitrary: sb) (simp_all add: sentry__stringbuilder_append_def c_str_id [unfolded c_str_def])

lemma into_string_view:
  assumes "sb_wf sb" "malloc_sized malloc" "\<forall>n. malloc n \<noteq> None" "CHR 0x00 \<notin> set (sb_view sb)"
  shows "\<exists>b. sentry__stringbuilder_into_string malloc sb = Some b \<and> c_str b = sb_view sb"
proof (cases "sb_buf sb")
  case None
  obtain b where "malloc 1 = Some b" using assms(3) by fastforce
  moreover from this have "length b = 1" using assms(2) by (simp add: malloc_sized_def)
  then have "b[0 := CHR 0x00] = [CHR 0x00]" by (cases b) auto
  ultimately show ?thesis
    using None assms by (simp add: sentry__stringbuilder_into_string_def
        sentry_stringbuilder_take_string_def c_str_def sb_view_def)
next
  case (Some b)
  then have "b = sb_view sb @ CHR 0x00 # drop (Suc (sb_len sb)) b"
    using assms(1) id_take_nth_drop [of "sb_len sb" b] by (simp add: sb_wf_def sb_view_def)
  then have "c_str b = sb_view sb"
    unfolding c_str_def using assms(4) takeWhile_all_prefix [of "sb_view sb" "\<lambda>c. c \<noteq> CHR 0x00" "CHR 0x00"]
    by metis
  with Some show ?thesis
    by (simp add: sentry__stringbuilder_into_string_def sentry_stringbuilder_take_string_def)
qed

lemma into_string_pieces:
  assumes "malloc_sized malloc" "\<forall>n. malloc n \<noteq> None" "length (concat ps) < SIZE_MAX"
    and "\<forall>p \<in> set ps. CHR 0x00 \<notin> set p"
  shows "map_option c_str (sentry__stringbuilder_into_string malloc
           (sb_append_all malloc sentry__stringbuilder_init ps)) = Some (concat ps)"
proof -
  let ?sb = "sb_append_all malloc sentry__stringbuilder_init ps"
  have "sb_wf ?sb" "sb_view ?sb = concat ps"
    using assms builder.appends_wf [of sentry__stringbuilder_init malloc ps]
      total_builder.appends_view [of sentry__stringbuilder_init malloc ps]
    by (simp_all add: append_all_pieces)
  with into_string_view [of ?sb malloc] assms show ?thesis by auto
qed

text \<open>Appending a sequence of byte strings to a string builder: whatever the allocator does, the
  builder stays well formed (a block of the recorded size with a NUL behind the bytes in use) and
  holds what it held, followed by the concatenation of the pieces whose append succeeded, in order.
  When the allocator does not fail and the total length is below \<open>SIZE_MAX\<close>, that is every piece.\<close>

theorem stringbuilder_appends:
  fixes pieces :: "string list"
  assumes "sb_wf sb" and "malloc_sized malloc"
  defines "sb' \<equiv> foldl (\<lambda>sb s. fst (sentry__stringbuilder_append_buf malloc sb s)) sb pieces"
  shows "sb_wf sb' \<and> (\<exists>qs. subseq qs pieces \<and> sb_view sb' = sb_view sb @ concat qs)
    \<and> ((\<forall>n. malloc n \<noteq> None) \<and> length (sb_view sb) + length (concat pieces) < SIZE_MAX
        \<longrightarrow> sb_view sb' = sb_view sb @ concat pieces)"
  unfolding sb'_def
  using builder.appends_wf [of sb malloc pieces] builder.appends_subseq [of sb malloc pieces]
    total_builder.appends_view [of sb malloc pieces] assms(1,2) by simp

theorem stringbuilder_appends_witness:
  "sb_view (foldl (\<lambda>sb s. fst (sentry__stringbuilder_append_buf (\<lambda>n. Some (replicate n CHR ''?'')) sb s))
     sentry__stringbuilder_init [''sentry'', ''-'', ''key'']) = ''sentry-key''"
  using stringbuilder_appends [of sentry__stringbuilder_init "\<lambda>n. Some (replicate n CHR ''?'')"
      "[''sentry'', ''-'', ''key'']"]
  by (simp add: malloc_sized_def SIZE_MAX_def)

end
