(* ===== verification/Encoding.thy ===== *)
theory Encoding
  imports Slices StringBuilder
begin

text \<open>
  The byte-level encoders of \<open>sentry_utils.c\<close>, \<open>sentry_tracing.c\<close> and \<open>sentry_string.c\<close>: base64,
  percent-encoding and its in-place decoder, UTF-8 and address formatting.  Each encoder is shown
  to be inverted by a decoder, the repository's own where it has one and a reference decoder
  otherwise.
\<close>

section \<open>Base64\<close>

definition b64 :: string where
  "b64 = ''ABCDEFGHIJKLMNOPQRSTUVWXYZabcdefghijklmnopqrstuvwxyz0123456789+/''"

text \<open>The 24-bit group of the bytes at \<open>i\<close>, \<open>i + 1\<close> and \<open>i + 2\<close>, the missing ones left 0.\<close>

definition b64_triple :: "string \<Rightarrow> u32" where
  "b64_triple data =
     push_bit 16 (of_char (data ! 0))
       OR (if 1 < length data then push_bit 8 (of_char (data ! 1)) else 0)
       OR (if 2 < length data then of_char (data ! 2) else 0)"

text \<open>The loop, on the bytes that remain from \<open>data + i\<close> on.\<close>

function base64_loop :: "string \<Rightarrow> string" where
  "base64_loop data =
     (if 0 < length data
      then let triple = b64_triple data in
        [b64 ! unat (drop_bit 18 triple AND 0x3F),
         b64 ! unat (drop_bit 12 triple AND 0x3F),
         if 1 < length data then b64 ! unat (drop_bit 6 triple AND 0x3F) else CHR ''='',
         if 2 < length data then b64 ! unat (triple AND 0x3F) else CHR ''='']
        @ base64_loop (drop 3 data)
      else [])"
  by pat_completeness auto
termination
  by (relation "measure length") auto

declare base64_loop.simps [simp del]

definition sentry__base64_encode :: "malloc \<Rightarrow> string \<Rightarrow> nat \<Rightarrow> string option" where
  "sentry__base64_encode malloc data n =
     (let output_len = 4 * ((n + 2) div 3) in
      case malloc (output_len + 1) of None \<Rightarrow> None | Some out \<Rightarrow> Some (base64_loop (take n data)))"

text \<open>A reference decoder (RFC 4648).\<close>

definition b64_index :: "char \<Rightarrow> nat option" where
  "b64_index c = for_first (\<lambda>i. b64 ! i = c) 0 64"

fun base64_decode :: "string \<Rightarrow> string option" where
  "base64_decode [] = Some []"
| "base64_decode (a # b # c # d # rest) =
     (case (b64_index a, b64_index b) of
        (Some i, Some j) \<Rightarrow>
          if c = CHR ''='' \<and> d = CHR ''='' \<and> rest = [] then Some [char_of (i * 4 + j div 16)]
          else (case b64_index c of None \<Rightarrow> None
            | Some k \<Rightarrow>
                if d = CHR ''='' \<and> rest = []
                then Some [char_of (i * 4 + j div 16), char_of (j mod 16 * 16 + k div 4)]
                else (case b64_index d of None \<Rightarrow> None
                  | Some l \<Rightarrow> map_option
                      (\<lambda>r. [char_of (i * 4 + j div 16), char_of (j mod 16 * 16 + k div 4),
                            char_of (k mod 4 * 64 + l)] @ r)
                      (base64_decode rest)))
      | _ \<Rightarrow> None)"
| "base64_decode _ = None"

lemma or_bytes:
  "y < 256 \<Longrightarrow> z < 256 \<Longrightarrow> x * 65536 OR (y * 256 OR z) = x * 65536 + y * 256 + (z :: nat)"
  using or_add_nat(3) [of z y] or_add_nat(4) [of "y * 256 + z" x] by simp

lemma b64_triple_nat:
  assumes "data \<noteq> []"
  shows "unat (b64_triple data) = code (data ! 0) * 65536
    + (if 1 < length data then code (data ! 1) else 0) * 256
    + (if 2 < length data then code (data ! 2) else 0)"
proof -
  have sh: "unat (push_bit 16 (of_char c) :: u32) = code c * 65536"
    "unat (push_bit 8 (of_char c) :: u32) = code c * 256" for c
    using code_less [of 65536 c] by (simp_all add: unat_bits)
  have u: "unat (b64_triple data) = code (data ! 0) * 65536
      OR ((if 1 < length data then code (data ! 1) else 0) * 256
      OR (if 2 < length data then code (data ! 2) else 0))"
    by (simp add: b64_triple_def unsigned_or_eq sh or.assoc)
  show ?thesis unfolding u by (rule or_bytes) simp_all
qed

lemma b64_index_b64: "i < 64 \<Longrightarrow> b64_index (b64 ! i) = Some i"
proof -
  assume "i < 64"
  moreover have "\<forall>j \<in> set [0..<64]. b64_index (b64 ! j) = Some j"
    by code_simp
  ultimately show ?thesis by simp
qed

lemma b64_not_pad: "i < 64 \<Longrightarrow> b64 ! i \<noteq> CHR ''=''"
proof -
  assume "i < 64"
  moreover have "\<forall>j \<in> set [0..<64]. b64 ! j \<noteq> CHR ''=''"
    by code_simp
  ultimately show ?thesis by simp
qed

text \<open>The four sextets of a group, as the decoder reads them back.\<close>

lemma base64_loop_unfold:
  assumes "data \<noteq> []"
  defines "t \<equiv> unat (b64_triple data)"
  shows "base64_loop data =
    [b64 ! (t div 262144 mod 64), b64 ! (t div 4096 mod 64),
     if 1 < length data then b64 ! (t div 64 mod 64) else CHR ''='',
     if 2 < length data then b64 ! (t mod 64) else CHR ''='']
    @ base64_loop (drop 3 data)"
proof -
  have "unat (drop_bit k w AND 0x3F :: u32) = unat w div 2 ^ k mod 64" for k w
    by (simp add: unsigned_and_eq unat_drop_bit_eq drop_bit_nat_def and_mod_nat)
  from this [of 0] this show ?thesis
    using assms by (subst base64_loop.simps) (simp add: Let_def)
qed

lemma sextets:
  assumes "b < 4" "c < 16" "d < 16" "e < 4" "f < 64" "a < 64"
  defines "t \<equiv> (a * 4 + b) * 65536 + (c * 16 + d) * 256 + (e * 64 + f :: nat)"
  shows "t div 262144 mod 64 = a" and "t div 4096 mod 64 = b * 16 + c"
    and "t div 64 mod 64 = d * 4 + e" and "t mod 64 = f"
proof -
  have "t div 262144 = a" "t div 4096 = a * 64 + (b * 16 + c)"
    "t div 64 = (a * 64 + (b * 16 + c)) * 64 + (d * 4 + e)"
    using assms(1-5) unfolding t_def by (intro div_nat_eqI; simp)+
  moreover have "t = ((a * 64 + (b * 16 + c)) * 64 + (d * 4 + e)) * 64 + f"
    by (simp add: t_def)
  moreover have "(q * 64 + r) mod 64 = r" if "r < 64" for q r :: nat
    using that by simp
  ultimately show "t div 262144 mod 64 = a" "t div 4096 mod 64 = b * 16 + c"
    "t div 64 mod 64 = d * 4 + e" "t mod 64 = f"
    using assms(1-6) by (simp_all only: mod_less)
qed

lemma base64_loop_3:
  "base64_loop (x # y # z # zs) =
    [b64 ! (code x div 4), b64 ! (code x mod 4 * 16 + code y div 16),
     b64 ! (code y mod 16 * 4 + code z div 64), b64 ! (code z mod 64)] @ base64_loop zs"
  using sextets [of "code x mod 4" "code y div 16" "code y mod 16" "code z div 64" "code z mod 64" "code x div 4"]
  by (simp add: base64_loop_unfold b64_triple_nat less_mult_imp_div_less)

lemma base64_loop_2:
  "base64_loop [x, y] =
    [b64 ! (code x div 4), b64 ! (code x mod 4 * 16 + code y div 16),
     b64 ! (code y mod 16 * 4), CHR ''='']"
  using sextets [of "code x mod 4" "code y div 16" "code y mod 16" 0 0 "code x div 4"]
  by (simp add: base64_loop_unfold b64_triple_nat less_mult_imp_div_less base64_loop.simps [of "[]"])

lemma base64_loop_1:
  "base64_loop [x] = [b64 ! (code x div 4), b64 ! (code x mod 4 * 16), CHR ''='', CHR ''='']"
  using sextets [of "code x mod 4" 0 0 0 0 "code x div 4"]
  by (simp add: base64_loop_unfold b64_triple_nat less_mult_imp_div_less base64_loop.simps [of "[]"])

lemma base64_loop_Nil [simp]: "base64_loop [] = []"
  by (simp add: base64_loop.simps)

lemma sextet_bounds:
  "code x div 4 < 64" "code x mod 4 * 16 + code y div 16 < 64" "code x mod 16 * 4 + code y div 64 < 64"
proof -
  have d: "code x div 4 < 64" "code y div 16 < 16" "code y div 64 < 4" for x y
    by (simp_all add: less_mult_imp_div_less)
  have "code x mod 4 < 4" "code x mod 16 < 16" by simp_all
  with d(1) [of x] d(2, 3) [of y] show "code x div 4 < 64" "code x mod 4 * 16 + code y div 16 < 64"
    "code x mod 16 * 4 + code y div 64 < 64"
    by linarith+
qed

lemma octets:
  "char_of (code x div 4 * 4 + (code x mod 4 * 16 + code y div 16) div 16) = x"
  "char_of ((code x mod 4 * 16 + code y div 16) mod 16 * 16 + (code y mod 16 * 4 + code z div 64) div 4) = y"
  "char_of ((code y mod 16 * 4 + code z div 64) mod 4 * 64 + code z mod 64) = z"
  using code_less [of 256 x] code_less [of 256 y] code_less [of 256 z]
  by (simp_all add: less_mult_imp_div_less)

lemma base64_decode_loop: "base64_decode (base64_loop s) = Some s"
proof (induction s rule: length_induct)
  case (1 s)
  consider "s = []" | x where "s = [x]" | x y where "s = [x, y]" | x y z zs where "s = x # y # z # zs"
    by (metis neq_Nil_conv)
  then show ?case
  proof cases
    case (2 x)
    then show ?thesis using sextet_bounds(1) [of x] sextet_bounds(2) [of x "CHR 0x00"] octets(1) [of x "CHR 0x00"]
      by (simp add: base64_loop_1 b64_index_b64)
  next
    case (3 x y)
    then show ?thesis using sextet_bounds(1) [of x] sextet_bounds(2) [of x y] sextet_bounds(3) [of y "CHR 0x00"] octets(1) [of x y]
        octets(2) [of x y "CHR 0x00"]
      by (simp add: base64_loop_2 b64_index_b64 b64_not_pad)
  next
    case (4 x y z zs)
    then show ?thesis using 1 sextet_bounds(1) [of x] sextet_bounds(2) [of x y] sextet_bounds(3) [of y z]
      by (simp add: base64_loop_3 b64_index_b64 b64_not_pad less_mult_imp_div_less)
  qed simp
qed

lemma base64_loop_length: "length (base64_loop s) = 4 * ((length s + 2) div 3)"
proof (induction s rule: length_induct)
  case (1 s)
  show ?case
  proof (cases "s = []")
    case False
    with 1 have "length (base64_loop (drop 3 s)) = 4 * ((length s - 3 + 2) div 3)"
      by simp
    with False have "length (base64_loop s) = 4 + 4 * ((length s - 3 + 2) div 3)"
      by (simp add: base64_loop_unfold)
    moreover have "1 + (length s - 3 + 2) div 3 = (length s + 2) div 3"
      using False by (cases s) (simp_all, presburger)
    ultimately show ?thesis by simp
  qed simp
qed

text \<open>C36. Base64 is invertible: unless the allocation fails, the RFC 4648 decoder reads back exactly
  the bytes that were encoded, with their padding, and the output fills the \<open>4 * ((len + 2) / 3)\<close>
  characters that were allocated for it.\<close>

theorem base64_roundtrip:
  "sentry__base64_encode malloc data (length data) =
     (if malloc (4 * ((length data + 2) div 3) + 1) = None then None
      else Some (base64_loop data))
   \<and> base64_decode (base64_loop data) = Some data
   \<and> length (base64_loop data) = 4 * ((length data + 2) div 3)"
  by (auto simp: sentry__base64_encode_def base64_decode_loop base64_loop_length split: option.splits)

section \<open>Percent encoding\<close>

definition isalnum_c :: "char \<Rightarrow> bool" where
  "isalnum_c c \<longleftrightarrow> (48 \<le> code c \<and> code c \<le> 57) \<or> (65 \<le> code c \<and> code c \<le> 90) \<or> (97 \<le> code c \<and> code c \<le> 122)"

definition hex_upper :: string where
  "hex_upper = ''0123456789ABCDEF''"

definition unreserved :: "char \<Rightarrow> bool" where
  "unreserved c \<longleftrightarrow> isalnum_c c \<or> c = CHR ''-'' \<or> c = CHR ''.'' \<or> c = CHR ''_'' \<or> c = CHR ''~''"

definition percent_escape :: "char \<Rightarrow> string" where
  "percent_escape c =
     (if unreserved c then [c]
      else [CHR ''%'', hex_upper ! (code c div 16), hex_upper ! (code c mod 16)])"

text \<open>The loop over the bytes of a NUL-terminated string; the result codes of the builder are
  ignored, as in the source.\<close>

primrec percent_encode_append :: "malloc \<Rightarrow> sentry_stringbuilder_t \<Rightarrow> string \<Rightarrow> sentry_stringbuilder_t" where
  "percent_encode_append malloc sb [] = sb"
| "percent_encode_append malloc sb (c # cs) =
     (if c = CHR 0x00 then sb
      else percent_encode_append malloc (fst (sentry__stringbuilder_append_buf malloc sb (percent_escape c))) cs)"

definition percent_encode :: "string \<Rightarrow> string" where
  "percent_encode s = concat (map percent_escape s)"

text \<open>\<open>strtol\<close> in base 16 on two hexadecimal digits.\<close>

definition strtol16 :: "char \<Rightarrow> char \<Rightarrow> nat" where
  "strtol16 a b = the (hex_val a) * 16 + the (hex_val b)"

function percent_decode_loop :: "string \<Rightarrow> nat \<Rightarrow> nat \<Rightarrow> nat \<Rightarrow> string \<times> nat" where
  "percent_decode_loop s n r w =
     (if r < n
      then if s ! r = CHR ''%'' \<and> r + 2 < n \<and> isxdigit (s ! (r + 1)) \<and> isxdigit (s ! (r + 2))
           then percent_decode_loop (s[w := char_of (strtol16 (s ! (r + 1)) (s ! (r + 2)))]) n (r + 3) (w + 1)
           else percent_decode_loop (s[w := s ! r]) n (r + 1) (w + 1)
      else (s, w))"
  by pat_completeness auto
termination
  by (relation "measure (\<lambda>(s, n, r, w). n - r)") auto

declare percent_decode_loop.simps [simp del]

definition sentry__percent_decode_inplace :: "string \<Rightarrow> nat \<Rightarrow> string \<times> nat" where
  "sentry__percent_decode_inplace s n = percent_decode_loop s n 0 0"

text \<open>The decoder as a function on strings.\<close>

fun percent_decode :: "string \<Rightarrow> string" where
  "percent_decode (p # a # b # cs) =
     (if p = CHR ''%'' \<and> isxdigit a \<and> isxdigit b then char_of (strtol16 a b) # percent_decode cs
      else p # percent_decode (a # b # cs))"
| "percent_decode cs = cs"

lemma percent_decode_Cons:
  "percent_decode (p # cs) =
     (if p = CHR ''%'' \<and> 2 \<le> length cs \<and> isxdigit (cs ! 0) \<and> isxdigit (cs ! 1)
      then char_of (strtol16 (cs ! 0) (cs ! 1)) # percent_decode (drop 2 cs)
      else p # percent_decode cs)"
  by (cases cs; cases "tl cs") auto

text \<open>The write index never overtakes the read index, so the bytes still to be read are those of
  the input.\<close>

lemma percent_decode_loop_spec:
  "\<lbrakk>w \<le> r; r \<le> n; n \<le> length s; percent_decode_loop s n r w = (s', w')\<rbrakk> \<Longrightarrow>
     w \<le> w' \<and> w' \<le> n \<and> length s' = length s \<and> drop n s' = drop n s
     \<and> take w' s' = take w s @ percent_decode (drop r (take n s))"
proof (induction s n r w rule: percent_decode_loop.induct)
  case (1 s n r w)
  show ?case
  proof (cases "r < n")
    case False
    then have "percent_decode_loop s n r w = (s, w)"
      by (subst percent_decode_loop.simps) simp
    with False "1.prems" show ?thesis by simp
  next
    case r: True
    define e where "e = (s ! r = CHR ''%'' \<and> r + 2 < n \<and> isxdigit (s ! (r + 1)) \<and> isxdigit (s ! (r + 2)))"
    define c where "c = (if e then char_of (strtol16 (s ! (r + 1)) (s ! (r + 2))) else s ! r)"
    define k where "k = (if e then 3 else 1 :: nat)"
    have step: "percent_decode_loop (s[w := c]) n (r + k) (w + 1) = (s', w')"
      using r "1.prems"(4) unfolding percent_decode_loop.simps [of s n r w] e_def [symmetric]
      by (simp add: c_def k_def split: if_splits)
    have k: "r + k \<le> n" "0 < k" using r by (auto simp: k_def e_def)
    have ih: "w + 1 \<le> w' \<and> w' \<le> n \<and> length s' = length (s[w := c]) \<and> drop n s' = drop n (s[w := c])
      \<and> take w' s' = take (w + 1) (s[w := c]) @ percent_decode (drop (r + k) (take n (s[w := c])))"
    proof (cases e)
      case True
      then show ?thesis using "1.IH"(1) [OF r, folded e_def] "1.prems" step k by (simp add: c_def k_def)
    next
      case False
      then show ?thesis using "1.IH"(2) [OF r, folded e_def] "1.prems" step k by (simp add: c_def k_def)
    qed
    have "drop (r + k) (take n (s[w := c])) = drop (r + k) (take n s)"
      using "1.prems"(1) k by (simp add: take_update_swap drop_update_cancel)
    moreover have "take (w + 1) (s[w := c]) = take w s @ [c]"
      using "1.prems" r by (simp add: take_Suc_conv_app_nth)
    moreover have "drop r (take n s) = s ! r # drop (Suc r) (take n s)"
      using r "1.prems"(3) by (simp add: Cons_nth_drop_Suc [symmetric])
    then have "percent_decode (drop r (take n s)) = c # percent_decode (drop (r + k) (take n s))"
      using r "1.prems"(3) by (auto simp: percent_decode_Cons c_def k_def e_def numeral_3_eq_3)
    ultimately show ?thesis using ih "1.prems" r by simp
  qed
qed

lemma percent_escape_decode: "percent_decode (percent_escape c @ s) = c # percent_decode s"
proof (cases "unreserved c")
  case True
  then have "c \<noteq> CHR ''%''" by (auto simp: unreserved_def isalnum_c_def)
  with True show ?thesis by (simp add: percent_escape_def percent_decode_Cons)
next
  case False
  have "\<forall>i \<in> set [0..<16]. hex_val (hex_upper ! i) = Some i"
    by code_simp
  then have "hex_val (hex_upper ! (code c div 16)) = Some (code c div 16)"
    "hex_val (hex_upper ! (code c mod 16)) = Some (code c mod 16)"
    by (simp_all add: less_mult_imp_div_less)
  with False show ?thesis
    by (simp add: percent_escape_def isxdigit_hex_val strtol16_def)
qed

lemma percent_decode_encode: "percent_decode (percent_encode s) = s"
  by (induction s) (simp_all add: percent_encode_def percent_escape_decode)

lemma percent_encode_append_pieces:
  "percent_encode_append malloc sb s =
     foldl (\<lambda>sb p. fst (sentry__stringbuilder_append_buf malloc sb p)) sb
       (map percent_escape (takeWhile (\<lambda>c. c \<noteq> CHR 0x00) s))"
  by (induction s arbitrary: sb) auto

lemma percent_encode_append_view:
  assumes "sb_wf sb" "malloc_sized malloc" "\<forall>n. malloc n \<noteq> None"
    and "length (sb_view sb) + length (percent_encode s) < SIZE_MAX" "CHR 0x00 \<notin> set s"
  shows "sb_view (percent_encode_append malloc sb s) = sb_view sb @ percent_encode s"
proof -
  have "takeWhile (\<lambda>c. c \<noteq> CHR 0x00) s = s"
    using assms(5) by (auto simp: takeWhile_eq_all_conv)
  with assms total_builder.appends_view [of sb malloc "map percent_escape s"] show ?thesis
    by (simp add: percent_encode_append_pieces percent_encode_def)
qed

lemma percent_encode_safe: "\<forall>c \<in> set (percent_encode s). unreserved c \<or> c = CHR ''%''"
proof -
  have "\<forall>i \<in> set [0..<16]. unreserved (hex_upper ! i)"
    by code_simp
  then have "unreserved (hex_upper ! (code c div 16))" "unreserved (hex_upper ! (code c mod 16))" for c
    by (simp_all add: less_mult_imp_div_less)
  then show ?thesis by (auto simp: percent_encode_def percent_escape_def)
qed

lemma percent_decode_inplace_encoded:
  obtains junk where
    "sentry__percent_decode_inplace (percent_encode s @ rest) (length (percent_encode s)) = (s @ junk @ rest, length s)"
    "length s + length junk = length (percent_encode s)"
proof -
  let ?e = "percent_encode s"
  obtain s' w' where r: "percent_decode_loop (?e @ rest) (length ?e) 0 0 = (s', w')"
    by (cases "percent_decode_loop (?e @ rest) (length ?e) 0 0")
  have sp: "w' \<le> length ?e" "length s' = length ?e + length rest" "drop (length ?e) s' = rest" "take w' s' = s"
    using percent_decode_loop_spec [OF _ _ _ r] by (simp_all add: percent_decode_encode)
  define junk where "junk = drop w' (take (length ?e) s')"
  have "length (take w' s') = w'"
    using sp(1,2) by simp
  then have w: "w' = length s" by (simp only: sp(4))
  have "s' = take w' (take (length ?e) s') @ junk @ drop (length ?e) s'"
    unfolding junk_def by (simp only: append_take_drop_id flip: append_assoc)
  moreover have "take w' (take (length ?e) s') = s"
    using sp(1,4) by (simp add: min_absorb1)
  ultimately have "s' = s @ junk @ rest"
    unfolding sp(3) by metis
  with r w have "sentry__percent_decode_inplace (?e @ rest) (length ?e) = (s @ junk @ rest, length s)"
    by (simp add: sentry__percent_decode_inplace_def)
  moreover have "length s + length junk = length ?e"
    using sp w by (simp add: junk_def)
  ultimately show ?thesis by (rule that)
qed

text \<open>Percent coding round trip through the two routines of the code: the bytes that
  \<open>percent_encode_append\<close> adds to a builder contain only RFC 3986 unreserved characters and \<open>%\<close>, so
  none of the separators of a baggage header, and \<open>sentry__percent_decode_inplace\<close>, run on a buffer that starts with
  them, leaves the original string in the front of the buffer, returns its length, and touches
  nothing behind the encoded bytes.\<close>

theorem percent_roundtrip:
  assumes "sb_wf sb" "malloc_sized malloc" "\<forall>n. malloc n \<noteq> None"
    and "length (sb_view sb) + length (percent_encode s) < SIZE_MAX" "CHR 0x00 \<notin> set s"
  shows "\<exists>enc. sb_view (percent_encode_append malloc sb s) = sb_view sb @ enc
    \<and> (\<forall>c \<in> set enc. unreserved c \<or> c = CHR ''%'')
    \<and> (\<exists>junk. sentry__percent_decode_inplace (enc @ rest) (length enc) = (s @ junk @ rest, length s)
         \<and> length s + length junk = length enc)"
  using percent_encode_append_view [OF assms] percent_encode_safe [of s]
    percent_decode_inplace_encoded [of s rest] by metis

theorem percent_roundtrip_witness:
  "\<exists>enc. sb_view (percent_encode_append (\<lambda>n. Some (replicate n CHR ''?'')) sentry__stringbuilder_init ''a b,c'')
      = [] @ enc
    \<and> (\<forall>c \<in> set enc. unreserved c \<or> c = CHR ''%'')
    \<and> (\<exists>junk. sentry__percent_decode_inplace (enc @ '';x'') (length enc) = (''a b,c'' @ junk @ '';x'', length ''a b,c'')
         \<and> length ''a b,c'' + length junk = length enc)"
  using percent_roundtrip [of sentry__stringbuilder_init "\<lambda>n. Some (replicate n CHR ''?'')" "''a b,c''" "'';x''"]
  by (simp add: malloc_sized_def SIZE_MAX_def percent_encode_def percent_escape_def)

section \<open>UTF-8\<close>

text \<open>The loop that fills \<open>buf[i], \<dots>, buf[1]\<close> with continuation bytes, six bits at a time.  It returns
  the bits that are left and the bytes \<open>buf[1..]\<close>.\<close>

primrec utf8_tail :: "nat \<Rightarrow> u32 \<Rightarrow> string \<Rightarrow> u32 \<times> string" where
  "utf8_tail 0 c bs = (c, bs)"
| "utf8_tail (Suc i) c bs = utf8_tail i (drop_bit 6 c) (char_of (unat ((c AND 0x3F) OR 0x80)) # bs)"

text \<open>The bytes written to \<open>buf\<close>; their number is the result of the C function.\<close>

definition sentry__unichar_to_utf8 :: "u32 \<Rightarrow> string" where
  "sentry__unichar_to_utf8 c =
     (if c < 0x80 then (case utf8_tail 0 c [] of (c', bs) \<Rightarrow> char_of (unat (c' OR 0)) # bs)
      else if c < 0x800 then (case utf8_tail 1 c [] of (c', bs) \<Rightarrow> char_of (unat (c' OR 0xC0)) # bs)
      else if c < 0x10000 then (case utf8_tail 2 c [] of (c', bs) \<Rightarrow> char_of (unat (c' OR 0xE0)) # bs)
      else if c \<le> 0x10FFFF then (case utf8_tail 3 c [] of (c', bs) \<Rightarrow> char_of (unat (c' OR 0xF0)) # bs)
      else [])"

text \<open>A reference decoder for one code point: the number of leading ones of the first byte gives the
  length, every further byte carries six bits, and an overlong form is rejected.\<close>

definition utf8_cont :: "char \<Rightarrow> bool" where
  "utf8_cont b \<longleftrightarrow> code b div 64 = 2"

definition utf8_decode1 :: "string \<Rightarrow> (nat \<times> string) option" where
  "utf8_decode1 s = (case s of [] \<Rightarrow> None | b # r \<Rightarrow>
     let n = (if code b < 128 then 0 else if code b div 32 = 6 then 1 else if code b div 16 = 14 then 2
              else if code b div 8 = 30 then 3 else 4);
         lead = (if n = 0 then code b else code b mod 2 ^ (6 - n));
         v = foldl (\<lambda>v b. v * 64 + code b mod 64) lead (take n r)
     in if n < 4 \<and> n \<le> length r \<and> list_all utf8_cont (take n r)
           \<and> [0, 0x80, 0x800, 0x10000] ! n \<le> v \<and> v \<le> 0x10FFFF
        then Some (v, drop n r) else None)"

lemma unat_or_and:
  "unat ((c AND 0x3F) OR 0x80 :: u32) = 128 + unat c mod 64"
  "unat c < 32 \<Longrightarrow> unat (c OR 0xC0 :: u32) = 192 + unat c"
  "unat c < 16 \<Longrightarrow> unat (c OR 0xE0 :: u32) = 224 + unat c"
  "unat c < 8 \<Longrightarrow> unat (c OR 0xF0 :: u32) = 240 + unat c"
  using or_shift_add [of "unat c mod 64" 7 1] or_shift_add [of "unat c" 5 6]
    or_shift_add [of "unat c" 4 14] or_shift_add [of "unat c" 3 30]
  by (simp_all add: unsigned_or_eq unsigned_and_eq and_mod_nat or.commute)

lemma unat_shift6: "unat (drop_bit 6 c :: u32) = unat c div 64"
  by (simp add: unat_drop_bit_eq drop_bit_nat_def)

lemma lead_div:
  "k < 64 \<Longrightarrow> (128 + k) div 64 = 2" "k < 32 \<Longrightarrow> (192 + k) div 32 = 6" "k < 16 \<Longrightarrow> (224 + k) div 32 = 7"
  "k < 16 \<Longrightarrow> (224 + k) div 16 = 14" "k < 8 \<Longrightarrow> (240 + k) div 32 = 7" "k < 8 \<Longrightarrow> (240 + k) div 16 = 15"
  "k < 8 \<Longrightarrow> (240 + k) div 8 = (30 :: nat)"
  by (rule div_nat_eqI; simp)+

lemma lead_mod:
  "k < 64 \<Longrightarrow> (128 + k) mod 64 = k" "k < 32 \<Longrightarrow> (192 + k) mod 32 = k"
  "k < 16 \<Longrightarrow> (224 + k) mod 16 = k" "k < 8 \<Longrightarrow> (240 + k) mod 8 = (k :: nat)"
proof -
  have m: "(q * m + k) mod m = k" if "k < m" for q m k :: nat
    using that by (simp only: mod_mult_self3 mod_less)
  show "k < 64 \<Longrightarrow> (128 + k) mod 64 = k" using m [of k 64 2] by simp
  show "k < 32 \<Longrightarrow> (192 + k) mod 32 = k" using m [of k 32 6] by simp
  show "k < 16 \<Longrightarrow> (224 + k) mod 16 = k" using m [of k 16 14] by simp
  show "k < 8 \<Longrightarrow> (240 + k) mod 8 = k" using m [of k 8 30] by simp
qed

lemmas lead_byte = lead_div lead_mod

lemma cont_byte:
  "k < 64 \<Longrightarrow> utf8_cont (char_of (128 + k))" "k < 64 \<Longrightarrow> code (char_of (128 + k)) mod 64 = k"
  by (simp_all add: utf8_cont_def lead_byte del: of_char_of)

lemma unat_shift: "unat (drop_bit k c :: u32) = unat c div 2 ^ k"
  by (simp add: unat_drop_bit_eq drop_bit_nat_def)

lemma utf8_tail_1: "utf8_tail 1 c [] = (drop_bit 6 c, [char_of (128 + unat c mod 64)])"
  by (simp add: unat_or_and(1))

lemma utf8_tail_2: "utf8_tail 2 c [] = (drop_bit 12 c,
    [char_of (128 + unat c div 64 mod 64), char_of (128 + unat c mod 64)])"
  unfolding numeral_2_eq_2 by (simp add: unat_or_and(1) unat_shift6)

lemma utf8_tail_3: "utf8_tail 3 c [] = (drop_bit 18 c,
    [char_of (128 + unat c div 4096 mod 64), char_of (128 + unat c div 64 mod 64), char_of (128 + unat c mod 64)])"
  unfolding numeral_3_eq_3 by (simp add: unat_or_and(1) unat_shift6 unat_shift)

lemma utf8_forms:
  "c < 0x80 \<Longrightarrow> sentry__unichar_to_utf8 c = [char_of (unat c)]"
  "\<lbrakk>0x80 \<le> c; c < 0x800\<rbrakk> \<Longrightarrow> sentry__unichar_to_utf8 c =
     [char_of (192 + unat c div 64), char_of (128 + unat c mod 64)]"
  "\<lbrakk>0x800 \<le> c; c < 0x10000\<rbrakk> \<Longrightarrow> sentry__unichar_to_utf8 c =
     [char_of (224 + unat c div 4096), char_of (128 + unat c div 64 mod 64), char_of (128 + unat c mod 64)]"
  "\<lbrakk>0x10000 \<le> c; c \<le> 0x10FFFF\<rbrakk> \<Longrightarrow> sentry__unichar_to_utf8 c =
     [char_of (240 + unat c div 262144), char_of (128 + unat c div 4096 mod 64),
      char_of (128 + unat c div 64 mod 64), char_of (128 + unat c mod 64)]"
  by (simp_all add: sentry__unichar_to_utf8_def utf8_tail_1 utf8_tail_2 utf8_tail_3 unat_or_and unat_shift
      word_less_nat_alt word_le_nat_alt less_mult_imp_div_less del: utf8_tail.simps(2) One_nat_def)

lemma utf8_decode1_forms:
  "k < 128 \<Longrightarrow> utf8_decode1 (char_of k # rest) = Some (k, rest)"
  "\<lbrakk>k < 32; x < 64; 0x80 \<le> k * 64 + x\<rbrakk> \<Longrightarrow>
     utf8_decode1 (char_of (192 + k) # char_of (128 + x) # rest) = Some (k * 64 + x, rest)"
  "\<lbrakk>k < 16; x < 64; y < 64; 0x800 \<le> (k * 64 + x) * 64 + y\<rbrakk> \<Longrightarrow>
     utf8_decode1 (char_of (224 + k) # char_of (128 + x) # char_of (128 + y) # rest)
       = Some ((k * 64 + x) * 64 + y, rest)"
  "\<lbrakk>k < 8; x < 64; y < 64; z < 64; 0x10000 \<le> ((k * 64 + x) * 64 + y) * 64 + z;
     ((k * 64 + x) * 64 + y) * 64 + z \<le> 0x10FFFF\<rbrakk> \<Longrightarrow>
     utf8_decode1 (char_of (240 + k) # char_of (128 + x) # char_of (128 + y) # char_of (128 + z) # rest)
       = Some (((k * 64 + x) * 64 + y) * 64 + z, rest)"
  by (simp_all add: utf8_decode1_def Let_def lead_byte cont_byte numeral_2_eq_2 [symmetric] del: of_char_of)

lemma base64_digits: "n div 64 * 64 + n mod 64 = n" "n div 4096 * 64 + n div 64 mod 64 = n div 64"
  "n div 262144 * 64 + n div 4096 mod 64 = n div 4096" for n :: nat
  using div_mult_mod_eq [of "n div 64" 64] div_mult_mod_eq [of "n div 4096" 64]
  by (simp_all flip: div_mult2_eq)

text \<open>The UTF-8 encoder writes the unique shortest UTF-8 form of every code point up to
  \<open>0x10FFFF\<close>: the reference decoder, which rejects overlong forms, reads the code point back and
  stops right behind it.  For any larger value nothing is written.\<close>

theorem unichar_to_utf8_roundtrip:
  "(if c \<le> 0x10FFFF then utf8_decode1 (sentry__unichar_to_utf8 c @ rest) = Some (unat c, rest)
    else sentry__unichar_to_utf8 c = [])"
proof -
  consider "c < 0x80" | "0x80 \<le> c" "c < 0x800" | "0x800 \<le> c" "c < 0x10000" | "0x10000 \<le> c" "c \<le> 0x10FFFF"
    | "c > 0x10FFFF"
    by fastforce
  then show ?thesis
  proof cases
    case 1
    then show ?thesis by (simp add: utf8_forms utf8_decode1_forms word_less_nat_alt word_le_nat_alt)
  next
    case 2
    then show ?thesis using utf8_decode1_forms(2) [of "unat c div 64" "unat c mod 64" rest]
      by (simp add: utf8_forms base64_digits word_less_nat_alt word_le_nat_alt less_mult_imp_div_less)
  next
    case 3
    then show ?thesis using utf8_decode1_forms(3) [of "unat c div 4096" "unat c div 64 mod 64" "unat c mod 64" rest]
      by (simp add: utf8_forms base64_digits word_less_nat_alt word_le_nat_alt less_mult_imp_div_less)
  next
    case 4
    then show ?thesis using utf8_decode1_forms(4)
        [of "unat c div 262144" "unat c div 4096 mod 64" "unat c div 64 mod 64" "unat c mod 64" rest]
      by (simp add: utf8_forms base64_digits word_less_nat_alt word_le_nat_alt less_mult_imp_div_less)
  next
    case 5
    then show ?thesis by (simp add: sentry__unichar_to_utf8_def word_less_nat_alt word_le_nat_alt)
  qed
qed

section \<open>Addresses\<close>

definition SENTRY_ADDR_MIN_BUFFER_SIZE :: nat where
  "SENTRY_ADDR_MIN_BUFFER_SIZE = 19"

definition hex_lower :: string where
  "hex_lower = ''0123456789abcdef''"

text \<open>The contents of \<open>rev\<close>, least significant nibble first; \<open>k\<close> entries are still free.\<close>

primrec rev_nibbles :: "nat \<Rightarrow> u64 \<Rightarrow> string" where
  "rev_nibbles 0 addr = []"
| "rev_nibbles (Suc k) addr =
     (if addr \<noteq> 0 then hex_lower ! unat (addr AND 0xF) # rev_nibbles k (drop_bit 4 addr) else [])"

text \<open>The loop \<open>buf[buf_idx++] = rev[--rev_idx]\<close>; it returns the buffer and the final index.\<close>

primrec copy_rev :: "string \<Rightarrow> nat \<Rightarrow> string \<Rightarrow> nat \<Rightarrow> nat \<Rightarrow> string \<times> nat" where
  "copy_rev rv n b i 0 = (b, i)"
| "copy_rev rv n b i (Suc k) = (if i + 1 < n then copy_rev rv n (b[i := rv ! k]) (i + 1) k else (b, i))"

definition sentry__addr_to_string :: "string \<Rightarrow> nat \<Rightarrow> u64 \<Rightarrow> string" where
  "sentry__addr_to_string b n addr =
     (if n < SENTRY_ADDR_MIN_BUFFER_SIZE then b
      else
        let b1 = b[0 := CHR ''0'', 1 := CHR ''x''];
            rv = (if addr = 0 then ''0'' else rev_nibbles 16 addr);
            (b2, i) = copy_rev rv n b1 2 (length rv)
        in b2[i := CHR 0x00])"

text \<open>The value of a string of hexadecimal digits.\<close>

definition hex_string_val :: "string \<Rightarrow> nat option" where
  "hex_string_val s =
     (if s \<noteq> [] \<and> list_all isxdigit s then Some (foldl (\<lambda>v c. v * 16 + the (hex_val c)) 0 s) else None)"

lemma copy_rev_all:
  "\<lbrakk>k \<le> length rv; i + k < n; n = length b\<rbrakk> \<Longrightarrow>
     copy_rev rv n b i k = (take i b @ rev (take k rv) @ drop (i + k) b, i + k)"
proof (induction k arbitrary: b i)
  case (Suc k)
  then have "copy_rev rv n b i (Suc k) =
      (take (i + 1) (b[i := rv ! k]) @ rev (take k rv) @ drop (i + 1 + k) (b[i := rv ! k]), i + 1 + k)"
    using Suc.IH [of "i + 1" "b[i := rv ! k]"] by simp
  moreover have "take (i + 1) (b[i := rv ! k]) = take i b @ [rv ! k]"
    using Suc.prems by (simp add: take_Suc_conv_app_nth)
  ultimately show ?case
    using Suc.prems by (simp add: take_Suc_conv_app_nth)
qed simp

lemma hex_lower_nth: "i < 16 \<Longrightarrow> hex_val (hex_lower ! i) = Some i" "i < 16 \<Longrightarrow> hex_lower ! i = CHR ''0'' \<longleftrightarrow> i = 0"
  "i < 16 \<Longrightarrow> hex_lower ! i \<noteq> CHR 0x00"
proof -
  have "\<forall>i \<in> set [0..<16]. hex_val (hex_lower ! i) = Some i \<and> (hex_lower ! i = CHR ''0'' \<longleftrightarrow> i = 0)
      \<and> hex_lower ! i \<noteq> CHR 0x00"
    by code_simp
  then show "i < 16 \<Longrightarrow> hex_val (hex_lower ! i) = Some i" "i < 16 \<Longrightarrow> hex_lower ! i = CHR ''0'' \<longleftrightarrow> i = 0"
    "i < 16 \<Longrightarrow> hex_lower ! i \<noteq> CHR 0x00"
    by simp_all
qed

lemma low_nibble: "unat (addr AND 0xF :: u64) = unat addr mod 16"
  by (simp add: unsigned_and_eq and_mod_nat)

lemma rev_nibbles_spec:
  "unat addr < 16 ^ k \<Longrightarrow>
     foldr (\<lambda>c v. v * 16 + the (hex_val c)) (rev_nibbles k addr) 0 = unat addr
     \<and> length (rev_nibbles k addr) \<le> k \<and> (\<forall>c \<in> set (rev_nibbles k addr). isxdigit c \<and> c \<noteq> CHR 0x00)
     \<and> (rev_nibbles k addr \<noteq> [] \<longrightarrow> last (rev_nibbles k addr) \<noteq> CHR ''0'')"
proof (induction k arbitrary: addr)
  case (Suc k)
  show ?case
  proof (cases "addr = 0")
    case False
    have u: "unat (drop_bit 4 addr) = unat addr div 16"
      by (simp add: unat_drop_bit_eq drop_bit_nat_def)
    then have ih: "foldr (\<lambda>c v. v * 16 + the (hex_val c)) (rev_nibbles k (drop_bit 4 addr)) 0 = unat addr div 16"
        "length (rev_nibbles k (drop_bit 4 addr)) \<le> k"
        "\<forall>c \<in> set (rev_nibbles k (drop_bit 4 addr)). isxdigit c \<and> c \<noteq> CHR 0x00"
        "rev_nibbles k (drop_bit 4 addr) \<noteq> [] \<longrightarrow> last (rev_nibbles k (drop_bit 4 addr)) \<noteq> CHR ''0''"
      using Suc.IH [of "drop_bit 4 addr"] Suc.prems by (simp_all add: less_mult_imp_div_less mult.commute)
    have "rev_nibbles k (drop_bit 4 addr) = [] \<Longrightarrow> unat addr mod 16 \<noteq> 0"
      using ih(1) False unat_eq_0 [of addr] by (auto simp: mod_eq_0_iff_dvd)
    then show ?thesis
      using False ih by (auto simp: low_nibble hex_lower_nth isxdigit_hex_val)
  qed simp
qed (simp add: unat_eq_0)

text \<open>Address formatting: into a buffer of at least 19 bytes the routine writes \<open>0x\<close> and the
  hexadecimal digits of the address, most significant first and without leading zeros, at most 16 of
  them, followed by a NUL; a smaller buffer is left alone, and no byte behind the buffer is written.\<close>

theorem addr_to_string_correct:
  assumes "n = length b"
  shows "length (sentry__addr_to_string b n addr) = n
    \<and> (n < 19 \<longrightarrow> sentry__addr_to_string b n addr = b)
    \<and> (19 \<le> n \<longrightarrow> (\<exists>ds rest. sentry__addr_to_string b n addr = ''0x'' @ ds @ CHR 0x00 # rest
          \<and> CHR 0x00 \<notin> set ds \<and> length ds \<le> 16 \<and> hex_string_val ds = Some (unat addr)
          \<and> (hd ds = CHR ''0'' \<longleftrightarrow> addr = 0)))"
proof (cases "n < 19")
  case True
  then show ?thesis using assms
    by (simp add: sentry__addr_to_string_def SENTRY_ADDR_MIN_BUFFER_SIZE_def)
next
  case False
  define rv where "rv = (if addr = 0 then ''0'' else rev_nibbles 16 addr)"
  have sp: "foldr (\<lambda>c v. v * 16 + the (hex_val c)) (rev_nibbles 16 addr) 0 = unat addr"
      "length (rev_nibbles 16 addr) \<le> 16" "\<forall>c \<in> set (rev_nibbles 16 addr). isxdigit c \<and> c \<noteq> CHR 0x00"
      "rev_nibbles 16 addr \<noteq> [] \<longrightarrow> last (rev_nibbles 16 addr) \<noteq> CHR ''0''"
    using rev_nibbles_spec [of addr 16] unat_less(3) [of addr] by simp_all
  have ne: "rv \<noteq> []" "addr \<noteq> 0 \<Longrightarrow> rev_nibbles 16 addr \<noteq> []"
    using sp(1) by (auto simp: rv_def unat_eq_0)
  have rv: "foldr (\<lambda>c v. v * 16 + the (hex_val c)) rv 0 = unat addr" "length rv \<le> 16"
      "\<forall>c \<in> set rv. isxdigit c \<and> c \<noteq> CHR 0x00" "last rv = CHR ''0'' \<longleftrightarrow> addr = 0"
    using sp ne by (auto simp: rv_def hex_val_def isxdigit_hex_val)
  define b1 where "b1 = b[0 := CHR ''0'', 1 := CHR ''x'']"
  have "2 \<le> length b"
    using False assms by arith
  then obtain x y zs where "b = x # y # zs"
    by (metis Suc_le_length_iff numeral_2_eq_2)
  then have b1: "take 2 b1 = ''0x''" "length b1 = n"
    using assms by (simp_all add: b1_def)
  have i: "2 + length rv < n"
    using rv(2) False by arith
  have "copy_rev rv n b1 2 (length rv) = (''0x'' @ rev rv @ drop (2 + length rv) b1, 2 + length rv)"
    using copy_rev_all [OF order_refl i b1(2) [symmetric]] by (simp only: b1(1) take_all order_refl)
  then have "sentry__addr_to_string b n addr = (''0x'' @ rev rv @ drop (2 + length rv) b1)[2 + length rv := CHR 0x00]"
    using False by (simp add: sentry__addr_to_string_def SENTRY_ADDR_MIN_BUFFER_SIZE_def rv_def b1_def Let_def)
  moreover obtain x xs where x: "drop (2 + length rv) b1 = x # xs"
    using b1(2) rv(2) False by (cases "drop (2 + length rv) b1") auto
  ultimately have e: "sentry__addr_to_string b n addr = ''0x'' @ rev rv @ CHR 0x00 # xs"
    by (simp add: list_update_append)
  have "2 + length rv + 1 + length xs = n"
    using arg_cong [OF x, of length] b1(2) rv(2) False by simp
  moreover have "hex_string_val (rev rv) = Some (unat addr)"
    using ne rv by (simp add: hex_string_val_def list_all_iff foldl_conv_foldr)
  moreover have "hd (rev rv) = CHR ''0'' \<longleftrightarrow> addr = 0"
    using ne(1) rv(4) by (simp add: hd_rev)
  moreover have "CHR 0x00 \<notin> set (rev rv)"
    using rv(3) by (metis set_rev)
  ultimately have "\<exists>ds rest. sentry__addr_to_string b n addr = ''0x'' @ ds @ CHR 0x00 # rest
          \<and> CHR 0x00 \<notin> set ds \<and> length ds \<le> 16 \<and> hex_string_val ds = Some (unat addr)
          \<and> (hd ds = CHR ''0'' \<longleftrightarrow> addr = 0)" "length (sentry__addr_to_string b n addr) = n"
    using rv(2) e by - (rule exI [of _ "rev rv"], rule exI [of _ xs], simp_all)
  with False show ?thesis by blast
qed

theorem addr_to_string_correct_witness:
  "\<exists>ds rest. sentry__addr_to_string (replicate 20 CHR ''?'') 20 0x7fff0010 = ''0x'' @ ds @ CHR 0x00 # rest
     \<and> CHR 0x00 \<notin> set ds \<and> length ds \<le> 16 \<and> hex_string_val ds = Some (unat (0x7fff0010 :: u64))
     \<and> (hd ds = CHR ''0'' \<longleftrightarrow> (0x7fff0010 :: u64) = 0)"
  using addr_to_string_correct [of 20 "replicate 20 CHR ''?''" "0x7fff0010"] by simp

end
