(* ===== verification/Uuids.thy ===== *)
theory Uuids
  imports Encoding
begin

text \<open>
  Identifiers (\<open>sentry_uuid.c\<close>): 16 bytes, their textual forms with and without dashes, the parser,
  the validity test for textual identifiers, and random identifiers.  The source of random bytes is
  a parameter: \<open>Some buf\<close> for 16 bytes, \<open>None\<close> when it fails.
\<close>

record sentry_uuid_t =
  bytes :: string

definition uuid_wf :: "sentry_uuid_t \<Rightarrow> bool" where
  "uuid_wf u \<longleftrightarrow> length (bytes u) = 16"

definition sentry_uuid_nil :: sentry_uuid_t where
  "sentry_uuid_nil = \<lparr>bytes = replicate 16 CHR 0x00\<rparr>"

definition sentry_uuid_from_bytes :: "string \<Rightarrow> sentry_uuid_t" where
  "sentry_uuid_from_bytes bs = \<lparr>bytes = take 16 bs\<rparr>"

text \<open>\<open>sentry__getrandom\<close> fills \<open>buf\<close> or fails.\<close>

definition sentry_uuid_new_v4 :: "string option \<Rightarrow> sentry_uuid_t" where
  "sentry_uuid_new_v4 getrandom =
     (case getrandom of
        None \<Rightarrow> sentry_uuid_nil
      | Some buf \<Rightarrow> sentry_uuid_from_bytes (buf[6 := char_of ((code (buf ! 6) AND 0x0F) OR 0x40)]))"

definition uuid_digit :: "char \<Rightarrow> nat option" where
  "uuid_digit c =
     (if code CHR ''a'' \<le> code c \<and> code c \<le> code CHR ''f'' then Some (10 + (code c - code CHR ''a''))
      else if code CHR ''A'' \<le> code c \<and> code c \<le> code CHR ''F'' then Some (10 + (code c - code CHR ''A''))
      else if code CHR ''0'' \<le> code c \<and> code c \<le> code CHR ''9'' then Some (code c - code CHR ''0'')
      else None)"

text \<open>The loop over the characters; \<open>None\<close> is the early return of the nil identifier.\<close>

primrec from_string_loop :: "string \<Rightarrow> nat \<Rightarrow> bool \<Rightarrow> nat \<Rightarrow> string \<Rightarrow> string option" where
  "from_string_loop [] pos is_nibble nibble rv = Some rv"
| "from_string_loop (c # cs) pos is_nibble nibble rv =
     (if \<not> pos < 16 then Some rv
      else if c = CHR 0x00 \<or> c = CHR ''-'' then from_string_loop cs pos is_nibble nibble rv
      else case uuid_digit c of
        None \<Rightarrow> None
      | Some v \<Rightarrow>
          if is_nibble then from_string_loop cs pos False v rv
          else from_string_loop cs (pos + 1) True nibble
                 (rv[pos := char_of (push_bit 4 nibble OR v)]))"

definition sentry_uuid_from_string_n :: "string \<Rightarrow> nat \<Rightarrow> sentry_uuid_t" where
  "sentry_uuid_from_string_n str n =
     (case from_string_loop (take n str) 0 True 0 (replicate 16 CHR 0x00) of
        None \<Rightarrow> sentry_uuid_nil
      | Some rv \<Rightarrow> \<lparr>bytes = rv\<rparr>)"

definition sentry_uuid_from_string :: "string option \<Rightarrow> sentry_uuid_t" where
  "sentry_uuid_from_string str =
     (case str of None \<Rightarrow> sentry_uuid_nil | Some s \<Rightarrow> sentry_uuid_from_string_n s (length s))"

definition sentry_uuid_is_nil :: "sentry_uuid_t \<Rightarrow> bool" where
  "sentry_uuid_is_nil u = (for_first (\<lambda>i. bytes u ! i \<noteq> CHR 0x00) 0 16 = None)"

definition sentry_uuid_as_bytes :: "sentry_uuid_t \<Rightarrow> string" where
  "sentry_uuid_as_bytes u = take 16 (bytes u)"

text \<open>The conversion \<open>%02hhx\<close>.\<close>

definition hex_byte :: "char \<Rightarrow> string" where
  "hex_byte c = [hex_char (code c div 16), hex_char (code c mod 16)]"

definition hex_bytes :: "sentry_uuid_t \<Rightarrow> nat list \<Rightarrow> string" where
  "hex_bytes u is = concat (map (\<lambda>i. hex_byte (bytes u ! i)) is)"

definition sentry_uuid_as_string :: "sentry_uuid_t \<Rightarrow> string" where
  "sentry_uuid_as_string u =
     hex_bytes u [0, 1, 2, 3] @ ''-'' @ hex_bytes u [4, 5] @ ''-'' @ hex_bytes u [6, 7] @ ''-''
     @ hex_bytes u [8, 9] @ ''-'' @ hex_bytes u [10, 11, 12, 13, 14, 15]"

definition sentry__internal_uuid_as_string :: "sentry_uuid_t \<Rightarrow> string" where
  "sentry__internal_uuid_as_string u =
     hex_bytes u [0, 1, 2, 3, 4, 5, 6, 7, 8, 9, 10, 11, 12, 13, 14, 15]"

definition sentry__span_uuid_as_string :: "sentry_uuid_t \<Rightarrow> string" where
  "sentry__span_uuid_as_string u = hex_bytes u [0, 1, 2, 3, 4, 5, 6, 7]"

text \<open>The buffer has 36 characters for the identifier, the suffix and a NUL.\<close>

definition sentry__uuid_as_filename :: "malloc \<Rightarrow> sentry_uuid_t \<Rightarrow> string option \<Rightarrow> string option" where
  "sentry__uuid_as_filename malloc u sfx =
     (let suffix_len = (case sfx of None \<Rightarrow> 0 | Some s \<Rightarrow> length s) in
      case malloc (36 + suffix_len + 1) of
        None \<Rightarrow> None
      | Some buf \<Rightarrow>
          let buf = memcpy_at buf 0 (sentry_uuid_as_string u @ [CHR 0x00]);
              buf = buf[36 := CHR 0x00]
          in if suffix_len > 0
             then Some ((memcpy_at buf 36 (the sfx))[36 + suffix_len := CHR 0x00])
             else Some buf)"

definition uuid_char_ok :: "string \<Rightarrow> nat \<Rightarrow> nat \<Rightarrow> bool" where
  "uuid_char_ok s n i \<longleftrightarrow>
     (if n = 36 \<and> (i = 8 \<or> i = 13 \<or> i = 18 \<or> i = 23) then s ! i = CHR ''-'' else isxdigit (s ! i))"

definition sentry__uuid_is_valid :: "string option \<Rightarrow> nat \<Rightarrow> bool" where
  "sentry__uuid_is_valid str n =
     (case str of
        None \<Rightarrow> False
      | Some s \<Rightarrow>
          if n \<noteq> 32 \<and> n \<noteq> 36 then False
          else for_first (\<lambda>i. \<not> uuid_char_ok s n i) 0 n = None)"

section \<open>Parsing and printing\<close>

text \<open>The bytes of a string of hexadecimal digits.\<close>

fun hex_pairs :: "string \<Rightarrow> string" where
  "hex_pairs (a # b # cs) = char_of (the (hex_val a) * 16 + the (hex_val b)) # hex_pairs cs"
| "hex_pairs _ = []"

lemma uuid_digit_hex_val: "uuid_digit c = hex_val c"
  by (auto simp: uuid_digit_def hex_val_def)

lemma isxdigit_not_skipped: "isxdigit c \<Longrightarrow> c \<noteq> CHR 0x00 \<and> c \<noteq> CHR ''-''"
  by (auto simp: ctype_defs)

lemma from_string_loop_skips:
  "from_string_loop s pos nib n rv =
     from_string_loop (filter (\<lambda>c. c \<noteq> CHR 0x00 \<and> c \<noteq> CHR ''-'') s) pos nib n rv"
proof (induction s arbitrary: pos nib n rv)
  case (Cons c cs)
  have "from_string_loop xs pos nib n rv = Some rv" if "\<not> pos < 16" for xs
    using that by (cases xs) simp_all
  then show ?case
    by (cases "pos < 16") (auto split: option.split simp flip: Cons.IH)
qed simp

lemma from_string_loop_pairs:
  "\<lbrakk>list_all isxdigit s; length s = 2 * (16 - pos); pos \<le> 16; length rv = 16\<rbrakk> \<Longrightarrow>
     from_string_loop s pos True n rv = Some (take pos rv @ hex_pairs s)"
proof (induction s arbitrary: pos n rv rule: hex_pairs.induct)
  case (1 a b cs)
  obtain x y where xy: "hex_val a = Some x" "hex_val b = Some y"
    using "1.prems"(1) by (auto simp: isxdigit_hex_val)
  have bounds: "x < 16" "y < 16" using xy hex_val_bound by blast+
  have p: "pos < 16" "length cs = 2 * (16 - (pos + 1))" using "1.prems"(2,3) by auto
  have "from_string_loop (a # b # cs) pos True n rv =
      from_string_loop cs (pos + 1) True x (rv[pos := char_of (x * 16 + y)])"
    using "1.prems"(1) p(1) xy bounds or_add_nat(1) [of y x]
    by (simp add: uuid_digit_hex_val isxdigit_not_skipped push_bit_nat_def)
  also have "\<dots> = Some (take (pos + 1) (rv[pos := char_of (x * 16 + y)]) @ hex_pairs cs)"
    using "1.IH" "1.prems" p by simp
  also have "take (pos + 1) (rv[pos := char_of (x * 16 + y)]) = take pos rv @ [char_of (x * 16 + y)]"
    using p "1.prems"(4) by (simp add: take_Suc_conv_app_nth)
  finally show ?case using xy by simp
qed auto

lemma hex_char_tolower: "isxdigit c \<Longrightarrow> hex_char (the (hex_val c)) = tolower c"
proof -
  assume "isxdigit c"
  then consider "isdigit c" | "65 \<le> code c" "code c \<le> 70" | "97 \<le> code c" "code c \<le> 102"
    by (auto simp: isxdigit_def)
  then show ?thesis
    by cases (auto simp: hex_char_def hex_val_def tolower_def ctype_defs)
qed

lemma hex_byte_pair:
  assumes "isxdigit a" "isxdigit b"
  shows "hex_byte (char_of (the (hex_val a) * 16 + the (hex_val b))) = [tolower a, tolower b]"
proof -
  obtain x y where xy: "hex_val a = Some x" "hex_val b = Some y"
    using assms by (auto simp: isxdigit_hex_val)
  then have "x < 16" "y < 16" using hex_val_bound by blast+
  with xy hex_char_tolower [OF assms(1)] hex_char_tolower [OF assms(2)] show ?thesis
    by (simp add: hex_byte_def)
qed

lemma hex_bytes_pairs:
  "\<lbrakk>list_all isxdigit s; even (length s)\<rbrakk> \<Longrightarrow> concat (map hex_byte (hex_pairs s)) = map tolower s"
  by (induction s rule: hex_pairs.induct) (auto simp: hex_byte_pair)

lemma hex_pairs_bytes: "hex_pairs (concat (map hex_byte bs)) = bs"
  by (induction bs) (simp_all add: hex_byte_def less_mult_imp_div_less)

lemma hex_byte_isxdigit: "list_all isxdigit (hex_byte c)"
  by (simp add: hex_byte_def isxdigit_hex_val less_mult_imp_div_less)

text \<open>Inserting the four dashes into 32 digits.\<close>

definition dashed :: "string \<Rightarrow> string" where
  "dashed s = take 8 s @ ''-'' @ take 4 (drop 8 s) @ ''-'' @ take 4 (drop 12 s) @ ''-''
     @ take 4 (drop 16 s) @ ''-'' @ drop 20 s"

lemma nth_16:
  assumes "length bs = 16"
  shows "bs = map (\<lambda>i. bs ! i) [0, 1, 2, 3, 4, 5, 6, 7, 8, 9, 10, 11, 12, 13, 14, 15]"
proof -
  have "bs = map (\<lambda>i. bs ! i) [0..<16]"
    using map_nth [of bs] assms by simp
  moreover have "[0..<16] = [0, 1, 2, 3, 4, 5, 6, 7, 8, 9, 10, 11, 12, 13, 14, 15 :: nat]"
    by code_simp
  ultimately show ?thesis by metis
qed

lemma internal_as_string_concat:
  "uuid_wf u \<Longrightarrow> sentry__internal_uuid_as_string u = concat (map hex_byte (bytes u))"
  by (subst nth_16 [of "bytes u"]) (simp_all add: uuid_wf_def sentry__internal_uuid_as_string_def hex_bytes_def)

lemma as_string_dashed: "sentry_uuid_as_string u = dashed (sentry__internal_uuid_as_string u)"
  by (simp add: sentry_uuid_as_string_def sentry__internal_uuid_as_string_def hex_bytes_def hex_byte_def
      dashed_def)

lemma list_all_concat: "list_all P (concat xss) = list_all (list_all P) xss"
  by (induction xss) auto

lemma internal_as_string_digits:
  "uuid_wf u \<Longrightarrow> list_all isxdigit (sentry__internal_uuid_as_string u)"
  by (simp add: internal_as_string_concat list_all_concat list_all_iff hex_byte_isxdigit [unfolded list_all_iff])

lemma length_internal_as_string [simp]: "length (sentry__internal_uuid_as_string u) = 32"
  by (simp add: sentry__internal_uuid_as_string_def hex_bytes_def hex_byte_def)

lemma filter_dashed:
  "list_all isxdigit s \<Longrightarrow> filter (\<lambda>c. c \<noteq> CHR 0x00 \<and> c \<noteq> CHR ''-'') (dashed s) = s"
proof -
  assume d: "list_all isxdigit s"
  have "filter (\<lambda>c. c \<noteq> CHR 0x00 \<and> c \<noteq> CHR ''-'') xs = xs" if "set xs \<subseteq> set s" for xs
    using that d isxdigit_not_skipped by (fastforce simp: list_all_iff filter_id_conv)
  note f = this [OF subset_trans [OF set_take_subset]] this [OF set_drop_subset] this [OF set_take_subset]
  have "filter (\<lambda>c. c \<noteq> CHR 0x00 \<and> c \<noteq> CHR ''-'') (dashed s)
      = take 8 s @ take 4 (drop 8 s) @ take 4 (drop 12 s) @ take 4 (drop 16 s) @ drop 20 s"
    by (simp add: dashed_def f set_drop_subset)
  also have "\<dots> = s"
    using append_take_drop_id [of 4 "drop 16 s"] append_take_drop_id [of 4 "drop 12 s"]
      append_take_drop_id [of 4 "drop 8 s"] append_take_drop_id [of 8 s] by simp
  finally show ?thesis .
qed

lemma from_string_digits:
  assumes "list_all isxdigit s" "length s = 32"
  shows "sentry_uuid_from_string_n s 32 = \<lparr>bytes = hex_pairs s\<rparr>"
    and "sentry_uuid_from_string_n (dashed s) 36 = \<lparr>bytes = hex_pairs s\<rparr>"
proof -
  have "from_string_loop s 0 True 0 (replicate 16 CHR 0x00) = Some (hex_pairs s)"
    using from_string_loop_pairs [of s 0] assms by simp
  moreover from this have "from_string_loop (dashed s) 0 True 0 (replicate 16 CHR 0x00) = Some (hex_pairs s)"
    by (subst from_string_loop_skips) (simp add: filter_dashed assms)
  moreover have "take 36 (dashed s) = dashed s"
    using assms(2) by (simp add: dashed_def)
  ultimately show "sentry_uuid_from_string_n s 32 = \<lparr>bytes = hex_pairs s\<rparr>"
    and "sentry_uuid_from_string_n (dashed s) 36 = \<lparr>bytes = hex_pairs s\<rparr>"
    using assms(2) by (simp_all add: sentry_uuid_from_string_n_def)
qed

lemma length_hex_pairs: "length (hex_pairs s) = length s div 2"
  by (induction s rule: hex_pairs.induct) auto

lemma hex_pairs_as_string:
  assumes "list_all isxdigit s" "length s = 32"
  shows "sentry__internal_uuid_as_string \<lparr>bytes = hex_pairs s\<rparr> = map tolower s"
  using assms hex_bytes_pairs [of s] by (simp add: internal_as_string_concat uuid_wf_def length_hex_pairs)

definition undashed :: "string \<Rightarrow> string" where
  "undashed t = take 8 t @ take 4 (drop 9 t) @ take 4 (drop 14 t) @ take 4 (drop 19 t) @ drop 24 t"

lemma nth_dashed:
  assumes "length s = 32" "i < 36"
  shows "dashed s ! i = (if i = 8 \<or> i = 13 \<or> i = 18 \<or> i = 23 then CHR ''-''
    else s ! (if i < 8 then i else if i < 13 then i - 1 else if i < 18 then i - 2 else if i < 23 then i - 3 else i - 4))"
proof -
  have "dashed s ! i =
      (if i < 8 then s ! i else if i = 8 then CHR ''-''
       else if i < 13 then s ! (8 + (i - 9)) else if i = 13 then CHR ''-''
       else if i < 18 then s ! (12 + (i - 14)) else if i = 18 then CHR ''-''
       else if i < 23 then s ! (16 + (i - 19)) else if i = 23 then CHR ''-'' else s ! (20 + (i - 24)))"
    using assms by (auto simp: dashed_def nth_append nth_Cons' min_def)
  then show ?thesis using assms by auto
qed

lemma nth_undashed:
  assumes "length t = 36" "j < 32"
  shows "undashed t ! j =
    t ! (if j < 8 then j else if j < 12 then j + 1 else if j < 16 then j + 2 else if j < 20 then j + 3 else j + 4)"
proof -
  have "undashed t ! j =
      (if j < 8 then t ! j else if j < 12 then t ! (9 + (j - 8)) else if j < 16 then t ! (14 + (j - 12))
       else if j < 20 then t ! (19 + (j - 16)) else t ! (24 + (j - 20)))"
    using assms by (auto simp: undashed_def nth_append min_def)
  then show ?thesis using assms by (auto simp: add.commute)
qed

lemma valid_dashed:
  assumes "length t = 36" "\<forall>i < 36. uuid_char_ok t 36 i"
  shows "length (undashed t) = 32" "list_all isxdigit (undashed t)" "dashed (undashed t) = t"
proof -
  show l: "length (undashed t) = 32"
    using assms(1) by (simp add: undashed_def)
  have "isxdigit (undashed t ! j)" if "j < 32" for j
  proof -
    define i where "i = (if j < 8 then j else if j < 12 then j + 1 else if j < 16 then j + 2
      else if j < 20 then j + 3 else j + 4)"
    have i: "i < 36" "i \<noteq> 8" "i \<noteq> 13" "i \<noteq> 18" "i \<noteq> 23" using that by (auto simp: i_def)
    then have "uuid_char_ok t 36 i" using assms(2) by blast
    with i have "isxdigit (t ! i)" by (simp add: uuid_char_ok_def)
    then show ?thesis by (simp only: nth_undashed [OF assms(1) that] i_def)
  qed
  then show "list_all isxdigit (undashed t)"
    by (simp add: list_all_length l)
  show "dashed (undashed t) = t"
  proof (rule nth_equalityI)
    show le: "length (dashed (undashed t)) = length t"
      using l assms(1) by (simp add: dashed_def)
    fix i
    assume "i < length (dashed (undashed t))"
    then have "i < 36" using le assms(1) by simp
    have "2 \<le> i \<Longrightarrow> Suc (Suc (i - 2)) = i" by arith
    have ok: "uuid_char_ok t 36 i" using assms(2) \<open>i < 36\<close> by blast
    consider "i = 8 \<or> i = 13 \<or> i = 18 \<or> i = 23" | "i < 8" | "8 < i" "i < 13" | "13 < i" "i < 18"
      | "18 < i" "i < 23" | "23 < i"
      by linarith
    then show "dashed (undashed t) ! i = t ! i"
    proof cases
      case 1
      with ok show ?thesis by (simp add: nth_dashed [OF l \<open>i < 36\<close>] uuid_char_ok_def)
    qed (use \<open>i < 36\<close> \<open>2 \<le> i \<Longrightarrow> Suc (Suc (i - 2)) = i\<close> in
        \<open>auto simp: nth_dashed [OF l] nth_undashed [OF assms(1)]\<close>)
  qed
qed

lemma dashed_valid:
  assumes "length s = 32" "list_all isxdigit s" "i < 36"
  shows "uuid_char_ok (dashed s) 36 i"
  using assms by (auto simp: uuid_char_ok_def nth_dashed list_all_length)

lemma map_tolower_dashed: "map tolower (dashed s) = dashed (map tolower s)"
  by (simp add: dashed_def take_map drop_map tolower_def isupper_def)

lemma from_printed: "uuid_wf u \<Longrightarrow> sentry_uuid_from_string (Some (sentry_uuid_as_string u)) = u"
proof -
  assume u: "uuid_wf u"
  have d: "list_all isxdigit (sentry__internal_uuid_as_string u)" "hex_pairs (sentry__internal_uuid_as_string u) = bytes u"
    using u internal_as_string_digits hex_pairs_bytes [of "bytes u"] by (simp_all add: internal_as_string_concat)
  moreover have "length (dashed (sentry__internal_uuid_as_string u)) = 36" by (simp add: dashed_def)
  ultimately show ?thesis using from_string_digits [OF d(1)] by (simp add: sentry_uuid_from_string_def as_string_dashed)
qed

text \<open>C37. Printing an identifier and parsing the text gives the identifier back, for the dashed form
  of 36 characters and the plain form of 32; both are accepted by \<open>sentry__uuid_is_valid\<close>.\<close>

theorem uuid_string_roundtrip:
  assumes "uuid_wf u"
  shows "sentry_uuid_from_string (Some (sentry_uuid_as_string u)) = u
    \<and> sentry_uuid_from_string (Some (sentry__internal_uuid_as_string u)) = u
    \<and> sentry__uuid_is_valid (Some (sentry_uuid_as_string u)) 36
    \<and> sentry__uuid_is_valid (Some (sentry__internal_uuid_as_string u)) 32"
proof -
  let ?s = "sentry__internal_uuid_as_string u"
  have d: "list_all isxdigit ?s" "hex_pairs ?s = bytes u"
    using assms internal_as_string_digits hex_pairs_bytes [of "bytes u"]
    by (simp_all add: internal_as_string_concat)
  have "sentry_uuid_from_string (Some (sentry_uuid_as_string u)) = u" using assms by (rule from_printed)
  moreover have "sentry_uuid_from_string (Some ?s) = u"
    using from_string_digits [OF d(1)] d(2) by (simp add: sentry_uuid_from_string_def)
  moreover have "sentry__uuid_is_valid (Some (sentry_uuid_as_string u)) 36"
    using dashed_valid [OF _ d(1)] by (simp add: as_string_dashed sentry__uuid_is_valid_def for_first_None)
  moreover have "sentry__uuid_is_valid (Some ?s) 32"
    using d(1) by (simp add: sentry__uuid_is_valid_def for_first_None uuid_char_ok_def list_all_length)
  ultimately show ?thesis by blast
qed

theorem uuid_string_roundtrip_witness:
  "sentry_uuid_from_string (Some (sentry_uuid_as_string \<lparr>bytes = replicate 16 CHR ''z''\<rparr>))
     = \<lparr>bytes = replicate 16 CHR ''z''\<rparr>"
  using uuid_string_roundtrip [of "\<lparr>bytes = replicate 16 CHR ''z''\<rparr>"] by (simp add: uuid_wf_def)

text \<open>Parsing is complete on valid text: an accepted identifier of either length denotes 16
  bytes, and printing them in the same form gives the text back in lower case, so that distinct
  accepted texts denote the same identifier only when they differ in case or dashes.\<close>

theorem uuid_valid_parses:
  assumes "sentry__uuid_is_valid (Some t) (length t)"
  defines "u \<equiv> sentry_uuid_from_string_n t (length t)"
  shows "uuid_wf u \<and>
    (if length t = 36 then sentry_uuid_as_string u = map tolower t
     else length t = 32 \<and> sentry__internal_uuid_as_string u = map tolower t)"
proof (cases "length t = 36")
  case True
  with assms(1) have ok: "\<forall>i < 36. uuid_char_ok t 36 i"
    by (simp add: sentry__uuid_is_valid_def for_first_None)
  note v = valid_dashed [OF True ok]
  have "u = \<lparr>bytes = hex_pairs (undashed t)\<rparr>"
    using from_string_digits(2) [OF v(2,1)] v(3) True by (simp add: u_def)
  with hex_pairs_as_string [OF v(2,1)] v True show ?thesis
    by (metis as_string_dashed map_tolower_dashed length_hex_pairs uuid_wf_def sentry_uuid_t.select_convs(1)
        div_mult_self1_is_m numeral_Bit0 mult_2 zero_less_numeral)
next
  case False
  with assms(1) have l: "length t = 32" and d: "list_all isxdigit t"
    by (auto simp: sentry__uuid_is_valid_def for_first_None uuid_char_ok_def list_all_length split: if_splits)
  have "u = \<lparr>bytes = hex_pairs t\<rparr>"
    using from_string_digits(1) [OF d l] l by (simp add: u_def)
  with hex_pairs_as_string [OF d l] l show ?thesis
    by (simp add: uuid_wf_def length_hex_pairs)
qed

theorem uuid_valid_parses_witness:
  "sentry__internal_uuid_as_string (sentry_uuid_from_string_n ''0123456789ABCDEF0123456789abcdef'' 32)
     = ''0123456789abcdef0123456789abcdef''"
proof -
  have "sentry__uuid_is_valid (Some ''0123456789ABCDEF0123456789abcdef'') 32"
    and l: "length ''0123456789ABCDEF0123456789abcdef'' = 32" "(32 :: nat) \<noteq> 36"
    and m: "map tolower ''0123456789ABCDEF0123456789abcdef'' = ''0123456789abcdef0123456789abcdef''"
    by code_simp+
  then show ?thesis
    using uuid_valid_parses [of "''0123456789ABCDEF0123456789abcdef''", unfolded l m] l(2) by presburger
qed

text \<open>A random identifier carries version 4 in the high nibble of byte 6 and otherwise the random
  bytes unchanged, so it is never nil; when the source of randomness fails the result is nil.\<close>

theorem uuid_v4_version:
  assumes "\<forall>rnd. r = Some rnd \<longrightarrow> length rnd = 16"
  shows "(case r of
      None \<Rightarrow> sentry_uuid_is_nil (sentry_uuid_new_v4 r)
    | Some rnd \<Rightarrow>
        uuid_wf (sentry_uuid_new_v4 r)
        \<and> code (bytes (sentry_uuid_new_v4 r) ! 6) = 64 + code (rnd ! 6) mod 16
        \<and> (\<forall>i < 16. i \<noteq> 6 \<longrightarrow> bytes (sentry_uuid_new_v4 r) ! i = rnd ! i)
        \<and> \<not> sentry_uuid_is_nil (sentry_uuid_new_v4 r))"
proof (cases r)
  case None
  then show ?thesis
    by (simp add: sentry_uuid_new_v4_def sentry_uuid_is_nil_def sentry_uuid_nil_def for_first_None)
next
  case (Some rnd)
  have o: "(code (rnd ! 6) AND 0x0F) OR 0x40 = 64 + code (rnd ! 6) mod 16"
    using or_shift_add [of "code (rnd ! 6) mod 16" 6 1] by (simp add: and_mod_nat or.commute)
  have b: "code (char_of (64 + code (rnd ! 6) mod 16)) = 64 + code (rnd ! 6) mod 16"
    by simp
  have "code (char_of (64 + code (rnd ! 6) mod 16)) \<noteq> code CHR 0x00"
    unfolding b by simp
  then have "char_of (64 + code (rnd ! 6) mod 16) \<noteq> CHR 0x00"
    by metis
  with Some assms b o show ?thesis
    by (auto simp: sentry_uuid_new_v4_def sentry_uuid_from_bytes_def uuid_wf_def sentry_uuid_is_nil_def
        for_first_None intro!: exI [of _ 6])
qed

theorem uuid_v4_version_witness:
  "code (bytes (sentry_uuid_new_v4 (Some (replicate 16 CHR ''z''))) ! 6) = 74
   \<and> sentry_uuid_is_nil (sentry_uuid_new_v4 None)"
  using uuid_v4_version [of "Some (replicate 16 CHR ''z'')"] uuid_v4_version [of None] by simp

end
