(* ===== verification/Writer.thy ===== *)
theory Writer
  imports StringBuilder
begin

text \<open>
  The output abstraction of \<open>sentry_writer.c\<close>: a sink given by a table of operations, a byte count,
  and the two sticky flags \<open>failed\<close> and \<open>closed\<close>.  A sink's \<open>write\<close> returns how many bytes it could
  not take.  The theory models the generic layer over any sink state \<open>'s\<close>, the string builder sink
  of the repository, and the file sink over the operations of a file writer, which are parameters.
\<close>

record 's sentry_writer_ops_t =
  op_write :: "'s \<Rightarrow> string \<Rightarrow> 's \<times> nat"
  op_close :: "'s \<Rightarrow> 's \<times> bool"
  op_into_string :: "'s \<Rightarrow> bool \<Rightarrow> string option \<times> nat"

record 's sentry_writer_t =
  w_state :: 's
  byte_count :: nat
  w_failed :: bool
  w_closed :: bool

definition writer_new :: "'s \<Rightarrow> 's sentry_writer_t" where
  "writer_new st = \<lparr>w_state = st, byte_count = 0, w_failed = False, w_closed = False\<rparr>"

definition sentry__writer_write ::
  "'s sentry_writer_ops_t \<Rightarrow> 's sentry_writer_t \<Rightarrow> string \<Rightarrow> 's sentry_writer_t \<times> bool" where
  "sentry__writer_write ops w bs =
     (if w_failed w then (w, False)
      else if w_closed w then (w\<lparr>w_failed := True\<rparr>, False)
      else if bs = [] then (w, True)
      else
        let (st, remaining) = op_write ops (w_state w) bs;
            w = w\<lparr>w_state := st, byte_count := byte_count w + (length bs - remaining)\<rparr>
        in if remaining \<noteq> 0 then (w\<lparr>w_failed := True\<rparr>, False) else (w, True))"

definition sentry__writer_write_char ::
  "'s sentry_writer_ops_t \<Rightarrow> 's sentry_writer_t \<Rightarrow> char \<Rightarrow> 's sentry_writer_t \<times> bool" where
  "sentry__writer_write_char ops w c = sentry__writer_write ops w [c]"

definition sentry__writer_close :: "'s sentry_writer_ops_t \<Rightarrow> 's sentry_writer_t \<Rightarrow> 's sentry_writer_t \<times> bool" where
  "sentry__writer_close ops w =
     (if w_closed w then (w, \<not> w_failed w)
      else
        let (st, ok) = op_close ops (w_state w);
            w = w\<lparr>w_closed := True, w_state := st\<rparr>;
            w = (if \<not> ok then w\<lparr>w_failed := True\<rparr> else w)
        in (w, \<not> w_failed w))"

definition sentry__writer_has_failed :: "'s sentry_writer_t \<Rightarrow> bool" where
  "sentry__writer_has_failed w = w_failed w"

definition sentry__writer_byte_count :: "'s sentry_writer_t \<Rightarrow> nat" where
  "sentry__writer_byte_count w = byte_count w"

text \<open>The string, if any, and its length.\<close>

definition sentry__writer_into_string ::
  "'s sentry_writer_ops_t \<Rightarrow> 's sentry_writer_t \<Rightarrow> string option \<times> nat" where
  "sentry__writer_into_string ops w =
     (let w = fst (sentry__writer_close ops w)
      in op_into_string ops (w_state w) (sentry__writer_has_failed w))"

section \<open>Sinks\<close>

definition sb_writer_write :: "malloc \<Rightarrow> sentry_stringbuilder_t \<Rightarrow> string \<Rightarrow> sentry_stringbuilder_t \<times> nat" where
  "sb_writer_write malloc sb bs =
     (case sentry__stringbuilder_append_buf malloc sb bs of
        (sb', rc) \<Rightarrow> (sb', if rc = 0 then 0 else length bs))"

definition sb_writer_close :: "sentry_stringbuilder_t \<Rightarrow> sentry_stringbuilder_t \<times> bool" where
  "sb_writer_close sb = (sb, True)"

definition sb_writer_into_string :: "malloc \<Rightarrow> sentry_stringbuilder_t \<Rightarrow> bool \<Rightarrow> string option \<times> nat" where
  "sb_writer_into_string malloc sb failed =
     (if failed then (None, 0) else (fst (sentry_stringbuilder_take_string malloc sb), sb_len sb))"

definition sb_writer_ops :: "malloc \<Rightarrow> sentry_stringbuilder_t sentry_writer_ops_t" where
  "sb_writer_ops malloc =
     \<lparr>op_write = sb_writer_write malloc, op_close = sb_writer_close,
      op_into_string = sb_writer_into_string malloc\<rparr>"

definition sentry__writer_new_sb :: "sentry_stringbuilder_t option \<Rightarrow> sentry_stringbuilder_t sentry_writer_t" where
  "sentry__writer_new_sb sb = writer_new (case sb of None \<Rightarrow> sentry__stringbuilder_init | Some sb \<Rightarrow> sb)"

text \<open>The file sink: \<open>fw_write\<close>, \<open>fw_close\<close> and \<open>fw_failed\<close> are the operations of the file writer of
  the platform; the state carries whether the writer owns the file.\<close>

definition file_writer_ops ::
  "('f \<Rightarrow> string \<Rightarrow> 'f \<times> nat) \<Rightarrow> ('f \<Rightarrow> 'f \<times> bool) \<Rightarrow> ('f \<Rightarrow> bool) \<Rightarrow> ('f \<times> bool) sentry_writer_ops_t" where
  "file_writer_ops fw_write fw_close fw_failed =
     \<lparr>op_write = (\<lambda>(fw, own) bs. case fw_write fw bs of (fw', r) \<Rightarrow> ((fw', own), r)),
      op_close = (\<lambda>(fw, own). if \<not> own then ((fw, own), \<not> fw_failed fw)
                              else case fw_close fw of (fw', ok) \<Rightarrow> ((fw', own), ok)),
      op_into_string = (\<lambda>_ _. (None, 0))\<rparr>"

section \<open>The contract of a sink\<close>

text \<open>A write takes a prefix of the bytes and says how many it left; below the capacity \<open>limit\<close> (0 for a
  sink that promises nothing) it takes all of them.\<close>

locale sink =
  fixes wf :: "'s \<Rightarrow> bool" and view :: "'s \<Rightarrow> string" and ops :: "'s sentry_writer_ops_t" and limit :: nat
  assumes write_wf: "wf st \<Longrightarrow> wf (fst (op_write ops st bs))"
    and write_left: "wf st \<Longrightarrow> snd (op_write ops st bs) \<le> length bs"
    and write_view: "wf st \<Longrightarrow>
      view (fst (op_write ops st bs)) = view st @ take (length bs - snd (op_write ops st bs)) bs"
    and write_total: "wf st \<Longrightarrow> length (view st) + length bs < limit \<Longrightarrow> snd (op_write ops st bs) = 0"
begin

definition writer_inv :: "nat \<Rightarrow> 's sentry_writer_t \<Rightarrow> bool" where
  "writer_inv n w \<longleftrightarrow> wf (w_state w) \<and> length (view (w_state w)) = n + byte_count w"

lemma write_ok:
  assumes "wf (w_state w)" "sentry__writer_write ops w bs = (w', True)"
  shows "wf (w_state w')" "view (w_state w') = view (w_state w) @ bs" "\<not> w_failed w" "\<not> w_failed w'"
  using assms write_wf [OF assms(1), of bs] write_view [OF assms(1), of bs]
  by (auto simp: sentry__writer_write_def Let_def split: if_splits prod.splits)

lemma write_failed:
  assumes "wf (w_state w)" "sentry__writer_write ops w bs = (w', False)"
  shows "wf (w_state w')" "w_failed w'"
  using assms write_wf [OF assms(1), of bs]
  by (auto simp: sentry__writer_write_def Let_def split: if_splits prod.splits)

lemma write_succeeds:
  assumes "wf (w_state w)" "\<not> w_failed w" "\<not> w_closed w" "length (view (w_state w)) + length bs < limit"
  shows "snd (sentry__writer_write ops w bs)"
  using assms write_total [OF assms(1), of bs]
  by (auto simp: sentry__writer_write_def Let_def split: prod.splits)

lemma write_closed: "w_closed (fst (sentry__writer_write ops w bs)) = w_closed w"
  by (simp add: sentry__writer_write_def Let_def split: prod.splits)

lemma write_prefix:
  assumes "writer_inv n w" "sentry__writer_write ops w bs = (w', ok)"
  shows "writer_inv n w' \<and> (\<exists>k \<le> length bs. view (w_state w') = view (w_state w) @ take k bs)
    \<and> (ok \<longleftrightarrow> \<not> w_failed w') \<and> (w_failed w \<longrightarrow> w' = w) \<and> (ok \<longrightarrow> view (w_state w') = view (w_state w) @ bs)"
proof -
  have wf: "wf (w_state w)" using assms(1) by (simp add: writer_inv_def)
  note s = write_wf [OF wf, of bs] write_left [OF wf, of bs] write_view [OF wf, of bs]
  show ?thesis
  proof (cases "w_failed w \<or> w_closed w \<or> bs = []")
    case True
    with assms show ?thesis
      by (auto simp: sentry__writer_write_def writer_inv_def intro: exI [of _ 0] split: if_splits)
  next
    case False
    obtain st r where r: "op_write ops (w_state w) bs = (st, r)"
      by (cases "op_write ops (w_state w) bs")
    with False assms(2) have w': "w' = w\<lparr>w_state := st, byte_count := byte_count w + (length bs - r),
        w_failed := r \<noteq> 0\<rparr>" and ok: "ok \<longleftrightarrow> r = 0"
      by (auto simp: sentry__writer_write_def Let_def split: if_splits)
    from s r assms(1) have "writer_inv n w'"
      by (simp add: w' writer_inv_def)
    with s r w' ok False show ?thesis by (auto intro: exI [of _ "length bs - r"])
  qed
qed

lemma writes_spec:
  "writer_inv n w \<Longrightarrow>
   writer_inv n (foldl (\<lambda>w bs. fst (sentry__writer_write ops w bs)) w ps)
   \<and> (\<exists>k. view (w_state (foldl (\<lambda>w bs. fst (sentry__writer_write ops w bs)) w ps))
            = view (w_state w) @ take k (concat ps))
   \<and> (\<not> w_failed (foldl (\<lambda>w bs. fst (sentry__writer_write ops w bs)) w ps) \<longrightarrow>
        view (w_state (foldl (\<lambda>w bs. fst (sentry__writer_write ops w bs)) w ps)) = view (w_state w) @ concat ps)
   \<and> (w_failed w \<longrightarrow> foldl (\<lambda>w bs. fst (sentry__writer_write ops w bs)) w ps = w)"
proof (induction ps arbitrary: w)
  case Nil
  then show ?case by simp
next
  case (Cons p ps)
  obtain w1 ok where r: "sentry__writer_write ops w p = (w1, ok)"
    by (cases "sentry__writer_write ops w p")
  note s = write_prefix [OF Cons.prems r]
  let ?f = "\<lambda>w. foldl (\<lambda>w bs. fst (sentry__writer_write ops w bs)) w ps"
  have ih: "writer_inv n (?f w1)" "\<exists>k. view (w_state (?f w1)) = view (w_state w1) @ take k (concat ps)"
    "\<not> w_failed (?f w1) \<longrightarrow> view (w_state (?f w1)) = view (w_state w1) @ concat ps" "w_failed w1 \<longrightarrow> ?f w1 = w1"
    using Cons.IH [of w1] s by auto
  show ?case
  proof (cases ok)
    case True
    then have v: "view (w_state w1) = view (w_state w) @ p" "\<not> w_failed w1" "\<not> w_failed w" using s by auto
    obtain k where k: "view (w_state (?f w1)) = view (w_state w1) @ take k (concat ps)" using ih(2) by blast
    with v have "view (w_state (?f w1)) = view (w_state w) @ take (length p + k) (concat (p # ps))" by simp
    with ih v r show ?thesis by (auto intro: exI [of _ "length p + k"])
  next
    case False
    then have f: "w_failed w1" "?f w1 = w1" using s ih(4) by auto
    obtain k where "k \<le> length p" "view (w_state w1) = view (w_state w) @ take k p" using s by blast
    then have "view (w_state w1) = view (w_state w) @ take k (concat (p # ps))" by simp
    with ih f r s show ?thesis by auto
  qed
qed

end

text \<open>A string builder takes everything up to \<open>SIZE_MAX\<close> when its allocator does not fail.\<close>

definition sb_limit :: "malloc \<Rightarrow> nat" where
  "sb_limit malloc = (if \<forall>n. malloc n \<noteq> None then SIZE_MAX else 0)"

interpretation sb_sink: sink "\<lambda>sb. sb_wf sb \<and> malloc_sized malloc" sb_view "sb_writer_ops malloc"
    "sb_limit malloc" for malloc
proof
  fix st bs
  assume w: "sb_wf st \<and> malloc_sized malloc"
  have r: "op_write (sb_writer_ops malloc) st bs =
      (fst (sentry__stringbuilder_append_buf malloc st bs),
       if snd (sentry__stringbuilder_append_buf malloc st bs) = 0 then 0 else length bs)"
    by (simp add: sb_writer_ops_def sb_writer_write_def case_prod_beta)
  show "sb_wf (fst (op_write (sb_writer_ops malloc) st bs)) \<and> malloc_sized malloc"
    using builder.append_wf [OF w] by (simp add: r)
  show "snd (op_write (sb_writer_ops malloc) st bs) \<le> length bs"
    by (simp add: r)
  show "sb_view (fst (op_write (sb_writer_ops malloc) st bs)) =
      sb_view st @ take (length bs - snd (op_write (sb_writer_ops malloc) st bs)) bs"
    using builder.append_view [OF w] by (simp add: r)
  show "snd (op_write (sb_writer_ops malloc) st bs) = 0"
    if "length (sb_view st) + length bs < sb_limit malloc"
    using append_buf_succeeds [of st malloc bs] that w by (auto simp: r sb_limit_def split: if_splits)
qed

text \<open>A writer over a string builder never loses track of its output: after any sequence of
  writes the builder holds a prefix of the concatenation of what was written, the byte count is the
  length of that prefix, and unless the writer reports failure the prefix is everything.  Failure is
  sticky: once reported, further writes change nothing.\<close>

theorem sb_writer_writes:
  fixes pieces :: "string list"
  assumes "malloc_sized malloc"
  defines "w \<equiv> foldl (\<lambda>w bs. fst (sentry__writer_write (sb_writer_ops malloc) w bs)) (sentry__writer_new_sb None) pieces"
  shows "(\<exists>k. sb_view (w_state w) = take k (concat pieces))
    \<and> sentry__writer_byte_count w = length (sb_view (w_state w))
    \<and> (sentry__writer_has_failed w \<or> sb_view (w_state w) = concat pieces)
    \<and> (sentry__writer_has_failed w \<longrightarrow> sentry__writer_write (sb_writer_ops malloc) w bs = (w, False))"
proof -
  have i: "sb_sink.writer_inv malloc 0 (sentry__writer_new_sb None)"
    unfolding sb_sink.writer_inv_def using assms(1) by (simp add: sentry__writer_new_sb_def writer_new_def)
  show ?thesis
    using sb_sink.writes_spec [OF i, of pieces] unfolding w_def [symmetric] sb_sink.writer_inv_def
    by (auto simp: sentry__writer_has_failed_def sentry__writer_byte_count_def
        sentry__writer_new_sb_def writer_new_def sentry__writer_write_def)
qed

theorem sb_writer_writes_witness:
  "let w = foldl (\<lambda>w bs. fst (sentry__writer_write (sb_writer_ops (\<lambda>n. Some (replicate n CHR ''?''))) w bs))
       (sentry__writer_new_sb None) [''{'', ''}'']
   in sentry__writer_has_failed w \<or> sb_view (w_state w) = ''{}''"
  using sb_writer_writes [of "\<lambda>n. Some (replicate n CHR ''?'')" "[''{'', ''}'']"]
  by (simp add: malloc_sized_def Let_def)

end
