(* ===== verification/JsonWriter.thy ===== *)
theory JsonWriter
  imports Writer Values Uuids
begin

text \<open>
  The JSON writer of \<open>sentry_json.c\<close> and the serialisation of values on top of it.  A writer keeps
  its nesting depth, a 64-bit mask with one \<open>want_comma\<close> bit per level, whether a key was written
  last, and a sticky failure flag.  The theory models every operation over an arbitrary sink and
  shows that serialising a value writes exactly the text given by a printer that knows nothing of
  the mask, or reports failure.  The formatting of doubles (\<open>sentry__snprintf_c\<close> with \<open>%.16g\<close>) is the
  parameter \<open>fmt_double\<close>.
\<close>

definition SENTRY_JSON_MAX_DEPTH :: nat where
  "SENTRY_JSON_MAX_DEPTH = 64"

record 's sentry_jsonwriter_t =
  jw_writer :: "'s sentry_writer_t"
  want_comma :: u64
  depth :: u32
  last_was_key :: bool
  jw_failed :: bool

definition jsonwriter_new :: "'s sentry_writer_t \<Rightarrow> 's sentry_jsonwriter_t" where
  "jsonwriter_new w = \<lparr>jw_writer = w, want_comma = 0, depth = 0, last_was_key = False, jw_failed = False\<rparr>"

definition sentry__jsonwriter_reset :: "'s sentry_jsonwriter_t \<Rightarrow> 's sentry_jsonwriter_t" where
  "sentry__jsonwriter_reset jw = jw\<lparr>want_comma := 0, depth := 0, last_was_key := False\<rparr>"

definition sentry__jsonwriter_has_failed :: "'s sentry_jsonwriter_t \<Rightarrow> bool" where
  "sentry__jsonwriter_has_failed jw \<longleftrightarrow> jw_failed jw \<or> sentry__writer_has_failed (jw_writer jw)"

text \<open>The string is detached only from a writer that owns its builder and has not failed.\<close>

definition sentry__jsonwriter_into_string ::
  "'s sentry_writer_ops_t \<Rightarrow> 's sentry_jsonwriter_t \<Rightarrow> bool \<Rightarrow> string option \<times> nat" where
  "sentry__jsonwriter_into_string ops jw owns_writer =
     (if \<not> owns_writer \<or> sentry__jsonwriter_has_failed jw then (None, 0)
      else sentry__writer_into_string ops (jw_writer jw))"

definition at_max_depth :: "'s sentry_jsonwriter_t \<Rightarrow> bool" where
  "at_max_depth jw \<longleftrightarrow> unat (depth jw) \<ge> SENTRY_JSON_MAX_DEPTH"

definition set_comma :: "'s sentry_jsonwriter_t \<Rightarrow> bool \<Rightarrow> 's sentry_jsonwriter_t" where
  "set_comma jw val =
     (if at_max_depth jw then jw
      else if val then jw\<lparr>want_comma := want_comma jw OR push_bit (unat (depth jw)) 1\<rparr>
      else jw\<lparr>want_comma := want_comma jw AND NOT (push_bit (unat (depth jw)) 1)\<rparr>)"

definition write_buf :: "'s sentry_writer_ops_t \<Rightarrow> 's sentry_jsonwriter_t \<Rightarrow> string \<Rightarrow> 's sentry_jsonwriter_t" where
  "write_buf ops jw bs =
     (case sentry__writer_write ops (jw_writer jw) bs of
        (w, ok) \<Rightarrow> if ok then jw\<lparr>jw_writer := w\<rparr> else jw\<lparr>jw_writer := w, jw_failed := True\<rparr>)"

definition write_str :: "'s sentry_writer_ops_t \<Rightarrow> 's sentry_jsonwriter_t \<Rightarrow> string \<Rightarrow> 's sentry_jsonwriter_t" where
  "write_str ops jw s = write_buf ops jw (cstr s)"

definition write_char :: "'s sentry_writer_ops_t \<Rightarrow> 's sentry_jsonwriter_t \<Rightarrow> char \<Rightarrow> 's sentry_jsonwriter_t" where
  "write_char ops jw c =
     (case sentry__writer_write_char ops (jw_writer jw) c of
        (w, ok) \<Rightarrow> if ok then jw\<lparr>jw_writer := w\<rparr> else jw\<lparr>jw_writer := w, jw_failed := True\<rparr>)"

text \<open>The lookup table, indexed by byte.\<close>

definition needs_escaping :: "bool list" where
  "needs_escaping = replicate 32 True @ replicate 2 False @ [True] @ replicate 57 False @ [True]
     @ replicate 163 False"

text \<open>The \<open>switch\<close> on a byte that needs escaping.\<close>

definition escape_char :: "char \<Rightarrow> string" where
  "escape_char c =
     (if c = CHR 0x5C then [CHR 0x5C, CHR 0x5C]
      else if c = CHR 0x22 then [CHR 0x5C, CHR 0x22]
      else if c = CHR 0x08 then [CHR 0x5C, CHR ''b'']
      else if c = CHR 0x0C then [CHR 0x5C, CHR ''f'']
      else if c = CHR 0x0A then [CHR 0x5C, CHR ''n'']
      else if c = CHR 0x0D then [CHR 0x5C, CHR ''r'']
      else if c = CHR 0x09 then [CHR 0x5C, CHR ''t'']
      else if code c < 32 then [CHR 0x5C, CHR ''u'', CHR ''0'', CHR ''0''] @ hex_byte c
      else [c])"

text \<open>The loop: \<open>chunk\<close> is the text from \<open>start\<close> to \<open>ptr\<close>, not yet written.\<close>

primrec write_json_str_loop ::
  "'s sentry_writer_ops_t \<Rightarrow> 's sentry_jsonwriter_t \<Rightarrow> string \<Rightarrow> string \<Rightarrow> 's sentry_jsonwriter_t" where
  "write_json_str_loop ops jw chunk [] = (if chunk \<noteq> [] then write_buf ops jw chunk else jw)"
| "write_json_str_loop ops jw chunk (c # cs) =
     (if sentry__jsonwriter_has_failed jw then (if chunk \<noteq> [] then write_buf ops jw chunk else jw)
      else if \<not> needs_escaping ! code c then write_json_str_loop ops jw (chunk @ [c]) cs
      else
        let jw = (if chunk \<noteq> [] then write_buf ops jw chunk else jw)
        in if sentry__jsonwriter_has_failed jw then jw
           else
             let jw = write_buf ops jw (escape_char c)
             in if sentry__jsonwriter_has_failed jw then jw else write_json_str_loop ops jw [] cs)"

text \<open>\<open>str_len = None\<close> is \<open>SENTRY_JSON_STRLEN\<close>: the text ends at the first NUL.\<close>

definition write_json_str ::
  "'s sentry_writer_ops_t \<Rightarrow> 's sentry_jsonwriter_t \<Rightarrow> string \<Rightarrow> nat option \<Rightarrow> 's sentry_jsonwriter_t" where
  "write_json_str ops jw str str_len =
     write_json_str_loop ops jw [] (case str_len of None \<Rightarrow> cstr str | Some n \<Rightarrow> take n str)"

definition can_write_item ::
  "'s sentry_writer_ops_t \<Rightarrow> 's sentry_jsonwriter_t \<Rightarrow> 's sentry_jsonwriter_t \<times> bool" where
  "can_write_item ops jw =
     (if at_max_depth jw \<or> sentry__jsonwriter_has_failed jw then (jw, False)
      else if last_was_key jw then (jw\<lparr>last_was_key := False\<rparr>, True)
      else
        let jw = (if drop_bit (unat (depth jw)) (want_comma jw) AND 1 \<noteq> 0
                  then write_char ops jw CHR '','' else set_comma jw True)
        in (jw, \<not> sentry__jsonwriter_has_failed jw))"

text \<open>\<open>if (can_write_item(jw)) { write(jw) }\<close>.\<close>

definition when_item ::
  "'s sentry_writer_ops_t \<Rightarrow> 's sentry_jsonwriter_t \<Rightarrow> ('s sentry_jsonwriter_t \<Rightarrow> 's sentry_jsonwriter_t)
     \<Rightarrow> 's sentry_jsonwriter_t" where
  "when_item ops jw write = (case can_write_item ops jw of (jw, ok) \<Rightarrow> if ok then write jw else jw)"

definition sentry__jsonwriter_write_null where
  "sentry__jsonwriter_write_null ops jw = when_item ops jw (\<lambda>jw. write_str ops jw ''null'')"

definition sentry__jsonwriter_write_bool where
  "sentry__jsonwriter_write_bool ops jw val =
     when_item ops jw (\<lambda>jw. write_str ops jw (if val then ''true'' else ''false''))"

definition sentry__jsonwriter_write_int32 :: "'s sentry_writer_ops_t \<Rightarrow> 's sentry_jsonwriter_t \<Rightarrow> 32 word \<Rightarrow> _" where
  "sentry__jsonwriter_write_int32 ops jw val = when_item ops jw (\<lambda>jw. write_str ops jw (int_str (sint val)))"

definition sentry__jsonwriter_write_int64 :: "'s sentry_writer_ops_t \<Rightarrow> 's sentry_jsonwriter_t \<Rightarrow> i64 \<Rightarrow> _" where
  "sentry__jsonwriter_write_int64 ops jw val = when_item ops jw (\<lambda>jw. write_str ops jw (int_str (sint val)))"

definition sentry__jsonwriter_write_uint64 :: "'s sentry_writer_ops_t \<Rightarrow> 's sentry_jsonwriter_t \<Rightarrow> u64 \<Rightarrow> _" where
  "sentry__jsonwriter_write_uint64 ops jw val = when_item ops jw (\<lambda>jw. write_str ops jw (dec_str (unat val)))"

text \<open>\<open>fmt_double val\<close> is what \<open>%.16g\<close> would write; 24 characters and more do not fit the buffer.\<close>

definition double_text :: "(double \<Rightarrow> string) \<Rightarrow> double \<Rightarrow> string" where
  "double_text fmt_double val =
     (if length (fmt_double val) \<ge> 24 \<or> \<not> double_is_finite val then ''null'' else fmt_double val)"

definition sentry__jsonwriter_write_double ::
  "(double \<Rightarrow> string) \<Rightarrow> 's sentry_writer_ops_t \<Rightarrow> 's sentry_jsonwriter_t \<Rightarrow> double \<Rightarrow> _" where
  "sentry__jsonwriter_write_double fmt_double ops jw val =
     when_item ops jw (\<lambda>jw. write_str ops jw (double_text fmt_double val))"

definition sentry__jsonwriter_write_str_n where
  "sentry__jsonwriter_write_str_n ops jw val val_len =
     (case val of
        None \<Rightarrow> sentry__jsonwriter_write_null ops jw
      | Some s \<Rightarrow> when_item ops jw (\<lambda>jw.
          write_char ops (write_json_str ops (write_char ops jw CHR 0x22) s val_len) CHR 0x22))"

definition sentry__jsonwriter_write_str where
  "sentry__jsonwriter_write_str ops jw val = sentry__jsonwriter_write_str_n ops jw val None"

definition sentry__jsonwriter_write_uuid where
  "sentry__jsonwriter_write_uuid ops jw uuid =
     (case uuid of
        None \<Rightarrow> sentry__jsonwriter_write_null ops jw
      | Some u \<Rightarrow> sentry__jsonwriter_write_str ops jw (Some (sentry_uuid_as_string u)))"

definition sentry__jsonwriter_write_key where
  "sentry__jsonwriter_write_key ops jw val =
     when_item ops jw (\<lambda>jw.
       (write_char ops (write_char ops (write_json_str ops (write_char ops jw CHR 0x22) val None) CHR 0x22)
          CHR '':'')\<lparr>last_was_key := True\<rparr>)"

definition container_start where
  "container_start ops jw c =
     (let jw = when_item ops jw (\<lambda>jw. write_char ops jw c)
      in set_comma (jw\<lparr>depth := depth jw + 1\<rparr>) False)"

definition container_end where
  "container_end ops jw c =
     (let jw = jw\<lparr>depth := depth jw - 1\<rparr>
      in if \<not> at_max_depth jw then write_char ops jw c else jw)"

definition sentry__jsonwriter_write_list_start where
  "sentry__jsonwriter_write_list_start ops jw = container_start ops jw CHR ''[''"

definition sentry__jsonwriter_write_list_end where
  "sentry__jsonwriter_write_list_end ops jw = container_end ops jw CHR '']''"

definition sentry__jsonwriter_write_object_start where
  "sentry__jsonwriter_write_object_start ops jw = container_start ops jw CHR ''{''"

definition sentry__jsonwriter_write_object_end where
  "sentry__jsonwriter_write_object_end ops jw = container_end ops jw CHR ''}''"

fun sentry__jsonwriter_write_value ::
  "(double \<Rightarrow> string) \<Rightarrow> 's sentry_writer_ops_t \<Rightarrow> 's sentry_jsonwriter_t \<Rightarrow> sentry_value \<Rightarrow> 's sentry_jsonwriter_t" where
  "sentry__jsonwriter_write_value fd ops jw VNull = sentry__jsonwriter_write_null ops jw"
| "sentry__jsonwriter_write_value fd ops jw (VBool b) =
     sentry__jsonwriter_write_bool ops jw (sentry_value_is_true (VBool b))"
| "sentry__jsonwriter_write_value fd ops jw (VInt32 i) = sentry__jsonwriter_write_int32 ops jw i"
| "sentry__jsonwriter_write_value fd ops jw (VInt64 i) = sentry__jsonwriter_write_int64 ops jw i"
| "sentry__jsonwriter_write_value fd ops jw (VUint64 i) = sentry__jsonwriter_write_uint64 ops jw i"
| "sentry__jsonwriter_write_value fd ops jw (VDouble d) = sentry__jsonwriter_write_double fd ops jw d"
| "sentry__jsonwriter_write_value fd ops jw (VString s) =
     sentry__jsonwriter_write_str_n ops jw (Some s) (Some (length s))"
| "sentry__jsonwriter_write_value fd ops jw (VList f xs) =
     sentry__jsonwriter_write_list_end ops
       (foldl (\<lambda>jw v. sentry__jsonwriter_write_value fd ops jw v)
          (sentry__jsonwriter_write_list_start ops jw) xs)"
| "sentry__jsonwriter_write_value fd ops jw (VObject f ps) =
     sentry__jsonwriter_write_object_end ops
       (foldl (\<lambda>jw (k, v). sentry__jsonwriter_write_value fd ops (sentry__jsonwriter_write_key ops jw k) v)
          (sentry__jsonwriter_write_object_start ops jw) ps)"

definition sentry__value_to_json :: "malloc \<Rightarrow> (double \<Rightarrow> string) \<Rightarrow> sentry_value \<Rightarrow> string option \<times> nat" where
  "sentry__value_to_json malloc fd v =
     sentry__jsonwriter_into_string (sb_writer_ops malloc)
       (sentry__jsonwriter_write_value fd (sb_writer_ops malloc)
          (jsonwriter_new (sentry__writer_new_sb None)) v) True"

section \<open>The printer\<close>

definition escape :: "string \<Rightarrow> string" where
  "escape s = concat (map (\<lambda>c. if needs_escaping ! code c then escape_char c else [c]) s)"

definition quoted :: "string \<Rightarrow> string" where
  "quoted s = CHR 0x22 # escape s @ [CHR 0x22]"

fun commas :: "string list \<Rightarrow> string" where
  "commas [] = []"
| "commas [x] = x"
| "commas (x # y # xs) = x @ CHR '','' # commas (y # xs)"

text \<open>The text of a value at nesting depth \<open>d\<close>; nothing at depth 64 and below it.\<close>

fun json_print :: "(double \<Rightarrow> string) \<Rightarrow> nat \<Rightarrow> sentry_value \<Rightarrow> string" where
  "json_print fd d VNull = ''null''"
| "json_print fd d (VBool b) = (if b then ''true'' else ''false'')"
| "json_print fd d (VInt32 i) = int_str (sint i)"
| "json_print fd d (VInt64 i) = int_str (sint i)"
| "json_print fd d (VUint64 i) = dec_str (unat i)"
| "json_print fd d (VDouble x) = cstr (double_text fd x)"
| "json_print fd d (VString s) = quoted s"
| "json_print fd d (VList f xs) =
     ''['' @ (if Suc d < 64 then commas (map (json_print fd (Suc d)) xs) else []) @ '']''"
| "json_print fd d (VObject f ps) =
     ''{'' @ (if Suc d < 64
              then commas (map (\<lambda>(k, v). quoted (cstr k) @ '':'' @ json_print fd (Suc d) v) ps) else [])
     @ ''}''"

fun value_depth :: "sentry_value \<Rightarrow> nat" where
  "value_depth (VList f xs) = Suc (foldr max (map value_depth xs) 0)"
| "value_depth (VObject f ps) = Suc (foldr max (map (\<lambda>(k, v). value_depth v) ps) 0)"
| "value_depth v = 0"

lemma foldr_max_ge: "n \<in> set ns \<Longrightarrow> n \<le> foldr max ns (m :: nat)"
  by (induction ns) auto

lemma needs_escaping_iff: "needs_escaping ! code c \<longleftrightarrow> code c < 32 \<or> code c = 34 \<or> code c = 92"
proof -
  have "\<forall>n \<in> set [0..<256]. needs_escaping ! n \<longleftrightarrow> n < 32 \<or> n = 34 \<or> n = 92"
    by code_simp
  then show ?thesis by simp
qed

section \<open>What the operations write\<close>

lemma want_comma_bit: "drop_bit n (w :: u64) AND 1 \<noteq> 0 \<longleftrightarrow> bit w n"
  by (simp add: and_one_eq bit_iff_odd_drop_bit odd_iff_mod_2_eq_one)

lemma set_comma_bits:
  "n < 64 \<Longrightarrow> i < 64 \<Longrightarrow> bit (w OR 2 ^ n :: u64) i \<longleftrightarrow> bit w i \<or> i = n"
  "n < 64 \<Longrightarrow> i < 64 \<Longrightarrow> bit (w AND NOT (2 ^ n) :: u64) i \<longleftrightarrow> bit w i \<and> i \<noteq> n"
  by (auto simp: bit_or_iff bit_and_iff bit_not_iff bit_push_bit_iff bit_1_iff bit_exp_iff)

lemma set_comma_False_bit:
  "i < 64 \<Longrightarrow> bit (want_comma (set_comma jw False)) i \<longleftrightarrow> bit (want_comma jw) i \<and> i \<noteq> unat (depth jw)"
  by (auto simp: set_comma_def at_max_depth_def SENTRY_JSON_MAX_DEPTH_def set_comma_bits)

lemma set_comma_frame [simp]:
  "depth (set_comma jw b) = depth jw" "jw_writer (set_comma jw b) = jw_writer jw"
  "last_was_key (set_comma jw b) = last_was_key jw" "jw_failed (set_comma jw b) = jw_failed jw"
  "64 \<le> unat (depth jw) \<Longrightarrow> set_comma jw b = jw"
  by (simp_all add: set_comma_def at_max_depth_def SENTRY_JSON_MAX_DEPTH_def)

lemma unat_inc: "unat (w :: u32) + 1 < 2 ^ 32 \<Longrightarrow> unat (w + 1) = unat w + 1"
  by (simp add: unat_word_ariths)

lemma cstr_numbers [simp]: "cstr (dec_str n) = dec_str n" "cstr (int_str i) = int_str i"
proof -
  have "CHR 0x00 \<notin> set (dec_str n)" for n
    using dec_str_digits [of n] by (auto simp: isdigit_def)
  then show "cstr (dec_str n) = dec_str n" "cstr (int_str i) = int_str i"
    by (simp_all add: int_str_def)
qed

text \<open>The text of the items of a container of which some were already written.\<close>

definition items_text :: "bool \<Rightarrow> string list \<Rightarrow> string" where
  "items_text m ts = (if m then concat (map ((#) CHR '','') ts) else commas ts)"

lemma items_text_Cons: "items_text m (t # ts) = (if m then '','' else []) @ t @ items_text True ts"
proof -
  have "commas (t # ts) = t @ concat (map ((#) CHR '','') ts)"
    by (induction ts arbitrary: t) auto
  then show ?thesis by (simp add: items_text_def)
qed

lemma items_text_Nil [simp]: "items_text m [] = []"
  by (simp add: items_text_def)

context sink
begin

definition out :: "'s sentry_jsonwriter_t \<Rightarrow> string" where
  "out jw = view (w_state (jw_writer jw))"

text \<open>A step from \<open>jw\<close> to \<open>jw'\<close> writes \<open>s\<close>, or fails; it does not fail when \<open>s\<close> fits below the limit.\<close>

abbreviation failed :: "'s sentry_jsonwriter_t \<Rightarrow> bool" where
  "failed jw \<equiv> sentry__jsonwriter_has_failed jw"

definition fits :: "'s sentry_jsonwriter_t \<Rightarrow> nat \<Rightarrow> bool" where
  "fits jw n \<longleftrightarrow> \<not> failed jw \<and> \<not> w_closed (jw_writer jw) \<and> length (out jw) + n < limit"

definition emits :: "'s sentry_jsonwriter_t \<Rightarrow> 's sentry_jsonwriter_t \<Rightarrow> string \<Rightarrow> bool" where
  "emits jw jw' s \<longleftrightarrow>
     (wf (w_state (jw_writer jw)) \<longrightarrow> wf (w_state (jw_writer jw'))
        \<and> w_closed (jw_writer jw') = w_closed (jw_writer jw)
        \<and> (\<not> failed jw' \<longrightarrow> \<not> failed jw \<and> out jw' = out jw @ s)
        \<and> (fits jw (length s) \<longrightarrow> \<not> failed jw'))"

text \<open>The part of the state that only the item discipline changes.\<close>

definition same_level :: "'s sentry_jsonwriter_t \<Rightarrow> 's sentry_jsonwriter_t \<Rightarrow> bool" where
  "same_level jw jw' \<longleftrightarrow> want_comma jw' = want_comma jw \<and> depth jw' = depth jw \<and> last_was_key jw' = last_was_key jw"

lemma emits_refl: "emits jw jw []"
  by (simp add: emits_def fits_def)

lemma emitsD:
  assumes "emits jw jw' s" "wf (w_state (jw_writer jw))"
  shows "wf (w_state (jw_writer jw'))" "w_closed (jw_writer jw') = w_closed (jw_writer jw)"
    "\<not> failed jw' \<Longrightarrow> \<not> failed jw" "\<not> failed jw' \<Longrightarrow> out jw' = out jw @ s" "fits jw (length s) \<Longrightarrow> \<not> failed jw'"
  using assms unfolding emits_def by blast+

lemma fits_step:
  assumes "emits jw jw1 s" "wf (w_state (jw_writer jw))" "fits jw (length s + n)"
  shows "fits jw1 n"
proof -
  have "fits jw (length s)" using assms(3) by (simp add: fits_def)
  then have "\<not> failed jw1" by (rule emitsD(5) [OF assms(1,2)])
  with emitsD [OF assms(1,2)] assms(3) show ?thesis by (simp add: fits_def)
qed

lemma emits_trans:
  assumes "emits jw jw1 s" "emits jw1 jw2 t"
  shows "emits jw jw2 (s @ t)"
proof (cases "wf (w_state (jw_writer jw))")
  case True
  note a = emitsD [OF assms(1) True] note b = emitsD [OF assms(2) a(1)]
  have "\<not> failed jw2" if "fits jw (length (s @ t))"
    using b(5) fits_step [OF assms(1) True, of "length t"] that by simp
  with a b show ?thesis unfolding emits_def by simp
qed (simp add: emits_def)

lemma emits_fail_trans:
  assumes "emits jw jw1 s" "failed jw1" "emits jw1 jw2 t"
  shows "emits jw jw2 (s @ u)"
proof (cases "wf (w_state (jw_writer jw))")
  case True
  note a = emitsD [OF assms(1) True] note b = emitsD [OF assms(3) a(1)]
  have "\<not> fits jw (length (s @ u))"
    using assms(2) fits_step [OF assms(1) True, of "length u"] by (auto simp: fits_def)
  with a b assms(2) show ?thesis unfolding emits_def by blast
qed (simp add: emits_def)

lemma same_level_trans: "same_level jw jw1 \<Longrightarrow> same_level jw1 jw2 \<Longrightarrow> same_level jw jw2"
  by (simp add: same_level_def)

lemma write_buf_emits: "emits jw (write_buf ops jw bs) bs" "same_level jw (write_buf ops jw bs)"
proof -
  obtain w ok where r: "sentry__writer_write ops (jw_writer jw) bs = (w, ok)"
    by (cases "sentry__writer_write ops (jw_writer jw) bs")
  have c: "w_closed w = w_closed (jw_writer jw)"
    using write_closed [of "jw_writer jw" bs] r by simp
  note fail_defs = sentry__jsonwriter_has_failed_def sentry__writer_has_failed_def
  show "emits jw (write_buf ops jw bs) bs"
  proof (cases ok)
    case True
    with r c write_ok [of "jw_writer jw" bs w] show ?thesis
      by (auto simp: emits_def write_buf_def out_def fits_def fail_defs)
  next
    case False
    with r c write_failed [of "jw_writer jw" bs w] write_succeeds [of "jw_writer jw" bs] show ?thesis
      by (auto simp: emits_def write_buf_def out_def fits_def fail_defs)
  qed
  show "same_level jw (write_buf ops jw bs)"
    by (simp add: same_level_def write_buf_def r)
qed

lemma write_char_buf: "write_char ops jw c = write_buf ops jw [c]"
  by (simp add: write_char_def write_buf_def sentry__writer_write_char_def)

lemma failed_emits:
  "emits jw jw' s \<Longrightarrow> failed jw' \<Longrightarrow> emits jw jw' (s @ t)"
  by (auto simp: emits_def fits_def)

lemma json_str_loop_emits:
  "emits jw (write_json_str_loop ops jw chunk cs) (chunk @ escape cs)
   \<and> same_level jw (write_json_str_loop ops jw chunk cs)"
proof (induction cs arbitrary: jw chunk)
  case Nil
  then show ?case
    using write_buf_emits [of jw chunk] by (auto simp: escape_def emits_refl same_level_def)
next
  case (Cons c cs)
  define jw1 where "jw1 = (if chunk \<noteq> [] then write_buf ops jw chunk else jw)"
  have e1: "emits jw jw1 chunk" "same_level jw jw1"
    using write_buf_emits [of jw chunk] by (auto simp: jw1_def emits_refl same_level_def)
  define jw2 where "jw2 = write_buf ops jw1 (escape_char c)"
  have e2: "emits jw jw2 (chunk @ escape_char c)" "same_level jw jw2"
    using write_buf_emits [of jw1 "escape_char c"] e1 emits_trans same_level_trans unfolding jw2_def by blast+
  have loop: "write_json_str_loop ops jw chunk (c # cs) =
      (if failed jw then jw1
       else if \<not> needs_escaping ! code c then write_json_str_loop ops jw (chunk @ [c]) cs
       else if failed jw1 then jw1
       else if failed jw2 then jw2 else write_json_str_loop ops jw2 [] cs)"
    by (simp add: jw1_def jw2_def Let_def)
  have "emits jw jw1 t" if "failed jw" for t
    using that e1(1) by (auto simp: emits_def fits_def)
  moreover
  have ih: "emits jw2 (write_json_str_loop ops jw2 [] cs) (escape cs)"
      "same_level jw2 (write_json_str_loop ops jw2 [] cs)"
    using Cons.IH [of jw2 "[]"] by simp_all
  have "emits jw (write_json_str_loop ops jw2 [] cs) (chunk @ escape_char c @ escape cs)"
      "same_level jw (write_json_str_loop ops jw2 [] cs)"
    using emits_trans [OF e2(1) ih(1)] same_level_trans [OF e2(2) ih(2)] by simp_all
  moreover have "failed jw1 \<Longrightarrow> emits jw jw1 (chunk @ t)"
      "failed jw2 \<Longrightarrow> emits jw jw2 (chunk @ escape_char c @ t)" for t
    using failed_emits [OF e1(1)] failed_emits [OF e2(1), of t] by simp_all
  moreover have "escape (c # cs) = (if needs_escaping ! code c then escape_char c else [c]) @ escape cs"
    by (simp add: escape_def)
  ultimately show ?case
    using Cons.IH [of jw "chunk @ [c]"] e1(2) e2(2) unfolding loop by simp
qed

lemma json_str_emits:
  "emits jw (write_json_str ops jw s (Some (length s))) (escape s)"
  "emits jw (write_json_str ops jw s None) (escape (cstr s))"
  "same_level jw (write_json_str ops jw s n)"
  using json_str_loop_emits [of jw "[]"] by (simp_all add: write_json_str_def)

text \<open>The separator an item needs, and the state after it.\<close>

definition sep :: "'s sentry_jsonwriter_t \<Rightarrow> string" where
  "sep jw = (if \<not> last_was_key jw \<and> bit (want_comma jw) (unat (depth jw)) then '','' else [])"

definition item_done :: "'s sentry_jsonwriter_t \<Rightarrow> 's sentry_jsonwriter_t \<Rightarrow> bool" where
  "item_done jw jw' \<longleftrightarrow> depth jw' = depth jw \<and>
     (if unat (depth jw) < 64
      then \<not> last_was_key jw'
        \<and> (\<forall>i < unat (depth jw). bit (want_comma jw') i = bit (want_comma jw) i)
        \<and> bit (want_comma jw') (unat (depth jw)) = (bit (want_comma jw) (unat (depth jw)) \<or> \<not> last_was_key jw)
      else want_comma jw' = want_comma jw \<and> last_was_key jw' = last_was_key jw)"

lemma can_write_item_cases:
  assumes "can_write_item ops jw = (jw1, ok)"
  shows "if unat (depth jw) < 64
    then emits jw jw1 (sep jw) \<and> (ok \<longleftrightarrow> \<not> failed jw1)
       \<and> (\<not> failed jw1 \<longrightarrow> item_done jw jw1)
    else jw1 = jw \<and> \<not> ok"
proof (cases "at_max_depth jw \<or> failed jw")
  case True
  with assms show ?thesis
    by (auto simp: can_write_item_def at_max_depth_def SENTRY_JSON_MAX_DEPTH_def emits_def fits_def)
next
  case False
  then have d: "unat (depth jw) < 64" "\<not> at_max_depth jw"
    by (auto simp: at_max_depth_def SENTRY_JSON_MAX_DEPTH_def)
  show ?thesis
  proof (cases "last_was_key jw")
    case True
    with False d assms show ?thesis
      by (auto simp: can_write_item_def emits_def fits_def sep_def item_done_def out_def
          sentry__jsonwriter_has_failed_def)
  next
    case nokey: False
    show ?thesis
    proof (cases "bit (want_comma jw) (unat (depth jw))")
      case True
      with False nokey d assms write_buf_emits [of jw "'',''"] show ?thesis
        by (auto simp: can_write_item_def want_comma_bit Let_def sep_def item_done_def write_char_buf same_level_def)
    next
      case nobit: False
      with False nokey d assms have j: "jw1 = jw\<lparr>want_comma := want_comma jw OR push_bit (unat (depth jw)) 1\<rparr>"
          "ok \<longleftrightarrow> \<not> failed jw1"
        by (auto simp: can_write_item_def want_comma_bit Let_def set_comma_def)
      with nobit nokey d show ?thesis
        by (auto simp: emits_def fits_def sep_def item_done_def out_def sentry__jsonwriter_has_failed_def
            set_comma_bits)
    qed
  qed
qed

lemma item_done_same_level: "item_done jw jw1 \<Longrightarrow> same_level jw1 jw2 \<Longrightarrow> item_done jw jw2"
  by (auto simp: item_done_def same_level_def)

lemma when_item_emits:
  assumes "\<And>jw1. emits jw1 (f jw1) s" "\<And>jw1. same_level jw1 (f jw1)"
  shows "emits jw (when_item ops jw f) (if unat (depth jw) < 64 then sep jw @ s else [])"
    and "\<not> failed (when_item ops jw f) \<Longrightarrow> wf (w_state (jw_writer jw)) \<Longrightarrow>
      item_done jw (when_item ops jw f)"
proof -
  obtain jw1 ok where r: "can_write_item ops jw = (jw1, ok)"
    by (cases "can_write_item ops jw")
  note c = can_write_item_cases [OF r]
  show "emits jw (when_item ops jw f) (if unat (depth jw) < 64 then sep jw @ s else [])"
    using c r assms(1) [of jw1] emits_trans [of jw jw1 "sep jw" "f jw1" s]
    by (auto simp: when_item_def emits_refl intro: failed_emits split: if_splits)
  show "item_done jw (when_item ops jw f)"
    if "\<not> failed (when_item ops jw f)" "wf (w_state (jw_writer jw))"
    using that c r assms [of jw1] item_done_same_level [of jw jw1 "f jw1"]
    by (auto simp: when_item_def item_done_def emits_def split: if_splits)
qed

text \<open>What a function that writes one item at depth \<open>d\<close> does.\<close>

definition writes_item ::
  "nat \<Rightarrow> ('s sentry_jsonwriter_t \<Rightarrow> 's sentry_jsonwriter_t) \<Rightarrow> string \<Rightarrow> bool" where
  "writes_item d f s \<longleftrightarrow> (\<forall>jw. unat (depth jw) = d \<longrightarrow> wf (w_state (jw_writer jw)) \<longrightarrow>
     depth (f jw) = depth jw \<and> emits jw (f jw) (if d < 64 then sep jw @ s else [])
     \<and> (\<not> failed (f jw) \<longrightarrow> item_done jw (f jw)))"

lemma can_write_item_depth: "depth (fst (can_write_item ops jw)) = depth jw"
  using write_buf_emits(2) [of jw "'',''"]
  by (simp add: can_write_item_def Let_def set_comma_def write_char_buf same_level_def)

lemma when_item_writes:
  assumes "\<And>jw1. emits jw1 (f jw1) s" "\<And>jw1. same_level jw1 (f jw1)"
  shows "writes_item d (\<lambda>jw. when_item ops jw f) s"
proof -
  have "depth (when_item ops jw f) = depth jw" for jw
    using can_write_item_depth [of jw] assms(2) by (simp add: when_item_def case_prod_beta same_level_def)
  then show ?thesis unfolding writes_item_def
    using when_item_emits(1) [OF assms] when_item_emits(2) [OF assms] by metis
qed

lemma write_str_item: "writes_item d (\<lambda>jw. when_item ops jw (\<lambda>jw. write_str ops jw t)) (cstr t)"
  by (rule when_item_writes) (simp_all add: write_str_def write_buf_emits)

lemma write_quoted_emits:
  "emits jw (write_char ops (write_json_str ops (write_char ops jw CHR 0x22) s (Some (length s))) CHR 0x22) (quoted s)"
  "emits jw (write_char ops (write_json_str ops (write_char ops jw CHR 0x22) s None) CHR 0x22) (quoted (cstr s))"
  "same_level jw (write_char ops (write_json_str ops (write_char ops jw CHR 0x22) s n) CHR 0x22)"
  using emits_trans [OF emits_trans [OF write_buf_emits(1) json_str_emits(1)] write_buf_emits(1), of jw "[CHR 0x22]" s "[CHR 0x22]"]
    emits_trans [OF emits_trans [OF write_buf_emits(1) json_str_emits(2)] write_buf_emits(1), of jw "[CHR 0x22]" s "[CHR 0x22]"]
    same_level_trans [OF same_level_trans [OF write_buf_emits(2) json_str_emits(3)] write_buf_emits(2), of jw "[CHR 0x22]" s n "[CHR 0x22]"]
  by (simp_all add: quoted_def write_char_buf)

lemma write_string_item:
  "writes_item d (\<lambda>jw. sentry__jsonwriter_write_str_n ops jw (Some s) (Some (length s))) (quoted s)"
  unfolding sentry__jsonwriter_write_str_n_def option.case
  by (rule when_item_writes) (rule write_quoted_emits)+

lemma write_key_emits:
  "emits jw (sentry__jsonwriter_write_key ops jw k)
     (if unat (depth jw) < 64 then sep jw @ quoted (cstr k) @ '':'' else [])"
  "\<lbrakk>\<not> failed (sentry__jsonwriter_write_key ops jw k); wf (w_state (jw_writer jw))\<rbrakk> \<Longrightarrow>
     \<exists>jw1. item_done jw jw1 \<and> want_comma (sentry__jsonwriter_write_key ops jw k) = want_comma jw1
       \<and> depth (sentry__jsonwriter_write_key ops jw k) = depth jw
       \<and> last_was_key (sentry__jsonwriter_write_key ops jw k) = (unat (depth jw) < 64 \<or> last_was_key jw)"
proof -
  define f where "f jw = write_char ops (write_char ops (write_json_str ops (write_char ops jw CHR 0x22) k None) CHR 0x22) CHR '':''" for jw
  have f: "emits jw (f jw) (quoted (cstr k) @ '':'')" "same_level jw (f jw)" for jw
    using emits_trans [OF write_quoted_emits(2) write_buf_emits(1), of jw k "'':''"]
      same_level_trans [OF write_quoted_emits(3) write_buf_emits(2), of jw k None "'':''"]
    by (simp_all add: f_def write_char_buf)
  obtain jw1 ok where r: "can_write_item ops jw = (jw1, ok)"
    by (cases "can_write_item ops jw")
  note c = can_write_item_cases [OF r]
  have key: "sentry__jsonwriter_write_key ops jw k = (if ok then (f jw1)\<lparr>last_was_key := True\<rparr> else jw1)"
    by (simp add: sentry__jsonwriter_write_key_def when_item_def r f_def)
  have upd: "emits jw (jw'\<lparr>last_was_key := b\<rparr>) t = emits jw jw' t"
    "failed (jw'\<lparr>last_was_key := b\<rparr>) = failed jw'" for jw' t b
    by (simp_all add: emits_def fits_def out_def sentry__jsonwriter_has_failed_def)
  show "emits jw (sentry__jsonwriter_write_key ops jw k)
     (if unat (depth jw) < 64 then sep jw @ quoted (cstr k) @ '':'' else [])"
    using c emits_trans [of jw jw1 "sep jw", OF _ f(1)]
    by (auto simp: key upd emits_refl intro: failed_emits split: if_splits)
  show "\<exists>jw1. item_done jw jw1 \<and> want_comma (sentry__jsonwriter_write_key ops jw k) = want_comma jw1
       \<and> depth (sentry__jsonwriter_write_key ops jw k) = depth jw
       \<and> last_was_key (sentry__jsonwriter_write_key ops jw k) = (unat (depth jw) < 64 \<or> last_was_key jw)"
    if "\<not> failed (sentry__jsonwriter_write_key ops jw k)" "wf (w_state (jw_writer jw))"
    using that c f [of jw1] unfolding key
    by (auto simp: upd emits_def same_level_def item_done_def split: if_splits intro!: exI [of _ jw1])
qed

lemma write_key_depth: "depth (sentry__jsonwriter_write_key ops jw k) = depth jw"
  using can_write_item_depth [of jw] write_buf_emits(2) json_str_emits(3)
  by (simp add: sentry__jsonwriter_write_key_def when_item_def write_char_buf same_level_def case_prod_beta)

lemma write_member_item:
  assumes "writes_item d f s"
  shows "writes_item d (\<lambda>jw. f (sentry__jsonwriter_write_key ops jw k)) (quoted (cstr k) @ '':'' @ s)"
  unfolding writes_item_def
proof (intro allI impI)
  fix jw :: "'s sentry_jsonwriter_t"
  assume d: "unat (depth jw) = d" and w: "wf (w_state (jw_writer jw))"
  let ?k = "sentry__jsonwriter_write_key ops jw k"
  note k = write_key_emits [of jw k]
  have wk: "wf (w_state (jw_writer ?k))"
    using w k(1) by (simp add: emits_def)
  with assms d write_key_depth [of jw k]
  have f: "depth (f ?k) = depth ?k" "emits ?k (f ?k) (if d < 64 then sep ?k @ s else [])"
    "\<not> failed (f ?k) \<Longrightarrow> item_done ?k (f ?k)"
    unfolding writes_item_def by metis+
  have okk: "\<not> failed (f ?k) \<Longrightarrow> \<not> failed ?k"
    using f(2) wk by (simp add: emits_def)
  have sep: "\<not> failed ?k \<Longrightarrow> d < 64 \<Longrightarrow> sep ?k = []"
    using w k(2) d by (auto simp: sep_def)
  show "depth (f ?k) = depth jw \<and> emits jw (f ?k) (if d < 64 then sep jw @ quoted (cstr k) @ '':'' @ s else [])
      \<and> (\<not> failed (f ?k) \<longrightarrow> item_done jw (f ?k))"
  proof (intro conjI impI)
    show "depth (f ?k) = depth jw" using f(1) write_key_depth by simp
    show "emits jw (f ?k) (if d < 64 then sep jw @ quoted (cstr k) @ '':'' @ s else [])"
    proof (cases "failed ?k")
      case True
      with emits_fail_trans [OF k(1) True f(2), of "if d < 64 then s else []"] d show ?thesis by (cases "d < 64") auto
    next
      case False
      with emits_trans [OF k(1) f(2)] sep d show ?thesis by (cases "d < 64") auto
    qed
    assume ok: "\<not> failed (f ?k)"
    with f(3) have fi: "item_done ?k (f ?k)" by blast
    from k(2) okk ok w obtain jw1 where j: "item_done jw jw1" "want_comma ?k = want_comma jw1" "depth ?k = depth jw"
        "last_was_key ?k = (unat (depth jw) < 64 \<or> last_was_key jw)" by blast
    then show "item_done jw (f ?k)"
      using fi by (auto simp: item_done_def split: if_splits)
  qed
qed

text \<open>The items of a container, written one after the other at depth \<open>e\<close>.\<close>

lemma items_wf:
  "\<lbrakk>\<And>x. x \<in> set xs \<Longrightarrow> writes_item e (\<lambda>jw. g jw x) (t x); unat (depth jw) = e; wf (w_state (jw_writer jw))\<rbrakk> \<Longrightarrow>
     wf (w_state (jw_writer (foldl g jw xs))) \<and> depth (foldl g jw xs) = depth jw
     \<and> w_closed (jw_writer (foldl g jw xs)) = w_closed (jw_writer jw)
     \<and> (\<not> failed (foldl g jw xs) \<longrightarrow> \<not> failed jw)"
proof (induction xs arbitrary: jw)
  case (Cons x xs)
  have "writes_item e (\<lambda>jw. g jw x) (t x)" using Cons.prems(1) by simp
  then have "depth (g jw x) = depth jw" "wf (w_state (jw_writer (g jw x)))"
      "w_closed (jw_writer (g jw x)) = w_closed (jw_writer jw)"
      "\<not> failed (g jw x) \<longrightarrow> \<not> failed jw"
    using Cons.prems(2,3) unfolding writes_item_def emits_def by blast+
  with Cons.IH [of "g jw x"] Cons.prems show ?case by simp
qed simp

definition level_kept :: "nat \<Rightarrow> 's sentry_jsonwriter_t \<Rightarrow> 's sentry_jsonwriter_t \<Rightarrow> bool" where
  "level_kept e jw jw' \<longleftrightarrow> last_was_key jw' = last_was_key jw
     \<and> (if e < 64 then \<forall>i < e. bit (want_comma jw') i = bit (want_comma jw) i else want_comma jw' = want_comma jw)"

lemma items_emit:
  assumes "\<And>x. x \<in> set xs \<Longrightarrow> writes_item e (\<lambda>jw. g jw x) (t x)" "unat (depth jw) = e"
    and "e < 64 \<Longrightarrow> \<not> last_was_key jw" "wf (w_state (jw_writer jw))"
    and "\<not> failed (foldl g jw xs)"
  shows "out (foldl g jw xs) = out jw @ (if e < 64 then items_text (bit (want_comma jw) e) (map t xs) else [])
    \<and> level_kept e jw (foldl g jw xs)"
  using assms
proof (induction xs arbitrary: jw)
  case Nil
  then show ?case by (simp add: level_kept_def)
next
  case (Cons x xs)
  let ?j = "g jw x"
  have x: "depth ?j = depth jw" "emits jw ?j (if e < 64 then sep jw @ t x else [])"
    "\<not> failed ?j \<Longrightarrow> item_done jw ?j"
    using Cons.prems(1) [of x] Cons.prems(2,4) unfolding writes_item_def by auto
  have w: "wf (w_state (jw_writer ?j))"
    using x(2) Cons.prems(4) by (simp add: emits_def)
  have d: "unat (depth ?j) = e" using x(1) Cons.prems(2) by simp
  have ok: "\<not> failed ?j"
    using items_wf [of xs e g t ?j] Cons.prems(1,5) d w by simp
  with x have i: "item_done jw ?j" "out ?j = out jw @ (if e < 64 then sep jw @ t x else [])"
    using Cons.prems(4) by (auto simp: emits_def)
  have "out (foldl g ?j xs) = out ?j @ (if e < 64 then items_text (bit (want_comma ?j) e) (map t xs) else [])
      \<and> level_kept e ?j (foldl g ?j xs)"
    using Cons.IH [of ?j] Cons.prems i(1) d w by (auto simp: item_done_def)
  then show ?case
    using i Cons.prems(2,3) by (auto simp: item_done_def level_kept_def sep_def items_text_Cons)
qed

lemma items_fit:
  assumes "\<And>x. x \<in> set xs \<Longrightarrow> writes_item e (\<lambda>jw. g jw x) (t x)" "unat (depth jw) = e"
    and "e < 64 \<Longrightarrow> \<not> last_was_key jw" "wf (w_state (jw_writer jw))"
    and "fits jw (if e < 64 then length (items_text (bit (want_comma jw) e) (map t xs)) else 0)"
  shows "\<not> failed (foldl g jw xs)"
  using assms
proof (induction xs arbitrary: jw)
  case Nil
  then show ?case by (simp add: fits_def)
next
  case (Cons x xs)
  let ?j = "g jw x" and ?s = "if e < 64 then sep jw @ t x else []"
  have x: "depth ?j = depth jw" "emits jw ?j ?s" "\<not> failed ?j \<Longrightarrow> item_done jw ?j"
    using Cons.prems(1) [of x] Cons.prems(2,4) unfolding writes_item_def by auto
  let ?n = "if e < 64 then length (items_text True (map t xs)) else 0"
  have "fits jw (length ?s + ?n)"
    using Cons.prems(2,3,5) by (auto simp: items_text_Cons sep_def split: if_splits)
  then have f: "fits ?j ?n" by (rule fits_step [OF x(2) Cons.prems(4)])
  then have i: "item_done jw ?j" using x(3) by (simp add: fits_def)
  then have "e < 64 \<Longrightarrow> bit (want_comma ?j) e \<and> \<not> last_was_key ?j"
    using Cons.prems(2,3) by (auto simp: item_done_def)
  then have "\<not> failed (foldl g ?j xs)"
    using Cons.IH [of ?j] Cons.prems(1,2) x(1) f emitsD(1) [OF x(2) Cons.prems(4)] by (auto split: if_splits)
  then show ?case by simp
qed

text \<open>A container is an item.\<close>

lemma container_start_level:
  fixes jw c
  defines "j \<equiv> container_start ops jw c"
  assumes "unat (depth jw) + 1 < 2 ^ 32" "wf (w_state (jw_writer jw))"
  shows "depth j = depth jw + 1" "wf (w_state (jw_writer j))"
    "emits jw j (if unat (depth jw) < 64 then sep jw @ [c] else [])"
    "\<not> failed j \<Longrightarrow> \<not> failed jw
       \<and> out j = out jw @ (if unat (depth jw) < 64 then sep jw @ [c] else [])
       \<and> item_done jw (j\<lparr>depth := depth jw\<rparr>)
       \<and> (unat (depth jw) + 1 < 64 \<longrightarrow> \<not> bit (want_comma j) (unat (depth jw) + 1))"
proof -
  define k where "k = when_item ops jw (\<lambda>jw. write_char ops jw c)"
  have "writes_item (unat (depth jw)) (\<lambda>jw. when_item ops jw (\<lambda>jw. write_char ops jw c)) [c]"
    by (rule when_item_writes) (simp_all add: write_char_buf write_buf_emits)
  then have k: "depth k = depth jw" "emits jw k (if unat (depth jw) < 64 then sep jw @ [c] else [])"
      "\<not> failed k \<Longrightarrow> item_done jw k"
    using assms(3) by (simp_all add: writes_item_def k_def)
  have d: "unat (depth jw + 1) = unat (depth jw) + 1" using assms(2) by (rule unat_inc)
  have j: "j = set_comma (k\<lparr>depth := depth k + 1\<rparr>) False"
    by (simp add: j_def container_start_def k_def Let_def)
  show "depth j = depth jw + 1" "wf (w_state (jw_writer j))"
    using k assms(3) by (simp_all add: j emits_def)
  show "emits jw j (if unat (depth jw) < 64 then sep jw @ [c] else [])"
  proof -
    have "jw_writer j = jw_writer k" "failed j = failed k" "out j = out k"
      by (simp_all add: j out_def sentry__jsonwriter_has_failed_def)
    then have "emits jw j s = emits jw k s" for s
      unfolding emits_def by simp
    with k(2) show ?thesis by simp
  qed
  assume ok: "\<not> failed j"
  then have "\<not> failed k"
    by (simp add: j sentry__jsonwriter_has_failed_def)
  with k assms(3) have i: "item_done jw k" "\<not> failed jw"
      "out k = out jw @ (if unat (depth jw) < 64 then sep jw @ [c] else [])"
    by (auto simp: emits_def)
  moreover have "out j = out k" by (simp add: j out_def)
  moreover have "item_done jw (j\<lparr>depth := depth jw\<rparr>)"
    using i(1) k(1) d by (auto simp: item_done_def j set_comma_False_bit)
  moreover have "unat (depth jw) + 1 < 64 \<longrightarrow> \<not> bit (want_comma j) (unat (depth jw) + 1)"
    using k(1) d by (auto simp: j set_comma_False_bit)
  ultimately show "\<not> failed jw
       \<and> out j = out jw @ (if unat (depth jw) < 64 then sep jw @ [c] else [])
       \<and> item_done jw (j\<lparr>depth := depth jw\<rparr>)
       \<and> (unat (depth jw) + 1 < 64 \<longrightarrow> \<not> bit (want_comma j) (unat (depth jw) + 1))" by simp
qed

lemma container_item:
  assumes items: "\<And>x. x \<in> set xs \<Longrightarrow> writes_item (Suc d) (\<lambda>jw. g jw x) (t x)" and d: "Suc d < 2 ^ 32"
  shows "writes_item d (\<lambda>jw. container_end ops (foldl g (container_start ops jw c) xs) c')
    ([c] @ (if Suc d < 64 then commas (map t xs) else []) @ [c'])"
  unfolding writes_item_def
proof (intro allI impI)
  fix jw :: "'s sentry_jsonwriter_t"
  assume dj: "unat (depth jw) = d" and wf: "wf (w_state (jw_writer jw))"
  define j1 where "j1 = container_start ops jw c"
  define j2 where "j2 = foldl g j1 xs"
  define j3 where "j3 = container_end ops j2 c'"
  define j where "j = j2\<lparr>depth := depth j2 - 1\<rparr>"
  note st = container_start_level [of jw c, folded j1_def]
  have s: "depth j1 = depth jw + 1" "wf (w_state (jw_writer j1))" "unat (depth j1) = Suc d"
    using st(1,2) dj d wf unat_inc [of "depth jw"] by simp_all
  note iw = items_wf [of xs "Suc d" g t j1, folded j2_def, OF items s(3,2)]
  have j: "depth j = depth jw" "wf (w_state (jw_writer j))" "out j = out j2" "want_comma j = want_comma j2"
      "last_was_key j = last_was_key j2" "failed j = failed j2"
      "w_closed (jw_writer j) = w_closed (jw_writer jw)"
    using emitsD(2) [OF st(3) wf] dj d wf iw s(1) by (simp_all add: j_def out_def sentry__jsonwriter_has_failed_def)
  have j3: "j3 = (if d < 64 then write_buf ops j [c'] else j)"
    using dj j(1) by (simp add: j3_def j_def container_end_def Let_def at_max_depth_def
        SENTRY_JSON_MAX_DEPTH_def write_char_buf)
  have w: "emits j j3 (if d < 64 then [c'] else [])" "same_level j j3"
    using write_buf_emits [of j "[c']"] by (simp_all add: j3 emits_refl same_level_def)
  have fin: "\<not> failed jw \<and> item_done jw j3
      \<and> out j3 = out jw @ (if d < 64 then sep jw @ [c] @ (if Suc d < 64 then commas (map t xs) else []) @ [c'] else [])"
    if ok: "\<not> failed j3"
  proof -
    have ok2: "\<not> failed j2" "out j3 = out j2 @ (if d < 64 then [c'] else [])"
      using ok w(1) j by (auto simp: emits_def)
    with iw have ok1: "\<not> failed j1" by blast
    have s1: "\<not> failed jw" "out j1 = out jw @ (if d < 64 then sep jw @ [c] else [])"
        "item_done jw (j1\<lparr>depth := depth jw\<rparr>)" "Suc d < 64 \<longrightarrow> \<not> bit (want_comma j1) (Suc d)"
      using st(4) [OF _ wf ok1] dj d by simp_all
    have "Suc d < 64 \<Longrightarrow> \<not> last_was_key j1"
      using s1(3) dj by (auto simp: item_done_def)
    note it = items_emit [of xs "Suc d" g t j1, folded j2_def, OF items s(3) this s(2) ok2(1)]
    have "out j3 = out jw @ (if d < 64 then sep jw @ [c] @ (if Suc d < 64 then commas (map t xs) else []) @ [c'] else [])"
      using ok2(2) it s1(2,4) by (auto simp: items_text_def)
    moreover have "item_done jw j3"
      using s1(3) it w(2) j(1,4,5) dj
      by (auto simp: item_done_def level_kept_def same_level_def split: if_splits)
    ultimately show ?thesis using s1(1) by blast
  qed
  have fit: "\<not> failed j3"
    if fits: "fits jw (length (if d < 64 then sep jw @ [c] @ (if Suc d < 64 then commas (map t xs) else []) @ [c'] else []))"
  proof -
    let ?s1 = "if d < 64 then sep jw @ [c] else []" and ?s2 = "if Suc d < 64 then commas (map t xs) else []"
    let ?n3 = "if d < 64 then 1 else 0 :: nat"
    have st3: "emits jw j1 ?s1" using st(3) dj d wf by simp
    have "fits jw (length ?s1 + (length ?s2 + ?n3))"
      using fits by (auto split: if_splits)
    then have f1: "fits j1 (length ?s2 + ?n3)" by (rule fits_step [OF st3 wf])
    then have "\<not> failed j1" by (simp add: fits_def)
    from st(4) [OF _ wf this] dj d have s1: "item_done jw (j1\<lparr>depth := depth jw\<rparr>)"
        "Suc d < 64 \<longrightarrow> \<not> bit (want_comma j1) (Suc d)"
      by simp_all
    have key: "Suc d < 64 \<Longrightarrow> \<not> last_was_key j1"
      using s1(1) dj by (auto simp: item_done_def)
    have "fits j1 (if Suc d < 64 then length (items_text (bit (want_comma j1) (Suc d)) (map t xs)) else 0)"
      using f1 s1(2) by (auto simp: fits_def items_text_def)
    then have ok2: "\<not> failed j2"
      unfolding j2_def using items_fit [of xs "Suc d" g t j1] items s(2,3) key by simp
    have "out j2 = out j1 @ ?s2"
      using items_emit [of xs "Suc d" g t j1, folded j2_def, OF items s(3) key s(2) ok2] s1(2)
      by (auto simp: items_text_def)
    with f1 ok2 j emitsD(2) [OF st3 wf] have "fits j ?n3"
      by (auto simp: fits_def)
    with emitsD(5) [OF w(1) j(2)] show ?thesis by (auto split: if_splits)
  qed
  have "depth j3 = depth jw \<and> emits jw j3
         (if d < 64 then sep jw @ [c] @ (if Suc d < 64 then commas (map t xs) else []) @ [c'] else [])
     \<and> (\<not> failed j3 \<longrightarrow> item_done jw j3)"
    using fin fit emitsD(1,2) [OF w(1) j(2)] w(2) j(1,7) unfolding emits_def by (simp add: same_level_def)
  then show "depth (container_end ops (foldl g (container_start ops jw c) xs) c') = depth jw
     \<and> emits jw (container_end ops (foldl g (container_start ops jw c) xs) c')
         (if d < 64 then sep jw @ [c] @ (if Suc d < 64 then commas (map t xs) else []) @ [c'] else [])
     \<and> (\<not> failed (container_end ops (foldl g (container_start ops jw c) xs) c') \<longrightarrow>
          item_done jw (container_end ops (foldl g (container_start ops jw c) xs) c'))"
    unfolding j3_def j2_def j1_def .
qed

lemma write_value_item:
  "d + value_depth v < 2 ^ 32 \<Longrightarrow>
     writes_item d (\<lambda>jw. sentry__jsonwriter_write_value fd ops jw v) (json_print fd d v)"
proof (induction v arbitrary: d)
  case VNull
  then show ?case
    using write_str_item [of d "''null''"] by (simp add: sentry__jsonwriter_write_null_def)
next
  case (VBool b)
  then show ?case
    using write_str_item [of d "if b then ''true'' else ''false''"]
    by (cases b) (simp_all add: sentry__jsonwriter_write_bool_def sentry_value_is_true_def)
next
  case (VInt32 i)
  then show ?case using write_str_item [of d "int_str (sint i)"] by (simp add: sentry__jsonwriter_write_int32_def)
next
  case (VInt64 i)
  then show ?case using write_str_item [of d "int_str (sint i)"] by (simp add: sentry__jsonwriter_write_int64_def)
next
  case (VUint64 i)
  then show ?case using write_str_item [of d "dec_str (unat i)"] by (simp add: sentry__jsonwriter_write_uint64_def)
next
  case (VDouble x)
  then show ?case using write_str_item [of d "double_text fd x"] by (simp add: sentry__jsonwriter_write_double_def)
next
  case (VString s)
  then show ?case using write_string_item [of d s] by simp
next
  case (VList f xs)
  have "writes_item (Suc d) (\<lambda>jw. sentry__jsonwriter_write_value fd ops jw x) (json_print fd (Suc d) x)"
    if "x \<in> set xs" for x
    using VList.IH [OF that, of "Suc d"] VList.prems foldr_max_ge [of "value_depth x" "map value_depth xs" 0] that
    by simp
  from container_item [of xs d "\<lambda>jw v. sentry__jsonwriter_write_value fd ops jw v", OF this] VList.prems
  show ?case
    by (simp add: sentry__jsonwriter_write_list_start_def sentry__jsonwriter_write_list_end_def)
next
  case (VObject f ps)
  let ?g = "\<lambda>jw (k, v). sentry__jsonwriter_write_value fd ops (sentry__jsonwriter_write_key ops jw k) v"
  let ?t = "\<lambda>(k, v). quoted (cstr k) @ '':'' @ json_print fd (Suc d) v"
  have "writes_item (Suc d) (\<lambda>jw. ?g jw p) (?t p)" if "p \<in> set ps" for p
  proof (cases p)
    case (Pair k v)
    have "value_depth v \<le> foldr max (map (\<lambda>(k, v). value_depth v) ps) 0"
      using that Pair by (intro foldr_max_ge) force
    then have "writes_item (Suc d) (\<lambda>jw. sentry__jsonwriter_write_value fd ops jw v) (json_print fd (Suc d) v)"
      using VObject.IH [OF that, of v "Suc d"] VObject.prems Pair by simp
    from write_member_item [OF this, of k] Pair show ?thesis by simp
  qed
  from container_item [of ps d ?g ?t, OF this] VObject.prems show ?case
    by (simp add: sentry__jsonwriter_write_object_start_def sentry__jsonwriter_write_object_end_def)
qed

end

section \<open>Serialised values\<close>

text \<open>Writing a value into a string builder, which may already hold a text.\<close>

lemma value_into_builder:
  fixes fd
  assumes "malloc_sized malloc" "value_depth v < 2 ^ 32" "sb_wf sb"
  defines "jw \<equiv> sentry__jsonwriter_write_value fd (sb_writer_ops malloc) (jsonwriter_new (sentry__writer_new_sb (Some sb))) v"
  shows "sb_wf (w_state (jw_writer jw))" "\<not> w_closed (jw_writer jw)"
    "\<not> sentry__jsonwriter_has_failed jw \<Longrightarrow> sb_view (w_state (jw_writer jw)) = sb_view sb @ json_print fd 0 v"
    "(\<forall>n. malloc n \<noteq> None) \<Longrightarrow> length (sb_view sb) + length (json_print fd 0 v) < SIZE_MAX \<Longrightarrow> \<not> sentry__jsonwriter_has_failed jw"
proof -
  let ?j = "jsonwriter_new (sentry__writer_new_sb (Some sb))"
  have w: "sb_wf (w_state (jw_writer ?j)) \<and> malloc_sized malloc" and d: "unat (depth ?j) = 0"
    using assms(1,3) by (simp_all add: jsonwriter_new_def sentry__writer_new_sb_def writer_new_def)
  have "sb_sink.writes_item malloc 0 (\<lambda>jw. sentry__jsonwriter_write_value fd (sb_writer_ops malloc) jw v) (json_print fd 0 v)"
    by (rule sb_sink.write_value_item) (use assms(2) in simp)
  then have e: "sb_sink.emits malloc ?j jw (sb_sink.sep ?j @ json_print fd 0 v)"
    unfolding sb_sink.writes_item_def jw_def using w d by simp
  have j: "sb_sink.sep ?j = []" "sb_sink.out ?j = sb_view sb" "\<not> w_closed (jw_writer ?j)" "\<not> sentry__jsonwriter_has_failed ?j"
    unfolding sb_sink.sep_def sb_sink.out_def
    by (simp_all add: jsonwriter_new_def sentry__writer_new_sb_def writer_new_def
        sentry__jsonwriter_has_failed_def sentry__writer_has_failed_def)
  note em = sb_sink.emitsD [OF e w, unfolded j sb_sink.out_def]
  show "sb_wf (w_state (jw_writer jw))" "\<not> w_closed (jw_writer jw)" using em(1,2) j(3) by simp_all
  show "\<not> sentry__jsonwriter_has_failed jw \<Longrightarrow> sb_view (w_state (jw_writer jw)) = sb_view sb @ json_print fd 0 v"
    using em(4) by (simp add: jsonwriter_new_def sentry__writer_new_sb_def writer_new_def)
  show "\<not> sentry__jsonwriter_has_failed jw"
    if "\<forall>n. malloc n \<noteq> None" "length (sb_view sb) + length (json_print fd 0 v) < SIZE_MAX"
    using em(5) that j unfolding sb_sink.fits_def by (simp add: sb_limit_def)
qed

lemma value_to_json_text:
  fixes fd
  assumes "malloc_sized malloc" "value_depth v < 2 ^ 32"
  defines "jw \<equiv> sentry__jsonwriter_write_value fd (sb_writer_ops malloc) (jsonwriter_new (sentry__writer_new_sb None)) v"
  shows "sb_wf (w_state (jw_writer jw))" "\<not> w_closed (jw_writer jw)"
    "\<not> sentry__jsonwriter_has_failed jw \<Longrightarrow> sb_view (w_state (jw_writer jw)) = json_print fd 0 v"
    "(\<forall>n. malloc n \<noteq> None) \<Longrightarrow> length (json_print fd 0 v) < SIZE_MAX \<Longrightarrow> \<not> sentry__jsonwriter_has_failed jw"
proof -
  have n: "sentry__writer_new_sb None = sentry__writer_new_sb (Some sentry__stringbuilder_init)" by (simp add: sentry__writer_new_sb_def)
  note b = value_into_builder [OF assms(1,2) sb_init(1), of fd, folded n, folded jw_def, unfolded sb_init(2) append.left_neutral]
  show "sb_wf (w_state (jw_writer jw))" "\<not> w_closed (jw_writer jw)"
    "\<not> sentry__jsonwriter_has_failed jw \<Longrightarrow> sb_view (w_state (jw_writer jw)) = json_print fd 0 v" by (fact b)+
  show "(\<forall>n. malloc n \<noteq> None) \<Longrightarrow> length (json_print fd 0 v) < SIZE_MAX \<Longrightarrow> \<not> sentry__jsonwriter_has_failed jw"
    using b(4) by simp
qed

lemma value_to_json_exact:
  assumes "malloc_sized malloc" "value_depth v < 2 ^ 32"
  shows "(case sentry__value_to_json malloc fd v of
        (None, n) \<Rightarrow> n = 0
      | (Some b, n) \<Rightarrow> n < length b \<and> take n b = json_print fd 0 v \<and> b ! n = CHR 0x00)
    \<and> ((\<forall>n. malloc n \<noteq> None) \<and> length (json_print fd 0 v) < SIZE_MAX \<longrightarrow>
        fst (sentry__value_to_json malloc fd v) \<noteq> None)"
proof -
  define jw where "jw = sentry__jsonwriter_write_value fd (sb_writer_ops malloc) (jsonwriter_new (sentry__writer_new_sb None)) v"
  note t = value_to_json_text [OF assms, of fd, folded jw_def]
  let ?sb = "w_state (jw_writer jw)"
  have i: "sentry__value_to_json malloc fd v = sentry__jsonwriter_into_string (sb_writer_ops malloc) jw True"
    by (simp add: sentry__value_to_json_def jw_def)
  show ?thesis
  proof (cases "sentry__jsonwriter_has_failed jw")
    case True
    then have "sentry__value_to_json malloc fd v = (None, 0)"
      by (simp add: i sentry__jsonwriter_into_string_def)
    then show ?thesis using t(4) True by auto
  next
    case False
    then have r: "sentry__value_to_json malloc fd v = (fst (sentry_stringbuilder_take_string malloc ?sb), sb_len ?sb)"
      using t(2)
      by (simp add: i sentry__jsonwriter_into_string_def sentry__writer_into_string_def
          sentry__writer_close_def sb_writer_ops_def sb_writer_close_def sb_writer_into_string_def Let_def
          sentry__jsonwriter_has_failed_def sentry__writer_has_failed_def)
    have v: "sb_view ?sb = json_print fd 0 v" using t(3) False by simp
    show ?thesis
    proof (cases "sb_buf ?sb")
      case None
      then have p: "sb_len ?sb = 0" "json_print fd 0 v = []" using t(1) v by (simp_all add: sb_wf_def sb_view_def)
      show ?thesis
      proof (cases "malloc 1")
        case (Some b)
        then have "length b = 1" using assms(1) by (simp add: malloc_sized_def)
        with Some None p show ?thesis by (cases b) (simp_all add: r sentry_stringbuilder_take_string_def)
      qed (use None p in \<open>auto simp: r sentry_stringbuilder_take_string_def\<close>)
    next
      case (Some b)
      with t(1) v show ?thesis
        by (simp add: r sentry_stringbuilder_take_string_def sb_wf_def sb_view_def)
    qed
  qed
qed

text \<open>C28. Serialisation of values is exact: \<open>sentry__value_to_json\<close> returns either \<open>NULL\<close>, or a
  NUL-terminated block whose first \<open>len\<close> bytes are precisely the JSON text of the value (commas and
  brackets balanced at every level, every string escaped, containers below depth 64 left out); and
  it does return that text whenever the allocator does not fail and the text is shorter than
  \<open>SIZE_MAX\<close>.\<close>

theorem value_to_json_prints:
  assumes "malloc_sized malloc" "value_depth v < 2 ^ 32"
  shows "(case sentry__value_to_json malloc fd v of
        (None, n) \<Rightarrow> n = 0
      | (Some b, n) \<Rightarrow> n < length b \<and> take n b = json_print fd 0 v \<and> b ! n = CHR 0x00)
    \<and> ((\<forall>n. malloc n \<noteq> None) \<and> length (json_print fd 0 v) < SIZE_MAX \<longrightarrow>
        fst (sentry__value_to_json malloc fd v) \<noteq> None)"
  using assms by (rule value_to_json_exact)

theorem value_to_json_prints_witness:
  "\<exists>b n. sentry__value_to_json (\<lambda>n. Some (replicate n CHR ''?'')) (\<lambda>_. ''0'')
      (VObject False [(''a'', VList False [VNull, VBool True])]) = (Some b, n) \<and> take n b = ''{'' @ quoted ''a'' @ '':[null,true]}''"
  using value_to_json_prints [of "\<lambda>n. Some (replicate n CHR ''?'')" "VObject False [(''a'', VList False [VNull, VBool True])]" "\<lambda>_. ''0''"]
  by (auto simp: malloc_sized_def SIZE_MAX_def quoted_def escape_def needs_escaping_iff split: prod.splits option.splits)

end
