(* ===== verification/Jsmn.thy ===== *)
theory Jsmn
  imports JsonWriter
begin

text \<open>
  The tokenizer \<open>vendor/jsmn.h\<close> as the repository builds it (non-strict, without parent links), and
  what it makes of the text the JSON writer produces.  The unread input is a suffix of the text and
  \<open>pos\<close> its offset; the token array is the list of the tokens allocated so far, so \<open>toknext\<close> is its
  length; \<open>toksuper = -1\<close> is \<open>None\<close>.  The positions are unbounded here and \<open>unsigned int\<close> and \<open>int\<close> in the source, so
  the results about the tokenizer are for texts below 2 GiB, where every position fits.
\<close>

datatype jsmntype_t = JSMN_UNDEFINED | JSMN_OBJECT | JSMN_ARRAY | JSMN_STRING | JSMN_PRIMITIVE

datatype jsmnerr = JSMN_ERROR_NOMEM | JSMN_ERROR_INVAL | JSMN_ERROR_PART

record jsmntok_t =
  tok_type :: jsmntype_t
  tok_start :: int
  tok_end :: int
  tok_size :: nat

record jsmn_parser =
  pos :: nat
  toksuper :: "nat option"
  tokens :: "jsmntok_t list"
  count :: nat

definition jsmn_init :: jsmn_parser where
  "jsmn_init = \<lparr>pos = 0, toksuper = None, tokens = [], count = 0\<rparr>"

text \<open>The characters that end a primitive, and the scan for its end: the number of characters.\<close>

definition prim_end :: "char \<Rightarrow> bool" where
  "prim_end c \<longleftrightarrow> c = CHR '':'' \<or> c = CHR 0x09 \<or> c = CHR 0x0D \<or> c = CHR 0x0A \<or> c = CHR '' '' \<or> c = CHR '',''
     \<or> c = CHR '']'' \<or> c = CHR ''}''"

primrec prim_scan :: "string \<Rightarrow> nat option" where
  "prim_scan [] = Some 0"
| "prim_scan (c # s) =
     (if c = CHR 0x00 then Some 0
      else if prim_end c then Some 0
      else if code c < 32 \<or> code c \<ge> 127 then None
      else map_option Suc (prim_scan s))"

text \<open>The inner loop over the four digits of an escape: the number of characters, or \<open>None\<close> for a
  character that is no digit.\<close>

fun hex_scan :: "nat \<Rightarrow> string \<Rightarrow> nat option" where
  "hex_scan 0 s = Some 0"
| "hex_scan (Suc i) [] = Some 0"
| "hex_scan (Suc i) (c # s) =
     (if c = CHR 0x00 then Some 0 else if \<not> isxdigit c then None else map_option Suc (hex_scan i s))"

definition escape_symbol :: "char \<Rightarrow> bool" where
  "escape_symbol c \<longleftrightarrow> c = CHR 0x22 \<or> c = CHR ''/'' \<or> c = CHR 0x5C \<or> c = CHR ''b'' \<or> c = CHR ''f'' \<or> c = CHR ''r''
     \<or> c = CHR ''n'' \<or> c = CHR ''t''"

text \<open>The scan behind an opening quote: the number of characters before the closing one.\<close>

function str_scan :: "string \<Rightarrow> jsmnerr + nat" where
  "str_scan s =
     (case s of
        [] \<Rightarrow> Inl JSMN_ERROR_PART
      | c # s' \<Rightarrow>
          if c = CHR 0x00 then Inl JSMN_ERROR_PART
          else if c = CHR 0x22 then Inr 0
          else if c = CHR 0x5C \<and> s' \<noteq> []
          then if escape_symbol (hd s') then map_sum id ((+) 2) (str_scan (tl s'))
               else if hd s' = CHR ''u''
               then (case hex_scan 4 (tl s') of
                       None \<Rightarrow> Inl JSMN_ERROR_INVAL
                     | Some k \<Rightarrow> map_sum id ((+) (2 + k)) (str_scan (drop k (tl s'))))
               else Inl JSMN_ERROR_INVAL
          else map_sum id Suc (str_scan s'))"
  by pat_completeness auto
termination
  by (relation "measure length") auto

declare str_scan.simps [simp del]

text \<open>\<open>t->size++\<close> for the superior token.\<close>

definition inc_super :: "nat option \<Rightarrow> jsmntok_t list \<Rightarrow> jsmntok_t list" where
  "inc_super sp ts = (case sp of None \<Rightarrow> ts | Some i \<Rightarrow> ts[i := (ts ! i)\<lparr>tok_size := tok_size (ts ! i) + 1\<rparr>])"

definition tok_open :: "jsmntok_t \<Rightarrow> bool" where
  "tok_open t \<longleftrightarrow> tok_start t \<noteq> -1 \<and> tok_end t = -1"

text \<open>\<open>for (i = n - 1; i >= 0; i--) if (p(tokens[i])) \<dots>\<close>: the last index below \<open>n\<close> with \<open>p\<close>.\<close>

primrec scan_back :: "(jsmntok_t \<Rightarrow> bool) \<Rightarrow> jsmntok_t list \<Rightarrow> nat \<Rightarrow> nat option" where
  "scan_back p ts 0 = None"
| "scan_back p ts (Suc i) = (if p (ts ! i) then Some i else scan_back p ts i)"

definition is_container :: "jsmntok_t \<Rightarrow> bool" where
  "is_container t \<longleftrightarrow> tok_type t = JSMN_ARRAY \<or> tok_type t = JSMN_OBJECT"

text \<open>The cases of the \<open>switch\<close>.  \<open>cap = None\<close> is the run without a token array, which only counts;
  \<open>cap = Some n\<close> is the run with an array of \<open>n\<close> tokens.\<close>

definition jsmn_alloc_token :: "nat option \<Rightarrow> jsmn_parser \<Rightarrow> jsmntok_t \<Rightarrow> jsmnerr + jsmn_parser" where
  "jsmn_alloc_token cap st t =
     (case cap of
        None \<Rightarrow> Inr st
      | Some n \<Rightarrow> if length (tokens st) \<ge> n then Inl JSMN_ERROR_NOMEM
                  else Inr (st\<lparr>tokens := inc_super (toksuper st) (tokens st) @ [t]\<rparr>))"

definition jsmn_open :: "nat option \<Rightarrow> char \<Rightarrow> jsmn_parser \<Rightarrow> jsmnerr + jsmn_parser" where
  "jsmn_open cap c st =
     (case jsmn_alloc_token cap st
             \<lparr>tok_type = (if c = CHR ''{'' then JSMN_OBJECT else JSMN_ARRAY), tok_start = int (pos st),
              tok_end = -1, tok_size = 0\<rparr> of
        Inl e \<Rightarrow> Inl e
      | Inr st' \<Rightarrow>
          Inr (st'\<lparr>pos := pos st + 1, count := count st + 1,
                   toksuper := (if cap = None then toksuper st else Some (length (tokens st') - 1))\<rparr>))"

definition jsmn_close :: "nat option \<Rightarrow> char \<Rightarrow> jsmn_parser \<Rightarrow> jsmnerr + jsmn_parser" where
  "jsmn_close cap c st =
     (if cap = None then Inr (st\<lparr>pos := pos st + 1\<rparr>)
      else let type = (if c = CHR ''}'' then JSMN_OBJECT else JSMN_ARRAY); ts = tokens st in
        case scan_back tok_open ts (length ts) of
          None \<Rightarrow> Inl JSMN_ERROR_INVAL
        | Some i \<Rightarrow>
            if tok_type (ts ! i) \<noteq> type then Inl JSMN_ERROR_INVAL
            else
              let ts' = ts[i := (ts ! i)\<lparr>tok_end := int (pos st) + 1\<rparr>]
              in Inr (st\<lparr>pos := pos st + 1, tokens := ts', toksuper := scan_back tok_open ts' (i + 1)\<rparr>))"

text \<open>A string or primitive of \<open>n\<close> characters of input, \<open>a\<close> of them in front of the token's text.\<close>

definition jsmn_leaf :: "nat option \<Rightarrow> jsmntype_t \<Rightarrow> nat \<Rightarrow> nat \<Rightarrow> nat \<Rightarrow> jsmn_parser \<Rightarrow> jsmnerr + jsmn_parser" where
  "jsmn_leaf cap type a l n st =
     (case jsmn_alloc_token cap st
             \<lparr>tok_type = type, tok_start = int (pos st + a), tok_end = int (pos st + a + l), tok_size = 0\<rparr> of
        Inl e \<Rightarrow> Inl e
      | Inr st' \<Rightarrow> Inr (st'\<lparr>pos := pos st + n, count := count st + 1\<rparr>))"

definition jsmn_comma :: "nat option \<Rightarrow> jsmn_parser \<Rightarrow> jsmn_parser" where
  "jsmn_comma cap st =
     (let ts = tokens st; st = st\<lparr>pos := pos st + 1\<rparr> in
      case (cap, toksuper st) of
        (Some _, Some i) \<Rightarrow>
          if \<not> is_container (ts ! i)
          then (case scan_back (\<lambda>t. is_container t \<and> tok_open t) ts (length ts) of
                  None \<Rightarrow> st | Some j \<Rightarrow> st\<lparr>toksuper := Some j\<rparr>)
          else st
      | _ \<Rightarrow> st)"

definition jsmn_colon :: "jsmn_parser \<Rightarrow> jsmn_parser" where
  "jsmn_colon st =
     st\<lparr>pos := pos st + 1, toksuper := (case tokens st of [] \<Rightarrow> None | ts \<Rightarrow> Some (length ts - 1))\<rparr>"

definition blank :: "char \<Rightarrow> bool" where
  "blank c \<longleftrightarrow> c = CHR 0x09 \<or> c = CHR 0x0D \<or> c = CHR 0x0A \<or> c = CHR '' ''"

function jsmn_loop :: "nat option \<Rightarrow> string \<Rightarrow> jsmn_parser \<Rightarrow> jsmnerr + jsmn_parser" where
  "jsmn_loop cap s st =
     (case s of
        [] \<Rightarrow> Inr st
      | c # s' \<Rightarrow>
          if c = CHR 0x00 then Inr st
          else if c = CHR ''{'' \<or> c = CHR ''[''
          then (case jsmn_open cap c st of Inl e \<Rightarrow> Inl e | Inr st' \<Rightarrow> jsmn_loop cap s' st')
          else if c = CHR ''}'' \<or> c = CHR '']''
          then (case jsmn_close cap c st of Inl e \<Rightarrow> Inl e | Inr st' \<Rightarrow> jsmn_loop cap s' st')
          else if c = CHR 0x22
          then (case str_scan s' of Inl e \<Rightarrow> Inl e | Inr k \<Rightarrow>
                 case jsmn_leaf cap JSMN_STRING 1 k (k + 2) st of
                   Inl e \<Rightarrow> Inl e | Inr st' \<Rightarrow> jsmn_loop cap (drop (k + 1) s') st')
          else if blank c then jsmn_loop cap s' (st\<lparr>pos := pos st + 1\<rparr>)
          else if c = CHR '':'' then jsmn_loop cap s' (jsmn_colon st)
          else if c = CHR '','' then jsmn_loop cap s' (jsmn_comma cap st)
          else
            (case prim_scan s of None \<Rightarrow> Inl JSMN_ERROR_INVAL | Some k \<Rightarrow>
               case jsmn_leaf cap JSMN_PRIMITIVE 0 k k st of
                 Inl e \<Rightarrow> Inl e | Inr st' \<Rightarrow> jsmn_loop cap (drop k s) st'))"
  by pat_completeness auto
termination
proof (relation "measure (\<lambda>(cap, s, st). length s)", goal_cases)
  case (8 cap s st c s' k st')
  then show ?case
    by (auto simp: prim_end_def blank_def split: if_splits)
qed auto

declare jsmn_loop.simps [simp del]

text \<open>The number of tokens and the tokens.\<close>

definition jsmn_parse :: "nat option \<Rightarrow> string \<Rightarrow> jsmnerr + nat \<times> jsmntok_t list" where
  "jsmn_parse cap js =
     (case jsmn_loop cap js jsmn_init of
        Inl e \<Rightarrow> Inl e
      | Inr st \<Rightarrow>
          if cap \<noteq> None \<and> scan_back tok_open (tokens st) (length (tokens st)) \<noteq> None then Inl JSMN_ERROR_PART
          else Inr (count st, tokens st))"

section \<open>The tokens of a printed value\<close>

text \<open>The text of a number: what \<open>%.16g\<close> writes for a finite double in the C locale.\<close>

definition number_text :: "string \<Rightarrow> bool" where
  "number_text t \<longleftrightarrow> t \<noteq> [] \<and> (isdigit (hd t) \<or> hd t = CHR ''-'')
     \<and> list_all (\<lambda>c. isdigit c \<or> c \<in> {CHR ''-'', CHR ''+'', CHR ''.'', CHR ''e''}) t"

text \<open>The text without the cut at depth 64; \<open>fd\<close> formats doubles.\<close>

fun json_text :: "(double \<Rightarrow> string) \<Rightarrow> sentry_value \<Rightarrow> string" where
  "json_text fd VNull = ''null''"
| "json_text fd (VBool b) = (if b then ''true'' else ''false'')"
| "json_text fd (VInt32 i) = int_str (sint i)"
| "json_text fd (VInt64 i) = int_str (sint i)"
| "json_text fd (VUint64 i) = dec_str (unat i)"
| "json_text fd (VDouble x) = (if number_text (double_text fd x) then double_text fd x else ''null'')"
| "json_text fd (VString s) = quoted s"
| "json_text fd (VList f xs) = ''['' @ commas (map (json_text fd) xs) @ '']''"
| "json_text fd (VObject f ps) = ''{'' @ commas (map (\<lambda>(k, v). quoted k @ '':'' @ json_text fd v) ps) @ ''}''"

text \<open>The values that JSON carries: distinct keys without NUL, and doubles that are formatted as numbers or not at all.\<close>

fun json_safe :: "(double \<Rightarrow> string) \<Rightarrow> sentry_value \<Rightarrow> bool" where
  "json_safe fd (VDouble d) = (number_text (double_text fd d) \<or> double_text fd d = ''null'')"
| "json_safe fd (VList f xs) = list_all (json_safe fd) xs"
| "json_safe fd (VObject f ps) = (keys_ok ps \<and> list_all (\<lambda>(k, v). json_safe fd v) ps)"
| "json_safe fd v = True"

lemma json_safe_double: "(\<And>d. double_is_finite d \<Longrightarrow> number_text (fd d)) \<Longrightarrow> json_safe fd (VDouble d)"
  by (simp add: double_text_def)

lemma number_text_no_nul: "number_text t \<Longrightarrow> CHR 0x00 \<notin> set t"
  by (auto simp: number_text_def list_all_iff isdigit_def)

lemma json_print_text:
  "\<lbrakk>json_safe fd v; d + value_depth v < 64\<rbrakk> \<Longrightarrow> json_print fd d v = json_text fd v"
proof (induction v arbitrary: d)
  case (VList f xs)
  have "json_print fd (Suc d) x = json_text fd x" if "x \<in> set xs" for x
    using VList.IH [OF that, of "Suc d"] VList.prems foldr_max_ge [of "value_depth x" "map value_depth xs" 0] that
    by (auto simp: list_all_iff)
  then have "map (json_print fd (Suc d)) xs = map (json_text fd) xs" by simp
  with VList.prems show ?case by (simp del: map_eq_conv)
next
  case (VObject f ps)
  have "quoted (cstr k) @ '':'' @ json_print fd (Suc d) v = quoted k @ '':'' @ json_text fd v"
    if "(k, v) \<in> set ps" for k v
  proof -
    have "value_depth v \<le> foldr max (map (\<lambda>(k, v). value_depth v) ps) 0"
      using that by (intro foldr_max_ge) force
    moreover have "CHR 0x00 \<notin> set k"
      using VObject.prems(1) that by (force simp: keys_ok_def)
    moreover have "json_safe fd v" using VObject.prems(1) that by (auto simp: list_all_iff)
    ultimately show ?thesis
      using VObject.IH [OF that, of v "Suc d"] VObject.prems(2) by simp
  qed
  then have "map (\<lambda>(k, v). quoted (cstr k) @ '':'' @ json_print fd (Suc d) v) ps
      = map (\<lambda>(k, v). quoted k @ '':'' @ json_text fd v) ps" by auto
  with VObject.prems show ?case by (simp del: map_eq_conv)
qed (auto simp: number_text_no_nul)

text \<open>The tokens of the text of a value that starts at offset \<open>p\<close>.\<close>

primrec seq_toks :: "('a \<Rightarrow> nat) \<Rightarrow> (nat \<Rightarrow> 'a \<Rightarrow> 't list) \<Rightarrow> nat \<Rightarrow> 'a list \<Rightarrow> 't list" where
  "seq_toks w f p [] = []"
| "seq_toks w f p (x # xs) = f p x @ seq_toks w f (p + w x + 1) xs"

lemma seq_toks_cong [fundef_cong]:
  "\<lbrakk>p = p'; xs = ys; \<And>x. x \<in> set ys \<Longrightarrow> w x = w' x; \<And>q x. x \<in> set ys \<Longrightarrow> f q x = f' q x\<rbrakk> \<Longrightarrow>
     seq_toks w f p xs = seq_toks w' f' p' ys"
  by (induction xs arbitrary: p p' ys) auto

definition leaf_tok :: "jsmntype_t \<Rightarrow> nat \<Rightarrow> nat \<Rightarrow> nat \<Rightarrow> jsmntok_t" where
  "leaf_tok type p n k = \<lparr>tok_type = type, tok_start = int p, tok_end = int (p + n), tok_size = k\<rparr>"

fun toks :: "(double \<Rightarrow> string) \<Rightarrow> nat \<Rightarrow> sentry_value \<Rightarrow> jsmntok_t list" where
  "toks fd p (VString s) = [leaf_tok JSMN_STRING (p + 1) (length (escape s)) 0]"
| "toks fd p (VList f xs) =
     leaf_tok JSMN_ARRAY p (length (json_text fd (VList f xs))) (length xs)
     # seq_toks (\<lambda>x. length (json_text fd x)) (\<lambda>q x. toks fd q x) (p + 1) xs"
| "toks fd p (VObject f ps) =
     leaf_tok JSMN_OBJECT p (length (json_text fd (VObject f ps))) (length ps)
     # seq_toks (\<lambda>(k, v). length (quoted k @ '':'' @ json_text fd v))
         (\<lambda>q (k, v). leaf_tok JSMN_STRING (q + 1) (length (escape k)) 1 # toks fd (q + length (quoted k) + 1) v) (p + 1) ps"
| "toks fd p v = [leaf_tok JSMN_PRIMITIVE p (length (json_text fd v)) 0]"

section \<open>Tokenizing printed text\<close>

lemma scan_back_last:
  assumes "p t" "\<forall>x \<in> set B. \<not> p x"
  shows "scan_back p (A @ t # B) (length (A @ t # B)) = Some (length A)"
proof -
  have "n \<le> length B \<Longrightarrow> scan_back p (A @ t # B) (length A + 1 + n) = Some (length A)" for n
    using assms by (induction n) (auto simp: nth_append)
  from this [of "length B"] show ?thesis by simp
qed

lemma scan_back_none: "\<forall>x \<in> set B. \<not> p x \<Longrightarrow> n \<le> length B \<Longrightarrow> scan_back p (A @ B) (length A + n) = scan_back p (A @ B) (length A)"
  by (induction n) (auto simp: nth_append)

lemma scan_back_append: "n \<le> length A \<Longrightarrow> scan_back p (A @ B) n = scan_back p A n"
  by (induction n) (auto simp: nth_append)

definition last_open :: "jsmntok_t list \<Rightarrow> nat option" where
  "last_open ts = scan_back tok_open ts (length ts)"

lemma last_open_closed: "\<forall>x \<in> set B. \<not> tok_open x \<Longrightarrow> last_open (A @ B) = last_open A"
  using scan_back_none [of B tok_open "length B" A] scan_back_append [of "length A" A tok_open B]
  by (simp add: last_open_def)

lemma last_open_open: "tok_open t \<Longrightarrow> \<forall>x \<in> set B. \<not> tok_open x \<Longrightarrow> last_open (A @ t # B) = Some (length A)"
  using scan_back_last [of tok_open t B A] by (simp add: last_open_def)

lemma leaf_tok_closed [simp]: "\<not> tok_open (leaf_tok type p n k)"
  by (simp add: leaf_tok_def tok_open_def)

lemma seq_toks_all: "(\<And>q x y. x \<in> set xs \<Longrightarrow> y \<in> set (f q x) \<Longrightarrow> P y) \<Longrightarrow> y \<in> set (seq_toks w f p xs) \<Longrightarrow> P y"
  by (induction xs arbitrary: p) auto

lemma toks_closed: "t \<in> set (toks fd p v) \<Longrightarrow> \<not> tok_open t"
proof (induction v arbitrary: p t)
  case (VList f xs)
  then have "\<not> tok_open y" if "x \<in> set xs" "y \<in> set (toks fd q x)" for q x y
    using that by blast
  with VList.prems show ?case
    using seq_toks_all [of xs "\<lambda>q x. toks fd q x" "\<lambda>t. \<not> tok_open t"] by auto
next
  case (VObject f ps)
  let ?f = "\<lambda>q (k, v). leaf_tok JSMN_STRING (q + 1) (length (escape k)) 1 # toks fd (q + length (quoted k) + 1) v"
  have "\<not> tok_open y" if "x \<in> set ps" "y \<in> set (?f q x)" for q x y
  proof (cases x)
    case (Pair k v)
    then have "y = leaf_tok JSMN_STRING (q + 1) (length (escape k)) 1 \<or> y \<in> set (toks fd (q + length (quoted k) + 1) v)"
      using that(2) by simp
    with VObject.IH [OF that(1), of v] Pair show ?thesis by auto
  qed
  then have "\<not> tok_open y" if "y \<in> set (seq_toks w ?f (p + 1) ps)" for w y
    using that seq_toks_all [of ps ?f "\<lambda>t. \<not> tok_open t" y w "p + 1"] by blast
  with VObject.prems show ?case by (auto simp del: One_nat_def)
qed auto

lemma escape_char_cases:
  assumes "needs_escaping ! code c"
  obtains (symbol) e where "escape_symbol e" "escape_char c = [CHR 0x5C, e]"
    | (control) "code c < 32" "escape_char c = [CHR 0x5C, CHR ''u'', CHR ''0'', CHR ''0''] @ hex_byte c"
proof -
  have "code c = 34 \<longleftrightarrow> c = CHR 0x22" "code c = 92 \<longleftrightarrow> c = CHR 0x5C"
    using of_char_eq_iff [of c "CHR 0x22", where 'a = nat] of_char_eq_iff [of c "CHR 0x5C", where 'a = nat] by simp_all
  with assms have "(\<exists>e. escape_symbol e \<and> escape_char c = [CHR 0x5C, e])
      \<or> (code c < 32 \<and> escape_char c = [CHR 0x5C, CHR ''u'', CHR ''0'', CHR ''0''] @ hex_byte c)"
    unfolding needs_escaping_iff by (auto simp: escape_char_def escape_symbol_def)
  then show ?thesis using symbol control by blast
qed

lemma not_escaped:
  assumes "\<not> needs_escaping ! code c"
  shows "c \<noteq> CHR 0x00" "c \<noteq> CHR 0x22" "c \<noteq> CHR 0x5C"
  using assms by (auto simp: needs_escaping_iff)

lemma hex_scan_byte: "hex_scan 4 ([CHR ''0'', CHR ''0''] @ hex_byte c @ r) = Some 4"
proof -
  have "isxdigit (hex_char (code c div 16))" "isxdigit (hex_char (code c mod 16))"
    using hex_byte_isxdigit [of c] by (simp_all add: hex_byte_def)
  moreover have "x \<noteq> CHR 0x00" if "isxdigit x" for x
    using that isxdigit_not_skipped by blast
  moreover have "isxdigit CHR ''0''" by (simp add: isxdigit_def isdigit_def)
  moreover have "hex_scan 4 = hex_scan (Suc (Suc (Suc (Suc 0))))" by (simp add: numeral_eq_Suc)
  ultimately show ?thesis by (simp add: hex_byte_def)
qed

lemma str_scan_escape: "str_scan (escape s @ CHR 0x22 # r) = Inr (length (escape s))"
proof (induction s)
  case Nil
  then show ?case by (simp add: escape_def str_scan.simps)
next
  case (Cons c s)
  let ?r = "escape s @ CHR 0x22 # r"
  show ?case
  proof (cases "needs_escaping ! code c")
    case False
    then have "escape (c # s) = c # escape s" by (simp add: escape_def)
    with Cons not_escaped [OF False] show ?thesis by (subst str_scan.simps) simp
  next
    case True
    then have e: "escape (c # s) = escape_char c @ escape s" by (simp add: escape_def)
    from True show ?thesis
    proof (cases rule: escape_char_cases)
      case (symbol x)
      with Cons e show ?thesis by (subst str_scan.simps) simp
    next
      case control
      have "str_scan (CHR 0x5C # CHR ''u'' # [CHR ''0'', CHR ''0''] @ hex_byte c @ ?r) = Inr (6 + length (escape s))"
        using Cons hex_scan_byte [of c ?r] by (subst str_scan.simps) (simp add: escape_symbol_def hex_byte_def)
      with control e show ?thesis by (simp add: hex_byte_def)
    qed
  qed
qed

text \<open>The texts of the other scalars.\<close>

definition prim_text :: "string \<Rightarrow> bool" where
  "prim_text t \<longleftrightarrow> t \<noteq> [] \<and> list_all (\<lambda>c. isdigit c \<or> islower c \<or> c \<in> {CHR ''-'', CHR ''+'', CHR ''.''}) t"

definition value_end :: "string \<Rightarrow> bool" where
  "value_end r \<longleftrightarrow> r = [] \<or> hd r = CHR '','' \<or> hd r = CHR '']'' \<or> hd r = CHR ''}''"

lemma prim_char:
  assumes "isdigit c \<or> islower c \<or> c \<in> {CHR ''-'', CHR ''+'', CHR ''.''}"
  shows "c \<noteq> CHR 0x00" "\<not> prim_end c" "32 \<le> code c" "code c < 127" "c \<noteq> CHR ''{''" "c \<noteq> CHR ''[''" "c \<noteq> CHR ''}''"
    "c \<noteq> CHR '']''" "c \<noteq> CHR 0x22" "\<not> blank c" "c \<noteq> CHR '':''" "c \<noteq> CHR '',''"
  using assms by (auto simp: ctype_defs prim_end_def blank_def)

lemma prim_scan_text: "prim_text t \<Longrightarrow> value_end r \<Longrightarrow> prim_scan (t @ r) = Some (length t)"
proof -
  have "list_all (\<lambda>c. isdigit c \<or> islower c \<or> c \<in> {CHR ''-'', CHR ''+'', CHR ''.''}) t \<Longrightarrow> value_end r \<Longrightarrow> prim_scan (t @ r) = Some (length t)"
  proof (induction t)
    case Nil
    then show ?case by (cases r) (auto simp: value_end_def prim_end_def)
  next
    case (Cons c t)
    with prim_char [of c] show ?case by simp
  qed
  then show "prim_text t \<Longrightarrow> value_end r \<Longrightarrow> prim_scan (t @ r) = Some (length t)"
    by (simp add: prim_text_def)
qed

lemma prim_text_numbers: "prim_text (dec_str n)" "prim_text (int_str i)"
  using dec_str_digits by (auto simp: prim_text_def int_str_def list_all_iff)

lemma prim_text_double: "number_text t \<Longrightarrow> prim_text t"
proof -
  have "islower CHR ''e''" by (simp add: islower_def)
  then show "number_text t \<Longrightarrow> prim_text t" by (auto simp: number_text_def prim_text_def elim!: list.pred_mono_strong)
qed

definition add_tok :: "jsmn_parser \<Rightarrow> nat \<Rightarrow> nat option \<Rightarrow> jsmntok_t list \<Rightarrow> jsmn_parser" where
  "add_tok st n sp ts =
     st\<lparr>pos := pos st + n, toksuper := sp, tokens := inc_super (toksuper st) (tokens st) @ ts,
        count := count st + length ts\<rparr>"

lemma jsmn_leaf_some:
  "length (tokens st) < n \<Longrightarrow> jsmn_leaf (Some n) type a l k st =
     Inr (add_tok st k (toksuper st) [leaf_tok type (pos st + a) l 0])"
  by (simp add: jsmn_leaf_def jsmn_alloc_token_def add_tok_def leaf_tok_def)

lemma loop_prim:
  assumes "prim_text t" "value_end r" "length (tokens st) < n"
  shows "jsmn_loop (Some n) (t @ r) st =
    jsmn_loop (Some n) r (add_tok st (length t) (toksuper st) [leaf_tok JSMN_PRIMITIVE (pos st) (length t) 0])"
proof -
  obtain c t' where t: "t = c # t'" using assms(1) by (cases t) (auto simp: prim_text_def)
  then have c: "isdigit c \<or> islower c \<or> c \<in> {CHR ''-'', CHR ''+'', CHR ''.''}" using assms(1) by (simp add: prim_text_def)
  have "prim_scan (c # t' @ r) = Some (length t)" using prim_scan_text [OF assms(1,2)] t by simp
  then show ?thesis
    using prim_char [OF c] t jsmn_leaf_some [OF assms(3)]
    by (subst jsmn_loop.simps) (simp add: t)
qed

lemma loop_string:
  assumes "length (tokens st) < n"
  shows "jsmn_loop (Some n) (quoted s @ r) st =
    jsmn_loop (Some n) r (add_tok st (length (quoted s)) (toksuper st) [leaf_tok JSMN_STRING (pos st + 1) (length (escape s)) 0])"
proof -
  have "str_scan (escape s @ CHR 0x22 # r) = Inr (length (escape s))" by (rule str_scan_escape)
  then show ?thesis
    using jsmn_leaf_some [OF assms]
    by (subst jsmn_loop.simps) (simp add: quoted_def)
qed


subsection \<open>Containers\<close>

text \<open>While the items of the container token \<open>t\<close> are read, the tokens are \<open>A @ t # B\<close> with \<open>t\<close> the last
  open one.  Behind an item the superior token is \<open>t\<close> or, behind a member of an object, possibly
  its key; a comma puts it back to \<open>t\<close>.\<close>

definition behind_item :: "jsmn_parser \<Rightarrow> jsmntok_t list \<Rightarrow> bool" where
  "behind_item st A \<longleftrightarrow>
     toksuper st = Some (length A) \<or> (\<exists>j < length (tokens st). toksuper st = Some j \<and> \<not> is_container (tokens st ! j))"

definition reads :: "nat \<Rightarrow> jsmn_parser \<Rightarrow> jsmn_parser \<Rightarrow> string \<Rightarrow> bool" where
  "reads n st st' w \<longleftrightarrow> (\<forall>r. value_end r \<longrightarrow> jsmn_loop (Some n) (w @ r) st = jsmn_loop (Some n) r st')"

definition grown :: "jsmn_parser \<Rightarrow> jsmn_parser \<Rightarrow> nat \<Rightarrow> jsmntok_t list \<Rightarrow> jsmntok_t \<Rightarrow> jsmntok_t list \<Rightarrow> nat \<Rightarrow> jsmntok_t list \<Rightarrow> bool" where
  "grown st st' k A t B m ts \<longleftrightarrow>
     pos st' = pos st + k \<and> count st' = count st + length ts
     \<and> tokens st' = A @ t\<lparr>tok_size := tok_size t + m\<rparr> # B @ ts"

definition item_ok :: "nat \<Rightarrow> jsmntok_t list \<Rightarrow> ('a \<Rightarrow> string) \<Rightarrow> (nat \<Rightarrow> 'a \<Rightarrow> jsmntok_t list) \<Rightarrow> 'a \<Rightarrow> bool" where
  "item_ok n A w f x \<longleftrightarrow>
     (\<forall>t B st. tok_open t \<longrightarrow> is_container t \<longrightarrow> (\<forall>b \<in> set B. \<not> tok_open b) \<longrightarrow> tokens st = A @ t # B \<longrightarrow>
        toksuper st = Some (length A) \<longrightarrow> length (tokens st) + length (f (pos st) x) \<le> n \<longrightarrow>
        (\<exists>st'. reads n st st' (w x) \<and> grown st st' (length (w x)) A t B 1 (f (pos st) x) \<and> behind_item st' A))"

lemma tok_size_upd [simp]:
  "tok_open (t\<lparr>tok_size := m\<rparr>) = tok_open t" "is_container (t\<lparr>tok_size := m\<rparr>) = is_container t"
  by (simp_all add: tok_open_def is_container_def)

lemma value_end_simps [simp]:
  "value_end []" "value_end (CHR '','' # r)" "value_end (CHR '']'' # r)" "value_end (CHR ''}'' # r)"
  by (simp_all add: value_end_def)

lemma comma_back:
  assumes "tokens st = A @ t # B" "tok_open t" "is_container t" "\<forall>b \<in> set B. \<not> tok_open b" "behind_item st A"
  shows "jsmn_comma (Some n) st = st\<lparr>pos := pos st + 1, toksuper := Some (length A)\<rparr>"
proof -
  have "scan_back (\<lambda>t. is_container t \<and> tok_open t) (A @ t # B) (length (A @ t # B)) = Some (length A)"
    using assms by (intro scan_back_last) auto
  then show ?thesis
    using assms by (auto simp: jsmn_comma_def behind_item_def Let_def nth_append)
qed

lemma loop_comma:
  "jsmn_loop (Some n) (CHR '','' # r) st = jsmn_loop (Some n) r (jsmn_comma (Some n) st)"
  by (subst jsmn_loop.simps) (simp add: blank_def)

lemma reads_comma:
  "\<lbrakk>reads n st st1 w; reads n (jsmn_comma (Some n) st1) st2 w'\<rbrakk> \<Longrightarrow> reads n st st2 (w @ CHR '','' # w')"
  by (simp add: reads_def loop_comma)

lemma reads_items:
  assumes "\<forall>x \<in> set xs. item_ok n A w f x" "tok_open t" "is_container t" "\<forall>b \<in> set B. \<not> tok_open b"
    "\<And>q x y. x \<in> set xs \<Longrightarrow> y \<in> set (f q x) \<Longrightarrow> \<not> tok_open y"
    "tokens st = A @ t # B" "toksuper st = Some (length A)"
    "length (tokens st) + length (seq_toks (\<lambda>x. length (w x)) f (pos st) xs) \<le> n"
  shows "\<exists>st'. reads n st st' (commas (map w xs))
    \<and> grown st st' (length (commas (map w xs))) A t B (length xs) (seq_toks (\<lambda>x. length (w x)) f (pos st) xs)"
  using assms
proof (induction xs arbitrary: st t B)
  case Nil
  then show ?case by (intro exI [of _ st]) (simp add: reads_def grown_def)
next
  case (Cons x xs)
  let ?T = "\<lambda>p xs. seq_toks (\<lambda>x. length (w x)) f p xs"
  have "length (tokens st) + length (f (pos st) x) \<le> n" using Cons.prems(8) by simp
  then obtain st1 where st1: "reads n st st1 (w x)" "grown st st1 (length (w x)) A t B 1 (f (pos st) x)" "behind_item st1 A"
    using Cons.prems(1) Cons.prems(2-4,6,7) unfolding item_ok_def by (meson list.set_intros(1))
  show ?case
  proof (cases xs)
    case Nil
    with st1 show ?thesis by (intro exI [of _ st1]) simp
  next
    case (Cons y ys)
    let ?t = "t\<lparr>tok_size := tok_size t + 1\<rparr>" and ?B = "B @ f (pos st) x" and ?st2 = "jsmn_comma (Some n) st1"
    have cl: "\<forall>b \<in> set ?B. \<not> tok_open b" using Cons.prems(4,5) by auto
    have tk: "tokens st1 = A @ ?t # ?B" using st1(2) by (simp add: grown_def)
    have c: "?st2 = st1\<lparr>pos := pos st1 + 1, toksuper := Some (length A)\<rparr>"
      using comma_back [OF tk _ _ cl st1(3)] Cons.prems(2,3) by simp
    have p: "pos ?st2 = pos st + length (w x) + 1" using st1(2) c by (simp add: grown_def)
    have "length (tokens ?st2) + length (?T (pos ?st2) xs) \<le> n"
      using Cons.prems(6,8) c tk unfolding p by simp
    with Cons.IH [of ?t ?B ?st2] Cons.prems(1-3,5) cl c tk obtain st' where
      st': "reads n ?st2 st' (commas (map w xs))"
      "grown ?st2 st' (length (commas (map w xs))) A ?t ?B (length xs) (?T (pos ?st2) xs)"
      by auto
    have "reads n st st' (commas (map w (x # xs)))"
      using reads_comma [OF st1(1) st'(1)] Cons by simp
    moreover have "grown st st' (length (commas (map w (x # xs)))) A t B (length (x # xs)) (?T (pos st) (x # xs))"
      using st1(2) st'(2) c p by (simp add: grown_def Cons)
    ultimately show ?thesis by blast
  qed
qed


lemma inc_super_length [simp]: "length (inc_super sp ts) = length ts"
  by (simp add: inc_super_def split: option.splits)

lemma scan_back_cong:
  "n \<le> length ts \<Longrightarrow> (\<And>i. i < n \<Longrightarrow> p (ts ! i) = p (us ! i)) \<Longrightarrow> scan_back p ts n = scan_back p us n"
  by (induction n) auto

lemma last_open_inc_super [simp]: "last_open (inc_super sp ts) = last_open ts"
proof -
  have "tok_open (inc_super sp ts ! i) = tok_open (ts ! i)" if "i < length ts" for i
    using that by (cases "sp = Some i") (auto simp: inc_super_def tok_open_def split: option.splits)
  then show ?thesis unfolding last_open_def by (auto intro: scan_back_cong)
qed

definition bracket :: "jsmntype_t \<Rightarrow> char \<Rightarrow> char \<Rightarrow> bool" where
  "bracket type b e \<longleftrightarrow>
     (type = JSMN_OBJECT \<and> b = CHR ''{'' \<and> e = CHR ''}'') \<or> (type = JSMN_ARRAY \<and> b = CHR ''['' \<and> e = CHR '']'')"

lemma loop_open:
  assumes "bracket type b e" "length (tokens st) < n"
  shows "jsmn_loop (Some n) (b # r) st = jsmn_loop (Some n) r
    (st\<lparr>pos := pos st + 1, count := count st + 1, toksuper := Some (length (tokens st)),
        tokens := inc_super (toksuper st) (tokens st) @
          [\<lparr>tok_type = type, tok_start = int (pos st), tok_end = -1, tok_size = 0\<rparr>]\<rparr>)"
proof -
  have "jsmn_open (Some n) b st = Inr
    (st\<lparr>pos := pos st + 1, count := count st + 1, toksuper := Some (length (tokens st)),
        tokens := inc_super (toksuper st) (tokens st) @
          [\<lparr>tok_type = type, tok_start = int (pos st), tok_end = -1, tok_size = 0\<rparr>]\<rparr>)"
    using assms by (auto simp: bracket_def jsmn_open_def jsmn_alloc_token_def)
  then show ?thesis using assms(1) by (subst jsmn_loop.simps) (auto simp: bracket_def)
qed

lemma loop_close:
  assumes "bracket type b e" "tokens st = A @ t # B" "tok_open t" "tok_type t = type" "\<forall>b \<in> set B. \<not> tok_open b"
  shows "jsmn_loop (Some n) (e # r) st = jsmn_loop (Some n) r
    (st\<lparr>pos := pos st + 1, tokens := A @ t\<lparr>tok_end := int (pos st) + 1\<rparr> # B, toksuper := last_open A\<rparr>)"
proof -
  let ?t = "t\<lparr>tok_end := int (pos st) + 1\<rparr>"
  have "scan_back tok_open (A @ t # B) (length (A @ t # B)) = Some (length A)"
    by (rule scan_back_last) (use assms in auto)
  moreover have "\<not> tok_open ?t" by (simp add: tok_open_def)
  then have "scan_back tok_open (A @ ?t # B) (Suc (length A)) = last_open A"
    using scan_back_append [of "length A" A tok_open "?t # B"] by (simp add: last_open_def)
  ultimately have "jsmn_close (Some n) e st =
      Inr (st\<lparr>pos := pos st + 1, tokens := A @ ?t # B, toksuper := last_open A\<rparr>)"
    using assms(1,2,4) by (auto simp: jsmn_close_def bracket_def Let_def)
  then show ?thesis using assms(1) by (subst jsmn_loop.simps) (auto simp: bracket_def)
qed

lemma reads_container:
  assumes "bracket type b e" "\<forall>x \<in> set xs. item_ok n (inc_super (toksuper st) (tokens st)) w f x"
    "\<And>q x y. x \<in> set xs \<Longrightarrow> y \<in> set (f q x) \<Longrightarrow> \<not> tok_open y"
    "length (tokens st) + 1 + length (seq_toks (\<lambda>x. length (w x)) f (pos st + 1) xs) \<le> n"
  shows "reads n st
    (add_tok st (length (b # commas (map w xs) @ [e])) (last_open (tokens st))
      (leaf_tok type (pos st) (length (b # commas (map w xs) @ [e])) (length xs)
        # seq_toks (\<lambda>x. length (w x)) f (pos st + 1) xs))
    (b # commas (map w xs) @ [e])"
proof -
  let ?A = "inc_super (toksuper st) (tokens st)" and ?T = "seq_toks (\<lambda>x. length (w x)) f (pos st + 1) xs"
  let ?t = "\<lparr>tok_type = type, tok_start = int (pos st), tok_end = -1, tok_size = 0\<rparr>"
  let ?st1 = "st\<lparr>pos := pos st + 1, count := count st + 1, toksuper := Some (length (tokens st)), tokens := ?A @ [?t]\<rparr>"
  have t: "tok_open ?t" "is_container ?t" using assms(1) by (auto simp: tok_open_def is_container_def bracket_def)
  have "\<exists>st'. reads n ?st1 st' (commas (map w xs)) \<and> grown ?st1 st' (length (commas (map w xs))) ?A ?t [] (length xs)
      (seq_toks (\<lambda>x. length (w x)) f (pos ?st1) xs)"
    by (rule reads_items [OF assms(2) t _ assms(3)]) (use assms(4) in simp_all)
  then obtain st2 where st2: "reads n ?st1 st2 (commas (map w xs))"
      "grown ?st1 st2 (length (commas (map w xs))) ?A ?t [] (length xs) ?T"
    by auto
  have cl: "\<forall>y \<in> set ?T. \<not> tok_open y" using seq_toks_all [of xs f "\<lambda>t. \<not> tok_open t"] assms(3) by blast
  have tk: "tokens st2 = ?A @ ?t\<lparr>tok_size := length xs\<rparr> # ?T" using st2(2) by (simp add: grown_def)
  have "jsmn_loop (Some n) (b # commas (map w xs) @ e # r) st = jsmn_loop (Some n) (e # r) st2" for r
  proof -
    have "value_end (e # r)" using assms(1) by (auto simp: bracket_def)
    with st2(1) show ?thesis
      using loop_open [OF assms(1), of st n] assms(4) unfolding reads_def by simp
  qed
  moreover have "jsmn_loop (Some n) (e # r) st2 = jsmn_loop (Some n) r
      (st2\<lparr>pos := pos st2 + 1, tokens := ?A @ (?t\<lparr>tok_size := length xs, tok_end := int (pos st2) + 1\<rparr>) # ?T,
        toksuper := last_open ?A\<rparr>)" for r
    using loop_close [OF assms(1) tk _ _ cl] by (simp add: tok_open_def)
  moreover have "st2\<lparr>pos := pos st2 + 1, tokens := ?A @ (?t\<lparr>tok_size := length xs, tok_end := int (pos st2) + 1\<rparr>) # ?T,
        toksuper := last_open ?A\<rparr> = add_tok st (length (b # commas (map w xs) @ [e])) (last_open (tokens st))
      (leaf_tok type (pos st) (length (b # commas (map w xs) @ [e])) (length xs) # ?T)"
    using st2(2) by (simp add: grown_def add_tok_def leaf_tok_def)
  ultimately show ?thesis by (simp add: reads_def)
qed

definition container_value :: "sentry_value \<Rightarrow> bool" where
  "container_value v \<longleftrightarrow> (case v of VList _ _ \<Rightarrow> True | VObject _ _ \<Rightarrow> True | _ \<Rightarrow> False)"

definition value_ok :: "(double \<Rightarrow> string) \<Rightarrow> nat \<Rightarrow> sentry_value \<Rightarrow> bool" where
  "value_ok fd n v \<longleftrightarrow> (\<forall>st. length (tokens st) + length (toks fd (pos st) v) \<le> n \<longrightarrow>
     reads n st (add_tok st (length (json_text fd v))
       (if container_value v then last_open (tokens st) else toksuper st) (toks fd (pos st) v)) (json_text fd v))"

lemma item_ok_value:
  assumes "value_ok fd n v"
  shows "item_ok n A (json_text fd) (toks fd) v"
  unfolding item_ok_def
proof (intro allI impI)
  fix t B and st :: jsmn_parser
  assume a: "tok_open t" "is_container t" "\<forall>b \<in> set B. \<not> tok_open b" "tokens st = A @ t # B"
    "toksuper st = Some (length A)" "length (tokens st) + length (toks fd (pos st) v) \<le> n"
  let ?st = "add_tok st (length (json_text fd v))
       (if container_value v then last_open (tokens st) else toksuper st) (toks fd (pos st) v)"
  have "reads n st ?st (json_text fd v)" using assms a(6) by (simp add: value_ok_def)
  moreover have "grown st ?st (length (json_text fd v)) A t B 1 (toks fd (pos st) v)"
    using a(4,5) by (simp add: grown_def add_tok_def inc_super_def)
  moreover have "behind_item ?st A"
    using a last_open_open [of t B A] by (simp add: behind_item_def add_tok_def)
  ultimately show "\<exists>st'. reads n st st' (json_text fd v) \<and>
      grown st st' (length (json_text fd v)) A t B 1 (toks fd (pos st) v) \<and> behind_item st' A"
    by blast
qed


abbreviation member_text :: "(double \<Rightarrow> string) \<Rightarrow> string \<times> sentry_value \<Rightarrow> string" where
  "member_text fd \<equiv> \<lambda>(k, v). quoted k @ '':'' @ json_text fd v"

abbreviation member_toks :: "(double \<Rightarrow> string) \<Rightarrow> nat \<Rightarrow> string \<times> sentry_value \<Rightarrow> jsmntok_t list" where
  "member_toks fd \<equiv> \<lambda>q (k, v). leaf_tok JSMN_STRING (q + 1) (length (escape k)) 1 # toks fd (q + length (quoted k) + 1) v"

lemma loop_colon: "jsmn_loop cap (CHR '':'' # r) st = jsmn_loop cap r (jsmn_colon st)"
  by (subst jsmn_loop.simps) (simp add: blank_def)

lemma colon_super:
  "tokens st \<noteq> [] \<Longrightarrow> jsmn_colon st = st\<lparr>pos := pos st + 1, toksuper := Some (length (tokens st) - 1)\<rparr>"
  by (cases "tokens st") (simp_all add: jsmn_colon_def)

lemma item_ok_member:
  assumes "value_ok fd n v"
  shows "item_ok n A (member_text fd) (member_toks fd) (k, v)"
  unfolding item_ok_def
proof (intro allI impI)
  fix t B and st :: jsmn_parser
  assume a: "tok_open t" "is_container t" "\<forall>b \<in> set B. \<not> tok_open b" "tokens st = A @ t # B"
    "toksuper st = Some (length A)" "length (tokens st) + length (member_toks fd (pos st) (k, v)) \<le> n"
  let ?key = "leaf_tok JSMN_STRING (pos st + 1) (length (escape k))"
  let ?st1 = "add_tok st (length (quoted k)) (toksuper st) [?key 0]"
  let ?st2 = "jsmn_colon ?st1"
  let ?st3 = "add_tok ?st2 (length (json_text fd v))
       (if container_value v then last_open (tokens ?st2) else toksuper ?st2) (toks fd (pos ?st2) v)"
  have t1: "tokens ?st1 = (A @ t\<lparr>tok_size := tok_size t + 1\<rparr> # B) @ [?key 0]"
    using a(4,5) by (simp add: add_tok_def inc_super_def)
  have t2: "tokens ?st2 = (A @ t\<lparr>tok_size := tok_size t + 1\<rparr> # B) @ [?key 0]"
    using t1 by (simp add: jsmn_colon_def)
  have s2: "toksuper ?st2 = Some (length (A @ t # B))" "pos ?st2 = pos st + length (quoted k) + 1"
    using colon_super [of ?st1] unfolding t1 by (simp_all add: add_tok_def)
  have t3: "tokens ?st3 = A @ t\<lparr>tok_size := tok_size t + 1\<rparr> # B @ member_toks fd (pos st) (k, v)"
    using t2 s2 by (simp add: add_tok_def inc_super_def leaf_tok_def nth_append list_update_append)
  have "length (tokens ?st2) + length (toks fd (pos ?st2) v) \<le> n"
    using a(4,6) t2 s2(2) by simp
  then have "reads n ?st2 ?st3 (json_text fd v)" using assms unfolding value_ok_def by blast
  then have "jsmn_loop (Some n) ((quoted k @ '':'' @ json_text fd v) @ r) st = jsmn_loop (Some n) r ?st3" if "value_end r" for r
    using that a(4,6) loop_string [of st n k] by (simp add: reads_def loop_colon)
  then have "reads n st ?st3 (member_text fd (k, v))" unfolding reads_def by simp
  moreover have "pos ?st3 = pos st + length (member_text fd (k, v))" using s2(2) by (simp add: add_tok_def)
  then have "grown st ?st3 (length (member_text fd (k, v))) A t B 1 (member_toks fd (pos st) (k, v))"
    using t3 s2(2) by (simp add: grown_def add_tok_def jsmn_colon_def)
  moreover have "behind_item ?st3 A"
  proof (cases "container_value v")
    case True
    have "last_open (tokens ?st2) = Some (length A)"
      using a(1,3) unfolding t2 append_assoc append_Cons by (intro last_open_open) auto
    with True show ?thesis by (simp add: behind_item_def add_tok_def)
  next
    case False
    have "tokens ?st3 ! length (A @ t # B) = ?key 1" unfolding t3 by (simp add: nth_append)
    moreover have "length (A @ t # B) < length (tokens ?st3)" unfolding t3 by simp
    moreover have "\<not> is_container (?key 1)" by (simp add: is_container_def leaf_tok_def)
    moreover have "toksuper ?st3 = Some (length (A @ t # B))" using False s2(1) by (simp add: add_tok_def)
    ultimately show ?thesis unfolding behind_item_def by metis
  qed
  ultimately show "\<exists>st'. reads n st st' (member_text fd (k, v)) \<and>
      grown st st' (length (member_text fd (k, v))) A t B 1 (member_toks fd (pos st) (k, v)) \<and> behind_item st' A"
    by blast
qed

lemma value_ok_prim:
  assumes "prim_text (json_text fd v)" "\<And>p. toks fd p v = [leaf_tok JSMN_PRIMITIVE p (length (json_text fd v)) 0]"
    "\<not> container_value v"
  shows "value_ok fd n v"
  using assms loop_prim [OF assms(1)] by (simp add: value_ok_def reads_def)

lemma prim_text_words: "prim_text ''null''" "prim_text ''true''" "prim_text ''false''"
  by (simp_all add: prim_text_def ctype_defs)

lemma value_ok_all: "value_ok fd n v"
proof (induction v)
  case (VString s)
  show ?case using loop_string by (simp add: value_ok_def reads_def container_value_def)
next
  case (VList f xs)
  show ?case unfolding value_ok_def
  proof (intro allI impI)
    fix st :: jsmn_parser
    assume l: "length (tokens st) + length (toks fd (pos st) (VList f xs)) \<le> n"
    have "\<forall>x \<in> set xs. item_ok n (inc_super (toksuper st) (tokens st)) (json_text fd) (toks fd) x"
      using VList.IH item_ok_value by blast
    then have "reads n st
        (add_tok st (length (CHR ''['' # commas (map (json_text fd) xs) @ '']'')) (last_open (tokens st))
          (leaf_tok JSMN_ARRAY (pos st) (length (CHR ''['' # commas (map (json_text fd) xs) @ '']'')) (length xs)
            # seq_toks (\<lambda>x. length (json_text fd x)) (toks fd) (pos st + 1) xs))
        (CHR ''['' # commas (map (json_text fd) xs) @ '']'')"
      using l toks_closed by (intro reads_container) (auto simp: bracket_def)
    then show "reads n st (add_tok st (length (json_text fd (VList f xs)))
        (if container_value (VList f xs) then last_open (tokens st) else toksuper st)
        (toks fd (pos st) (VList f xs))) (json_text fd (VList f xs))"
      by (simp add: container_value_def)
  qed
next
  case (VObject f ps)
  show ?case unfolding value_ok_def
  proof (intro allI impI)
    fix st :: jsmn_parser
    assume l: "length (tokens st) + length (toks fd (pos st) (VObject f ps)) \<le> n"
    have "value_ok fd n v" if "(k, v) \<in> set ps" for k v using VObject.IH [OF that] by simp
    then have "\<forall>x \<in> set ps. item_ok n (inc_super (toksuper st) (tokens st)) (member_text fd) (member_toks fd) x"
      using item_ok_member by fast
    moreover have "\<not> tok_open y" if "y \<in> set (member_toks fd q x)" for q x y
      using that toks_closed by (auto split: prod.splits)
    ultimately have "reads n st
        (add_tok st (length (CHR ''{'' # commas (map (member_text fd) ps) @ ''}'')) (last_open (tokens st))
          (leaf_tok JSMN_OBJECT (pos st) (length (CHR ''{'' # commas (map (member_text fd) ps) @ ''}'')) (length ps)
            # seq_toks (\<lambda>x. length (member_text fd x)) (member_toks fd) (pos st + 1) ps))
        (CHR ''{'' # commas (map (member_text fd) ps) @ ''}'')"
      using l by (intro reads_container) (auto simp: bracket_def case_prod_unfold)
    then show "reads n st (add_tok st (length (json_text fd (VObject f ps)))
        (if container_value (VObject f ps) then last_open (tokens st) else toksuper st)
        (toks fd (pos st) (VObject f ps))) (json_text fd (VObject f ps))"
      by (simp add: container_value_def case_prod_unfold)
  qed
qed (auto intro!: value_ok_prim simp: prim_text_words prim_text_numbers prim_text_double container_value_def)


subsection \<open>The counting run\<close>

fun tok_count :: "sentry_value \<Rightarrow> nat" where
  "tok_count (VList f xs) = Suc (sum_list (map tok_count xs))"
| "tok_count (VObject f ps) = Suc (sum_list (map (\<lambda>(k, v). Suc (tok_count v)) ps))"
| "tok_count v = 1"

lemma length_seq_toks:
  "(\<And>q x. x \<in> set xs \<Longrightarrow> length (f q x) = g x) \<Longrightarrow> length (seq_toks w f p xs) = sum_list (map g xs)"
  by (induction xs arbitrary: p) auto

lemma length_toks: "length (toks fd p v) = tok_count v"
proof (induction v arbitrary: p)
  case (VList f xs)
  then show ?case by (simp add: length_seq_toks [where g = tok_count])
next
  case (VObject f ps)
  then have "length (member_toks fd q x) = (\<lambda>(k, v). Suc (tok_count v)) x" if "x \<in> set ps" for q x
    using that by (cases x) auto
  then show ?case by (simp add: length_seq_toks [where g = "\<lambda>(k, v). Suc (tok_count v)"])
qed auto

definition counted :: "string \<Rightarrow> nat \<Rightarrow> bool" where
  "counted w c \<longleftrightarrow> (\<forall>st r. tokens st = [] \<longrightarrow> toksuper st = None \<longrightarrow> value_end r \<longrightarrow>
     jsmn_loop None (w @ r) st = jsmn_loop None r (st\<lparr>pos := pos st + length w, count := count st + c\<rparr>))"

lemma countedD:
  "\<lbrakk>counted w c; tokens st = []; toksuper st = None; value_end r\<rbrakk> \<Longrightarrow>
     jsmn_loop None (w @ r) st = jsmn_loop None r (st\<lparr>pos := pos st + length w, count := count st + c\<rparr>)"
  by (simp add: counted_def)

lemma loop_state_cong:
  fixes st st' :: jsmn_parser
  shows "\<lbrakk>pos st = pos st'; toksuper st = toksuper st'; tokens st = tokens st'; count st = count st'\<rbrakk> \<Longrightarrow>
    jsmn_loop cap r st = jsmn_loop cap r st'"
  by (cases st; cases st') simp

lemma countedI:
  "(\<And>st r. \<lbrakk>tokens st = []; toksuper st = None; value_end r\<rbrakk> \<Longrightarrow>
     jsmn_loop None (w @ r) st = jsmn_loop None r (st\<lparr>pos := pos st + length w, count := count st + c\<rparr>)) \<Longrightarrow>
   counted w c"
  by (simp add: counted_def)

lemma counted_commas: "(\<And>x. x \<in> set xs \<Longrightarrow> counted (w x) (c x)) \<Longrightarrow> counted (commas (map w xs)) (sum_list (map c xs))"
proof (induction xs)
  case (Cons x xs)
  show ?case
  proof (cases xs)
    case Nil
    with Cons.prems show ?thesis by simp
  next
    case (Cons y ys)
    have "jsmn_loop None (CHR '','' # r) st = jsmn_loop None r (st\<lparr>pos := pos st + 1\<rparr>)" for r st
      by (subst jsmn_loop.simps) (simp add: blank_def jsmn_comma_def)
    with Cons.prems [of x] Cons.IH Cons.prems Cons show ?thesis
      unfolding counted_def by (simp add: add.assoc)
  qed
qed (simp add: counted_def)

lemma counted_container:
  assumes "bracket type b e" "counted w c"
  shows "counted (b # w @ [e]) (Suc c)"
proof -
  have "jsmn_loop None (b # r) st = jsmn_loop None r (st\<lparr>pos := pos st + 1, count := count st + 1\<rparr>)"
    if "toksuper st = None" for r st
  proof -
    have "jsmn_open None b st = Inr (st\<lparr>pos := pos st + 1, count := count st + 1\<rparr>)"
      using that by (simp add: jsmn_open_def jsmn_alloc_token_def)
    then show ?thesis using assms(1) by (subst jsmn_loop.simps) (auto simp: bracket_def)
  qed
  moreover have "jsmn_loop None (e # r) st = jsmn_loop None r (st\<lparr>pos := pos st + 1\<rparr>)" for r st
    using assms(1) by (subst jsmn_loop.simps) (auto simp: bracket_def jsmn_close_def)
  moreover have "value_end (e # r)" for r using assms(1) by (auto simp: bracket_def)
  ultimately show ?thesis
    by (intro countedI) (simp add: countedD [OF assms(2)], rule loop_state_cong; simp)
qed

lemma counted_string: "counted (quoted s) (Suc 0)"
proof -
  have "str_scan (escape s @ CHR 0x22 # r) = Inr (length (escape s))" for r by (rule str_scan_escape)
  then have "jsmn_loop None (quoted s @ r) st =
      jsmn_loop None r (st\<lparr>pos := pos st + length (quoted s), count := count st + 1\<rparr>)" for r st
    by (subst jsmn_loop.simps) (simp add: quoted_def jsmn_leaf_def jsmn_alloc_token_def)
  then show ?thesis by (simp add: counted_def)
qed

lemma counted_prim:
  assumes "prim_text t"
  shows "counted t (Suc 0)"
proof -
  obtain c t' where t: "t = c # t'" using assms by (cases t) (auto simp: prim_text_def)
  then have c: "isdigit c \<or> islower c \<or> c \<in> {CHR ''-'', CHR ''+'', CHR ''.''}" using assms by (simp add: prim_text_def)
  have "prim_scan (c # t' @ r) = Some (length t)" if "value_end r" for r
    using prim_scan_text [OF assms that] t by simp
  then have "jsmn_loop None (t @ r) st = jsmn_loop None r (st\<lparr>pos := pos st + length t, count := count st + 1\<rparr>)"
    if "value_end r" for r st
    using that prim_char [OF c] t by (subst jsmn_loop.simps) (simp add: t jsmn_leaf_def jsmn_alloc_token_def)
  then show ?thesis by (simp add: counted_def)
qed

lemma counted_member: "counted (json_text fd v) c \<Longrightarrow> counted (member_text fd (k, v)) (Suc c)"
proof -
  assume v: "counted (json_text fd v) c"
  have "jsmn_loop None (quoted k @ CHR '':'' # json_text fd v @ r) st =
      jsmn_loop None (CHR '':'' # json_text fd v @ r) (st\<lparr>pos := pos st + length (quoted k), count := count st + 1\<rparr>)" for r st
    using str_scan_escape [of k "CHR '':'' # json_text fd v @ r"]
    by (subst jsmn_loop.simps) (simp add: quoted_def jsmn_leaf_def jsmn_alloc_token_def)
  then show ?thesis
    by (intro countedI) (simp add: countedD [OF v] loop_colon jsmn_colon_def add.assoc, rule loop_state_cong; simp)
qed

lemma counted_value: "counted (json_text fd v) (tok_count v)"
proof (induction v)
  case (VList f xs)
  from counted_container [of JSMN_ARRAY "CHR ''[''" "CHR '']''", OF _ counted_commas [of xs "json_text fd" tok_count]] VList
  show ?case by (simp add: bracket_def)
next
  case (VObject f ps)
  have "counted (member_text fd x) ((\<lambda>(k, v). Suc (tok_count v)) x)" if "x \<in> set ps" for x
  proof (cases x)
    case (Pair k v)
    with VObject.IH [OF that] counted_member [of fd v "tok_count v" k] show ?thesis by simp
  qed
  from counted_container [of JSMN_OBJECT "CHR ''{''" "CHR ''}''", OF _ counted_commas [OF this, of ps]]
  show ?case by (simp add: bracket_def)
qed (auto intro!: counted_prim counted_string simp: prim_text_words prim_text_numbers prim_text_double)

text \<open>Both runs on printed text: the first gives the number of tokens, the second, with an array of
  that size, the tokens of the value.\<close>

lemma jsmn_parse_printed:
  "jsmn_parse None (json_text fd v) = Inr (tok_count v, [])"
  "jsmn_parse (Some (tok_count v)) (json_text fd v) = Inr (tok_count v, toks fd 0 v)"
proof -
  have fin: "jsmn_loop cap [] st = Inr st" for cap st by (subst jsmn_loop.simps) simp
  have "jsmn_loop None (json_text fd v @ []) jsmn_init = jsmn_loop None []
      (jsmn_init\<lparr>pos := pos jsmn_init + length (json_text fd v), count := count jsmn_init + tok_count v\<rparr>)"
    using counted_value [of fd v] unfolding counted_def by (simp only: jsmn_init_def jsmn_parser.simps value_end_simps simp_thms)
  then show "jsmn_parse None (json_text fd v) = Inr (tok_count v, [])"
    using fin by (simp add: jsmn_parse_def jsmn_init_def)
  have "reads (tok_count v) jsmn_init
      (add_tok jsmn_init (length (json_text fd v)) None (toks fd 0 v)) (json_text fd v)"
    using value_ok_all [of fd "tok_count v" v] unfolding value_ok_def
    by (elim allE [of _ jsmn_init]) (simp add: jsmn_init_def length_toks last_open_def split: if_splits)
  then have "jsmn_loop (Some (tok_count v)) (json_text fd v) jsmn_init =
      Inr (add_tok jsmn_init (length (json_text fd v)) None (toks fd 0 v))"
    using fin unfolding reads_def by (metis append_Nil2 value_end_simps(1))
  moreover have "last_open ([] @ toks fd 0 v) = last_open []"
    by (rule last_open_closed) (use toks_closed in blast)
  ultimately show "jsmn_parse (Some (tok_count v)) (json_text fd v) = Inr (tok_count v, toks fd 0 v)"
    by (simp add: jsmn_parse_def add_tok_def jsmn_init_def inc_super_def last_open_def length_toks)
qed

end
