(* ===== verification/JsonReader.thy ===== *)
theory JsonReader
  imports Jsmn
begin

text \<open>
  The JSON reader of \<open>sentry_json.c\<close> over the tokens of the tokenizer, and the round trip with the
  JSON writer.  A pointer into a NUL-terminated buffer is the suffix it points at, and the byte
  behind the end is the NUL, which no test of the code accepts.  Decoding writes into its own buffer
  behind the read position; \<open>decode_shrinks\<close> shows that the output never overtakes it, so the output is
  modelled as a separate list.  Allocations succeed, and \<open>sentry__strtod_c\<close> is the parameter \<open>strtod\<close>.
  The \<open>int\<close> offsets of the tokenizer are exact for texts below 2 GiB.
\<close>

section \<open>Strings and numbers\<close>

primrec read_uchar_loop :: "nat \<Rightarrow> u32 \<Rightarrow> string \<Rightarrow> u32 option" where
  "read_uchar_loop 0 uchar s = Some uchar"
| "read_uchar_loop (Suc i) uchar s =
     (case s of [] \<Rightarrow> None | c # s' \<Rightarrow>
        case hex_val c of None \<Rightarrow> None | Some d \<Rightarrow> read_uchar_loop i (push_bit 4 uchar OR of_nat d) s')"

definition read_escaped_unicode_char :: "string \<Rightarrow> u32 option" where
  "read_escaped_unicode_char s = read_uchar_loop 4 0 s"

definition sentry__is_lead_surrogate :: "u32 \<Rightarrow> bool" where
  "sentry__is_lead_surrogate c \<longleftrightarrow> c \<ge> 0xd800 \<and> c < 0xdc00"

definition sentry__is_trail_surrogate :: "u32 \<Rightarrow> bool" where
  "sentry__is_trail_surrogate c \<longleftrightarrow> c \<ge> 0xdc00 \<and> c < 0xe000"

definition sentry__surrogate_value :: "u32 \<Rightarrow> u32 \<Rightarrow> u32" where
  "sentry__surrogate_value lead trail = (push_bit 10 (lead - 0xd800) OR (trail - 0xdc00)) + 0x10000"

text \<open>The cases of \<open>SIMPLE_ESCAPE\<close>.\<close>

definition simple_escape :: "char \<Rightarrow> char option" where
  "simple_escape c =
     (if c = CHR 0x22 then Some CHR 0x22 else if c = CHR 0x5C then Some CHR 0x5C
      else if c = CHR ''/'' then Some CHR ''/'' else if c = CHR ''b'' then Some CHR 0x08
      else if c = CHR ''f'' then Some CHR 0x0C else if c = CHR ''n'' then Some CHR 0x0A
      else if c = CHR ''r'' then Some CHR 0x0D else if c = CHR ''t'' then Some CHR 0x09 else None)"

text \<open>The code point of an escape behind its \<open>u\<close>, with the rest of the input.\<close>

definition decode_unicode :: "string \<Rightarrow> (u32 \<times> string) option" where
  "decode_unicode s =
     (case read_escaped_unicode_char s of
        None \<Rightarrow> None
      | Some uchar \<Rightarrow>
          let s = drop 4 s in
          if sentry__is_lead_surrogate uchar
          then if \<not> at s CHR 0x5C \<or> \<not> at (tl s) CHR ''u'' then None
               else let s = drop 2 s in
                 (case read_escaped_unicode_char s of
                    None \<Rightarrow> None
                  | Some trail \<Rightarrow>
                      if \<not> sentry__is_trail_surrogate trail then None
                      else Some (sentry__surrogate_value uchar trail, drop 4 s))
          else if sentry__is_trail_surrogate uchar then None
          else Some (uchar, s))"

lemma decode_unicode_length: "decode_unicode s = Some (u, r) \<Longrightarrow> length r \<le> length s"
  by (auto simp: decode_unicode_def Let_def split: option.splits if_splits)

text \<open>\<open>None\<close> is the result \<open>false\<close>.\<close>

function decode_string_inplace :: "string \<Rightarrow> string option" where
  "decode_string_inplace s =
     (case s of
        [] \<Rightarrow> Some []
      | c # s' \<Rightarrow>
          if c = CHR 0x00 then Some []
          else if c \<noteq> CHR 0x5C then map_option ((#) c) (decode_string_inplace s')
          else case s' of
              [] \<Rightarrow> None
            | e # s'' \<Rightarrow>
                (case simple_escape e of
                   Some x \<Rightarrow> map_option ((#) x) (decode_string_inplace s'')
                 | None \<Rightarrow>
                     if e = CHR ''u''
                     then (case decode_unicode s'' of
                             None \<Rightarrow> None
                           | Some (uchar, r) \<Rightarrow>
                               map_option ((@) (sentry__unichar_to_utf8 uchar)) (decode_string_inplace r))
                     else None))"
  by pat_completeness auto
termination
  by (relation "measure length") (auto dest: decode_unicode_length)

declare decode_string_inplace.simps [simp del]

definition INT32_MAX :: nat where "INT32_MAX = 2 ^ 31 - 1"

definition INT64_MAX :: nat where "INT64_MAX = 2 ^ 63 - 1"

text \<open>\<open>parse_number\<close> on the text of the slice.\<close>

definition parse_number :: "(string \<Rightarrow> double) \<Rightarrow> string \<Rightarrow> sentry_value" where
  "parse_number strtod slice_text =
     (let number = cstr slice_text in
      if at number CHR ''-''
      then
        (case strtoll number of (ll_val, e, erange) \<Rightarrow>
           if e = length slice_text \<and> \<not> erange
           then if ll_val \<ge> - (2 ^ 31) \<and> ll_val \<le> int INT32_MAX then VInt32 (of_int ll_val) else VInt64 (of_int ll_val)
           else VDouble (strtod number))
      else
        (case strtoull number of (ull_val, e, erange) \<Rightarrow>
           if e = length slice_text \<and> \<not> erange
           then if unat ull_val \<le> INT32_MAX then VInt32 (of_nat (unat ull_val))
                else if unat ull_val \<le> INT64_MAX then VInt64 ull_val
                else VUint64 ull_val
           else VDouble (strtod number)))"

section \<open>From tokens to values\<close>

definition tok_text :: "string \<Rightarrow> jsmntok_t \<Rightarrow> string" where
  "tok_text buf t = take (nat (tok_end t - tok_start t)) (drop (nat (tok_start t)) buf)"

text \<open>The loops over the children; \<open>f\<close> is the nested parse, which returns the value and the tokens
  behind it.\<close>

primrec list_loop ::
  "('t list \<Rightarrow> (sentry_value \<times> 't list) option) \<Rightarrow> nat \<Rightarrow> 't list \<Rightarrow> sentry_value \<Rightarrow> (sentry_value \<times> 't list) option" where
  "list_loop f 0 ts rv = Some (rv, ts)"
| "list_loop f (Suc n) ts rv =
     (case f ts of None \<Rightarrow> None | Some (child, ts) \<Rightarrow> list_loop f n ts (snd (sentry_value_append rv child)))"

primrec object_loop ::
  "string \<Rightarrow> (jsmntok_t list \<Rightarrow> (sentry_value \<times> jsmntok_t list) option) \<Rightarrow> nat \<Rightarrow> jsmntok_t list \<Rightarrow> sentry_value
     \<Rightarrow> (sentry_value \<times> jsmntok_t list) option" where
  "object_loop buf f 0 ts rv = Some (rv, ts)"
| "object_loop buf f (Suc n) ts rv =
     (case ts of
        [] \<Rightarrow> None
      | token # ts \<Rightarrow>
          if tok_type token \<noteq> JSMN_STRING then None
          else case f ts of
              None \<Rightarrow> None
            | Some (child, ts) \<Rightarrow>
                object_loop buf f n ts
                  (case decode_string_inplace (tok_text buf token) of
                     Some key \<Rightarrow> snd (sentry_value_set_by_key rv (cstr key) child)
                   | None \<Rightarrow> rv))"

text \<open>One call on a non-empty token list; \<open>nested = None\<close> is the guard \<open>depth >= SENTRY_JSON_MAX_DEPTH\<close>.\<close>

definition token_value ::
  "(string \<Rightarrow> double) \<Rightarrow> string \<Rightarrow> (jsmntok_t list \<Rightarrow> (sentry_value \<times> jsmntok_t list) option) option \<Rightarrow> jsmntok_t
     \<Rightarrow> jsmntok_t list \<Rightarrow> (sentry_value \<times> jsmntok_t list) option" where
  "token_value strtod buf nested root ts =
     (case tok_type root of
        JSMN_PRIMITIVE \<Rightarrow>
          let c = buf ! nat (tok_start root) in
          Some (if c = CHR ''t'' then VBool True else if c = CHR ''f'' then VBool False
                else if c = CHR ''n'' then VNull else parse_number strtod (tok_text buf root), ts)
      | JSMN_STRING \<Rightarrow>
          Some (case decode_string_inplace (tok_text buf root) of Some s \<Rightarrow> VString s | None \<Rightarrow> VNull, ts)
      | JSMN_OBJECT \<Rightarrow>
          (case nested of None \<Rightarrow> None | Some f \<Rightarrow> object_loop buf f (tok_size root) ts (VObject False []))
      | JSMN_ARRAY \<Rightarrow>
          (case nested of None \<Rightarrow> None | Some f \<Rightarrow> list_loop f (tok_size root) ts (VList False []))
      | JSMN_UNDEFINED \<Rightarrow> Some (VNull, ts))"

text \<open>The recursion, on the number \<open>64 - depth\<close> of levels left.\<close>

primrec tokens_to_value ::
  "(string \<Rightarrow> double) \<Rightarrow> string \<Rightarrow> nat \<Rightarrow> jsmntok_t list \<Rightarrow> (sentry_value \<times> jsmntok_t list) option" where
  "tokens_to_value strtod buf 0 ts =
     (case ts of [] \<Rightarrow> None | root # ts \<Rightarrow> token_value strtod buf None root ts)"
| "tokens_to_value strtod buf (Suc left) ts =
     (case ts of [] \<Rightarrow> None | root # ts \<Rightarrow> token_value strtod buf (Some (tokens_to_value strtod buf left)) root ts)"

definition sentry__value_from_json :: "(string \<Rightarrow> double) \<Rightarrow> string \<Rightarrow> sentry_value" where
  "sentry__value_from_json strtod buf =
     (case jsmn_parse None buf of
        Inl _ \<Rightarrow> VNull
      | Inr (token_count, _) \<Rightarrow>
          if token_count = 0 then VNull
          else case jsmn_parse (Some token_count) buf of
              Inl _ \<Rightarrow> VNull
            | Inr (token_count, ts) \<Rightarrow>
                if token_count = 0 then VNull
                else case tokens_to_value strtod buf SENTRY_JSON_MAX_DEPTH ts of
                    Some (value_out, []) \<Rightarrow> value_out
                  | _ \<Rightarrow> VNull)"


section \<open>Decoding inverts escaping\<close>

lemma read_hex_byte:
  assumes "code c < 32"
  shows "read_escaped_unicode_char ([CHR ''0'', CHR ''0''] @ hex_byte c @ r) = Some (of_nat (code c))"
proof -
  have four: "read_uchar_loop 4 = read_uchar_loop (Suc (Suc (Suc (Suc 0))))" by (simp add: numeral_eq_Suc)
  have zero: "hex_val CHR ''0'' = Some 0" by (simp add: hex_val_def)
  have d: "hex_val (hex_char (code c div 16)) = Some (code c div 16)" "hex_val (hex_char (code c mod 16)) = Some (code c mod 16)"
    using assms by simp_all
  have "push_bit 4 (code c div 16) OR code c mod 16 = code c"
    using or_add_nat(1) [of "code c mod 16" "code c div 16"] by (simp add: push_bit_nat_def)
  then have "of_nat (push_bit 4 (code c div 16) OR code c mod 16) = (of_nat (code c) :: u32)" by simp
  then have "push_bit 4 (of_nat (code c div 16)) OR of_nat (code c mod 16) = (of_nat (code c) :: u32)"
    by (simp only: of_nat_or_eq of_nat_push_bit)
  then show ?thesis
    using d zero unfolding read_escaped_unicode_char_def four by (simp add: hex_byte_def)
qed

lemma decode_symbol:
  assumes "needs_escaping ! code c" "escape_char c = [CHR 0x5C, e]"
  shows "simple_escape e = Some c"
  using assms by (auto simp: escape_char_def simple_escape_def hex_byte_def split: if_splits)

lemma decode_escape: "decode_string_inplace (escape s) = Some s"
proof (induction s)
  case Nil
  then show ?case by (simp add: escape_def decode_string_inplace.simps)
next
  case (Cons c s)
  show ?case
  proof (cases "needs_escaping ! code c")
    case False
    then have "escape (c # s) = c # escape s" by (simp add: escape_def)
    with Cons not_escaped [OF False] show ?thesis by (subst decode_string_inplace.simps) simp
  next
    case True
    then have e: "escape (c # s) = escape_char c @ escape s" by (simp add: escape_def)
    from True show ?thesis
    proof (cases rule: escape_char_cases)
      case (symbol x)
      with Cons e decode_symbol [OF True] show ?thesis by (subst decode_string_inplace.simps) simp
    next
      case control
      have c: "(of_nat (code c) :: u32) < 0x80" "unat (of_nat (code c) :: u32) = code c"
        using control(1) by (simp_all add: word_less_nat_alt unat_of_nat)
      then have u: "sentry__unichar_to_utf8 (of_nat (code c)) = [c]" by (simp add: utf8_forms)
      have ns: "\<not> sentry__is_lead_surrogate (of_nat (code c))" "\<not> sentry__is_trail_surrogate (of_nat (code c))"
        using c(2) control(1) by (simp_all add: sentry__is_lead_surrogate_def sentry__is_trail_surrogate_def word_le_nat_alt)
      have "decode_unicode ([CHR ''0'', CHR ''0''] @ hex_byte c @ escape s) = Some (of_nat (code c), escape s)"
        using read_hex_byte [OF control(1), of "escape s"] ns by (simp add: decode_unicode_def hex_byte_def)
      with Cons u have "decode_string_inplace (CHR 0x5C # CHR ''u'' # [CHR ''0'', CHR ''0''] @ hex_byte c @ escape s) = Some (c # s)"
        by (subst decode_string_inplace.simps) (simp add: simple_escape_def)
      with control e show ?thesis by simp
    qed
  qed
qed

text \<open>The output of the decoder is never longer than the input it has consumed.\<close>

lemma utf8_length: "length (sentry__unichar_to_utf8 c) \<le> 4"
  by (auto simp: sentry__unichar_to_utf8_def utf8_tail_1 utf8_tail_2 utf8_tail_3 simp del: utf8_tail.simps(2) One_nat_def)

lemma read_uchar_loop_length: "read_uchar_loop n u s = Some x \<Longrightarrow> n \<le> length s"
  by (induction n arbitrary: u s) (auto split: list.splits option.splits)

lemma decode_unicode_consumes: "decode_unicode s = Some (u, r) \<Longrightarrow> length r + 4 \<le> length s"
  by (auto simp: decode_unicode_def read_escaped_unicode_char_def Let_def split: option.splits if_splits
      dest!: read_uchar_loop_length)

lemma decode_shrinks: "decode_string_inplace s = Some t \<Longrightarrow> length t \<le> length s"
proof (induction s arbitrary: t rule: decode_string_inplace.induct)
  case (1 s)
  note d = "1.prems" [unfolded decode_string_inplace.simps [of s]]
  show ?case
  proof (cases s)
    case Nil
    with d show ?thesis by simp
  next
    case (Cons c s')
    show ?thesis
    proof (cases "c = CHR 0x5C")
      case False
      with d Cons "1.IH"(1) [OF Cons] show ?thesis by (auto split: if_splits)
    next
      case True
      with d Cons obtain e s'' where s': "s' = e # s''" by (cases s') auto
      show ?thesis
      proof (cases "simple_escape e")
        case (Some x)
        with d Cons True s' "1.IH"(3) [OF Cons _ _ s' Some] show ?thesis by auto
      next
        case None
        with d Cons True s' obtain u r t' where u: "e = CHR ''u''" "decode_unicode s'' = Some (u, r)"
            "decode_string_inplace r = Some t'" "t = sentry__unichar_to_utf8 u @ t'"
          by (auto split: if_splits option.splits)
        have "length t' \<le> length r" using "1.IH"(2) [OF Cons _ _ s' None u(1,2) refl u(3)] True by simp
        with u decode_unicode_consumes [OF u(2)] utf8_length [of u] s' Cons show ?thesis by simp
      qed
    qed
  qed
qed


section \<open>Numbers\<close>

lemma num_prefix_neg: "num_prefix (CHR ''-'' # dec_str n) = (1, True, dec_str n)"
  using dec_str_digits [of n] by (simp add: num_prefix_def isspace_def)

lemma strtoll_neg: "n \<le> 2 ^ 63 \<Longrightarrow> strtoll (CHR ''-'' # dec_str n) = (- int n, Suc (length (dec_str n)), False)"
  by (simp add: strtoll_def num_prefix_neg)

lemma dec_str_not_neg: "\<not> at (dec_str n) CHR ''-''"
  using dec_str_digits [of n] by (cases "dec_str n") (auto simp: isdigit_def)

lemma parse_number_dec:
  assumes "n < 2 ^ 64"
  shows "parse_number sd (dec_str n) =
    (if n < 2 ^ 31 then VInt32 (of_nat n) else if n < 2 ^ 63 then VInt64 (of_nat n) else VUint64 (of_nat n))"
proof -
  have "strtoull (dec_str n) = (of_nat n, length (dec_str n), False)"
    using strtoull_dec_str [OF assms, of "[]"] by simp
  moreover have "unat (of_nat n :: u64) = n" using assms by (simp add: unat_of_nat)
  ultimately show ?thesis
    using dec_str_not_neg [of n] by (auto simp: parse_number_def INT32_MAX_def INT64_MAX_def)
qed

lemma parse_number_int:
  assumes "- (2 ^ 63) \<le> i" "i < 2 ^ 63"
  shows "parse_number sd (int_str i) = (if - (2 ^ 31) \<le> i \<and> i < 2 ^ 31 then VInt32 (of_int i) else VInt64 (of_int i))"
proof (cases "i < 0")
  case True
  then have s: "int_str i = CHR ''-'' # dec_str (nat (- i))" by (simp add: int_str_def)
  have "strtoll (int_str i) = (i, length (int_str i), False)"
    using strtoll_neg [of "nat (- i)"] assms True unfolding s by simp
  moreover have "cstr (int_str i) = int_str i" by simp
  moreover have "at (int_str i) CHR ''-''" unfolding s by simp
  ultimately show ?thesis using True unfolding parse_number_def by (simp add: INT32_MAX_def)
next
  case False
  then have "int_str i = dec_str (nat i)" by (simp add: int_str_def)
  moreover have "nat i < 2 ^ 64" "\<not> nat i \<ge> 2 ^ 63" "(nat i < 2 ^ 31) = (i < 2 ^ 31)"
    using assms False by (simp_all add: nat_less_iff)
  moreover have "(of_nat (nat i) :: 32 word) = of_int i" "(of_nat (nat i) :: u64) = of_int i"
    using False by (simp_all add: of_nat_nat)
  ultimately show ?thesis using parse_number_dec [of "nat i" sd] False by simp
qed

lemma sint_range: "- (2 ^ 31) \<le> sint (i :: 32 word)" "sint (i :: 32 word) < 2 ^ 31"
    "- (2 ^ 63) \<le> sint (j :: i64)" "sint (j :: i64) < 2 ^ 63"
  using sint_ge [of i] sint_lt [of i] sint_ge [of j] sint_lt [of j] by simp_all

section \<open>What is read back\<close>

text \<open>A value as it is read back: integers in the narrowest type that holds them, doubles as the number that their text denotes (an
  integer when it has neither a point nor an exponent), nothing frozen; \<open>sd\<close> is \<open>strtod\<close>.\<close>

fun reread :: "(double \<Rightarrow> string) \<Rightarrow> (string \<Rightarrow> double) \<Rightarrow> sentry_value \<Rightarrow> sentry_value" where
  "reread fd sd (VInt64 i) = (if sint i < - (2 ^ 31) \<or> 2 ^ 31 \<le> sint i then VInt64 i else VInt32 (word_of_int (sint i)))"
| "reread fd sd (VUint64 i) = (if 2 ^ 63 \<le> unat i then VUint64 i
     else if 2 ^ 31 \<le> unat i then VInt64 (word_of_nat (unat i)) else VInt32 (word_of_nat (unat i)))"
| "reread fd sd (VDouble x) = (if number_text (double_text fd x) then parse_number sd (double_text fd x) else VNull)"
| "reread fd sd (VList f xs) = VList False (map (reread fd sd) xs)"
| "reread fd sd (VObject f ps) = VObject False (map (\<lambda>(k, v). (k, reread fd sd v)) ps)"
| "reread fd sd v = v"

text \<open>A double comes back unchanged when \<open>strtod\<close> inverts the formatting and its text is not that of an integer.\<close>

lemma num_prefix_whole:
  assumes "number_text s" "num_prefix s = (k, neg, ds)" "k + length ds = length s"
  shows "list_all isdigit (drop 1 s)"
proof -
  obtain c t where s: "s = c # t" using assms(1) by (cases s) (auto simp: number_text_def)
  then have c: "isdigit c \<or> c = CHR ''-''" using assms(1) by (simp add: number_text_def)
  then have sp: "\<not> isspace c" "c \<noteq> CHR ''+''" by (auto simp: isdigit_def isspace_def)
  have t: "list_all isdigit (takeWhile isdigit u)" for u by (induction u) auto
  show ?thesis
  proof (cases "c = CHR ''-''")
    case True
    then have "length (takeWhile isdigit t) = length t" using assms(2,3) s sp by (auto simp: num_prefix_def Let_def)
    then show ?thesis using s t [of t] takeWhile_eq_take [of isdigit t] by simp
  next
    case False
    then have "length (takeWhile isdigit (c # t)) = length (c # t)" using assms(2,3) s sp c by (auto simp: num_prefix_def Let_def)
    then show ?thesis using s t [of "c # t"] takeWhile_eq_take [of isdigit "c # t"] by simp
  qed
qed

lemma reread_double:
  assumes "double_is_finite x" "number_text (fd x)" "length (fd x) < 24" "sd (fd x) = x" "\<not> list_all isdigit (drop 1 (fd x))"
  shows "reread fd sd (VDouble x) = VDouble x"
proof -
  have nul: "cstr (fd x) = fd x" using assms(2) by (simp add: number_text_no_nul)
  have "fd x \<noteq> []" using assms(2) by (simp add: number_text_def)
  then have "fst (snd (strtoll (fd x))) \<noteq> length (fd x)" "fst (snd (strtoull (fd x))) \<noteq> length (fd x)"
    using num_prefix_whole [OF assms(2)] assms(5)
    by (cases "num_prefix (fd x)"; force simp: strtoll_def strtoull_def Let_def split: if_splits)+
  then show ?thesis using assms nul by (auto simp: double_text_def parse_number_def Let_def split: prod.splits)
qed

lemma sint_of_int: "- (2 ^ 31) \<le> i \<Longrightarrow> i < 2 ^ 31 \<Longrightarrow> sint (word_of_int i :: 32 word) = i"
  by (simp add: sint_sbintrunc' signed_take_bit_int_eq_self)

lemma reread_scalar:
  "parse_number sd (int_str (sint (i :: 32 word))) = VInt32 i"
  "parse_number sd (int_str (sint j)) = reread fd sd (VInt64 j)"
  "parse_number sd (dec_str (unat k)) = reread fd sd (VUint64 k)"
proof -
  have "- (2 ^ 63) \<le> sint i" "sint i < 2 ^ 63" using sint_range(1,2) [of i] by simp_all
  from parse_number_int [OF this, of sd] show "parse_number sd (int_str (sint i)) = VInt32 i"
    using sint_range(1,2) [of i] by simp
  show "parse_number sd (int_str (sint j)) = reread fd sd (VInt64 j)"
    using parse_number_int [OF sint_range(3,4) [of j], of sd] by (simp del: of_int_sint) auto
  show "parse_number sd (dec_str (unat k)) = reread fd sd (VUint64 k)"
    using parse_number_dec [of "unat k" sd] unat_less(3) [of k] by auto
qed


section \<open>Reading the tokens of printed text\<close>

lemma tok_text_leaf: "tok_text (pre @ t @ post) (leaf_tok type (length pre) (length t) k) = t"
  by (simp add: tok_text_def leaf_tok_def)

text \<open>A reader \<open>f\<close> that reads the tokens \<open>g\<close> of every item at its place in the buffer reads the
  items of a sequence.\<close>

definition reads_back ::
  "string \<Rightarrow> ('t list \<Rightarrow> ('v \<times> 't list) option) \<Rightarrow> ('a \<Rightarrow> string) \<Rightarrow> (nat \<Rightarrow> 'a \<Rightarrow> 't list) \<Rightarrow> ('a \<Rightarrow> 'v) \<Rightarrow> 'a \<Rightarrow> bool" where
  "reads_back buf f w g h x \<longleftrightarrow>
     (\<forall>pre post rest. buf = pre @ w x @ post \<longrightarrow> f (g (length pre) x @ rest) = Some (h x, rest))"

lemma reads_backD:
  "\<lbrakk>reads_back buf f w g h x; buf = pre @ w x @ post\<rbrakk> \<Longrightarrow> f (g (length pre) x @ rest) = Some (h x, rest)"
  unfolding reads_back_def by blast

lemma commas_split: "commas (map w (x # xs)) = w x @ (if xs = [] then [] else CHR '','' # commas (map w xs))"
  by (cases xs) auto

lemma seq_toks_Nil: "seq_toks w g p [] = seq_toks w g q []"
  by simp

lemma list_loop_reads:
  assumes "\<forall>x \<in> set xs. reads_back buf f w g h x" "buf = pre @ commas (map w xs) @ post"
  shows "list_loop f (length xs) (seq_toks (\<lambda>x. length (w x)) g (length pre) xs @ rest) (VList False acc) =
    Some (VList False (acc @ map h xs), rest)"
  using assms
proof (induction xs arbitrary: pre acc)
  case (Cons x xs)
  have buf: "buf = pre @ w x @ (if xs = [] then [] else CHR '','' # commas (map w xs)) @ post"
    using Cons.prems(2) by (simp add: commas_split del: commas.simps list.map)
  then have x: "f (g (length pre) x @ ts) = Some (h x, ts)" for ts
    using Cons.prems(1) unfolding reads_back_def by auto
  have "list_loop f (length xs) (seq_toks (\<lambda>x. length (w x)) g (length pre + length (w x) + 1) xs @ rest)
      (VList False (acc @ [h x])) = Some (VList False ((acc @ [h x]) @ map h xs), rest)"
  proof (cases "xs = []")
    case False
    with Cons.IH [of "pre @ w x @ '',''" "acc @ [h x]"] Cons.prems(1) buf show ?thesis by simp
  qed simp
  with x show ?case by simp
qed simp

lemma obj_set_new: "k \<notin> fst ` set acc \<Longrightarrow> CHR 0x00 \<notin> set k \<Longrightarrow> obj_set acc k v = acc @ [(k, v)]"
  by (induction acc k v rule: obj_set.induct) auto

abbreviation reread_member :: "(double \<Rightarrow> string) \<Rightarrow> (string \<Rightarrow> double) \<Rightarrow> string \<times> sentry_value \<Rightarrow> string \<times> sentry_value" where
  "reread_member fd sd \<equiv> \<lambda>(k, v). (k, reread fd sd v)"

lemma object_loop_reads:
  assumes "\<forall>(k, v) \<in> set ps. reads_back buf f (json_text fd) (toks fd) (reread fd sd) v"
    "buf = pre @ commas (map (member_text fd) ps) @ post" "keys_ok ps" "fst ` set acc \<inter> fst ` set ps = {}"
  shows "object_loop buf f (length ps) (seq_toks (\<lambda>x. length (member_text fd x)) (member_toks fd) (length pre) ps @ rest)
    (VObject False acc) = Some (VObject False (acc @ map (reread_member fd sd) ps), rest)"
  using assms
proof (induction ps arbitrary: pre acc)
  case (Cons x ps)
  obtain k v where x: "x = (k, v)" by (cases x)
  let ?key = "leaf_tok JSMN_STRING (length pre + 1) (length (escape k)) 1"
  have buf: "buf = pre @ member_text fd (k, v) @ (if ps = [] then [] else CHR '','' # commas (map (member_text fd) ps)) @ post"
    using Cons.prems(2) unfolding x by (simp add: commas_split del: commas.simps list.map)
  then have "buf = (pre @ quoted k @ '':'') @ json_text fd v @ (if ps = [] then [] else CHR '','' # commas (map (member_text fd) ps)) @ post"
    by simp
  moreover have "reads_back buf f (json_text fd) (toks fd) (reread fd sd) v" using Cons.prems(1) x by simp
  ultimately have v: "f (toks fd (length (pre @ quoted k @ '':'')) v @ ts) = Some (reread fd sd v, ts)" for ts
    by (rule reads_backD [rotated])
  have nul: "CHR 0x00 \<notin> set k" and new: "k \<notin> fst ` set acc" and ko: "keys_ok ps" "k \<notin> fst ` set ps"
    using Cons.prems(3,4) by (auto simp: x keys_ok_def)
  have "tok_text ((pre @ [CHR 0x22]) @ escape k @ CHR 0x22 # CHR '':'' # json_text fd v @ q)
      (leaf_tok JSMN_STRING (length (pre @ [CHR 0x22])) (length (escape k)) 1) = escape k" for q
    by (rule tok_text_leaf)
  then have "tok_text buf ?key = escape k" unfolding buf by (simp add: quoted_def)
  then have key: "decode_string_inplace (tok_text buf ?key) = Some k" by (simp add: decode_escape)
  have "object_loop buf f (length ps) (seq_toks (\<lambda>x. length (member_text fd x)) (member_toks fd)
      (length pre + length (member_text fd x) + 1) ps @ rest) (VObject False (acc @ [reread_member fd sd x]))
      = Some (VObject False ((acc @ [reread_member fd sd x]) @ map (reread_member fd sd) ps), rest)"
  proof (cases "ps = []")
    case False
    have "fst ` set (acc @ [reread_member fd sd x]) \<inter> fst ` set ps = {}"
      using Cons.prems(4) ko(2) x by auto
    with Cons.IH [of "pre @ member_text fd x @ '',''" "acc @ [reread_member fd sd x]"] Cons.prems(1) buf ko(1) False x
    show ?thesis by simp
  qed simp
  with v key nul new show ?case
    by (simp add: x leaf_tok_def obj_set_new del: decode_string_inplace.simps)
qed simp


lemma number_first: "hd (dec_str n) \<noteq> CHR ''t'' \<and> hd (dec_str n) \<noteq> CHR ''f'' \<and> hd (dec_str n) \<noteq> CHR ''n''"
    "hd (int_str i) \<noteq> CHR ''t'' \<and> hd (int_str i) \<noteq> CHR ''f'' \<and> hd (int_str i) \<noteq> CHR ''n''"
proof -
  have d: "isdigit (hd (dec_str m))" for m using dec_str_digits [of m] by simp
  then show "hd (dec_str n) \<noteq> CHR ''t'' \<and> hd (dec_str n) \<noteq> CHR ''f'' \<and> hd (dec_str n) \<noteq> CHR ''n''"
    using d [of n] unfolding isdigit_def by (intro conjI notI) simp_all
  show "hd (int_str i) \<noteq> CHR ''t'' \<and> hd (int_str i) \<noteq> CHR ''f'' \<and> hd (int_str i) \<noteq> CHR ''n''"
    using d [of "nat i"] by (auto simp: isdigit_def int_str_def)
qed

lemma double_first: "number_text t \<Longrightarrow> hd t \<noteq> CHR ''t'' \<and> hd t \<noteq> CHR ''f'' \<and> hd t \<noteq> CHR ''n''"
  by (auto simp: number_text_def isdigit_def)

lemma tokens_to_value_Cons:
  "tokens_to_value sd buf k (root # ts) =
     token_value sd buf (case k of 0 \<Rightarrow> None | Suc j \<Rightarrow> Some (tokens_to_value sd buf j)) root ts"
  by (cases k) simp_all

lemma prim_reads_back:
  assumes "prim_text (json_text fd v)" "\<And>p. toks fd p v = [leaf_tok JSMN_PRIMITIVE p (length (json_text fd v)) 0]"
    "(if hd (json_text fd v) = CHR ''t'' then VBool True else if hd (json_text fd v) = CHR ''f'' then VBool False
      else if hd (json_text fd v) = CHR ''n'' then VNull else parse_number sd (json_text fd v)) = reread fd sd v"
  shows "reads_back buf (tokens_to_value sd buf k) (json_text fd) (toks fd) (reread fd sd) v"
  unfolding reads_back_def
proof (intro allI impI)
  fix pre post rest assume b: "buf = pre @ json_text fd v @ post"
  have "json_text fd v \<noteq> []" using assms(1) by (simp add: prim_text_def)
  then have "buf ! length pre = hd (json_text fd v)" unfolding b by (simp add: nth_append hd_conv_nth)
  moreover have "tok_text buf (leaf_tok JSMN_PRIMITIVE (length pre) (length (json_text fd v)) 0) = json_text fd v"
    unfolding b by (rule tok_text_leaf)
  moreover have "tok_start (leaf_tok JSMN_PRIMITIVE (length pre) n m) = int (length pre)"
    "tok_type (leaf_tok JSMN_PRIMITIVE (length pre) n m) = JSMN_PRIMITIVE" for n m by (simp_all add: leaf_tok_def)
  ultimately show "tokens_to_value sd buf k (toks fd (length pre) v @ rest) = Some (reread fd sd v, rest)"
    using assms(2,3) by (simp add: tokens_to_value_Cons token_value_def Let_def split: if_splits)
qed

lemma value_reads_back:
  "\<lbrakk>json_safe fd v; value_depth v \<le> k\<rbrakk> \<Longrightarrow> reads_back buf (tokens_to_value sd buf k) (json_text fd) (toks fd) (reread fd sd) v"
proof (induction v arbitrary: k)
  case (VString s)
  have "tok_text ((pre @ [CHR 0x22]) @ escape s @ CHR 0x22 # post)
      (leaf_tok JSMN_STRING (length (pre @ [CHR 0x22])) (length (escape s)) 0) = escape s" for pre post
    by (rule tok_text_leaf)
  then show ?case
    by (auto simp: reads_back_def tokens_to_value_Cons token_value_def quoted_def decode_escape leaf_tok_def)
next
  case (VList f xs)
  then obtain j where k: "k = Suc j" by (cases k) auto
  have "\<forall>x \<in> set xs. reads_back buf (tokens_to_value sd buf j) (json_text fd) (toks fd) (reread fd sd) x"
  proof
    fix x assume x: "x \<in> set xs"
    then have "value_depth x \<le> foldr max (map value_depth xs) 0" by (intro foldr_max_ge) simp
    with VList.IH [OF x, of j] VList.prems x k
    show "reads_back buf (tokens_to_value sd buf j) (json_text fd) (toks fd) (reread fd sd) x" by (simp add: list_all_iff)
  qed
  note l = list_loop_reads [OF this, of "pre @ ''[''" for pre]
  show ?case unfolding reads_back_def
  proof (intro allI impI)
    fix pre post rest assume "buf = pre @ json_text fd (VList f xs) @ post"
    with l [of pre "CHR '']'' # post" rest "[]"]
    show "tokens_to_value sd buf k (toks fd (length pre) (VList f xs) @ rest) = Some (reread fd sd (VList f xs), rest)"
      by (simp add: tokens_to_value_Cons token_value_def leaf_tok_def k)
  qed
next
  case (VObject f ps)
  then obtain j where k: "k = Suc j" by (cases k) auto
  have "\<forall>(p, v) \<in> set ps. reads_back buf (tokens_to_value sd buf j) (json_text fd) (toks fd) (reread fd sd) v"
  proof (clarify)
    fix p v assume x: "(p, v) \<in> set ps"
    then have "value_depth v \<le> foldr max (map (\<lambda>(k, v). value_depth v) ps) 0" by (intro foldr_max_ge) force
    with VObject.IH [OF x, of v j] VObject.prems x k
    show "reads_back buf (tokens_to_value sd buf j) (json_text fd) (toks fd) (reread fd sd) v" by (auto simp: list_all_iff)
  qed
  note l = object_loop_reads [OF this, of "pre @ ''{''" for pre]
  show ?case unfolding reads_back_def
  proof (intro allI impI)
    fix pre post rest assume "buf = pre @ json_text fd (VObject f ps) @ post"
    with l [of pre "CHR ''}'' # post" "[]" rest] VObject.prems(1)
    show "tokens_to_value sd buf k (toks fd (length pre) (VObject f ps) @ rest) = Some (reread fd sd (VObject f ps), rest)"
      by (simp add: tokens_to_value_Cons token_value_def leaf_tok_def k case_prod_unfold)
  qed
qed (simp_all add: prim_reads_back prim_text_words prim_text_numbers prim_text_double number_first double_first reread_scalar del: reread.simps(1,2))


lemma from_json_safe:
  assumes "json_safe fd v" "value_depth v < 64"
  shows "sentry__value_from_json sd (json_text fd v) = reread fd sd v"
proof -
  have "tok_count v \<noteq> 0" by (cases v) auto
  moreover have "reads_back (json_text fd v) (tokens_to_value sd (json_text fd v) 64) (json_text fd) (toks fd) (reread fd sd) v"
    using assms by (intro value_reads_back) simp_all
  then have "tokens_to_value sd (json_text fd v) 64 (toks fd (length ([] :: string)) v @ []) = Some (reread fd sd v, [])"
    by (rule reads_backD [where post = "[]"]) simp
  ultimately show ?thesis
    by (simp add: sentry__value_from_json_def jsmn_parse_printed SENTRY_JSON_MAX_DEPTH_def)
qed

text \<open>The text of a value is one line.\<close>

lemma commas_set: "set (commas ts) \<subseteq> insert CHR '','' (\<Union> (set ` set ts))"
  by (induction ts rule: commas.induct) auto

lemma hex_byte_not_nl: "CHR 0x0A \<notin> set (hex_byte c)"
  using hex_byte_isxdigit [of c] by (auto simp: list_all_iff isxdigit_def isdigit_def)

lemma escape_not_nl: "CHR 0x0A \<notin> set (escape s)"
proof -
  have "CHR 0x0A \<notin> set (if needs_escaping ! code c then escape_char c else [c])" for c
    using hex_byte_not_nl [of c] by (auto simp: escape_char_def needs_escaping_iff)
  then show ?thesis unfolding escape_def set_concat set_map by blast
qed

lemma number_not_nl: "CHR 0x0A \<notin> set (dec_str n)" "CHR 0x0A \<notin> set (int_str i)"
proof -
  have d: "CHR 0x0A \<notin> set (dec_str n)" for n using dec_str_digits [of n] by (auto simp: list_all_iff isdigit_def)
  then show "CHR 0x0A \<notin> set (dec_str n)" "CHR 0x0A \<notin> set (int_str i)" by (auto simp: int_str_def)
qed

lemma json_text_one_line: "CHR 0x0A \<notin> set (json_text fd v)"
proof (induction v)
  case (VList f xs)
  then show ?case using commas_set [of "map (json_text fd) xs"] by auto
next
  case (VObject f ps)
  have "CHR 0x0A \<notin> set (quoted k @ '':'' @ json_text fd v)" if "(k, v) \<in> set ps" for k v
    using VObject [OF that, of v] escape_not_nl [of k] by (auto simp: quoted_def)
  then have "\<forall>t \<in> set (map (\<lambda>(k, v). quoted k @ '':'' @ json_text fd v) ps). CHR 0x0A \<notin> set t" by auto
  then show ?case using commas_set [of "map (\<lambda>(k, v). quoted k @ '':'' @ json_text fd v) ps"] by auto
qed (auto simp: number_not_nl escape_not_nl quoted_def number_text_def list_all_iff isdigit_def)

text \<open>C5. Serialising a value and reading it back gives the value: for every value with distinct keys, of at most 63
  levels of nesting, whose text is below 2 GiB, \<open>sentry__value_to_json\<close> returns \<open>NULL\<close> only if an allocation failed, and
  otherwise \<open>sentry__value_from_json\<close> of the text is an unfrozen copy of the value in which every integer has the
  narrowest type that holds it and every double is the number that its text denotes.\<close>

theorem json_roundtrip:
  assumes "malloc_sized malloc" "json_safe fd v" "value_depth v < 64" "length (json_text fd v) < 2 ^ 31"
  shows "case sentry__value_to_json malloc fd v of
      (None, n) \<Rightarrow> \<exists>m. malloc m = None
    | (Some b, n) \<Rightarrow> sentry__value_from_json strtod (take n b) = reread fd strtod v"
proof -
  have p: "json_print fd 0 v = json_text fd v" using json_print_text [of fd v 0] assms by simp
  have "value_depth v < 2 ^ 32" "length (json_text fd v) < SIZE_MAX"
    using assms(3,4) by (simp_all add: SIZE_MAX_def)
  with value_to_json_exact [OF assms(1), of v fd] from_json_safe [OF assms(2,3), of strtod] p show ?thesis
    by (auto split: prod.splits option.splits)
qed

text \<open>One half as a concrete double for the witnesses, with the texts that \<open>%.16g\<close> and \<open>strtod\<close> give it.\<close>

lemma half_text: "number_text ''0.5''" "double_text (\<lambda>_. ''0.5'') 0x3FE0000000000000 = ''0.5''"
proof -
  have "double_is_finite 0x3FE0000000000000" by code_simp
  then show "number_text ''0.5''" "double_text (\<lambda>_. ''0.5'') 0x3FE0000000000000 = ''0.5''"
    by (simp_all add: number_text_def isdigit_def double_text_def)
qed

lemma half_reread: "reread (\<lambda>_. ''0.5'') (\<lambda>_. 0x3FE0000000000000) (VDouble 0x3FE0000000000000) = VDouble 0x3FE0000000000000"
proof (rule reread_double)
  show "double_is_finite 0x3FE0000000000000" by code_simp
qed (use half_text in \<open>simp_all add: isdigit_def\<close>)

theorem json_roundtrip_witness:
  "\<exists>b n. sentry__value_to_json (\<lambda>n. Some (replicate n CHR ''?'')) (\<lambda>_. ''0.5'')
       (VObject True [(''a'', VList False [VInt64 7, VDouble 0x3FE0000000000000, VString [CHR 0x22, CHR 0x00]])]) = (Some b, n)
     \<and> sentry__value_from_json (\<lambda>_. 0x3FE0000000000000) (take n b)
       = VObject False [(''a'', VList False [VInt32 7, VDouble 0x3FE0000000000000, VString [CHR 0x22, CHR 0x00]])]"
proof -
  let ?v = "VObject True [(''a'', VList False [VInt64 7, VDouble 0x3FE0000000000000, VString [CHR 0x22, CHR 0x00]])]"
  let ?fd = "\<lambda>_ :: double. ''0.5''" and ?sd = "\<lambda>_ :: string. 0x3FE0000000000000 :: double"
  have "length (json_text ?fd ?v) < 2 ^ 31"
    by (simp add: quoted_def escape_def needs_escaping_iff escape_char_def hex_byte_def int_str_def dec_str.simps half_text)
  moreover have "json_safe ?fd ?v" "value_depth ?v < 64" by (simp_all add: keys_ok_def half_text)
  ultimately have "case sentry__value_to_json (\<lambda>n. Some (replicate n CHR ''?'')) ?fd ?v of
      (None, n) \<Rightarrow> \<exists>m. (\<lambda>n. Some (replicate n CHR ''?'')) m = None
    | (Some b, n) \<Rightarrow> sentry__value_from_json ?sd (take n b) = reread ?fd ?sd ?v"
    by (intro json_roundtrip) (simp_all add: malloc_sized_def)
  then show ?thesis using half_reread by (auto simp del: reread.simps(3) split: prod.splits option.splits)
qed


section \<open>Arbitrary input\<close>

text \<open>What holds of the tokenizer on every input: every token lies inside the text that was read, an
  unclosed one has no end yet, and the superior token exists.\<close>

definition tok_in :: "nat \<Rightarrow> jsmntok_t \<Rightarrow> bool" where
  "tok_in p t \<longleftrightarrow> 0 \<le> tok_start t \<and> tok_start t \<le> int p
     \<and> (tok_end t = -1 \<or> tok_start t \<le> tok_end t \<and> tok_end t \<le> int p)
     \<and> (tok_type t = JSMN_PRIMITIVE \<longrightarrow> tok_start t < tok_end t)"

definition jsmn_inv :: "nat \<Rightarrow> jsmn_parser \<Rightarrow> bool" where
  "jsmn_inv n st \<longleftrightarrow> list_all (tok_in (pos st)) (tokens st) \<and> count st = length (tokens st) \<and> length (tokens st) \<le> n
     \<and> (case toksuper st of None \<Rightarrow> True | Some i \<Rightarrow> i < length (tokens st))"

lemma tok_in_mono: "tok_in p t \<Longrightarrow> p \<le> q \<Longrightarrow> tok_in q t"
  by (auto simp: tok_in_def)

lemma list_all_update: "list_all P xs \<Longrightarrow> P y \<Longrightarrow> list_all P (xs[i := y])"
  by (auto simp: list_all_iff dest!: set_update_subset_insert [THEN subsetD])

lemma inc_super_in: "list_all (tok_in p) ts \<Longrightarrow> list_all (tok_in p) (inc_super sp ts)"
proof (cases sp)
  case (Some i)
  assume ts: "list_all (tok_in p) ts"
  then show ?thesis
  proof (cases "i < length ts")
    case True
    with ts have "tok_in p (ts ! i)" by (simp add: list_all_length)
    with ts Some show ?thesis by (auto simp: inc_super_def tok_in_def intro!: list_all_update)
  qed (use ts in \<open>simp add: inc_super_def Some list_update_beyond\<close>)
qed (simp add: inc_super_def)

lemma scan_back_bound: "scan_back p ts n = Some i \<Longrightarrow> i < n \<and> p (ts ! i)"
  by (induction n) (auto split: if_splits)

lemma jsmn_alloc_inv:
  assumes "jsmn_inv n st" "jsmn_alloc_token (Some n) st t = Inr st'" "tok_in q t" "pos st \<le> q"
    "sp = toksuper st \<or> sp = Some (length (tokens st') - 1)"
  shows "jsmn_inv n (st'\<lparr>pos := q, count := count st + 1, toksuper := sp\<rparr>)"
proof -
  have "list_all (tok_in q) (tokens st)"
    using assms(1,4) tok_in_mono by (auto simp: jsmn_inv_def list_all_iff)
  then have "list_all (tok_in q) (inc_super (toksuper st) (tokens st))" by (rule inc_super_in)
  then show ?thesis
    using assms by (auto simp: jsmn_inv_def jsmn_alloc_token_def split: if_splits option.splits)
qed

lemma jsmn_open_inv:
  assumes "jsmn_inv n st" "jsmn_open (Some n) c st = Inr st'"
  shows "jsmn_inv n st' \<and> pos st' = pos st + 1"
proof -
  let ?t = "\<lparr>tok_type = (if c = CHR ''{'' then JSMN_OBJECT else JSMN_ARRAY), tok_start = int (pos st), tok_end = -1, tok_size = 0\<rparr>"
  from assms(2) obtain st1 where s: "jsmn_alloc_token (Some n) st ?t = Inr st1"
      "st' = st1\<lparr>pos := pos st + 1, count := count st + 1, toksuper := Some (length (tokens st1) - 1)\<rparr>"
    by (auto simp: jsmn_open_def split: sum.splits)
  have "tok_in (pos st + 1) ?t" by (simp add: tok_in_def)
  from jsmn_alloc_inv [OF assms(1) s(1) this] s(2) show ?thesis by simp
qed

lemma jsmn_leaf_inv:
  "\<lbrakk>jsmn_inv n st; jsmn_leaf (Some n) type a l k st = Inr st'; a + l \<le> k; type = JSMN_PRIMITIVE \<longrightarrow> 0 < l\<rbrakk> \<Longrightarrow>
     jsmn_inv n st' \<and> pos st' = pos st + k"
proof -
  assume a: "jsmn_inv n st" "jsmn_leaf (Some n) type a l k st = Inr st'" "a + l \<le> k" "type = JSMN_PRIMITIVE \<longrightarrow> 0 < l"
  let ?t = "\<lparr>tok_type = type, tok_start = int (pos st + a), tok_end = int (pos st + a + l), tok_size = 0\<rparr>"
  from a(2) obtain st1 where s: "jsmn_alloc_token (Some n) st ?t = Inr st1" "st' = st1\<lparr>pos := pos st + k, count := count st + 1\<rparr>"
    by (auto simp: jsmn_leaf_def split: sum.splits)
  have "tok_in (pos st + k) ?t" using a(3,4) by (auto simp: tok_in_def)
  from jsmn_alloc_inv [OF a(1) s(1) this] have "jsmn_inv n (st1\<lparr>pos := pos st + k, count := count st + 1, toksuper := toksuper st\<rparr>)"
    by simp
  moreover have "toksuper st1 = toksuper st"
    using s(1) by (auto simp: jsmn_alloc_token_def split: if_splits)
  ultimately show ?thesis using s(2) by (simp add: jsmn_inv_def split: option.splits)
qed


lemma jsmn_inv_pos: "jsmn_inv n st \<Longrightarrow> pos st \<le> q \<Longrightarrow> jsmn_inv n (st\<lparr>pos := q\<rparr>)"
  using tok_in_mono by (auto simp: jsmn_inv_def list_all_iff split: option.splits)

lemma jsmn_close_inv:
  assumes "jsmn_inv n st" "jsmn_close (Some n) c st = Inr st'"
  shows "jsmn_inv n st' \<and> pos st' = pos st + 1"
proof -
  from assms(2) obtain i where i: "scan_back tok_open (tokens st) (length (tokens st)) = Some i"
      and st': "st' = st\<lparr>pos := pos st + 1, tokens := (tokens st)[i := (tokens st ! i)\<lparr>tok_end := int (pos st) + 1\<rparr>],
        toksuper := scan_back tok_open ((tokens st)[i := (tokens st ! i)\<lparr>tok_end := int (pos st) + 1\<rparr>]) (i + 1)\<rparr>"
    by (auto simp: jsmn_close_def Let_def split: option.splits if_splits)
  have b: "i < length (tokens st)" using scan_back_bound [OF i] by simp
  then have "tok_in (pos st) (tokens st ! i)" using assms(1) by (simp add: jsmn_inv_def list_all_length)
  then have "tok_in (pos st + 1) ((tokens st ! i)\<lparr>tok_end := int (pos st) + 1\<rparr>)" by (auto simp: tok_in_def)
  moreover have "list_all (tok_in (pos st + 1)) (tokens st)"
    using assms(1) tok_in_mono by (fastforce simp: jsmn_inv_def list_all_iff)
  ultimately have "list_all (tok_in (pos st + 1)) (tokens st')"
    unfolding st' by (simp add: list_all_update)
  moreover have "j < length (tokens st)" if "toksuper st' = Some j" for j
    using that b by (auto simp: st' simp del: scan_back.simps dest!: scan_back_bound)
  moreover have "pos st' = pos st + 1" "count st' = count st" "length (tokens st') = length (tokens st)"
    by (simp_all add: st')
  ultimately show ?thesis
    using assms(1) unfolding jsmn_inv_def by (simp split: option.splits)
qed

lemma jsmn_comma_inv: "jsmn_inv n st \<Longrightarrow> jsmn_inv n (jsmn_comma (Some n) st) \<and> pos (jsmn_comma (Some n) st) = pos st + 1"
  using jsmn_inv_pos [of n st "pos st + 1"] scan_back_bound
  by (fastforce simp: jsmn_comma_def Let_def jsmn_inv_def split: option.splits)

lemma jsmn_colon_inv: "jsmn_inv n st \<Longrightarrow> jsmn_inv n (jsmn_colon st) \<and> pos (jsmn_colon st) = pos st + 1"
  using jsmn_inv_pos [of n st "pos st + 1"]
  by (auto simp: jsmn_colon_def jsmn_inv_def split: list.splits)

lemma str_scan_bound: "str_scan s = Inr k \<Longrightarrow> k < length s"
proof (induction s arbitrary: k rule: str_scan.induct)
  case (1 s)
  note d = "1.prems" [unfolded str_scan.simps [of s]]
  show ?case
  proof (cases s)
    case (Cons c s')
    consider "c = CHR 0x22" | (esc) "c = CHR 0x5C" "s' \<noteq> []" | (plain) "c \<noteq> CHR 0x22" "\<not> (c = CHR 0x5C \<and> s' \<noteq> [])" by blast
    then show ?thesis
    proof cases
      case esc
      then obtain e r where s': "s' = e # r" by (cases s') auto
      show ?thesis
      proof (cases "escape_symbol e")
        case True
        with d Cons esc s' "1.IH"(1) [OF Cons] show ?thesis by (auto split: if_splits sum.splits simp: map_sum_def)
      next
        case False
        with d Cons esc s' obtain j m where j: "e = CHR ''u''" "hex_scan 4 r = Some j" "str_scan (drop j r) = Inr m" "k = 2 + j + m"
          by (auto split: if_splits option.splits simp: map_sum_def split: sum.splits)
        have "m < length (drop j r)" using "1.IH"(2) [OF Cons] esc s' False j by simp
        with j Cons s' show ?thesis by simp
      qed
    qed (use d Cons "1.IH"(3) [OF Cons] in \<open>auto split: if_splits sum.splits simp: map_sum_def\<close>)
  qed (use d in simp)
qed

lemma prim_scan_bound: "prim_scan s = Some k \<Longrightarrow> k \<le> length s"
  by (induction s arbitrary: k) (auto split: if_splits)

lemma prim_scan_pos: "\<lbrakk>prim_scan (c # s) = Some k; c \<noteq> CHR 0x00; \<not> prim_end c\<rbrakk> \<Longrightarrow> 0 < k"
  by (auto split: if_splits)


lemma jsmn_loop_inv:
  "\<lbrakk>jsmn_loop (Some n) s st = Inr st'; jsmn_inv n st\<rbrakk> \<Longrightarrow> jsmn_inv n st' \<and> pos st' \<le> pos st + length s"
proof (induction "Some n" s st rule: jsmn_loop.induct)
  case (1 s st)
  note d = "1.prems"(1) [unfolded jsmn_loop.simps [of _ s st]]
  show ?case
  proof (cases s)
    case Nil
    with d "1.prems"(2) show ?thesis by simp
  next
    case (Cons c s')
    note ih = "1.hyps" [OF Cons]
    have step: ?thesis
      if "jsmn_loop (Some n) r st1 = Inr st'" "jsmn_inv n st1" "pos st1 + length r \<le> pos st + length s"
        "jsmn_loop (Some n) r st1 = Inr st' \<Longrightarrow> jsmn_inv n st1 \<Longrightarrow> jsmn_inv n st' \<and> pos st' \<le> pos st1 + length r" for r st1
      using that by force
    consider (nul) "c = CHR 0x00" | (opn) "c = CHR ''{'' \<or> c = CHR ''[''" | (cls) "c = CHR ''}'' \<or> c = CHR '']''"
      | (str) "c = CHR 0x22" | (bl) "blank c" | (col) "c = CHR '':''" | (com) "c = CHR '',''"
      | (prim) "c \<noteq> CHR 0x00" "\<not> (c = CHR ''{'' \<or> c = CHR ''['')" "\<not> (c = CHR ''}'' \<or> c = CHR '']'')" "c \<noteq> CHR 0x22"
        "\<not> blank c" "c \<noteq> CHR '':''" "c \<noteq> CHR '',''"
      by blast
    then show ?thesis
    proof cases
      case nul
      with d Cons "1.prems"(2) show ?thesis by simp
    next
      case opn
      with d Cons obtain st1 where o: "jsmn_open (Some n) c st = Inr st1" "jsmn_loop (Some n) s' st1 = Inr st'"
        by (auto split: sum.splits)
      show ?thesis using step [OF o(2)] jsmn_open_inv [OF "1.prems"(2) o(1)] ih(1) [OF _ opn o(1)] opn Cons by auto
    next
      case cls
      then have n: "c \<noteq> CHR 0x00" "\<not> (c = CHR ''{'' \<or> c = CHR ''['')" by auto
      with d Cons cls obtain st1 where o: "jsmn_close (Some n) c st = Inr st1" "jsmn_loop (Some n) s' st1 = Inr st'"
        by (auto split: sum.splits)
      show ?thesis using step [OF o(2)] jsmn_close_inv [OF "1.prems"(2) o(1)] ih(2) [OF n cls o(1)] Cons by auto
    next
      case str
      with d Cons obtain k st1 where o: "str_scan s' = Inr k" "jsmn_leaf (Some n) JSMN_STRING 1 k (k + 2) st = Inr st1"
          "jsmn_loop (Some n) (drop (k + 1) s') st1 = Inr st'"
        by (auto split: sum.splits)
      show ?thesis using step [OF o(3)] jsmn_leaf_inv [OF "1.prems"(2) o(2)] str_scan_bound [OF o(1)]
          ih(3) [OF _ _ _ str o(1,2)] str Cons by auto
    next
      case bl
      with d Cons have o: "jsmn_loop (Some n) s' (st\<lparr>pos := pos st + 1\<rparr>) = Inr st'" by (auto simp: blank_def)
      show ?thesis using step [OF o] jsmn_inv_pos [OF "1.prems"(2), of "pos st + 1"] ih(4) bl Cons by (auto simp: blank_def)
    next
      case col
      with d Cons have o: "jsmn_loop (Some n) s' (jsmn_colon st) = Inr st'" by (auto simp: blank_def)
      show ?thesis using step [OF o] jsmn_colon_inv [OF "1.prems"(2)] ih(5) col Cons by (auto simp: blank_def)
    next
      case com
      with d Cons have o: "jsmn_loop (Some n) s' (jsmn_comma (Some n) st) = Inr st'" by (auto simp: blank_def)
      show ?thesis using step [OF o] jsmn_comma_inv [OF "1.prems"(2)] ih(6) com Cons by (auto simp: blank_def)
    next
      case prim
      with d Cons obtain k st1 where o: "prim_scan s = Some k" "jsmn_leaf (Some n) JSMN_PRIMITIVE 0 k k st = Inr st1"
          "jsmn_loop (Some n) (drop k s) st1 = Inr st'"
        by (auto split: sum.splits option.splits)
      have k: "0 < k" "k \<le> length s"
        using prim_scan_pos [of c s' k] prim_scan_bound [OF o(1)] o(1) prim Cons by (auto simp: prim_end_def blank_def)
      show ?thesis using step [OF o(3)] jsmn_leaf_inv [OF "1.prems"(2) o(2)] k
          ih(7) [OF prim o(1,2)] Cons by auto
    qed
  qed
qed


text \<open>C26. Memory safety of the tokenizer on any text below 2 GiB, where the positions fit the \<open>int\<close> members of a token: with an
  array of \<open>n\<close> tokens the parser either reports an error, or fills \<open>k \<le> n\<close> tokens, each a range inside the text whose
  bounds are \<open>int\<close> values, and every primitive token is not empty, so that every access of \<open>tokens_to_value\<close> to the text
  is in bounds.\<close>

theorem jsmn_tokens_in_bounds:
  assumes small: "length js < 2 ^ 31"
  shows "case jsmn_parse (Some n) js of
     Inl _ \<Rightarrow> True
   | Inr (k, ts) \<Rightarrow> k = length ts \<and> k \<le> n
       \<and> list_all (\<lambda>t. 0 \<le> tok_start t \<and> tok_start t \<le> tok_end t \<and> tok_end t \<le> int (length js) \<and> tok_end t < 2 ^ 31
           \<and> (if tok_type t = JSMN_PRIMITIVE then tok_start t < tok_end t else True)) ts"
proof (cases "jsmn_loop (Some n) js jsmn_init")
  case (Inr st)
  have "jsmn_inv n jsmn_init" by (simp add: jsmn_inv_def jsmn_init_def)
  with jsmn_loop_inv [OF Inr] have i: "jsmn_inv n st" "pos st \<le> length js" by (simp_all add: jsmn_init_def)
  have open_at: "scan_back tok_open ts (length ts) \<noteq> None" if "i < length ts" "tok_open (ts ! i)" for i ts
  proof -
    have "n \<le> length ts \<Longrightarrow> i < n \<Longrightarrow> scan_back tok_open ts n \<noteq> None" for n
      using that(2) by (induction n) (auto simp: less_Suc_eq)
    with that(1) show ?thesis by simp
  qed
  show ?thesis
  proof (cases "scan_back tok_open (tokens st) (length (tokens st)) = None")
    case True
    then have "\<not> tok_open t" if "t \<in> set (tokens st)" for t
      using that open_at by (metis in_set_conv_nth)
    with i have "0 \<le> tok_start t \<and> tok_start t \<le> tok_end t \<and> tok_end t \<le> int (length js)
        \<and> (tok_type t = JSMN_PRIMITIVE \<longrightarrow> tok_start t < tok_end t)" if "t \<in> set (tokens st)" for t
      using that by (fastforce simp: jsmn_inv_def list_all_iff tok_in_def tok_open_def)
    moreover have "int (length js) < 2 ^ 31" using small by (metis of_nat_less_iff of_nat_numeral of_nat_power)
    ultimately show ?thesis
      using i True by (fastforce simp: jsmn_parse_def Inr jsmn_inv_def list_all_iff)
  next
    case False
    then show ?thesis by (auto simp: jsmn_parse_def Inr)
  qed
qed (simp add: jsmn_parse_def)

theorem jsmn_tokens_in_bounds_witness:
  "case jsmn_parse (Some 2) ''[7]'' of
     Inl _ \<Rightarrow> True
   | Inr (k, ts) \<Rightarrow> k \<le> 2 \<and> list_all (\<lambda>t. 0 \<le> tok_start t \<and> tok_start t \<le> tok_end t \<and> tok_end t \<le> 3) ts"
  using jsmn_tokens_in_bounds [of "''[7]''" 2] by (auto simp: list_all_iff split: sum.splits)

text \<open>The nesting of what is read.\<close>

lemma depth_append: "value_depth rv \<le> Suc k \<Longrightarrow> value_depth c \<le> k \<Longrightarrow> value_depth (snd (sentry_value_append rv c)) \<le> Suc k"
proof -
  assume a: "value_depth rv \<le> Suc k" "value_depth c \<le> k"
  have m: "foldr max (xs @ [y]) 0 = max (foldr max xs 0) y" for xs and y :: nat by (induction xs) auto
  show ?thesis using a by (cases "(rv, c)" rule: sentry_value_append.cases) (auto simp: m simp del: foldr_append)
qed

lemma depth_obj_set:
  "foldr max (map (\<lambda>(k, v). value_depth v) ps) 0 \<le> n \<Longrightarrow> value_depth c \<le> n \<Longrightarrow>
     foldr max (map (\<lambda>(k, v). value_depth v) (obj_set ps k c)) 0 \<le> n"
  by (induction ps k c rule: obj_set.induct) auto

lemma depth_set: "value_depth rv \<le> Suc n \<Longrightarrow> value_depth c \<le> n \<Longrightarrow> value_depth (snd (sentry_value_set_by_key rv k c)) \<le> Suc n"
  by (cases "(rv, k, c)" rule: sentry_value_set_by_key_n.cases) (auto intro: depth_obj_set)

lemma list_loop_depth:
  assumes "\<And>ts v r. f ts = Some (v, r) \<Longrightarrow> value_depth v \<le> k"
  shows "list_loop f n ts rv = Some (v, r) \<Longrightarrow> value_depth rv \<le> Suc k \<Longrightarrow> value_depth v \<le> Suc k"
  by (induction n arbitrary: ts rv) (auto split: option.splits dest: assms intro: depth_append)

lemma object_loop_depth:
  assumes "\<And>ts v r. f ts = Some (v, r) \<Longrightarrow> value_depth v \<le> k"
  shows "object_loop buf f n ts rv = Some (v, r) \<Longrightarrow> value_depth rv \<le> Suc k \<Longrightarrow> value_depth v \<le> Suc k"
proof (induction n arbitrary: ts rv)
  case (Suc n)
  from Suc.prems(1) obtain t r1 c r2 where f: "ts = t # r1" "f r1 = Some (c, r2)"
    and o: "object_loop buf f n r2 (case decode_string_inplace (tok_text buf t) of
        Some key \<Rightarrow> snd (sentry_value_set_by_key rv (cstr key) c) | None \<Rightarrow> rv) = Some (v, r)"
    by (auto split: option.splits list.splits if_splits)
  have "value_depth (case decode_string_inplace (tok_text buf t) of
        Some key \<Rightarrow> snd (sentry_value_set_by_key rv (cstr key) c) | None \<Rightarrow> rv) \<le> Suc k"
    using Suc.prems(2) depth_set [OF Suc.prems(2) assms [OF f(2)]] by (simp split: option.splits)
  with Suc.IH [OF o] show ?case by simp
qed simp

lemma parse_number_depth: "value_depth (parse_number sd s) = 0"
  by (simp add: parse_number_def Let_def split: prod.splits)

lemma tokens_to_value_depth: "tokens_to_value sd buf k ts = Some (v, r) \<Longrightarrow> value_depth v \<le> k"
proof (induction k arbitrary: ts v r)
  case 0
  then show ?case
    by (auto simp: token_value_def Let_def parse_number_depth split: list.splits jsmntype_t.splits option.splits if_splits)
next
  case (Suc k)
  then obtain root rest where ts: "ts = root # rest" by (cases ts) auto
  show ?case
  proof (cases "tok_type root")
    case JSMN_OBJECT
    with Suc.prems ts have "object_loop buf (tokens_to_value sd buf k) (tok_size root) rest (VObject False []) = Some (v, r)"
      by (simp add: token_value_def)
    from object_loop_depth [OF Suc.IH this] show ?thesis by simp
  next
    case JSMN_ARRAY
    with Suc.prems ts have "list_loop (tokens_to_value sd buf k) (tok_size root) rest (VList False []) = Some (v, r)"
      by (simp add: token_value_def)
    from list_loop_depth [OF Suc.IH this] show ?thesis by simp
  qed (use Suc.prems ts in \<open>auto simp: token_value_def Let_def parse_number_depth split: option.splits if_splits\<close>)
qed

text \<open>C38. The recursion of the reader is bounded on arbitrary input: whatever the text, the value read
  nests at most 64 levels deep.\<close>

theorem from_json_depth: "value_depth (sentry__value_from_json strtod buf) \<le> SENTRY_JSON_MAX_DEPTH"
  using tokens_to_value_depth [of strtod buf SENTRY_JSON_MAX_DEPTH]
  by (fastforce simp: sentry__value_from_json_def split: sum.splits prod.splits option.splits list.splits if_splits)

end
