(* ===== verification/ValueOps.thy ===== *)
theory ValueOps
  imports Values Uuids "HOL-Library.Multiset"
begin

text \<open>
  The operations of \<open>sentry_value.c\<close> that are written over the value interface: constructors of
  events, users, threads and feedback, attributes, conversion to text, merging of objects and of
  breadcrumb lists.  Strings are passed as an optional pointer with a length, as in the source; the
  timestamp text and new identifiers are arguments.  A child object that the code changes through
  its pointer is put back into its parent with \<open>put_child\<close>.
\<close>

section \<open>Constructors\<close>

definition sentry_value_new_string_n :: "string option \<Rightarrow> nat \<Rightarrow> sentry_value" where
  "sentry_value_new_string_n s n = (case s of None \<Rightarrow> VNull | Some s \<Rightarrow> VString (take n s))"

definition sentry_value_new_string :: "string option \<Rightarrow> sentry_value" where
  "sentry_value_new_string s = (case s of None \<Rightarrow> VNull | Some s \<Rightarrow> VString (cstr s))"

abbreviation str_value :: "string \<Rightarrow> sentry_value" where
  "str_value s \<equiv> sentry_value_new_string (Some s)"

definition sentry__guarded_strlen :: "string option \<Rightarrow> nat" where
  "sentry__guarded_strlen s = (case s of None \<Rightarrow> 0 | Some s \<Rightarrow> length (cstr s))"

definition sentry_value_new_list :: sentry_value where
  "sentry_value_new_list = VList False []"

definition sentry_value_new_object :: sentry_value where
  "sentry_value_new_object = VObject False []"

text \<open>\<open>if (c) sentry_value_set_by_key(rv, k, v)\<close>.\<close>

definition set_if :: "bool \<Rightarrow> string \<Rightarrow> sentry_value \<Rightarrow> sentry_value \<Rightarrow> sentry_value" where
  "set_if c k v rv = (if c then set_key k v rv else rv)"

definition sentry_value_new_user_n ::
  "string option \<Rightarrow> nat \<Rightarrow> string option \<Rightarrow> nat \<Rightarrow> string option \<Rightarrow> nat \<Rightarrow> string option \<Rightarrow> nat \<Rightarrow> sentry_value" where
  "sentry_value_new_user_n ident ident_len username username_len email email_len ip_address ip_address_len =
     (let rv = set_if (ident \<noteq> None) ''id'' (sentry_value_new_string_n ident ident_len) sentry_value_new_object;
          rv = set_if (username \<noteq> None \<and> username_len \<noteq> 0) ''username'' (sentry_value_new_string_n username username_len) rv;
          rv = set_if (email \<noteq> None \<and> email_len \<noteq> 0) ''email'' (sentry_value_new_string_n email email_len) rv;
          rv = set_if (ip_address \<noteq> None \<and> ip_address_len \<noteq> 0) ''ip_address''
                 (sentry_value_new_string_n ip_address ip_address_len) rv
      in if \<not> sentry_value_is_true rv then VNull else rv)"

definition sentry_value_new_user ::
  "string option \<Rightarrow> string option \<Rightarrow> string option \<Rightarrow> string option \<Rightarrow> sentry_value" where
  "sentry_value_new_user ident username email ip_address =
     sentry_value_new_user_n ident (sentry__guarded_strlen ident) username (sentry__guarded_strlen username)
       email (sentry__guarded_strlen email) ip_address (sentry__guarded_strlen ip_address)"

fun attribute_value_type_to_str :: "sentry_value \<Rightarrow> string option" where
  "attribute_value_type_to_str value =
     (case sentry_value_get_type value of
        SENTRY_VALUE_TYPE_BOOL \<Rightarrow> Some ''boolean''
      | SENTRY_VALUE_TYPE_INT32 \<Rightarrow> Some ''integer''
      | SENTRY_VALUE_TYPE_INT64 \<Rightarrow> Some ''integer''
      | SENTRY_VALUE_TYPE_UINT64 \<Rightarrow> Some ''integer''
      | SENTRY_VALUE_TYPE_DOUBLE \<Rightarrow> Some ''double''
      | SENTRY_VALUE_TYPE_STRING \<Rightarrow> Some ''string''
      | SENTRY_VALUE_TYPE_LIST \<Rightarrow>
          let first_item = sentry_value_get_by_index value 0 in
          if sentry_value_is_null first_item then None
          else (case sentry_value_get_type first_item of
                  SENTRY_VALUE_TYPE_BOOL \<Rightarrow> Some ''array''
                | SENTRY_VALUE_TYPE_INT32 \<Rightarrow> Some ''array''
                | SENTRY_VALUE_TYPE_INT64 \<Rightarrow> Some ''array''
                | SENTRY_VALUE_TYPE_DOUBLE \<Rightarrow> Some ''array''
                | SENTRY_VALUE_TYPE_STRING \<Rightarrow> Some ''array''
                | _ \<Rightarrow> None)
      | _ \<Rightarrow> None)"

definition sentry_value_new_attribute_n :: "sentry_value \<Rightarrow> string option \<Rightarrow> nat \<Rightarrow> sentry_value" where
  "sentry_value_new_attribute_n value unit unit_len =
     (case attribute_value_type_to_str value of
        None \<Rightarrow> VNull
      | Some type \<Rightarrow>
          let attribute = set_key ''type'' (sentry_value_new_string_n (Some type) (length type)) sentry_value_new_object;
              attribute = set_key ''value'' value attribute
          in set_if (unit \<noteq> None \<and> unit_len \<noteq> 0) ''unit'' (sentry_value_new_string_n unit unit_len) attribute)"

definition sentry__value_add_attribute ::
  "sentry_value \<Rightarrow> sentry_value \<Rightarrow> string \<Rightarrow> string \<Rightarrow> sentry_value" where
  "sentry__value_add_attribute attributes value type name =
     (if \<not> sentry_value_is_null (sentry_value_get_by_key attributes name) then attributes
      else
        let param_obj = set_key ''value'' value sentry_value_new_object;
            param_obj = set_key ''type'' (str_value type) param_obj
        in set_key name param_obj attributes)"

text \<open>The number of bytes \<open>snprintf\<close> would write decides whether the text fits the 24 bytes.\<close>

definition stringify_numeric :: "string \<Rightarrow> string" where
  "stringify_numeric t = (if length t \<ge> 24 then [] else cstr t)"

definition sentry__value_stringify :: "(double \<Rightarrow> string) \<Rightarrow> sentry_value \<Rightarrow> string" where
  "sentry__value_stringify fmt_g value =
     (case value of
        VNull \<Rightarrow> [] | VList _ _ \<Rightarrow> [] | VObject _ _ \<Rightarrow> []
      | VBool b \<Rightarrow> if sentry_value_is_true value then ''true'' else ''false''
      | VString s \<Rightarrow> sentry_value_as_string value
      | VInt64 i \<Rightarrow> stringify_numeric (int_str (sint (sentry_value_as_int64 value)))
      | VUint64 i \<Rightarrow> stringify_numeric (dec_str (unat (sentry_value_as_uint64 value)))
      | VInt32 i \<Rightarrow> stringify_numeric (int_str (sint (sentry_value_as_int32 value)))
      | VDouble d \<Rightarrow> stringify_numeric (fmt_g (sentry_value_as_double value)))"


section \<open>Events\<close>

text \<open>The conversion of an address, into a buffer of 32 bytes.\<close>

definition sentry__value_new_addr :: "string \<Rightarrow> u64 \<Rightarrow> sentry_value" where
  "sentry__value_new_addr buf addr = str_value (sentry__addr_to_string buf 32 addr)"

definition sentry__value_new_hexstring :: "string \<Rightarrow> sentry_value" where
  "sentry__value_new_hexstring bs = VString (concat (map hex_byte bs))"

definition sentry__value_new_span_uuid :: "sentry_uuid_t \<Rightarrow> sentry_value" where
  "sentry__value_new_span_uuid uuid = sentry_value_new_string_n (Some (sentry__span_uuid_as_string uuid)) 16"

definition sentry__value_new_internal_uuid :: "sentry_uuid_t \<Rightarrow> sentry_value" where
  "sentry__value_new_internal_uuid uuid = sentry_value_new_string_n (Some (sentry__internal_uuid_as_string uuid)) 32"

definition sentry__value_new_uuid :: "sentry_uuid_t \<Rightarrow> sentry_value" where
  "sentry__value_new_uuid uuid = sentry_value_new_string_n (Some (sentry_uuid_as_string uuid)) 36"

definition sentry__value_as_uuid :: "sentry_value \<Rightarrow> sentry_uuid_t" where
  "sentry__value_as_uuid value = sentry_uuid_from_string (Some (sentry_value_as_string value))"

definition sentry__value_new_level :: "sentry_level_t \<Rightarrow> sentry_value" where
  "sentry__value_new_level level = str_value (level_as_string level)"

text \<open>\<open>now\<close> is the text of the current time, absent if it could not be formatted.\<close>

definition sentry__value_new_event_with_id :: "string option \<Rightarrow> sentry_uuid_t \<Rightarrow> sentry_value" where
  "sentry__value_new_event_with_id now event_id =
     set_key ''platform'' (str_value ''native'')
       (set_key ''timestamp'' (sentry_value_new_string now)
         (set_key ''event_id'' (sentry__value_new_uuid event_id) sentry_value_new_object))"

definition sentry_value_new_message_event_n ::
  "string option \<Rightarrow> sentry_uuid_t \<Rightarrow> sentry_level_t \<Rightarrow> string option \<Rightarrow> nat \<Rightarrow> string option \<Rightarrow> nat \<Rightarrow> sentry_value" where
  "sentry_value_new_message_event_n now event_id level logger logger_len txt txt_len =
     (let rv = sentry__value_new_event_with_id now event_id;
          rv = set_key ''level'' (sentry__value_new_level level) rv;
          rv = set_if (logger \<noteq> None) ''logger'' (sentry_value_new_string_n logger logger_len) rv;
          container = set_key ''formatted'' (sentry_value_new_string_n txt txt_len) sentry_value_new_object
      in set_if (txt \<noteq> None) ''message'' container rv)"

definition timestamp_value :: "string option \<Rightarrow> sentry_value \<Rightarrow> sentry_value" where
  "timestamp_value now value = set_key ''timestamp'' (sentry_value_new_string now) value"

definition sentry_value_new_breadcrumb_n ::
  "string option \<Rightarrow> string option \<Rightarrow> nat \<Rightarrow> string option \<Rightarrow> nat \<Rightarrow> sentry_value" where
  "sentry_value_new_breadcrumb_n now type type_len message message_len =
     (let rv = timestamp_value now sentry_value_new_object;
          rv = set_if (type \<noteq> None) ''type'' (sentry_value_new_string_n type type_len) rv
      in set_if (message \<noteq> None) ''message'' (sentry_value_new_string_n message message_len) rv)"

definition sentry_value_new_exception_n :: "string option \<Rightarrow> nat \<Rightarrow> string option \<Rightarrow> nat \<Rightarrow> sentry_value" where
  "sentry_value_new_exception_n type type_len value value_len =
     set_key ''value'' (sentry_value_new_string_n value value_len)
       (set_key ''type'' (sentry_value_new_string_n type type_len) sentry_value_new_object)"

text \<open>The identifier is at most 20 digits, so it always fits its buffer of 21 bytes.\<close>

definition sentry_value_new_thread_n :: "u64 \<Rightarrow> string option \<Rightarrow> nat \<Rightarrow> sentry_value" where
  "sentry_value_new_thread_n tid name name_len =
     (let buf = dec_str (unat tid);
          thread = set_if (length buf < 21) ''id'' (str_value buf) sentry_value_new_object
      in set_if (name \<noteq> None) ''name'' (sentry_value_new_string_n name name_len) thread)"

text \<open>The stack trace of given instruction addresses; the innermost frame comes last.  \<open>buf\<close> is the
  uninitialised stack buffer of the address conversion.\<close>

definition sentry_value_new_stacktrace :: "string \<Rightarrow> u64 list \<Rightarrow> sentry_value" where
  "sentry_value_new_stacktrace buf ips =
     (let n = length ips;
          frames = foldl (\<lambda>frames i.
            let frame = set_key ''instruction_addr'' (sentry__value_new_addr buf (ips ! (n - i - 1))) sentry_value_new_object
            in snd (sentry_value_append frames frame)) sentry_value_new_list [0..<n]
      in set_key ''frames'' frames sentry_value_new_object)"

definition sentry_value_new_user_feedback_n ::
  "sentry_uuid_t \<Rightarrow> string option \<Rightarrow> nat \<Rightarrow> string option \<Rightarrow> nat \<Rightarrow> string option \<Rightarrow> nat \<Rightarrow> sentry_value" where
  "sentry_value_new_user_feedback_n uuid name name_len email email_len comments comments_len =
     (let rv = set_key ''event_id'' (sentry__value_new_uuid uuid) sentry_value_new_object;
          rv = set_if (name \<noteq> None) ''name'' (sentry_value_new_string_n name name_len) rv;
          rv = set_if (email \<noteq> None) ''email'' (sentry_value_new_string_n email email_len) rv
      in set_if (comments \<noteq> None) ''comments'' (sentry_value_new_string_n comments comments_len) rv)"

definition sentry_value_new_feedback_n ::
  "string option \<Rightarrow> nat \<Rightarrow> string option \<Rightarrow> nat \<Rightarrow> string option \<Rightarrow> nat \<Rightarrow> sentry_uuid_t option \<Rightarrow> sentry_value" where
  "sentry_value_new_feedback_n message message_len contact_email contact_email_len name name_len associated_event_id =
     (let rv = set_if (message \<noteq> None) ''message'' (sentry_value_new_string_n message message_len) sentry_value_new_object;
          rv = set_if (contact_email \<noteq> None) ''contact_email'' (sentry_value_new_string_n contact_email contact_email_len) rv;
          rv = set_if (name \<noteq> None) ''name'' (sentry_value_new_string_n name name_len) rv
      in case associated_event_id of
           None \<Rightarrow> rv
         | Some u \<Rightarrow> set_key ''associated_event_id'' (sentry__value_new_internal_uuid u) rv)"

text \<open>Writing through the pointer to a member of an object: the first pair with the key.\<close>

fun put_pair :: "(string \<times> sentry_value) list \<Rightarrow> string \<Rightarrow> sentry_value \<Rightarrow> (string \<times> sentry_value) list" where
  "put_pair [] k v = []"
| "put_pair ((k', v') # ps) k v = (if k = k' then (k', v) # ps else (k', v') # put_pair ps k v)"

fun put_child :: "sentry_value \<Rightarrow> string \<Rightarrow> sentry_value \<Rightarrow> sentry_value" where
  "put_child (VObject f ps) k v = VObject f (put_pair ps k v)"
| "put_child value k v = value"

text \<open>\<open>sentry__get_or_insert_values_list\<close> followed by \<open>sentry_value_append\<close> on the list it returns.  A
  member that could not be inserted is dropped, and the append to it has no effect on the event.\<close>

definition get_or_insert_values_append :: "sentry_value \<Rightarrow> string \<Rightarrow> sentry_value \<Rightarrow> sentry_value" where
  "get_or_insert_values_append parent key item =
     (let parent = (if sentry_value_is_null (sentry_value_get_by_key parent key)
                    then set_key key sentry_value_new_object parent else parent);
          obj = sentry_value_get_by_key parent key
      in case sentry_value_get_type obj of
           SENTRY_VALUE_TYPE_OBJECT \<Rightarrow>
             let obj = (if sentry_value_is_null (sentry_value_get_by_key obj ''values'')
                        then set_key ''values'' sentry_value_new_list obj else obj);
                 values = sentry_value_get_by_key obj ''values''
             in put_child parent key (put_child obj ''values'' (snd (sentry_value_append values item)))
         | SENTRY_VALUE_TYPE_LIST \<Rightarrow> put_child parent key (snd (sentry_value_append obj item))
         | _ \<Rightarrow> parent)"

definition sentry_event_set_level :: "sentry_value \<Rightarrow> sentry_level_t \<Rightarrow> sentry_value" where
  "sentry_event_set_level event level = set_key ''level'' (sentry__value_new_level level) event"

definition sentry_event_add_exception :: "sentry_value \<Rightarrow> sentry_value \<Rightarrow> sentry_value" where
  "sentry_event_add_exception event exc = get_or_insert_values_append event ''exception'' exc"

definition sentry_event_add_thread :: "sentry_value \<Rightarrow> sentry_value \<Rightarrow> sentry_value" where
  "sentry_event_add_thread event thread = get_or_insert_values_append event ''threads'' thread"

definition sentry_value_set_stacktrace :: "string \<Rightarrow> sentry_value \<Rightarrow> u64 list \<Rightarrow> sentry_value" where
  "sentry_value_set_stacktrace buf value ips = set_key ''stacktrace'' (sentry_value_new_stacktrace buf ips) value"

definition sentry_event_value_add_stacktrace :: "string \<Rightarrow> sentry_value \<Rightarrow> u64 list \<Rightarrow> sentry_value" where
  "sentry_event_value_add_stacktrace buf event ips =
     sentry_event_add_thread event (sentry_value_set_stacktrace buf sentry_value_new_object ips)"

section \<open>Merging\<close>

fun is_object :: "sentry_value \<Rightarrow> bool" where
  "is_object (VObject _ _) = True"
| "is_object _ = False"

text \<open>One pair of the source; a result code of 1 ends the loop.\<close>

definition merge_shallow_step :: "nat \<times> sentry_value \<Rightarrow> string \<times> sentry_value \<Rightarrow> nat \<times> sentry_value" where
  "merge_shallow_step acc kv =
     (case (acc, kv) of ((rc, dst), (key, src_val)) \<Rightarrow>
        if rc \<noteq> 0 then acc
        else if \<not> sentry_value_is_null (sentry_value_get_by_key dst key) then acc
        else case sentry_value_set_by_key dst key src_val of (rc, dst) \<Rightarrow> (if rc \<noteq> 0 then 1 else 0, dst))"

fun sentry__value_merge_objects_shallow :: "sentry_value \<Rightarrow> sentry_value \<Rightarrow> nat \<times> sentry_value" where
  "sentry__value_merge_objects_shallow dst VNull = (0, dst)"
| "sentry__value_merge_objects_shallow (VObject False ps) (VObject f qs) =
     foldl merge_shallow_step (0, VObject False ps) qs"
| "sentry__value_merge_objects_shallow dst src = (1, dst)"

fun sentry__value_merge_objects :: "sentry_value \<Rightarrow> sentry_value \<Rightarrow> nat \<times> sentry_value" where
  "sentry__value_merge_objects dst VNull = (0, dst)"
| "sentry__value_merge_objects (VObject False ps) (VObject f qs) =
     foldl (\<lambda>acc (key, src_val). case acc of (rc, dst) \<Rightarrow>
       if rc \<noteq> 0 then (rc, dst)
       else
         let dst_val = sentry_value_get_by_key dst key in
         if is_object dst_val \<and> is_object src_val
         then (case sentry__value_merge_objects dst_val src_val of
                 (rc', dst_val') \<Rightarrow> (if rc' \<noteq> 0 then 1 else 0, put_child dst key dst_val'))
         else if sentry_value_is_null dst_val
         then (case sentry_value_set_by_key dst key src_val of (rc', dst') \<Rightarrow> (if rc' \<noteq> 0 then 1 else 0, dst'))
         else (rc, dst)) (0, VObject False ps) qs"
| "sentry__value_merge_objects dst src = (1, dst)"


text \<open>The step of the deep merge, named for the proofs.\<close>

definition merge_step :: "nat \<times> sentry_value \<Rightarrow> string \<times> sentry_value \<Rightarrow> nat \<times> sentry_value" where
  "merge_step = (\<lambda>acc (key, src_val). case acc of (rc, dst) \<Rightarrow>
       if rc \<noteq> 0 then (rc, dst)
       else
         let dst_val = sentry_value_get_by_key dst key in
         if is_object dst_val \<and> is_object src_val
         then (case sentry__value_merge_objects dst_val src_val of
                 (rc', dst_val') \<Rightarrow> (if rc' \<noteq> 0 then 1 else 0, put_child dst key dst_val'))
         else if sentry_value_is_null dst_val
         then (case sentry_value_set_by_key dst key src_val of (rc', dst') \<Rightarrow> (if rc' \<noteq> 0 then 1 else 0, dst'))
         else (rc, dst))"

lemma merge_objects_fold:
  "sentry__value_merge_objects (VObject False ps) (VObject f qs) = foldl merge_step (0, VObject False ps) qs"
  by (simp add: merge_step_def)

lemma obj_get_put: "obj_get (put_pair ps k v) k' = (if k' = k \<and> obj_get ps k \<noteq> None then Some v else obj_get ps k')"
  by (induction ps k v rule: put_pair.induct) auto

abbreviation member :: "(string \<times> sentry_value) list \<Rightarrow> string \<Rightarrow> sentry_value" where
  "member ps k \<equiv> (case obj_get ps k of Some v \<Rightarrow> v | None \<Rightarrow> VNull)"

text \<open>What the deep merge makes of one member.\<close>

definition merged_member :: "sentry_value \<Rightarrow> sentry_value \<Rightarrow> sentry_value" where
  "merged_member dv sv =
     (if is_object dv \<and> is_object sv then snd (sentry__value_merge_objects dv sv)
      else if dv = VNull then sv else dv)"

fun unfrozen :: "sentry_value \<Rightarrow> bool" where
  "unfrozen (VObject f ps) = (\<not> f \<and> list_all (\<lambda>(k, v). unfrozen v) ps)"
| "unfrozen v = True"

lemma merge_step_spec:
  assumes "CHR 0x00 \<notin> set k"
  obtains rc ps' where "merge_step (0, VObject False ps) (k, sv) = (rc, VObject False ps')"
    and "\<And>k'. k' \<noteq> k \<Longrightarrow> obj_get ps' k' = obj_get ps k'"
    and "rc = 0 \<Longrightarrow> member ps' k = merged_member (member ps k) sv"
    and "rc = 0 \<or> is_object (member ps k) \<and> is_object sv \<and> fst (sentry__value_merge_objects (member ps k) sv) \<noteq> 0"
proof -
  consider (both) "is_object (member ps k)" "is_object sv" | (new) "member ps k = VNull"
    | (old) "\<not> (is_object (member ps k) \<and> is_object sv)" "member ps k \<noteq> VNull" by fastforce
  then show thesis
  proof cases
    case both
    obtain r d where m: "sentry__value_merge_objects (member ps k) sv = (r, d)" by fastforce
    have "obj_get ps k \<noteq> None" using both(1) by (cases "obj_get ps k") auto
    then show thesis
      using both m that [of "if r \<noteq> 0 then 1 else 0" "put_pair ps k d"]
      by (simp add: merge_step_def obj_get_put merged_member_def)
  next
    case new
    then show thesis
      using assms that [of 0 "obj_set ps k sv"]
      by (simp add: merge_step_def sentry_value_is_null_def merged_member_def)
  next
    case old
    then have "merge_step (0, VObject False ps) (k, sv) = (0, VObject False ps)"
      by (auto simp: merge_step_def sentry_value_is_null_def Let_def)
    moreover have "merged_member (member ps k) sv = member ps k" using old by (auto simp: merged_member_def)
    ultimately show thesis using that [of 0 ps] by simp
  qed
qed

lemma merge_fold_failed: "rc \<noteq> 0 \<Longrightarrow> foldl merge_step (rc, d) qs = (rc, d)"
  by (induction qs) (auto simp: merge_step_def split: prod.splits)

lemma merge_fold_spec:
  "\<lbrakk>distinct (map fst qs); \<forall>k \<in> set (map fst qs). CHR 0x00 \<notin> set k;
    foldl merge_step (0, VObject False ps) qs = (rc, d)\<rbrakk> \<Longrightarrow>
   (rc = 0 \<longrightarrow> (\<exists>ps'. d = VObject False ps' \<and>
      (\<forall>k. member ps' k = (case obj_get qs k of None \<Rightarrow> member ps k | Some sv \<Rightarrow> merged_member (member ps k) sv))))
   \<and> (rc = 0 \<or> (\<exists>(k, sv) \<in> set qs. is_object (member ps k) \<and> is_object sv
        \<and> fst (sentry__value_merge_objects (member ps k) sv) \<noteq> 0))"
proof (induction qs arbitrary: ps)
  case (Cons q qs)
  obtain k sv where q: "q = (k, sv)" by (cases q)
  obtain r ps1 where st: "merge_step (0, VObject False ps) (k, sv) = (r, VObject False ps1)"
    and o: "\<And>k'. k' \<noteq> k \<Longrightarrow> obj_get ps1 k' = obj_get ps k'"
    and m: "r = 0 \<Longrightarrow> member ps1 k = merged_member (member ps k) sv"
    and f: "r = 0 \<or> is_object (member ps k) \<and> is_object sv \<and> fst (sentry__value_merge_objects (member ps k) sv) \<noteq> 0"
    using merge_step_spec [of k ps sv] Cons.prems(2) q by auto
  show ?case
  proof (cases "r = 0")
    case False
    with Cons.prems(3) st q merge_fold_failed [of r] have "rc = r" by simp
    with False f q show ?thesis by auto
  next
    case True
    have nk: "obj_get qs k = None" using Cons.prems(1) q by (auto simp: obj_get_None)
    have "foldl merge_step (0, VObject False ps1) qs = (rc, d)" using Cons.prems(3) st q True by simp
    note ih = Cons.IH [OF _ _ this]
    have "member ps1 k' = member ps k'" if "(k', v) \<in> set qs" for k' v
      using that o [of k'] Cons.prems(1) q by force
    with ih Cons.prems(1,2) have "rc = 0 \<or> (\<exists>(k, sv) \<in> set qs. is_object (member ps k) \<and> is_object sv
        \<and> fst (sentry__value_merge_objects (member ps k) sv) \<noteq> 0)" by fastforce
    moreover have "\<exists>ps'. d = VObject False ps' \<and> (\<forall>k. member ps' k =
        (case obj_get (q # qs) k of None \<Rightarrow> member ps k | Some sv \<Rightarrow> merged_member (member ps k) sv))" if "rc = 0"
    proof -
      from ih that Cons.prems(1,2) obtain ps' where d: "d = VObject False ps'"
        and l: "\<And>k. member ps' k = (case obj_get qs k of None \<Rightarrow> member ps1 k | Some sv \<Rightarrow> merged_member (member ps1 k) sv)"
        by auto
      have "member ps' k' = (case obj_get (q # qs) k' of None \<Rightarrow> member ps k' | Some sv \<Rightarrow> merged_member (member ps k') sv)" for k'
        using l [of k'] m [OF True] o [of k'] nk q by (cases "k' = k") (simp_all split: option.splits)
      with d show ?thesis by blast
    qed
    ultimately show ?thesis using q by auto
  qed
qed auto


lemma unfrozen_member: "list_all (\<lambda>(k, v). unfrozen v) ps \<Longrightarrow> unfrozen (member ps k)"
  by (induction ps k rule: obj_get.induct) auto

fun keys_deep :: "sentry_value \<Rightarrow> bool" where
  "keys_deep (VObject f ps) = (keys_ok ps \<and> list_all (\<lambda>(k, v). keys_deep v) ps)"
| "keys_deep v = True"

lemma merge_objects_succeeds:
  "\<lbrakk>is_object dv; is_object sv; unfrozen dv; keys_deep sv\<rbrakk> \<Longrightarrow> fst (sentry__value_merge_objects dv sv) = 0"
proof (induction sv arbitrary: dv)
  case (VObject f qs)
  then obtain ps where dv: "dv = VObject False ps" by (cases dv) auto
  obtain rc d where m: "foldl merge_step (0, VObject False ps) qs = (rc, d)" by fastforce
  have "rc = 0"
  proof (rule ccontr)
    assume "rc \<noteq> 0"
    with merge_fold_spec [OF _ _ m] VObject.prems(4) obtain k sv where s: "(k, sv) \<in> set qs" "is_object (member ps k)"
        "is_object sv" "fst (sentry__value_merge_objects (member ps k) sv) \<noteq> 0"
      by (auto simp: keys_ok_def)
    moreover have "unfrozen (member ps k)" using VObject.prems(3) dv unfrozen_member by simp
    moreover have "keys_deep sv" using VObject.prems(4) s(1) by (auto simp: list_all_iff)
    ultimately show False using VObject.IH [OF s(1), of sv "member ps k"] by simp
  qed
  with m dv show ?case by (simp add: merge_objects_fold del: sentry__value_merge_objects.simps)
qed auto

text \<open>C33. Deep merging keeps what the destination has: merging an object with well-formed keys into an
  object without frozen parts succeeds, and each member of the result is the destination's, unless
  the destination has no value there, when it is the source's, or both are objects, when it is
  their merge.\<close>

theorem merge_objects_members:
  assumes "unfrozen (VObject False ps)" "keys_deep (VObject f qs)"
  shows "\<exists>d. sentry__value_merge_objects (VObject False ps) (VObject f qs) = (0, d) \<and> (\<forall>k.
    sentry_value_get_by_key d k =
      (let dv = sentry_value_get_by_key (VObject False ps) k; sv = sentry_value_get_by_key (VObject f qs) k
       in if is_object dv \<and> is_object sv then snd (sentry__value_merge_objects dv sv)
          else if sentry_value_is_null dv then sv else dv))"
proof -
  obtain rc d where m: "sentry__value_merge_objects (VObject False ps) (VObject f qs) = (rc, d)" by fastforce
  with merge_objects_succeeds [of "VObject False ps" "VObject f qs"] assms have rc: "rc = 0" by simp
  have "distinct (map fst qs)" "\<forall>k \<in> set (map fst qs). CHR 0x00 \<notin> set k"
    using assms(2) by (auto simp: keys_ok_def)
  from merge_fold_spec [OF this m [unfolded merge_objects_fold]] rc obtain ps' where d: "d = VObject False ps'"
    and l: "\<And>k. member ps' k = (case obj_get qs k of None \<Rightarrow> member ps k | Some sv \<Rightarrow> merged_member (member ps k) sv)"
    by auto
  have "member ps' k = merged_member (member ps k) (member qs k)" for k
    using l [of k] by (cases "obj_get qs k") (simp_all add: merged_member_def)
  then show ?thesis
    using m rc d by (simp add: merged_member_def sentry_value_is_null_def Let_def del: sentry__value_merge_objects.simps)
qed

theorem merge_objects_members_witness:
  "\<exists>d. sentry__value_merge_objects (VObject False [(''a'', VObject False [(''x'', VInt32 1)])])
       (VObject True [(''a'', VObject True [(''x'', VInt32 2), (''y'', VInt32 3)]), (''b'', VNull)]) = (0, d)
     \<and> sentry_value_get_by_key d ''a'' = VObject False [(''x'', VInt32 1), (''y'', VInt32 3)]"
  using merge_objects_members [of "[(''a'', VObject False [(''x'', VInt32 1)])]" True
      "[(''a'', VObject True [(''x'', VInt32 2), (''y'', VInt32 3)]), (''b'', VNull)]"]
  by (auto simp: keys_ok_def Let_def sentry_value_is_null_def)


section \<open>Merging breadcrumbs\<close>

text \<open>\<open>strcmp\<close>: the sign of the comparison by unsigned bytes.\<close>

fun strcmp :: "string \<Rightarrow> string \<Rightarrow> int" where
  "strcmp [] [] = 0"
| "strcmp [] (_ # _) = -1"
| "strcmp (_ # _) [] = 1"
| "strcmp (a # s) (b # t) = (if code a < code b then -1 else if code b < code a then 1 else strcmp s t)"

text \<open>The flag \<open>error\<close> only selects a warning at the end and is not kept.\<close>

definition cmp_breadcrumb :: "sentry_value \<Rightarrow> sentry_value \<Rightarrow> int" where
  "cmp_breadcrumb a b =
     (let timestamp_a = sentry_value_get_by_key a ''timestamp''; timestamp_b = sentry_value_get_by_key b ''timestamp''
      in if sentry_value_is_null timestamp_a then -1
         else if sentry_value_is_null timestamp_b then 1
         else strcmp (sentry_value_as_string timestamp_a) (sentry_value_as_string timestamp_b))"

function skip_loop :: "sentry_value list \<Rightarrow> sentry_value list \<Rightarrow> nat \<Rightarrow> nat \<Rightarrow> nat \<Rightarrow> nat \<times> nat" where
  "skip_loop xs ys skip i j =
     (if i < length xs \<and> j < length ys \<and> i + j < skip
      then if cmp_breadcrumb (xs ! i) (ys ! j) \<le> 0 then skip_loop xs ys skip (i + 1) j
           else skip_loop xs ys skip i (j + 1)
      else (i, j))"
  by pat_completeness auto
termination
  by (relation "measure (\<lambda>(xs, ys, skip, i, j). skip - (i + j))") auto

text \<open>\<open>while (i < n && i + j < skip) i++\<close>.\<close>

function skip_rest :: "nat \<Rightarrow> nat \<Rightarrow> nat \<Rightarrow> nat \<Rightarrow> nat" where
  "skip_rest n skip j i = (if i < n \<and> i + j < skip then skip_rest n skip j (i + 1) else i)"
  by pat_completeness auto
termination
  by (relation "measure (\<lambda>(n, skip, j, i). n - i)") auto

function merge_loop :: "sentry_value list \<Rightarrow> sentry_value list \<Rightarrow> nat \<Rightarrow> nat \<Rightarrow> sentry_value \<Rightarrow> nat \<times> nat \<times> sentry_value" where
  "merge_loop xs ys i j rv =
     (if i < length xs \<and> j < length ys
      then if cmp_breadcrumb (xs ! i) (ys ! j) \<le> 0
           then merge_loop xs ys (i + 1) j (snd (sentry_value_append rv (xs ! i)))
           else merge_loop xs ys i (j + 1) (snd (sentry_value_append rv (ys ! j)))
      else (i, j, rv))"
  by pat_completeness auto
termination
  by (relation "measure (\<lambda>(xs, ys, i, j, rv). length xs + length ys - (i + j))") auto

function append_rest :: "sentry_value list \<Rightarrow> nat \<Rightarrow> sentry_value \<Rightarrow> sentry_value" where
  "append_rest xs i rv =
     (if i < length xs then append_rest xs (i + 1) (snd (sentry_value_append rv (xs ! i))) else rv)"
  by pat_completeness auto
termination
  by (relation "measure (\<lambda>(xs, i, rv). length xs - i)") auto

declare skip_loop.simps [simp del] skip_rest.simps [simp del] merge_loop.simps [simp del] append_rest.simps [simp del]

fun list_items :: "sentry_value \<Rightarrow> sentry_value list" where
  "list_items (VList _ xs) = xs"
| "list_items _ = []"

definition sentry__value_merge_breadcrumbs :: "sentry_value \<Rightarrow> sentry_value \<Rightarrow> nat \<Rightarrow> sentry_value" where
  "sentry__value_merge_breadcrumbs list_a list_b mx =
     (let xs = list_items list_a; ys = list_items list_b
      in if xs = [] \<and> ys = [] then VNull
         else if xs = [] then list_b
         else if ys = [] then list_a
         else
           let total = length xs + length ys;
               skip = (if total > mx then total - mx else 0);
               (i, j) = skip_loop xs ys skip 0 0;
               i = skip_rest (length xs) skip j i;
               j = skip_rest (length ys) skip i j;
               (i, j, rv) = merge_loop xs ys i j (VList False [])
           in append_rest ys j (append_rest xs i rv))"

text \<open>The reference: the stable merge of two lists.\<close>

fun bmerge :: "sentry_value list \<Rightarrow> sentry_value list \<Rightarrow> sentry_value list" where
  "bmerge [] ys = ys"
| "bmerge xs [] = xs"
| "bmerge (x # xs) (y # ys) = (if cmp_breadcrumb x y \<le> 0 then x # bmerge xs (y # ys) else y # bmerge (x # xs) ys)"

lemma bmerge_Nil2 [simp]: "bmerge xs [] = xs"
  by (cases xs) auto

lemma bmerge_drop:
  "\<lbrakk>i < length xs; j < length ys\<rbrakk> \<Longrightarrow> bmerge (drop i xs) (drop j ys) =
     (if cmp_breadcrumb (xs ! i) (ys ! j) \<le> 0 then xs ! i # bmerge (drop (Suc i) xs) (drop j ys)
      else ys ! j # bmerge (drop i xs) (drop (Suc j) ys))"
  by (simp add: Cons_nth_drop_Suc [symmetric])

lemma skip_loop_spec:
  "skip_loop xs ys skip i j = (i', j') \<Longrightarrow> i \<le> length xs \<Longrightarrow> j \<le> length ys \<Longrightarrow>
     i \<le> i' \<and> j \<le> j' \<and> i' \<le> length xs \<and> j' \<le> length ys
     \<and> bmerge (drop i' xs) (drop j' ys) = drop (i' + j' - (i + j)) (bmerge (drop i xs) (drop j ys))
     \<and> (i + j \<le> skip \<longrightarrow> i' + j' \<le> skip) \<and> (i' = length xs \<or> j' = length ys \<or> skip \<le> i' + j')"
proof (induction xs ys skip i j rule: skip_loop.induct)
  case (1 xs ys skip i j)
  show ?case
  proof (cases "i < length xs \<and> j < length ys \<and> i + j < skip")
    case False
    with "1.prems" show ?thesis by (subst (asm) skip_loop.simps) auto
  next
    case True
    define c where "c = (cmp_breadcrumb (xs ! i) (ys ! j) \<le> 0)"
    define i1 j1 where "i1 = (if c then i + 1 else i)" and "j1 = (if c then j else j + 1)"
    have s: "skip_loop xs ys skip i1 j1 = (i', j')"
      using "1.prems"(1) True unfolding skip_loop.simps [of xs ys skip i j] c_def [symmetric] i1_def j1_def
      by (simp split: if_splits)
    have ih: "i1 \<le> i' \<and> j1 \<le> j' \<and> i' \<le> length xs \<and> j' \<le> length ys
       \<and> bmerge (drop i' xs) (drop j' ys) = drop (i' + j' - (i1 + j1)) (bmerge (drop i1 xs) (drop j1 ys))
       \<and> (i1 + j1 \<le> skip \<longrightarrow> i' + j' \<le> skip) \<and> (i' = length xs \<or> j' = length ys \<or> skip \<le> i' + j')"
      using "1.IH"(1) [OF True, folded c_def] "1.IH"(2) [OF True, folded c_def] s True
      by (cases c) (simp_all add: i1_def j1_def)
    have "bmerge (drop i1 xs) (drop j1 ys) = drop 1 (bmerge (drop i xs) (drop j ys))"
      using bmerge_drop [of i xs j ys] True by (simp add: i1_def j1_def c_def)
    moreover have sum: "i1 + j1 = Suc (i + j)" "i \<le> i1" "j \<le> j1" by (simp_all add: i1_def j1_def)
    moreover have "i' + j' - (i + j) = (i' + j' - (i1 + j1)) + 1" using ih sum by linarith
    ultimately show ?thesis using ih True by (simp add: drop_drop)
  qed
qed

lemma skip_rest_eq: "i \<le> n \<Longrightarrow> skip_rest n skip j i = max i (min n (skip - j))"
proof (induction n skip j i rule: skip_rest.induct)
  case (1 n skip j i)
  then show ?case by (subst skip_rest.simps) auto
qed

lemma append_rest_eq: "append_rest xs i (VList False acc) = VList False (acc @ drop i xs)"
proof (induction xs i "VList False acc" arbitrary: acc rule: append_rest.induct)
  case (1 xs i)
  then show ?case by (subst append_rest.simps) (simp add: Cons_nth_drop_Suc [symmetric])
qed

lemma merge_loop_spec:
  "merge_loop xs ys i j (VList False acc) = (i', j', rv) \<Longrightarrow>
     append_rest ys j' (append_rest xs i' rv) = VList False (acc @ bmerge (drop i xs) (drop j ys))"
proof (induction xs ys i j "VList False acc" arbitrary: acc rule: merge_loop.induct)
  case (1 xs ys i j)
  show ?case
  proof (cases "i < length xs \<and> j < length ys")
    case True
    with 1 show ?thesis
      by (subst (asm) merge_loop.simps) (auto simp: bmerge_drop split: if_splits)
  next
    case False
    with "1.prems" have "i' = i" "j' = j" "rv = VList False acc"
      by (simp_all add: merge_loop.simps [of xs ys i j])
    with False show ?thesis by (auto simp: append_rest_eq not_less)
  qed
qed


lemma length_bmerge [simp]: "length (bmerge xs ys) = length xs + length ys"
  by (induction xs ys rule: bmerge.induct) auto

lemma mset_bmerge [simp]: "mset (bmerge xs ys) = mset xs + mset ys"
  by (induction xs ys rule: bmerge.induct) auto

lemma merge_breadcrumbs_eq:
  assumes "xs \<noteq> []" "ys \<noteq> []"
  shows "sentry__value_merge_breadcrumbs (VList f xs) (VList g ys) mx =
    VList False (drop (length xs + length ys - mx) (bmerge xs ys))"
proof -
  define skip where "skip = length xs + length ys - mx"
  obtain i j where s: "skip_loop xs ys skip 0 0 = (i, j)" by fastforce
  define i2 where "i2 = skip_rest (length xs) skip j i"
  define j2 where "j2 = skip_rest (length ys) skip i2 j"
  have k: "i \<le> length xs" "j \<le> length ys" "bmerge (drop i xs) (drop j ys) = drop (i + j) (bmerge xs ys)"
      "i + j \<le> skip" "i = length xs \<or> j = length ys \<or> skip \<le> i + j"
    using skip_loop_spec [OF s] by auto
  have le: "skip \<le> length xs + length ys" by (simp add: skip_def)
  have "bmerge (drop i2 xs) (drop j2 ys) = drop skip (bmerge xs ys)"
  proof -
    consider "skip = i + j" | "j = length ys" "i + j < skip" | "i = length xs" "i + j < skip" using k(4,5) by linarith
    then show ?thesis
    proof cases
      case 1
      then have "i2 = i" "j2 = j" using k(1,2) by (simp_all add: i2_def j2_def skip_rest_eq)
      with 1 k(3) show ?thesis by simp
    next
      case 2
      then have "i2 = skip - j" "j2 = j" using k(1) le by (auto simp: i2_def j2_def skip_rest_eq)
      moreover have "drop (skip - j - i) (drop i xs) = drop (skip - (i + j)) (drop (i + j) (bmerge xs ys))"
        using k(3) 2 by simp
      ultimately show ?thesis using 2 by (simp add: drop_drop)
    next
      case 3
      then have "i2 = i" "j2 = skip - i" using k(2) le by (auto simp: i2_def j2_def skip_rest_eq)
      moreover have "drop (skip - i - j) (drop j ys) = drop (skip - (i + j)) (drop (i + j) (bmerge xs ys))"
        using k(3) 3 by simp
      ultimately show ?thesis using 3 by (simp add: drop_drop)
    qed
  qed
  moreover obtain i3 j3 rv where m: "merge_loop xs ys i2 j2 (VList False []) = (i3, j3, rv)"
    using prod_cases3 by blast
  moreover have "(if mx < length xs + length ys then length xs + length ys - mx else 0) = skip" by (simp add: skip_def)
  then have "sentry__value_merge_breadcrumbs (VList f xs) (VList g ys) mx = append_rest ys j3 (append_rest xs i3 rv)"
    using assms s m unfolding i2_def j2_def by (simp add: sentry__value_merge_breadcrumbs_def Let_def)
  ultimately show ?thesis using merge_loop_spec [OF m] unfolding skip_def by simp
qed

lemma strcmp_le_trans: "strcmp a b \<le> 0 \<Longrightarrow> strcmp b c \<le> 0 \<Longrightarrow> strcmp a c \<le> 0"
proof (induction a b arbitrary: c rule: strcmp.induct)
  case (1 c)
  then show ?case by (cases c) auto
next
  case (2 x xs c)
  then show ?case by (cases c) auto
next
  case (4 x a y b c)
  then obtain z d where c: "c = z # d" by (cases c) auto
  have "code x \<le> code y" "code y \<le> code z" using "4.prems" c by (auto simp: not_less split: if_splits)
  then consider "code x < code z" | "code x = code y" "code y = code z" by linarith
  then show ?case
  proof cases
    case 2
    with 4 c show ?thesis by simp
  qed (simp add: c)
qed simp

lemma strcmp_le_total: "strcmp a b \<le> 0 \<or> strcmp b a \<le> 0"
  by (induction a b rule: strcmp.induct) auto

text \<open>The order of breadcrumbs that all carry a timestamp.\<close>

definition stamped :: "sentry_value \<Rightarrow> bool" where
  "stamped b \<longleftrightarrow> sentry_value_get_by_key b ''timestamp'' \<noteq> VNull"

definition not_later :: "sentry_value \<Rightarrow> sentry_value \<Rightarrow> bool" where
  "not_later a b \<longleftrightarrow> strcmp (sentry_value_as_string (sentry_value_get_by_key a ''timestamp''))
     (sentry_value_as_string (sentry_value_get_by_key b ''timestamp'')) \<le> 0"

lemma cmp_not_later: "stamped a \<Longrightarrow> stamped b \<Longrightarrow> cmp_breadcrumb a b \<le> 0 \<longleftrightarrow> not_later a b"
  by (simp add: cmp_breadcrumb_def not_later_def stamped_def sentry_value_is_null_def)

lemma sorted_bmerge:
  "\<lbrakk>sorted_wrt not_later xs; sorted_wrt not_later ys; \<forall>b \<in> set xs \<union> set ys. stamped b\<rbrakk> \<Longrightarrow>
     sorted_wrt not_later (bmerge xs ys)"
proof (induction xs ys rule: bmerge.induct)
  case (3 x xs y ys)
  have tr: "not_later a b \<Longrightarrow> not_later b c \<Longrightarrow> not_later a c" for a b c
    unfolding not_later_def by (rule strcmp_le_trans)
  have st: "stamped x" "stamped y" using "3.prems"(3) by auto
  have elems: "set (bmerge us vs) = set us \<union> set vs" for us vs
    using mset_bmerge [of us vs] by (metis set_mset_mset set_mset_union)
  show ?case
  proof (cases "cmp_breadcrumb x y \<le> 0")
    case True
    then have "not_later x y" using cmp_not_later st by simp
    with "3.prems" tr have "\<forall>z \<in> set (bmerge xs (y # ys)). not_later x z" by (auto simp: elems)
    with 3 True show ?thesis by simp
  next
    case False
    then have "not_later y x" using cmp_not_later [OF st] strcmp_le_total unfolding not_later_def by blast
    with "3.prems" tr have "\<forall>z \<in> set (bmerge (x # xs) ys). not_later y z" by (auto simp: elems)
    with 3 False show ?thesis by simp
  qed
qed auto

text \<open>C27. Merging two breadcrumb lists in timestamp order gives the most recent breadcrumbs of both: the
  result has \<open>max\<close> elements, or all of them if there are fewer, is sorted, and together with the
  breadcrumbs left out, which are no later than any of those kept, it is a permutation of the two
  lists.\<close>

theorem merge_breadcrumbs_recent:
  assumes "xs \<noteq> []" "ys \<noteq> []" "\<forall>b \<in> set xs \<union> set ys. stamped b" "sorted_wrt not_later xs" "sorted_wrt not_later ys"
  shows "\<exists>old zs. sentry__value_merge_breadcrumbs (VList f xs) (VList g ys) mx = VList False zs
    \<and> length zs = min mx (length xs + length ys) \<and> mset (old @ zs) = mset xs + mset ys
    \<and> sorted_wrt not_later (old @ zs)"
proof -
  let ?k = "length xs + length ys - mx"
  have "sorted_wrt not_later (take ?k (bmerge xs ys) @ drop ?k (bmerge xs ys))"
    using sorted_bmerge [OF assms(4,5,3)] by simp
  moreover have "mset (take ?k (bmerge xs ys) @ drop ?k (bmerge xs ys)) = mset xs + mset ys"
    by (simp only: append_take_drop_id mset_bmerge)
  ultimately show ?thesis
    using merge_breadcrumbs_eq [OF assms(1,2), of f g mx]
    by (intro exI [of _ "take ?k (bmerge xs ys)"] exI [of _ "drop ?k (bmerge xs ys)"]) auto
qed

abbreviation crumb :: "string \<Rightarrow> sentry_value" where
  "crumb t \<equiv> VObject False [(''timestamp'', VString t)]"

theorem merge_breadcrumbs_recent_witness:
  "\<exists>old zs. sentry__value_merge_breadcrumbs (VList False [crumb ''1'', crumb ''4'']) (VList True [crumb ''2'', crumb ''3'']) 3
      = VList False zs \<and> length zs = 3 \<and> mset (old @ zs) = {#crumb ''1'', crumb ''2'', crumb ''3'', crumb ''4''#}
    \<and> sorted_wrt not_later (old @ zs)"
proof -
  have "sorted_wrt not_later [crumb ''1'', crumb ''4'']" "sorted_wrt not_later [crumb ''2'', crumb ''3'']"
    by (simp_all add: not_later_def cstr_def)
  with merge_breadcrumbs_recent [of "[crumb ''1'', crumb ''4'']" "[crumb ''2'', crumb ''3'']" False True 3]
  show ?thesis by (simp add: stamped_def add_mset_commute numeral_3_eq_3)
qed

end
