(* ===== verification/Tracing.thy ===== *)
theory Tracing
  imports ValueOps
begin

text \<open>
  Trace propagation and spans (\<open>sentry_tracing.c\<close>, with the baggage iterator of \<open>sentry_utils.c\<close>):
  validation of identifiers, parsing of the \<open>sentry-trace\<close> and \<open>baggage\<close> headers into a transaction
  context, the headers a span emits, the construction of spans, tags and data, and the list of the
  live children of a transaction.  A context or span is its inner value; new identifiers, the text of
  timestamps, the scope's dynamic sampling context and the options are arguments.
\<close>

section \<open>Incoming headers\<close>

text \<open>The loop over the first \<open>len\<close> bytes, with the flag \<open>has_nonzero\<close>.\<close>

primrec nonzero_hex_loop :: "nat \<Rightarrow> string \<Rightarrow> bool \<Rightarrow> bool" where
  "nonzero_hex_loop 0 s has_nonzero = has_nonzero"
| "nonzero_hex_loop (Suc n) s has_nonzero =
     (case s of
        [] \<Rightarrow> False
      | c # s' \<Rightarrow> if \<not> isxdigit c then False else nonzero_hex_loop n s' (has_nonzero \<or> c \<noteq> CHR ''0''))"

definition is_valid_nonzero_hexstring :: "string \<Rightarrow> nat \<Rightarrow> bool" where
  "is_valid_nonzero_hexstring s n = nonzero_hex_loop n s False"

definition is_valid_id :: "string option \<Rightarrow> nat \<Rightarrow> bool" where
  "is_valid_id ident expected_len =
     (case ident of None \<Rightarrow> False
      | Some s \<Rightarrow> length (cstr s) = expected_len \<and> is_valid_nonzero_hexstring s expected_len)"

definition is_valid_trace_id :: "string option \<Rightarrow> bool" where
  "is_valid_trace_id trace_id = is_valid_id trace_id 32"

definition is_valid_span_id :: "string option \<Rightarrow> bool" where
  "is_valid_span_id span_id = is_valid_id span_id 16"

definition compare_header_key :: "string \<Rightarrow> string \<Rightarrow> bool" where
  "compare_header_key key expected \<longleftrightarrow>
     length key = length expected \<and> list_all (\<lambda>i. tolower (key ! i) = expected ! i) [0..<length expected]"

definition parse_sentry_trace :: "sentry_value \<Rightarrow> string \<Rightarrow> sentry_value" where
  "parse_sentry_trace inner value =
     (case memchr_split CHR ''-'' value of
        None \<Rightarrow> inner
      | Some (s, rest) \<Rightarrow>
          if \<not> is_valid_trace_id (Some s) then inner
          else
            let inner = set_key ''trace_id'' (str_value s) inner;
                inner = (if sentry_value_is_null (sentry_value_get_by_key inner ''incoming_dsc'')
                         then set_key ''incoming_dsc'' sentry_value_new_object inner else inner)
            in case memchr_split CHR ''-'' rest of
                 None \<Rightarrow>
                   let parent_span_id = sentry_value_new_string_n (Some rest) (length rest) in
                   if \<not> is_valid_span_id (Some (sentry_value_as_string parent_span_id)) then inner
                   else set_key ''parent_span_id'' parent_span_id inner
               | Some (s, flag) \<Rightarrow>
                   if \<not> is_valid_span_id (Some s) then inner
                   else
                     let inner = set_key ''parent_span_id'' (str_value s) inner
                     in set_key ''sampled'' (VBool (at flag CHR ''1'')) inner)"

text \<open>The next member of a baggage header up to its comma, and what remains behind it.\<close>

definition baggage_split :: "sentry_slice_t \<Rightarrow> sentry_slice_t \<times> sentry_slice_t" where
  "baggage_split remaining =
     (let comma = sentry__slice_find remaining CHR '','' in
      if comma = SIZE_MAX then (remaining, sentry__slice_advance remaining (len remaining))
      else (remaining\<lparr>len := comma\<rparr>, sentry__slice_advance remaining (comma + 1)))"

text \<open>The key and the value of a member; \<open>None\<close> for one that is skipped.\<close>

definition baggage_member :: "sentry_slice_t \<Rightarrow> (sentry_slice_t \<times> sentry_slice_t) option" where
  "baggage_member m =
     (let m = sentry__slice_trim m; eq = sentry__slice_find m CHR ''='' in
      if eq = SIZE_MAX then None
      else
        let k = sentry__slice_trim (m\<lparr>len := eq\<rparr>)
        in if len k = 0 then None
           else
             let v = \<lparr>ptr = drop (eq + 1) (ptr m), len = len m - eq - 1\<rparr>;
                 semi = sentry__slice_find v CHR '';'';
                 v = (if semi \<noteq> SIZE_MAX then v\<lparr>len := semi\<rparr> else v)
             in Some (k, sentry__slice_trim v))"

lemma baggage_split_shrinks: "len r \<noteq> 0 \<Longrightarrow> len (snd (baggage_split r)) < len r"
  by (simp add: baggage_split_def Let_def)

function sentry__baggage_iter_next ::
  "sentry_slice_t \<Rightarrow> (sentry_slice_t \<times> sentry_slice_t \<times> sentry_slice_t) option" where
  "sentry__baggage_iter_next remaining =
     (if len remaining = 0 then None
      else
        case baggage_member (fst (baggage_split remaining)) of
          None \<Rightarrow> sentry__baggage_iter_next (snd (baggage_split remaining))
        | Some (k, v) \<Rightarrow> Some (k, v, snd (baggage_split remaining)))"
  by pat_completeness auto
termination
  by (relation "measure len") (auto intro: baggage_split_shrinks)

declare sentry__baggage_iter_next.simps [simp del]

lemma baggage_iter_shrinks: "sentry__baggage_iter_next r = Some (k, v, r') \<Longrightarrow> len r' < len r"
proof (induction r rule: sentry__baggage_iter_next.induct)
  case (1 r)
  note d = "1.prems" [unfolded sentry__baggage_iter_next.simps [of r]]
  show ?case
  proof (cases "baggage_member (fst (baggage_split r))")
    case None
    with d "1.IH" baggage_split_shrinks [of r] show ?thesis by (auto split: if_splits)
  next
    case (Some kv)
    with d baggage_split_shrinks [of r] show ?thesis by (auto split: if_splits prod.splits)
  qed
qed

text \<open>The decoded value of a member, as the C string that is stored.\<close>

definition baggage_value :: "sentry_slice_t \<Rightarrow> string" where
  "baggage_value val =
     (case sentry__percent_decode_inplace (sentry__slice_to_owned val) (len val) of
        (decoded, decoded_len) \<Rightarrow> cstr (take decoded_len decoded))"

definition sentry_prefix :: string where
  "sentry_prefix = ''sentry-''"

lemma length_sentry_prefix [simp]: "length sentry_prefix = 7"
  by (simp add: sentry_prefix_def)

function parse_baggage_loop :: "sentry_slice_t \<Rightarrow> sentry_value \<Rightarrow> sentry_value" where
  "parse_baggage_loop remaining incoming =
     (case sentry__baggage_iter_next remaining of
        None \<Rightarrow> incoming
      | Some (key, val, remaining') \<Rightarrow>
          if len key \<le> length sentry_prefix \<or> take (length sentry_prefix) (ptr key) \<noteq> sentry_prefix
          then parse_baggage_loop remaining' incoming
          else
            let sub_key = take (len key - length sentry_prefix) (drop (length sentry_prefix) (ptr key))
            in parse_baggage_loop remaining' (set_key sub_key (str_value (baggage_value val)) incoming))"
  by pat_completeness auto
termination
  by (relation "measure (\<lambda>(r, v). len r)") (auto dest: baggage_iter_shrinks)

declare parse_baggage_loop.simps [simp del]

definition parse_baggage :: "sentry_value \<Rightarrow> string \<Rightarrow> sentry_value" where
  "parse_baggage inner value =
     (let inner = (if sentry_value_is_null (sentry_value_get_by_key inner ''incoming_dsc'')
                   then set_key ''incoming_dsc'' sentry_value_new_object inner else inner);
          incoming = sentry_value_get_by_key inner ''incoming_dsc''
      in put_child inner ''incoming_dsc'' (parse_baggage_loop \<lparr>ptr = value, len = length value\<rparr> incoming))"

definition sentry_transaction_context_update_from_header_n :: "sentry_value \<Rightarrow> string \<Rightarrow> string \<Rightarrow> sentry_value" where
  "sentry_transaction_context_update_from_header_n inner key value =
     (if compare_header_key key ''sentry-trace'' then parse_sentry_trace inner value
      else if compare_header_key key ''baggage'' then parse_baggage inner value
      else inner)"

text \<open>\<open>sdk_org_id\<close> is \<open>sentry__options_get_org_id(options)\<close>.\<close>

definition sentry__trace_can_continue :: "sentry_value \<Rightarrow> string option \<Rightarrow> bool \<Rightarrow> bool" where
  "sentry__trace_can_continue incoming sdk_org_id strict_trace_continuation =
     (let incoming_org_id = sentry_value_as_string (sentry_value_get_by_key incoming ''org_id'');
          sdk_has = (sdk_org_id \<noteq> None \<and> sdk_org_id \<noteq> Some []);
          inc_has = (incoming_org_id \<noteq> [])
      in if sdk_has \<and> inc_has then the sdk_org_id = incoming_org_id
         else if sdk_has \<noteq> inc_has then \<not> strict_trace_continuation
         else True)"

section \<open>Outgoing headers\<close>

definition append_baggage_member ::
  "malloc \<Rightarrow> (double \<Rightarrow> string) \<Rightarrow> sentry_stringbuilder_t \<Rightarrow> string \<times> sentry_value \<Rightarrow> sentry_stringbuilder_t" where
  "append_baggage_member malloc fmt_g sb kv =
     (case kv of (key, value) \<Rightarrow>
        if key = ''trace_id'' \<or> sentry_value_is_null value then sb
        else
          let sb = fst (sentry__stringbuilder_append malloc sb '',sentry-'');
              sb = fst (sentry__stringbuilder_append malloc sb key);
              sb = fst (sentry__stringbuilder_append_char malloc sb CHR ''='')
          in percent_encode_append malloc sb (sentry__value_stringify fmt_g value))"

fun object_pairs :: "sentry_value \<Rightarrow> (string \<times> sentry_value) list" where
  "object_pairs (VObject _ ps) = ps"
| "object_pairs _ = []"

text \<open>The calls of the callback, in order.  \<open>snprintf\<close> writes at most 51 and 55 characters.\<close>

definition sentry__span_iter_headers ::
  "malloc \<Rightarrow> (double \<Rightarrow> string) \<Rightarrow> sentry_value \<Rightarrow> bool \<Rightarrow> sentry_value \<Rightarrow> (string \<times> string) list" where
  "sentry__span_iter_headers malloc fmt_g dynamic_sampling_context propagate_traceparent span =
     (let trace_id = sentry_value_get_by_key span ''trace_id'';
          span_id = sentry_value_get_by_key span ''span_id'';
          sampled = sentry_value_get_by_key span ''sampled''
      in if sentry_value_is_null trace_id \<or> sentry_value_is_null span_id then []
         else
           let tid = sentry_value_as_string trace_id; sid = sentry_value_as_string span_id;
               buf = take 51 (tid @ ''-'' @ sid @ ''-'' @ (if sentry_value_is_true sampled then ''1'' else ''0''));
               sb = fst (sentry__stringbuilder_append malloc sentry__stringbuilder_init ''sentry-trace_id='');
               sb = fst (sentry__stringbuilder_append malloc sb tid);
               sb = foldl (append_baggage_member malloc fmt_g) sb (object_pairs dynamic_sampling_context);
               traceparent = take 55 (''00-'' @ tid @ ''-'' @ sid @ ''-''
                 @ (if sentry_value_is_true sampled then ''01'' else ''00''))
           in [(''sentry-trace'', buf)]
              @ (case sentry__stringbuilder_into_string malloc sb of
                   None \<Rightarrow> [] | Some baggage \<Rightarrow> [(''baggage'', c_str baggage)])
              @ (if propagate_traceparent then [(''traceparent'', traceparent)] else []))"


section \<open>Propagation round trip\<close>

lemma slice_len_upd:
  assumes "slice_wf a" "n \<le> len a"
  shows "slice_wf (a\<lparr>len := n\<rparr>)" "slice_view (a\<lparr>len := n\<rparr>) = take n (slice_view a)"
  using assms by (auto simp: slice_wf_def slice_view_def min_absorb1)

lemma trim_spec_no_space: "\<forall>c \<in> set s. \<not> is_space c \<Longrightarrow> trim_spec s = s"
  by (rule trim_spec_id) auto

lemma takeWhile_neq_prefix: "c \<notin> set a \<Longrightarrow> takeWhile (\<lambda>x. x \<noteq> c) (a @ c # r) = a"
  by (rule takeWhile_all_prefix) auto

lemma baggage_member_view:
  assumes "slice_wf m" "slice_view m = k @ CHR ''='' # v" "k \<noteq> []" "length (slice_view m) < SIZE_MAX"
    "\<forall>c \<in> set k. \<not> is_space c \<and> c \<noteq> CHR ''=''" "\<forall>c \<in> set v. \<not> is_space c \<and> c \<noteq> CHR '';''"
  obtains ks vs where "baggage_member m = Some (ks, vs)" "slice_wf ks" "slice_view ks = k" "slice_wf vs" "slice_view vs = v"
proof -
  define t where "t = sentry__slice_trim m"
  have "\<forall>c \<in> set (k @ CHR ''='' # v). \<not> is_space c" using assms(5,6) by (auto simp: is_space_def)
  then have t: "slice_wf t" "slice_view t = k @ CHR ''='' # v"
    using trim_view [OF assms(1)] trim_spec_no_space [of "k @ CHR ''='' # v"] assms(2) by (simp_all add: t_def)
  have lt: "len t = length k + 1 + length v" using slice_view_length [OF t(1)] t(2) by simp
  have ne: "CHR ''='' \<notin> set k" using assms(5) by auto
  have eq: "sentry__slice_find t CHR ''='' = length k"
    using find_view [OF t(1), of "CHR ''=''"] takeWhile_neq_prefix [OF ne] t(2) by simp
  define ks where "ks = sentry__slice_trim (t\<lparr>len := length k\<rparr>)"
  have "slice_wf (t\<lparr>len := length k\<rparr>)" "slice_view (t\<lparr>len := length k\<rparr>) = k"
    using slice_len_upd [OF t(1), of "length k"] lt t(2) by simp_all
  then have ks: "slice_wf ks" "slice_view ks = k"
    using trim_view [of "t\<lparr>len := length k\<rparr>"] trim_spec_no_space [of k] assms(5) by (simp_all add: ks_def)
  define v0 where "v0 = \<lparr>ptr = drop (length k + 1) (ptr t), len = len t - length k - 1\<rparr>"
  have "v0 = sentry__slice_advance t (length k + 1)" by (simp add: v0_def sentry__slice_advance_def)
  then have v0: "slice_wf v0" "slice_view v0 = v" using t by simp_all
  have "CHR '';'' \<notin> set v" using assms(6) by auto
  then have semi: "sentry__slice_find v0 CHR '';'' = SIZE_MAX" using find_view [OF v0(1)] v0(2) by simp
  have "len ks \<noteq> 0" using slice_view_length [OF ks(1)] ks(2) assms(3) by (metis length_0_conv)
  moreover have "length k \<noteq> SIZE_MAX" using assms(2,4) by simp
  ultimately have "baggage_member m = Some (ks, sentry__slice_trim v0)"
    using eq semi unfolding v0_def by (simp add: baggage_member_def Let_def t_def [symmetric] ks_def [symmetric])
  moreover have "slice_wf (sentry__slice_trim v0)" "slice_view (sentry__slice_trim v0) = v"
    using trim_view [OF v0(1)] trim_spec_no_space [of v] assms(6) v0(2) by simp_all
  ultimately show thesis using that ks by blast
qed

lemma baggage_split_view:
  assumes "slice_wf r" "slice_view r = m @ rest" "CHR '','' \<notin> set m" "rest = [] \<or> hd rest = CHR '',''" "length (slice_view r) < SIZE_MAX"
  shows "slice_wf (fst (baggage_split r))" "slice_view (fst (baggage_split r)) = m"
    "slice_wf (snd (baggage_split r))" "slice_view (snd (baggage_split r)) = tl rest"
proof -
  have l: "len r = length m + length rest" using slice_view_length [OF assms(1)] assms(2) by simp
  have "slice_wf (fst (baggage_split r)) \<and> slice_view (fst (baggage_split r)) = m \<and>
      slice_wf (snd (baggage_split r)) \<and> slice_view (snd (baggage_split r)) = tl rest"
  proof (cases rest)
    case Nil
    then have "sentry__slice_find r CHR '','' = SIZE_MAX" using find_view [OF assms(1)] assms(2,3) by simp
    with Nil assms(1,2) l show ?thesis by (simp add: baggage_split_def)
  next
    case (Cons c r')
    with assms(4) have c: "rest = CHR '','' # r'" by simp
    then have "sentry__slice_find r CHR '','' = length m"
      using find_view [OF assms(1), of "CHR '',''"] takeWhile_neq_prefix [OF assms(3)] assms(2) by simp
    moreover have "length m \<noteq> SIZE_MAX" using assms(2,5) by simp
    ultimately show ?thesis
      using slice_len_upd [OF assms(1), of "length m"] l assms(1,2) c by (simp add: baggage_split_def Let_def)
  qed
  then show "slice_wf (fst (baggage_split r))" "slice_view (fst (baggage_split r)) = m"
    "slice_wf (snd (baggage_split r))" "slice_view (snd (baggage_split r)) = tl rest" by simp_all
qed

text \<open>The members the SDK writes: a key without separators, and a percent-encoded value.\<close>

definition token_key :: "string \<Rightarrow> bool" where
  "token_key k \<longleftrightarrow> k \<noteq> [] \<and> (\<forall>c \<in> set k. \<not> is_space c \<and> c \<noteq> CHR ''='' \<and> c \<noteq> CHR '','' \<and> c \<noteq> CHR 0x00)"

definition member_str :: "string \<times> string \<Rightarrow> string" where
  "member_str m = ''sentry-'' @ fst m @ ''='' @ percent_encode (snd m)"

fun baggage_text :: "(string \<times> string) list \<Rightarrow> string" where
  "baggage_text [] = []"
| "baggage_text [m] = member_str m"
| "baggage_text (m # n # ms) = member_str m @ CHR '','' # baggage_text (n # ms)"

lemma baggage_text_Cons: "baggage_text (m # ms) = member_str m @ (if ms = [] then [] else CHR '','' # baggage_text ms)"
  by (cases ms) auto

lemma baggage_text_snoc:
  "baggage_text (ms @ [m]) = (if ms = [] then member_str m else baggage_text ms @ CHR '','' # member_str m)"
  by (induction ms rule: baggage_text.induct) auto

lemma unreserved_no_sep: "unreserved c \<or> c = CHR ''%'' \<Longrightarrow> \<not> is_space c \<and> c \<noteq> CHR '';'' \<and> c \<noteq> CHR '','' \<and> c \<noteq> CHR 0x00"
  by (auto simp: unreserved_def isalnum_c_def is_space_def)

lemma percent_encode_no_sep:
  "c \<in> set (percent_encode v) \<Longrightarrow> \<not> is_space c \<and> c \<noteq> CHR '';'' \<and> c \<noteq> CHR '','' \<and> c \<noteq> CHR 0x00"
  using percent_encode_safe unreserved_no_sep by blast

lemma baggage_value_encoded:
  assumes "slice_wf vs" "slice_view vs = percent_encode v" "CHR 0x00 \<notin> set v"
  shows "baggage_value vs = v"
proof -
  have "len vs = length (percent_encode v)" using slice_view_length [OF assms(1)] assms(2) by simp
  moreover obtain junk where "sentry__percent_decode_inplace (percent_encode v @ []) (length (percent_encode v)) =
      (v @ junk @ [], length v)"
    using percent_decode_inplace_encoded [of v "[]"] by metis
  ultimately show ?thesis using assms by (simp add: baggage_value_def)
qed

lemma parse_baggage_text:
  "\<lbrakk>slice_wf r; slice_view r = baggage_text ms; length (slice_view r) < SIZE_MAX;
    \<forall>(k, v) \<in> set ms. token_key k \<and> CHR 0x00 \<notin> set v\<rbrakk> \<Longrightarrow>
   parse_baggage_loop r incoming = foldl (\<lambda>inc (k, v). set_key k (VString v) inc) incoming ms"
proof (induction ms arbitrary: r incoming)
  case Nil
  then have "len r = 0" using slice_view_length [of r] by simp
  then show ?case by (simp add: parse_baggage_loop.simps [of r] sentry__baggage_iter_next.simps [of r])
next
  case (Cons m ms)
  obtain k v where m: "m = (k, v)" by (cases m)
  let ?rest = "if ms = [] then [] else CHR '','' # baggage_text ms"
  have kv: "token_key k" "CHR 0x00 \<notin> set v" using Cons.prems(4) m by auto
  have "CHR '','' \<notin> set (member_str m)"
    using kv(1) percent_encode_no_sep by (auto simp: m member_str_def token_key_def)
  moreover have "slice_view r = member_str m @ ?rest" using Cons.prems(2) by (simp add: baggage_text_Cons)
  ultimately have sp: "slice_wf (fst (baggage_split r))" "slice_view (fst (baggage_split r)) = member_str m"
      "slice_wf (snd (baggage_split r))" "slice_view (snd (baggage_split r)) = baggage_text ms"
    using baggage_split_view [OF Cons.prems(1), of "member_str m" ?rest] Cons.prems(3) by (auto split: if_splits)
  have "slice_view (fst (baggage_split r)) = (''sentry-'' @ k) @ CHR ''='' # percent_encode v"
    using sp(2) by (simp add: m member_str_def)
  moreover have "length (slice_view (fst (baggage_split r))) < SIZE_MAX"
    using Cons.prems(2,3) unfolding sp(2) by (simp add: baggage_text_Cons)
  moreover have "\<forall>c \<in> set (''sentry-'' @ k). \<not> is_space c \<and> c \<noteq> CHR ''=''"
    using kv(1) by (auto simp: token_key_def is_space_def)
  moreover have "''sentry-'' @ k \<noteq> []" "\<forall>c \<in> set (percent_encode v). \<not> is_space c \<and> c \<noteq> CHR '';''"
    using percent_encode_no_sep by auto
  ultimately obtain ks vs where mem: "baggage_member (fst (baggage_split r)) = Some (ks, vs)" "slice_wf ks"
      "slice_view ks = ''sentry-'' @ k" "slice_wf vs" "slice_view vs = percent_encode v"
    using baggage_member_view [OF sp(1)] by metis
  have "len r \<noteq> 0" using slice_view_length [OF Cons.prems(1)] Cons.prems(2) by (auto simp: baggage_text_Cons member_str_def)
  then have it: "sentry__baggage_iter_next r = Some (ks, vs, snd (baggage_split r))"
    using mem(1) by (simp add: sentry__baggage_iter_next.simps [of r])
  have lk: "len ks = 7 + length k" using slice_view_length [OF mem(2)] mem(3) by simp
  have pk: "take (len ks) (ptr ks) = ''sentry-'' @ k" using mem(3) by (simp add: slice_view_def)
  have "take 7 (take (len ks) (ptr ks)) = ''sentry-''" unfolding pk by simp
  then have p7: "take 7 (ptr ks) = sentry_prefix" using lk by (simp add: min_absorb1 sentry_prefix_def)
  have "drop 7 (take (len ks) (ptr ks)) = k" unfolding pk by simp
  then have sub: "take (len ks - 7) (drop 7 (ptr ks)) = k" by (simp add: drop_take)
  have "parse_baggage_loop r incoming = parse_baggage_loop (snd (baggage_split r)) (set_key k (VString v) incoming)"
    using it p7 sub lk kv baggage_value_encoded [OF mem(4,5) kv(2)]
    by (simp add: parse_baggage_loop.simps [of r] token_key_def sentry_value_new_string_def)
  also have "\<dots> = foldl (\<lambda>inc (k, v). set_key k (VString v) inc) (set_key k (VString v) incoming) ms"
  proof (rule Cons.IH [OF sp(3,4)])
    show "length (slice_view (snd (baggage_split r))) < SIZE_MAX"
      using Cons.prems(2,3) unfolding sp(4) by (simp add: baggage_text_Cons split: if_splits)
  qed (use Cons.prems(4) in auto)
  finally show ?case by (simp add: m)
qed


lemma nonzero_hex_loop_digits: "nonzero_hex_loop (length s) s b \<Longrightarrow> list_all isxdigit s"
  by (induction s arbitrary: b) (auto split: if_splits)

lemma isxdigit_id_char: "isxdigit c \<Longrightarrow> unreserved c \<and> c \<noteq> CHR 0x00 \<and> c \<noteq> CHR ''-''"
  by (auto simp: unreserved_def isalnum_c_def ctype_defs)

lemma valid_id_chars:
  assumes "is_valid_id (Some s) n" "length s = n"
  shows "list_all isxdigit s" "CHR 0x00 \<notin> set s" "CHR ''-'' \<notin> set s" "percent_encode s = s"
proof -
  show x: "list_all isxdigit s"
    using assms nonzero_hex_loop_digits by (auto simp: is_valid_id_def is_valid_nonzero_hexstring_def)
  then show "CHR 0x00 \<notin> set s" "CHR ''-'' \<notin> set s"
    using isxdigit_id_char by (auto simp: list_all_iff)
  from x show "percent_encode s = s"
    by (induction s) (auto simp: percent_encode_def percent_escape_def dest: isxdigit_id_char)
qed

lemma stringify_no_nul: "CHR 0x00 \<notin> set (sentry__value_stringify fmt_g v)"
  by (cases v) (simp_all add: sentry__value_stringify_def stringify_numeric_def)

text \<open>The members of the outgoing baggage behind the trace identifier.\<close>

definition out_members :: "(double \<Rightarrow> string) \<Rightarrow> (string \<times> sentry_value) list \<Rightarrow> (string \<times> string) list" where
  "out_members fmt_g ps =
     map (\<lambda>(k, v). (k, sentry__value_stringify fmt_g v)) (filter (\<lambda>(k, v). k \<noteq> ''trace_id'' \<and> v \<noteq> VNull) ps)"

definition member_pieces :: "(double \<Rightarrow> string) \<Rightarrow> string \<times> sentry_value \<Rightarrow> string list" where
  "member_pieces fmt_g kv =
     (case kv of (k, v) \<Rightarrow>
        if k = ''trace_id'' \<or> v = VNull then []
        else ['',sentry-'', k, ''=''] @ map percent_escape (sentry__value_stringify fmt_g v))"

abbreviation append_pieces :: "malloc \<Rightarrow> sentry_stringbuilder_t \<Rightarrow> string list \<Rightarrow> sentry_stringbuilder_t" where
  "append_pieces malloc sb ps \<equiv> foldl (\<lambda>sb p. fst (sentry__stringbuilder_append_buf malloc sb p)) sb ps"


lemma append_member_pieces:
  assumes "CHR 0x00 \<notin> set k"
  shows "append_baggage_member malloc fmt_g sb (k, v) = append_pieces malloc sb (member_pieces fmt_g (k, v))"
proof -
  have "takeWhile (\<lambda>c. c \<noteq> CHR 0x00) (sentry__value_stringify fmt_g v) = sentry__value_stringify fmt_g v"
    using stringify_no_nul [of fmt_g v] by (intro takeWhile_all) auto
  moreover have "takeWhile (\<lambda>c. c \<noteq> CHR 0x00) k = k" using assms by (intro takeWhile_all) auto
  ultimately show ?thesis
    by (simp add: append_baggage_member_def member_pieces_def sentry_value_is_null_def sentry__stringbuilder_append_def
        sentry__stringbuilder_append_char_def percent_encode_append_pieces)
qed

lemma append_members_pieces:
  "\<forall>(k, v) \<in> set ps. CHR 0x00 \<notin> set k \<Longrightarrow>
     foldl (append_baggage_member malloc fmt_g) sb ps = append_pieces malloc sb (concat (map (member_pieces fmt_g) ps))"
  by (induction ps arbitrary: sb) (auto simp: append_member_pieces)

lemma concat_member_pieces:
  "concat (concat (map (member_pieces fmt_g) ps)) = concat (map (\<lambda>m. CHR '','' # member_str m) (out_members fmt_g ps))"
  by (induction ps) (auto simp: member_pieces_def out_members_def member_str_def percent_encode_def)

lemma baggage_text_concat: "baggage_text (m # ms) = member_str m @ concat (map (\<lambda>m. CHR '','' # member_str m) ms)"
  by (induction ms arbitrary: m) (simp_all add: baggage_text_Cons)

lemma out_baggage:
  assumes "malloc_sized malloc" "\<forall>n. malloc n \<noteq> None" "is_valid_id (Some tid) 32" "length tid = 32"
    "\<forall>(k, v) \<in> set ps. token_key k" "length (baggage_text ((''trace_id'', tid) # out_members fmt_g ps)) < SIZE_MAX"
  shows "map_option c_str (sentry__stringbuilder_into_string malloc
      (foldl (append_baggage_member malloc fmt_g)
        (fst (sentry__stringbuilder_append malloc
          (fst (sentry__stringbuilder_append malloc sentry__stringbuilder_init ''sentry-trace_id='')) tid)) ps))
    = Some (baggage_text ((''trace_id'', tid) # out_members fmt_g ps))"
proof -
  note t = valid_id_chars [OF assms(3,4)]
  define P where "P = [''sentry-trace_id='', tid] @ concat (map (member_pieces fmt_g) ps)"
  let ?sb = "append_pieces malloc sentry__stringbuilder_init P"
  have "takeWhile (\<lambda>c. c \<noteq> CHR 0x00) tid = tid" using t(2) by (intro takeWhile_all) auto
  moreover have "\<forall>(k, v) \<in> set ps. CHR 0x00 \<notin> set k" using assms(5) by (auto simp: token_key_def)
  ultimately have sb: "foldl (append_baggage_member malloc fmt_g)
        (fst (sentry__stringbuilder_append malloc
          (fst (sentry__stringbuilder_append malloc sentry__stringbuilder_init ''sentry-trace_id='')) tid)) ps = ?sb"
    by (simp add: append_members_pieces sentry__stringbuilder_append_def P_def)
  have c: "concat P = baggage_text ((''trace_id'', tid) # out_members fmt_g ps)"
    using t(4) by (simp add: P_def concat_member_pieces baggage_text_concat member_str_def)
  have view: "sb_wf ?sb" "sb_view ?sb = baggage_text ((''trace_id'', tid) # out_members fmt_g ps)"
    using builder.appends_wf [of sentry__stringbuilder_init malloc P] total_builder.appends_view [of sentry__stringbuilder_init malloc P]
      assms(1,2,6) c by simp_all
  have nul: "CHR 0x00 \<notin> set (member_str (k, v))" if "token_key k" for k v
    using that percent_encode_no_sep by (auto simp: member_str_def token_key_def)
  have "CHR 0x00 \<notin> set (member_str (''trace_id'', tid))" by (rule nul) (simp add: token_key_def is_space_def)
  moreover have "CHR 0x00 \<notin> set (member_str m)" if "m \<in> set (out_members fmt_g ps)" for m
    using that nul assms(5) by (auto simp: out_members_def)
  ultimately have "CHR 0x00 \<notin> set (sb_view ?sb)"
    unfolding view(2) baggage_text_concat by auto
  from into_string_view [OF view(1) assms(1,2) this] sb view(2) show ?thesis by auto
qed

lemma foldl_set_new:
  "\<lbrakk>distinct (map fst ms); fst ` set acc \<inter> fst ` set ms = {}; \<forall>(k, v) \<in> set ms. CHR 0x00 \<notin> set k\<rbrakk> \<Longrightarrow>
     foldl (\<lambda>inc (k, v). set_key k (VString v) inc) (VObject False acc) ms
       = VObject False (acc @ map (\<lambda>(k, v). (k, VString v)) ms)"
proof (induction ms arbitrary: acc)
  case (Cons m ms)
  obtain k v where m: "m = (k, v)" by (cases m)
  have "k \<notin> fst ` set acc" using Cons.prems(2) m by auto
  moreover have "CHR 0x00 \<notin> set k" using Cons.prems(3) m by auto
  ultimately have "set_key k (VString v) (VObject False acc) = VObject False (acc @ [(k, VString v)])"
    by (induction acc) auto
  with Cons.IH [of "acc @ [(k, VString v)]"] Cons.prems m show ?case by auto
qed simp


lemma parse_sentry_trace_header:
  assumes "is_valid_id (Some tid) 32" "length tid = 32" "is_valid_id (Some sid) 16" "length sid = 16"
    "obj_get cs ''incoming_dsc'' = None"
  obtains cs' where "parse_sentry_trace (VObject False cs) (take 51 (tid @ ''-'' @ sid @ ''-'' @ (if b then ''1'' else ''0'')))
      = VObject False cs'"
    "obj_get cs' ''trace_id'' = Some (VString tid)" "obj_get cs' ''parent_span_id'' = Some (VString sid)"
    "obj_get cs' ''sampled'' = Some (VBool b)" "obj_get cs' ''incoming_dsc'' = Some (VObject False [])"
proof -
  note t = valid_id_chars [OF assms(1,2)] and s = valid_id_chars [OF assms(3,4)]
  let ?f = "if b then ''1'' else ''0''"
  have "take 51 (tid @ ''-'' @ sid @ ''-'' @ ?f) = tid @ CHR ''-'' # sid @ CHR ''-'' # ?f" using assms(2,4) by simp
  moreover have "memchr_split CHR ''-'' (tid @ CHR ''-'' # sid @ CHR ''-'' # ?f) = Some (tid, sid @ CHR ''-'' # ?f)"
    "memchr_split CHR ''-'' (sid @ CHR ''-'' # ?f) = Some (sid, ?f)"
    using takeWhile_neq_prefix [OF t(3)] takeWhile_neq_prefix [OF s(3)] by (simp_all add: memchr_split_def)
  ultimately have "parse_sentry_trace (VObject False cs) (take 51 (tid @ ''-'' @ sid @ ''-'' @ ?f)) =
      VObject False (obj_set (obj_set (obj_set (obj_set cs ''trace_id'' (VString tid)) ''incoming_dsc'' (VObject False []))
        ''parent_span_id'' (VString sid)) ''sampled'' (VBool b))"
    using assms t(2) s(2)
    by (simp add: parse_sentry_trace_def is_valid_trace_id_def is_valid_span_id_def sentry_value_new_string_def
        sentry_value_is_null_def sentry_value_new_object_def)
  then show thesis by (rule that) simp_all
qed

lemma parse_baggage_header:
  assumes "obj_get cs ''incoming_dsc'' = Some (VObject False [])" "distinct (map fst ms)"
    "\<forall>(k, v) \<in> set ms. token_key k \<and> CHR 0x00 \<notin> set v" "length (baggage_text ms) < SIZE_MAX"
  shows "parse_baggage (VObject False cs) (baggage_text ms) =
    VObject False (put_pair cs ''incoming_dsc'' (VObject False (map (\<lambda>(k, v). (k, VString v)) ms)))"
proof -
  have "\<forall>(k, v) \<in> set ms. CHR 0x00 \<notin> set k" using assms(3) by (auto simp: token_key_def)
  moreover have "parse_baggage_loop \<lparr>ptr = baggage_text ms, len = length (baggage_text ms)\<rparr> (VObject False []) =
      foldl (\<lambda>inc (k, v). set_key k (VString v) inc) (VObject False []) ms"
    using assms(3,4) by (intro parse_baggage_text) (simp_all add: slice_wf_def slice_view_def)
  ultimately show ?thesis
    using assms(1,2) foldl_set_new [of ms "[]"] by (simp add: parse_baggage_def sentry_value_is_null_def)
qed

text \<open>C21. Distributed tracing round trip: the headers that a span with valid identifiers emits, with the
  baggage of a dynamic sampling context whose keys are tokens, fed in order into a transaction
  context that has received nothing yet, continue the same trace: trace identifier, parent span and
  sampling decision are those of the span, and the incoming sampling context has exactly the
  members of the outgoing one, as text.\<close>

theorem trace_propagation:
  assumes "malloc_sized malloc" "\<forall>n. malloc n \<noteq> None"
    and "sentry_value_get_by_key span ''trace_id'' = VString tid" "is_valid_trace_id (Some tid)" "length tid = 32"
    and "sentry_value_get_by_key span ''span_id'' = VString sid" "is_valid_span_id (Some sid)" "length sid = 16"
    and "\<forall>(k, v) \<in> set ps. token_key k" "distinct (map fst ps)"
    and "length (baggage_text ((''trace_id'', tid) # out_members fmt_g ps)) < SIZE_MAX"
    and "obj_get cs ''incoming_dsc'' = None"
  shows "\<exists>cs'. foldl (\<lambda>c (k, v). sentry_transaction_context_update_from_header_n c k v) (VObject False cs)
        (sentry__span_iter_headers malloc fmt_g (VObject f ps) traceparent span) = VObject False cs'
    \<and> obj_get cs' ''trace_id'' = Some (VString tid) \<and> obj_get cs' ''parent_span_id'' = Some (VString sid)
    \<and> obj_get cs' ''sampled'' = Some (VBool (sentry_value_is_true (sentry_value_get_by_key span ''sampled'')))
    \<and> obj_get cs' ''incoming_dsc'' = Some (VObject False
        ((''trace_id'', VString tid) # map (\<lambda>(k, v). (k, VString v)) (out_members fmt_g ps)))"
proof -
  let ?b = "sentry_value_is_true (sentry_value_get_by_key span ''sampled'')"
  let ?ms = "(''trace_id'', tid) # out_members fmt_g ps"
  let ?h1 = "take 51 (tid @ ''-'' @ sid @ ''-'' @ (if ?b then ''1'' else ''0''))"
  have v: "is_valid_id (Some tid) 32" "is_valid_id (Some sid) 16"
    using assms(4,7) by (simp_all add: is_valid_trace_id_def is_valid_span_id_def)
  note t = valid_id_chars [OF v(1) assms(5)] and s = valid_id_chars [OF v(2) assms(8)]
  obtain cs1 where c1: "parse_sentry_trace (VObject False cs) ?h1 = VObject False cs1"
    "obj_get cs1 ''trace_id'' = Some (VString tid)" "obj_get cs1 ''parent_span_id'' = Some (VString sid)"
    "obj_get cs1 ''sampled'' = Some (VBool ?b)" "obj_get cs1 ''incoming_dsc'' = Some (VObject False [])"
    using parse_sentry_trace_header [OF v(1) assms(5) v(2) assms(8,12), of ?b] by blast
  have "distinct (map fst ?ms)"
    using assms(10) by (auto simp: out_members_def distinct_map case_prod_unfold inj_on_def)
  moreover have "\<forall>(k, v) \<in> set ?ms. token_key k \<and> CHR 0x00 \<notin> set v"
    using assms(9) t(2) stringify_no_nul by (auto simp: out_members_def token_key_def is_space_def)
  ultimately have c2: "parse_baggage (VObject False cs1) (baggage_text ?ms) =
      VObject False (put_pair cs1 ''incoming_dsc'' (VObject False (map (\<lambda>(k, v). (k, VString v)) ?ms)))"
    using parse_baggage_header [OF c1(5), of ?ms] assms(11) by blast
  obtain tp where hs: "sentry__span_iter_headers malloc fmt_g (VObject f ps) traceparent span =
      [(''sentry-trace'', ?h1), (''baggage'', baggage_text ?ms)] @ (if traceparent then [(''traceparent'', tp)] else [])"
    using out_baggage [OF assms(1,2) v(1) assms(5,9,11)] assms(3,6) t(2) s(2)
    by (fastforce simp: sentry__span_iter_headers_def Let_def sentry_value_is_null_def split: option.splits)
  have k: "compare_header_key ''sentry-trace'' ''sentry-trace''" "\<not> compare_header_key ''baggage'' ''sentry-trace''"
    "compare_header_key ''baggage'' ''baggage''" "\<not> compare_header_key ''traceparent'' ''sentry-trace''"
    "\<not> compare_header_key ''traceparent'' ''baggage''" by code_simp+
  show ?thesis
    using c1 c2 by (simp add: hs k sentry_transaction_context_update_from_header_n_def obj_get_put)
qed


theorem trace_propagation_witness:
  "\<exists>cs'. foldl (\<lambda>c (k, v). sentry_transaction_context_update_from_header_n c k v) (VObject False [])
        (sentry__span_iter_headers (\<lambda>n. Some (replicate n CHR ''?'')) (\<lambda>_. []) (VObject True [(''org_id'', VString ''1,2'')]) False
          (VObject False [(''trace_id'', VString (replicate 32 CHR ''a'')), (''span_id'', VString (replicate 16 CHR ''b'')),
             (''sampled'', VBool True)])) = VObject False cs'
    \<and> obj_get cs' ''trace_id'' = Some (VString (replicate 32 CHR ''a''))
    \<and> obj_get cs' ''parent_span_id'' = Some (VString (replicate 16 CHR ''b''))
    \<and> obj_get cs' ''sampled'' = Some (VBool True)
    \<and> obj_get cs' ''incoming_dsc'' = Some (VObject False
        [(''trace_id'', VString (replicate 32 CHR ''a'')), (''org_id'', VString ''1,2'')])"
proof -
  let ?span = "VObject False [(''trace_id'', VString (replicate 32 CHR ''a'')), (''span_id'', VString (replicate 16 CHR ''b'')),
             (''sampled'', VBool True)]"
  have ids: "is_valid_trace_id (Some (replicate 32 CHR ''a''))" "is_valid_span_id (Some (replicate 16 CHR ''b''))"
    by code_simp+
  have om: "out_members (\<lambda>_. []) [(''org_id'', VString ''1,2'')] = [(''org_id'', ''1,2'')]" by code_simp
  have "length (baggage_text [(''trace_id'', replicate 32 CHR ''a''), (''org_id'', ''1,2'')]) = 68" by code_simp
  then have l: "length (baggage_text ((''trace_id'', replicate 32 CHR ''a'') # out_members (\<lambda>_. []) [(''org_id'', VString ''1,2'')])) < SIZE_MAX"
    by (simp add: om SIZE_MAX_def)
  have m: "malloc_sized (\<lambda>n. Some (replicate n CHR ''?''))" by (simp add: malloc_sized_def)
  have tk: "\<forall>(k, v) \<in> set [(''org_id'', VString ''1,2'')]. token_key k" by code_simp
  from trace_propagation [OF m _ _ ids(1) _ _ ids(2) _ tk _ l, of ?span "[]" True False] om
  show ?thesis by (simp add: sentry_value_is_true_def)
qed

end
