(* ===== verification/Spans.thy ===== *)
theory Spans
  imports Tracing
begin

text \<open>
  Transactions and spans (\<open>sentry_tracing.c\<close> and the tracing part of \<open>sentry_core.c\<close>).  The state is
  one transaction with its weak list of live children, the live span objects by address, and the span
  bound to the scope; reference counts are not part of it.  Every operation of the API on them is a
  function on the state; the sequences of operations are a step relation, and the theory shows what
  holds in every reachable state.  New identifiers, formatted times and the outcome of the allocation of the
  children array are arguments.
\<close>

section \<open>Spans as values\<close>

definition new_span_n :: "sentry_uuid_t \<Rightarrow> sentry_value \<Rightarrow> sentry_slice_t \<Rightarrow> sentry_value" where
  "new_span_n span_id parent operation =
     (let span = sentry_value_new_object;
          span = set_key ''op'' (sentry_value_new_string_n (Some (ptr operation)) (len operation)) span;
          span = set_key ''span_id'' (sentry__value_new_span_uuid span_id) span;
          span = set_key ''status'' (str_value ''ok'') span
      in if sentry_value_is_null parent then span
         else
           let span = set_key ''trace_id'' (sentry_value_get_by_key parent ''trace_id'') span;
               span = set_key ''parent_span_id'' (sentry_value_get_by_key parent ''span_id'') span
           in set_key ''sampled'' (sentry_value_get_by_key parent ''sampled'') span)"

text \<open>\<open>trace\<close> is the member \<open>trace\<close> of the scope's propagation context.\<close>

definition transaction_context_new_n ::
  "sentry_uuid_t \<Rightarrow> sentry_uuid_t \<Rightarrow> bool \<Rightarrow> sentry_value \<Rightarrow> sentry_slice_t \<Rightarrow> sentry_slice_t \<Rightarrow> sentry_value" where
  "transaction_context_new_n span_id trace_id trace_managed trace name operation =
     (let ctx = new_span_n span_id VNull operation;
          ctx = set_key ''trace_id'' (sentry__value_new_internal_uuid trace_id) ctx;
          ctx = set_key ''transaction'' (sentry_value_new_string_n (Some (ptr name)) (len name)) ctx
      in if \<not> trace_managed \<and> \<not> sentry_value_is_null trace
         then
           let ctx = set_key ''trace_id'' (sentry__value_clone (sentry_value_get_by_key trace ''trace_id'')) ctx
           in set_key ''parent_span_id'' (sentry__value_clone (sentry_value_get_by_key trace ''parent_span_id'')) ctx
         else ctx)"

definition sentry__value_span_new_n ::
  "sentry_uuid_t \<Rightarrow> nat \<Rightarrow> sentry_value \<Rightarrow> sentry_slice_t \<Rightarrow> sentry_slice_t \<Rightarrow> string option \<Rightarrow> sentry_value" where
  "sentry__value_span_new_n span_id max_spans parent operation description iso_time =
     (if \<not> sentry_value_is_null (sentry_value_get_by_key parent ''timestamp'') then VNull
      else if sentry_value_get_length (sentry_value_get_by_key parent ''spans'') \<ge> max_spans then VNull
      else
        let child = new_span_n span_id parent operation;
            child = set_key ''description'' (sentry_value_new_string_n (Some (ptr description)) (len description)) child
        in set_key ''start_timestamp'' (sentry_value_new_string iso_time) child)"

definition place_value :: "sentry_value \<Rightarrow> sentry_value \<Rightarrow> string \<Rightarrow> sentry_value" where
  "place_value source trace_context key =
     (let src = sentry_value_get_by_key source key
      in if \<not> sentry_value_is_null src then set_key key src trace_context else trace_context)"

definition sentry__value_get_trace_context :: "sentry_value \<Rightarrow> sentry_value" where
  "sentry__value_get_trace_context span =
     (if sentry_value_is_null span then VNull
      else if sentry_value_is_null (sentry_value_get_by_key span ''trace_id'')
              \<or> sentry_value_is_null (sentry_value_get_by_key span ''span_id'') then VNull
      else foldl (place_value span) sentry_value_new_object
             [''trace_id'', ''span_id'', ''parent_span_id'', ''op'', ''description'', ''status''])"

text \<open>The member \<open>data_key\<close> of an item, created if there is none, with one of its own members set or
  removed.\<close>

definition set_data :: "sentry_value \<Rightarrow> string \<Rightarrow> string \<Rightarrow> sentry_value \<Rightarrow> sentry_value" where
  "set_data item data_key key value =
     (let item = (if sentry_value_is_null (sentry_value_get_by_key item data_key)
                  then set_key data_key sentry_value_new_object item else item)
      in put_child item data_key (set_key key value (sentry_value_get_by_key item data_key)))"

definition remove_data :: "sentry_value \<Rightarrow> string \<Rightarrow> string \<Rightarrow> sentry_value" where
  "remove_data item data_key key =
     (let data = sentry_value_get_by_key item data_key
      in if sentry_value_is_null data then item
         else put_child item data_key (snd (sentry_value_remove_by_key_n data key)))"

text \<open>Tag values are cut at 200 bytes.\<close>

definition set_tag_n :: "sentry_value \<Rightarrow> string \<Rightarrow> sentry_slice_t \<Rightarrow> sentry_value" where
  "set_tag_n item tag value =
     (let s = take (if len value < 200 then len value else 200) (ptr value)
      in set_data item ''tags'' tag (str_value s))"

definition remove_tag_n :: "sentry_value \<Rightarrow> string \<Rightarrow> sentry_value" where
  "remove_tag_n item tag = remove_data item ''tags'' tag"

datatype sentry_span_status_t =
    SENTRY_SPAN_STATUS_OK | SENTRY_SPAN_STATUS_CANCELLED | SENTRY_SPAN_STATUS_UNKNOWN
  | SENTRY_SPAN_STATUS_INVALID_ARGUMENT | SENTRY_SPAN_STATUS_DEADLINE_EXCEEDED | SENTRY_SPAN_STATUS_NOT_FOUND
  | SENTRY_SPAN_STATUS_ALREADY_EXISTS | SENTRY_SPAN_STATUS_PERMISSION_DENIED | SENTRY_SPAN_STATUS_RESOURCE_EXHAUSTED
  | SENTRY_SPAN_STATUS_FAILED_PRECONDITION | SENTRY_SPAN_STATUS_ABORTED | SENTRY_SPAN_STATUS_OUT_OF_RANGE
  | SENTRY_SPAN_STATUS_UNIMPLEMENTED | SENTRY_SPAN_STATUS_INTERNAL_ERROR | SENTRY_SPAN_STATUS_UNAVAILABLE
  | SENTRY_SPAN_STATUS_DATA_LOSS | SENTRY_SPAN_STATUS_UNAUTHENTICATED

fun status_to_string :: "sentry_span_status_t \<Rightarrow> sentry_value" where
  "status_to_string SENTRY_SPAN_STATUS_OK = str_value ''ok''"
| "status_to_string SENTRY_SPAN_STATUS_CANCELLED = str_value ''cancelled''"
| "status_to_string SENTRY_SPAN_STATUS_UNKNOWN = str_value ''unknown''"
| "status_to_string SENTRY_SPAN_STATUS_INVALID_ARGUMENT = str_value ''invalid_argument''"
| "status_to_string SENTRY_SPAN_STATUS_DEADLINE_EXCEEDED = str_value ''deadline_exceeded''"
| "status_to_string SENTRY_SPAN_STATUS_NOT_FOUND = str_value ''not_found''"
| "status_to_string SENTRY_SPAN_STATUS_ALREADY_EXISTS = str_value ''already_exists''"
| "status_to_string SENTRY_SPAN_STATUS_PERMISSION_DENIED = str_value ''permission_denied''"
| "status_to_string SENTRY_SPAN_STATUS_RESOURCE_EXHAUSTED = str_value ''resource_exhausted''"
| "status_to_string SENTRY_SPAN_STATUS_FAILED_PRECONDITION = str_value ''failed_precondition''"
| "status_to_string SENTRY_SPAN_STATUS_ABORTED = str_value ''aborted''"
| "status_to_string SENTRY_SPAN_STATUS_OUT_OF_RANGE = str_value ''out_of_range''"
| "status_to_string SENTRY_SPAN_STATUS_UNIMPLEMENTED = str_value ''unimplemented''"
| "status_to_string SENTRY_SPAN_STATUS_INTERNAL_ERROR = str_value ''internal_error''"
| "status_to_string SENTRY_SPAN_STATUS_UNAVAILABLE = str_value ''unavailable''"
| "status_to_string SENTRY_SPAN_STATUS_DATA_LOSS = str_value ''data_loss''"
| "status_to_string SENTRY_SPAN_STATUS_UNAUTHENTICATED = str_value ''unauthenticated''"

definition set_status :: "sentry_value \<Rightarrow> sentry_span_status_t \<Rightarrow> sentry_value" where
  "set_status item status = set_key ''status'' (status_to_string status) item"

section \<open>The live children of a transaction\<close>

record sentry_transaction_t =
  tx_inner :: sentry_value
  children :: "nat list"
  children_cap :: nat

definition sentry__transaction_new :: "sentry_value \<Rightarrow> sentry_transaction_t option" where
  "sentry__transaction_new inner =
     (if sentry_value_is_null inner then None else Some \<lparr>tx_inner = inner, children = [], children_cap = 0\<rparr>)"

text \<open>The entry found is overwritten with the last one.\<close>

definition sentry__transaction_remove_child :: "sentry_transaction_t \<Rightarrow> nat \<Rightarrow> sentry_transaction_t" where
  "sentry__transaction_remove_child tx span =
     (case for_first (\<lambda>i. children tx ! i = span) 0 (length (children tx)) of
        None \<Rightarrow> tx
      | Some i \<Rightarrow> tx\<lparr>children := butlast ((children tx)[i := last (children tx)])\<rparr>)"

text \<open>The part of \<open>sentry__span_new\<close> under the lock.  Without memory for a larger array the span is
  not tracked.\<close>

definition track_child :: "bool \<Rightarrow> sentry_transaction_t \<Rightarrow> nat \<Rightarrow> sentry_transaction_t" where
  "track_child alloc_ok tx span =
     (let tx = (if length (children tx) = children_cap tx \<and> alloc_ok
                then tx\<lparr>children_cap := (if children_cap tx \<noteq> 0 then children_cap tx * 2 else 4)\<rparr> else tx)
      in if length (children tx) < children_cap tx then tx\<lparr>children := children tx @ [span]\<rparr> else tx)"

section \<open>Operations on the state\<close>

record trace_state =
  tx :: sentry_transaction_t
  spans :: "nat \<rightharpoonup> sentry_value"
  scope_span :: "nat option"

text \<open>A new span object at the fresh address \<open>a\<close>.\<close>

definition sentry__span_new :: "bool \<Rightarrow> nat \<Rightarrow> sentry_value \<Rightarrow> trace_state \<Rightarrow> trace_state" where
  "sentry__span_new alloc_ok a inner st =
     (if sentry_value_is_null inner then st
      else st\<lparr>spans := (spans st)(a \<mapsto> inner), tx := track_child alloc_ok (tx st) a\<rparr>)"

definition sentry_transaction_start_child_ts_n ::
  "sentry_uuid_t \<Rightarrow> nat \<Rightarrow> bool \<Rightarrow> nat \<Rightarrow> sentry_slice_t \<Rightarrow> sentry_slice_t \<Rightarrow> string option \<Rightarrow> trace_state \<Rightarrow> trace_state" where
  "sentry_transaction_start_child_ts_n span_id max_spans alloc_ok a operation description iso_time st =
     (if sentry_value_is_null (tx_inner (tx st)) then st
      else sentry__span_new alloc_ok a
        (sentry__value_span_new_n span_id max_spans (tx_inner (tx st)) operation description iso_time) st)"

definition sentry_span_start_child_ts_n ::
  "sentry_uuid_t \<Rightarrow> nat \<Rightarrow> bool \<Rightarrow> nat \<Rightarrow> nat \<Rightarrow> sentry_slice_t \<Rightarrow> sentry_slice_t \<Rightarrow> string option \<Rightarrow> trace_state \<Rightarrow> trace_state" where
  "sentry_span_start_child_ts_n span_id max_spans alloc_ok a parent operation description iso_time st =
     (case spans st parent of
        None \<Rightarrow> st
      | Some inner \<Rightarrow>
          if sentry_value_is_null inner then st
          else sentry__span_new alloc_ok a
            (sentry__value_span_new_n span_id max_spans inner operation description iso_time) st)"

text \<open>The append to the member \<open>spans\<close> of the transaction.\<close>

definition append_finished :: "sentry_value \<Rightarrow> sentry_value \<Rightarrow> sentry_value" where
  "append_finished root span =
     (let root = (if sentry_value_is_null (sentry_value_get_by_key root ''spans'')
                  then set_key ''spans'' sentry_value_new_list root else root)
      in put_child root ''spans'' (snd (sentry_value_append (sentry_value_get_by_key root ''spans'') span)))"

definition span_id_text :: "sentry_value \<Rightarrow> string" where
  "span_id_text v = sentry_value_as_string (sentry_value_get_by_key v ''span_id'')"

definition sentry_span_finish_ts :: "nat \<Rightarrow> nat \<Rightarrow> string option \<Rightarrow> trace_state \<Rightarrow> trace_state" where
  "sentry_span_finish_ts max_spans a iso_time st =
     (case spans st a of
        None \<Rightarrow> st
      | Some inner \<Rightarrow>
          if sentry_value_is_null inner \<or> sentry_value_is_null (tx_inner (tx st)) then st
          else
            let st = st\<lparr>tx := sentry__transaction_remove_child (tx st) a\<rparr>;
                root = tx_inner (tx st)
            in if \<not> sentry_value_is_true (sentry_value_get_by_key root ''sampled'') then st
               else if \<not> sentry_value_is_null (sentry_value_get_by_key root ''timestamp'') then st
               else
                 let span = sentry__value_clone inner;
                     st = (case scope_span st of
                             None \<Rightarrow> st
                           | Some s \<Rightarrow> (case spans st s of
                               None \<Rightarrow> st
                             | Some scope_inner \<Rightarrow>
                                 if span_id_text span = span_id_text scope_inner then st\<lparr>scope_span := None\<rparr> else st))
                 in if \<not> sentry_value_is_true (sentry_value_get_by_key span ''sampled'') then st
                    else if \<not> sentry_value_is_null (sentry_value_get_by_key span ''timestamp'') then st
                    else
                      let span = set_key ''timestamp'' (sentry_value_new_string iso_time) span;
                          span = snd (sentry_value_remove_by_key_n span ''sampled'')
                      in if sentry_value_get_length (sentry_value_get_by_key root ''spans'') \<ge> max_spans then st
                         else st\<lparr>tx := (tx st)\<lparr>tx_inner := append_finished root span\<rparr>\<rparr>)"

definition sentry_span_discard :: "nat \<Rightarrow> trace_state \<Rightarrow> trace_state" where
  "sentry_span_discard a st =
     (let st = st\<lparr>tx := sentry__transaction_remove_child (tx st) a\<rparr>
      in if scope_span st = Some a then st\<lparr>scope_span := None\<rparr> else st)"

text \<open>The setters of a span and of the transaction.\<close>

definition on_span :: "nat \<Rightarrow> (sentry_value \<Rightarrow> sentry_value) \<Rightarrow> trace_state \<Rightarrow> trace_state" where
  "on_span a f st = (case spans st a of None \<Rightarrow> st | Some v \<Rightarrow> st\<lparr>spans := (spans st)(a \<mapsto> f v)\<rparr>)"

definition on_tx :: "(sentry_value \<Rightarrow> sentry_value) \<Rightarrow> trace_state \<Rightarrow> trace_state" where
  "on_tx f st = st\<lparr>tx := (tx st)\<lparr>tx_inner := f (tx_inner (tx st))\<rparr>\<rparr>"

definition sentry_scope_set_span :: "nat \<Rightarrow> trace_state \<Rightarrow> trace_state" where
  "sentry_scope_set_span a st = st\<lparr>scope_span := Some a\<rparr>"


section \<open>Sequences of operations\<close>

inductive trace_step :: "nat \<Rightarrow> trace_state \<Rightarrow> trace_state \<Rightarrow> bool" for m :: nat where
  tx_child: "spans st a = None \<Longrightarrow> trace_step m st (sentry_transaction_start_child_ts_n u m ok a op d when st)"
| span_child: "spans st a = None \<Longrightarrow> trace_step m st (sentry_span_start_child_ts_n u m ok a p op d when st)"
| finish: "trace_step m st (sentry_span_finish_ts m a (Some when) st)"
| discard: "trace_step m st (sentry_span_discard a st)"
| scope: "trace_step m st (sentry_scope_set_span a st)"
| span_set_data: "k \<in> {''tags'', ''data''} \<Longrightarrow> trace_step m st (on_span a (\<lambda>v. set_data v k key x) st)"
| span_remove_data: "k \<in> {''tags'', ''data''} \<Longrightarrow> trace_step m st (on_span a (\<lambda>v. remove_data v k key) st)"
| span_status: "trace_step m st (on_span a (\<lambda>v. set_status v status) st)"
| tx_set_data: "k \<in> {''tags'', ''data''} \<Longrightarrow> trace_step m st (on_tx (\<lambda>v. set_data v k key x) st)"
| tx_remove_data: "k \<in> {''tags'', ''data''} \<Longrightarrow> trace_step m st (on_tx (\<lambda>v. remove_data v k key) st)"
| tx_status: "trace_step m st (on_tx (\<lambda>v. set_status v status) st)"

inductive_cases trace_stepE: "trace_step m st st'"

text \<open>An object with well-formed keys whose members other than \<open>tags\<close>, \<open>data\<close> and \<open>status\<close> are those
  of another one.\<close>

definition same_but_data :: "sentry_value \<Rightarrow> sentry_value \<Rightarrow> bool" where
  "same_but_data v v' \<longleftrightarrow>
     (\<exists>ps ps'. v = VObject False ps \<and> v' = VObject False ps' \<and> keys_ok ps' \<and>
        (\<forall>k. k \<notin> {''tags'', ''data'', ''status''} \<longrightarrow> obj_get ps' k = obj_get ps k))"

lemma put_pair_keys [simp]: "map fst (put_pair ps k v) = map fst ps"
  by (induction ps k v rule: put_pair.induct) auto

lemma keys_ok_put [simp]: "keys_ok (put_pair ps k v) = keys_ok ps"
  by (simp only: keys_ok_def put_pair_keys)

lemma set_data_same:
  assumes "keys_ok ps" "k \<in> {''tags'', ''data''}"
  shows "same_but_data (VObject False ps) (set_data (VObject False ps) k key x)"
proof -
  have nul: "CHR 0x00 \<notin> set k" using assms(2) by auto
  have "\<exists>ps'. set_data (VObject False ps) k key x = VObject False ps' \<and> keys_ok ps' \<and> (\<forall>j. j \<noteq> k \<longrightarrow> obj_get ps' j = obj_get ps j)"
    using assms(1) nul keys_ok_set [OF assms(1) nul]
    by (auto simp: set_data_def Let_def obj_get_put)
  with assms(2) show ?thesis unfolding same_but_data_def by auto
qed

lemma remove_data_same:
  assumes "keys_ok ps" "k \<in> {''tags'', ''data''}"
  shows "same_but_data (VObject False ps) (remove_data (VObject False ps) k key)"
  using assms by (auto simp: remove_data_def Let_def same_but_data_def obj_get_put)

lemma set_status_same: "keys_ok ps \<Longrightarrow> same_but_data (VObject False ps) (set_status (VObject False ps) s)"
  using keys_ok_set [of ps "''status''"] by (auto simp: set_status_def same_but_data_def)

text \<open>Live spans, finished spans, and the invariant of the whole state, for the trace \<open>tid\<close>.\<close>

definition span_ok :: "string \<Rightarrow> sentry_value \<Rightarrow> bool" where
  "span_ok tid v \<longleftrightarrow> (\<exists>ps. v = VObject False ps \<and> keys_ok ps \<and> obj_get ps ''trace_id'' = Some (VString tid))"

definition finished_ok :: "string \<Rightarrow> sentry_value \<Rightarrow> bool" where
  "finished_ok tid v \<longleftrightarrow>
     sentry_value_get_by_key v ''trace_id'' = VString tid
     \<and> \<not> sentry_value_is_null (sentry_value_get_by_key v ''timestamp'')
     \<and> sentry_value_is_null (sentry_value_get_by_key v ''sampled'')"

definition recorded :: "sentry_value \<Rightarrow> sentry_value list" where
  "recorded root = list_items (sentry_value_get_by_key root ''spans'')"

definition root_ok :: "nat \<Rightarrow> string \<Rightarrow> sentry_value \<Rightarrow> bool" where
  "root_ok m tid root \<longleftrightarrow> span_ok tid root
     \<and> (sentry_value_get_by_key root ''spans'' = VNull \<or> sentry_value_get_by_key root ''spans'' = VList False (recorded root))
     \<and> length (recorded root) \<le> m \<and> list_all (finished_ok tid) (recorded root)"

definition children_ok :: "trace_state \<Rightarrow> bool" where
  "children_ok st \<longleftrightarrow> distinct (children (tx st)) \<and> set (children (tx st)) \<subseteq> dom (spans st)
     \<and> length (children (tx st)) \<le> children_cap (tx st)"

definition trace_inv :: "nat \<Rightarrow> string \<Rightarrow> trace_state \<Rightarrow> bool" where
  "trace_inv m tid st \<longleftrightarrow> root_ok m tid (tx_inner (tx st)) \<and> (\<forall>a v. spans st a = Some v \<longrightarrow> span_ok tid v) \<and> children_ok st"

lemma same_but_dataE:
  assumes "same_but_data v v'"
  obtains ps ps' where "v = VObject False ps" "v' = VObject False ps'" "keys_ok ps'"
    "obj_get ps' ''trace_id'' = obj_get ps ''trace_id''" "obj_get ps' ''spans'' = obj_get ps ''spans''"
proof -
  from assms obtain ps ps' where o: "v = VObject False ps" "v' = VObject False ps'" "keys_ok ps'"
    and k: "\<And>k. k \<notin> {''tags'', ''data'', ''status''} \<Longrightarrow> obj_get ps' k = obj_get ps k"
    unfolding same_but_data_def by blast
  show thesis by (rule that [OF o k k]) simp_all
qed

lemma span_ok_same: "span_ok tid v \<Longrightarrow> same_but_data v v' \<Longrightarrow> span_ok tid v'"
  by (erule same_but_dataE) (simp add: span_ok_def)

lemma root_ok_same: "root_ok m tid v \<Longrightarrow> same_but_data v v' \<Longrightarrow> root_ok m tid v'"
proof -
  assume r: "root_ok m tid v" and s: "same_but_data v v'"
  from s have "sentry_value_get_by_key v' ''spans'' = sentry_value_get_by_key v ''spans''"
    by (rule same_but_dataE) simp
  with r span_ok_same [OF _ s] show ?thesis by (simp add: root_ok_def recorded_def)
qed

lemma span_ok_setters:
  assumes "span_ok tid v" "k \<in> {''tags'', ''data''}"
  shows "same_but_data v (set_data v k key x)" "same_but_data v (remove_data v k key)" "same_but_data v (set_status v s)"
proof -
  obtain ps where v: "v = VObject False ps" "keys_ok ps" using assms(1) unfolding span_ok_def by blast
  show "same_but_data v (set_data v k key x)" unfolding v(1) using v(2) assms(2) by (rule set_data_same)
  show "same_but_data v (remove_data v k key)" unfolding v(1) using v(2) assms(2) by (rule remove_data_same)
  show "same_but_data v (set_status v s)" unfolding v(1) using v(2) by (rule set_status_same)
qed

subsection \<open>The children array\<close>

lemma remove_child_mset: "mset (children (sentry__transaction_remove_child t a)) = mset (children t) - {#a#}"
proof (cases "for_first (\<lambda>i. children t ! i = a) 0 (length (children t))")
  case None
  then have "a \<notin> set (children t)" by (auto simp: for_first_None in_set_conv_nth)
  with None show ?thesis by (simp add: sentry__transaction_remove_child_def)
next
  case (Some i)
  then have i: "i < length (children t)" "children t ! i = a" by (simp_all add: for_first_Some)
  then obtain cs x where cs: "children t = cs @ [x]" by (cases "children t" rule: rev_cases) auto
  have "mset (butlast ((cs @ [x])[i := x])) = mset (cs @ [x]) - {#a#}"
  proof (cases "i < length cs")
    case True
    then have "a \<in># mset cs" using i cs by (auto simp: nth_append)
    then obtain M where "mset cs = add_mset a M" by (metis insert_DiffM)
    with True i cs show ?thesis by (simp add: list_update_append mset_update nth_append)
  next
    case False
    with i cs show ?thesis by (auto simp: list_update_append nth_append split: nat.splits)
  qed
  with Some cs show ?thesis by (simp add: sentry__transaction_remove_child_def)
qed


lemma remove_child_frame [simp]:
  "tx_inner (sentry__transaction_remove_child t a) = tx_inner t" "children_cap (sentry__transaction_remove_child t a) = children_cap t"
  by (simp_all add: sentry__transaction_remove_child_def split: option.splits)

lemma distinct_sub: "mset ys \<subseteq># mset xs \<Longrightarrow> distinct xs \<Longrightarrow> distinct ys"
proof -
  assume s: "mset ys \<subseteq># mset xs" and d: "distinct xs"
  have "count (mset ys) x \<le> 1" for x
  proof -
    have "count (mset ys) x \<le> count (mset xs) x" using s by (simp add: mset_subset_eq_count)
    also have "\<dots> \<le> 1" using d by (simp add: distinct_count_atmost_1)
    finally show ?thesis .
  qed
  then show ?thesis
    by (simp add: distinct_count_atmost_1 le_Suc_eq)
qed

lemma remove_child_ok: "children_ok st \<Longrightarrow> children_ok (st\<lparr>tx := sentry__transaction_remove_child (tx st) a\<rparr>)"
proof -
  assume ok: "children_ok st"
  have s: "mset (children (sentry__transaction_remove_child (tx st) a)) \<subseteq># mset (children (tx st))"
    by (simp add: remove_child_mset)
  then have "set (children (sentry__transaction_remove_child (tx st) a)) \<subseteq> set (children (tx st))"
    by (metis set_mset_mono set_mset_mset)
  moreover have "length (children (sentry__transaction_remove_child (tx st) a)) \<le> length (children (tx st))"
    using size_mset_mono [OF s] by simp
  ultimately show ?thesis using ok distinct_sub [OF s] by (auto simp: children_ok_def)
qed

lemma track_child_spec:
  "children (track_child b t a) = children t \<or> children (track_child b t a) = children t @ [a]"
  "length (children t) \<le> children_cap t \<Longrightarrow> length (children (track_child b t a)) \<le> children_cap (track_child b t a)"
  "tx_inner (track_child b t a) = tx_inner t"
  by (auto simp: track_child_def Let_def)

lemma span_new_inv:
  assumes "trace_inv m tid st" "spans st a = None" "v = VNull \<or> span_ok tid v"
  shows "trace_inv m tid (sentry__span_new b a v st)"
proof (cases "v = VNull")
  case False
  with assms(3) have v: "span_ok tid v" by simp
  have "a \<notin> set (children (tx st))" using assms(1,2) by (auto simp: trace_inv_def children_ok_def)
  then have "children_ok (st\<lparr>spans := (spans st)(a \<mapsto> v), tx := track_child b (tx st) a\<rparr>)"
    using assms(1) track_child_spec(1) [of b "tx st" a] track_child_spec(2) [of "tx st" b a]
    by (auto simp: trace_inv_def children_ok_def)
  with False v assms(1) show ?thesis
    by (auto simp: sentry__span_new_def trace_inv_def sentry_value_is_null_def track_child_spec(3))
qed (use assms(1) in \<open>simp add: sentry__span_new_def sentry_value_is_null_def\<close>)

lemma new_span_ok:
  assumes "span_ok tid parent"
  shows "sentry__value_span_new_n u m parent op d t = VNull \<or> span_ok tid (sentry__value_span_new_n u m parent op d t)"
proof -
  obtain ps where p: "parent = VObject False ps" "obj_get ps ''trace_id'' = Some (VString tid)"
    using assms by (auto simp: span_ok_def)
  then show ?thesis
    by (auto simp: sentry__value_span_new_n_def new_span_n_def Let_def sentry_value_is_null_def sentry_value_new_object_def
        span_ok_def keys_ok_def)
qed

lemma clone_keys_ok: "keys_ok ps \<Longrightarrow> keys_ok (map (\<lambda>(k, v). (k, sentry__value_clone v)) ps)"
  by (auto simp: keys_ok_def comp_def case_prod_unfold)

lemma finished_span_ok:
  assumes "span_ok tid v"
  shows "finished_ok tid (snd (sentry_value_remove_by_key_n (set_key ''timestamp'' (sentry_value_new_string (Some w)) (sentry__value_clone v)) ''sampled''))"
proof -
  obtain ps where p: "v = VObject False ps" "keys_ok ps" "obj_get ps ''trace_id'' = Some (VString tid)"
    using assms by (auto simp: span_ok_def)
  define qs where "qs = obj_set (map (\<lambda>(k, v). (k, sentry__value_clone v)) ps) ''timestamp'' (VString (cstr w))"
  have q: "keys_ok qs" unfolding qs_def using p(2) by (intro keys_ok_set clone_keys_ok) simp_all
  have g: "obj_get qs ''trace_id'' = Some (VString tid)" "obj_get qs ''timestamp'' = Some (VString (cstr w))"
    using p(3) by (simp_all add: qs_def obj_get_clone)
  have e: "set_key ''timestamp'' (sentry_value_new_string (Some w)) (sentry__value_clone v) = VObject False qs"
    by (simp add: p(1) qs_def sentry_value_new_string_def)
  show ?thesis
  proof (cases "obj_remove qs ''sampled''")
    case None
    then have "obj_get qs ''sampled'' = None" by (simp add: obj_remove_None obj_get_None)
    with g None e show ?thesis by (simp add: finished_ok_def sentry_value_is_null_def)
  next
    case (Some rs)
    have "obj_get rs k = (if k = ''sampled'' then None else obj_get qs k)" for k
      using obj_get_remove [OF Some] q by (simp add: keys_ok_def)
    with g Some e show ?thesis by (simp add: finished_ok_def sentry_value_is_null_def)
  qed
qed

lemma append_finished_ok:
  assumes "root_ok m tid root" "length (recorded root) < m" "finished_ok tid v"
  shows "root_ok m tid (append_finished root v)"
proof -
  obtain ps where p: "root = VObject False ps" "keys_ok ps" "obj_get ps ''trace_id'' = Some (VString tid)"
    using assms(1) by (auto simp: root_ok_def span_ok_def)
  let ?r = "if sentry_value_is_null (sentry_value_get_by_key root ''spans'') then set_key ''spans'' sentry_value_new_list root else root"
  have "\<exists>qs. ?r = VObject False qs \<and> keys_ok qs \<and> obj_get qs ''trace_id'' = Some (VString tid)
      \<and> obj_get qs ''spans'' = Some (VList False (recorded root))"
  proof (cases "sentry_value_get_by_key root ''spans'' = VNull")
    case True
    then have "recorded root = []" by (simp add: recorded_def)
    with True p keys_ok_set [OF p(2), of "''spans''"] show ?thesis by (simp add: sentry_value_is_null_def sentry_value_new_list_def)
  next
    case False
    then have "sentry_value_get_by_key root ''spans'' = VList False (recorded root)" using assms(1) by (simp add: root_ok_def)
    with False p show ?thesis by (simp add: sentry_value_is_null_def split: option.splits)
  qed
  then obtain qs where q: "?r = VObject False qs" "keys_ok qs" "obj_get qs ''trace_id'' = Some (VString tid)"
      "obj_get qs ''spans'' = Some (VList False (recorded root))" by blast
  have a: "append_finished root v = VObject False (put_pair qs ''spans'' (VList False (recorded root @ [v])))"
    unfolding append_finished_def Let_def q(1) using q(4) by simp
  have "sentry_value_get_by_key (append_finished root v) ''spans'' = VList False (recorded root @ [v])"
    unfolding a using q(4) by (simp add: obj_get_put)
  then have r: "recorded (append_finished root v) = recorded root @ [v]"
      "sentry_value_get_by_key (append_finished root v) ''spans'' = VList False (recorded (append_finished root v))"
    by (simp_all add: recorded_def)
  have "span_ok tid (append_finished root v)" unfolding a span_ok_def using q(2,3) by (simp add: obj_get_put)
  with r assms show ?thesis by (simp add: root_ok_def)
qed

lemma finish_inv:
  assumes inv: "trace_inv m tid st"
  shows "trace_inv m tid (sentry_span_finish_ts m a (Some w) st)"
proof (cases "spans st a")
  case None
  with inv show ?thesis by (simp add: sentry_span_finish_ts_def)
next
  case (Some v)
  define st1 where "st1 = st\<lparr>tx := sentry__transaction_remove_child (tx st) a\<rparr>"
  have i1: "trace_inv m tid st1" using inv remove_child_ok [of st a] by (auto simp: trace_inv_def st1_def children_ok_def)
  have scope: "trace_inv m tid (st1\<lparr>scope_span := x\<rparr>)" for x using i1 by (simp add: trace_inv_def children_ok_def)
  have root: "root_ok m tid (tx_inner (tx st1))" using i1 by (simp add: trace_inv_def)
  let ?v = "snd (sentry_value_remove_by_key_n (set_key ''timestamp'' (sentry_value_new_string (Some w)) (sentry__value_clone v)) ''sampled'')"
  have v: "finished_ok tid ?v" using finished_span_ok inv Some by (simp add: trace_inv_def)
  have fin: "trace_inv m tid (st2\<lparr>tx := (tx st2)\<lparr>tx_inner := append_finished (tx_inner (tx st1)) ?v\<rparr>\<rparr>)"
    if "sentry_value_get_length (sentry_value_get_by_key (tx_inner (tx st1)) ''spans'') < m"
      "st2 = st1 \<or> st2 = st1\<lparr>scope_span := None\<rparr>" for st2
  proof -
    have "length (recorded (tx_inner (tx st1))) < m"
      using root that(1) unfolding root_ok_def by (metis list_items.simps(2) list.size(3) recorded_def sentry_value_get_length.simps(2,4))
    from append_finished_ok [OF root this v] i1 that(2) show ?thesis by (auto simp: trace_inv_def children_ok_def)
  qed
  show ?thesis
    using inv i1 scope [of None] fin [of st1] fin [of "st1\<lparr>scope_span := None\<rparr>"]
    unfolding sentry_span_finish_ts_def Some option.case st1_def [symmetric] Let_def
    by (auto simp: not_le split: option.splits)
qed


lemma on_tx_inv:
  "trace_inv m tid st \<Longrightarrow> same_but_data (tx_inner (tx st)) (f (tx_inner (tx st))) \<Longrightarrow> trace_inv m tid (on_tx f st)"
  using root_ok_same [of m tid "tx_inner (tx st)" "f (tx_inner (tx st))"]
  by (simp add: on_tx_def trace_inv_def children_ok_def)

lemma on_span_inv:
  assumes "trace_inv m tid st" "\<And>v. spans st a = Some v \<Longrightarrow> same_but_data v (f v)"
  shows "trace_inv m tid (on_span a f st)"
proof (cases "spans st a")
  case (Some v)
  with assms have "span_ok tid (f v)" using span_ok_same [of tid v "f v"] by (simp add: trace_inv_def)
  with Some assms(1) show ?thesis by (auto simp: on_span_def trace_inv_def children_ok_def)
qed (use assms(1) in \<open>simp add: on_span_def\<close>)

lemma inv_span_ok:
  "trace_inv m tid st \<Longrightarrow> span_ok tid (tx_inner (tx st))" "trace_inv m tid st \<Longrightarrow> spans st a = Some v \<Longrightarrow> span_ok tid v"
  by (simp_all add: trace_inv_def root_ok_def)

lemma trace_step_inv: "trace_step m st st' \<Longrightarrow> trace_inv m tid st \<Longrightarrow> trace_inv m tid st'"
proof (induction rule: trace_step.induct)
  case (tx_child st a u ok op d w)
  then have "span_ok tid (tx_inner (tx st))" by (simp add: trace_inv_def root_ok_def)
  with tx_child show ?case
    by (simp add: sentry_transaction_start_child_ts_n_def span_new_inv new_span_ok)
next
  case (span_child st a u ok p op d w)
  have "span_ok tid v" if "spans st p = Some v" for v using that span_child by (simp add: trace_inv_def)
  with span_child show ?case
    by (simp add: sentry_span_start_child_ts_n_def span_new_inv new_span_ok split: option.splits)
next
  case (finish st a w)
  then show ?case by (rule finish_inv)
next
  case (discard st a)
  then have "trace_inv m tid (st\<lparr>tx := sentry__transaction_remove_child (tx st) a\<rparr>)"
    using remove_child_ok [of st a] by (simp add: trace_inv_def)
  then show ?case by (simp add: sentry_span_discard_def Let_def trace_inv_def children_ok_def)
next
  case (scope st a)
  then show ?case by (simp add: sentry_scope_set_span_def trace_inv_def children_ok_def)
next
  case (span_set_data k st a key x)
  then show ?case by (intro on_span_inv span_ok_setters) (auto dest: inv_span_ok)
next
  case (span_remove_data k st a key)
  then show ?case by (intro on_span_inv span_ok_setters) (auto dest: inv_span_ok)
next
  case (span_status st a s)
  then show ?case by (intro on_span_inv span_ok_setters [where k = "''tags''"]) (auto dest: inv_span_ok)
next
  case (tx_set_data k st key x)
  then show ?case by (intro on_tx_inv span_ok_setters) (auto dest: inv_span_ok)
next
  case (tx_remove_data k st key)
  then show ?case by (intro on_tx_inv span_ok_setters) (auto dest: inv_span_ok)
next
  case (tx_status st s)
  then show ?case by (intro on_tx_inv span_ok_setters [where k = "''tags''"]) (auto dest: inv_span_ok)
qed

text \<open>A transaction that has just been started.\<close>

definition fresh :: "sentry_value \<Rightarrow> trace_state" where
  "fresh inner = \<lparr>tx = \<lparr>tx_inner = inner, children = [], children_cap = 0\<rparr>, spans = Map.empty, scope_span = None\<rparr>"

lemma fresh_inv:
  "span_ok tid inner \<Longrightarrow> sentry_value_get_by_key inner ''spans'' = VNull \<Longrightarrow> trace_inv m tid (fresh inner)"
  by (simp add: trace_inv_def root_ok_def children_ok_def fresh_def recorded_def)

lemma trace_reachable_inv: "(trace_step m)\<^sup>*\<^sup>* st st' \<Longrightarrow> trace_inv m tid st \<Longrightarrow> trace_inv m tid st'"
  by (induction rule: rtranclp_induct) (auto intro: trace_step_inv)

text \<open>C13. Whatever operations follow the start of a transaction, in any order: at most \<open>max_spans\<close> spans
  are recorded, every recorded span belongs to the trace of the transaction, is finished and no
  longer carries its sampling decision; every live span belongs to the same trace; and the array of live children has
  no duplicates, holds only span objects and stays within its capacity.\<close>

theorem trace_invariant:
  assumes "span_ok tid inner" "sentry_value_get_by_key inner ''spans'' = VNull" "(trace_step m)\<^sup>*\<^sup>* (fresh inner) st"
  shows "length (recorded (tx_inner (tx st))) \<le> m
    \<and> list_all (finished_ok tid) (recorded (tx_inner (tx st)))
    \<and> (\<forall>a v. spans st a = Some v \<longrightarrow> sentry_value_get_by_key v ''trace_id'' = VString tid)
    \<and> distinct (children (tx st)) \<and> set (children (tx st)) \<subseteq> dom (spans st)
    \<and> length (children (tx st)) \<le> children_cap (tx st)"
proof -
  have inv: "trace_inv m tid st" by (rule trace_reachable_inv [OF assms(3) fresh_inv [OF assms(1,2)]])
  have "sentry_value_get_by_key v ''trace_id'' = VString tid" if "spans st a = Some v" for a v
    using inv_span_ok(2) [OF inv that] by (auto simp: span_ok_def)
  with inv show ?thesis by (simp add: trace_inv_def root_ok_def children_ok_def)
qed

abbreviation demo_tx :: sentry_value where
  "demo_tx \<equiv> VObject False [(''trace_id'', VString ''t''), (''span_id'', VString ''s''), (''sampled'', VBool True)]"

abbreviation demo_start :: "trace_state \<Rightarrow> trace_state" where
  "demo_start \<equiv> sentry_transaction_start_child_ts_n sentry_uuid_nil 1 True 7 \<lparr>ptr = ''op'', len = 2\<rparr> \<lparr>ptr = [], len = 0\<rparr> (Some ''0'')"

theorem trace_invariant_witness:
  "\<exists>st v. (trace_step 1)\<^sup>*\<^sup>* (fresh demo_tx) st \<and> recorded (tx_inner (tx st)) = [v] \<and> finished_ok ''t'' v"
proof -
  define st1 where "st1 = demo_start (fresh demo_tx)"
  define st where "st = sentry_span_finish_ts 1 7 (Some ''9'') st1"
  have "trace_step 1 (fresh demo_tx) st1" unfolding st1_def by (rule trace_step.tx_child) (simp add: fresh_def)
  moreover have "trace_step 1 st1 st" unfolding st_def by (rule trace_step.finish)
  ultimately have r: "(trace_step 1)\<^sup>*\<^sup>* (fresh demo_tx) st" by (meson rtranclp.intros)
  have "length (recorded (tx_inner (tx st))) = 1"
    unfolding st_def st1_def fresh_def
    by (simp add: sentry_span_finish_ts_def sentry_transaction_start_child_ts_n_def sentry__value_span_new_n_def
        new_span_n_def sentry__span_new_def track_child_def sentry__transaction_remove_child_def append_finished_def
        recorded_def span_id_text_def sentry_value_is_null_def sentry_value_is_true_def sentry_value_new_object_def
        sentry_value_new_list_def for_first.simps Let_def)
  then obtain v where "recorded (tx_inner (tx st)) = [v]" by (cases "recorded (tx_inner (tx st))") auto
  moreover have "span_ok ''t'' demo_tx" "sentry_value_get_by_key demo_tx ''spans'' = VNull" by (simp_all add: span_ok_def keys_ok_def)
  ultimately show ?thesis using trace_invariant [of "''t''" demo_tx 1 st] r by auto
qed

text \<open>Removing an early child moves the youngest one in front of its siblings: the array, read from the
  back, is then no longer in leaf-first order.\<close>

lemma finish_order_not_leaf_first:
  "rev (children (sentry__transaction_remove_child \<lparr>tx_inner = VNull, children = [1, 2, 3], children_cap = 4\<rparr> 1)) = [2, 3]"
  by (simp add: sentry__transaction_remove_child_def for_first.simps)

end
