(* ===== verification/BgWorker.thy ===== *)
theory BgWorker
  imports Prelude "HOL-Library.Word" "HOL-Library.Multiset" "HOL-Library.Monad_Syntax"
begin

text \<open>
  The background worker (\<open>sentry_sync.c\<close>): a queue of reference-counted tasks in a singly linked list,
  sorted by the time they become due, with one worker thread.  The list is modelled on a heap of tasks with explicit
  \<open>next\<close> pointers, since the code shares nodes between the queue and the worker.  An operation returns
  \<open>None\<close> when it follows a null or dangling pointer or does not return; the theory shows that neither happens.
  Every part of an operation that runs without the lock is a step of its own, and the theorems hold
  for every interleaving of the steps.  Condition variables only shorten waits, and a wait is a step
  that changes nothing.  The log records what happened to each task.
\<close>

section \<open>Tasks and the worker\<close>

definition add_saturate :: "64 word \<Rightarrow> 64 word \<Rightarrow> 64 word" where
  "add_saturate a b = (if b \<le> - 1 - a then a + b else - 1)"

text \<open>The functions a task may run: the two of the worker itself, and those of its clients.\<close>

datatype task_exec_func = shutdown_task | sentry__flush_task | client_func nat

record sentry_bgworker_task_t =
  next_task :: "nat option"
  refcount :: int
  execute_after :: "64 word"
  exec_func :: task_exec_func
  task_data :: nat

type_synonym task_heap = "nat \<rightharpoonup> sentry_bgworker_task_t"

datatype task_event = Submitted nat | Executed nat | Dropped nat | Freed nat

text \<open>Where the worker thread is: at the top of its loop, about to run the task it has taken, past
  \<open>exec_func\<close>, past the release of its reference, or gone.\<close>

datatype worker_pc = Looping | Executing nat | Finished nat | Released nat | Exited

record sentry_bgworker_t =
  tasks :: task_heap
  first_task :: "nat option"
  last_task :: "nat option"
  current_task :: "nat option"
  running :: bool
  draining :: bool
  worker :: worker_pc
  log :: "task_event list"

definition sentry__bgworker_new :: sentry_bgworker_t where
  "sentry__bgworker_new = \<lparr>tasks = Map.empty, first_task = None, last_task = None, current_task = None,
     running = False, draining = False, worker = Exited, log = []\<rparr>"

definition sentry__task_incref :: "nat \<Rightarrow> sentry_bgworker_t \<Rightarrow> sentry_bgworker_t option" where
  "sentry__task_incref a s = do {
     t \<leftarrow> tasks s a;
     Some (s\<lparr>tasks := (tasks s)(a \<mapsto> t\<lparr>refcount := refcount t + 1\<rparr>)\<rparr>) }"

definition sentry__task_decref :: "nat \<Rightarrow> sentry_bgworker_t \<Rightarrow> sentry_bgworker_t option" where
  "sentry__task_decref a s = do {
     t \<leftarrow> tasks s a;
     Some (if refcount t = 1
           then s\<lparr>tasks := (tasks s)(a := None), log := log s @ [Freed (task_data t)]\<rparr>
           else s\<lparr>tasks := (tasks s)(a \<mapsto> t\<lparr>refcount := refcount t - 1\<rparr>)\<rparr>) }"

definition set_next :: "nat \<Rightarrow> nat option \<Rightarrow> sentry_bgworker_t \<Rightarrow> sentry_bgworker_t option" where
  "set_next p nxt s = do {
     t \<leftarrow> tasks s p;
     Some (s\<lparr>tasks := (tasks s)(p \<mapsto> t\<lparr>next_task := nxt\<rparr>)\<rparr>) }"

section \<open>Submission\<close>

text \<open>The search for the place of a task that is due before the last one.\<close>

partial_function (option) insert_loop ::
  "task_heap \<Rightarrow> 64 word \<Rightarrow> nat option \<Rightarrow> nat option \<Rightarrow> (nat option \<times> nat option) option" where
  "insert_loop h due prev cur =
     (if cur = None then Some (prev, None)
      else do {
          c \<leftarrow> cur;
          t \<leftarrow> h c;
          if execute_after t \<le> due then insert_loop h due (Some c) (next_task t)
          else Some (prev, Some c) })"

text \<open>The first element that may be preceded by a new task: the one after the task being executed.\<close>

definition after_current :: "sentry_bgworker_t \<Rightarrow> nat option option" where
  "after_current s =
     (case current_task s of
        None \<Rightarrow> Some (first_task s)
      | Some c \<Rightarrow> do { t \<leftarrow> tasks s c; Some (next_task t) })"

text \<open>Linking the node \<open>a\<close> between \<open>prev\<close> and \<open>nxt\<close>.\<close>

definition link_in :: "nat \<Rightarrow> nat option \<Rightarrow> nat option \<Rightarrow> sentry_bgworker_t \<Rightarrow> sentry_bgworker_t option" where
  "link_in a prev nxt s = do {
     s \<leftarrow> set_next a nxt s;
     case prev of None \<Rightarrow> Some (s\<lparr>first_task := Some a\<rparr>) | Some p \<Rightarrow> set_next p (Some a) s }"

definition insert_sorted :: "nat \<Rightarrow> 64 word \<Rightarrow> sentry_bgworker_t \<Rightarrow> sentry_bgworker_t option" where
  "insert_sorted a due s = do {
     start \<leftarrow> after_current s;
     (prev, cur) \<leftarrow> insert_loop (tasks s) due (current_task s) start;
     s \<leftarrow> link_in a prev cur s;
     Some (if cur = None then s\<lparr>last_task := Some a\<rparr> else s) }"

definition new_task :: "task_exec_func \<Rightarrow> nat \<Rightarrow> 64 word \<Rightarrow> sentry_bgworker_task_t" where
  "new_task func data due = \<lparr>next_task = None, refcount = 1, execute_after = due, exec_func = func, task_data = data\<rparr>"

text \<open>The allocator returns \<open>None\<close> or an address that is not in use.\<close>

definition sentry__bgworker_submit_at ::
  "nat option \<Rightarrow> task_exec_func \<Rightarrow> nat \<Rightarrow> 64 word \<Rightarrow> sentry_bgworker_t \<Rightarrow> (int \<times> sentry_bgworker_t) option" where
  "sentry__bgworker_submit_at addr func data due s =
     (case addr of
        None \<Rightarrow> Some (1, s\<lparr>log := log s @ [Submitted data, Dropped data, Freed data]\<rparr>)
      | Some a \<Rightarrow> do {
          let s = s\<lparr>tasks := (tasks s)(a \<mapsto> new_task func data due), log := log s @ [Submitted data]\<rparr>;
          s \<leftarrow> (if first_task s = None then Some (s\<lparr>first_task := Some a, last_task := Some a\<rparr>)
               else do {
                 l \<leftarrow> last_task s;
                 t \<leftarrow> tasks s l;
                 if execute_after t \<le> due
                 then do { s \<leftarrow> set_next l (Some a) s; Some (s\<lparr>last_task := Some a\<rparr>) }
                 else insert_sorted a due s });
          Some (0, s) })"

definition sentry__bgworker_submit ::
  "nat option \<Rightarrow> task_exec_func \<Rightarrow> nat \<Rightarrow> 64 word \<Rightarrow> sentry_bgworker_t \<Rightarrow> (int \<times> sentry_bgworker_t) option" where
  "sentry__bgworker_submit addr func data now s = sentry__bgworker_submit_at addr func data now s"

definition sentry__bgworker_submit_delayed ::
  "nat option \<Rightarrow> task_exec_func \<Rightarrow> nat \<Rightarrow> 64 word \<Rightarrow> 64 word \<Rightarrow> sentry_bgworker_t \<Rightarrow> (int \<times> sentry_bgworker_t) option" where
  "sentry__bgworker_submit_delayed addr func data delay_ms now s =
     sentry__bgworker_submit_at addr func data (add_saturate now delay_ms) s"

section \<open>Dropping queued tasks\<close>

text \<open>Taking the task \<open>a\<close> out of the queue, behind \<open>prev\<close>.\<close>

definition drop_task :: "nat \<Rightarrow> sentry_bgworker_task_t \<Rightarrow> nat option \<Rightarrow> sentry_bgworker_t \<Rightarrow> sentry_bgworker_t option" where
  "drop_task a t prev s = do {
     s \<leftarrow> (case prev of None \<Rightarrow> Some (s\<lparr>first_task := next_task t\<rparr>) | Some p \<Rightarrow> set_next p (next_task t) s);
     s \<leftarrow> (case current_task s of
             None \<Rightarrow> Some s
           | Some c \<Rightarrow>
               if c = a then Some (s\<lparr>current_task := None\<rparr>)
               else do { u \<leftarrow> tasks s c; if next_task u = Some a then set_next c (next_task t) s else Some s });
     sentry__task_decref a (s\<lparr>log := log s @ [Dropped (task_data t)]\<rparr>) }"

partial_function (option) foreach_loop ::
  "task_exec_func \<Rightarrow> (nat \<Rightarrow> bool) \<Rightarrow> nat option \<Rightarrow> nat option \<Rightarrow> nat \<Rightarrow> sentry_bgworker_t \<Rightarrow> (nat \<times> sentry_bgworker_t) option" where
  "foreach_loop func callback cur prev dropped s =
     (if cur = None then Some (dropped, s\<lparr>last_task := prev\<rparr>)
      else do {
          a \<leftarrow> cur;
          t \<leftarrow> tasks s a;
          if exec_func t = func \<and> callback (task_data t)
          then do {
            s \<leftarrow> drop_task a t prev s;
            foreach_loop func callback (next_task t) prev (dropped + 1) s }
          else foreach_loop func callback (next_task t) (Some a) dropped s })"

text \<open>A null callback drops every task of the function.\<close>

definition sentry__bgworker_foreach_matching ::
  "task_exec_func \<Rightarrow> (nat \<Rightarrow> bool) \<Rightarrow> sentry_bgworker_t \<Rightarrow> (nat \<times> sentry_bgworker_t) option" where
  "sentry__bgworker_foreach_matching func callback s = foreach_loop func callback (first_task s) None 0 s"

section \<open>The worker thread\<close>

definition sentry__bgworker_is_done :: "64 word \<Rightarrow> sentry_bgworker_t \<Rightarrow> bool option" where
  "sentry__bgworker_is_done now s =
     (if draining s then Some True
      else case first_task s of
        None \<Rightarrow> Some (\<not> running s)
      | Some a \<Rightarrow> do { t \<leftarrow> tasks s a; Some (now < execute_after t \<and> \<not> running s) })"

text \<open>The code that runs under the lock at the top of the loop; the clock is read twice.\<close>

definition worker_take :: "64 word \<Rightarrow> 64 word \<Rightarrow> sentry_bgworker_t \<Rightarrow> sentry_bgworker_t option" where
  "worker_take now now' s = do {
     is_done \<leftarrow> sentry__bgworker_is_done now s;
     if is_done then Some (s\<lparr>worker := Exited\<rparr>)
     else case first_task s of
       None \<Rightarrow> Some s
     | Some a \<Rightarrow> do {
         t \<leftarrow> tasks s a;
         if now' < execute_after t then Some s
         else do {
           s \<leftarrow> sentry__task_incref a s;
           Some (s\<lparr>current_task := Some a, worker := Executing a\<rparr>) } } }"

definition worker_exec :: "nat \<Rightarrow> sentry_bgworker_t \<Rightarrow> sentry_bgworker_t option" where
  "worker_exec a s = do {
     t \<leftarrow> tasks s a;
     Some (s\<lparr>running := (running s \<and> exec_func t \<noteq> shutdown_task),
             worker := Finished a, log := log s @ [Executed (task_data t)]\<rparr>) }"

definition worker_release :: "nat \<Rightarrow> sentry_bgworker_t \<Rightarrow> sentry_bgworker_t option" where
  "worker_release a s = do { s \<leftarrow> sentry__task_decref a s; Some (s\<lparr>worker := Released a\<rparr>) }"

definition worker_pop :: "nat \<Rightarrow> sentry_bgworker_t \<Rightarrow> sentry_bgworker_t option" where
  "worker_pop a s =
     (let s = s\<lparr>current_task := None, worker := Looping\<rparr>
      in if first_task s = Some a
         then do {
           t \<leftarrow> tasks s a;
           sentry__task_decref a
             (s\<lparr>first_task := next_task t, last_task := (if last_task s = Some a then None else last_task s)\<rparr>) }
         else Some s)"

definition worker_thread :: "64 word \<Rightarrow> 64 word \<Rightarrow> sentry_bgworker_t \<Rightarrow> sentry_bgworker_t option" where
  "worker_thread now now' s =
     (case worker s of
        Looping \<Rightarrow> worker_take now now' s
      | Executing a \<Rightarrow> worker_exec a s
      | Finished a \<Rightarrow> worker_release a s
      | Released a \<Rightarrow> worker_pop a s
      | Exited \<Rightarrow> Some s)"

text \<open>\<open>spawned\<close> tells whether the thread could be created.\<close>

definition sentry__bgworker_start :: "bool \<Rightarrow> sentry_bgworker_t \<Rightarrow> int \<times> sentry_bgworker_t" where
  "sentry__bgworker_start spawned s =
     (if spawned then (0, s\<lparr>running := True, draining := False, worker := Looping\<rparr>)
      else (1, s\<lparr>running := False, draining := False\<rparr>))"

section \<open>Flush and shutdown\<close>

partial_function (option) flush_scan :: "task_heap \<Rightarrow> 64 word \<Rightarrow> 64 word \<Rightarrow> nat option \<Rightarrow> 64 word option" where
  "flush_scan h deadline due cur =
     (if cur = None then Some due
      else do {
          c \<leftarrow> cur;
          t \<leftarrow> h c;
          if execute_after t \<le> deadline
          then flush_scan h deadline (if execute_after t > due then execute_after t else due) (next_task t)
          else Some due })"

text \<open>The time at which the sentinel of a flush becomes due, computed under the lock.\<close>

definition flush_due :: "64 word \<Rightarrow> 64 word \<Rightarrow> sentry_bgworker_t \<Rightarrow> 64 word option" where
  "flush_due before timeout s = do {
     start \<leftarrow> after_current s;
     flush_scan (tasks s) (add_saturate before timeout) before start }"

text \<open>The flag \<open>was_flushed\<close> of the sentinel is set when it is executed.\<close>

definition was_flushed :: "nat \<Rightarrow> sentry_bgworker_t \<Rightarrow> bool" where
  "was_flushed data s \<longleftrightarrow> Executed data \<in> set (log s)"

text \<open>One round of the waiting loop of a flush: \<open>Some r\<close> is the result.\<close>

definition flush_poll :: "nat \<Rightarrow> 64 word \<Rightarrow> 64 word \<Rightarrow> 64 word \<Rightarrow> sentry_bgworker_t \<Rightarrow> int option" where
  "flush_poll data started timeout now s =
     (if was_flushed data s \<or> (started < now \<and> timeout < now - started)
      then Some (if was_flushed data s then 0 else 1) else None)"

text \<open>One round of the waiting loop of a shutdown; \<open>on_timeout\<close> tells whether the callback is still to be called.\<close>

datatype shutdown_result = Shutdown_joins | Shutdown_times_out | Shutdown_waits bool

definition shutdown_poll ::
  "64 word \<Rightarrow> 64 word \<Rightarrow> 64 word \<Rightarrow> bool \<Rightarrow> sentry_bgworker_t \<Rightarrow> shutdown_result \<times> sentry_bgworker_t" where
  "shutdown_poll started timeout now on_timeout s =
     (if started < now \<and> timeout < now - started \<and> \<not> on_timeout
      then (Shutdown_times_out, s\<lparr>running := False\<rparr>)
      else
        let fires = (started < now \<and> timeout < now - started);
            s = (if fires then s\<lparr>draining := True\<rparr> else s)
        in if \<not> running s then (Shutdown_joins, s) else (Shutdown_waits (on_timeout \<and> \<not> fires), s))"

text \<open>The release of the tasks that are left when the last reference to the worker goes.\<close>

partial_function (option) free_tasks :: "nat option \<Rightarrow> sentry_bgworker_t \<Rightarrow> sentry_bgworker_t option" where
  "free_tasks cur s =
     (if cur = None then Some s
      else do {
          a \<leftarrow> cur;
          t \<leftarrow> tasks s a;
          s \<leftarrow> sentry__task_decref a (s\<lparr>log := log s @ [Dropped (task_data t)]\<rparr>);
          free_tasks (next_task t) s })"


section \<open>Lists in the heap\<close>

text \<open>\<open>seg h p xs r\<close>: following the \<open>next\<close> pointers from \<open>p\<close> visits \<open>xs\<close> and ends at \<open>r\<close>.\<close>

primrec seg :: "task_heap \<Rightarrow> nat option \<Rightarrow> nat list \<Rightarrow> nat option \<Rightarrow> bool" where
  "seg h p [] r \<longleftrightarrow> p = r"
| "seg h p (a # xs) r \<longleftrightarrow> p = Some a \<and> (\<exists>t. h a = Some t \<and> seg h (next_task t) xs r)"

definition last_opt :: "nat option \<Rightarrow> nat list \<Rightarrow> nat option" where
  "last_opt p xs = (if xs = [] then p else Some (last xs))"

definition hd_opt :: "nat list \<Rightarrow> nat option" where
  "hd_opt xs = (if xs = [] then None else Some (hd xs))"

lemma last_opt_simps [simp]:
  "last_opt p [] = p" "last_opt p (a # xs) = last_opt (Some a) xs" "last_opt p (xs @ [a]) = Some a"
  "last_opt p (xs @ a # ys) = last_opt (Some a) ys"
  by (auto simp: last_opt_def)

lemma hd_opt_simps [simp]: "hd_opt [] = None" "hd_opt (a # xs) = Some a"
  by (simp_all add: hd_opt_def)

lemma seg_append [simp]: "seg h p (xs @ ys) r \<longleftrightarrow> (\<exists>m. seg h p xs m \<and> seg h m ys r)"
  by (induction xs arbitrary: p) auto

lemma seg_upd [simp]: "a \<notin> set xs \<Longrightarrow> seg (h(a := x)) p xs r = seg h p xs r"
  by (induction xs arbitrary: p) auto

lemma seg_same_next: "h a = Some t \<Longrightarrow> next_task u = next_task t \<Longrightarrow> seg (h(a \<mapsto> u)) p xs r = seg h p xs r"
  by (induction xs arbitrary: p) auto

lemma seg_None: "seg h None xs None \<longleftrightarrow> xs = []"
  by (cases xs) auto

lemma seg_hd: "seg h p xs None \<Longrightarrow> p = hd_opt xs"
  by (cases xs) auto

lemma seg_dom: "seg h p xs r \<Longrightarrow> a \<in> set xs \<Longrightarrow> \<exists>t. h a = Some t"
  by (induction xs arbitrary: p) auto

text \<open>What a task is, whatever its successor.\<close>

definition content :: "task_heap \<Rightarrow> nat \<rightharpoonup> sentry_bgworker_task_t" where
  "content h a = map_option (\<lambda>t. t\<lparr>next_task := None\<rparr>) (h a)"

definition due :: "task_heap \<Rightarrow> nat \<Rightarrow> 64 word" where
  "due h a = execute_after (the (content h a))"

definition data_of :: "task_heap \<Rightarrow> nat \<Rightarrow> nat" where
  "data_of h a = task_data (the (content h a))"

lemma content_set_next [simp]: "h a = Some t \<Longrightarrow> content (h(a \<mapsto> t\<lparr>next_task := x\<rparr>)) = content h"
  by (rule ext) (simp add: content_def)

lemma content_upd: "content (h(a \<mapsto> t)) = (content h)(a \<mapsto> t\<lparr>next_task := None\<rparr>)" "content (h(a := None)) = (content h)(a := None)"
  by (rule ext, simp add: content_def)+

lemma content_Some [simp]: "h a = Some t \<Longrightarrow> due h a = execute_after t" "h a = Some t \<Longrightarrow> data_of h a = task_data t"
  by (simp_all add: due_def data_of_def content_def)

lemma dom_content: "dom (content h) = dom h"
  by (auto simp: content_def)

lemma content_refcount:
  "(\<forall>a t. h a = Some t \<longrightarrow> refcount t = f a) \<longleftrightarrow> (\<forall>a t. content h a = Some t \<longrightarrow> refcount t = f a)"
  by (fastforce simp: content_def)

text \<open>Inserting a node between two parts of a list.\<close>

lemma seg_insert_hd:
  assumes "seg h p ys None" "a \<notin> set ys" "h a = Some t"
  shows "seg (h(a \<mapsto> t\<lparr>next_task := p\<rparr>)) (Some a) (a # ys) None"
  using assms by simp

lemma seg_insert_mid:
  assumes "seg h p (xs @ [b]) m" "seg h m ys None" "distinct (xs @ b # ys)" "a \<notin> set (xs @ b # ys)" "h a = Some t" "h b = Some u"
  shows "seg (h(a \<mapsto> t\<lparr>next_task := m\<rparr>, b \<mapsto> u\<lparr>next_task := Some a\<rparr>)) p (xs @ b # a # ys) None"
  using assms by auto

section \<open>What the loops compute\<close>

lemma insert_loop_spec:
  "seg h cur xs None \<Longrightarrow>
     insert_loop h d prev cur =
       Some (last_opt prev (takeWhile (\<lambda>a. due h a \<le> d) xs), hd_opt (dropWhile (\<lambda>a. due h a \<le> d) xs))"
proof (induction xs arbitrary: prev cur)
  case Nil
  then show ?case by (subst insert_loop.simps) simp
next
  case (Cons a xs)
  then show ?case by (subst insert_loop.simps) auto
qed

lemma flush_scan_spec:
  "seg h cur xs None \<Longrightarrow>
     flush_scan h dl d cur = Some (foldl (\<lambda>d a. if due h a > d then due h a else d) d (takeWhile (\<lambda>a. due h a \<le> dl) xs))"
proof (induction xs arbitrary: d cur)
  case Nil
  then show ?case by (subst flush_scan.simps) simp
next
  case (Cons a xs)
  then show ?case by (subst flush_scan.simps) auto
qed


section \<open>The invariant\<close>

fun held :: "worker_pc \<Rightarrow> nat set" where
  "held (Executing a) = {a}"
| "held (Finished a) = {a}"
| "held _ = {}"

text \<open>How many tasks at the head of the queue are being executed.\<close>

definition busy :: "sentry_bgworker_t \<Rightarrow> nat" where
  "busy s = (if current_task s = None then 0 else 1)"

definition current_ok :: "nat list \<Rightarrow> sentry_bgworker_t \<Rightarrow> bool" where
  "current_ok q s \<longleftrightarrow>
     (case worker s of
        Looping \<Rightarrow> current_task s = None
      | Exited \<Rightarrow> current_task s = None
      | Released a \<Rightarrow> current_task s = None \<or> current_task s = Some a \<and> hd_opt q = Some a
      | Executing a \<Rightarrow> current_task s = None \<and> a \<notin> set q \<or> current_task s = Some a \<and> hd_opt q = Some a
      | Finished a \<Rightarrow> current_task s = None \<and> a \<notin> set q \<or> current_task s = Some a \<and> hd_opt q = Some a)"

text \<open>The queue \<open>q\<close> is the list in the heap, its tasks that wait are sorted, and a task is allocated
  exactly as long as the queue or the worker refers to it, with the number of these references as its count.\<close>

definition bgw_inv :: "nat list \<Rightarrow> sentry_bgworker_t \<Rightarrow> bool" where
  "bgw_inv q s \<longleftrightarrow>
     seg (tasks s) (first_task s) q None \<and> distinct q \<and> last_task s = last_opt None q \<and> current_ok q s
     \<and> dom (content (tasks s)) = set q \<union> held (worker s)
     \<and> (\<forall>a t. content (tasks s) a = Some t \<longrightarrow> refcount t = of_bool (a \<in> set q) + of_bool (a \<in> held (worker s)))
     \<and> sorted (map (due (tasks s)) (drop (busy s) q))"

lemma bgw_invD:
  assumes "bgw_inv q s"
  shows "seg (tasks s) (first_task s) q None" "distinct q" "last_task s = last_opt None q" "current_ok q s"
    "dom (content (tasks s)) = set q \<union> held (worker s)"
    "content (tasks s) a = Some t \<Longrightarrow> refcount t = of_bool (a \<in> set q) + of_bool (a \<in> held (worker s))"
    "sorted (map (due (tasks s)) (drop (busy s) q))"
  using assms by (simp_all add: bgw_inv_def)

lemma inv_fresh: "bgw_inv q s \<Longrightarrow> tasks s a = None \<Longrightarrow> a \<notin> set q \<union> held (worker s)"
  using bgw_invD(5) [of q s] by (metis dom_content domIff)

lemma current_ok_frame: "current_ok q s \<Longrightarrow> worker s' = worker s \<Longrightarrow> current_task s' = current_task s \<Longrightarrow> current_ok q s'"
  by (auto simp: current_ok_def split: worker_pc.splits)

lemma current_cases:
  assumes "current_ok q s"
  obtains "current_task s = None" "busy s = 0"
  | c r where "current_task s = Some c" "q = c # r" "busy s = 1"
proof (cases "current_task s")
  case None
  then show ?thesis using that(1) by (simp add: busy_def)
next
  case (Some c)
  with assms have "hd_opt q = Some c" by (auto simp: current_ok_def split: worker_pc.splits)
  with Some show ?thesis using that(2) [of c "tl q"] by (cases q) (auto simp: busy_def)
qed

definition qinsert :: "task_heap \<Rightarrow> nat \<Rightarrow> 64 word \<Rightarrow> nat \<Rightarrow> nat list \<Rightarrow> nat list" where
  "qinsert h k d a q =
     take k q @ takeWhile (\<lambda>b. due h b \<le> d) (drop k q) @ a # dropWhile (\<lambda>b. due h b \<le> d) (drop k q)"

lemma set_qinsert [simp]: "set (qinsert h k d a q) = insert a (set q)"
proof -
  have "set (take k q) \<union> (set (takeWhile (\<lambda>b. due h b \<le> d) (drop k q)) \<union> set (dropWhile (\<lambda>b. due h b \<le> d) (drop k q))) = set q"
    by (metis set_append append_take_drop_id takeWhile_dropWhile_id)
  then show ?thesis by (auto simp: qinsert_def)
qed

lemma distinct_qinsert: "distinct q \<Longrightarrow> a \<notin> set q \<Longrightarrow> distinct (qinsert h k d a q)"
proof -
  assume "distinct q" "a \<notin> set q"
  moreover have "mset (qinsert h k d a q) = mset (a # q)"
  proof -
    have "mset q = mset (take k q) + mset (drop k q)" by (metis append_take_drop_id mset_append)
    also have "mset (drop k q) = mset (takeWhile (\<lambda>b. due h b \<le> d) (drop k q)) + mset (dropWhile (\<lambda>b. due h b \<le> d) (drop k q))"
      by (metis mset_append takeWhile_dropWhile_id)
    finally show ?thesis by (simp add: qinsert_def)
  qed
  ultimately show ?thesis by (metis distinct.simps(2) mset_eq_imp_distinct_iff)
qed

lemma sorted_qinsert:
  assumes "sorted (map f (drop k q))" "k \<le> length q" "f a = d" "\<And>b. b \<in> set q \<Longrightarrow> due h b = f b"
  shows "sorted (map f (drop k (qinsert h k d a q)))"
proof -
  let ?r = "drop k q"
  have P: "takeWhile (\<lambda>b. due h b \<le> d) ?r = takeWhile (\<lambda>b. f b \<le> d) ?r" "dropWhile (\<lambda>b. due h b \<le> d) ?r = dropWhile (\<lambda>b. f b \<le> d) ?r"
    using assms(4) by (auto intro!: takeWhile_cong dropWhile_cong dest: in_set_dropD)
  have le: "\<forall>b \<in> set (takeWhile (\<lambda>b. f b \<le> d) ?r). f b \<le> d" by (auto dest: set_takeWhileD)
  have ge: "\<forall>b \<in> set (dropWhile (\<lambda>b. f b \<le> d) ?r). d < f b"
  proof (cases "dropWhile (\<lambda>b. f b \<le> d) ?r")
    case (Cons c cs)
    then have "d < f c" by (metis hd_dropWhile list.distinct(1) list.sel(1) not_le)
    moreover have "sorted (map f (c # cs))" using assms(1) Cons by (metis map_append sorted_append takeWhile_dropWhile_id)
    ultimately show ?thesis unfolding Cons by force
  qed simp
  have s: "sorted (map f (takeWhile (\<lambda>b. f b \<le> d) ?r))" "sorted (map f (dropWhile (\<lambda>b. f b \<le> d) ?r))"
    using assms(1) by (metis map_append sorted_append takeWhile_dropWhile_id)+
  define xs ys where "xs = takeWhile (\<lambda>b. f b \<le> d) ?r" and "ys = dropWhile (\<lambda>b. f b \<le> d) ?r"
  have "drop k (qinsert h k d a q) = xs @ a # ys" using assms(2) by (simp add: qinsert_def P xs_def ys_def)
  moreover have "sorted (map f (xs @ a # ys))"
    using s le ge assms(3) unfolding xs_def [symmetric] ys_def [symmetric] by (force simp: sorted_append)
  ultimately show ?thesis by simp
qed

text \<open>Linking a node behind a prefix of the queue.\<close>

lemma link_in_spec:
  assumes "seg (tasks s) (first_task s) (xs @ ys) None" "distinct (xs @ ys)" "a \<notin> set (xs @ ys)" "tasks s a = Some t"
  shows "\<exists>h f. link_in a (last_opt None xs) (hd_opt ys) s = Some (s\<lparr>tasks := h, first_task := f\<rparr>)
    \<and> seg h f (xs @ a # ys) None \<and> content h = content (tasks s)"
proof (cases xs rule: rev_cases)
  case Nil
  with assms seg_hd [of "tasks s" "first_task s" ys] seg_insert_hd [of "tasks s" "hd_opt ys" ys a t] show ?thesis
    by (intro exI [of _ "(tasks s)(a \<mapsto> t\<lparr>next_task := hd_opt ys\<rparr>)"] exI [of _ "Some a"]) (simp add: link_in_def set_next_def)
next
  case (snoc zs b)
  let ?m = "hd_opt ys"
  obtain u where u: "tasks s b = Some u" using seg_dom [OF assms(1), of b] snoc by auto
  have z: "seg (tasks s) (first_task s) (zs @ [b]) ?m" "seg (tasks s) ?m ys None"
    using assms(1) seg_hd [of "tasks s" _ ys] unfolding snoc by auto
  have "b \<noteq> a" using assms(3) snoc by auto
  moreover from seg_insert_mid [OF z, of a t u] assms(2-4) u snoc
  have "seg ((tasks s)(a \<mapsto> t\<lparr>next_task := ?m\<rparr>, b \<mapsto> u\<lparr>next_task := Some a\<rparr>)) (first_task s) (xs @ a # ys) None" by simp
  ultimately show ?thesis using assms(4) u snoc
    by (intro exI [of _ "(tasks s)(a \<mapsto> t\<lparr>next_task := ?m\<rparr>, b \<mapsto> u\<lparr>next_task := Some a\<rparr>)"] exI [of _ "first_task s"])
      (simp add: link_in_def set_next_def content_def fun_eq_iff)
qed


lemma after_current_spec:
  assumes "seg (tasks s) (first_task s) q None" "current_ok q s"
  shows "\<exists>p. after_current s = Some p \<and> seg (tasks s) p (drop (busy s) q) None"
  using assms(2) by (rule current_cases) (use assms(1) in \<open>auto simp: after_current_def\<close>)

lemma insert_sorted_spec:
  assumes "seg (tasks s) (first_task s) q None" "distinct q" "current_ok q s" "a \<notin> set q" "tasks s a = Some t"
    "last_task s = last_opt None q"
  shows "\<exists>h f. insert_sorted a d s
      = Some (s\<lparr>tasks := h, first_task := f, last_task := last_opt None (qinsert (tasks s) (busy s) d a q)\<rparr>)
    \<and> seg h f (qinsert (tasks s) (busy s) d a q) None \<and> content h = content (tasks s)"
proof -
  let ?P = "\<lambda>b. due (tasks s) b \<le> d"
  define pre where "pre = take (busy s) q @ takeWhile ?P (drop (busy s) q)"
  define ys where "ys = dropWhile ?P (drop (busy s) q)"
  have q: "q = pre @ ys" by (simp add: pre_def ys_def)
  have qi: "qinsert (tasks s) (busy s) d a q = pre @ a # ys" by (simp add: qinsert_def pre_def ys_def)
  obtain p where p: "after_current s = Some p" "seg (tasks s) p (drop (busy s) q) None"
    using after_current_spec [OF assms(1,3)] by blast
  have "last_opt (current_task s) (takeWhile ?P (drop (busy s) q)) = last_opt None pre"
    using assms(3) by (rule current_cases) (auto simp: pre_def)
  then have l: "insert_loop (tasks s) d (current_task s) p = Some (last_opt None pre, hd_opt ys)"
    using insert_loop_spec [OF p(2)] by (simp add: ys_def)
  from link_in_spec [of s pre ys a t] assms(1,2,4,5) q obtain h f where
    "link_in a (last_opt None pre) (hd_opt ys) s = Some (s\<lparr>tasks := h, first_task := f\<rparr>)"
    "seg h f (pre @ a # ys) None" "content h = content (tasks s)" by metis
  moreover have "hd_opt ys \<noteq> None \<Longrightarrow> last_opt None (pre @ a # ys) = last_task s" "hd_opt ys = None \<Longrightarrow> last_opt None (pre @ a # ys) = Some a"
    using assms(6) q by (auto simp: hd_opt_def last_opt_def split: if_splits)
  ultimately show ?thesis unfolding qi
    by (intro exI [of _ h] exI [of _ f] conjI) (auto simp: insert_sorted_def p(1) l)
qed

text \<open>A new task changes nothing for the tasks that are queued already.\<close>

lemma inv_insert:
  assumes inv: "bgw_inv q s" and a: "tasks s a = None" and new: "refcount t = 1" "execute_after t = d" "next_task t = None"
    and h: "content h = (content (tasks s))(a \<mapsto> t)" and q': "q' = qinsert (tasks s) (busy s) d a q" and seg: "seg h f q' None"
  shows "bgw_inv q' (s\<lparr>tasks := h, first_task := f, last_task := last_opt None q', log := l\<rparr>)"
proof -
  note I = bgw_invD [OF inv]
  have fresh: "a \<notin> set q" "a \<notin> held (worker s)" using inv_fresh [OF inv a] by auto
  have k: "busy s \<le> length q" using I(4) by (rule current_cases) auto
  have d: "due h a = d" "due h b = due (tasks s) b" if "b \<noteq> a" for b using that by (simp_all add: due_def h new(2))
  have "sorted (map (due h) (drop (busy s) q))" using I(7) fresh d(2)
    by (metis (no_types, lifting) in_set_dropD map_eq_conv)
  then have "sorted (map (due h) (drop (busy s) q'))" unfolding q'
    using k d fresh by (intro sorted_qinsert) (auto simp: due_def h new(2))
  moreover have q2: "distinct q'" "set q' = insert a (set q)" unfolding q' using I(2) fresh by (simp_all add: distinct_qinsert)
  moreover have "hd_opt q' = hd_opt q" if "current_task s \<noteq> None"
    using I(4) by (rule current_cases) (use that in \<open>simp_all add: q' qinsert_def\<close>)
  then have "current_ok q' (s\<lparr>tasks := h, first_task := f, last_task := last_opt None q', log := l\<rparr>)"
    using I(4) fresh by (auto simp: current_ok_def q2(2) split: worker_pc.splits)
  ultimately show ?thesis using seg I(5,6) fresh new(1) by (auto simp: bgw_inv_def h busy_def)
qed


lemma takeWhile_sorted_last:
  assumes "sorted (map f xs)" "xs \<noteq> []" "f (last xs) \<le> d"
  shows "takeWhile (\<lambda>x. f x \<le> d) xs = xs" "dropWhile (\<lambda>x. f x \<le> d) xs = []"
proof -
  have "f x \<le> d" if "x \<in> set xs" for x
  proof -
    have "f x \<le> f (last xs)" using assms(1) that by (cases xs rule: rev_cases) (auto simp: sorted_append)
    with assms(3) show ?thesis by simp
  qed
  then show "takeWhile (\<lambda>x. f x \<le> d) xs = xs" "dropWhile (\<lambda>x. f x \<le> d) xs = []" by auto
qed

text \<open>A submission is a stable insertion by due time, behind the task being executed.\<close>

lemma submit_at_spec:
  assumes inv: "bgw_inv q s" and a: "tasks s a = None"
  shows "\<exists>h f. let s' = s\<lparr>tasks := h, first_task := f, last_task := last_opt None (qinsert (tasks s) (busy s) d a q), log := log s @ [Submitted x]\<rparr>
    in sentry__bgworker_submit_at (Some a) func x d s = Some (0, s')
      \<and> bgw_inv (qinsert (tasks s) (busy s) d a q) s' \<and> content h = (content (tasks s))(a \<mapsto> new_task func x d)"
proof -
  note I = bgw_invD [OF inv]
  define t where "t = new_task func x d"
  let ?q = "qinsert (tasks s) (busy s) d a q"
  have fresh: "a \<notin> set q" using inv_fresh [OF inv a] by auto
  define s1 where "s1 = s\<lparr>tasks := (tasks s)(a \<mapsto> t), log := log s @ [Submitted x]\<rparr>"
  have c1: "content (tasks s1) = (content (tasks s))(a \<mapsto> t)" by (simp add: s1_def content_upd t_def new_task_def)
  have d1: "due (tasks s1) b = due (tasks s) b" if "b \<in> set q" for b using that fresh by (auto simp: due_def c1)
  have qi: "qinsert (tasks s1) (busy s1) d a q = ?q"
  proof -
    have "takeWhile (\<lambda>b. due (tasks s1) b \<le> d) (drop (busy s) q) = takeWhile (\<lambda>b. due (tasks s) b \<le> d) (drop (busy s) q)"
      "dropWhile (\<lambda>b. due (tasks s1) b \<le> d) (drop (busy s) q) = dropWhile (\<lambda>b. due (tasks s) b \<le> d) (drop (busy s) q)"
      using d1 by (auto intro!: takeWhile_cong dropWhile_cong dest: in_set_dropD)
    then show ?thesis by (simp add: qinsert_def busy_def s1_def)
  qed
  have seg1: "seg (tasks s1) (first_task s1) q None" using I(1) fresh by (simp add: s1_def)
  have "\<exists>h f. sentry__bgworker_submit_at (Some a) func x d s = Some (0, s1\<lparr>tasks := h, first_task := f, last_task := last_opt None ?q\<rparr>)
      \<and> seg h f ?q None \<and> content h = content (tasks s1)"
  proof (cases q rule: rev_cases)
    case Nil
    then have "first_task s1 = None" "?q = [a]" using seg1 by (simp_all add: qinsert_def new_task_def)
    then show ?thesis
      by (intro exI [of _ "tasks s1"] exI [of _ "Some a"]) (simp add: sentry__bgworker_submit_at_def s1_def t_def new_task_def)
  next
    case (snoc zs b)
    obtain f where ne: "first_task s1 = Some f" using seg1 snoc by (cases zs) auto
    have l: "last_task s1 = Some b" using I(3) snoc by (simp add: s1_def)
    obtain u where u: "tasks s1 b = Some u" using seg_dom [OF seg1, of b] snoc by auto
    have op: "sentry__bgworker_submit_at (Some a) func x d s = (if execute_after u \<le> d
        then Some (0, s1\<lparr>tasks := (tasks s1)(b \<mapsto> u\<lparr>next_task := Some a\<rparr>), last_task := Some a\<rparr>)
        else do { s' \<leftarrow> insert_sorted a d s1; Some (0, s') })"
      unfolding sentry__bgworker_submit_at_def option.case Let_def t_def [symmetric] s1_def [symmetric]
      using ne l u by (simp add: set_next_def new_task_def)
    show ?thesis
    proof (cases "execute_after u \<le> d")
      case True
      have "?q = q @ [a]"
      proof (cases "drop (busy s) q = []")
        case False
        then have "last (drop (busy s) q) = b" using snoc by (metis last_drop last_snoc drop_eq_Nil not_le)
        then have "due (tasks s) (last (drop (busy s) q)) \<le> d" using True u d1 [of b] snoc by simp
        from takeWhile_sorted_last [OF I(7) False this] show ?thesis by (simp add: qinsert_def new_task_def)
      qed (simp add: qinsert_def new_task_def)
      moreover have "seg ((tasks s1)(b \<mapsto> u\<lparr>next_task := Some a\<rparr>)) (first_task s1) (q @ [a]) None"
        using seg_insert_mid [of "tasks s1" "first_task s1" zs b None "[]" a t u] seg1 I(2) fresh u snoc
        by (simp add: s1_def t_def new_task_def fun_upd_twist)
      ultimately show ?thesis using op True u
        by (intro exI [of _ "(tasks s1)(b \<mapsto> u\<lparr>next_task := Some a\<rparr>)"] exI [of _ "first_task s1"]) simp
    next
      case False
      have "current_ok q s1" by (rule current_ok_frame [OF I(4)]) (simp_all add: s1_def)
      moreover have "tasks s1 a = Some t" "last_task s1 = last_opt None q" using I(3) by (simp_all add: s1_def)
      ultimately obtain h f where "insert_sorted a d s1 = Some (s1\<lparr>tasks := h, first_task := f, last_task := last_opt None ?q\<rparr>)"
        "seg h f ?q None" "content h = content (tasks s1)"
        using insert_sorted_spec [OF seg1 I(2), of a t d] fresh unfolding qi by blast
      then show ?thesis using op False by (intro exI [of _ h] exI [of _ f]) simp
    qed
  qed
  then obtain h f where r: "sentry__bgworker_submit_at (Some a) func x d s = Some (0, s1\<lparr>tasks := h, first_task := f, last_task := last_opt None ?q\<rparr>)"
      "seg h f ?q None" "content h = content (tasks s1)" by blast
  have "bgw_inv ?q (s\<lparr>tasks := h, first_task := f, last_task := last_opt None ?q, log := log s @ [Submitted x]\<rparr>)"
    by (rule inv_insert [OF inv a, where t = t]) (use r(2,3) c1 in \<open>simp_all add: t_def new_task_def\<close>)
  with r c1 show ?thesis by (intro exI [of _ h] exI [of _ f]) (simp add: s1_def t_def Let_def)
qed


subsection \<open>Dropping tasks\<close>

lemma seg_unlink:
  assumes "seg h p (ks @ a # rs) None" "distinct (ks @ a # rs)" "h a = Some t"
  shows "ks = [] \<Longrightarrow> seg h (next_task t) rs None" "next_task t = hd_opt rs"
    "ks = xs @ [b] \<Longrightarrow> h b = Some u \<Longrightarrow> seg (h(b \<mapsto> u\<lparr>next_task := next_task t\<rparr>)) p (ks @ rs) None"
  using assms seg_hd [of h "next_task t" rs] by auto

text \<open>In a well-formed queue only the predecessor points to a task, so the second pointer update of the code
  finds nothing to do.\<close>

lemma seg_pred_unique:
  "seg h p (c # xs @ a # ys) None \<Longrightarrow> distinct (c # xs @ a # ys) \<Longrightarrow> h c = Some u \<Longrightarrow> next_task u = Some a \<Longrightarrow> xs = []"
  by (cases xs) auto

text \<open>Inside the loop the pointer to the last task is not up to date.\<close>

definition bgw_inv0 :: "nat list \<Rightarrow> sentry_bgworker_t \<Rightarrow> bool" where
  "bgw_inv0 q s \<longleftrightarrow> bgw_inv q (s\<lparr>last_task := last_opt None q\<rparr>)"

definition decref_content :: "nat \<Rightarrow> bool \<Rightarrow> task_heap \<Rightarrow> task_heap" where
  "decref_content a in_use c =
     (if in_use then c(a \<mapsto> (the (c a))\<lparr>refcount := 1\<rparr>) else c(a := None))"

lemma decref_spec:
  assumes "tasks s a = Some t" "refcount t = 1 + of_bool b"
  shows "\<exists>h. sentry__task_decref a s = Some (s\<lparr>tasks := h, log := log s @ (if b then [] else [Freed (task_data t)])\<rparr>)
    \<and> content h = decref_content a b (content (tasks s))
    \<and> (\<forall>p xs. b \<or> a \<notin> set xs \<longrightarrow> seg h p xs None = seg (tasks s) p xs None)"
proof (cases b)
  case True
  then show ?thesis using assms seg_same_next [of "tasks s" a t "t\<lparr>refcount := 1\<rparr>"]
    by (intro exI [of _ "(tasks s)(a \<mapsto> t\<lparr>refcount := 1\<rparr>)"])
      (simp add: sentry__task_decref_def decref_content_def content_def fun_eq_iff)
next
  case False
  then show ?thesis using assms
    by (intro exI [of _ "(tasks s)(a := None)"]) (simp add: sentry__task_decref_def decref_content_def content_def fun_eq_iff)
qed

lemma due_decref: "b \<noteq> a \<Longrightarrow> content h = decref_content a x (content h0) \<Longrightarrow> due h b = due h0 b"
  by (simp add: due_def decref_content_def)

lemma data_decref: "content h = decref_content a x (content h0) \<Longrightarrow> b \<noteq> a \<or> x \<Longrightarrow> h0 b = Some t \<Longrightarrow> data_of h b = data_of h0 b"
  by (auto simp: data_of_def decref_content_def content_def)

text \<open>Removing one task from the queue keeps the invariant.\<close>

lemma inv_remove:
  assumes inv: "bgw_inv0 (ks @ a # rs) s" and h: "content h = decref_content a (a \<in> held (worker s)) (content (tasks s))"
    and seg: "seg h f (ks @ rs) None"
    and cur: "c = (if current_task s = Some a then None else current_task s)"
  shows "bgw_inv0 (ks @ rs) (s\<lparr>tasks := h, first_task := f, current_task := c, log := l\<rparr>)"
proof -
  let ?q = "ks @ a # rs"
  have I: "distinct ?q" "current_ok ?q s" "dom (content (tasks s)) = set ?q \<union> held (worker s)"
    "\<And>b t. content (tasks s) b = Some t \<Longrightarrow> refcount t = of_bool (b \<in> set ?q) + of_bool (b \<in> held (worker s))"
    "sorted (map (due (tasks s)) (drop (busy s) ?q))"
    using inv current_ok_frame [of ?q "s\<lparr>last_task := last_opt None ?q\<rparr>" s] unfolding bgw_inv0_def bgw_inv_def by (auto simp: busy_def)
  let ?s = "s\<lparr>tasks := h, first_task := f, current_task := c, log := l\<rparr>"
  have d: "due h b = due (tasks s) b" if "b \<in> set (ks @ rs)" for b
    by (rule due_decref [OF _ h]) (use that I(1) in auto)
  have sub: "sorted (map (due (tasks s)) (drop (busy ?s) (ks @ rs)))"
  proof (cases "current_task s")
    case None
    with I(5) cur show ?thesis by (simp add: busy_def sorted_append)
  next
    case (Some x)
    then have "hd_opt ?q = Some x" using I(2) by (auto simp: current_ok_def split: worker_pc.splits)
    with Some I(5) cur I(1) show ?thesis by (cases ks) (auto simp: busy_def sorted_append)
  qed
  have "map (due h) (drop (busy ?s) (ks @ rs)) = map (due (tasks s)) (drop (busy ?s) (ks @ rs))"
    by (rule map_cong [OF refl]) (use d in_set_dropD in fast)
  with sub have "sorted (map (due h) (drop (busy ?s) (ks @ rs)))" by (simp only:)
  moreover have "current_ok (ks @ rs) ?s"
  proof -
    have "hd_opt (ks @ rs) = hd_opt ?q" if "hd_opt ?q \<noteq> Some a" using that by (cases ks) auto
    then show ?thesis using I(1,2) cur by (auto simp: current_ok_def split: worker_pc.splits)
  qed
  moreover have "dom (content h) = set (ks @ rs) \<union> held (worker s)"
    using I(1,3) by (auto simp: h decref_content_def split: if_splits)
  moreover have "refcount t = of_bool (b \<in> set (ks @ rs)) + of_bool (b \<in> held (worker s))" if "content h b = Some t" for b t
    using I(1) I(4) [of b] that unfolding h decref_content_def by (auto split: if_splits)
  ultimately show ?thesis using seg I(1) unfolding bgw_inv0_def bgw_inv_def
    by (auto simp: busy_def elim: current_ok_frame)
qed


lemma current_hd: "current_ok q s \<Longrightarrow> current_task s = Some c \<Longrightarrow> hd_opt q = Some c"
  by (auto simp: current_ok_def split: worker_pc.splits)

lemma drop_task_spec:
  assumes inv: "bgw_inv0 (ks @ a # rs) s" and t: "tasks s a = Some t"
  shows "\<exists>h f. let s' = s\<lparr>tasks := h, first_task := f, current_task := (if current_task s = Some a then None else current_task s),
        log := log s @ Dropped (task_data t) # (if a \<in> held (worker s) then [] else [Freed (task_data t)])\<rparr>
    in drop_task a t (last_opt None ks) s = Some s' \<and> bgw_inv0 (ks @ rs) s'
      \<and> content h = decref_content a (a \<in> held (worker s)) (content (tasks s))"
proof -
  let ?q = "ks @ a # rs"
  have I: "seg (tasks s) (first_task s) ?q None" "distinct ?q" "current_ok ?q s"
    "refcount t = of_bool (a \<in> set ?q) + of_bool (a \<in> held (worker s))"
    using inv current_ok_frame [of ?q "s\<lparr>last_task := last_opt None ?q\<rparr>" s] t unfolding bgw_inv0_def bgw_inv_def content_def by force+
  define unlinked where "unlinked = (case last_opt None ks of None \<Rightarrow> Some (s\<lparr>first_task := next_task t\<rparr>) | Some p \<Rightarrow> set_next p (next_task t) s)"
  have "\<exists>h f. unlinked = Some (s\<lparr>tasks := h, first_task := f\<rparr>) \<and> seg h f (ks @ rs) None \<and> content h = content (tasks s)
      \<and> h a = Some t \<and> (\<forall>c. current_task s = Some c \<longrightarrow> c \<noteq> a \<longrightarrow> (\<exists>u. h c = Some u \<and> next_task u \<noteq> Some a))"
  proof (cases ks rule: rev_cases)
    case Nil
    have "c = a" if "current_task s = Some c" for c using current_hd [OF I(3) that] Nil by simp
    with Nil t seg_unlink(1) [OF I(1,2) t] show ?thesis
      by (intro exI [of _ "tasks s"] exI [of _ "next_task t"]) (auto simp: unlinked_def)
  next
    case (snoc xs b)
    obtain u where u: "tasks s b = Some u" using seg_dom [OF I(1), of b] snoc by auto
    let ?h = "(tasks s)(b \<mapsto> u\<lparr>next_task := next_task t\<rparr>)"
    have "\<exists>w. ?h c = Some w \<and> next_task w \<noteq> Some a" if c: "current_task s = Some c" for c
    proof (cases xs)
      case Nil
      then show ?thesis using current_hd [OF I(3) c] snoc seg_unlink(2) [OF I(1,2) t] I(2) by (cases rs) auto
    next
      case (Cons y ys)
      then have y: "c = y" using current_hd [OF I(3) c] snoc by simp
      obtain w where w: "tasks s y = Some w" using seg_dom [OF I(1), of y] snoc Cons by auto
      have "next_task w \<noteq> Some a"
        using seg_pred_unique [of "tasks s" "first_task s" y "ys @ [b]" a rs w] I(1,2) w snoc Cons by auto
      with w y I(2) snoc Cons show ?thesis by auto
    qed
    moreover have "b \<noteq> a" using I(2) snoc by auto
    moreover have "seg ?h (first_task s) (ks @ rs) None" by (rule seg_unlink(3) [OF I(1,2) t snoc u])
    ultimately show ?thesis using u t snoc
      by (intro exI [of _ ?h] exI [of _ "first_task s"]) (auto simp: unlinked_def set_next_def)
  qed
  then obtain h f where u: "unlinked = Some (s\<lparr>tasks := h, first_task := f\<rparr>)" "seg h f (ks @ rs) None" "content h = content (tasks s)" "h a = Some t"
    and nx: "\<And>c. current_task s = Some c \<Longrightarrow> c \<noteq> a \<Longrightarrow> \<exists>u. h c = Some u \<and> next_task u \<noteq> Some a" by blast
  define s1 where "s1 = s\<lparr>tasks := h, first_task := f, current_task := (if current_task s = Some a then None else current_task s), log := log s @ [Dropped (task_data t)]\<rparr>"
  have d: "drop_task a t (last_opt None ks) s = sentry__task_decref a s1"
    using u(1) nx unfolding drop_task_def unlinked_def [symmetric] by (auto simp: s1_def split: option.splits)
  have rc: "refcount t = 1 + of_bool (a \<in> held (worker s))" using I(4) by simp
  have s1: "tasks s1 a = Some t" "tasks s1 = h" using u(4) by (simp_all add: s1_def)
  obtain h' where h': "sentry__task_decref a s1 = Some (s1\<lparr>tasks := h', log := log s1 @ (if a \<in> held (worker s) then [] else [Freed (task_data t)])\<rparr>)"
      "content h' = decref_content a (a \<in> held (worker s)) (content (tasks s))"
      and sg: "\<And>p xs. a \<notin> set xs \<Longrightarrow> seg h' p xs None = seg h p xs None"
    using decref_spec [OF s1(1) rc] u(3) unfolding s1(2) by auto
  have "seg h' f (ks @ rs) None" using sg [of "ks @ rs" f] u(2) I(2) by (simp del: seg_append)
  note h' = h' this
  have "bgw_inv0 (ks @ rs) (s\<lparr>tasks := h', first_task := f, current_task := (if current_task s = Some a then None else current_task s),
        log := log s @ Dropped (task_data t) # (if a \<in> held (worker s) then [] else [Freed (task_data t)])\<rparr>)"
    by (rule inv_remove [OF inv h'(2,3) refl])
  with d h' show ?thesis by (intro exI [of _ h'] exI [of _ f]) (simp add: s1_def Let_def)
qed


section \<open>What becomes of a task\<close>

definition submitted :: "sentry_bgworker_t \<Rightarrow> nat multiset" where
  "submitted s = mset (concat (map (\<lambda>e. case e of Submitted d \<Rightarrow> [d] | _ \<Rightarrow> []) (log s)))"

definition executed :: "sentry_bgworker_t \<Rightarrow> nat multiset" where
  "executed s = mset (concat (map (\<lambda>e. case e of Executed d \<Rightarrow> [d] | _ \<Rightarrow> []) (log s)))"

definition dropped_tasks :: "sentry_bgworker_t \<Rightarrow> nat multiset" where
  "dropped_tasks s = mset (concat (map (\<lambda>e. case e of Dropped d \<Rightarrow> [d] | _ \<Rightarrow> []) (log s)))"

definition freed :: "sentry_bgworker_t \<Rightarrow> nat multiset" where
  "freed s = mset (concat (map (\<lambda>e. case e of Freed d \<Rightarrow> [d] | _ \<Rightarrow> []) (log s)))"

lemmas log_defs = submitted_def executed_def dropped_tasks_def freed_def

text \<open>The tasks that are allocated, the one that was executed and is not yet freed, and the one that will
  be freed without more ado.\<close>

definition live :: "task_heap \<Rightarrow> nat multiset" where
  "live h = image_mset (data_of h) (mset_set (dom (content h)))"

definition ran_task :: "sentry_bgworker_t \<Rightarrow> nat multiset" where
  "ran_task s = (case worker s of
      Finished a \<Rightarrow> {#data_of (tasks s) a#}
    | Released a \<Rightarrow> (if current_task s = Some a then {#data_of (tasks s) a#} else {#})
    | _ \<Rightarrow> {#})"

definition doomed :: "sentry_bgworker_t \<Rightarrow> nat multiset" where
  "doomed s = (case worker s of
      Executing a \<Rightarrow> (if current_task s = None then {#data_of (tasks s) a#} else {#})
    | _ \<Rightarrow> ran_task s)"

definition accounted :: "sentry_bgworker_t \<Rightarrow> bool" where
  "accounted s \<longleftrightarrow> submitted s = freed s + live (tasks s) \<and> executed s \<subseteq># freed s + ran_task s"

definition settled :: "nat list \<Rightarrow> sentry_bgworker_t \<Rightarrow> bool" where
  "settled q s \<longleftrightarrow> freed s + doomed s \<subseteq># executed s + dropped_tasks s
     \<and> (\<forall>a. worker s = Released a \<longrightarrow> current_task s = None \<longrightarrow> a \<notin> set q)"

lemma accounts_frame:
  assumes "tasks s' = tasks s" "current_task s' = current_task s" "worker s' = worker s" "log s' = log s"
  shows "accounted s' = accounted s" "settled q s' = settled q s"
proof -
  have "ran_task s' = ran_task s" "doomed s' = doomed s" using assms by (cases "worker s"; simp add: ran_task_def doomed_def)+
  with assms show "accounted s' = accounted s" "settled q s' = settled q s" by (simp_all add: accounted_def settled_def log_defs)
qed

lemma mset_weaken: "A \<subseteq># B \<Longrightarrow> A \<subseteq># add_mset x B"
  by (metis add_mset_add_single mset_subset_eq_add_left subset_mset.order_trans)

lemma mset_weaken2: "add_mset x A \<subseteq># B \<Longrightarrow> A \<subseteq># B"
  by (metis add_mset_add_single mset_subset_eq_add_left subset_mset.order_trans)

lemma live_insert:
  assumes "finite (dom (content h))" "content h' = (content h)(a \<mapsto> t)" "h a = None"
  shows "live h' = add_mset (task_data t) (live h)"
proof -
  have a: "a \<notin> dom (content h)" using assms(3) by (simp add: domIff content_def)
  have "image_mset (data_of h') (mset_set (dom (content h))) = live h" unfolding live_def
    by (rule image_mset_cong) (use a assms(1,2) in \<open>auto simp: data_of_def\<close>)
  with assms a show ?thesis by (simp add: live_def data_of_def)
qed

lemma live_decref:
  assumes "finite (dom (content h))" "content h' = decref_content a b (content h)" "h a = Some t"
  shows "live h = (if b then live h' else add_mset (task_data t) (live h'))"
proof -
  have a: "a \<in> dom (content h)" using assms(3) by (simp add: domIff content_def)
  have d: "image_mset (data_of h') (mset_set (dom (content h) - {a})) = image_mset (data_of h) (mset_set (dom (content h) - {a}))"
    by (rule image_mset_cong) (use assms(1,2) in \<open>auto simp: data_of_def decref_content_def\<close>)
  have e: "live h = add_mset (task_data t) (image_mset (data_of h) (mset_set (dom (content h) - {a})))"
    using a assms(1,3) by (simp add: live_def mset_set.remove)
  show ?thesis
  proof (cases b)
    case True
    then have "dom (content h') = dom (content h)" "data_of h' a = task_data t"
      using a assms(2,3) by (auto simp: decref_content_def data_of_def content_def)
    with True a assms(1) d e show ?thesis by (simp add: live_def mset_set.remove)
  next
    case False
    then have "dom (content h') = dom (content h) - {a}" using assms(2) by (simp add: decref_content_def)
    with False d e show ?thesis by (simp add: live_def)
  qed
qed

lemma inv_finite: "bgw_inv q s \<Longrightarrow> finite (dom (content (tasks s)))"
  using bgw_invD(5) [of q s] by (cases "worker s") simp_all

lemma inv0D: "bgw_inv0 q s \<Longrightarrow> seg (tasks s) (first_task s) q None" "bgw_inv0 q s \<Longrightarrow> distinct q"
  "bgw_inv0 q s \<Longrightarrow> current_ok q s" "bgw_inv0 q s \<Longrightarrow> finite (dom (content (tasks s)))"
  "bgw_inv0 q s \<Longrightarrow> bgw_inv q (s\<lparr>last_task := last_opt None q\<rparr>)"
  using inv_finite [of q "s\<lparr>last_task := last_opt None q\<rparr>"] current_ok_frame [of q "s\<lparr>last_task := last_opt None q\<rparr>" s]
  by (auto simp: bgw_inv0_def bgw_inv_def)

lemma inv_frame:
  assumes "bgw_inv q s" "tasks s' = tasks s" "first_task s' = first_task s" "last_task s' = last_task s"
    "current_task s' = current_task s" "worker s' = worker s"
  shows "bgw_inv q s'"
  using assms current_ok_frame [of q s s'] by (simp add: bgw_inv_def busy_def)

lemma inv_inv0: "bgw_inv q s \<Longrightarrow> bgw_inv0 q s"
  unfolding bgw_inv0_def by (rule inv_frame) (auto simp: bgw_inv_def)

text \<open>Dropping one task, with its accounts.\<close>

lemma drop_task_accounts:
  assumes inv: "bgw_inv0 (ks @ a # rs) s" and t: "tasks s a = Some t"
  shows "\<exists>s'. drop_task a t (last_opt None ks) s = Some s' \<and> bgw_inv0 (ks @ rs) s' \<and> worker s' = worker s
    \<and> (accounted s \<longrightarrow> accounted s') \<and> (settled (ks @ a # rs) s \<longrightarrow> settled (ks @ rs) s')"
proof -
  let ?b = "a \<in> held (worker s)"
  obtain h f where r0: "drop_task a t (last_opt None ks) s = Some (s\<lparr>tasks := h, first_task := f,
      current_task := (if current_task s = Some a then None else current_task s),
      log := log s @ Dropped (task_data t) # (if ?b then [] else [Freed (task_data t)])\<rparr>)"
    "bgw_inv0 (ks @ rs) (s\<lparr>tasks := h, first_task := f,
      current_task := (if current_task s = Some a then None else current_task s),
      log := log s @ Dropped (task_data t) # (if ?b then [] else [Freed (task_data t)])\<rparr>)"
    "content h = decref_content a ?b (content (tasks s))"
    using drop_task_spec [OF assms] by (auto simp: Let_def)
  let ?s = "s\<lparr>tasks := h, first_task := f, current_task := (if current_task s = Some a then None else current_task s),
      log := log s @ Dropped (task_data t) # (if ?b then [] else [Freed (task_data t)])\<rparr>"
  note r = r0
  have lg: "submitted ?s = submitted s" "executed ?s = executed s" "dropped_tasks ?s = add_mset (task_data t) (dropped_tasks s)"
    "freed ?s = (if ?b then freed s else add_mset (task_data t) (freed s))"
    by (simp_all add: log_defs)
  have lv: "live (tasks s) = (if ?b then live h else add_mset (task_data t) (live h))"
    by (rule live_decref [OF inv0D(4) [OF inv] r(3) t])
  have dt: "data_of h b = data_of (tasks s) b" if "b \<in> held (worker s) \<or> b \<noteq> a" "b \<in> held (worker s) \<or> current_task s = Some b" for b
  proof -
    have "b \<in> set (ks @ a # rs) \<union> held (worker s)"
      using that(2) current_hd [OF inv0D(3) [OF inv], of b] by (cases ks) auto
    then obtain u where "tasks s b = Some u"
      using bgw_invD(5) [OF inv0D(5) [OF inv]] dom_content [of "tasks s"] by auto
    with data_decref [OF r(3)] that(1) show ?thesis by (cases "b = a") auto
  qed
  have cur: "current_ok (ks @ a # rs) s" by (rule inv0D(3) [OF inv])
  have ce: "x = a" if "current_task s = Some a" "worker s = Executing x" for x
    using cur that by (simp add: current_ok_def)
  have rn: "ran_task s = (if worker s = Released a \<and> current_task s = Some a then add_mset (task_data t) (ran_task ?s) else ran_task ?s)"
    using dt t cur by (auto simp: ran_task_def current_ok_def split: worker_pc.splits)
  have "accounted s \<longrightarrow> accounted ?s"
    unfolding accounted_def lg using lv rn by (auto split: if_splits intro: mset_weaken)
  moreover have "settled (ks @ a # rs) s \<longrightarrow> settled (ks @ rs) ?s"
  proof
    assume st: "settled (ks @ a # rs) s"
    have "freed ?s + doomed ?s \<subseteq># add_mset (task_data t) (freed s + doomed s)"
      unfolding lg using rn dt t ce by (auto simp: doomed_def split: worker_pc.splits if_splits)
    also have "\<dots> \<subseteq># executed ?s + dropped_tasks ?s" using st by (simp add: settled_def lg)
    finally show "settled (ks @ rs) ?s" using st cur inv0D(2) [OF inv]
      by (auto simp: settled_def current_ok_def split: if_splits worker_pc.splits)
  qed
  ultimately show ?thesis using r(1,2) by (intro exI [of _ ?s]) simp
qed


lemma foreach_loop_spec:
  assumes "bgw_inv0 (ks @ rs) s"
  shows "\<exists>n s' q'. foreach_loop func cb (hd_opt rs) (last_opt None ks) m s = Some (n, s') \<and> bgw_inv q' s'
    \<and> worker s' = worker s \<and> (accounted s \<longrightarrow> accounted s') \<and> (settled (ks @ rs) s \<longrightarrow> settled q' s')"
  using assms
proof (induction rs arbitrary: ks m s)
  case Nil
  then have "bgw_inv ks (s\<lparr>last_task := last_opt None ks\<rparr>)" by (simp add: bgw_inv0_def)
  moreover have "accounted (s\<lparr>last_task := l\<rparr>) = accounted s" "settled ks (s\<lparr>last_task := l\<rparr>) = settled ks s" for l
    by (rule accounts_frame; simp)+
  ultimately show ?case by (subst foreach_loop.simps) force
next
  case (Cons a rs)
  then obtain t where t: "tasks s a = Some t" using seg_dom [OF inv0D(1) [OF Cons.prems], of a] by auto
  have nx: "next_task t = hd_opt rs" using seg_unlink(2) [OF inv0D(1,2) [OF Cons.prems] t] .
  show ?case
  proof (cases "exec_func t = func \<and> cb (task_data t)")
    case True
    obtain s1 where s1: "drop_task a t (last_opt None ks) s = Some s1" "bgw_inv0 (ks @ rs) s1" "worker s1 = worker s"
        "accounted s \<longrightarrow> accounted s1" "settled (ks @ a # rs) s \<longrightarrow> settled (ks @ rs) s1"
      using drop_task_accounts [OF Cons.prems t] by blast
    from Cons.IH [OF s1(2), of "m + 1"] obtain n s' q' where
      "foreach_loop func cb (hd_opt rs) (last_opt None ks) (m + 1) s1 = Some (n, s')" "bgw_inv q' s'" "worker s' = worker s1"
      "accounted s1 \<longrightarrow> accounted s'" "settled (ks @ rs) s1 \<longrightarrow> settled q' s'" by blast
    with True t nx s1 show ?thesis
      by (subst foreach_loop.simps) (intro exI [of _ n] exI [of _ s'] exI [of _ q'], simp)
  next
    case False
    from Cons.prems have "bgw_inv0 ((ks @ [a]) @ rs) s" by simp
    from Cons.IH [OF this, of m] t nx False show ?thesis by (subst foreach_loop.simps) auto
  qed
qed


subsection \<open>The steps of the worker\<close>

lemma take_spec:
  assumes inv: "bgw_inv q s" and w: "worker s = Looping"
  shows "\<exists>s'. worker_take now now' s = Some s' \<and> bgw_inv q s' \<and> (accounted s \<longrightarrow> accounted s') \<and> (settled q s \<longrightarrow> settled q s')"
proof -
  note I = bgw_invD [OF inv]
  have cur: "current_task s = None" using I(4) w by (simp add: current_ok_def)
  have exit: "bgw_inv q (s\<lparr>worker := Exited\<rparr>)" "accounted (s\<lparr>worker := Exited\<rparr>) = accounted s" "settled q (s\<lparr>worker := Exited\<rparr>) = settled q s"
    using inv w cur by (simp_all add: bgw_inv_def current_ok_def busy_def accounted_def settled_def log_defs ran_task_def doomed_def)
  show ?thesis
  proof (cases q)
    case Nil
    with I(1) have "first_task s = None" by simp
    with exit inv show ?thesis by (auto simp: worker_take_def sentry__bgworker_is_done_def)
  next
    case (Cons a r)
    with I(1) obtain t where f: "first_task s = Some a" and t: "tasks s a = Some t" by auto
    let ?s = "s\<lparr>tasks := (tasks s)(a \<mapsto> t\<lparr>refcount := refcount t + 1\<rparr>), current_task := Some a, worker := Executing a\<rparr>"
    have c: "content (tasks ?s) = (content (tasks s))(a \<mapsto> t\<lparr>next_task := None, refcount := refcount t + 1\<rparr>)"
      by (rule ext) (simp add: content_def)
    have d: "due (tasks ?s) = due (tasks s)" "data_of (tasks ?s) = data_of (tasks s)"
      using t by (auto simp: due_def data_of_def c content_def fun_eq_iff)
    have "refcount t = 1" using I(6) [of a "t\<lparr>next_task := None\<rparr>"] t Cons w by (simp add: content_def)
    then have "bgw_inv q ?s" using inv Cons w cur t seg_same_next [of "tasks s" a t "t\<lparr>refcount := refcount t + 1\<rparr>"]
      unfolding bgw_inv_def c d by (auto simp: current_ok_def busy_def)
    moreover have "dom (content (tasks ?s)) = dom (content (tasks s))" using c t by (auto simp: content_def)
    then have "live (tasks ?s) = live (tasks s)" by (simp only: live_def d)
    then have "accounted ?s = accounted s" "settled q ?s = settled q s"
      using w by (simp_all add: accounted_def settled_def log_defs ran_task_def doomed_def)
    ultimately show ?thesis using exit inv f t
      by (auto simp: worker_take_def sentry__bgworker_is_done_def sentry__task_incref_def)
  qed
qed

lemma held_live:
  assumes "bgw_inv q s" "a \<in> set q \<union> held (worker s)"
  obtains t where "tasks s a = Some t" "refcount t = of_bool (a \<in> set q) + of_bool (a \<in> held (worker s))"
proof -
  obtain t where "tasks s a = Some t" using bgw_invD(5) [OF assms(1)] assms(2) dom_content [of "tasks s"] by auto
  with bgw_invD(6) [OF assms(1), of a "t\<lparr>next_task := None\<rparr>"] show ?thesis by (intro that [of t]) (simp_all add: content_def)
qed

lemma exec_spec:
  assumes inv: "bgw_inv q s" and w: "worker s = Executing a"
  shows "\<exists>s'. worker_exec a s = Some s' \<and> bgw_inv q s' \<and> (accounted s \<longrightarrow> accounted s') \<and> (settled q s \<longrightarrow> settled q s')"
proof -
  obtain t where t: "tasks s a = Some t" by (rule held_live [OF inv, of a]) (use w in simp_all)
  let ?s = "s\<lparr>running := (running s \<and> exec_func t \<noteq> shutdown_task), worker := Finished a, log := log s @ [Executed (task_data t)]\<rparr>"
  have "bgw_inv q ?s" using inv w by (simp add: bgw_inv_def current_ok_def busy_def)
  moreover have "accounted s \<longrightarrow> accounted ?s" using w t by (auto simp: accounted_def log_defs ran_task_def)
  moreover have "settled q s \<longrightarrow> settled q ?s"
    using w t by (auto simp: settled_def log_defs ran_task_def doomed_def intro: mset_weaken mset_weaken2 split: if_splits)
  ultimately show ?thesis using t by (simp add: worker_exec_def)
qed

lemma release_spec:
  assumes inv: "bgw_inv q s" and w: "worker s = Finished a"
  shows "\<exists>s'. worker_release a s = Some s' \<and> bgw_inv q s' \<and> (accounted s \<longrightarrow> accounted s') \<and> (settled q s \<longrightarrow> settled q s')"
proof -
  note I = bgw_invD [OF inv]
  obtain t where t0: "tasks s a = Some t" "refcount t = of_bool (a \<in> set q) + of_bool (a \<in> held (worker s))"
    by (rule held_live [OF inv, of a]) (use w in simp)
  then have t: "tasks s a = Some t" "refcount t = 1 + of_bool (a \<in> set q)" using w by simp_all
  obtain h where h: "sentry__task_decref a s = Some (s\<lparr>tasks := h, log := log s @ (if a \<in> set q then [] else [Freed (task_data t)])\<rparr>)"
    "content h = decref_content a (a \<in> set q) (content (tasks s))"
    and sg: "\<forall>p xs. a \<in> set q \<or> a \<notin> set xs \<longrightarrow> seg h p xs None = seg (tasks s) p xs None"
    using decref_spec [OF t] by blast
  have "seg h (first_task s) q None" using sg I(1) by blast
  note h = h this
  let ?s = "s\<lparr>tasks := h, log := log s @ (if a \<in> set q then [] else [Freed (task_data t)]), worker := Released a\<rparr>"
  have cur: "current_task s = (if a \<in> set q then Some a else None)" "a \<in> set q \<Longrightarrow> hd_opt q = Some a"
    using I(4) w by (auto simp: current_ok_def hd_opt_def split: if_splits)
  have d: "due h b = due (tasks s) b" if "b \<in> set q" for b
    using that h(2) t(1) by (auto simp: due_def decref_content_def content_def)
  have "map (due h) (drop (busy s) q) = map (due (tasks s)) (drop (busy s) q)"
    by (rule map_cong [OF refl]) (use d in_set_dropD in fast)
  then have "sorted (map (due h) (drop (busy s) q))" using I(7) by (simp only:)
  then have "bgw_inv q ?s" using inv w h(2,3) t(1) cur unfolding bgw_inv_def
    by (auto simp: current_ok_def busy_def decref_content_def split: if_splits)
  moreover have lv: "live (tasks s) = (if a \<in> set q then live h else add_mset (task_data t) (live h))"
    by (rule live_decref [OF inv_finite [OF inv] h(2) t(1)])
  have dt: "a \<in> set q \<Longrightarrow> data_of h a = task_data t" using h(2) t(1) by (simp add: data_of_def decref_content_def content_def)
  have "accounted s \<longrightarrow> accounted ?s"
    using w t(1) cur lv dt by (auto simp: accounted_def log_defs ran_task_def)
  moreover have "settled q s \<longrightarrow> settled q ?s"
    using w t(1) cur dt by (auto simp: settled_def log_defs ran_task_def doomed_def)
  ultimately show ?thesis using h(1) by (intro exI [of _ ?s]) (simp add: worker_release_def)
qed

lemma pop_spec:
  assumes inv: "bgw_inv q s" and w: "worker s = Released a"
  shows "\<exists>s' q'. worker_pop a s = Some s' \<and> bgw_inv q' s' \<and> (accounted s \<longrightarrow> accounted s') \<and> (settled q s \<longrightarrow> settled q' s')"
proof (cases "first_task s = Some a")
  case False
  note I = bgw_invD [OF inv]
  have cur: "current_task s = None" using I(1,4) w False by (cases q) (auto simp: current_ok_def)
  let ?s = "s\<lparr>current_task := None, worker := Looping\<rparr>"
  have "bgw_inv q ?s" using inv w cur by (simp add: bgw_inv_def current_ok_def busy_def)
  moreover have "accounted s = accounted ?s" "settled q s \<longrightarrow> settled q ?s"
    using w cur by (simp_all add: accounted_def settled_def log_defs ran_task_def doomed_def)
  ultimately show ?thesis using False by (intro exI [of _ ?s] exI [of _ q]) (simp add: worker_pop_def)
next
  case True
  note I = bgw_invD [OF inv]
  obtain r where q: "q = a # r" using I(1) True by (cases q) auto
  obtain t where t0: "tasks s a = Some t" "refcount t = of_bool (a \<in> set q) + of_bool (a \<in> held (worker s))"
    by (rule held_live [OF inv, of a]) (use q in simp)
  then have t: "tasks s a = Some t" "refcount t = 1 + of_bool False" using q w by simp_all
  have sq: "seg (tasks s) (first_task s) ([] @ a # r) None" "distinct ([] @ a # r)" using I(1,2) q by simp_all
  note nt = seg_unlink(2) [OF sq t(1)] seg_unlink(1) [OF sq t(1) refl]
  define s1 where "s1 = s\<lparr>current_task := None, worker := Looping, first_task := next_task t,
      last_task := (if last_task s = Some a then None else last_task s)\<rparr>"
  have "last r \<noteq> a" if "r \<noteq> []" using I(2) q last_in_set [OF that] by auto
  then have l: "last_task s1 = last_opt None r" using I(3) q by (auto simp: s1_def last_opt_def)
  obtain h where h: "sentry__task_decref a s1 = Some (s1\<lparr>tasks := h, log := log s1 @ [Freed (task_data t)]\<rparr>)"
    "content h = decref_content a False (content (tasks s))"
    and sg: "\<forall>p xs. False \<or> a \<notin> set xs \<longrightarrow> seg h p xs None = seg (tasks s) p xs None"
    using decref_spec [of s1 a t False] t by (auto simp: s1_def)
  have "seg h (next_task t) r None" using sg nt(2) I(2) q by simp
  note h = h this
  let ?s = "s1\<lparr>tasks := h, log := log s1 @ [Freed (task_data t)]\<rparr>"
  have "bgw_inv0 ([] @ a # r) s" using inv_inv0 [OF inv] q by simp
  from inv_remove [OF this _ _ refl, of h "next_task t" "log s1 @ [Freed (task_data t)]"] h(2,3) w
  have "bgw_inv0 r (s\<lparr>tasks := h, first_task := next_task t, current_task := (if current_task s = Some a then None else current_task s),
      log := log s1 @ [Freed (task_data t)]\<rparr>)" by simp
  then have "bgw_inv r ?s" using l w unfolding bgw_inv0_def bgw_inv_def
    by (auto simp: s1_def current_ok_def busy_def split: if_splits)
  moreover have lv: "live (tasks s) = add_mset (task_data t) (live h)"
    using live_decref [OF inv_finite [OF inv] h(2) t(1)] by simp
  have "accounted s \<longrightarrow> accounted ?s"
    using w t(1) lv by (auto simp: accounted_def log_defs ran_task_def s1_def intro: mset_weaken split: if_splits)
  moreover have "current_task s = None \<or> current_task s = Some a" using I(4) w by (auto simp: current_ok_def)
  then have "settled q s \<longrightarrow> settled r ?s"
    using w t(1) q by (auto simp: settled_def log_defs ran_task_def doomed_def s1_def split: if_splits)
  moreover have "worker_pop a s = Some ?s"
    using True t(1) h(1) by (simp add: worker_pop_def s1_def Let_def cong: if_cong split del: if_split)
  ultimately show ?thesis by blast
qed


section \<open>Interleavings\<close>

text \<open>A step of a client or of the worker.  An address is free when the allocator returns it; \<open>bgw_step False\<close>
  has no other condition, \<open>bgw_step True\<close> moreover does not reuse the address of a task that the worker is about to
  compare with the head of the queue.\<close>

inductive bgw_step :: "bool \<Rightarrow> sentry_bgworker_t \<Rightarrow> sentry_bgworker_t \<Rightarrow> bool" for no_reuse :: bool where
  submit: "tasks s a = None \<Longrightarrow> \<not> (no_reuse \<and> worker s = Released a) \<Longrightarrow>
     sentry__bgworker_submit_at (Some a) func x d s = Some (r, s') \<Longrightarrow> bgw_step no_reuse s s'"
| submit_oom: "sentry__bgworker_submit_at None func x d s = Some (r, s') \<Longrightarrow> bgw_step no_reuse s s'"
| foreach: "sentry__bgworker_foreach_matching func cb s = Some (n, s') \<Longrightarrow> bgw_step no_reuse s s'"
| run: "worker_thread now now' s = Some s' \<Longrightarrow> bgw_step no_reuse s s'"
| start: "worker s = Exited \<Longrightarrow> bgw_step no_reuse s (snd (sentry__bgworker_start spawned s))"
| shutdown: "bgw_step no_reuse s (snd (shutdown_poll started timeout now on_timeout s))"

inductive_cases bgw_stepE: "bgw_step no_reuse s s'"

text \<open>Every operation returns, on every well-formed state, without following a bad pointer.\<close>

lemma submit_accounts:
  assumes inv: "bgw_inv q s" and a: "tasks s a = None"
  shows "\<exists>s'. sentry__bgworker_submit_at (Some a) func x d s = Some (0, s') \<and> bgw_inv (qinsert (tasks s) (busy s) d a q) s'
    \<and> (accounted s \<longrightarrow> accounted s') \<and> (settled q s \<longrightarrow> worker s \<noteq> Released a \<longrightarrow> settled (qinsert (tasks s) (busy s) d a q) s')"
proof -
  let ?q = "qinsert (tasks s) (busy s) d a q"
  obtain h f where r: "sentry__bgworker_submit_at (Some a) func x d s
      = Some (0, s\<lparr>tasks := h, first_task := f, last_task := last_opt None ?q, log := log s @ [Submitted x]\<rparr>)"
    "bgw_inv ?q (s\<lparr>tasks := h, first_task := f, last_task := last_opt None ?q, log := log s @ [Submitted x]\<rparr>)"
    "content h = (content (tasks s))(a \<mapsto> new_task func x d)"
    using submit_at_spec [OF assms, where d = d and func = func and x = x] by (auto simp: Let_def)
  let ?s = "s\<lparr>tasks := h, first_task := f, last_task := last_opt None ?q, log := log s @ [Submitted x]\<rparr>"
  have lv: "live h = add_mset x (live (tasks s))"
    using live_insert [OF inv_finite [OF inv] r(3) a] by (simp add: new_task_def)
  have dt: "data_of h b = data_of (tasks s) b" if "b \<in> held (worker s) \<or> current_task s = Some b" for b
  proof -
    have "b \<noteq> a" using that inv_fresh [OF inv a] current_hd [OF bgw_invD(4) [OF inv], of b] by (cases q) auto
    then show ?thesis by (simp add: data_of_def r(3))
  qed
  have "ran_task ?s = ran_task s" "doomed ?s = doomed s"
    using dt by (auto simp: ran_task_def doomed_def split: worker_pc.splits)
  then have "accounted s \<longrightarrow> accounted ?s" "settled q s \<longrightarrow> worker s \<noteq> Released a \<longrightarrow> settled ?q ?s"
    using lv by (auto simp: accounted_def settled_def log_defs)
  with r(1,2) show ?thesis by blast
qed

lemma worker_thread_spec:
  assumes "bgw_inv q s"
  shows "\<exists>s' q'. worker_thread now now' s = Some s' \<and> bgw_inv q' s' \<and> (accounted s \<longrightarrow> accounted s') \<and> (settled q s \<longrightarrow> settled q' s')"
proof (cases "worker s")
  case Looping
  with take_spec [OF assms Looping, of now now'] show ?thesis by (auto simp: worker_thread_def)
next
  case (Executing a)
  with exec_spec [OF assms Executing] show ?thesis by (auto simp: worker_thread_def)
next
  case (Finished a)
  with release_spec [OF assms Finished] show ?thesis by (auto simp: worker_thread_def)
next
  case (Released a)
  with pop_spec [OF assms Released] show ?thesis by (auto simp: worker_thread_def)
next
  case Exited
  with assms show ?thesis by (auto simp: worker_thread_def)
qed

lemma foreach_spec:
  assumes "bgw_inv q s"
  shows "\<exists>n s' q'. sentry__bgworker_foreach_matching func cb s = Some (n, s') \<and> bgw_inv q' s'
    \<and> (accounted s \<longrightarrow> accounted s') \<and> (settled q s \<longrightarrow> settled q' s')"
proof -
  have "bgw_inv0 ([] @ q) s" using inv_inv0 [OF assms] by simp
  from foreach_loop_spec [OF this, of func cb 0] seg_hd [OF bgw_invD(1) [OF assms]] show ?thesis
    by (auto simp: sentry__bgworker_foreach_matching_def)
qed

lemma step_inv:
  assumes "bgw_step no_reuse s s'" "bgw_inv q s"
  shows "\<exists>q'. bgw_inv q' s' \<and> (accounted s \<longrightarrow> accounted s') \<and> (no_reuse \<longrightarrow> settled q s \<longrightarrow> settled q' s')"
  using assms
proof (cases rule: bgw_step.cases)
  case (submit a func x d r)
  with submit_accounts [OF assms(2) submit(1), where d = d and func = func and x = x] show ?thesis by auto
next
  case (submit_oom func x d r)
  then have s': "s' = s\<lparr>log := log s @ [Submitted x, Dropped x, Freed x]\<rparr>" by (simp add: sentry__bgworker_submit_at_def)
  have "ran_task s' = ran_task s" "doomed s' = doomed s" by (cases "worker s"; simp add: s' ran_task_def doomed_def)+
  then have "accounted s \<longrightarrow> accounted s'" "settled q s \<longrightarrow> settled q s'"
    by (auto simp: s' accounted_def settled_def log_defs intro: mset_weaken)
  moreover have "bgw_inv q s'" by (rule inv_frame [OF assms(2)]) (simp_all add: s')
  ultimately show ?thesis by blast
next
  case (foreach func cb n)
  with foreach_spec [OF assms(2), of func cb] show ?thesis by auto
next
  case (run now now')
  with worker_thread_spec [OF assms(2), of now now'] show ?thesis by auto
next
  case (start spawned)
  have acc: "accounted s \<longrightarrow> accounted s'" "settled q s \<longrightarrow> settled q s'"
    using start by (auto simp: sentry__bgworker_start_def accounted_def settled_def log_defs ran_task_def doomed_def)
  have "bgw_inv q s'"
    using assms(2) start by (auto simp: sentry__bgworker_start_def bgw_inv_def current_ok_def busy_def)
  with acc show ?thesis by blast
next
  case (shutdown started timeout now on_timeout)
  then have "tasks s' = tasks s" "first_task s' = first_task s" "last_task s' = last_task s" "current_task s' = current_task s"
    "worker s' = worker s" "log s' = log s" by (auto simp: shutdown_poll_def Let_def)
  with inv_frame [OF assms(2)] accounts_frame [of s' s] show ?thesis by blast
qed

lemma reachable_inv:
  assumes "(bgw_step no_reuse)\<^sup>*\<^sup>* sentry__bgworker_new s"
  shows "\<exists>q. bgw_inv q s \<and> accounted s \<and> (no_reuse \<longrightarrow> settled q s)"
  using assms
proof (induction rule: rtranclp_induct)
  case base
  have "content (\<lambda>x. None) = (\<lambda>x. None)" by (rule ext) (simp add: content_def)
  then have "bgw_inv [] sentry__bgworker_new" "accounted sentry__bgworker_new" "settled [] sentry__bgworker_new"
    by (simp_all add: sentry__bgworker_new_def bgw_inv_def current_ok_def busy_def accounted_def settled_def log_defs live_def
        ran_task_def doomed_def)
  then show ?case by blast
next
  case (step s s')
  then obtain q where q: "bgw_inv q s" "accounted s" "no_reuse \<longrightarrow> settled q s" by blast
  from step_inv [OF step(2) q(1)] q(2,3) show ?case by blast
qed


subsection \<open>Flush\<close>

lemma add_saturate_min: "unat (add_saturate a b) = min (unat a + unat b) (2 ^ 64 - 1)"
proof -
  have m: "unat (- 1 :: 64 word) = 2 ^ 64 - 1" by (simp add: unsigned_minus_1_eq_mask mask_eq_exp_minus_1)
  have "unat (- 1 - a) = unat (- 1 :: 64 word) - unat a" by (rule unat_sub) (rule word_order.extremum)
  then have "b \<le> - 1 - a \<longleftrightarrow> unat b \<le> 2 ^ 64 - 1 - unat a" by (simp add: word_le_nat_alt m)
  moreover have "unat a < 2 ^ 64" using unsigned_less [of a] by simp
  ultimately show ?thesis using m by (auto simp: add_saturate_def unat_word_ariths min_def)
qed

lemma foldl_max:
  fixes f :: "nat \<Rightarrow> 64 word"
  shows "d \<le> foldl (\<lambda>d a. if f a > d then f a else d) d xs" "a \<in> set xs \<Longrightarrow> f a \<le> foldl (\<lambda>d a. if f a > d then f a else d) d xs"
proof -
  show *: "d \<le> foldl (\<lambda>d a. if f a > d then f a else d) d xs" for d xs
    by (induction xs arbitrary: d) (auto intro: order_trans less_imp_le)
  show "f a \<le> foldl (\<lambda>d a. if f a > d then f a else d) d xs" if "a \<in> set xs"
    using that
  proof (induction xs arbitrary: d)
    case (Cons x xs)
    then show ?case using * [of "if f x > d then f x else d" xs] by (auto intro: order_trans split: if_splits)
  qed simp
qed

lemma in_takeWhile_sorted:
  assumes "sorted (map f xs)" "x \<in> set xs" "f x \<le> d"
  shows "x \<in> set (takeWhile (\<lambda>y. f y \<le> d) xs)"
  using assms by (induction xs) auto

text \<open>The scan of a flush gives a time that is not before any waiting task that is due within the timeout.\<close>

lemma flush_due_spec:
  assumes inv: "bgw_inv q s"
  shows "\<exists>d p. flush_due before timeout s = Some d \<and> before \<le> d
    \<and> after_current s = Some p \<and> seg (tasks s) p (drop (busy s) q) None
    \<and> (\<forall>b \<in> set (drop (busy s) q). due (tasks s) b \<le> add_saturate before timeout \<longrightarrow> due (tasks s) b \<le> d)"
proof -
  note I = bgw_invD [OF inv]
  let ?r = "drop (busy s) q" and ?dl = "add_saturate before timeout"
  obtain p where p: "after_current s = Some p" "seg (tasks s) p ?r None" using after_current_spec [OF I(1,4)] by blast
  define d where "d = foldl (\<lambda>d a. if due (tasks s) a > d then due (tasks s) a else d) before (takeWhile (\<lambda>a. due (tasks s) a \<le> ?dl) ?r)"
  have "flush_due before timeout s = Some d" using p flush_scan_spec [OF p(2)] by (simp add: flush_due_def d_def)
  moreover have "before \<le> d" unfolding d_def by (rule foldl_max(1))
  moreover have "due (tasks s) b \<le> d" if "b \<in> set ?r" "due (tasks s) b \<le> ?dl" for b
    unfolding d_def by (rule foldl_max(2)) (rule in_takeWhile_sorted [OF I(7) that])
  ultimately show ?thesis using p by blast
qed

text \<open>A task is inserted behind every task that is not due later.\<close>

lemma submit_behind:
  assumes inv: "bgw_inv q s" and a: "tasks s a = None"
  shows "\<exists>s' q1 q2. sentry__bgworker_submit_at (Some a) func x d s = Some (0, s')
    \<and> q = q1 @ q2 \<and> seg (tasks s') (first_task s') (q1 @ a # q2) None
    \<and> (\<forall>b \<in> set q2. b \<in> set (drop (busy s) q) \<and> d < due (tasks s) b)"
proof -
  note I = bgw_invD [OF inv]
  let ?r = "drop (busy s) q" and ?P = "\<lambda>b. due (tasks s) b \<le> d"
  define q1 where "q1 = take (busy s) q @ takeWhile ?P ?r"
  define q2 where "q2 = dropWhile ?P ?r"
  have "b \<in> set ?r \<and> d < due (tasks s) b" if b: "b \<in> set q2" for b
  proof -
    have br: "b \<in> set ?r" using b by (auto simp: q2_def dest: set_dropWhileD)
    have "distinct (takeWhile ?P ?r @ dropWhile ?P ?r)" using I(2) by simp
    then have "b \<notin> set (takeWhile ?P ?r)" using b by (auto simp: q2_def simp del: takeWhile_dropWhile_id)
    then show ?thesis using in_takeWhile_sorted [OF I(7) br, of d] br by (metis not_le_imp_less)
  qed
  moreover have "q = q1 @ q2" by (simp add: q1_def q2_def)
  moreover have "qinsert (tasks s) (busy s) d a q = q1 @ a # q2" by (simp add: qinsert_def q1_def q2_def)
  ultimately show ?thesis using submit_accounts [OF inv a, of func x d] bgw_invD(1) by metis
qed


subsection \<open>The end of the worker\<close>

lemma free_tasks_spec:
  assumes "seg (tasks s) p q None" "distinct q" "dom (content (tasks s)) = set q"
    "\<And>a t. tasks s a = Some t \<Longrightarrow> refcount t = 1" "submitted s = freed s + live (tasks s)"
    "executed s \<subseteq># submitted s" "b \<Longrightarrow> freed s \<subseteq># executed s + dropped_tasks s"
  shows "\<exists>s'. free_tasks p s = Some s' \<and> tasks s' = Map.empty \<and> submitted s' = freed s'
    \<and> executed s' \<subseteq># submitted s' \<and> (b \<longrightarrow> freed s' \<subseteq># executed s' + dropped_tasks s')"
  using assms
proof (induction q arbitrary: p s)
  case Nil
  then have e: "tasks s = Map.empty" using dom_content [of "tasks s"] by auto
  then have "content (tasks s) = Map.empty" using Nil(3) by auto
  then have "live (tasks s) = {#}" by (simp add: live_def)
  with Nil e show ?case by (subst free_tasks.simps) simp
next
  case (Cons a q)
  then obtain t where t: "p = Some a" "tasks s a = Some t" "seg (tasks s) (next_task t) q None" by auto
  let ?s = "s\<lparr>tasks := (tasks s)(a := None), log := log s @ [Dropped (task_data t), Freed (task_data t)]\<rparr>"
  have r: "refcount t = 1" using Cons.prems(4) t(2) by simp
  have c: "content (tasks ?s) = decref_content a False (content (tasks s))" by (simp add: content_upd decref_content_def)
  have lv: "live (tasks s) = add_mset (task_data t) (live (tasks ?s))"
    using live_decref [OF _ c t(2)] Cons.prems(3) by simp
  have lg: "submitted ?s = submitted s" "executed ?s = executed s" "dropped_tasks ?s = add_mset (task_data t) (dropped_tasks s)"
    "freed ?s = add_mset (task_data t) (freed s)"
    by (simp_all add: log_defs)
  have "\<exists>s'. free_tasks (next_task t) ?s = Some s' \<and> tasks s' = Map.empty \<and> submitted s' = freed s'
    \<and> executed s' \<subseteq># submitted s' \<and> (b \<longrightarrow> freed s' \<subseteq># executed s' + dropped_tasks s')"
  proof (rule Cons.IH)
    show "seg (tasks ?s) (next_task t) q None" using t(3) Cons.prems(2) by simp
    show "distinct q" using Cons.prems(2) by simp
    show "dom (content (tasks ?s)) = set q" using Cons.prems(2,3) c by (auto simp: decref_content_def)
    show "refcount u = 1" if "tasks ?s b = Some u" for b u using that Cons.prems(4) by (auto split: if_splits)
    show "submitted ?s = freed ?s + live (tasks ?s)" using Cons.prems(5) lv lg by simp
    show "executed ?s \<subseteq># submitted ?s" using Cons.prems(6) lg by simp
    show "freed ?s \<subseteq># executed ?s + dropped_tasks ?s" if b using Cons.prems(7) [OF that] lg by simp
  qed
  with t r show ?case by (subst free_tasks.simps) (simp add: sentry__task_decref_def)
qed

section \<open>Properties\<close>

text \<open>C29. In every state that any interleaving of submissions, drops, shutdowns and worker steps reaches, every
  operation of the background worker returns: no operation follows a null or freed task, and no traversal of the
  queue runs in a cycle.\<close>

theorem bgworker_operations_return:
  assumes "(bgw_step False)\<^sup>*\<^sup>* sentry__bgworker_new s"
  shows "(\<forall>a func x d. tasks s a = None \<longrightarrow> (\<exists>s'. sentry__bgworker_submit_at (Some a) func x d s = Some (0, s')))
    \<and> (\<forall>func cb. \<exists>n s'. sentry__bgworker_foreach_matching func cb s = Some (n, s'))
    \<and> (\<forall>now now'. \<exists>s'. worker_thread now now' s = Some s')"
proof -
  obtain q where q: "bgw_inv q s" using reachable_inv [OF assms] by blast
  show ?thesis using submit_accounts [OF q] foreach_spec [OF q] worker_thread_spec [OF q] by blast
qed

text \<open>C6. When the worker thread has ended and the last reference to the worker is dropped, every task that was ever
  submitted has been freed exactly once, and none was executed more often than it was submitted.  If
  moreover the allocator never hands out the address that the worker is about to compare with the head of the queue, then every
  freed task had been executed or was dropped explicitly.\<close>

theorem bgworker_frees_each_task_once:
  assumes "(bgw_step no_reuse)\<^sup>*\<^sup>* sentry__bgworker_new s" "worker s = Exited"
  shows "\<exists>s'. free_tasks (first_task s) s = Some s' \<and> tasks s' = Map.empty \<and> submitted s' = freed s'
    \<and> executed s' \<subseteq># submitted s' \<and> (no_reuse \<longrightarrow> freed s' \<subseteq># executed s' + dropped_tasks s')"
proof -
  obtain q where q: "bgw_inv q s" "accounted s" "no_reuse \<longrightarrow> settled q s" using reachable_inv [OF assms(1)] by blast
  note I = bgw_invD [OF q(1)]
  have r: "ran_task s = {#}" "doomed s = {#}" using assms(2) by (simp_all add: ran_task_def doomed_def)
  show ?thesis
  proof (rule free_tasks_spec [OF I(1,2)])
    show "dom (content (tasks s)) = set q" using I(5) assms(2) by simp
    show "refcount t = 1" if "tasks s a = Some t" for a t
    proof -
      have c: "content (tasks s) a = Some (t\<lparr>next_task := None\<rparr>)" using that by (simp add: content_def)
      then have "a \<in> set q" using I(5) assms(2) by auto
      with I(6) [OF c] assms(2) show ?thesis by simp
    qed
    show "submitted s = freed s + live (tasks s)" using q(2) by (simp add: accounted_def)
    show "executed s \<subseteq># submitted s" using q(2) r
      by (simp add: accounted_def) (metis mset_subset_eq_add_left subset_mset.order_trans)
    show "freed s \<subseteq># executed s + dropped_tasks s" if no_reuse using that q(3) r by (simp add: settled_def)
  qed
qed

text \<open>C30. A flush scans the queue under the lock and inserts its sentinel in a second critical section, with any steps of other threads
  and of the worker in between.  The sentinel is then behind the running task and behind every task that was waiting at the time of
  the scan, was due within the timeout and still waits: a task behind the sentinel is due later than the sentinel, and either it was
  not waiting when the queue was scanned or it is due after the deadline.\<close>

theorem bgworker_flush_covers_due_tasks:
  assumes "(bgw_step False)\<^sup>*\<^sup>* sentry__bgworker_new s" "(bgw_step False)\<^sup>*\<^sup>* s t" "tasks t a = None"
  shows "\<exists>d p r s' q1 q2. flush_due before timeout s = Some d
    \<and> after_current s = Some p \<and> seg (tasks s) p r None
    \<and> sentry__bgworker_submit_at (Some a) sentry__flush_task x d t = Some (0, s')
    \<and> seg (tasks t) (first_task t) (q1 @ q2) None \<and> seg (tasks s') (first_task s') (q1 @ a # q2) None
    \<and> (\<forall>b \<in> set q2. current_task t \<noteq> Some b \<and> before \<le> d \<and> d < due (tasks t) b
         \<and> (b \<in> set r \<and> due (tasks s) b = due (tasks t) b \<longrightarrow> add_saturate before timeout < due (tasks t) b))"
proof -
  obtain q where q: "bgw_inv q s" using reachable_inv [OF assms(1)] by blast
  obtain u where u: "bgw_inv u t" using reachable_inv [of False t] assms(1,2) by (meson rtranclp_trans)
  obtain d p where d: "flush_due before timeout s = Some d" "before \<le> d" "after_current s = Some p" "seg (tasks s) p (drop (busy s) q) None"
    "\<And>b. b \<in> set (drop (busy s) q) \<Longrightarrow> due (tasks s) b \<le> add_saturate before timeout \<Longrightarrow> due (tasks s) b \<le> d"
    using flush_due_spec [OF q, of before timeout] by blast
  obtain s' q1 q2 where s': "sentry__bgworker_submit_at (Some a) sentry__flush_task x d t = Some (0, s')" "u = q1 @ q2"
    "seg (tasks s') (first_task s') (q1 @ a # q2) None" "\<And>b. b \<in> set q2 \<Longrightarrow> b \<in> set (drop (busy t) u) \<and> d < due (tasks t) b"
    using submit_behind [OF u assms(3), of sentry__flush_task x d] by blast
  have "current_task t \<noteq> Some b" if "b \<in> set (drop (busy t) u)" for b
    using bgw_invD(2,4) [OF u] that by (auto elim!: current_cases)
  moreover have "add_saturate before timeout < due (tasks t) b" if "b \<in> set q2" "b \<in> set (drop (busy s) q)" "due (tasks s) b = due (tasks t) b" for b
    using s'(4) [OF that(1)] d(5) [OF that(2)] that(3) by (metis leD not_le_imp_less)
  ultimately have behind: "\<forall>b \<in> set q2. current_task t \<noteq> Some b \<and> before \<le> d \<and> d < due (tasks t) b
         \<and> (b \<in> set (drop (busy s) q) \<and> due (tasks s) b = due (tasks t) b \<longrightarrow> add_saturate before timeout < due (tasks t) b)"
    using s'(4) d(2) by blast
  have "seg (tasks t) (first_task t) (q1 @ q2) None" using bgw_invD(1) [OF u] s'(2) by simp
  then show ?thesis using d(1,3,4) s'(1,3) behind by blast
qed


text \<open>A concrete run: a task is taken by the worker and dropped from the queue by a client while it runs.\<close>

definition demo_run :: "sentry_bgworker_t option" where
  "demo_run = do {
     let s = snd (sentry__bgworker_start True sentry__bgworker_new);
     (r, s) \<leftarrow> sentry__bgworker_submit_at (Some 1) (client_func 0) 10 0 s;
     s \<leftarrow> worker_thread 0 0 s;
     s \<leftarrow> worker_thread 0 0 s;
     (n, s) \<leftarrow> sentry__bgworker_foreach_matching (client_func 0) (\<lambda>_. True) s;
     worker_thread 0 0 s }"

lemma demo_run_reachable: "demo_run = Some s \<Longrightarrow> (bgw_step b)\<^sup>*\<^sup>* sentry__bgworker_new s"
proof -
  assume "demo_run = Some s"
  moreover define s0 where "s0 = snd (sentry__bgworker_start True sentry__bgworker_new)"
  ultimately obtain r s1 s2 s3 n s4 where
    st: "sentry__bgworker_submit_at (Some 1) (client_func 0) 10 0 s0 = Some (r, s1)" "worker_thread 0 0 s1 = Some s2"
      "worker_thread 0 0 s2 = Some s3" "sentry__bgworker_foreach_matching (client_func 0) (\<lambda>_. True) s3 = Some (n, s4)"
      "worker_thread 0 0 s4 = Some s"
    by (auto simp: demo_run_def bind_eq_Some_conv)
  have "bgw_step b sentry__bgworker_new s0" unfolding s0_def by (rule bgw_step.start) (simp add: sentry__bgworker_new_def)
  moreover have "bgw_step b s0 s1" by (rule bgw_step.submit [OF _ _ st(1)]) (simp_all add: s0_def sentry__bgworker_start_def sentry__bgworker_new_def)
  moreover have "bgw_step b s1 s2" by (rule bgw_step.run [OF st(2)])
  moreover have "bgw_step b s2 s3" by (rule bgw_step.run [OF st(3)])
  moreover have "bgw_step b s3 s4" by (rule bgw_step.foreach [OF st(4)])
  moreover have "bgw_step b s4 s" by (rule bgw_step.run [OF st(5)])
  ultimately show ?thesis by (meson rtranclp.intros)
qed

lemma demo_run_eq:
  "demo_run = Some \<lparr>tasks = Map.empty(1 := None), first_task = None, last_task = None, current_task = None, running = True,
     draining = False, worker = Released 1, log = [Submitted 10, Executed 10, Dropped 10, Freed 10]\<rparr>"
  unfolding demo_run_def sentry__bgworker_start_def sentry__bgworker_new_def sentry__bgworker_submit_at_def worker_thread_def
    worker_take_def sentry__bgworker_is_done_def sentry__task_incref_def worker_exec_def sentry__bgworker_foreach_matching_def worker_release_def
  by (simp add: new_task_def, subst foreach_loop.simps, simp add: drop_task_def sentry__task_decref_def,
      subst foreach_loop.simps, simp add: sentry__task_decref_def)


abbreviation demo_state :: sentry_bgworker_t where
  "demo_state \<equiv> \<lparr>tasks = Map.empty(1 := None), first_task = None, last_task = None, current_task = None, running = True,
     draining = False, worker = Released 1, log = [Submitted 10, Executed 10, Dropped 10, Freed 10]\<rparr>"

lemma demo_reachable: "(bgw_step b)\<^sup>*\<^sup>* sentry__bgworker_new demo_state"
  by (rule demo_run_reachable) (rule demo_run_eq)

theorem bgworker_operations_return_witness: "\<exists>n s'. sentry__bgworker_foreach_matching (client_func 0) (\<lambda>_. True) demo_state = Some (n, s')"
  using bgworker_operations_return [OF demo_reachable] by blast

text \<open>The worker is drained with a task left in the queue.\<close>

definition demo_exit :: "sentry_bgworker_t option" where
  "demo_exit = do {
     s \<leftarrow> worker_thread 0 0 demo_state;
     (r, s) \<leftarrow> sentry__bgworker_submit_at (Some 2) (client_func 0) 20 5 s;
     let s = snd (shutdown_poll 0 1 5 True s);
     worker_thread 0 0 s }"

lemma demo_exit_eq:
  "demo_exit = Some \<lparr>tasks = Map.empty(1 := None, 2 \<mapsto> new_task (client_func 0) 20 5), first_task = Some 2, last_task = Some 2,
     current_task = None, running = True, draining = True, worker = Exited,
     log = [Submitted 10, Executed 10, Dropped 10, Freed 10, Submitted 20]\<rparr>"
  by (simp add: demo_exit_def worker_thread_def worker_pop_def sentry__bgworker_submit_at_def shutdown_poll_def worker_take_def
      sentry__bgworker_is_done_def)

lemma demo_exit_reachable: "demo_exit = Some s \<Longrightarrow> (bgw_step b)\<^sup>*\<^sup>* sentry__bgworker_new s"
proof -
  assume "demo_exit = Some s"
  then obtain s1 r s2 where
    st: "worker_thread 0 0 demo_state = Some s1" "sentry__bgworker_submit_at (Some 2) (client_func 0) 20 5 s1 = Some (r, s2)"
      "worker_thread 0 0 (snd (shutdown_poll 0 1 5 True s2)) = Some s"
    by (auto simp: demo_exit_def bind_eq_Some_conv)
  have s1: "s1 = demo_state\<lparr>worker := Looping\<rparr>" using st(1) by (simp add: worker_thread_def worker_pop_def)
  have "bgw_step b demo_state s1" by (rule bgw_step.run [OF st(1)])
  moreover have "bgw_step b s1 s2" by (rule bgw_step.submit [OF _ _ st(2)]) (simp_all add: s1)
  moreover have "bgw_step b s2 (snd (shutdown_poll 0 1 5 True s2))" by (rule bgw_step.shutdown)
  moreover have "bgw_step b (snd (shutdown_poll 0 1 5 True s2)) s" by (rule bgw_step.run [OF st(3)])
  ultimately show ?thesis using demo_reachable [of b] by (meson rtranclp.rtrancl_into_rtrancl)
qed

theorem bgworker_frees_each_task_once_witness:
  "\<exists>s s'. (bgw_step True)\<^sup>*\<^sup>* sentry__bgworker_new s \<and> worker s = Exited \<and> submitted s = {#10, 20#}
    \<and> free_tasks (first_task s) s = Some s' \<and> submitted s' = freed s' \<and> freed s' \<subseteq># executed s' + dropped_tasks s'"
proof -
  obtain s where s: "demo_exit = Some s" using demo_exit_eq by blast
  then have "worker s = Exited" "submitted s = {#10, 20#}" unfolding demo_exit_eq by (auto simp: submitted_def)
  with bgworker_frees_each_task_once [OF demo_exit_reachable [OF s, of True]] demo_exit_reachable [OF s, of True] show ?thesis by blast
qed

text \<open>A flush scans the empty queue; before it inserts its sentinel, another thread submits a task.\<close>

theorem bgworker_flush_covers_due_tasks_witness:
  "\<exists>t d s'. sentry__bgworker_submit_at (Some 2) (client_func 0) 20 5 demo_state = Some (0, t) \<and> flush_due 3 9 demo_state = Some d
     \<and> sentry__bgworker_submit_at (Some 7) sentry__flush_task 0 d t = Some (0, s')"
proof -
  obtain t where t: "sentry__bgworker_submit_at (Some 2) (client_func 0) 20 5 demo_state = Some (0, t)" "tasks t 7 = None"
    by (simp add: sentry__bgworker_submit_at_def)
  have "bgw_step False demo_state t" by (rule bgw_step.submit [OF _ _ t(1)]) simp_all
  then have "(bgw_step False)\<^sup>*\<^sup>* demo_state t" by blast
  from bgworker_flush_covers_due_tasks [OF demo_reachable this t(2), of 3 9 0] t(1) show ?thesis by blast
qed

text \<open>If the address of the freed task is reused for a new one before the worker compares it with the head of the queue, the
  worker takes the new task for the one it has executed and frees it without running it.\<close>

lemma bgworker_address_reuse_loses_task:
  "\<exists>s. (bgw_step False)\<^sup>*\<^sup>* sentry__bgworker_new s \<and> 11 \<in># freed s \<and> 11 \<notin># executed s \<and> 11 \<notin># dropped_tasks s"
proof -
  define s1 where "s1 = demo_state\<lparr>tasks := Map.empty(1 \<mapsto> new_task (client_func 0) 11 0), first_task := Some 1, last_task := Some 1,
      log := log demo_state @ [Submitted 11]\<rparr>"
  define s2 where "s2 = s1\<lparr>worker := Looping, first_task := None, last_task := None, tasks := Map.empty(1 := None), log := log s1 @ [Freed 11]\<rparr>"
  have "sentry__bgworker_submit_at (Some 1) (client_func 0) 11 0 demo_state = Some (0, s1)"
    by (simp add: sentry__bgworker_submit_at_def s1_def)
  then have a: "bgw_step False demo_state s1" by (rule bgw_step.submit [rotated 2]) simp_all
  have "worker_thread 0 0 s1 = Some s2"
    by (simp add: worker_thread_def worker_pop_def sentry__task_decref_def s1_def s2_def new_task_def)
  then have b: "bgw_step False s1 s2" by (rule bgw_step.run)
  have "(bgw_step False)\<^sup>*\<^sup>* sentry__bgworker_new s2" using demo_reachable a b by (meson rtranclp.rtrancl_into_rtrancl)
  moreover have "11 \<in># freed s2" "11 \<notin># executed s2" "11 \<notin># dropped_tasks s2" by (simp_all add: s2_def s1_def log_defs)
  ultimately show ?thesis by blast
qed

end
