(* ===== verification/ThreadPool.thy ===== *)
theory ThreadPool
  imports Prelude "HOL-Library.Multiset"
begin

text \<open>
  The thread pool (\<open>sentry_sync.c\<close>): tasks are executed by several threads in any order and completed one at
  a time, in the order of their submission.  The queue is the list of the tasks that are allocated and
  not yet popped; each thread has a program counter, and what it does under one hold of the lock is one step.
  Here a thread that waits takes a step that changes nothing, so the orders of events include those of the program; who
  sleeps on which condition variable and who is woken is added in \<open>ThreadPoolWakeups\<close>.
\<close>

section \<open>State\<close>

record sentry_threadpool_task_t =
  task_addr :: nat
  task_payload :: nat
  task_done :: bool

text \<open>Where a pooled thread is: before the lock at the top of its loop, about to run a task, past \<open>exec_func\<close>,
  in the callback of a task it has popped, past that callback, or gone.\<close>

datatype pool_pc =
    Waiting | Running nat | Ran nat | Completing sentry_threadpool_task_t | Completed | Gone

record sentry_threadpool_t =
  thread_count :: nat
  started_threads :: nat
  pcs :: "nat \<Rightarrow> pool_pc"
  queue :: "sentry_threadpool_task_t list"
  next_unstarted :: "nat option"
  max_pending :: int
  pending :: int
  pool_running :: bool
  stopping :: bool
  committing :: bool
  accepted :: "nat list"
  executed_tasks :: "nat list"
  completed_tasks :: "nat list"

definition LONG_MAX :: int where
  "LONG_MAX = 2 ^ 63 - 1"

definition sentry__threadpool_new :: "nat \<Rightarrow> nat \<Rightarrow> sentry_threadpool_t option" where
  "sentry__threadpool_new n_threads max_pend =
     (if n_threads = 0 \<or> max_pend = 0 \<or> int max_pend > LONG_MAX then None
      else Some \<lparr>thread_count = n_threads, started_threads = 0, pcs = (\<lambda>_. Gone), queue = [], next_unstarted = None,
             max_pending = int max_pend, pending = 0, pool_running = False, stopping = False, committing = False,
             accepted = [], executed_tasks = [], completed_tasks = []\<rparr>)"

section \<open>Submission, start and shutdown\<close>

text \<open>\<open>addr\<close> is the address of the new task, \<open>None\<close> without memory.\<close>

definition sentry__threadpool_submit :: "nat option \<Rightarrow> nat \<Rightarrow> sentry_threadpool_t \<Rightarrow> int \<times> sentry_threadpool_t" where
  "sentry__threadpool_submit addr payload s =
     (case addr of
        None \<Rightarrow> (1, s)
      | Some a \<Rightarrow>
          if \<not> pool_running s \<or> stopping s \<or> pending s \<ge> max_pending s then (1, s)
          else (0, s\<lparr>queue := queue s @ [\<lparr>task_addr = a, task_payload = payload, task_done = False\<rparr>],
                     next_unstarted := (case next_unstarted s of None \<Rightarrow> Some a | Some b \<Rightarrow> Some b),
                     pending := pending s + 1, accepted := accepted s @ [payload]\<rparr>))"

text \<open>\<open>spawned\<close> is the number of threads that can be created.  When one cannot, the pool stops the others,
  joins them and returns an error.\<close>

definition sentry__threadpool_start :: "nat \<Rightarrow> sentry_threadpool_t \<Rightarrow> sentry_threadpool_t" where
  "sentry__threadpool_start spawned s =
     (if pool_running s then s
      else
        let n = min spawned (thread_count s)
        in s\<lparr>pool_running := True, stopping := (n < thread_count s), started_threads := n,
             pcs := (\<lambda>i. if i < n then Waiting else Gone)\<rparr>)"

text \<open>The part of a shutdown before the threads are joined, and the part after.\<close>

definition sentry__threadpool_shutdown :: "sentry_threadpool_t \<Rightarrow> sentry_threadpool_t" where
  "sentry__threadpool_shutdown s = (if pool_running s then s\<lparr>stopping := True\<rparr> else s)"

definition all_gone :: "sentry_threadpool_t \<Rightarrow> bool" where
  "all_gone s \<longleftrightarrow> list_all (\<lambda>i. pcs s i = Gone) [0..<started_threads s]"

definition threadpool_joined :: "sentry_threadpool_t \<Rightarrow> sentry_threadpool_t" where
  "threadpool_joined s =
     (if stopping s \<and> all_gone s then s\<lparr>started_threads := 0, pool_running := False\<rparr> else s)"

text \<open>A flush returns once nothing is pending.\<close>

definition sentry__threadpool_flush_returns :: "sentry_threadpool_t \<Rightarrow> bool" where
  "sentry__threadpool_flush_returns s \<longleftrightarrow> \<not> pool_running s \<or> pending s \<le> 0"

section \<open>The threads\<close>

fun next_of :: "nat \<Rightarrow> sentry_threadpool_task_t list \<Rightarrow> nat option" where
  "next_of a [] = None"
| "next_of a [t] = None"
| "next_of a (t # u # ts) = (if task_addr t = a then Some (task_addr u) else next_of a (u # ts))"

definition set_pc :: "nat \<Rightarrow> pool_pc \<Rightarrow> sentry_threadpool_t \<Rightarrow> sentry_threadpool_t" where
  "set_pc i p s = s\<lparr>pcs := (pcs s)(i := p)\<rparr>"

text \<open>The top of the loop, under the lock.\<close>

definition threadpool_take :: "nat \<Rightarrow> sentry_threadpool_t \<Rightarrow> sentry_threadpool_t" where
  "threadpool_take i s =
     (case next_unstarted s of
        None \<Rightarrow> if stopping s \<and> pending s = 0 then set_pc i Gone s else s
      | Some a \<Rightarrow> set_pc i (Running a) (s\<lparr>next_unstarted := next_of a (queue s)\<rparr>))"

definition payload_of :: "nat \<Rightarrow> sentry_threadpool_task_t list \<Rightarrow> nat option" where
  "payload_of a q = map_option task_payload (List.find (\<lambda>t. task_addr t = a) q)"

definition threadpool_exec :: "nat \<Rightarrow> nat \<Rightarrow> sentry_threadpool_t \<Rightarrow> sentry_threadpool_t" where
  "threadpool_exec i a s =
     (case payload_of a (queue s) of
        None \<Rightarrow> s
      | Some d \<Rightarrow> set_pc i (Ran a) (s\<lparr>executed_tasks := executed_tasks s @ [d]\<rparr>))"

definition mark_done :: "nat \<Rightarrow> sentry_threadpool_task_t list \<Rightarrow> sentry_threadpool_task_t list" where
  "mark_done a q = map (\<lambda>t. if task_addr t = a then t\<lparr>task_done := True\<rparr> else t) q"

text \<open>The commit loop from the lock to the next release of it: pop the first task if it is done, else
  leave the loop.\<close>

definition threadpool_commit_next :: "nat \<Rightarrow> sentry_threadpool_t \<Rightarrow> sentry_threadpool_t" where
  "threadpool_commit_next i s =
     (case queue s of
        [] \<Rightarrow> set_pc i Waiting (s\<lparr>committing := False\<rparr>)
      | t # ts \<Rightarrow>
          if task_done t then set_pc i (Completing t) (s\<lparr>queue := ts\<rparr>)
          else set_pc i Waiting (s\<lparr>committing := False\<rparr>))"

definition threadpool_commit_ready :: "nat \<Rightarrow> sentry_threadpool_t \<Rightarrow> sentry_threadpool_t" where
  "threadpool_commit_ready i s =
     (if committing s then set_pc i Waiting s
      else threadpool_commit_next i (s\<lparr>committing := True\<rparr>))"

definition threadpool_finish :: "nat \<Rightarrow> nat \<Rightarrow> sentry_threadpool_t \<Rightarrow> sentry_threadpool_t" where
  "threadpool_finish i a s = threadpool_commit_ready i (s\<lparr>queue := mark_done a (queue s)\<rparr>)"

definition threadpool_complete :: "nat \<Rightarrow> sentry_threadpool_task_t \<Rightarrow> sentry_threadpool_t \<Rightarrow> sentry_threadpool_t" where
  "threadpool_complete i t s = set_pc i Completed (s\<lparr>completed_tasks := completed_tasks s @ [task_payload t]\<rparr>)"

definition threadpool_thread :: "nat \<Rightarrow> sentry_threadpool_t \<Rightarrow> sentry_threadpool_t" where
  "threadpool_thread i s =
     (case pcs s i of
        Waiting \<Rightarrow> threadpool_take i s
      | Running a \<Rightarrow> threadpool_exec i a s
      | Ran a \<Rightarrow> threadpool_finish i a s
      | Completing t \<Rightarrow> threadpool_complete i t s
      | Completed \<Rightarrow> threadpool_commit_next i (s\<lparr>pending := pending s - 1\<rparr>)
      | Gone \<Rightarrow> s)"

inductive pool_step :: "sentry_threadpool_t \<Rightarrow> sentry_threadpool_t \<Rightarrow> bool" where
  submit: "\<forall>t \<in> set (queue s). task_addr t \<noteq> a \<Longrightarrow> pool_step s (snd (sentry__threadpool_submit (Some a) d s))"
| start: "pool_step s (sentry__threadpool_start n s)"
| shutdown: "pool_step s (sentry__threadpool_shutdown s)"
| joined: "pool_step s (threadpool_joined s)"
| thread: "i < started_threads s \<Longrightarrow> pool_step s (threadpool_thread i s)"

inductive_cases pool_stepE: "pool_step s s'"


section \<open>The invariant\<close>

fun in_commit :: "pool_pc \<Rightarrow> bool" where
  "in_commit (Completing t) = True"
| "in_commit Completed = True"
| "in_commit _ = False"

definition holds :: "pool_pc \<Rightarrow> nat \<Rightarrow> bool" where
  "holds p a \<longleftrightarrow> p = Running a \<or> p = Ran a"

lemma holds_simps [simp]:
  "holds (Running b) a = (b = a)" "holds (Ran b) a = (b = a)" "\<not> holds Waiting a" "\<not> holds (Completing t) a"
  "\<not> holds Completed a" "\<not> holds Gone a"
  by (auto simp: holds_def)

lemma in_commit_holds: "in_commit p \<Longrightarrow> \<not> holds p a"
  by (cases p) auto

definition hd_addr :: "sentry_threadpool_task_t list \<Rightarrow> nat option" where
  "hd_addr q = (case q of [] \<Rightarrow> None | t # _ \<Rightarrow> Some (task_addr t))"

lemma hd_addr_simps [simp]: "hd_addr [] = None" "hd_addr (t # ts) = Some (task_addr t)"
  by (simp_all add: hd_addr_def)

text \<open>The queue is a part whose tasks are done or held by exactly one thread, followed by the tasks that no thread has
  taken.\<close>

definition owned :: "sentry_threadpool_task_t list \<Rightarrow> sentry_threadpool_task_t list \<Rightarrow> sentry_threadpool_t \<Rightarrow> bool" where
  "owned taken rest s \<longleftrightarrow>
     queue s = taken @ rest \<and> distinct (map task_addr (taken @ rest)) \<and> next_unstarted s = hd_addr rest
     \<and> (\<forall>t \<in> set rest. \<not> task_done t)
     \<and> (\<forall>t \<in> set taken. task_done t \<or> (\<exists>i. holds (pcs s i) (task_addr t)))
     \<and> (\<forall>i a. holds (pcs s i) a \<longrightarrow> (\<exists>t \<in> set taken. task_addr t = a \<and> \<not> task_done t))
     \<and> (\<forall>i j a. holds (pcs s i) a \<longrightarrow> holds (pcs s j) a \<longrightarrow> i = j)"

lemma ownedD:
  assumes "owned taken rest s"
  shows "queue s = taken @ rest" "distinct (map task_addr (taken @ rest))" "next_unstarted s = hd_addr rest"
    "t \<in> set rest \<Longrightarrow> \<not> task_done t" "t \<in> set taken \<Longrightarrow> \<not> task_done t \<Longrightarrow> \<exists>i. holds (pcs s i) (task_addr t)"
    "holds (pcs s i) a \<Longrightarrow> \<exists>t \<in> set taken. task_addr t = a \<and> \<not> task_done t"
    "holds (pcs s i) a \<Longrightarrow> holds (pcs s j) a \<Longrightarrow> i = j"
  using assms unfolding owned_def by blast+

lemma ownedI:
  assumes "queue s = taken @ rest" "distinct (map task_addr (taken @ rest))" "next_unstarted s = hd_addr rest"
    "\<And>t. t \<in> set rest \<Longrightarrow> \<not> task_done t" "\<And>t. t \<in> set taken \<Longrightarrow> \<not> task_done t \<Longrightarrow> \<exists>i. holds (pcs s i) (task_addr t)"
    "\<And>i a. holds (pcs s i) a \<Longrightarrow> \<exists>t \<in> set taken. task_addr t = a \<and> \<not> task_done t"
    "\<And>i j a. holds (pcs s i) a \<Longrightarrow> holds (pcs s j) a \<Longrightarrow> i = j"
  shows "owned taken rest s"
  using assms unfolding owned_def by blast

text \<open>At most one thread commits, and the head of the queue is not done when none does.\<close>

definition exclusive :: "sentry_threadpool_t \<Rightarrow> bool" where
  "exclusive s \<longleftrightarrow>
     (committing s \<longleftrightarrow> (\<exists>i. in_commit (pcs s i)))
     \<and> (\<forall>i j. in_commit (pcs s i) \<longrightarrow> in_commit (pcs s j) \<longrightarrow> i = j)
     \<and> (\<not> committing s \<longrightarrow> queue s = [] \<or> \<not> task_done (hd (queue s)))
     \<and> pending s = int (length (queue s)) + of_bool (committing s)"

definition alive :: "sentry_threadpool_t \<Rightarrow> bool" where
  "alive s \<longleftrightarrow>
     (\<forall>i. pcs s i \<noteq> Gone \<longrightarrow> i < started_threads s)
     \<and> (\<forall>i < started_threads s. pcs s i = Gone \<longrightarrow> stopping s \<and> pending s = 0)
     \<and> (started_threads s = 0 \<longrightarrow> pending s = 0) \<and> (pool_running s \<or> started_threads s = 0)
     \<and> (pool_running s \<and> \<not> stopping s \<longrightarrow> started_threads s = thread_count s) \<and> 0 < thread_count s"

text \<open>The task in the hands of the committing thread whose callback has not run.\<close>

definition in_callback :: "nat list \<Rightarrow> sentry_threadpool_t \<Rightarrow> bool" where
  "in_callback c s \<longleftrightarrow>
     (\<forall>i t. pcs s i = Completing t \<longrightarrow> c = [task_payload t]) \<and> ((\<forall>i t. pcs s i \<noteq> Completing t) \<longrightarrow> c = [])"

lemma in_callback_cong: "in_callback c s \<Longrightarrow> (\<And>j t. pcs s' j = Completing t \<longleftrightarrow> pcs s j = Completing t) \<Longrightarrow> in_callback c s'"
  by (simp add: in_callback_def)

definition has_run :: "sentry_threadpool_t \<Rightarrow> sentry_threadpool_task_t \<Rightarrow> bool" where
  "has_run s t \<longleftrightarrow> task_done t \<or> (\<exists>i. pcs s i = Ran (task_addr t))"

definition ordered :: "nat list \<Rightarrow> sentry_threadpool_t \<Rightarrow> bool" where
  "ordered c s \<longleftrightarrow> in_callback c s \<and> accepted s = completed_tasks s @ c @ map task_payload (queue s)
     \<and> mset (executed_tasks s) = mset (completed_tasks s @ c) + mset (map task_payload (filter (has_run s) (queue s)))"

definition pool_inv :: "sentry_threadpool_task_t list \<Rightarrow> sentry_threadpool_task_t list \<Rightarrow> nat list \<Rightarrow> sentry_threadpool_t \<Rightarrow> bool" where
  "pool_inv taken rest c s \<longleftrightarrow> owned taken rest s \<and> exclusive s \<and> alive s \<and> ordered c s"

lemma next_of_split:
  "distinct (map task_addr (xs @ t # ys)) \<Longrightarrow> next_of (task_addr t) (xs @ t # ys) = hd_addr ys"
proof (induction xs)
  case Nil
  then show ?case by (cases ys) auto
next
  case (Cons x xs)
  then show ?case by (cases xs) auto
qed

lemma owned_addr:
  assumes "distinct (map task_addr q)" "t \<in> set q" "u \<in> set q" "task_addr t = task_addr u"
  shows "t = u"
  using assms by (metis distinct_map inj_onD)

lemma find_addr:
  assumes "distinct (map task_addr q)" "t \<in> set q"
  shows "payload_of (task_addr t) q = Some (task_payload t)"
  using assms by (induction q) (auto simp: payload_of_def)

lemma mark_done_simps [simp]:
  "map task_addr (mark_done a q) = map task_addr q" "map task_payload (mark_done a q) = map task_payload q"
  "length (mark_done a q) = length q" "mark_done a (xs @ ys) = mark_done a xs @ mark_done a ys"
  by (auto simp: mark_done_def comp_def)

lemma mark_done_id: "\<forall>t \<in> set q. task_addr t \<noteq> a \<Longrightarrow> mark_done a q = q"
  by (induction q) (auto simp: mark_done_def)

subsection \<open>Taking and running a task\<close>

lemma take_inv:
  assumes inv: "pool_inv taken rest c s" and w: "pcs s i = Waiting" and n: "next_unstarted s = Some a" and i: "i < started_threads s"
  shows "\<exists>t rest'. rest = t # rest' \<and> pool_inv (taken @ [t]) rest' c (threadpool_take i s)"
proof -
  have o: "owned taken rest s" and e: "exclusive s" and l: "alive s" and r: "ordered c s" using inv by (auto simp: pool_inv_def)
  obtain t rest' where t: "rest = t # rest'" "a = task_addr t" using o n by (cases rest) (auto simp: owned_def)
  let ?s = "set_pc i (Running a) (s\<lparr>next_unstarted := next_of a (queue s)\<rparr>)"
  have s: "threadpool_take i s = ?s" using n by (simp add: threadpool_take_def)
  have d: "distinct (map task_addr (taken @ t # rest'))" and q: "queue s = taken @ t # rest'" using ownedD(1,2) [OF o] t(1) by auto
  have "a \<notin> task_addr ` set taken" using d t(2) by simp
  then have free: "task_addr u \<noteq> a" if "u \<in> set taken" for u using that by blast
  have h: "holds (pcs ?s j) b \<longleftrightarrow> holds (pcs s j) b \<or> j = i \<and> b = a" for j b using w by (auto simp: set_pc_def)
  have hf: "\<not> holds (pcs s j) a" for j using ownedD(6) [OF o, of j a] free by blast
  have "owned (taken @ [t]) rest' ?s"
  proof (rule ownedI, unfold h)
    show "queue ?s = (taken @ [t]) @ rest'" "distinct (map task_addr ((taken @ [t]) @ rest'))" using q d by (simp_all add: set_pc_def)
    show "next_unstarted ?s = hd_addr rest'" using next_of_split [OF d] t(2) q by (simp add: set_pc_def)
    show "\<not> task_done u" if "u \<in> set rest'" for u using ownedD(4) [OF o] t(1) that by simp
    show "\<exists>j. holds (pcs s j) (task_addr u) \<or> j = i \<and> task_addr u = a" if "u \<in> set (taken @ [t])" "\<not> task_done u" for u
      using ownedD(5) [OF o, of u] t(2) that by auto
    show "\<exists>u \<in> set (taken @ [t]). task_addr u = b \<and> \<not> task_done u" if "holds (pcs s j) b \<or> j = i \<and> b = a" for j b
      using ownedD(6) [OF o, of j b] ownedD(4) [OF o, of t] t that by auto
    show "j = k" if "holds (pcs s j) b \<or> j = i \<and> b = a" "holds (pcs s k) b \<or> k = i \<and> b = a" for j k b
      using ownedD(7) [OF o, of j b k] hf that by auto
  qed
  moreover have "in_commit (pcs ?s j) = in_commit (pcs s j)" for j using w by (simp add: set_pc_def)
  then have "exclusive ?s" using e unfolding exclusive_def by (simp add: set_pc_def)
  moreover have "alive ?s" using l i by (auto simp: alive_def set_pc_def)
  moreover have "ordered c ?s"
  proof -
    have "pcs ?s j = Ran b \<longleftrightarrow> pcs s j = Ran b" for j b using w by (simp add: set_pc_def)
    then have "has_run ?s = has_run s" unfolding has_run_def by simp
    moreover have "in_callback c ?s" by (rule in_callback_cong [of c s]) (use r w in \<open>auto simp: ordered_def set_pc_def\<close>)
    ultimately show ?thesis using r by (simp add: ordered_def set_pc_def)
  qed
  ultimately show ?thesis using t s by (auto simp: pool_inv_def)
qed


lemma filter_add:
  "distinct q \<Longrightarrow> t \<in> set q \<Longrightarrow> \<not> P t \<Longrightarrow> (\<And>u. u \<in> set q \<Longrightarrow> P' u \<longleftrightarrow> P u \<or> u = t) \<Longrightarrow> mset (filter P' q) = add_mset t (mset (filter P q))"
proof (induction q)
  case (Cons x q)
  show ?case
  proof (cases "x = t")
    case True
    then have "filter P' q = filter P q" using Cons.prems by (auto intro: filter_cong)
    with True Cons.prems show ?thesis by simp
  next
    case False
    with Cons show ?thesis by simp
  qed
qed simp

text \<open>The task a thread holds.\<close>

lemma held_task:
  assumes "owned taken rest s" "holds (pcs s i) a"
  obtains t where "t \<in> set taken" "task_addr t = a" "\<not> task_done t" "\<And>u. u \<in> set (queue s) \<Longrightarrow> task_addr u = a \<Longrightarrow> u = t"
    "\<And>u. u \<in> set rest \<Longrightarrow> task_addr u \<noteq> a" "\<And>j. holds (pcs s j) a \<Longrightarrow> j = i"
proof -
  obtain t where t: "t \<in> set taken" "task_addr t = a" "\<not> task_done t" using ownedD(6) [OF assms] by blast
  have u: "u = t" if "u \<in> set (queue s)" "task_addr u = a" for u
    by (rule owned_addr [of "queue s"]) (use ownedD(1,2) [OF assms(1)] that t in auto)
  have v: "task_addr u \<noteq> a" if "u \<in> set rest" for u
    using ownedD(2) [OF assms(1)] t that by auto
  show ?thesis by (rule that [OF t u v]) (use ownedD(7) [OF assms(1) _ assms(2)] in auto)
qed

lemma exec_inv:
  assumes inv: "pool_inv taken rest c s" and w: "pcs s i = Running a"
  shows "\<exists>d. payload_of a (queue s) = Some d \<and> pool_inv taken rest c (threadpool_exec i a s)"
proof -
  have o: "owned taken rest s" and e: "exclusive s" and l: "alive s" and r: "ordered c s" using inv by (auto simp: pool_inv_def)
  obtain t where t: "t \<in> set taken" "task_addr t = a" "\<not> task_done t" "\<And>u. u \<in> set (queue s) \<Longrightarrow> task_addr u = a \<Longrightarrow> u = t"
    "\<And>j. holds (pcs s j) a \<Longrightarrow> j = i" by (rule held_task [OF o, of i a]) (use w in auto)
  have tq: "t \<in> set (queue s)" "distinct (queue s)" "distinct (map task_addr (queue s))" 
    using ownedD(1,2) [OF o] t(1) distinct_map by auto
  let ?s = "set_pc i (Ran a) (s\<lparr>executed_tasks := executed_tasks s @ [task_payload t]\<rparr>)"
  have p: "payload_of a (queue s) = Some (task_payload t)" using find_addr [OF tq(3,1)] t(2) by simp
  have h: "holds (pcs ?s j) b = holds (pcs s j) b" for j b using w by (auto simp: set_pc_def)
  have "owned taken rest ?s" using o unfolding owned_def h by (simp add: set_pc_def)
  moreover have "in_commit (pcs ?s j) = in_commit (pcs s j)" for j using w by (simp add: set_pc_def)
  then have "exclusive ?s" using e unfolding exclusive_def by (simp add: set_pc_def)
  moreover have "alive ?s" using l w by (auto simp: alive_def set_pc_def)
  moreover have "ordered c ?s"
  proof -
    have "pcs s j \<noteq> Ran (task_addr t)" for j
    proof
      assume "pcs s j = Ran (task_addr t)"
      with t(5) [of j] t(2) w show False by simp
    qed
    then have "\<not> has_run s t" using t(3) by (simp add: has_run_def)
    moreover have rn: "pcs ?s j = Ran b \<longleftrightarrow> pcs s j = Ran b \<or> j = i \<and> b = a" for j b using w by (auto simp: set_pc_def)
    have "has_run ?s u \<longleftrightarrow> has_run s u \<or> u = t" if "u \<in> set (queue s)" for u
      unfolding has_run_def rn using t(2) t(4) [OF that] by auto
    ultimately have "mset (filter (has_run ?s) (queue s)) = add_mset t (mset (filter (has_run s) (queue s)))"
      by (intro filter_add tq(1,2)) auto
    moreover have "in_callback c ?s" by (rule in_callback_cong [of c s]) (use r w in \<open>auto simp: ordered_def set_pc_def\<close>)
    ultimately show ?thesis using r by (simp add: ordered_def set_pc_def)
  qed
  ultimately show ?thesis using p by (auto simp: pool_inv_def threadpool_exec_def)
qed

subsection \<open>Committing\<close>

text \<open>A thread that has run its task marks it as done and becomes the committing thread unless there is one.\<close>

definition marked :: "nat \<Rightarrow> nat \<Rightarrow> sentry_threadpool_t \<Rightarrow> sentry_threadpool_t" where
  "marked i a s = set_pc i (if committing s then Waiting else Completed)
     (s\<lparr>queue := mark_done a (queue s), committing := True, pending := pending s + of_bool (\<not> committing s)\<rparr>)"

lemma marked_inv:
  assumes inv: "pool_inv taken rest c s" and w: "pcs s i = Ran a"
  shows "pool_inv (mark_done a taken) rest c (marked i a s)"
proof -
  have o: "owned taken rest s" and e: "exclusive s" and l: "alive s" and r: "ordered c s" using inv by (auto simp: pool_inv_def)
  obtain t where t: "t \<in> set taken" "task_addr t = a" "\<not> task_done t" "\<And>u. u \<in> set rest \<Longrightarrow> task_addr u \<noteq> a"
    "\<And>j. holds (pcs s j) a \<Longrightarrow> j = i" by (rule held_task [OF o, of i a]) (use w in auto)
  let ?s = "marked i a s"
  have q: "queue ?s = mark_done a taken @ rest" using o t(4) mark_done_id [of rest a] by (auto simp: marked_def set_pc_def owned_def)
  have h: "holds (pcs ?s j) b \<longleftrightarrow> holds (pcs s j) b \<and> b \<noteq> a" for j b
    using w t(5) by (auto simp: marked_def set_pc_def)
  have md: "u \<in> set (mark_done a taken) \<and> \<not> task_done u \<longleftrightarrow> u \<in> set taken \<and> \<not> task_done u \<and> task_addr u \<noteq> a" for u
    by (auto simp: mark_done_def)
  have "owned (mark_done a taken) rest ?s"
  proof (rule ownedI, unfold h q)
    show "distinct (map task_addr (mark_done a taken @ rest))" using ownedD(2) [OF o] by simp
    show "next_unstarted ?s = hd_addr rest" using ownedD(3) [OF o] by (simp add: marked_def set_pc_def)
    show "\<exists>j. holds (pcs s j) (task_addr u) \<and> task_addr u \<noteq> a" if "u \<in> set (mark_done a taken)" "\<not> task_done u" for u
      using ownedD(5) [OF o, of u] md [of u] that by auto
    show "\<exists>u \<in> set (mark_done a taken). task_addr u = b \<and> \<not> task_done u" if "holds (pcs s j) b \<and> b \<noteq> a" for j b
      using ownedD(6) [OF o, of j b] md that by blast
  qed (use ownedD(4,7) [OF o] in blast)+
  moreover have "in_commit (pcs ?s j) \<longleftrightarrow> in_commit (pcs s j) \<or> j = i \<and> \<not> committing s" for j
    using w by (auto simp: marked_def set_pc_def)
  then have "exclusive ?s" using e unfolding exclusive_def by (auto simp: marked_def set_pc_def)
  moreover have "alive ?s"
  proof -
    have "i < started_threads s" using l w unfolding alive_def by (metis pool_pc.simps)
    moreover have "pending s \<noteq> 0" using e o t(1) unfolding exclusive_def owned_def by (cases taken) auto
    ultimately show ?thesis using l unfolding alive_def marked_def set_pc_def by (auto split: if_splits)
  qed
  moreover have "ordered c ?s"
  proof -
    let ?f = "\<lambda>t :: sentry_threadpool_task_t. if task_addr t = a then t\<lparr>task_done := True\<rparr> else t"
    have rn: "pcs ?s j = Ran b \<longleftrightarrow> pcs s j = Ran b \<and> j \<noteq> i" for j b by (auto simp: marked_def set_pc_def)
    have "has_run ?s (?f u) = has_run s u" for u
      unfolding has_run_def rn using w by auto
    then have "filter (has_run ?s) (mark_done a (queue s)) = map ?f (filter (has_run s) (queue s))"
      by (simp add: mark_done_def filter_map comp_def)
    moreover have f: "queue ?s = mark_done a (queue s)" "accepted ?s = accepted s" "completed_tasks ?s = completed_tasks s"
      "executed_tasks ?s = executed_tasks s" by (simp_all add: marked_def set_pc_def)
    moreover have "task_payload (?f u) = task_payload u" for u by simp
    ultimately have "map task_payload (filter (has_run ?s) (queue ?s)) = map task_payload (filter (has_run s) (queue s))"
      by (simp only: map_map comp_def)
    moreover have "in_callback c ?s"
      by (rule in_callback_cong [of c s]) (use r w in \<open>auto simp: ordered_def marked_def set_pc_def\<close>)
    ultimately show ?thesis using r unfolding ordered_def f by simp
  qed
  ultimately show ?thesis by (simp add: pool_inv_def)
qed


lemma commit_next_inv:
  assumes inv: "pool_inv taken rest c s" and w: "pcs s i = Completed"
  shows "\<exists>taken' c'. pool_inv taken' rest c' (threadpool_commit_next i (s\<lparr>pending := pending s - 1\<rparr>))"
proof -
  have o: "owned taken rest s" and e: "exclusive s" and l: "alive s" and r: "ordered c s" using inv by (auto simp: pool_inv_def)
  let ?u = "s\<lparr>pending := pending s - 1\<rparr>"
  have ci: "in_commit (pcs s j) \<longleftrightarrow> j = i" for j using e w unfolding exclusive_def by (metis in_commit.simps(2))
  then have com: "committing s" "pending s = int (length (queue s)) + 1" using e unfolding exclusive_def by auto
  have nc: "pcs s j \<noteq> Completing t" for j t using ci [of j] w by (metis in_commit.simps(1) pool_pc.distinct(27) pool_pc.simps)
  then have c: "c = []" using r by (simp add: ordered_def in_callback_def)
  have li: "i < started_threads s" using l w unfolding alive_def by (metis pool_pc.simps)
  have ng: "pcs s j \<noteq> Gone" if "j < started_threads s" for j using l that com(2) by (auto simp: alive_def)
  show ?thesis
  proof (cases "queue s = [] \<or> \<not> task_done (hd (queue s))")
    case True
    let ?s = "set_pc i Waiting (?u\<lparr>committing := False\<rparr>)"
    have "threadpool_commit_next i ?u = ?s" using True by (auto simp: threadpool_commit_next_def split: list.splits)
    moreover have h: "holds (pcs ?s j) b = holds (pcs s j) b" for j b using w by (simp add: set_pc_def)
    have "owned taken rest ?s" using o unfolding owned_def h by (simp add: set_pc_def)
    moreover have "in_commit (pcs ?s j) = False" for j using ci [of j] by (auto simp: set_pc_def)
    then have "exclusive ?s" using True com unfolding exclusive_def by (simp add: set_pc_def)
    moreover have "alive ?s" using l ng li unfolding alive_def by (auto simp: set_pc_def)
    moreover have rn: "pcs ?s j = Ran b \<longleftrightarrow> pcs s j = Ran b" for j b using w by (simp add: set_pc_def)
    have "has_run ?s = has_run s" unfolding has_run_def rn by simp
    then have "ordered [] ?s" using r c nc by (auto simp: ordered_def in_callback_def set_pc_def)
    ultimately show ?thesis by (auto simp: pool_inv_def)
  next
    case False
    then obtain t ts where q: "queue s = t # ts" "task_done t" by (cases "queue s") auto
    then obtain taken' where tk: "taken = t # taken'" "ts = taken' @ rest"
      using ownedD(1) [OF o] ownedD(4) [OF o, of t] by (cases taken) auto
    let ?s = "set_pc i (Completing t) (?u\<lparr>queue := ts\<rparr>)"
    have "threadpool_commit_next i ?u = ?s" using q by (simp add: threadpool_commit_next_def)
    moreover have h: "holds (pcs ?s j) b = holds (pcs s j) b" for j b using w by (simp add: set_pc_def)
    have "owned taken' rest ?s"
    proof (rule ownedI, unfold h)
      show "\<exists>u \<in> set taken'. task_addr u = a \<and> \<not> task_done u" if "holds (pcs s j) a" for j a
        using ownedD(6) [OF o that] q(2) tk(1) by auto
      show "\<exists>j. holds (pcs s j) (task_addr u)" if "u \<in> set taken'" "\<not> task_done u" for u
        using ownedD(5) [OF o, of u] that tk(1) by simp
    qed (use ownedD [OF o] tk in \<open>auto simp: set_pc_def\<close>)
    moreover have ic: "in_commit (pcs ?s j) \<longleftrightarrow> j = i" for j using ci [of j] by (simp add: set_pc_def)
    have "exclusive ?s" unfolding exclusive_def ic using com q by (simp add: set_pc_def)
    moreover have "alive ?s" using l ng li unfolding alive_def by (auto simp: set_pc_def)
    moreover have rn: "pcs ?s j = Ran b \<longleftrightarrow> pcs s j = Ran b" for j b using w by (simp add: set_pc_def)
    have hr: "has_run ?s = has_run s" unfolding has_run_def rn by simp
    have "has_run s t" using q(2) by (simp add: has_run_def)
    then have "ordered [task_payload t] ?s" unfolding ordered_def hr using r c nc q
      by (auto simp: ordered_def in_callback_def set_pc_def)
    ultimately show ?thesis by (auto simp: pool_inv_def)
  qed
qed


lemma finish_marked:
  assumes "exclusive s" "pcs s i = Ran a"
  shows "threadpool_finish i a s = (if committing s then marked i a s
    else threadpool_commit_next i ((marked i a s)\<lparr>pending := pending (marked i a s) - 1\<rparr>))"
  by (cases s) (auto simp: threadpool_finish_def threadpool_commit_ready_def marked_def set_pc_def threadpool_commit_next_def split: list.splits)

lemma complete_inv:
  assumes inv: "pool_inv taken rest c s" and w: "pcs s i = Completing t"
  shows "pool_inv taken rest [] (threadpool_complete i t s)"
proof -
  have o: "owned taken rest s" and e: "exclusive s" and l: "alive s" and r: "ordered c s" using inv by (auto simp: pool_inv_def)
  have c: "c = [task_payload t]" using r w by (auto simp: ordered_def in_callback_def)
  let ?s = "threadpool_complete i t s"
  have h: "holds (pcs ?s j) b = holds (pcs s j) b" "in_commit (pcs ?s j) = in_commit (pcs s j)" "pcs ?s j = Ran b \<longleftrightarrow> pcs s j = Ran b"
    "pcs ?s j = Gone \<longleftrightarrow> pcs s j = Gone" for j b
    using w by (simp_all add: threadpool_complete_def set_pc_def)
  have f: "queue ?s = queue s" "next_unstarted ?s = next_unstarted s" "committing ?s = committing s" "pending ?s = pending s"
    "accepted ?s = accepted s" "executed_tasks ?s = executed_tasks s" "completed_tasks ?s = completed_tasks s @ [task_payload t]"
    "stopping ?s = stopping s" "started_threads ?s = started_threads s" "pool_running ?s = pool_running s" "thread_count ?s = thread_count s"
    by (simp_all add: threadpool_complete_def set_pc_def)
  have "owned taken rest ?s" "exclusive ?s" "alive ?s" using o e l unfolding owned_def exclusive_def alive_def h f by auto
  moreover have "pcs ?s j \<noteq> Completing u" for j u
  proof
    assume u: "pcs ?s j = Completing u"
    then have "j \<noteq> i" "in_commit (pcs s j)" by (auto simp: threadpool_complete_def set_pc_def split: if_splits)
    with e w show False unfolding exclusive_def by (metis in_commit.simps(1))
  qed
  then have "in_callback [] ?s" by (simp add: in_callback_def)
  then have "ordered [] ?s" using r c unfolding ordered_def has_run_def [abs_def] h f by simp
  ultimately show ?thesis by (simp add: pool_inv_def)
qed

text \<open>A step that only moves threads between the states in which they have no task.\<close>

lemma pool_frame:
  assumes inv: "pool_inv taken rest c s" and al: "alive s'"
    and f: "queue s' = queue s" "next_unstarted s' = next_unstarted s" "committing s' = committing s" "pending s' = pending s"
      "accepted s' = accepted s" "executed_tasks s' = executed_tasks s" "completed_tasks s' = completed_tasks s"
    and h: "\<And>j b. holds (pcs s' j) b = holds (pcs s j) b" "\<And>j. in_commit (pcs s' j) = in_commit (pcs s j)"
      "\<And>j b. pcs s' j = Ran b \<longleftrightarrow> pcs s j = Ran b" "\<And>j t. pcs s' j = Completing t \<longleftrightarrow> pcs s j = Completing t"
  shows "pool_inv taken rest c s'"
proof -
  have "owned taken rest s' = owned taken rest s" "exclusive s' = exclusive s" "in_callback c s' = in_callback c s"
    by (simp_all only: owned_def exclusive_def in_callback_def f h)
  moreover have "has_run s' = has_run s" by (intro ext) (simp only: has_run_def h)
  ultimately show ?thesis using inv al by (simp add: pool_inv_def ordered_def f)
qed

lemma gone_inv:
  assumes inv: "pool_inv taken rest c s" and w: "pcs s i = Waiting" and st: "stopping s" "pending s = 0"
  shows "pool_inv taken rest c (set_pc i Gone s)"
proof -
  have "alive (set_pc i Gone s)" using inv st w by (auto simp: pool_inv_def alive_def set_pc_def)
  then show ?thesis by (rule pool_frame [OF inv]) (use w in \<open>simp_all add: set_pc_def\<close>)
qed

lemma thread_inv:
  assumes inv: "pool_inv taken rest c s" and i: "i < started_threads s"
  shows "\<exists>taken' rest' c'. pool_inv taken' rest' c' (threadpool_thread i s)"
proof (cases "pcs s i")
  case Waiting
  show ?thesis
  proof (cases "next_unstarted s")
    case None
    with Waiting inv gone_inv [OF inv Waiting] show ?thesis by (auto simp: threadpool_thread_def threadpool_take_def)
  next
    case (Some a)
    with Waiting take_inv [OF inv Waiting Some i] show ?thesis by (auto simp: threadpool_thread_def)
  qed
next
  case (Running a)
  with exec_inv [OF inv Running] show ?thesis by (auto simp: threadpool_thread_def)
next
  case (Ran a)
  note m = marked_inv [OF inv Ran]
  have "\<not> committing s \<Longrightarrow> pcs (marked i a s) i = Completed" by (simp add: marked_def set_pc_def)
  then have "\<not> committing s \<Longrightarrow> \<exists>taken' c'. pool_inv taken' rest c' (threadpool_commit_next i ((marked i a s)\<lparr>pending := pending (marked i a s) - 1\<rparr>))"
    using commit_next_inv [OF m, of i] by blast
  moreover have "exclusive s" using inv by (simp add: pool_inv_def)
  ultimately show ?thesis using m finish_marked [of s i a] Ran by (cases "committing s") (auto simp: threadpool_thread_def)
next
  case (Completing t)
  with complete_inv [OF inv Completing] show ?thesis by (auto simp: threadpool_thread_def)
next
  case Completed
  with commit_next_inv [OF inv Completed] show ?thesis by (auto simp: threadpool_thread_def)
next
  case Gone
  with inv show ?thesis by (auto simp: threadpool_thread_def)
qed

subsection \<open>Submission, start and shutdown\<close>

lemma submit_inv:
  assumes inv: "pool_inv taken rest c s" and a: "\<forall>t \<in> set (queue s). task_addr t \<noteq> a"
  shows "\<exists>rest'. pool_inv taken rest' c (snd (sentry__threadpool_submit (Some a) d s))"
proof (cases "\<not> pool_running s \<or> stopping s \<or> pending s \<ge> max_pending s")
  case True
  with inv show ?thesis by (auto simp: sentry__threadpool_submit_def)
next
  case False
  have o: "owned taken rest s" and e: "exclusive s" and l: "alive s" and r: "ordered c s" using inv by (auto simp: pool_inv_def)
  define t where "t = \<lparr>task_addr = a, task_payload = d, task_done = False\<rparr>"
  define s' where "s' = snd (sentry__threadpool_submit (Some a) d s)"
  have f: "queue s' = queue s @ [t]" "pcs s' = pcs s" "committing s' = committing s" "pending s' = pending s + 1"
    "accepted s' = accepted s @ [d]" "executed_tasks s' = executed_tasks s" "completed_tasks s' = completed_tasks s"
    "stopping s' = stopping s" "started_threads s' = started_threads s" "pool_running s' = pool_running s" "thread_count s' = thread_count s"
    "next_unstarted s' = (case next_unstarted s of None \<Rightarrow> Some a | Some b \<Rightarrow> Some b)"
    using False by (simp_all add: s'_def sentry__threadpool_submit_def t_def)
  have q: "queue s = taken @ rest" by (rule ownedD(1) [OF o])
  have "owned taken (rest @ [t]) s'"
  proof (rule ownedI)
    show "distinct (map task_addr (taken @ rest @ [t]))" using ownedD(2) [OF o] a q by (auto simp: t_def)
    show "next_unstarted s' = hd_addr (rest @ [t])" using ownedD(3) [OF o] f(12) by (cases rest) (auto simp: t_def)
    show "\<not> task_done u" if "u \<in> set (rest @ [t])" for u using ownedD(4) [OF o, of u] that by (auto simp: t_def)
  qed (use ownedD(5-7) [OF o] f q in auto)
  moreover have "exclusive s'" using e unfolding exclusive_def f by (cases "queue s") (auto simp: t_def)
  moreover have "alive s'" using l False unfolding alive_def f by auto
  moreover have "\<not> has_run s t"
  proof -
    have "pcs s j \<noteq> Ran a" for j using ownedD(6) [OF o, of j a] a q by (auto simp: holds_def)
    then show ?thesis by (simp add: has_run_def t_def)
  qed
  then have "ordered c s'" using r unfolding ordered_def in_callback_def has_run_def [abs_def] f by (simp add: t_def)
  ultimately show ?thesis unfolding s'_def [symmetric] by (auto simp: pool_inv_def)
qed

lemma idle_inv:
  assumes "pool_inv taken rest c s" "started_threads s = 0"
  shows "pcs s i = Gone" "queue s = []" "taken = []" "rest = []" "c = []" "\<not> committing s" "pending s = 0" "next_unstarted s = None"
proof -
  have o: "owned taken rest s" and e: "exclusive s" and l: "alive s" and r: "ordered c s" using assms(1) by (auto simp: pool_inv_def)
  show g: "pcs s i = Gone" for i using l assms(2) unfolding alive_def by fastforce
  show p: "pending s = 0" using l assms(2) by (simp add: alive_def)
  show nc: "\<not> committing s" using e g unfolding exclusive_def by simp
  show q: "queue s = []" using e p nc by (simp add: exclusive_def)
  then show t: "taken = []" and rs: "rest = []" using ownedD(1) [OF o] by auto
  show "c = []" using r g by (simp add: ordered_def in_callback_def)
  show "next_unstarted s = None" using ownedD(3) [OF o] rs by simp
qed

lemma start_inv:
  assumes inv: "pool_inv taken rest c s"
  shows "pool_inv taken rest c (sentry__threadpool_start n s)"
proof (cases "pool_running s")
  case False
  then have z: "started_threads s = 0" using inv by (simp add: pool_inv_def alive_def)
  note I = idle_inv [OF inv z]
  let ?s = "sentry__threadpool_start n s"
  have "owned [] [] ?s" by (rule ownedI) (use False I in \<open>auto simp: sentry__threadpool_start_def Let_def split: if_splits\<close>)
  moreover have nc: "\<not> in_commit (pcs ?s i)" for i using False by (simp add: sentry__threadpool_start_def Let_def)
  have "exclusive ?s" unfolding exclusive_def using I nc False by (auto simp: sentry__threadpool_start_def Let_def)
  moreover have "alive ?s" using inv False I by (auto simp: pool_inv_def alive_def sentry__threadpool_start_def Let_def)
  moreover have "ordered [] ?s" using inv False I
    by (auto simp: pool_inv_def ordered_def in_callback_def sentry__threadpool_start_def Let_def)
  ultimately show ?thesis using I by (simp add: pool_inv_def)
qed (use inv in \<open>simp add: sentry__threadpool_start_def\<close>)

lemma shutdown_inv:
  assumes inv: "pool_inv taken rest c s"
  shows "pool_inv taken rest c (sentry__threadpool_shutdown s)"
proof -
  have "alive (sentry__threadpool_shutdown s)" using inv by (auto simp: sentry__threadpool_shutdown_def pool_inv_def alive_def)
  then show ?thesis by (rule pool_frame [OF inv]) (simp_all add: sentry__threadpool_shutdown_def)
qed

lemma joined_inv:
  assumes inv: "pool_inv taken rest c s"
  shows "pool_inv taken rest c (threadpool_joined s)"
proof (cases "stopping s \<and> all_gone s")
  case True
  have l: "alive s" using inv by (simp add: pool_inv_def)
  have g: "pcs s i = Gone" for i using True l by (force simp: all_gone_def alive_def list_all_iff)
  then have "pending s = 0" using l unfolding alive_def by (metis not_gr_zero)
  then have "alive (s\<lparr>started_threads := 0, pool_running := False\<rparr>)" using l g by (simp add: alive_def)
  then have "pool_inv taken rest c (s\<lparr>started_threads := 0, pool_running := False\<rparr>)" by (rule pool_frame [OF inv]) simp_all
  then show ?thesis using True by (simp add: threadpool_joined_def)
qed (use inv in \<open>auto simp: threadpool_joined_def\<close>)

lemma pool_step_inv:
  assumes "pool_step s s'" "pool_inv taken rest c s"
  shows "\<exists>taken' rest' c'. pool_inv taken' rest' c' s'"
  using assms(1)
proof (cases rule: pool_step.cases)
  case (submit a d)
  then show ?thesis using submit_inv [OF assms(2)] by blast
next
  case (start n)
  then show ?thesis using start_inv [OF assms(2)] by blast
next
  case shutdown
  then show ?thesis using shutdown_inv [OF assms(2)] by blast
next
  case joined
  then show ?thesis using joined_inv [OF assms(2)] by blast
next
  case (thread i)
  then show ?thesis using thread_inv [OF assms(2)] by blast
qed

lemma pool_new_inv: "sentry__threadpool_new n m = Some s \<Longrightarrow> pool_inv [] [] [] s \<and> pending s \<le> max_pending s"
  by (auto simp: sentry__threadpool_new_def pool_inv_def owned_def exclusive_def alive_def ordered_def in_callback_def split: if_splits)

lemma thread_frame:
  "max_pending (threadpool_thread i s) = max_pending s" "accepted (threadpool_thread i s) = accepted s"
  "pending (threadpool_thread i s) \<le> pending s" "started_threads (threadpool_thread i s) = started_threads s"
  by (auto simp: threadpool_thread_def threadpool_take_def threadpool_exec_def threadpool_finish_def threadpool_commit_ready_def
      threadpool_commit_next_def threadpool_complete_def set_pc_def split: pool_pc.splits option.splits list.splits)

lemma pool_step_bound: "pool_step s s' \<Longrightarrow> pending s \<le> max_pending s \<Longrightarrow> pending s' \<le> max_pending s'"
  by (erule pool_stepE)
    (auto simp: sentry__threadpool_submit_def sentry__threadpool_start_def sentry__threadpool_shutdown_def threadpool_joined_def
      Let_def thread_frame intro: order_trans [OF thread_frame(3)])

lemma pool_reachable:
  assumes "sentry__threadpool_new n m = Some s0" "pool_step\<^sup>*\<^sup>* s0 s"
  shows "\<exists>taken rest c. pool_inv taken rest c s \<and> pending s \<le> max_pending s"
  using assms(2)
proof (induction rule: rtranclp_induct)
  case base
  then show ?case using pool_new_inv [OF assms(1)] by blast
next
  case (step s s')
  then show ?case using pool_step_inv [OF step(2)] pool_step_bound [OF step(2)] by blast
qed

section \<open>Progress\<close>

text \<open>What is left to do: three units for every queued task and three more while it is not done, corrected for where the
  threads are.\<close>

fun pc_work :: "pool_pc \<Rightarrow> int" where
  "pc_work Waiting = 2"
| "pc_work (Running a) = 1"
| "pc_work (Ran a) = 0"
| "pc_work (Completing t) = 4"
| "pc_work Completed = 3"
| "pc_work Gone = 1"

definition work :: "sentry_threadpool_t \<Rightarrow> int" where
  "work s = 6 * int (length (queue s)) - 3 * int (length (filter task_done (queue s)))
     + (\<Sum>i\<in>{..<started_threads s}. pc_work (pcs s i))"

lemma pc_work_nonneg: "0 \<le> pc_work p"
  by (cases p) auto

lemma work_nonneg: "0 \<le> work s"
proof -
  have "0 \<le> (\<Sum>i\<in>{..<started_threads s}. pc_work (pcs s i))" by (rule sum_nonneg) (rule pc_work_nonneg)
  moreover have "length (filter task_done (queue s)) \<le> length (queue s)" by simp
  ultimately show ?thesis unfolding work_def by linarith
qed

lemma pc_work_upd:
  fixes n :: nat
  assumes "i < n"
  shows "(\<Sum>j\<in>{..<n}. pc_work ((p(i := x)) j)) = (\<Sum>j\<in>{..<n}. pc_work (p j)) - pc_work (p i) + pc_work x"
proof -
  have "(\<Sum>j\<in>{..<n}. pc_work ((p(i := x)) j)) = pc_work x + (\<Sum>j\<in>{..<n} - {i}. pc_work (p j))"
    using assms by (subst sum.remove [of _ i]) (auto intro!: sum.cong)
  moreover have "(\<Sum>j\<in>{..<n}. pc_work (p j)) = pc_work (p i) + (\<Sum>j\<in>{..<n} - {i}. pc_work (p j))"
    using assms by (subst sum.remove [of _ i]) auto
  ultimately show ?thesis by simp
qed

lemma work_set_pc: "i < started_threads s \<Longrightarrow> work (set_pc i p s) = work s - pc_work (pcs s i) + pc_work p"
  using pc_work_upd [of i "started_threads s" "pcs s" p] by (simp add: work_def set_pc_def)

lemma mark_done_count:
  assumes "t \<in> set q" "\<not> task_done t" "task_addr t = a"
  shows "length (filter task_done q) < length (filter task_done (mark_done a q))"
  using assms
proof (induction q)
  case (Cons u q)
  have le: "length (filter task_done q) \<le> length (filter task_done (mark_done a q))" for q
    by (induction q) (auto simp: mark_done_def)
  from Cons le [of q] show ?case by (auto simp: mark_done_def)
qed simp


lemma commit_next_work:
  assumes "i < started_threads s" "pc_work (pcs s i) \<ge> 3"
  shows "work (threadpool_commit_next i s) < work s"
proof (cases "queue s")
  case Nil
  then show ?thesis using assms work_set_pc [of i "s\<lparr>committing := False\<rparr>" Waiting]
    by (simp add: threadpool_commit_next_def) (simp add: work_def)
next
  case (Cons t ts)
  then show ?thesis using assms work_set_pc [of i "s\<lparr>committing := False\<rparr>" Waiting] work_set_pc [of i "s\<lparr>queue := ts\<rparr>" "Completing t"]
    by (auto simp: threadpool_commit_next_def) (auto simp: work_def)
qed

text \<open>Every step of a thread that changes anything leaves less to do.\<close>

lemma thread_work:
  assumes inv: "pool_inv taken rest c s" and i: "i < started_threads s"
  shows "threadpool_thread i s = s \<or> work (threadpool_thread i s) < work s"
proof (cases "pcs s i")
  case Waiting
  then show ?thesis using work_set_pc [OF i, of Gone] i
      work_set_pc [of i "s\<lparr>next_unstarted := next_of a (queue s)\<rparr>" "Running a" for a]
    by (auto simp: threadpool_thread_def threadpool_take_def split: option.splits) (simp_all add: work_def)
next
  case (Running a)
  then show ?thesis using exec_inv [OF inv Running] i work_set_pc [of i "s\<lparr>executed_tasks := x\<rparr>" "Ran a" for x]
    by (auto simp: threadpool_thread_def threadpool_exec_def) (simp add: work_def)
next
  case (Ran a)
  have o: "owned taken rest s" and e: "exclusive s" using inv by (auto simp: pool_inv_def)
  obtain t where t: "t \<in> set (queue s)" "\<not> task_done t" "task_addr t = a"
    using ownedD(6) [OF o, of i a] ownedD(1) [OF o] Ran by auto
  let ?q = "s\<lparr>queue := mark_done a (queue s)\<rparr>"
  have d: "work ?q \<le> work s - 3" using mark_done_count [OF t] by (simp add: work_def)
  show ?thesis
  proof (cases "committing s")
    case True
    then have "threadpool_thread i s = set_pc i Waiting ?q"
      using Ran by (simp add: threadpool_thread_def threadpool_finish_def threadpool_commit_ready_def)
    with d work_set_pc [of i ?q Waiting] i Ran show ?thesis by simp
  next
    case False
    let ?u = "set_pc i Completed (?q\<lparr>committing := True\<rparr>)"
    have "threadpool_thread i s = threadpool_commit_next i ?u"
      using Ran False by (simp add: threadpool_thread_def threadpool_finish_def threadpool_commit_ready_def threadpool_commit_next_def
          set_pc_def split: list.splits)
    moreover have "work (threadpool_commit_next i ?u) < work ?u" by (rule commit_next_work) (use i in \<open>simp_all add: set_pc_def\<close>)
    moreover have "work ?u = work ?q + 3" using work_set_pc [of i "?q\<lparr>committing := True\<rparr>" Completed] i Ran by (simp add: work_def)
    ultimately show ?thesis using d by simp
  qed
next
  case (Completing t)
  then show ?thesis using work_set_pc [of i "s\<lparr>completed_tasks := x\<rparr>" Completed for x] i
    by (auto simp: threadpool_thread_def threadpool_complete_def) (simp add: work_def)
next
  case Completed
  have "work (threadpool_commit_next i (s\<lparr>pending := pending s - 1\<rparr>)) < work (s\<lparr>pending := pending s - 1\<rparr>)"
    by (rule commit_next_work) (use i Completed in simp_all)
  then show ?thesis using Completed by (simp add: threadpool_thread_def work_def)
next
  case Gone
  then show ?thesis by (simp add: threadpool_thread_def)
qed

text \<open>A thread that is in the middle of its loop always has a step that changes the pool.\<close>

lemma busy_moves:
  assumes "pool_inv taken rest c s" "pcs s i \<noteq> Waiting" "pcs s i \<noteq> Gone"
  shows "threadpool_thread i s \<noteq> s"
proof -
  have "pcs (threadpool_thread i s) i \<noteq> pcs s i"
    using assms(2,3) exec_inv [OF assms(1), of i]
    by (cases "pcs s i") (auto simp: threadpool_thread_def threadpool_exec_def threadpool_finish_def threadpool_commit_ready_def
        threadpool_commit_next_def threadpool_complete_def set_pc_def split: list.splits)
  then show ?thesis by metis
qed

text \<open>While something is pending and every thread is at the top of its loop, there is a task to take.\<close>

lemma idle_next:
  assumes inv: "pool_inv taken rest c s" and p: "pending s > 0" and w: "\<And>i. pcs s i = Waiting \<or> pcs s i = Gone"
  shows "next_unstarted s \<noteq> None"
proof -
  have o: "owned taken rest s" and e: "exclusive s" using inv by (auto simp: pool_inv_def)
  have nh: "\<not> holds (pcs s i) a" "\<not> in_commit (pcs s i)" for i a using w [of i] by auto
  then have nc: "\<not> committing s" using e unfolding exclusive_def by simp
  then have q: "queue s \<noteq> []" using e p unfolding exclusive_def by auto
  then have hd: "\<not> task_done (hd (queue s))" using e nc unfolding exclusive_def by auto
  have "taken = []"
  proof (rule ccontr)
    assume "taken \<noteq> []"
    then have "hd (queue s) \<in> set taken" using ownedD(1) [OF o] by simp
    with ownedD(5) [OF o] hd nh(1) show False by blast
  qed
  then obtain t ts where "rest = t # ts" using q ownedD(1) [OF o] by (cases rest) auto
  then show ?thesis using ownedD(3) [OF o] by simp
qed

lemma drained: "pool_inv taken rest c s \<Longrightarrow> pending s = 0 \<Longrightarrow> completed_tasks s = accepted s"
proof -
  assume inv: "pool_inv taken rest c s" and p: "pending s = 0"
  have e: "exclusive s" and r: "ordered c s" using inv by (auto simp: pool_inv_def)
  have q: "queue s = []" "\<not> committing s" using e p unfolding exclusive_def by (cases "committing s"; simp)+
  have "pcs s i \<noteq> Completing t" for i t using e q(2) unfolding exclusive_def by (metis in_commit.simps(1))
  then have "c = []" using r by (simp add: ordered_def in_callback_def)
  with q r show ?thesis by (simp add: ordered_def)
qed

section \<open>Properties\<close>

text \<open>C8. Whatever the interleaving of submissions, pool threads, starts and shutdowns: the completion callbacks run one at a time
  and exactly in the order of submission, each after its task has been executed; no task is executed twice; and
  the number of pending tasks stays between zero and its maximum.\<close>

theorem threadpool_completes_in_order:
  assumes "sentry__threadpool_new n m = Some s0" "pool_step\<^sup>*\<^sup>* s0 s"
  shows "(\<exists>later. accepted s = completed_tasks s @ later)
    \<and> mset (completed_tasks s) \<subseteq># mset (executed_tasks s) \<and> mset (executed_tasks s) \<subseteq># mset (accepted s)
    \<and> (\<forall>i j. in_commit (pcs s i) \<and> in_commit (pcs s j) \<longrightarrow> i = j)
    \<and> 0 \<le> pending s \<and> pending s \<le> max_pending s
    \<and> (\<not> pool_running s \<longrightarrow> completed_tasks s = accepted s)"
proof -
  obtain taken rest c where inv: "pool_inv taken rest c s" and b: "pending s \<le> max_pending s" using pool_reachable [OF assms] by blast
  have e: "exclusive s" and l: "alive s" and r: "ordered c s" using inv by (auto simp: pool_inv_def)
  have x: "mset (executed_tasks s) = mset (completed_tasks s @ c) + mset (map task_payload (filter (has_run s) (queue s)))"
    and a: "accepted s = completed_tasks s @ c @ map task_payload (queue s)" using r by (auto simp: ordered_def)
  have "mset (map task_payload (filter (has_run s) (queue s))) \<subseteq># mset (map task_payload (queue s))"
    by (simp add: image_mset_subseteq_mono)
  then have "mset (executed_tasks s) \<subseteq># mset (accepted s)" by (simp add: x a)
  moreover have "mset (completed_tasks s) \<subseteq># mset (executed_tasks s)" by (simp add: x)
  moreover have "\<exists>later. accepted s = completed_tasks s @ later" using a by blast
  moreover have "\<forall>i j. in_commit (pcs s i) \<and> in_commit (pcs s j) \<longrightarrow> i = j" "0 \<le> pending s" using e by (auto simp: exclusive_def)
  moreover have "completed_tasks s = accepted s" if "\<not> pool_running s"
    using drained [OF inv] l that by (auto simp: alive_def)
  ultimately show ?thesis using b by blast
qed

text \<open>A pool of two threads with two tasks.\<close>

definition demo_pool :: "sentry_threadpool_t" where
  "demo_pool = snd (sentry__threadpool_submit (Some 2) 20 (snd (sentry__threadpool_submit (Some 1) 10
     (sentry__threadpool_start 2 (the (sentry__threadpool_new 2 5))))))"

lemma demo_pool_reachable: "pool_step\<^sup>*\<^sup>* (the (sentry__threadpool_new 2 5)) demo_pool"
proof -
  let ?s0 = "the (sentry__threadpool_new 2 5)"
  have "pool_step ?s0 (sentry__threadpool_start 2 ?s0)" by (rule pool_step.start)
  moreover have "pool_step (sentry__threadpool_start 2 ?s0) (snd (sentry__threadpool_submit (Some 1) 10 (sentry__threadpool_start 2 ?s0)))"
    by (rule pool_step.submit) (simp add: sentry__threadpool_start_def sentry__threadpool_new_def LONG_MAX_def)
  moreover have "pool_step (snd (sentry__threadpool_submit (Some 1) 10 (sentry__threadpool_start 2 ?s0))) demo_pool" unfolding demo_pool_def
    by (rule pool_step.submit) (simp add: sentry__threadpool_submit_def sentry__threadpool_start_def sentry__threadpool_new_def LONG_MAX_def)
  ultimately show ?thesis by (meson rtranclp.intros)
qed

lemma demo_pool_new: "sentry__threadpool_new 2 5 = Some (the (sentry__threadpool_new 2 5))"
  by (simp add: sentry__threadpool_new_def LONG_MAX_def)

lemma demo_pool_accepted: "accepted demo_pool = [10, 20]"
  by (simp add: demo_pool_def sentry__threadpool_submit_def sentry__threadpool_start_def sentry__threadpool_new_def LONG_MAX_def)

theorem threadpool_completes_in_order_witness: "\<exists>later. accepted demo_pool = completed_tasks demo_pool @ later \<and> accepted demo_pool = [10, 20]"
  using threadpool_completes_in_order [OF demo_pool_new demo_pool_reachable] demo_pool_accepted by blast

end
