(* ===== verification/ThreadPoolWakeups.thy ===== *)
theory ThreadPoolWakeups
  imports ThreadPool
begin

text \<open>
  The condition variables of the thread pool (\<open>sentry_sync.c\<close>).  Pool threads sleep on \<open>work_signal\<close> until there is a task to take or
  they are to end; other threads sleep on \<open>state_signal\<close> in a flush, in a start during a shutdown, or in a second shutdown.
  A thread that sleeps takes no step before it is woken: by \<open>sentry__cond_wake\<close>, which wakes at least one sleeper if there is
  one, by \<open>sentry__cond_wake_all\<close>, or spuriously.  For each operation of \<open>ThreadPool\<close> a function says what it signals on
  which branch.
\<close>

section \<open>Signals\<close>

datatype wake = No_wake | Wake | Wake_all

text \<open>How the set of sleepers may change: \<open>sentry__cond_wake\<close> wakes one of them or more.\<close>

fun woken :: "wake \<Rightarrow> 'a set \<Rightarrow> 'a set \<Rightarrow> bool" where
  "woken No_wake A B \<longleftrightarrow> B = A"
| "woken Wake A B \<longleftrightarrow> B \<subseteq> A \<and> (A \<noteq> {} \<longrightarrow> B \<noteq> A)"
| "woken Wake_all A B \<longleftrightarrow> B = {}"

lemma woken_subset: "woken x A B \<Longrightarrow> B \<subseteq> A"
  by (cases x) auto

text \<open>What \<open>sentry__threadpool_submit\<close>, \<open>sentry__threadpool_start\<close> (when a thread cannot be created) and \<open>sentry__threadpool_shutdown\<close> signal on
  \<open>work_signal\<close>, and the end of a start or shutdown on \<open>state_signal\<close>.\<close>

definition submit_signal :: "nat option \<Rightarrow> sentry_threadpool_t \<Rightarrow> wake" where
  "submit_signal addr s =
     (case addr of
        None \<Rightarrow> No_wake
      | Some a \<Rightarrow> if \<not> pool_running s \<or> stopping s \<or> pending s \<ge> max_pending s then No_wake else Wake)"

definition start_signal :: "nat \<Rightarrow> sentry_threadpool_t \<Rightarrow> wake" where
  "start_signal spawned s = (if pool_running s then No_wake else if min spawned (thread_count s) < thread_count s then Wake_all else No_wake)"

definition shutdown_signal :: "sentry_threadpool_t \<Rightarrow> wake" where
  "shutdown_signal s = (if \<not> pool_running s then No_wake else if stopping s then No_wake else Wake_all)"

definition joined_signal :: "sentry_threadpool_t \<Rightarrow> wake" where
  "joined_signal s = (if stopping s \<and> all_gone s then Wake_all else No_wake)"

text \<open>What a pool thread signals on \<open>work_signal\<close> and on \<open>state_signal\<close>: at the end of the commit loop, both to all when nothing is pending, and
  then one more wake-up of \<open>work_signal\<close> before it goes to the top of its loop.\<close>

definition commit_end_signals :: "sentry_threadpool_t \<Rightarrow> wake \<times> wake" where
  "commit_end_signals s = (if pending s = 0 then (Wake_all, Wake_all) else (Wake, No_wake))"

definition commit_next_signals :: "sentry_threadpool_t \<Rightarrow> wake \<times> wake" where
  "commit_next_signals s =
     (case queue s of
        [] \<Rightarrow> commit_end_signals s
      | t # ts \<Rightarrow> if task_done t then (No_wake, No_wake) else commit_end_signals s)"

definition thread_signals :: "nat \<Rightarrow> sentry_threadpool_t \<Rightarrow> wake \<times> wake" where
  "thread_signals i s =
     (case pcs s i of
        Ran a \<Rightarrow> if committing s then (Wake, No_wake) else commit_next_signals (s\<lparr>queue := mark_done a (queue s)\<rparr>)
      | Completed \<Rightarrow> commit_next_signals (s\<lparr>pending := pending s - 1\<rparr>)
      | _ \<Rightarrow> (No_wake, No_wake))"

section \<open>Sleepers\<close>

text \<open>A pool thread goes to sleep at the top of its loop when there is no task to take and it is not to end.\<close>

definition must_wait :: "nat \<Rightarrow> sentry_threadpool_t \<Rightarrow> bool" where
  "must_wait i s \<longleftrightarrow> pcs s i = Waiting \<and> next_unstarted s = None \<and> \<not> (stopping s \<and> pending s = 0)"

text \<open>The loops around \<open>state_signal\<close>: of a flush, of a start that finds the pool shutting down, and of a second shutdown.\<close>

datatype state_wait = In_flush | In_start | In_shutdown

fun still_waits :: "sentry_threadpool_t \<Rightarrow> state_wait \<Rightarrow> bool" where
  "still_waits s In_flush \<longleftrightarrow> pending s > 0"
| "still_waits s In_start \<longleftrightarrow> pool_running s \<and> stopping s"
| "still_waits s In_shutdown \<longleftrightarrow> pool_running s"

record pool_world =
  w_pool :: sentry_threadpool_t
  work_sleepers :: "nat set"
  state_sleepers :: "(nat \<times> state_wait) set"

definition pool_created :: "sentry_threadpool_t \<Rightarrow> pool_world" where
  "pool_created s = \<lparr>w_pool = s, work_sleepers = {}, state_sleepers = {}\<rparr>"

text \<open>A step of a pool thread that is awake.\<close>

inductive awake_step :: "pool_world \<Rightarrow> pool_world \<Rightarrow> bool" where
  "i < started_threads s \<Longrightarrow> i \<notin> A \<Longrightarrow> \<not> must_wait i s \<Longrightarrow> woken (fst (thread_signals i s)) A A' \<Longrightarrow> woken (snd (thread_signals i s)) B B' \<Longrightarrow>
     awake_step \<lparr>w_pool = s, work_sleepers = A, state_sleepers = B\<rparr> \<lparr>w_pool = threadpool_thread i s, work_sleepers = A', state_sleepers = B'\<rparr>"

inductive wake_step :: "pool_world \<Rightarrow> pool_world \<Rightarrow> bool" where
  submit: "\<forall>t \<in> set (queue s). task_addr t \<noteq> a \<Longrightarrow> woken (submit_signal (Some a) s) A A' \<Longrightarrow>
     wake_step \<lparr>w_pool = s, work_sleepers = A, state_sleepers = B\<rparr>
       \<lparr>w_pool = snd (sentry__threadpool_submit (Some a) d s), work_sleepers = A', state_sleepers = B\<rparr>"
| start: "woken (start_signal n s) A A' \<Longrightarrow>
     wake_step \<lparr>w_pool = s, work_sleepers = A, state_sleepers = B\<rparr> \<lparr>w_pool = sentry__threadpool_start n s, work_sleepers = A', state_sleepers = B\<rparr>"
| shutdown: "woken (shutdown_signal s) A A' \<Longrightarrow>
     wake_step \<lparr>w_pool = s, work_sleepers = A, state_sleepers = B\<rparr> \<lparr>w_pool = sentry__threadpool_shutdown s, work_sleepers = A', state_sleepers = B\<rparr>"
| joined: "woken (joined_signal s) B B' \<Longrightarrow>
     wake_step \<lparr>w_pool = s, work_sleepers = A, state_sleepers = B\<rparr> \<lparr>w_pool = threadpool_joined s, work_sleepers = A, state_sleepers = B'\<rparr>"
| thread: "awake_step w w' \<Longrightarrow> wake_step w w'"
| sleep: "i < started_threads s \<Longrightarrow> must_wait i s \<Longrightarrow>
     wake_step \<lparr>w_pool = s, work_sleepers = A, state_sleepers = B\<rparr> \<lparr>w_pool = s, work_sleepers = insert i A, state_sleepers = B\<rparr>"
| wait_state: "still_waits s k \<Longrightarrow>
     wake_step \<lparr>w_pool = s, work_sleepers = A, state_sleepers = B\<rparr> \<lparr>w_pool = s, work_sleepers = A, state_sleepers = insert (j, k) B\<rparr>"
| spurious: "A' \<subseteq> A \<Longrightarrow> B' \<subseteq> B \<Longrightarrow>
     wake_step \<lparr>w_pool = s, work_sleepers = A, state_sleepers = B\<rparr> \<lparr>w_pool = s, work_sleepers = A', state_sleepers = B'\<rparr>"

inductive_cases awake_stepE: "awake_step w w'"

text \<open>The pool itself makes the steps of \<open>ThreadPool\<close>.\<close>

lemma wake_pool: "wake_step w w' \<Longrightarrow> w_pool w' = w_pool w \<or> pool_step (w_pool w) (w_pool w')"
  by (induction rule: wake_step.induct) (auto elim!: awake_stepE intro: pool_step.intros)

section \<open>No wake-up is lost\<close>

definition wake_inv :: "sentry_threadpool_t \<Rightarrow> nat set \<Rightarrow> (nat \<times> state_wait) set \<Rightarrow> bool" where
  "wake_inv s A B \<longleftrightarrow>
     (\<forall>i \<in> A. i < started_threads s \<and> pcs s i = Waiting)
     \<and> (next_unstarted s \<noteq> None \<longrightarrow> (\<exists>i < started_threads s. i \<notin> A))
     \<and> (stopping s \<and> pending s = 0 \<longrightarrow> A = {})
     \<and> (\<forall>(j, k) \<in> B. still_waits s k)"

lemma wake_inv_subset: "wake_inv s A B \<Longrightarrow> A' \<subseteq> A \<Longrightarrow> B' \<subseteq> B \<Longrightarrow> wake_inv s A' B'"
  unfolding wake_inv_def by blast

lemma pending_next: "pool_inv taken rest c s \<Longrightarrow> pending s = 0 \<Longrightarrow> next_unstarted s = None"
proof -
  assume inv: "pool_inv taken rest c s" and p: "pending s = 0"
  have "queue s = []" using inv p by (cases "committing s") (auto simp: pool_inv_def exclusive_def)
  then have "rest = []" using inv by (auto simp: pool_inv_def owned_def)
  then show ?thesis using inv by (simp add: pool_inv_def owned_def)
qed

lemma wake_submit:
  assumes inv: "pool_inv taken rest c s" and w: "wake_inv s A B" and A: "woken (submit_signal (Some a) s) A A'"
  shows "wake_inv (snd (sentry__threadpool_submit (Some a) d s)) A' B"
proof (cases "\<not> pool_running s \<or> stopping s \<or> pending s \<ge> max_pending s")
  case True
  then show ?thesis using A w by (auto simp: submit_signal_def sentry__threadpool_submit_def)
next
  case False
  let ?s = "snd (sentry__threadpool_submit (Some a) d s)"
  have A': "A' \<subseteq> A" "A \<noteq> {} \<Longrightarrow> A' \<noteq> A" using A False by (auto simp: submit_signal_def)
  have "0 < started_threads s" using inv False unfolding pool_inv_def alive_def by metis
  have "\<exists>i < started_threads s. i \<notin> A'"
  proof (cases "A = {}")
    case True
    then show ?thesis using A'(1) \<open>0 < started_threads s\<close> by blast
  next
    case F: False
    then obtain i where "i \<in> A" "i \<notin> A'" using A' by blast
    then show ?thesis using w unfolding wake_inv_def by blast
  qed
  moreover have "still_waits ?s k" if "still_waits s k" for k
    using that False by (cases k) (simp_all add: sentry__threadpool_submit_def)
  ultimately show ?thesis using w A'(1) False unfolding wake_inv_def by (auto simp: sentry__threadpool_submit_def)
qed

lemma wake_start:
  assumes inv: "pool_inv taken rest c s" and w: "wake_inv s A B" and A: "woken (start_signal n s) A A'"
  shows "wake_inv (sentry__threadpool_start n s) A' B"
proof (cases "pool_running s")
  case True
  then show ?thesis using A w by (simp add: start_signal_def sentry__threadpool_start_def)
next
  case False
  have "started_threads s = 0" using inv False by (simp add: pool_inv_def alive_def)
  moreover have "pending s = 0" using inv calculation by (simp add: pool_inv_def alive_def)
  ultimately have "A = {}" "next_unstarted s = None" using w pending_next [OF inv] by (auto simp: wake_inv_def)
  moreover have "still_waits (sentry__threadpool_start n s) k" if "still_waits s k" for k
    using that False by (cases k) (simp_all add: sentry__threadpool_start_def Let_def)
  ultimately show ?thesis using w woken_subset [OF A] unfolding wake_inv_def
    by (auto simp: sentry__threadpool_start_def Let_def)
qed

lemma wake_shutdown:
  assumes w: "wake_inv s A B" and A: "woken (shutdown_signal s) A A'"
  shows "wake_inv (sentry__threadpool_shutdown s) A' B"
proof (cases "pool_running s \<and> \<not> stopping s")
  case True
  then have A': "A' = {}" using A by (simp add: shutdown_signal_def)
  have "still_waits (sentry__threadpool_shutdown s) k" if "still_waits s k" for k
    using that by (cases k) (simp_all add: sentry__threadpool_shutdown_def)
  then show ?thesis using w True A' unfolding wake_inv_def by (auto simp: sentry__threadpool_shutdown_def)
next
  case False
  then have "sentry__threadpool_shutdown s = s" by (cases s) (auto simp: sentry__threadpool_shutdown_def)
  then show ?thesis using wake_inv_subset [OF w woken_subset [OF A]] by simp
qed

lemma wake_joined:
  assumes inv: "pool_inv taken rest c s" and w: "wake_inv s A B" and B: "woken (joined_signal s) B B'"
  shows "wake_inv (threadpool_joined s) A B'"
proof (cases "stopping s \<and> all_gone s")
  case True
  have "pending s = 0" using inv True by (cases "started_threads s = 0") (auto simp: pool_inv_def alive_def all_gone_def list_all_iff)
  moreover have "B' = {}" using B True by (simp add: joined_signal_def)
  ultimately show ?thesis using w True pending_next [OF inv] unfolding wake_inv_def by (auto simp: threadpool_joined_def)
next
  case False
  then show ?thesis using w B by (auto simp: threadpool_joined_def joined_signal_def)
qed

text \<open>A step of a thread leaves the other threads where they are.\<close>

lemma thread_others:
  "j \<noteq> i \<Longrightarrow> pcs (threadpool_thread i s) j = pcs s j" "stopping (threadpool_thread i s) = stopping s"
  "pool_running (threadpool_thread i s) = pool_running s"
  by (auto simp: threadpool_thread_def threadpool_take_def threadpool_exec_def threadpool_finish_def threadpool_commit_ready_def
      threadpool_commit_next_def threadpool_complete_def set_pc_def split: pool_pc.splits option.splits list.splits)

text \<open>The step after which nothing is pending wakes everybody.\<close>

lemma last_wakes:
  assumes inv: "pool_inv taken rest c s" and p: "pending s > 0" "pending (threadpool_thread i s) = 0"
  shows "thread_signals i s = (Wake_all, Wake_all)"
proof -
  have pc: "pcs s i = Completed" using p
    by (auto simp: threadpool_thread_def threadpool_take_def threadpool_exec_def threadpool_finish_def threadpool_commit_ready_def
        threadpool_commit_next_def threadpool_complete_def set_pc_def split: pool_pc.splits option.splits list.splits if_splits)
  then have "pending s = 1" using p(2)
    by (auto simp: threadpool_thread_def threadpool_commit_next_def set_pc_def split: list.splits if_splits)
  moreover have e: "exclusive s" using inv by (simp add: pool_inv_def)
  have "committing s" using e pc unfolding exclusive_def by (metis in_commit.simps(2))
  ultimately have "queue s = []" using e by (simp add: exclusive_def)
  then show ?thesis using pc \<open>pending s = 1\<close> by (simp add: thread_signals_def commit_next_signals_def commit_end_signals_def)
qed

lemma wake_thread:
  assumes inv: "pool_inv taken rest c s" and w: "wake_inv s A B" and i: "i < started_threads s" "i \<notin> A"
    and A: "woken (fst (thread_signals i s)) A A'" and B: "woken (snd (thread_signals i s)) B B'"
  shows "wake_inv (threadpool_thread i s) A' B'"
proof -
  let ?s = "threadpool_thread i s"
  have sub: "A' \<subseteq> A" "B' \<subseteq> B" using woken_subset [OF A] woken_subset [OF B] by auto
  have all: "A' = {} \<and> B' = {}" if "pending s > 0" "pending ?s = 0" using last_wakes [OF inv that] A B by simp
  have nn: "0 \<le> pending s" "0 \<le> pending ?s"
    using inv thread_inv [OF inv i(1)] by (auto simp: pool_inv_def exclusive_def)
  have "i' < started_threads ?s \<and> pcs ?s i' = Waiting" if "i' \<in> A'" for i'
  proof -
    have "i' \<in> A" using that sub by blast
    then have "i' \<noteq> i" "i' < started_threads s" "pcs s i' = Waiting" using w i(2) unfolding wake_inv_def by auto
    then show ?thesis using thread_others(1) [of i' i s] thread_frame(4) by simp
  qed
  moreover have "\<exists>j < started_threads ?s. j \<notin> A'" using i sub thread_frame(4) by auto
  moreover have "A' = {}" if "stopping ?s \<and> pending ?s = 0"
  proof (cases "pending s = 0")
    case True
    then show ?thesis using w that sub thread_others(2) unfolding wake_inv_def by auto
  next
    case False
    then show ?thesis using all nn that by simp
  qed
  moreover have "still_waits ?s k" if "(j, k) \<in> B'" for j k
  proof -
    have k: "still_waits s k" using w that sub unfolding wake_inv_def by blast
    show ?thesis
    proof (cases k)
      case In_flush
      then show ?thesis using k all nn that by (metis empty_iff less_le still_waits.simps(1))
    qed (use k thread_others(2,3) in auto)
  qed
  ultimately show ?thesis unfolding wake_inv_def by blast
qed

lemma wake_step_inv:
  assumes "wake_step w w'" "pool_inv taken rest c (w_pool w)" "wake_inv (w_pool w) (work_sleepers w) (state_sleepers w)"
  shows "wake_inv (w_pool w') (work_sleepers w') (state_sleepers w')"
  using assms
proof (cases rule: wake_step.cases)
  case (thread)
  then show ?thesis using assms wake_thread by (fastforce elim!: awake_stepE)
next
  case (sleep i s A B)
  then show ?thesis using assms(3) unfolding wake_inv_def must_wait_def by auto
next
  case (wait_state s k A B j)
  then show ?thesis using assms(3) unfolding wake_inv_def by auto
qed (use assms wake_submit wake_start wake_shutdown wake_joined wake_inv_subset in auto)

lemma wake_reachable:
  assumes new: "sentry__threadpool_new n m = Some s0" and "wake_step\<^sup>*\<^sup>* (pool_created s0) w"
  shows "(\<exists>taken rest c. pool_inv taken rest c (w_pool w)) \<and> wake_inv (w_pool w) (work_sleepers w) (state_sleepers w)"
  using assms(2)
proof (induction rule: rtranclp_induct)
  case base
  have "next_unstarted s0 = None" using pool_new_inv [OF new] by (simp add: pool_inv_def owned_def)
  then show ?case using pool_new_inv [OF new] by (auto simp: pool_created_def wake_inv_def)
next
  case (step w w')
  then obtain taken rest c where inv: "pool_inv taken rest c (w_pool w)" by blast
  have "\<exists>taken rest c. pool_inv taken rest c (w_pool w')" using wake_pool [OF step(2)] inv pool_step_inv by metis
  then show ?case using wake_step_inv [OF step(2) inv] step(3) by blast
qed

section \<open>Progress\<close>

lemma awake_moves:
  assumes inv: "pool_inv taken rest c s" and i: "i < started_threads s" and "\<not> must_wait i s" "pcs s i \<noteq> Gone"
  shows "work (threadpool_thread i s) < work s"
proof -
  have "threadpool_thread i s \<noteq> s"
  proof (cases "pcs s i = Waiting")
    case True
    then have "pcs (threadpool_thread i s) i \<noteq> pcs s i"
      using assms(3) by (auto simp: threadpool_thread_def threadpool_take_def must_wait_def set_pc_def split: option.splits)
    then show ?thesis by metis
  next
    case False
    then show ?thesis using busy_moves [OF inv False assms(4)] by simp
  qed
  then show ?thesis using thread_work [OF inv i] by blast
qed

lemma awake_progress:
  assumes inv: "pool_inv taken rest c s" and w: "wake_inv s A B" and p: "pending s > 0"
  shows "\<exists>i < started_threads s. i \<notin> A \<and> \<not> must_wait i s \<and> pcs s i \<noteq> Gone"
proof -
  have l: "alive s" using inv by (simp add: pool_inv_def)
  have ng: "pcs s i \<noteq> Gone" if "i < started_threads s" for i using l p that by (auto simp: alive_def)
  show ?thesis
  proof (cases "\<exists>i. pcs s i \<noteq> Waiting \<and> pcs s i \<noteq> Gone")
    case True
    then obtain i where i: "pcs s i \<noteq> Waiting" "pcs s i \<noteq> Gone" by blast
    then have "i < started_threads s" "i \<notin> A" using l w unfolding alive_def wake_inv_def by blast+
    with i show ?thesis by (auto simp: must_wait_def)
  next
    case False
    then have "next_unstarted s \<noteq> None" using idle_next [OF inv p] by blast
    moreover from this obtain i where "i < started_threads s" "i \<notin> A" using w unfolding wake_inv_def by blast
    ultimately show ?thesis using ng by (auto simp: must_wait_def)
  qed
qed

lemma woken_total: "\<exists>B. woken x A B"
proof (cases x)
  case Wake
  then show ?thesis by (intro exI [of _ "{}"]) auto
qed auto

lemma awake_drains:
  assumes "pool_inv taken rest c (w_pool w)" "wake_inv (w_pool w) (work_sleepers w) (state_sleepers w)"
  shows "\<exists>w'. awake_step\<^sup>*\<^sup>* w w' \<and> pending (w_pool w') = 0 \<and> completed_tasks (w_pool w') = accepted (w_pool w)"
  using assms
proof (induction "nat (work (w_pool w))" arbitrary: taken rest c w rule: less_induct)
  case less
  obtain s A B where w: "w = \<lparr>w_pool = s, work_sleepers = A, state_sleepers = B\<rparr>" by (cases w)
  note inv = less.prems(1) [unfolded w, simplified] and wi = less.prems(2) [unfolded w, simplified]
  show ?case
  proof (cases "pending s > 0")
    case True
    then obtain i where i: "i < started_threads s" "i \<notin> A" "\<not> must_wait i s" "pcs s i \<noteq> Gone" using awake_progress [OF inv wi] by blast
    obtain A' B' where s: "woken (fst (thread_signals i s)) A A'" "woken (snd (thread_signals i s)) B B'" using woken_total by meson
    let ?w = "\<lparr>w_pool = threadpool_thread i s, work_sleepers = A', state_sleepers = B'\<rparr>"
    have step: "awake_step w ?w" unfolding w by (rule awake_step.intros [OF i(1-3) s])
    obtain taken' rest' c' where inv': "pool_inv taken' rest' c' (w_pool ?w)" using thread_inv [OF inv i(1)] by auto
    have "wake_inv (w_pool ?w) (work_sleepers ?w) (state_sleepers ?w)" using wake_thread [OF inv wi i(1,2) s] by simp
    moreover have "nat (work (w_pool ?w)) < nat (work (w_pool w))"
      using awake_moves [OF inv i(1,3,4)] work_nonneg [of "threadpool_thread i s"] by (simp add: w)
    ultimately obtain w' where "awake_step\<^sup>*\<^sup>* ?w w'" "pending (w_pool w') = 0" "completed_tasks (w_pool w') = accepted (w_pool ?w)"
      using less.hyps [OF _ inv'] by blast
    moreover have "accepted (w_pool ?w) = accepted (w_pool w)" using thread_frame(2) by (simp add: w)
    ultimately show ?thesis using step by (metis converse_rtranclp_into_rtranclp)
  next
    case False
    moreover have "pending s \<ge> 0" using inv by (auto simp: pool_inv_def exclusive_def)
    ultimately show ?thesis using drained [OF inv] by (intro exI [of _ w]) (simp add: w)
  qed
qed

section \<open>Property\<close>

text \<open>C24. No wake-up of the thread pool is lost and it never gets stuck, whatever the order of submissions, starts, shutdowns, steps of the
  pool threads, sleeps and spurious wake-ups, and whichever sleeper a signal wakes: while tasks are pending, some pool thread that is
  not asleep has a step; every step that a thread makes when it is awake and need not wait reduces the remaining work, which is never
  negative, so that the threads alone empty the pool after finitely many steps in whatever order they run, and some run of
  them completes every accepted task; once the pool is stopping and nothing is pending no pool thread is asleep, so that every thread can
  end and be joined; and no thread sleeps in a flush that has nothing to wait for, or in a start or a second shutdown
  after the pool was shut down.\<close>

theorem threadpool_drains:
  fixes w :: pool_world
  defines "s \<equiv> w_pool w"
  assumes "sentry__threadpool_new n m = Some s0" "wake_step\<^sup>*\<^sup>* (pool_created s0) w"
  shows "(pending s > 0 \<longrightarrow> (\<exists>i < started_threads s. i \<notin> work_sleepers w \<and> \<not> must_wait i s \<and> pcs s i \<noteq> Gone))
    \<and> (\<forall>i < started_threads s. \<not> must_wait i s \<and> pcs s i \<noteq> Gone \<longrightarrow> work (threadpool_thread i s) < work s) \<and> 0 \<le> work s
    \<and> (\<exists>w'. awake_step\<^sup>*\<^sup>* w w' \<and> pending (w_pool w') = 0 \<and> completed_tasks (w_pool w') = accepted s)
    \<and> (stopping s \<and> pending s = 0 \<longrightarrow> work_sleepers w = {})
    \<and> (\<forall>(j, k) \<in> state_sleepers w. still_waits s k)"
proof -
  obtain taken rest c where inv: "pool_inv taken rest c s" and wi: "wake_inv s (work_sleepers w) (state_sleepers w)"
    using wake_reachable [OF assms(2,3)] unfolding s_def by blast
  have "(stopping s \<and> pending s = 0 \<longrightarrow> work_sleepers w = {}) \<and> (\<forall>(j, k) \<in> state_sleepers w. still_waits s k)"
    using wi unfolding wake_inv_def by blast
  then show ?thesis
    using awake_progress [OF inv wi] awake_moves [OF inv] awake_drains [of taken rest c w] inv wi work_nonneg [of s] unfolding s_def by blast
qed

text \<open>A pool of two threads that are asleep when two tasks are submitted, the second of them while the first thread has not moved.\<close>

definition demo_world :: pool_world where
  "demo_world = \<lparr>w_pool = demo_pool, work_sleepers = {}, state_sleepers = {(7, In_flush)}\<rparr>"

lemma demo_world_reachable: "wake_step\<^sup>*\<^sup>* (pool_created (the (sentry__threadpool_new 2 5))) demo_world"
proof -
  let ?s0 = "the (sentry__threadpool_new 2 5)"
  let ?s1 = "sentry__threadpool_start 2 ?s0"
  let ?s2 = "snd (sentry__threadpool_submit (Some 1) 10 ?s1)"
  let ?w = "\<lambda>s A B. \<lparr>w_pool = s, work_sleepers = A, state_sleepers = B\<rparr>"
  note defs = sentry__threadpool_submit_def sentry__threadpool_start_def sentry__threadpool_new_def LONG_MAX_def
  have wait: "must_wait i ?s1" "i < started_threads ?s1" if "i < 2" for i using that by (simp_all add: must_wait_def defs)
  have "wake_step (?w ?s0 {} {}) (?w ?s1 {} {})" by (rule wake_step.start) (simp add: start_signal_def defs)
  moreover have "wake_step (?w ?s1 {} {}) (?w ?s1 {0} {})" using wake_step.sleep [of 0 ?s1 "{}"] wait [of 0] by simp
  moreover have "wake_step (?w ?s1 {0} {}) (?w ?s1 {1, 0} {})" using wake_step.sleep [of 1 ?s1 "{0}"] wait [of 1] by simp
  moreover have "wake_step (?w ?s1 {1, 0} {}) (?w ?s2 {1} {})" by (rule wake_step.submit) (simp_all add: submit_signal_def defs)
  moreover have "wake_step (?w ?s2 {1} {}) (?w ?s2 {1} {(7, In_flush)})" by (rule wake_step.wait_state) (simp add: defs)
  moreover have "wake_step (?w ?s2 {1} {(7, In_flush)}) (?w demo_pool {} {(7, In_flush)})" unfolding demo_pool_def
    by (rule wake_step.submit) (simp_all add: submit_signal_def defs)
  ultimately show ?thesis unfolding demo_world_def pool_created_def by (meson rtranclp.intros)
qed

theorem threadpool_drains_witness: "\<exists>w'. awake_step\<^sup>*\<^sup>* demo_world w' \<and> completed_tasks (w_pool w') = [10, 20]"
  using threadpool_drains [OF demo_pool_new demo_world_reachable] demo_pool_accepted by (auto simp: demo_world_def)

end
