(* ===== verification/ClientReport.thy ===== *)
theory ClientReport
  imports Prelude
begin

text \<open>
  The counters of discarded events (\<open>sentry_client_report.c\<close>).  They are a global table of \<open>long\<close>
  counters that several threads add to, empty into a report and refill from a report, one atomic operation on one
  counter at a time.  The state of a thread inside one of the loops is the report and the counters it has still to
  visit; the theory shows that no interleaving loses or invents a discarded event.
\<close>

section \<open>Counters\<close>

datatype sentry_discard_reason_t =
    SENTRY_DISCARD_REASON_QUEUE_OVERFLOW | SENTRY_DISCARD_REASON_CACHE_OVERFLOW | SENTRY_DISCARD_REASON_RATELIMIT_BACKOFF
  | SENTRY_DISCARD_REASON_NETWORK_ERROR | SENTRY_DISCARD_REASON_SAMPLE_RATE | SENTRY_DISCARD_REASON_BEFORE_SEND
  | SENTRY_DISCARD_REASON_SEND_ERROR

datatype sentry_data_category_t =
    SENTRY_DATA_CATEGORY_ERROR | SENTRY_DATA_CATEGORY_SESSION | SENTRY_DATA_CATEGORY_TRANSACTION | SENTRY_DATA_CATEGORY_ATTACHMENT
  | SENTRY_DATA_CATEGORY_LOG_ITEM | SENTRY_DATA_CATEGORY_FEEDBACK | SENTRY_DATA_CATEGORY_TRACE_METRIC | SENTRY_DATA_CATEGORY_REPLAY

type_synonym cell = "sentry_discard_reason_t \<times> sentry_data_category_t"
type_synonym discard_counts = "cell \<Rightarrow> i64"

definition reasons :: "sentry_discard_reason_t list" where
  "reasons = [SENTRY_DISCARD_REASON_QUEUE_OVERFLOW, SENTRY_DISCARD_REASON_CACHE_OVERFLOW, SENTRY_DISCARD_REASON_RATELIMIT_BACKOFF,
     SENTRY_DISCARD_REASON_NETWORK_ERROR, SENTRY_DISCARD_REASON_SAMPLE_RATE, SENTRY_DISCARD_REASON_BEFORE_SEND,
     SENTRY_DISCARD_REASON_SEND_ERROR]"

definition categories :: "sentry_data_category_t list" where
  "categories = [SENTRY_DATA_CATEGORY_ERROR, SENTRY_DATA_CATEGORY_SESSION, SENTRY_DATA_CATEGORY_TRANSACTION, SENTRY_DATA_CATEGORY_ATTACHMENT,
     SENTRY_DATA_CATEGORY_LOG_ITEM, SENTRY_DATA_CATEGORY_FEEDBACK, SENTRY_DATA_CATEGORY_TRACE_METRIC, SENTRY_DATA_CATEGORY_REPLAY]"

text \<open>The order in which the loops visit the counters.\<close>

definition cells :: "cell list" where
  "cells = List.product reasons categories"

definition sentry__client_report_discard :: "cell \<Rightarrow> i64 \<Rightarrow> discard_counts \<Rightarrow> discard_counts" where
  "sentry__client_report_discard c quantity g = (if sint quantity \<le> 0 then g else g(c := g c + quantity))"

definition sentry__client_report_has_pending :: "discard_counts \<Rightarrow> bool" where
  "sentry__client_report_has_pending g = list_ex (\<lambda>c. sint (g c) > 0) cells"

text \<open>One round of the loops: the counter \<open>c\<close> is exchanged with zero, or the count of the report is added back.\<close>

definition save_cell :: "cell \<Rightarrow> discard_counts \<times> discard_counts \<Rightarrow> discard_counts \<times> discard_counts" where
  "save_cell c = (\<lambda>(g, report). (g(c := 0), report(c := g c)))"

definition restore_cell :: "cell \<Rightarrow> discard_counts \<times> discard_counts \<Rightarrow> discard_counts \<times> discard_counts" where
  "restore_cell c = (\<lambda>(g, report). (if sint (report c) > 0 then g(c := g c + report c) else g, report))"

definition sentry__client_report_save :: "discard_counts \<Rightarrow> discard_counts \<Rightarrow> bool \<times> discard_counts \<times> discard_counts" where
  "sentry__client_report_save report g =
     (case fold save_cell cells (g, report) of (g', report') \<Rightarrow>
        (list_ex (\<lambda>c. sint (report' c) > 0) cells, g', report'))"

definition sentry__client_report_restore :: "discard_counts \<Rightarrow> discard_counts \<Rightarrow> discard_counts \<times> discard_counts" where
  "sentry__client_report_restore report g =
     (case fold restore_cell cells (g, report) of (g', _) \<Rightarrow> (g', \<lambda>_. 0))"

definition sentry__client_report_reset :: "discard_counts \<Rightarrow> discard_counts" where
  "sentry__client_report_reset g = fold (\<lambda>c g. g(c := 0)) cells g"

lemma set_cells [simp]: "c \<in> set cells" "set cells = UNIV"
proof -
  have "r \<in> set reasons" for r by (cases r) (simp_all add: reasons_def)
  moreover have "k \<in> set categories" for k by (cases k) (simp_all add: categories_def)
  ultimately show "c \<in> set cells" for c by (cases c) (simp add: cells_def)
  then show "set cells = UNIV" by auto
qed

lemma distinct_cells: "distinct cells"
  by (simp add: cells_def distinct_product reasons_def categories_def)

subsection \<open>The loops without interference\<close>

lemma fold_save: "distinct cs \<Longrightarrow> fold save_cell cs (g, report) =
    ((\<lambda>c. if c \<in> set cs then 0 else g c), (\<lambda>c. if c \<in> set cs then g c else report c))"
  by (induction cs arbitrary: g report) (auto simp: save_cell_def fun_eq_iff)

lemma fold_restore: "distinct cs \<Longrightarrow> fold restore_cell cs (g, report) =
    ((\<lambda>c. if c \<in> set cs \<and> sint (report c) > 0 then g c + report c else g c), report)"
  by (induction cs arbitrary: g) (auto simp: restore_cell_def fun_eq_iff)

lemma reset_all: "sentry__client_report_reset g = (\<lambda>_. 0)"
proof -
  have "fold (\<lambda>c g. g(c := 0)) cs g = (\<lambda>c. if c \<in> set cs then 0 else g c)" for cs and g :: discard_counts
    by (induction cs arbitrary: g) (auto simp: fun_eq_iff)
  then show ?thesis by (simp add: sentry__client_report_reset_def)
qed

text \<open>Saving the counters into a report empties them and puts them back unchanged when the report cannot be
  sent; the result of the save tells whether anything was pending.\<close>

theorem client_report_save_restore:
  assumes "\<And>c. 0 \<le> sint (g c)"
  shows "case sentry__client_report_save report g of (pending, g', report') \<Rightarrow>
    pending = sentry__client_report_has_pending g \<and> \<not> sentry__client_report_has_pending g' \<and> report' = g
    \<and> sentry__client_report_restore report' g' = (g, \<lambda>_. 0)"
proof -
  have s: "sentry__client_report_save report g = (sentry__client_report_has_pending g, (\<lambda>_. 0), g)"
    by (simp add: sentry__client_report_save_def fold_save [OF distinct_cells] sentry__client_report_has_pending_def)
  have "sint (g c) > 0 \<or> g c = 0" for c using assms [of c] by (metis le_less signed_0 signed_word_eqI)
  then have "sentry__client_report_restore g (\<lambda>_. 0) = (g, \<lambda>_. 0)"
    by (auto simp: sentry__client_report_restore_def fold_restore [OF distinct_cells] fun_eq_iff)
  with s show ?thesis by (simp add: sentry__client_report_has_pending_def list_ex_iff)
qed

theorem client_report_save_restore_witness:
  "sentry__client_report_restore
     (snd (snd (sentry__client_report_save (\<lambda>_. 7) (\<lambda>c. if snd c = SENTRY_DATA_CATEGORY_ERROR then 3 else 0)))) (\<lambda>_. 0)
   = ((\<lambda>c. if snd c = SENTRY_DATA_CATEGORY_ERROR then 3 else 0), \<lambda>_. 0)"
  using client_report_save_restore [of "\<lambda>c. if snd c = SENTRY_DATA_CATEGORY_ERROR then 3 else 0" "\<lambda>_. 7"]
  by (auto simp: sentry__client_report_save_def fold_save [OF distinct_cells])

section \<open>Interleavings\<close>

text \<open>A thread that saves or restores has the counters it still has to visit; \<open>discarded\<close> counts what was
  ever recorded and \<open>sent\<close> what left in a report.\<close>

datatype report_pc = Idle | Saving "cell list" | Holding | Restoring "cell list"

record report_state =
  global_counts :: discard_counts
  reports :: "nat \<Rightarrow> discard_counts"
  report_pcs :: "nat \<Rightarrow> report_pc"
  discarded :: "cell \<Rightarrow> nat"
  sent :: "cell \<Rightarrow> nat"

text \<open>Steps of \<open>n\<close> threads.  The report is local to its thread; a count of it is taken as gone once it has been
  added back, where the code clears the report as a whole at the end.\<close>

inductive report_step :: "nat \<Rightarrow> report_state \<Rightarrow> report_state \<Rightarrow> bool" for n :: nat where
  discard: "report_step n s (s\<lparr>global_counts := sentry__client_report_discard c q (global_counts s),
     discarded := (if sint q \<le> 0 then discarded s else (discarded s)(c := discarded s c + unat q))\<rparr>)"
| save_start: "i < n \<Longrightarrow> report_pcs s i = Idle \<Longrightarrow> report_step n s (s\<lparr>report_pcs := (report_pcs s)(i := Saving cells), reports := (reports s)(i := \<lambda>_. 0)\<rparr>)"
| save_next: "i < n \<Longrightarrow> report_pcs s i = Saving (c # cs) \<Longrightarrow> save_cell c (global_counts s, reports s i) = (g, r) \<Longrightarrow>
     report_step n s (s\<lparr>global_counts := g, reports := (reports s)(i := r), report_pcs := (report_pcs s)(i := Saving cs)\<rparr>)"
| save_done: "i < n \<Longrightarrow> report_pcs s i = Saving [] \<Longrightarrow> report_step n s (s\<lparr>report_pcs := (report_pcs s)(i := Holding)\<rparr>)"
| send: "i < n \<Longrightarrow> report_pcs s i = Holding \<Longrightarrow> report_step n s (s\<lparr>report_pcs := (report_pcs s)(i := Idle),
     sent := (\<lambda>c. sent s c + unat (reports s i c)), reports := (reports s)(i := \<lambda>_. 0)\<rparr>)"
| restore_start: "i < n \<Longrightarrow> report_pcs s i = Holding \<Longrightarrow> report_step n s (s\<lparr>report_pcs := (report_pcs s)(i := Restoring cells)\<rparr>)"
| restore_next: "i < n \<Longrightarrow> report_pcs s i = Restoring (c # cs) \<Longrightarrow> restore_cell c (global_counts s, reports s i) = (g, r) \<Longrightarrow>
     report_step n s (s\<lparr>global_counts := g, reports := (reports s)(i := r(c := 0)), report_pcs := (report_pcs s)(i := Restoring cs)\<rparr>)"
| restore_done: "i < n \<Longrightarrow> report_pcs s i = Restoring [] \<Longrightarrow> report_step n s (s\<lparr>report_pcs := (report_pcs s)(i := Idle)\<rparr>)"


inductive_cases report_stepE: "report_step n s s'"

definition no_reports :: report_state where
  "no_reports = \<lparr>global_counts = (\<lambda>_. 0), reports = (\<lambda>_ _. 0), report_pcs = (\<lambda>_. Idle), discarded = (\<lambda>_. 0), sent = (\<lambda>_. 0)\<rparr>"

text \<open>Which counts of the report of a thread are zero.\<close>

fun report_ok :: "report_pc \<Rightarrow> discard_counts \<Rightarrow> bool" where
  "report_ok Idle r = (\<forall>c. r c = 0)"
| "report_ok (Saving cs) r = (distinct cs \<and> (\<forall>c \<in> set cs. r c = 0))"
| "report_ok Holding r = True"
| "report_ok (Restoring cs) r = (distinct cs \<and> (\<forall>c. c \<notin> set cs \<longrightarrow> r c = 0))"

definition held_counts :: "nat \<Rightarrow> report_state \<Rightarrow> cell \<Rightarrow> nat" where
  "held_counts n s c = (\<Sum>i\<in>{..<n}. unat (reports s i c))"

definition counts_inv :: "nat \<Rightarrow> report_state \<Rightarrow> bool" where
  "counts_inv n s \<longleftrightarrow> (\<forall>i. report_ok (report_pcs s i) (reports s i))
     \<and> (\<forall>c. discarded s c < 2 ^ 63 \<longrightarrow> discarded s c = unat (global_counts s c) + held_counts n s c + sent s c)"

lemma held_upd:
  assumes "i < n"
  shows "held_counts n (s\<lparr>reports := (reports s)(i := r)\<rparr>) c + unat (reports s i c) = held_counts n s c + unat (r c)"
proof -
  have "(\<Sum>j\<in>{..<n} - {i}. unat (((reports s)(i := r)) j c)) = (\<Sum>j\<in>{..<n} - {i}. unat (reports s j c))"
    by (rule sum.cong) auto
  then show ?thesis using assms
    by (simp add: held_counts_def sum.remove [of "{..<n}" i])
qed

lemma held_cong: "reports s' = reports s \<Longrightarrow> held_counts n s' c = held_counts n s c"
  by (simp add: held_counts_def)

lemma sint_unat: "unat (w :: i64) < 2 ^ 63 \<Longrightarrow> sint w = int (unat w)"
proof -
  assume "unat w < 2 ^ 63"
  then have "int (unat w) < int (2 ^ 63)" by (simp only: of_nat_less_iff)
  moreover have "- (2 ^ 63) \<le> int (unat w)" by (rule order_trans [of _ 0]) simp_all
  ultimately have "signed_take_bit 63 (int (unat w)) = int (unat w)" by (intro signed_take_bit_int_eq_self) simp_all
  then show ?thesis by (simp add: sint_uint)
qed

lemma report_step_inv:
  assumes "report_step n s s'" "counts_inv n s"
  shows "counts_inv n s'"
proof -
  have ok: "report_ok (report_pcs s i) (reports s i)" for i using assms(2) by (simp add: counts_inv_def)
  have eq: "discarded s c = unat (global_counts s c) + held_counts n s c + sent s c" if "discarded s c < 2 ^ 63" for c
    using assms(2) that unfolding counts_inv_def by blast
  have le: "unat (reports s i c) \<le> held_counts n s c" if "i < n" for i c
    unfolding held_counts_def by (rule member_le_sum) (use that in auto)
  from assms(1) show ?thesis
  proof (cases rule: report_step.cases)
    case (discard q c)
    show ?thesis
    proof (cases "sint q \<le> 0")
      case True
      with discard assms(2) show ?thesis by (simp add: counts_inv_def sentry__client_report_discard_def held_counts_def)
    next
      case False
      have "unat (global_counts s c + q) = unat (global_counts s c) + unat q" if "discarded s c + unat q < 2 ^ 63"
        by (rule unat_add_lem [THEN iffD1]) (use eq [of c] that in simp)
      then have "discarded s c + unat q = unat (global_counts s c + q) + held_counts n s c + sent s c" if "discarded s c + unat q < 2 ^ 63"
        using eq [of c] that by simp
      moreover have "s' = s\<lparr>global_counts := (global_counts s)(c := global_counts s c + q), discarded := (discarded s)(c := discarded s c + unat q)\<rparr>"
        using False discard by (simp add: sentry__client_report_discard_def)
      ultimately show ?thesis using ok eq unfolding counts_inv_def held_counts_def by simp
    qed
  next
    case (save_start i)
    have "held_counts n s' c + unat (reports s i c) = held_counts n s c" for c
      using held_upd [OF save_start(2), of s "\<lambda>_. 0" c] held_cong [of s' "s\<lparr>reports := (reports s)(i := \<lambda>_. 0)\<rparr>"] save_start(1) by simp
    moreover have "reports s i c = 0" for c using ok [of i] save_start(3) by (cases c) simp
    ultimately show ?thesis using save_start ok eq by (auto simp: counts_inv_def distinct_cells)
  next
    case (save_next i c cs g r)
    have r: "g = (global_counts s)(c := 0)" "r = (reports s i)(c := global_counts s c)" using save_next(4) by (auto simp: save_cell_def)
    have z: "reports s i c = 0" "c \<notin> set cs" using ok [of i] save_next(3) by auto
    have h: "held_counts n s' b + unat (reports s i b) = held_counts n s b + unat (r b)" for b
      using held_upd [OF save_next(2), of s r b] held_cong [of s' "s\<lparr>reports := (reports s)(i := r)\<rparr>"] save_next(1) by simp
    have "unat (global_counts s' b) + held_counts n s' b = unat (global_counts s b) + held_counts n s b" for b
      using h [of b] z save_next(1) r by (cases "b = c") auto
    moreover have "report_ok (report_pcs s' j) (reports s' j)" for j using ok [of j] ok [of i] save_next(1,3) r z(2) by auto
    ultimately show ?thesis using eq save_next(1) by (auto simp: counts_inv_def)
  next
    case (save_done i)
    then show ?thesis using ok eq held_cong [of s' s] by (auto simp: counts_inv_def)
  next
    case (send i)
    have h: "held_counts n s' b + unat (reports s i b) = held_counts n s b" for b
      using held_upd [OF send(2), of s "\<lambda>_. 0" b] held_cong [of s' "s\<lparr>reports := (reports s)(i := \<lambda>_. 0)\<rparr>"] send(1) by simp
    have f: "discarded s' = discarded s" "global_counts s' = global_counts s" "sent s' = (\<lambda>c. sent s c + unat (reports s i c))"
      using send(1) by simp_all
    have "discarded s' b = unat (global_counts s' b) + held_counts n s' b + sent s' b" if "discarded s' b < 2 ^ 63" for b
      using eq [of b] h [of b] that unfolding f by linarith
    moreover have "report_ok (report_pcs s' j) (reports s' j)" for j using ok [of j] send(1) by auto
    ultimately show ?thesis unfolding counts_inv_def by blast
  next
    case (restore_start i)
    then show ?thesis using ok eq held_cong [of s' s] by (auto simp: counts_inv_def distinct_cells)
  next
    case (restore_next i c cs g r)
    have r: "r = reports s i" "g = (if sint (r c) > 0 then (global_counts s)(c := global_counts s c + r c) else global_counts s)"
      using restore_next(4) by (auto simp: restore_cell_def)
    have h: "held_counts n s' b + unat (reports s i b) = held_counts n s b + unat ((r(c := 0)) b)" for b
      using held_upd [OF restore_next(2), of s "r(c := 0)" b] held_cong [of s' "s\<lparr>reports := (reports s)(i := r(c := 0))\<rparr>"] restore_next(1) by simp
    have "unat (g b) + held_counts n s' b = unat (global_counts s b) + held_counts n s b" if b: "discarded s b < 2 ^ 63" for b
    proof (cases "b = c")
      case True
      have lt: "unat (reports s i c) + unat (global_counts s c) < 2 ^ 63" using eq [OF b] le [OF restore_next(2), of c] b True by simp
      have "unat (global_counts s c + reports s i c) = unat (global_counts s c) + unat (reports s i c)"
        by (rule unat_add_lem [THEN iffD1]) (use lt in simp)
      moreover have "sint (reports s i c) = int (unat (reports s i c))" using lt by (intro sint_unat) simp
      then have "sint (reports s i c) > 0 \<longleftrightarrow> unat (reports s i c) > 0" by (simp only: of_nat_0_less_iff)
      ultimately show ?thesis using h [of c] r True by (cases "sint (reports s i c) > 0") simp_all
    qed (use h [of b] r in auto)
    moreover have "report_ok (report_pcs s' j) (reports s' j)" for j using ok [of j] ok [of i] restore_next(1,3) r(1) by auto
    ultimately show ?thesis using eq restore_next(1) by (auto simp: counts_inv_def)
  next
    case (restore_done i)
    then show ?thesis using ok [of i] ok eq held_cong [of s' s] by (auto simp: counts_inv_def)
  qed
qed

text \<open>C25. Under every interleaving of threads that discard events, save the counters, send reports and put unsent reports back,
  one counter at a time, every discarded event is accounted for exactly once: in a counter, in a report in flight
  or in a report that was sent.\<close>

theorem client_report_loses_nothing:
  assumes "(report_step n)\<^sup>*\<^sup>* no_reports s" "discarded s c < 2 ^ 63"
  shows "discarded s c = unat (global_counts s c) + (\<Sum>i\<in>{..<n}. unat (reports s i c)) + sent s c"
proof -
  have "counts_inv n s" using assms(1)
  proof (induction rule: rtranclp_induct)
    case base
    then show ?case by (simp add: counts_inv_def no_reports_def held_counts_def)
  next
    case (step s s')
    then show ?case by (blast intro: report_step_inv)
  qed
  with assms(2) show ?thesis unfolding counts_inv_def held_counts_def by blast
qed

theorem client_report_loses_nothing_witness:
  "\<exists>s. (report_step 1)\<^sup>*\<^sup>* no_reports s \<and> report_pcs s 0 = Saving cells \<and> discarded s (hd cells) = 5
     \<and> unat (global_counts s (hd cells)) + unat (reports s 0 (hd cells)) + sent s (hd cells) = 5"
proof -
  let ?c = "hd cells"
  define s1 where "s1 = no_reports\<lparr>global_counts := sentry__client_report_discard ?c 5 (global_counts no_reports),
      discarded := (discarded no_reports)(?c := discarded no_reports ?c + unat (5 :: i64))\<rparr>"
  define s2 where "s2 = s1\<lparr>report_pcs := (report_pcs s1)(0 := Saving cells), reports := (reports s1)(0 := \<lambda>_. 0)\<rparr>"
  have "report_step 1 no_reports s1" using report_step.discard [where n = 1 and s = no_reports and c = ?c and q = 5] by (simp add: s1_def)
  moreover have "report_step 1 s1 s2" unfolding s2_def by (rule report_step.save_start) (simp_all add: s1_def no_reports_def)
  ultimately have r: "(report_step 1)\<^sup>*\<^sup>* no_reports s2" by (meson rtranclp.intros)
  moreover have d: "discarded s2 ?c = 5" "report_pcs s2 0 = Saving cells" by (simp_all add: s2_def s1_def no_reports_def)
  ultimately show ?thesis using client_report_loses_nothing [OF r, of ?c] by auto
qed

end
