(* ===== verification/Attachments.thy ===== *)
theory Attachments
  imports Prelude ValueOps
begin

text \<open>
  Attachments (\<open>sentry_attachment.c\<close>) and the name of a path (\<open>sentry_path_unix.c\<close>).  The linked list of
  attachments is a list in its order; an attachment carries its address, which is what pointer comparison sees.
  The size of a file is given by the argument \<open>path_size\<close>.
\<close>

record sentry_attachment_t =
  att_addr :: nat
  att_path :: "string option"
  att_buf :: "string option"
  att_filename :: "string option"
  att_type :: "string option"
  att_content_type :: "string option"

abbreviation SENTRY_LARGE_ATTACHMENT_SIZE :: nat where "SENTRY_LARGE_ATTACHMENT_SIZE \<equiv> 100 * 1024 * 1024"
abbreviation SENTRY_MAX_ATTACHMENT_SIZE :: nat where "SENTRY_MAX_ATTACHMENT_SIZE \<equiv> 1024 * 1024 * 1024"

text \<open>\<open>strrchr\<close>: what follows the last separator.\<close>

definition sentry__path_filename :: "string \<Rightarrow> string" where
  "sentry__path_filename path = rev (takeWhile (\<lambda>c. c \<noteq> CHR ''/'') (rev path))"

text \<open>\<open>sentry__string_clone_n\<close> as the C string it makes.\<close>

definition clone_n :: "string option \<Rightarrow> nat \<Rightarrow> string option" where
  "clone_n s n = map_option (\<lambda>s. cstr (take n s)) s"

definition sentry__attachment_set_type_n :: "sentry_attachment_t \<Rightarrow> string option \<Rightarrow> nat \<Rightarrow> sentry_attachment_t" where
  "sentry__attachment_set_type_n attachment type type_len =
     (let type = (if type \<noteq> None \<and> type_len > 0 then clone_n type type_len else None);
          attachment = attachment\<lparr>att_type := type\<rparr>
      in if type \<noteq> None \<and> att_content_type attachment = None
         then if type = Some ''event.minidump'' then attachment\<lparr>att_content_type := Some ''application/octet-stream''\<rparr>
              else if type = Some ''event.view_hierarchy'' then attachment\<lparr>att_content_type := Some ''application/json''\<rparr>
              else attachment
         else attachment)"

definition sentry__attachment_set_content_type_n ::
  "sentry_attachment_t \<Rightarrow> string option \<Rightarrow> nat \<Rightarrow> sentry_attachment_t" where
  "sentry__attachment_set_content_type_n attachment content_type n = attachment\<lparr>att_content_type := clone_n content_type n\<rparr>"

definition sentry__attachment_set_filename_n :: "sentry_attachment_t \<Rightarrow> string option \<Rightarrow> nat \<Rightarrow> sentry_attachment_t" where
  "sentry__attachment_set_filename_n attachment filename n = attachment\<lparr>att_filename := clone_n filename n\<rparr>"

text \<open>\<open>a\<close> is the address the allocator returns.\<close>

definition sentry__attachment_from_path :: "nat \<Rightarrow> string option \<Rightarrow> sentry_attachment_t option" where
  "sentry__attachment_from_path a path =
     (if path = None then None
      else Some \<lparr>att_addr = a, att_path = path, att_buf = None, att_filename = None, att_type = None, att_content_type = None\<rparr>)"

definition sentry__attachment_from_buffer ::
  "nat \<Rightarrow> string option \<Rightarrow> nat \<Rightarrow> string option \<Rightarrow> sentry_attachment_t option" where
  "sentry__attachment_from_buffer a buf buf_len filename =
     (if filename = None then None
      else if buf = None \<or> buf_len = 0 then None
      else Some \<lparr>att_addr = a, att_path = None, att_buf = map_option (take buf_len) buf, att_filename = filename,
                 att_type = None, att_content_type = None\<rparr>)"

definition sentry__attachment_get_size :: "(string option \<Rightarrow> nat) \<Rightarrow> sentry_attachment_t \<Rightarrow> nat" where
  "sentry__attachment_get_size path_size att = (case att_buf att of Some b \<Rightarrow> length b | None \<Rightarrow> path_size (att_path att))"

definition sentry__attachment_get_bytes :: "sentry_attachment_t option \<Rightarrow> string option \<times> nat" where
  "sentry__attachment_get_bytes att =
     (case att of None \<Rightarrow> (None, 0) | Some a \<Rightarrow> (case att_buf a of None \<Rightarrow> (None, 0) | Some b \<Rightarrow> (Some b, length b)))"

definition sentry__attachment_get_filename :: "sentry_attachment_t \<Rightarrow> string option" where
  "sentry__attachment_get_filename att =
     map_option sentry__path_filename (if att_filename att \<noteq> None then att_filename att else att_path att)"

definition sentry__attachment_get_path :: "sentry_attachment_t option \<Rightarrow> string option" where
  "sentry__attachment_get_path att = (case att of None \<Rightarrow> None | Some a \<Rightarrow> att_path a)"

text \<open>\<open>options\<close> is the field \<open>enable_large_attachments\<close> of the options, if there are options.\<close>

definition sentry__attachment_is_placeholder ::
  "(string option \<Rightarrow> nat) \<Rightarrow> sentry_attachment_t option \<Rightarrow> bool option \<Rightarrow> bool" where
  "sentry__attachment_is_placeholder path_size att options =
     (options = Some True \<and>
      (case att of None \<Rightarrow> False | Some a \<Rightarrow> sentry__attachment_get_size path_size a \<ge> SENTRY_LARGE_ATTACHMENT_SIZE))"

definition attachment_eq :: "sentry_attachment_t \<Rightarrow> sentry_attachment_t \<Rightarrow> bool" where
  "attachment_eq a b =
     (if att_addr a = att_addr b then True
      else if att_buf a \<noteq> None \<or> att_buf b \<noteq> None then False
      else if (case att_type a of Some t \<Rightarrow> t | None \<Rightarrow> '''') \<noteq> (case att_type b of Some t \<Rightarrow> t | None \<Rightarrow> '''') then False
      else att_path a = att_path b)"

text \<open>The loop over the list, with the attachment that is returned; a duplicate is freed.\<close>

primrec attachments_add_loop ::
  "sentry_attachment_t list \<Rightarrow> sentry_attachment_t \<Rightarrow> sentry_attachment_t list \<times> sentry_attachment_t" where
  "attachments_add_loop [] attachment = ([attachment], attachment)"
| "attachments_add_loop (it # rest) attachment =
     (if attachment_eq it attachment then (it # rest, it)
      else case attachments_add_loop rest attachment of (rest', r) \<Rightarrow> (it # rest', r))"

definition sentry__attachments_add ::
  "(string option \<Rightarrow> nat) \<Rightarrow> sentry_attachment_t list \<Rightarrow> sentry_attachment_t option
     \<Rightarrow> sentry_attachment_t list \<times> sentry_attachment_t option" where
  "sentry__attachments_add path_size attachments attachment =
     (case attachment of
        None \<Rightarrow> (attachments, None)
      | Some att \<Rightarrow>
          if sentry__attachment_get_size path_size att > SENTRY_MAX_ATTACHMENT_SIZE then (attachments, None)
          else case attachments_add_loop attachments att of (attachments', r) \<Rightarrow> (attachments', Some r))"

definition sentry__attachments_add_path ::
  "(string option \<Rightarrow> nat) \<Rightarrow> nat \<Rightarrow> sentry_attachment_t list \<Rightarrow> string option \<Rightarrow> string option \<Rightarrow> string option
     \<Rightarrow> sentry_attachment_t list \<times> sentry_attachment_t option" where
  "sentry__attachments_add_path path_size a attachments path attachment_type content_type =
     (case sentry__attachment_from_path a path of
        None \<Rightarrow> (attachments, None)
      | Some att \<Rightarrow>
          let att = sentry__attachment_set_type_n att attachment_type (sentry__guarded_strlen attachment_type);
              att = (if content_type \<noteq> None \<or> att_content_type att = None
                     then sentry__attachment_set_content_type_n att content_type (sentry__guarded_strlen content_type)
                     else att)
          in sentry__attachments_add path_size attachments (Some att))"

primrec attachments_remove_loop :: "sentry_attachment_t list \<Rightarrow> nat \<Rightarrow> sentry_attachment_t list \<times> bool" where
  "attachments_remove_loop [] a = ([], False)"
| "attachments_remove_loop (it # rest) a =
     (if att_addr it = a then (rest, True)
      else case attachments_remove_loop rest a of (rest', r) \<Rightarrow> (it # rest', r))"

definition sentry__attachments_remove :: "sentry_attachment_t list \<Rightarrow> nat option \<Rightarrow> sentry_attachment_t list \<times> bool" where
  "sentry__attachments_remove attachments attachment =
     (case attachment of None \<Rightarrow> (attachments, False) | Some a \<Rightarrow> attachments_remove_loop attachments a)"

text \<open>The clones of the strings and of the buffer are taken to succeed.\<close>

definition attachment_clone :: "nat \<Rightarrow> sentry_attachment_t \<Rightarrow> sentry_attachment_t" where
  "attachment_clone a attachment = attachment\<lparr>att_addr := a\<rparr>"

text \<open>The addresses of the clones are those the allocator returns, one for each attachment in turn.\<close>

fun sentry__attachments_extend ::
  "(string option \<Rightarrow> nat) \<Rightarrow> nat list \<Rightarrow> sentry_attachment_t list \<Rightarrow> sentry_attachment_t list \<Rightarrow> sentry_attachment_t list" where
  "sentry__attachments_extend path_size (a # as) attachments (it # rest) =
     sentry__attachments_extend path_size as (fst (sentry__attachments_add path_size attachments (Some (attachment_clone a it)))) rest"
| "sentry__attachments_extend path_size _ attachments _ = attachments"

section \<open>The list holds no duplicates\<close>

definition attachments_ok :: "(string option \<Rightarrow> nat) \<Rightarrow> sentry_attachment_t list \<Rightarrow> bool" where
  "attachments_ok path_size as \<longleftrightarrow> sorted_wrt (\<lambda>a b. \<not> attachment_eq a b) as
     \<and> (\<forall>a \<in> set as. sentry__attachment_get_size path_size a \<le> SENTRY_MAX_ATTACHMENT_SIZE)"

lemma attachment_eq_sym: "attachment_eq a b = attachment_eq b a"
  by (auto simp: attachment_eq_def)

lemma attachment_eq_refl: "attachment_eq a a"
  by (simp add: attachment_eq_def)

lemma add_loop_spec:
  "fst (attachments_add_loop as x) = (if \<exists>a \<in> set as. attachment_eq a x then as else as @ [x])
   \<and> snd (attachments_add_loop as x) \<in> set (fst (attachments_add_loop as x)) \<and> attachment_eq (snd (attachments_add_loop as x)) x"
proof (induction as)
  case Nil
  then show ?case by (simp add: attachment_eq_refl)
next
  case (Cons a as)
  then show ?case by (cases "attachment_eq a x") (auto simp: case_prod_beta split: if_splits)
qed

lemma attachments_add_ok:
  assumes "attachments_ok path_size as"
  shows "attachments_ok path_size (fst (sentry__attachments_add path_size as att))"
proof (cases att)
  case (Some x)
  with assms add_loop_spec [of as x] show ?thesis
    by (auto simp: sentry__attachments_add_def attachments_ok_def case_prod_beta sorted_wrt_append)
qed (use assms in \<open>simp add: sentry__attachments_add_def\<close>)

lemma remove_loop_subset: "set (fst (attachments_remove_loop as a)) \<subseteq> set as"
  by (induction as) (auto simp: case_prod_beta)

lemma remove_loop_sorted: "sorted_wrt P as \<Longrightarrow> sorted_wrt P (fst (attachments_remove_loop as a))"
proof (induction as)
  case (Cons x as)
  then show ?case using remove_loop_subset [of as a] by (auto simp: case_prod_beta)
qed simp

lemma attachments_remove_ok:
  "attachments_ok path_size as \<Longrightarrow> attachments_ok path_size (fst (sentry__attachments_remove as p))"
proof (cases p)
  case (Some a)
  assume "attachments_ok path_size as"
  then have "attachments_ok path_size (fst (attachments_remove_loop as a))"
    using remove_loop_sorted [of _ as a] remove_loop_subset [of as a] unfolding attachments_ok_def by blast
  then show ?thesis using Some by (simp add: sentry__attachments_remove_def)
qed (simp add: sentry__attachments_remove_def)

lemma attachments_extend_ok:
  "attachments_ok path_size as \<Longrightarrow> attachments_ok path_size (sentry__attachments_extend path_size addrs as bs)"
  by (induction path_size addrs as bs rule: sentry__attachments_extend.induct) (simp_all add: attachments_add_ok)

end
