(* ===== verification/Envelope.thy ===== *)
theory Envelope
  imports JsonReader RateLimiter Urls ClientReport Attachments
begin

text \<open>
  Envelopes (\<open>sentry_envelope.c\<close>): what the SDK sends and stores.  An envelope is either the raw bytes of a file
  or headers with a list of items, each an object of headers, an optional event value and an optional payload.
  The linked list of items is a list in its order and a pointer to an item is its index; \<open>payload_len\<close> is the
  length of the payload (0 without one).  Structures of fixed size are taken to be allocated without failure; the
  payloads and texts use the allocator \<open>malloc\<close> given to them.  New identifiers, timestamps, the scope values the
  code reads under its lock and the contents of files are arguments.
\<close>

section \<open>Items\<close>

record sentry_envelope_item_t =
  item_headers :: sentry_value
  item_event :: sentry_value
  item_payload :: "string option"

datatype sentry_envelope_t = Raw string | Items sentry_value "sentry_envelope_item_t list"

abbreviation payload_bytes :: "sentry_envelope_item_t \<Rightarrow> string" where
  "payload_bytes item \<equiv> (case item_payload item of None \<Rightarrow> [] | Some p \<Rightarrow> p)"

definition empty_item :: sentry_envelope_item_t where
  "empty_item = \<lparr>item_headers = sentry_value_new_object, item_event = VNull, item_payload = None\<rparr>"

fun envelope_add_item :: "sentry_envelope_t \<Rightarrow> sentry_envelope_t \<times> nat option" where
  "envelope_add_item (Raw p) = (Raw p, None)"
| "envelope_add_item (Items h is) = (Items h (is @ [empty_item]), Some (length is))"

text \<open>A write through an item pointer.\<close>

fun on_item :: "nat \<Rightarrow> (sentry_envelope_item_t \<Rightarrow> sentry_envelope_item_t) \<Rightarrow> sentry_envelope_t \<Rightarrow> sentry_envelope_t" where
  "on_item i f (Items h is) = (if i < length is then Items h (is[i := f (is ! i)]) else Items h is)"
| "on_item i f (Raw p) = Raw p"

fun sentry_envelope_get_header_n :: "sentry_envelope_t option \<Rightarrow> string \<Rightarrow> sentry_value" where
  "sentry_envelope_get_header_n (Some (Items h _)) key = sentry_value_get_by_key_n h key"
| "sentry_envelope_get_header_n _ key = VNull"

definition sentry__envelope_item_set_header ::
  "string \<Rightarrow> sentry_value \<Rightarrow> sentry_envelope_item_t \<Rightarrow> sentry_envelope_item_t" where
  "sentry__envelope_item_set_header key value item = item\<lparr>item_headers := set_key key value (item_headers item)\<rparr>"

text \<open>The type header as \<open>sentry_value_as_string\<close> gives it.\<close>

abbreviation item_type :: "sentry_envelope_item_t \<Rightarrow> string" where
  "item_type item \<equiv> sentry_value_as_string (sentry_value_get_by_key (item_headers item) ''type'')"

text \<open>\<open>None\<close> is \<open>-1\<close>: the item bypasses rate limiting.\<close>

definition envelope_item_get_ratelimiter_category :: "sentry_envelope_item_t \<Rightarrow> nat option" where
  "envelope_item_get_ratelimiter_category item =
     (let ty = item_type item
      in if ty = ''session'' then Some SENTRY_RL_CATEGORY_SESSION
         else if ty = ''transaction'' then Some SENTRY_RL_CATEGORY_TRANSACTION
         else if ty = ''replay_video'' then Some SENTRY_RL_CATEGORY_REPLAY
         else if ty = ''client_report'' then None
         else Some SENTRY_RL_CATEGORY_ERROR)"

definition item_type_to_data_category :: "string \<Rightarrow> sentry_data_category_t" where
  "item_type_to_data_category ty =
     (if ty = ''session'' then SENTRY_DATA_CATEGORY_SESSION
      else if ty = ''transaction'' then SENTRY_DATA_CATEGORY_TRANSACTION
      else if ty = ''attachment'' then SENTRY_DATA_CATEGORY_ATTACHMENT
      else if ty = ''log'' then SENTRY_DATA_CATEGORY_LOG_ITEM
      else if ty = ''feedback'' then SENTRY_DATA_CATEGORY_FEEDBACK
      else if ty = ''trace_metric'' then SENTRY_DATA_CATEGORY_TRACE_METRIC
      else if ty = ''replay_video'' then SENTRY_DATA_CATEGORY_REPLAY
      else SENTRY_DATA_CATEGORY_ERROR)"

text \<open>Whether the limiter, if there is one, holds back a category now.\<close>

definition limited :: "u64 \<Rightarrow> sentry_rate_limiter_t option \<Rightarrow> nat \<Rightarrow> bool" where
  "limited now rl category = (case rl of None \<Rightarrow> False | Some rl \<Rightarrow> sentry__rate_limiter_is_disabled now rl category)"

fun sentry__envelope_can_add_client_report ::
  "u64 \<Rightarrow> sentry_envelope_t option \<Rightarrow> sentry_rate_limiter_t option \<Rightarrow> bool" where
  "sentry__envelope_can_add_client_report now (Some (Items h is)) rl =
     list_ex (\<lambda>item. case envelope_item_get_ratelimiter_category item of
        None \<Rightarrow> False | Some category \<Rightarrow> \<not> limited now rl category) is"
| "sentry__envelope_can_add_client_report now _ rl = False"

section \<open>Building an envelope\<close>

text \<open>\<open>(int32_t)len\<close> as a value.\<close>

abbreviation int32_of_len :: "nat \<Rightarrow> sentry_value" where
  "int32_of_len n \<equiv> VInt32 (word_of_nat n)"

definition envelope_add_from_owned_buffer ::
  "sentry_envelope_t \<Rightarrow> string option \<Rightarrow> string \<Rightarrow> sentry_envelope_t \<times> nat option" where
  "envelope_add_from_owned_buffer envelope buf type =
     (case buf of
        None \<Rightarrow> (envelope, None)
      | Some b \<Rightarrow>
          (case envelope_add_item envelope of
             (envelope, None) \<Rightarrow> (envelope, None)
           | (envelope, Some i) \<Rightarrow>
               (on_item i (\<lambda>item.
                  sentry__envelope_item_set_header ''length'' (int32_of_len (length b))
                    (sentry__envelope_item_set_header ''type'' (str_value type) (item\<lparr>item_payload := Some b\<rparr>))) envelope,
                Some i)))"

fun sentry__envelope_set_header :: "sentry_envelope_t \<Rightarrow> string \<Rightarrow> sentry_value \<Rightarrow> sentry_envelope_t" where
  "sentry__envelope_set_header (Raw p) key value = Raw p"
| "sentry__envelope_set_header (Items h is) key value = Items (set_key key value h) is"

definition sentry__envelope_new_with_dsn :: "sentry_dsn_t option \<Rightarrow> sentry_envelope_t" where
  "sentry__envelope_new_with_dsn dsn =
     (let rv = Items sentry_value_new_object []
      in case dsn of
           None \<Rightarrow> rv
         | Some d \<Rightarrow> if is_valid d then sentry__envelope_set_header rv ''dsn'' (sentry_value_new_string (raw d)) else rv)"

text \<open>\<open>file\<close> is what reading the file gives.\<close>

definition sentry__envelope_from_path :: "string option \<Rightarrow> sentry_envelope_t option" where
  "sentry__envelope_from_path file = map_option Raw file"

text \<open>\<open>strtod\<close> is the conversion the JSON reader uses for floating point numbers.\<close>

fun sentry__envelope_get_event_id :: "(string \<Rightarrow> double) \<Rightarrow> sentry_envelope_t option \<Rightarrow> sentry_uuid_t" where
  "sentry__envelope_get_event_id strtod None = sentry_uuid_nil"
| "sentry__envelope_get_event_id strtod (Some (Raw payload)) =
     (let header_text = (case memchr_split CHR 0x0A payload of Some (a, _) \<Rightarrow> a | None \<Rightarrow> payload);
          header = sentry__value_from_json strtod header_text
      in sentry_uuid_from_string (Some (sentry_value_as_string (sentry_value_get_by_key header ''event_id''))))"
| "sentry__envelope_get_event_id strtod (Some (Items h is)) =
     sentry_uuid_from_string (Some (sentry_value_as_string (sentry_value_get_by_key h ''event_id'')))"

definition sentry__envelope_set_event_id :: "sentry_envelope_t \<Rightarrow> sentry_uuid_t \<Rightarrow> sentry_envelope_t" where
  "sentry__envelope_set_event_id envelope event_id =
     sentry__envelope_set_header envelope ''event_id'' (sentry__value_new_uuid event_id)"

definition sentry__event_is_transaction :: "sentry_value \<Rightarrow> bool" where
  "sentry__event_is_transaction event \<longleftrightarrow>
     sentry_value_as_string (sentry_value_get_by_key event ''type'') = ''transaction''"

text \<open>The first item whose event passes a test, or null.\<close>

definition first_event :: "(sentry_value \<Rightarrow> bool) \<Rightarrow> sentry_envelope_item_t list \<Rightarrow> sentry_value" where
  "first_event P is = (case find (\<lambda>item. \<not> sentry_value_is_null (item_event item) \<and> P (item_event item)) is of
     Some item \<Rightarrow> item_event item | None \<Rightarrow> VNull)"

fun sentry_envelope_get_event :: "sentry_envelope_t \<Rightarrow> sentry_value" where
  "sentry_envelope_get_event (Raw _) = VNull"
| "sentry_envelope_get_event (Items h is) = first_event (\<lambda>e. \<not> sentry__event_is_transaction e) is"

fun sentry_envelope_get_transaction :: "sentry_envelope_t \<Rightarrow> sentry_value" where
  "sentry_envelope_get_transaction (Raw _) = VNull"
| "sentry_envelope_get_transaction (Items h is) = first_event sentry__event_is_transaction is"

text \<open>\<open>sentry__ensure_event_id\<close>: the identifier and the event that carries it; \<open>new_id\<close> is a fresh identifier.\<close>

definition sentry__ensure_event_id :: "sentry_uuid_t \<Rightarrow> sentry_value \<Rightarrow> sentry_uuid_t \<times> sentry_value" where
  "sentry__ensure_event_id new_id event =
     (let uuid = sentry__value_as_uuid (sentry_value_get_by_key event ''event_id'')
      in if sentry_uuid_is_nil uuid then (new_id, set_key ''event_id'' (sentry__value_new_uuid new_id) event)
         else (uuid, event))"

text \<open>The payload a JSON writer on a fresh builder makes of a value: the block up to its length.\<close>

definition json_payload :: "malloc \<Rightarrow> (double \<Rightarrow> string) \<Rightarrow> sentry_value \<Rightarrow> string option" where
  "json_payload malloc fd value =
     (case sentry__value_to_json malloc fd value of (b, n) \<Rightarrow> map_option (take n) b)"

text \<open>IEEE doubles: not-a-number, and the order of the others as that of sign and magnitude.\<close>

definition double_isnan :: "double \<Rightarrow> bool" where
  "double_isnan d \<longleftrightarrow> \<not> double_is_finite d \<and> take_bit 52 d \<noteq> 0"

definition double_key :: "double \<Rightarrow> int" where
  "double_key d = (if bit d 63 then - int (unat (take_bit 63 d)) else int (unat d))"

definition double_ge :: "double \<Rightarrow> double \<Rightarrow> bool" where
  "double_ge a b \<longleftrightarrow> \<not> double_isnan a \<and> \<not> double_isnan b \<and> double_key b \<le> double_key a"

text \<open>The dynamic sampling context an event sends: \<open>dsc\<close> and \<open>sample_rand\<close> are read from the scope.\<close>

definition event_dsc :: "double \<Rightarrow> sentry_value \<Rightarrow> double \<Rightarrow> sentry_value \<Rightarrow> sentry_value" where
  "event_dsc traces_sample_rate dsc sample_rand event =
     (let trace_id = sentry_value_get_by_key (sentry_value_get_by_key (sentry_value_get_by_key event ''contexts'') ''trace'') ''trace_id'';
          dsc = set_if (\<not> sentry_value_is_null trace_id) ''trace_id'' trace_id dsc
      in set_if (\<not> double_isnan sample_rand) ''sampled''
           (str_value (if double_ge sample_rand traces_sample_rate then ''false'' else ''true'')) dsc)"

definition transaction_dsc :: "sentry_value \<Rightarrow> sentry_value \<Rightarrow> sentry_value" where
  "transaction_dsc dsc transaction =
     (let trace_id = sentry_value_get_by_key (sentry_value_get_by_key (sentry_value_get_by_key transaction ''contexts'') ''trace'') ''trace_id'';
          dsc = (if \<not> sentry_value_is_null trace_id
                 then set_key ''sampled'' (str_value ''true'') (set_key ''trace_id'' trace_id dsc) else dsc);
          transaction_name = sentry_value_get_by_key transaction ''transaction''
      in set_if (\<not> sentry_value_is_null transaction_name) ''transaction'' transaction_name dsc)"

text \<open>The trace header is added when the context has members.\<close>

definition add_trace_header :: "sentry_value \<Rightarrow> sentry_envelope_t \<Rightarrow> sentry_envelope_t" where
  "add_trace_header dsc envelope =
     (if sentry_value_is_true dsc then sentry__envelope_set_header envelope ''trace'' dsc else envelope)"

text \<open>The values of the options and of the scope that the operations read.\<close>

record scope_view =
  view_sample_rate :: double
  view_dsc :: sentry_value
  view_propagation_context :: sentry_value

text \<open>The step \<open>add_event\<close>, \<open>add_transaction\<close> and \<open>add_user_report\<close> share: a new item whose payload is the
  event with an identifier.  A failure to make the payload leaves the new item empty.\<close>

definition add_with_id ::
  "malloc \<Rightarrow> (double \<Rightarrow> string) \<Rightarrow> sentry_uuid_t \<Rightarrow> string \<Rightarrow> bool \<Rightarrow> sentry_envelope_t \<Rightarrow> sentry_value
     \<Rightarrow> sentry_envelope_t \<times> nat option \<times> sentry_value" where
  "add_with_id malloc fd new_id type keeps_event envelope event =
     (case envelope_add_item envelope of
        (envelope, None) \<Rightarrow> (envelope, None, event)
      | (envelope, Some i) \<Rightarrow>
          let (event_id, event) = sentry__ensure_event_id new_id event
          in case json_payload malloc fd event of
               None \<Rightarrow> (envelope, None, event)
             | Some payload \<Rightarrow>
                 (sentry__envelope_set_event_id
                    (on_item i (\<lambda>item.
                       sentry__envelope_item_set_header ''length'' (int32_of_len (length payload))
                         (sentry__envelope_item_set_header ''type'' (str_value type)
                            (item\<lparr>item_payload := Some payload,
                                  item_event := (if keeps_event then event else item_event item)\<rparr>))) envelope) event_id,
                  Some i, event))"

text \<open>Each returns the envelope, the item and the event, which the identifier was written to.\<close>

definition sentry__envelope_add_event ::
  "malloc \<Rightarrow> (double \<Rightarrow> string) \<Rightarrow> sentry_uuid_t \<Rightarrow> scope_view \<Rightarrow> sentry_envelope_t \<Rightarrow> sentry_value
     \<Rightarrow> sentry_envelope_t \<times> nat option \<times> sentry_value" where
  "sentry__envelope_add_event malloc fd new_id scope envelope event =
     (case add_with_id malloc fd new_id ''event'' True envelope event of
        (envelope, None, event) \<Rightarrow> (envelope, None, event)
      | (envelope, Some i, event) \<Rightarrow>
          let dsc = sentry__value_clone (view_dsc scope);
              sample_rand = sentry_value_as_double (sentry_value_get_by_key
                (sentry_value_get_by_key (view_propagation_context scope) ''trace'') ''sample_rand'')
          in (if sentry_value_is_null dsc then envelope
              else add_trace_header (event_dsc (view_sample_rate scope) dsc sample_rand event) envelope,
              Some i, event))"

definition sentry__envelope_add_transaction ::
  "malloc \<Rightarrow> (double \<Rightarrow> string) \<Rightarrow> sentry_uuid_t \<Rightarrow> scope_view \<Rightarrow> string option \<Rightarrow> sentry_envelope_t \<Rightarrow> sentry_value
     \<Rightarrow> sentry_envelope_t \<times> nat option \<times> sentry_value" where
  "sentry__envelope_add_transaction malloc fd new_id scope now_iso8601 envelope transaction =
     (case add_with_id malloc fd new_id ''transaction'' True envelope transaction of
        (envelope, None, transaction) \<Rightarrow> (envelope, None, transaction)
      | (envelope, Some i, transaction) \<Rightarrow>
          let dsc = sentry__value_clone (view_dsc scope);
              envelope = (if sentry_value_is_null dsc then envelope
                          else add_trace_header (transaction_dsc dsc transaction) envelope)
          in (sentry__envelope_set_header envelope ''sent_at'' (sentry_value_new_string now_iso8601), Some i, transaction))"

definition sentry__envelope_add_user_report ::
  "malloc \<Rightarrow> (double \<Rightarrow> string) \<Rightarrow> sentry_uuid_t \<Rightarrow> sentry_envelope_t \<Rightarrow> sentry_value
     \<Rightarrow> sentry_envelope_t \<times> nat option \<times> sentry_value" where
  "sentry__envelope_add_user_report malloc fd new_id envelope user_report =
     add_with_id malloc fd new_id ''user_report'' False envelope user_report"

definition sentry__envelope_add_feedback_event ::
  "malloc \<Rightarrow> (double \<Rightarrow> string) \<Rightarrow> sentry_uuid_t \<Rightarrow> scope_view \<Rightarrow> sentry_envelope_t \<Rightarrow> sentry_value
     \<Rightarrow> sentry_envelope_t \<times> nat option \<times> sentry_value" where
  "sentry__envelope_add_feedback_event malloc fd new_id scope envelope feedback_event =
     (case sentry__envelope_add_event malloc fd new_id scope envelope feedback_event of
        (envelope, None, event) \<Rightarrow> (envelope, None, event)
      | (envelope, Some i, event) \<Rightarrow>
          (on_item i (sentry__envelope_item_set_header ''type'' (str_value ''feedback'')) envelope, Some i, event))"

definition add_telemetry ::
  "malloc \<Rightarrow> (double \<Rightarrow> string) \<Rightarrow> sentry_envelope_t \<Rightarrow> sentry_value \<Rightarrow> string \<Rightarrow> string \<Rightarrow> sentry_envelope_t \<times> nat option" where
  "add_telemetry malloc fd envelope telemetry type content_type =
     (case envelope_add_item envelope of
        (envelope, None) \<Rightarrow> (envelope, None)
      | (envelope, Some i) \<Rightarrow>
          (case json_payload malloc fd telemetry of
             None \<Rightarrow> (envelope, None)
           | Some payload \<Rightarrow>
               (on_item i (\<lambda>item.
                  sentry__envelope_item_set_header ''length'' (int32_of_len (length payload))
                    (sentry__envelope_item_set_header ''content_type'' (str_value content_type)
                       (sentry__envelope_item_set_header ''item_count''
                          (int32_of_len (sentry_value_get_length (sentry_value_get_by_key telemetry ''items'')))
                          (sentry__envelope_item_set_header ''type'' (str_value type)
                             (item\<lparr>item_payload := Some payload\<rparr>))))) envelope,
                Some i)))"

definition sentry__envelope_add_logs :: "malloc \<Rightarrow> (double \<Rightarrow> string) \<Rightarrow> sentry_envelope_t \<Rightarrow> sentry_value \<Rightarrow> sentry_envelope_t \<times> nat option" where
  "sentry__envelope_add_logs malloc fd envelope logs =
     add_telemetry malloc fd envelope logs ''log'' ''application/vnd.sentry.items.log+json''"

definition sentry__envelope_add_metrics :: "malloc \<Rightarrow> (double \<Rightarrow> string) \<Rightarrow> sentry_envelope_t \<Rightarrow> sentry_value \<Rightarrow> sentry_envelope_t \<times> nat option" where
  "sentry__envelope_add_metrics malloc fd envelope metrics =
     add_telemetry malloc fd envelope metrics ''trace_metric'' ''application/vnd.sentry.items.trace-metric+json''"

text \<open>The copy of a buffer, which asks for one byte more than its length.\<close>

definition sentry__envelope_add_from_buffer ::
  "malloc \<Rightarrow> sentry_envelope_t \<Rightarrow> string option \<Rightarrow> string \<Rightarrow> sentry_envelope_t \<times> nat option" where
  "sentry__envelope_add_from_buffer malloc envelope buf type =
     envelope_add_from_owned_buffer envelope
       (case buf of None \<Rightarrow> None | Some b \<Rightarrow> if length b = SIZE_MAX \<or> malloc (length b + 1) = None then None else Some b) type"

definition sentry__envelope_add_from_path ::
  "(string \<Rightarrow> string option) \<Rightarrow> sentry_envelope_t option \<Rightarrow> string option \<Rightarrow> string \<Rightarrow> sentry_envelope_t option \<times> nat option" where
  "sentry__envelope_add_from_path read_to_buffer envelope file_path type =
     (case (envelope, file_path) of
        (Some e, Some p) \<Rightarrow>
          (case read_to_buffer p of
             None \<Rightarrow> (envelope, None)
           | Some b \<Rightarrow> (case envelope_add_from_owned_buffer e (Some b) type of (e, i) \<Rightarrow> (Some e, i)))
      | _ \<Rightarrow> (envelope, None))"

section \<open>Attachments\<close>

record sentry_attachment_ref_t =
  ref_path :: "string option"
  ref_location :: "string option"
  ref_content_type :: "string option"
  ref_attachment_type :: "string option"

abbreviation SENTRY_ATTACHMENT_REF_MIME :: string where
  "SENTRY_ATTACHMENT_REF_MIME \<equiv> ''application/vnd.sentry.attachment-ref+json''"

definition attachment_ref_has_payload :: "sentry_attachment_ref_t option \<Rightarrow> bool" where
  "attachment_ref_has_payload ref =
     (case ref of None \<Rightarrow> False | Some r \<Rightarrow> ref_path r \<noteq> None \<or> ref_location r \<noteq> None \<or> ref_content_type r \<noteq> None)"

definition attachment_ref_payload_to_string :: "malloc \<Rightarrow> (double \<Rightarrow> string) \<Rightarrow> sentry_attachment_ref_t \<Rightarrow> string option" where
  "attachment_ref_payload_to_string malloc fd ref =
     (let obj = set_if (ref_path ref \<noteq> None) ''path'' (sentry_value_new_string (ref_path ref)) sentry_value_new_object;
          obj = set_if (ref_location ref \<noteq> None) ''location'' (sentry_value_new_string (ref_location ref)) obj;
          obj = set_if (ref_content_type ref \<noteq> None) ''content_type'' (sentry_value_new_string (ref_content_type ref)) obj
      in json_payload malloc fd obj)"

text \<open>\<open>sentry__string_empty\<close>.\<close>

definition sentry__string_empty :: "string option \<Rightarrow> bool" where
  "sentry__string_empty s = (case s of None \<Rightarrow> True | Some s \<Rightarrow> cstr s = [])"

text \<open>The headers of a reference, in the order they are set.\<close>

definition attachment_ref_headers ::
  "string option \<Rightarrow> string option \<Rightarrow> nat \<Rightarrow> sentry_envelope_item_t \<Rightarrow> sentry_envelope_item_t" where
  "attachment_ref_headers filename attachment_type attachment_length item =
     (let item = sentry__envelope_item_set_header ''type'' (str_value ''attachment'') item;
          item = sentry__envelope_item_set_header ''content_type'' (str_value SENTRY_ATTACHMENT_REF_MIME) item;
          item = (if filename \<noteq> None then sentry__envelope_item_set_header ''filename'' (sentry_value_new_string filename) item else item);
          item = (if \<not> sentry__string_empty attachment_type
                  then sentry__envelope_item_set_header ''attachment_type'' (sentry_value_new_string attachment_type) item else item)
      in sentry__envelope_item_set_header ''attachment_length'' (VUint64 (word_of_nat attachment_length)) item)"

definition sentry__envelope_add_attachment_ref ::
  "malloc \<Rightarrow> (double \<Rightarrow> string) \<Rightarrow> sentry_envelope_t \<Rightarrow> sentry_attachment_ref_t option \<Rightarrow> string option \<Rightarrow> string option \<Rightarrow> nat
     \<Rightarrow> sentry_envelope_t \<times> nat option" where
  "sentry__envelope_add_attachment_ref malloc fd envelope ref filename attachment_type attachment_length =
     (let payload = (if attachment_ref_has_payload ref then attachment_ref_payload_to_string malloc fd (the ref) else None)
      in if attachment_ref_has_payload ref \<and> payload = None then (envelope, None)
         else case envelope_add_item envelope of
             (envelope, None) \<Rightarrow> (envelope, None)
           | (envelope, Some i) \<Rightarrow>
               (on_item i (\<lambda>item.
                  let item = attachment_ref_headers filename attachment_type attachment_length item
                  in case payload of
                       None \<Rightarrow> item
                     | Some p \<Rightarrow> sentry__envelope_item_set_header ''length'' (int32_of_len (length p)) (item\<lparr>item_payload := Some p\<rparr>))
                  envelope,
                Some i))"

definition sentry__envelope_add_attachment ::
  "malloc \<Rightarrow> (string \<Rightarrow> string option) \<Rightarrow> sentry_envelope_t \<Rightarrow> sentry_attachment_t \<Rightarrow> sentry_envelope_t \<times> nat option" where
  "sentry__envelope_add_attachment malloc read_to_buffer envelope attachment =
     (let (envelope, item) =
        (case sentry__attachment_get_bytes (Some attachment) of
           (Some b, _) \<Rightarrow> sentry__envelope_add_from_buffer malloc envelope (Some b) ''attachment''
         | (None, _) \<Rightarrow>
             (case sentry__envelope_add_from_path read_to_buffer (Some envelope) (sentry__attachment_get_path (Some attachment)) ''attachment'' of
                (e, i) \<Rightarrow> (the e, i)))
      in case item of
           None \<Rightarrow> (envelope, None)
         | Some i \<Rightarrow>
             (on_item i (\<lambda>item.
                let item = (if \<not> sentry__string_empty (att_type attachment)
                            then sentry__envelope_item_set_header ''attachment_type'' (sentry_value_new_string (att_type attachment)) item
                            else item);
                    item = (if att_content_type attachment \<noteq> None
                            then sentry__envelope_item_set_header ''content_type'' (sentry_value_new_string (att_content_type attachment)) item
                            else item)
                in sentry__envelope_item_set_header ''filename'' (sentry_value_new_string (sentry__attachment_get_filename attachment)) item)
                envelope,
              Some i))"

definition sentry__envelope_add_attachments ::
  "malloc \<Rightarrow> (string \<Rightarrow> string option) \<Rightarrow> (string option \<Rightarrow> nat) \<Rightarrow> bool option \<Rightarrow> sentry_envelope_t
     \<Rightarrow> sentry_attachment_t list \<Rightarrow> sentry_envelope_t" where
  "sentry__envelope_add_attachments malloc read_to_buffer path_size options envelope attachments =
     foldl (\<lambda>envelope attachment.
        if sentry__attachment_is_placeholder path_size (Some attachment) options then envelope
        else fst (sentry__envelope_add_attachment malloc read_to_buffer envelope attachment)) envelope attachments"

section \<open>Serialisation\<close>

text \<open>A JSON writer borrowed on the builder: the builder after writing a value through it.\<close>

definition write_json_into :: "malloc \<Rightarrow> (double \<Rightarrow> string) \<Rightarrow> sentry_stringbuilder_t \<Rightarrow> sentry_value \<Rightarrow> sentry_stringbuilder_t" where
  "write_json_into malloc fd sb v =
     w_state (jw_writer (sentry__jsonwriter_write_value fd (sb_writer_ops malloc) (jsonwriter_new (sentry__writer_new_sb (Some sb))) v))"

definition sentry__envelope_serialize_headers_into_stringbuilder ::
  "malloc \<Rightarrow> (double \<Rightarrow> string) \<Rightarrow> sentry_value \<Rightarrow> sentry_stringbuilder_t \<Rightarrow> sentry_stringbuilder_t" where
  "sentry__envelope_serialize_headers_into_stringbuilder malloc fd headers sb = write_json_into malloc fd sb headers"

definition sentry__envelope_serialize_item_into_stringbuilder ::
  "malloc \<Rightarrow> (double \<Rightarrow> string) \<Rightarrow> sentry_envelope_item_t \<Rightarrow> sentry_stringbuilder_t \<Rightarrow> sentry_stringbuilder_t" where
  "sentry__envelope_serialize_item_into_stringbuilder malloc fd item sb =
     (let sb = fst (sentry__stringbuilder_append_char malloc sb CHR 0x0A);
          sb = write_json_into malloc fd sb (item_headers item);
          sb = fst (sentry__stringbuilder_append_char malloc sb CHR 0x0A)
      in fst (sentry__stringbuilder_append_buf malloc sb (payload_bytes item)))"

fun sentry__envelope_serialize_into_stringbuilder ::
  "malloc \<Rightarrow> (double \<Rightarrow> string) \<Rightarrow> sentry_envelope_t \<Rightarrow> sentry_stringbuilder_t \<Rightarrow> sentry_stringbuilder_t" where
  "sentry__envelope_serialize_into_stringbuilder malloc fd (Raw payload) sb =
     fst (sentry__stringbuilder_append_buf malloc sb payload)"
| "sentry__envelope_serialize_into_stringbuilder malloc fd (Items h is) sb =
     foldl (\<lambda>sb item. sentry__envelope_serialize_item_into_stringbuilder malloc fd item sb)
       (sentry__envelope_serialize_headers_into_stringbuilder malloc fd h sb) is"

text \<open>The loop over the items: the builder, the number of items written and the counters of discarded events.  The limiter reads the
  clock for each item: \<open>clock j\<close> is what it reads for item \<open>j\<close>.\<close>

fun ratelimited_loop ::
  "malloc \<Rightarrow> (double \<Rightarrow> string) \<Rightarrow> (nat \<Rightarrow> u64) \<Rightarrow> sentry_rate_limiter_t option \<Rightarrow> nat \<Rightarrow> sentry_envelope_item_t list
     \<Rightarrow> sentry_stringbuilder_t \<Rightarrow> nat \<Rightarrow> discard_counts \<Rightarrow> sentry_stringbuilder_t \<times> nat \<times> discard_counts" where
  "ratelimited_loop malloc fd clock rl j [] sb n g = (sb, n, g)"
| "ratelimited_loop malloc fd clock rl j (item # is) sb n g =
     (if (case envelope_item_get_ratelimiter_category item of None \<Rightarrow> False | Some category \<Rightarrow> limited (clock j) rl category)
      then ratelimited_loop malloc fd clock rl (Suc j) is sb n
             (sentry__client_report_discard (SENTRY_DISCARD_REASON_RATELIMIT_BACKOFF, item_type_to_data_category (item_type item)) 1 g)
      else ratelimited_loop malloc fd clock rl (Suc j) is (sentry__envelope_serialize_item_into_stringbuilder malloc fd item sb) (n + 1) g)"

text \<open>The text, its size, whether the caller owns it, and the counters.\<close>

fun sentry_envelope_serialize_ratelimited ::
  "malloc \<Rightarrow> (double \<Rightarrow> string) \<Rightarrow> (nat \<Rightarrow> u64) \<Rightarrow> sentry_envelope_t \<Rightarrow> sentry_rate_limiter_t option \<Rightarrow> discard_counts
     \<Rightarrow> (string option \<times> nat \<times> bool) \<times> discard_counts" where
  "sentry_envelope_serialize_ratelimited malloc fd clock (Raw payload) rl g = ((Some payload, length payload, False), g)"
| "sentry_envelope_serialize_ratelimited malloc fd clock (Items h is) rl g =
     (case ratelimited_loop malloc fd clock rl 0 is
             (sentry__envelope_serialize_headers_into_stringbuilder malloc fd h sentry__stringbuilder_init) 0 g of
        (sb, serialized_items, g) \<Rightarrow>
          if serialized_items = 0 then ((None, 0, True), g)
          else ((sentry__stringbuilder_into_string malloc sb, sb_len sb, True), g))"

definition sentry_envelope_serialize :: "malloc \<Rightarrow> (double \<Rightarrow> string) \<Rightarrow> sentry_envelope_t \<Rightarrow> string option \<times> nat" where
  "sentry_envelope_serialize malloc fd envelope =
     (let sb = sentry__envelope_serialize_into_stringbuilder malloc fd envelope sentry__stringbuilder_init
      in (sentry__stringbuilder_into_string malloc sb, sb_len sb))"

section \<open>Deserialisation\<close>

text \<open>The length of the payload that starts at \<open>rest\<close>, from the headers of its item; \<open>None\<close> is a failure.\<close>

definition item_payload_len :: "sentry_value \<Rightarrow> string \<Rightarrow> nat option" where
  "item_payload_len headers rest =
     (let len = sentry_value_get_by_key headers ''length''
      in if sentry_value_is_null len
         then Some (case memchr_split CHR 0x0A rest of Some (a, _) \<Rightarrow> length a | None \<Rightarrow> length rest)
         else if sentry_value_get_type len = SENTRY_VALUE_TYPE_UINT64
         then (let payload_len = unat (sentry_value_as_uint64 len) in if payload_len \<ge> SIZE_MAX then None else Some payload_len)
         else (let payload_len = sint (sentry_value_as_int64 len)
               in if payload_len < 0 \<or> nat payload_len \<ge> SIZE_MAX then None else Some (nat payload_len)))"

text \<open>The item whose headers and payload are given; events and transactions are parsed.\<close>

definition read_item :: "(string \<Rightarrow> double) \<Rightarrow> sentry_value \<Rightarrow> string \<Rightarrow> sentry_envelope_item_t" where
  "read_item strtod headers payload =
     (if payload = [] then \<lparr>item_headers = headers, item_event = VNull, item_payload = None\<rparr>
      else
        let type = sentry_value_as_string (sentry_value_get_by_key headers ''type'')
        in \<lparr>item_headers = headers,
            item_event = (if type = ''event'' \<or> type = ''transaction'' then sentry__value_from_json strtod payload else VNull),
            item_payload = Some payload\<rparr>)"

text \<open>The loop over the items: \<open>cur\<close> is the text from the pointer to the end.\<close>

function deserialize_items ::
  "malloc \<Rightarrow> (string \<Rightarrow> double) \<Rightarrow> string \<Rightarrow> sentry_envelope_item_t list \<Rightarrow> sentry_envelope_item_t list option" where
  "deserialize_items malloc strtod cur items =
     (if cur = [] then Some items
      else case memchr_split CHR 0x0A cur of
          None \<Rightarrow> None
        | Some (header_text, rest) \<Rightarrow>
            let headers = sentry__value_from_json strtod header_text in
            if sentry_value_get_type headers \<noteq> SENTRY_VALUE_TYPE_OBJECT then None
            else case item_payload_len headers rest of
                None \<Rightarrow> None
              | Some n \<Rightarrow>
                  if n > 0 \<and> (n \<ge> SIZE_MAX \<or> n > length rest \<or> malloc (n + 1) = None) then None
                  else deserialize_items malloc strtod (dropWhile (\<lambda>c. c = CHR 0x0A) (drop n rest))
                         (items @ [read_item strtod headers (take n rest)]))"
  by pat_completeness auto
termination
proof (relation "measure (\<lambda>(_, _, cur, _). length cur)", goal_cases)
  case (2 malloc strtod cur items p header_text rest headers n)
  then show ?case using memchr_split_less [of "CHR 0x0A" cur header_text rest] length_dropWhile_le [of "\<lambda>c. c = CHR 0x0A" "drop n rest"]
    by auto
qed simp

declare deserialize_items.simps [simp del]

definition deserialize_into :: "malloc \<Rightarrow> (string \<Rightarrow> double) \<Rightarrow> string \<Rightarrow> (sentry_value \<times> sentry_envelope_item_t list) option" where
  "deserialize_into malloc strtod buf =
     (if buf = [] then None
      else
        let (header_text, rest) = (case memchr_split CHR 0x0A buf of Some (a, r) \<Rightarrow> (a, r) | None \<Rightarrow> (buf, []));
            headers = sentry__value_from_json strtod header_text
        in if sentry_value_get_type headers \<noteq> SENTRY_VALUE_TYPE_OBJECT then None
           else map_option (Pair headers) (deserialize_items malloc strtod rest []))"

definition sentry_envelope_deserialize :: "malloc \<Rightarrow> (string \<Rightarrow> double) \<Rightarrow> string \<Rightarrow> sentry_envelope_t option" where
  "sentry_envelope_deserialize malloc strtod buf =
     (case deserialize_into malloc strtod buf of None \<Rightarrow> None | Some (h, is) \<Rightarrow> Some (Items h is))"

definition envelope_materialize :: "malloc \<Rightarrow> (string \<Rightarrow> double) \<Rightarrow> sentry_envelope_t option \<Rightarrow> sentry_envelope_t option" where
  "envelope_materialize malloc strtod envelope =
     (case envelope of Some (Raw payload) \<Rightarrow> sentry_envelope_deserialize malloc strtod payload | _ \<Rightarrow> envelope)"

fun sentry__envelope_materialize :: "malloc \<Rightarrow> (string \<Rightarrow> double) \<Rightarrow> sentry_envelope_t \<Rightarrow> bool \<times> sentry_envelope_t" where
  "sentry__envelope_materialize malloc strtod (Items h is) = (True, Items h is)"
| "sentry__envelope_materialize malloc strtod (Raw payload) =
     (case deserialize_into malloc strtod payload of
        None \<Rightarrow> (False, Raw payload)
      | Some (h, is) \<Rightarrow> (True, Items h is))"

section \<open>The text of an envelope\<close>

definition item_text :: "(double \<Rightarrow> string) \<Rightarrow> sentry_envelope_item_t \<Rightarrow> string" where
  "item_text fd item = CHR 0x0A # json_text fd (item_headers item) @ CHR 0x0A # payload_bytes item"

fun envelope_text :: "(double \<Rightarrow> string) \<Rightarrow> sentry_envelope_t \<Rightarrow> string" where
  "envelope_text fd (Raw payload) = payload"
| "envelope_text fd (Items h is) = json_text fd h @ concat (map (item_text fd) is)"

text \<open>Headers that survive a round trip, and that can be written to.\<close>

definition header_ok :: "(double \<Rightarrow> string) \<Rightarrow> sentry_value \<Rightarrow> bool" where
  "header_ok fd h \<longleftrightarrow> (case h of VObject False ps \<Rightarrow> True | _ \<Rightarrow> False) \<and> json_safe fd h \<and> value_depth h < 64"

text \<open>A builder with room for \<open>n\<close> more bytes on an allocator that does not fail.\<close>

definition roomy :: "malloc \<Rightarrow> sentry_stringbuilder_t \<Rightarrow> nat \<Rightarrow> bool" where
  "roomy malloc sb n \<longleftrightarrow> sb_wf sb \<and> malloc_sized malloc \<and> (\<forall>k. malloc k \<noteq> None) \<and> length (sb_view sb) + n < SIZE_MAX"

text \<open>\<open>sb'\<close> holds what \<open>sb\<close> held and then \<open>t\<close>.\<close>

definition extended :: "sentry_stringbuilder_t \<Rightarrow> string \<Rightarrow> sentry_stringbuilder_t \<Rightarrow> bool" where
  "extended sb t sb' \<longleftrightarrow> sb_wf sb' \<and> sb_view sb' = sb_view sb @ t"

lemma extended_trans: "extended sb t sb1 \<Longrightarrow> extended sb1 u sb2 \<Longrightarrow> extended sb (t @ u) sb2"
  by (simp add: extended_def)

lemma roomy_step: "extended sb t sb1 \<Longrightarrow> roomy malloc sb (length t + n) \<Longrightarrow> roomy malloc sb1 n"
  by (simp add: extended_def roomy_def)

lemma roomy_mono: "roomy malloc sb n \<Longrightarrow> m \<le> n \<Longrightarrow> roomy malloc sb m"
  by (simp add: roomy_def)

lemma append_buf_extends: "roomy malloc sb (length t) \<Longrightarrow> extended sb t (fst (sentry__stringbuilder_append_buf malloc sb t))"
  unfolding roomy_def extended_def
  using builder.append_wf [of sb malloc t] builder.append_view [of sb malloc t] append_buf_succeeds [of sb malloc t] by auto

lemma append_char_extends: "roomy malloc sb 1 \<Longrightarrow> extended sb [c] (fst (sentry__stringbuilder_append_char malloc sb c))"
  using append_buf_extends [of malloc sb "[c]"] by (simp add: sentry__stringbuilder_append_char_def)

lemma write_json_extends:
  assumes "json_safe fd v" "value_depth v < 64" "roomy malloc sb (length (json_text fd v))"
  shows "extended sb (json_text fd v) (write_json_into malloc fd sb v)"
proof -
  have p: "json_print fd 0 v = json_text fd v" using json_print_text [of fd v 0] assms by simp
  have "malloc_sized malloc" "value_depth v < 2 ^ 32" "sb_wf sb" using assms(2,3) by (simp_all add: roomy_def)
  note b = value_into_builder [OF this, of fd, folded write_json_into_def, unfolded p]
  show ?thesis using assms(3) b by (simp add: roomy_def extended_def)
qed

lemma serialize_item_extends:
  assumes "header_ok fd (item_headers item)" "roomy malloc sb (length (item_text fd item))"
  shows "extended sb (item_text fd item) (sentry__envelope_serialize_item_into_stringbuilder malloc fd item sb)"
proof -
  let ?h = "json_text fd (item_headers item)" and ?p = "payload_bytes item"
  define sb1 where "sb1 = fst (sentry__stringbuilder_append_char malloc sb CHR 0x0A)"
  define sb2 where "sb2 = write_json_into malloc fd sb1 (item_headers item)"
  define sb3 where "sb3 = fst (sentry__stringbuilder_append_char malloc sb2 CHR 0x0A)"
  have r: "roomy malloc sb (length [CHR 0x0A] + (length ?h + (length [CHR 0x0A] + length ?p)))"
    using assms(2) by (simp add: item_text_def)
  have e1: "extended sb [CHR 0x0A] sb1" unfolding sb1_def by (rule append_char_extends) (use r in \<open>auto elim: roomy_mono\<close>)
  note r1 = roomy_step [OF e1 r]
  have e2: "extended sb1 ?h sb2" unfolding sb2_def
    by (rule write_json_extends) (use assms(1) r1 in \<open>auto simp: header_ok_def elim: roomy_mono\<close>)
  note r2 = roomy_step [OF e2 r1]
  have e3: "extended sb2 [CHR 0x0A] sb3" unfolding sb3_def by (rule append_char_extends) (use r2 in \<open>auto elim: roomy_mono\<close>)
  note r3 = roomy_step [OF e3 r2]
  note e4 = append_buf_extends [OF r3]
  from extended_trans [OF extended_trans [OF extended_trans [OF e1 e2] e3] e4] show ?thesis
    by (simp add: sentry__envelope_serialize_item_into_stringbuilder_def Let_def item_text_def sb1_def sb2_def sb3_def)
qed

lemma serialize_items_extend:
  "\<forall>i \<in> set is. header_ok fd (item_headers i) \<Longrightarrow> roomy malloc sb (length (concat (map (item_text fd) is))) \<Longrightarrow>
     extended sb (concat (map (item_text fd) is)) (foldl (\<lambda>sb item. sentry__envelope_serialize_item_into_stringbuilder malloc fd item sb) sb is)"
proof (induction "is" arbitrary: sb)
  case Nil
  then show ?case by (simp add: extended_def roomy_def)
next
  case (Cons i "is")
  have "extended sb (item_text fd i) (sentry__envelope_serialize_item_into_stringbuilder malloc fd i sb)"
    by (rule serialize_item_extends) (use Cons.prems in \<open>auto elim: roomy_mono\<close>)
  note e = this
  have "roomy malloc (sentry__envelope_serialize_item_into_stringbuilder malloc fd i sb) (length (concat (map (item_text fd) is)))"
    by (rule roomy_step [OF e]) (use Cons.prems(2) in simp)
  from extended_trans [OF e Cons.IH [OF _ this]] Cons.prems(1) show ?case by simp
qed

lemma serialize_extends:
  assumes "header_ok fd h" "\<forall>i \<in> set is. header_ok fd (item_headers i)" "roomy malloc sb (length (envelope_text fd (Items h is)))"
  shows "extended sb (envelope_text fd (Items h is)) (sentry__envelope_serialize_into_stringbuilder malloc fd (Items h is) sb)"
proof -
  have e: "extended sb (json_text fd h) (sentry__envelope_serialize_headers_into_stringbuilder malloc fd h sb)"
    unfolding sentry__envelope_serialize_headers_into_stringbuilder_def
    by (rule write_json_extends) (use assms in \<open>auto simp: header_ok_def elim: roomy_mono\<close>)
  moreover have "roomy malloc (sentry__envelope_serialize_headers_into_stringbuilder malloc fd h sb) (length (concat (map (item_text fd) is)))"
    by (rule roomy_step [OF e]) (use assms(3) in simp)
  ultimately show ?thesis using extended_trans [OF e serialize_items_extend [OF assms(2)]] by simp
qed

lemma into_string_block:
  assumes "sb_wf sb" "malloc_sized malloc" "\<forall>n. malloc n \<noteq> None"
  shows "\<exists>b. sentry__stringbuilder_into_string malloc sb = Some b \<and> take (sb_len sb) b = sb_view sb"
  using assms by (cases "sb_buf sb")
    (auto simp: sentry__stringbuilder_into_string_def sentry_stringbuilder_take_string_def sb_wf_def sb_view_def split: option.splits)

lemma serialize_text:
  assumes "header_ok fd h" "\<forall>i \<in> set is. header_ok fd (item_headers i)" "malloc_sized malloc" "\<forall>n. malloc n \<noteq> None"
    and "length (envelope_text fd (Items h is)) < SIZE_MAX"
  obtains b where "sentry_envelope_serialize malloc fd (Items h is) = (Some b, length (envelope_text fd (Items h is)))"
    "take (length (envelope_text fd (Items h is))) b = envelope_text fd (Items h is)"
proof -
  let ?sb = "sentry__envelope_serialize_into_stringbuilder malloc fd (Items h is) sentry__stringbuilder_init"
  have "roomy malloc sentry__stringbuilder_init (length (envelope_text fd (Items h is)))"
    using assms(3-5) by (simp add: roomy_def)
  from serialize_extends [OF assms(1,2) this] have e: "sb_wf ?sb" "sb_view ?sb = envelope_text fd (Items h is)"
    by (simp_all add: extended_def)
  have l: "sb_len ?sb = length (envelope_text fd (Items h is))" using length_sb_view [OF e(1)] e(2) by simp
  from into_string_block [OF e(1) assms(3,4)] obtain b where
    "sentry__stringbuilder_into_string malloc ?sb = Some b" "take (sb_len ?sb) b = sb_view ?sb" by blast
  with that [of b] l e(2) show ?thesis by (simp add: sentry_envelope_serialize_def Let_def)
qed

section \<open>Reading back\<close>

text \<open>The length header says how long the payload is, or is absent and the payload is one line.\<close>

definition length_ok :: "sentry_value \<Rightarrow> string \<Rightarrow> bool" where
  "length_ok h payload =
     (case sentry_value_get_by_key h ''length'' of
        VNull \<Rightarrow> CHR 0x0A \<notin> set payload \<and> length payload < 2 ^ 31
      | VInt32 w \<Rightarrow> sint w = int (length payload) \<and> length payload < 2 ^ 31
      | _ \<Rightarrow> False)"

text \<open>An item that a reader finds again: an event or a transaction has it as its payload.\<close>

definition readable_item :: "(double \<Rightarrow> string) \<Rightarrow> sentry_envelope_item_t \<Rightarrow> bool" where
  "readable_item fd item \<longleftrightarrow> header_ok fd (item_headers item) \<and> length_ok (item_headers item) (payload_bytes item)
     \<and> (item_type item \<in> {''event'', ''transaction''} \<longrightarrow>
          item_payload item = Some (json_text fd (item_event item)) \<and> json_safe fd (item_event item) \<and> value_depth (item_event item) < 64)"

definition stored_item :: "(double \<Rightarrow> string) \<Rightarrow> (string \<Rightarrow> double) \<Rightarrow> sentry_envelope_item_t \<Rightarrow> sentry_envelope_item_t" where
  "stored_item fd sd item =
     \<lparr>item_headers = reread fd sd (item_headers item),
      item_event = (if item_type item \<in> {''event'', ''transaction''} then reread fd sd (item_event item) else VNull),
      item_payload = (if payload_bytes item = [] then None else Some (payload_bytes item))\<rparr>"

fun envelope_ok :: "(double \<Rightarrow> string) \<Rightarrow> sentry_envelope_t \<Rightarrow> bool" where
  "envelope_ok fd (Items h is) = (header_ok fd h \<and> list_all (readable_item fd) is)"
| "envelope_ok fd (Raw p) = False"

fun stored :: "(double \<Rightarrow> string) \<Rightarrow> (string \<Rightarrow> double) \<Rightarrow> sentry_envelope_t \<Rightarrow> sentry_envelope_t" where
  "stored fd sd (Items h is) = Items (reread fd sd h) (map (stored_item fd sd) is)"
| "stored fd sd (Raw p) = Raw p"

lemma reread_object: "header_ok fd h \<Longrightarrow> sentry_value_get_type (reread fd sd h) = SENTRY_VALUE_TYPE_OBJECT"
  by (cases h) (auto simp: header_ok_def)

lemma reread_key: "header_ok fd h \<Longrightarrow> sentry_value_get_by_key (reread fd sd h) k = reread fd sd (sentry_value_get_by_key h k)"
proof (cases h)
  case (VObject f ps)
  have "obj_get (map (\<lambda>(k, v). (k, reread fd sd v)) ps) k = map_option (reread fd sd) (obj_get ps k)"
    by (induction ps k rule: obj_get.induct) auto
  then show ?thesis by (simp add: VObject split: option.splits)
qed (auto simp: header_ok_def)

lemma reread_string: "sentry_value_as_string (reread fd sd v) = sentry_value_as_string v"
  by (cases v) (auto simp: parse_number_def Let_def split: prod.splits)

lemma header_text: "header_ok fd h \<Longrightarrow> sentry__value_from_json sd (json_text fd h) = reread fd sd h"
  by (rule from_json_safe) (simp_all add: header_ok_def)

lemma header_text_start: "header_ok fd h \<Longrightarrow> \<exists>t. json_text fd h = CHR ''{'' # t"
  by (cases h) (auto simp: header_ok_def)

text \<open>What follows a payload is the end or a newline.\<close>

definition line_end :: "string \<Rightarrow> bool" where
  "line_end r \<longleftrightarrow> r = [] \<or> (\<exists>t. r = CHR 0x0A # t)"

lemma line_end_items: "line_end r \<Longrightarrow> line_end (concat (map (item_text fd) is) @ r)"
  by (cases "is") (auto simp: line_end_def item_text_def)

abbreviation skip_nl :: "string \<Rightarrow> string" where
  "skip_nl \<equiv> dropWhile (\<lambda>c. c = CHR 0x0A)"

lemma skip_nl_item: "header_ok fd (item_headers i) \<Longrightarrow> skip_nl (item_text fd i @ r) = json_text fd (item_headers i) @ CHR 0x0A # payload_bytes i @ r"
  using header_text_start [of fd "item_headers i"] by (auto simp: item_text_def)

lemma payload_len_given:
  assumes "header_ok fd h" "sentry_value_get_by_key h ''length'' = VInt32 w" "sint w = int n" "n < 2 ^ 31"
  shows "item_payload_len (reread fd sd h) r = Some n"
proof -
  have "sint (scast w :: i64) = sint w" by (simp add: sint_up_scast is_up)
  with assms reread_key [OF assms(1), of sd "''length''"] show ?thesis
    by (simp add: item_payload_len_def sentry_value_is_null_def SIZE_MAX_def)
qed

lemma payload_len_ok:
  assumes "header_ok fd h" "length_ok h p" "line_end r"
  shows "item_payload_len (reread fd sd h) (p @ r) = Some (length p)"
proof (cases "sentry_value_get_by_key h ''length''")
  case VNull
  then have p: "CHR 0x0A \<notin> set p" using assms(2) by (simp add: length_ok_def)
  have "(case memchr_split CHR 0x0A (p @ r) of Some (a, _) \<Rightarrow> length a | None \<Rightarrow> length (p @ r)) = length p"
    using assms(3) memchr_split_append [OF p] p by (auto simp: line_end_def memchr_split_None [THEN iffD2])
  with VNull reread_key [OF assms(1), of sd "''length''"] show ?thesis
    by (simp add: item_payload_len_def sentry_value_is_null_def)
next
  case (VInt32 w)
  then show ?thesis using assms(2) by (intro payload_len_given [OF assms(1) VInt32]) (simp_all add: length_ok_def)
qed (use assms(2) in \<open>auto simp: length_ok_def\<close>)

lemma read_item_stored:
  assumes "readable_item fd i"
  shows "read_item sd (reread fd sd (item_headers i)) (payload_bytes i) = stored_item fd sd i"
proof -
  have h: "header_ok fd (item_headers i)" using assms by (simp add: readable_item_def)
  have t: "sentry_value_as_string (sentry_value_get_by_key (reread fd sd (item_headers i)) ''type'') = item_type i"
    using h by (simp add: reread_key reread_string)
  have "sentry__value_from_json sd (payload_bytes i) = reread fd sd (item_event i) \<and> payload_bytes i \<noteq> []"
    if "item_type i \<in> {''event'', ''transaction''}"
  proof -
    have "payload_bytes i = json_text fd (item_event i)" "json_safe fd (item_event i)" "value_depth (item_event i) < 64"
      using assms that by (auto simp: readable_item_def)
    moreover have "json_text fd v \<noteq> []" for v
      by (cases v) (auto simp: quoted_def int_str_def dec_str_nonempty number_text_def)
    ultimately show ?thesis by (simp add: from_json_safe)
  qed
  then show ?thesis by (auto simp: read_item_def stored_item_def t)
qed

lemma deserialize_step:
  assumes "memchr_split CHR 0x0A cur = Some (t, p @ r)" "sentry__value_from_json sd t = hs" "\<forall>n. malloc n \<noteq> None"
    and "sentry_value_get_type hs = SENTRY_VALUE_TYPE_OBJECT" "item_payload_len hs (p @ r) = Some (length p)" "length p < SIZE_MAX"
  shows "deserialize_items malloc sd cur acc = deserialize_items malloc sd (dropWhile (\<lambda>c. c = CHR 0x0A) r) (acc @ [read_item sd hs p])"
proof -
  obtain b where "malloc (Suc (length p)) = Some b" using assms(3) by fastforce
  moreover have "cur \<noteq> []" using assms(1) by (auto simp: memchr_split_def)
  ultimately show ?thesis using assms by (subst deserialize_items.simps) simp
qed

lemma deserialize_items_stored:
  assumes "\<forall>n. malloc n \<noteq> None" "line_end r"
  shows "list_all (readable_item fd) is \<Longrightarrow> deserialize_items malloc sd (skip_nl (concat (map (item_text fd) is) @ r)) acc
     = deserialize_items malloc sd (skip_nl r) (acc @ map (stored_item fd sd) is)"
proof (induction "is" arbitrary: acc)
  case (Cons i "is")
  let ?p = "payload_bytes i" and ?r = "concat (map (item_text fd) is) @ r"
  have i: "readable_item fd i" "header_ok fd (item_headers i)" "length_ok (item_headers i) ?p" using Cons.prems by (simp_all add: readable_item_def)
  have sz: "length ?p < SIZE_MAX" using i(3) by (auto simp: length_ok_def SIZE_MAX_def split: sentry_value.splits)
  have m: "memchr_split CHR 0x0A (skip_nl (item_text fd i @ ?r)) = Some (json_text fd (item_headers i), ?p @ ?r)"
    using memchr_split_append [OF json_text_one_line] by (simp add: skip_nl_item [OF i(2)])
  have "deserialize_items malloc sd (skip_nl (item_text fd i @ ?r)) acc = deserialize_items malloc sd (skip_nl ?r) (acc @ [stored_item fd sd i])"
    using deserialize_step [OF m header_text [OF i(2), of sd] assms(1) reread_object [OF i(2)]
        payload_len_ok [OF i(2,3) line_end_items [OF assms(2)]] sz, where acc = acc]
    by (simp only: read_item_stored [OF i(1)])
  then show ?case using Cons by simp
qed simp

text \<open>The headers of the envelope and the text behind them.\<close>

lemma deserialize_header:
  assumes "header_ok fd h" "line_end r"
  shows "deserialize_into malloc sd (json_text fd h @ r) = map_option (Pair (reread fd sd h)) (deserialize_items malloc sd (drop 1 r) [])"
proof -
  have "(case memchr_split CHR 0x0A (json_text fd h @ r) of Some (a, r) \<Rightarrow> (a, r) | None \<Rightarrow> (json_text fd h @ r, [])) = (json_text fd h, drop 1 r)"
    using assms(2) json_text_one_line [of fd h] memchr_split_append [OF json_text_one_line [of fd h]]
    by (auto simp: line_end_def memchr_split_None [THEN iffD2])
  moreover have "json_text fd h \<noteq> []" using header_text_start [OF assms(1)] by auto
  ultimately show ?thesis using header_text [OF assms(1), of sd] reread_object [OF assms(1)] by (simp add: deserialize_into_def)
qed

lemma drop_skip: "\<forall>i \<in> set is. header_ok fd (item_headers i) \<Longrightarrow> is \<noteq> [] \<Longrightarrow> drop 1 (concat (map (item_text fd) is) @ r) = skip_nl (concat (map (item_text fd) is) @ r)"
  using header_text_start by (cases "is") (fastforce simp: item_text_def)+

lemma deserialize_stored:
  assumes "\<forall>n. malloc n \<noteq> None" "envelope_ok fd e"
  shows "sentry_envelope_deserialize malloc sd (envelope_text fd e) = Some (stored fd sd e)"
proof (cases e)
  case (Items h "is")
  then have ok: "header_ok fd h" "list_all (readable_item fd) is" using assms(2) by simp_all
  let ?t = "concat (map (item_text fd) is)"
  have "deserialize_items malloc sd (drop 1 ?t) [] = Some (map (stored_item fd sd) is)"
  proof (cases "is = []")
    case False
    have "drop 1 ?t = skip_nl ?t" using drop_skip [of "is" fd "[]"] ok(2) False by (simp add: list_all_iff readable_item_def)
    then show ?thesis using deserialize_items_stored [OF assms(1), of "[]" fd "is" sd "[]"] ok(2)
      by (simp add: line_end_def deserialize_items.simps [of _ _ "[]"])
  qed (simp add: deserialize_items.simps)
  with deserialize_header [OF ok(1) line_end_items [of "[]" fd "is"], of malloc sd] show ?thesis
    by (simp add: sentry_envelope_deserialize_def Items line_end_def)
qed (use assms in simp)

text \<open>A text that ends inside the payload of its last item.\<close>

lemma deserialize_short:
  assumes "memchr_split CHR 0x0A cur = Some (t, p)" "sentry__value_from_json sd t = hs"
    and "sentry_value_get_type hs = SENTRY_VALUE_TYPE_OBJECT" "item_payload_len hs p = Some n" "length p < n"
  shows "deserialize_items malloc sd cur acc = None"
proof -
  have "cur \<noteq> []" using assms(1) by (auto simp: memchr_split_def)
  then show ?thesis using assms by (subst deserialize_items.simps) simp
qed

lemma deserialize_truncated:
  assumes "\<forall>n. malloc n \<noteq> None" "envelope_ok fd (Items h (is @ [i]))" "sentry_value_get_by_key (item_headers i) ''length'' \<noteq> VNull"
    and "k < length (payload_bytes i)"
  shows "sentry_envelope_deserialize malloc sd
     (envelope_text fd (Items h is) @ CHR 0x0A # json_text fd (item_headers i) @ CHR 0x0A # take k (payload_bytes i)) = None"
proof -
  let ?p = "take k (payload_bytes i)" and ?h = "item_headers i"
  let ?r = "CHR 0x0A # json_text fd ?h @ CHR 0x0A # ?p" and ?t = "concat (map (item_text fd) is)"
  have ok: "header_ok fd h" "list_all (readable_item fd) is" "header_ok fd ?h" "length_ok ?h (payload_bytes i)" using assms(2) by (simp_all add: readable_item_def)
  have r: "line_end ?r" by (simp add: line_end_def)
  obtain w where w: "sentry_value_get_by_key ?h ''length'' = VInt32 w" "sint w = int (length (payload_bytes i))" "length (payload_bytes i) < 2 ^ 31"
    using ok(4) assms(3) by (auto simp: length_ok_def split: sentry_value.splits)
  have cur: "skip_nl ?r = json_text fd ?h @ CHR 0x0A # ?p" using header_text_start [OF ok(3)] by auto
  have m: "memchr_split CHR 0x0A (skip_nl ?r) = Some (json_text fd ?h, ?p)" unfolding cur by (rule memchr_split_append [OF json_text_one_line])
  have none: "deserialize_items malloc sd (skip_nl ?r) acc = None" for acc
    by (rule deserialize_short [OF m header_text [OF ok(3)] reread_object [OF ok(3)] payload_len_given [OF ok(3) w]]) (use assms(4) in simp)
  have "drop 1 (?t @ ?r) = skip_nl (?t @ ?r)"
    using drop_skip [of "is" fd ?r] ok(2) cur by (cases "is = []") (simp_all add: list_all_iff readable_item_def)
  then have "deserialize_items malloc sd (drop 1 (?t @ ?r)) [] = None"
    using deserialize_items_stored [OF assms(1) r ok(2), of sd "[]"] none by simp
  with deserialize_header [OF ok(1) line_end_items [OF r], of malloc sd fd "is"] show ?thesis
    by (simp add: sentry_envelope_deserialize_def)
qed

section \<open>Every operation keeps envelopes readable\<close>

lemma header_ok_new: "header_ok fd sentry_value_new_object"
  by (simp add: header_ok_def sentry_value_new_object_def keys_ok_def)

lemma header_okE:
  assumes "header_ok fd h"
  obtains ps where "h = VObject False ps" "json_safe fd (VObject False ps)" "value_depth (VObject False ps) < 64"
  using assms by (cases h) (auto simp: header_ok_def split: bool.splits)

lemma json_safe_set: "json_safe fd rv \<Longrightarrow> json_safe fd v \<Longrightarrow> CHR 0x00 \<notin> set k \<Longrightarrow> json_safe fd (set_key k v rv)"
proof (cases "(rv, k, v)" rule: sentry_value_set_by_key_n.cases)
  case (1 ps k' v')
  have "list_all (\<lambda>(k, v). json_safe fd v) ps \<Longrightarrow> json_safe fd v' \<Longrightarrow> list_all (\<lambda>(k, v). json_safe fd v) (obj_set ps k' v')" for k'
    by (induction ps k' v' rule: obj_set.induct) auto
  with 1 show "json_safe fd rv \<Longrightarrow> json_safe fd v \<Longrightarrow> CHR 0x00 \<notin> set k \<Longrightarrow> ?thesis" by (auto simp: keys_ok_set)
qed auto

lemma json_safe_get: "json_safe fd v \<Longrightarrow> json_safe fd (sentry_value_get_by_key v k)"
proof (cases v)
  case (VObject f ps)
  have "list_all (\<lambda>(k, v). json_safe fd v) ps \<Longrightarrow> obj_get ps k = Some w \<Longrightarrow> json_safe fd w" for w
    by (induction ps k rule: obj_get.induct) (auto split: if_splits)
  with VObject show "json_safe fd v \<Longrightarrow> ?thesis" by (auto split: option.splits)
qed auto

lemma depth_get: "value_depth (sentry_value_get_by_key v k) \<le> value_depth v - 1"
proof (cases v)
  case (VObject f ps)
  have "obj_get ps k = Some w \<Longrightarrow> value_depth w \<le> foldr max (map (\<lambda>(k, v). value_depth v) ps) 0" for w
    by (induction ps k rule: obj_get.induct) (auto split: if_splits)
  with VObject show ?thesis by (auto split: option.splits)
qed auto

lemma clone_safe: "json_safe fd v \<Longrightarrow> json_safe fd (sentry__value_clone v)"
proof (induction v)
  case (VObject f ps)
  then have "list_all (\<lambda>(k, v). json_safe fd v) (map (\<lambda>(k, v). (k, sentry__value_clone v)) ps)" by (fastforce simp: list_all_iff)
  with VObject show ?case by (simp add: keys_ok_def comp_def case_prod_unfold)
qed (auto simp: list_all_iff)

lemma clone_depth: "value_depth (sentry__value_clone v) = value_depth v"
proof (induction v)
  case (VList f xs)
  then have "map value_depth (map sentry__value_clone xs) = map value_depth xs" by simp
  then show ?case by (simp del: map_map)
next
  case (VObject f ps)
  then have "map (\<lambda>(k, v). value_depth v) (map (\<lambda>(k, v). (k, sentry__value_clone v)) ps) = map (\<lambda>(k, v). value_depth v) ps" by fastforce
  then show ?case by (simp del: map_map)
qed simp_all

lemma set_key_get: "header_ok fd h \<Longrightarrow> CHR 0x00 \<notin> set k \<Longrightarrow>
    sentry_value_get_by_key (set_key k v h) k' = (if k' = k then v else sentry_value_get_by_key h k')"
  by (erule header_okE) simp

lemma header_ok_set:
  assumes "header_ok fd h" "json_safe fd v" "value_depth v < 63" "CHR 0x00 \<notin> set k"
  shows "header_ok fd (set_key k v h)"
proof -
  obtain ps where h: "h = VObject False ps" "json_safe fd h" "value_depth h < 64" using assms(1) by (auto elim: header_okE)
  have "json_safe fd (set_key k v h)" using h(2) assms(2,4) by (rule json_safe_set)
  moreover have "value_depth (set_key k v h) \<le> Suc 62" by (rule depth_set) (use h(3) assms(3) in simp_all)
  ultimately show ?thesis using h(1) by (simp add: header_ok_def)
qed

lemma str_value_safe [simp]: "json_safe fd (sentry_value_new_string s)" "value_depth (sentry_value_new_string s) = 0"
  by (simp_all add: sentry_value_new_string_def split: option.splits)

lemma str_n_safe [simp]: "json_safe fd (sentry_value_new_string_n s n)" "value_depth (sentry_value_new_string_n s n) = 0"
  by (simp_all add: sentry_value_new_string_n_def split: option.splits)

lemma sint_len: "n < 2 ^ 31 \<Longrightarrow> sint (word_of_nat n :: 32 word) = int n"
  using sint_of_int [of "int n"] by (simp flip: of_nat_less_iff)

text \<open>What a header write does to an item.\<close>

lemma set_header_frame [simp]:
  "item_payload (sentry__envelope_item_set_header k v i) = item_payload i"
  "item_event (sentry__envelope_item_set_header k v i) = item_event i"
  "item_headers (sentry__envelope_item_set_header k v i) = set_key k v (item_headers i)"
  by (simp_all add: sentry__envelope_item_set_header_def)

lemma readable_item_header:
  assumes "readable_item fd i" "k \<notin> {''type'', ''length''}" "json_safe fd v" "value_depth v < 63" "CHR 0x00 \<notin> set k"
  shows "readable_item fd (sentry__envelope_item_set_header k v i)"
  using assms header_ok_set [of fd "item_headers i" v k] by (auto simp: readable_item_def length_ok_def set_key_get)

lemma readable_item_retype:
  assumes "readable_item fd i" "cstr t \<notin> {''event'', ''transaction''}"
  shows "readable_item fd (sentry__envelope_item_set_header ''type'' (str_value t) i)"
  using assms header_ok_set [of fd "item_headers i" "str_value t" "''type''"]
  by (auto simp: readable_item_def length_ok_def set_key_get sentry_value_new_string_def)

text \<open>An item that gets its payload and, last of its headers, the length.\<close>

lemma readable_item_payload:
  assumes "header_ok fd (item_headers i)" "item_payload i = Some p" "length p < 2 ^ 31"
    and "item_type i \<in> {''event'', ''transaction''} \<Longrightarrow> p = json_text fd (item_event i) \<and> json_safe fd (item_event i) \<and> value_depth (item_event i) < 64"
  shows "readable_item fd (sentry__envelope_item_set_header ''length'' (int32_of_len (length p)) i)"
  using assms header_ok_set [of fd "item_headers i" "int32_of_len (length p)" "''length''"]
  by (auto simp: readable_item_def length_ok_def set_key_get sint_len)

lemma empty_readable: "readable_item fd empty_item"
  using header_ok_new by (simp add: readable_item_def empty_item_def length_ok_def sentry_value_new_object_def)

lemma on_item_last [simp]: "on_item (length is) f (Items h (is @ [i])) = Items h (is @ [f i])"
  by simp

lemma on_readable: "envelope_ok fd e \<Longrightarrow> (\<And>i. readable_item fd i \<Longrightarrow> readable_item fd (f i)) \<Longrightarrow> envelope_ok fd (on_item n f e)"
  by (cases e) (auto simp: list_all_iff dest!: set_update_subset_insert [THEN subsetD])

lemma envelope_header_ok:
  "envelope_ok fd e \<Longrightarrow> json_safe fd v \<Longrightarrow> value_depth v < 63 \<Longrightarrow> CHR 0x00 \<notin> set k \<Longrightarrow> envelope_ok fd (sentry__envelope_set_header e k v)"
  by (cases e) (auto intro: header_ok_set)

lemma new_with_dsn_ok: "envelope_ok fd (sentry__envelope_new_with_dsn dsn)"
  by (auto simp: sentry__envelope_new_with_dsn_def Let_def header_ok_new intro: header_ok_set split: option.splits)

text \<open>Values that can be sent, and the payload made of one.\<close>

definition sendable :: "(double \<Rightarrow> string) \<Rightarrow> sentry_value \<Rightarrow> bool" where
  "sendable fd v \<longleftrightarrow> json_safe fd v \<and> value_depth v < 63 \<and> length (json_text fd v) < 2 ^ 31"

lemma json_payload_text:
  assumes "malloc_sized malloc" "sendable fd v" "json_payload malloc fd v = Some p"
  shows "p = json_text fd v"
proof -
  have "json_print fd 0 v = json_text fd v" using json_print_text [of fd v 0] assms(2) by (simp add: sendable_def)
  moreover have "value_depth v < 2 ^ 32" using assms(2) by (simp add: sendable_def)
  ultimately show ?thesis using value_to_json_exact [OF assms(1), of v fd] assms(3)
    by (auto simp: json_payload_def split: prod.splits option.splits)
qed

lemma add_item_ok: "envelope_ok fd e \<Longrightarrow> envelope_ok fd (fst (envelope_add_item e))"
  by (cases e) (simp_all add: empty_readable)

lemma add_owned_ok:
  assumes "envelope_ok fd e" "\<And>b. buf = Some b \<Longrightarrow> length b < 2 ^ 31" "cstr type \<notin> {''event'', ''transaction''}"
  shows "envelope_ok fd (fst (envelope_add_from_owned_buffer e buf type))"
proof (cases buf)
  case (Some b)
  let ?i = "sentry__envelope_item_set_header ''type'' (str_value type) (empty_item\<lparr>item_payload := Some b\<rparr>)"
  have "header_ok fd (item_headers ?i)" using header_ok_new by (auto simp: empty_item_def intro: header_ok_set)
  moreover have "item_type ?i \<notin> {''event'', ''transaction''}"
    using assms(3) by (auto simp: empty_item_def sentry_value_new_object_def sentry_value_new_string_def)
  ultimately have "readable_item fd (sentry__envelope_item_set_header ''length'' (int32_of_len (length b)) ?i)"
    using assms(2) [OF Some] by (intro readable_item_payload) auto
  with Some assms(1) show ?thesis by (cases e) (simp_all add: envelope_add_from_owned_buffer_def)
qed (use assms(1) in \<open>simp add: envelope_add_from_owned_buffer_def\<close>)

text \<open>\<open>ev\<close> is the event with its identifier.\<close>

lemma add_with_id_ok:
  assumes "envelope_ok fd e" "malloc_sized malloc" "sendable fd (snd (sentry__ensure_event_id new_id event))"
    and "cstr type \<in> {''event'', ''transaction''} \<Longrightarrow> keeps"
  shows "envelope_ok fd (fst (add_with_id malloc fd new_id type keeps e event))"
proof -
  obtain u ev where id: "sentry__ensure_event_id new_id event = (u, ev)" by (cases "sentry__ensure_event_id new_id event")
  have ev: "sendable fd ev" using assms(3) id by simp
  obtain h "is" where e: "e = Items h is" "header_ok fd h" "list_all (readable_item fd) is" using assms(1) by (cases e) auto
  show ?thesis
  proof (cases "json_payload malloc fd ev")
    case None
    then show ?thesis using e id by (simp add: add_with_id_def empty_readable)
  next
    case (Some p)
    have p: "p = json_text fd ev" using json_payload_text [OF assms(2) ev Some] .
    let ?i = "sentry__envelope_item_set_header ''type'' (str_value type)
      (empty_item\<lparr>item_payload := Some p, item_event := (if keeps then ev else item_event empty_item)\<rparr>)"
    have "header_ok fd (item_headers ?i)" using header_ok_new by (auto simp: empty_item_def intro: header_ok_set)
    moreover have "item_type ?i = cstr type" by (simp add: empty_item_def sentry_value_new_object_def sentry_value_new_string_def)
    ultimately have "readable_item fd (sentry__envelope_item_set_header ''length'' (int32_of_len (length p)) ?i)"
      using assms(4) ev p by (intro readable_item_payload) (auto simp: sendable_def)
    then have "envelope_ok fd (Items h (is @ [sentry__envelope_item_set_header ''length'' (int32_of_len (length p)) ?i]))"
      using e by simp
    from envelope_header_ok [OF this, of "sentry__value_new_uuid u" "''event_id''"] show ?thesis
      using Some e id by (cases keeps) (simp_all add: add_with_id_def sentry__envelope_set_event_id_def sentry__value_new_uuid_def)
  qed
qed

lemma add_telemetry_ok:
  assumes "envelope_ok fd e" "malloc_sized malloc" "sendable fd v" "cstr type \<notin> {''event'', ''transaction''}"
  shows "envelope_ok fd (fst (add_telemetry malloc fd e v type ct))"
proof -
  obtain h "is" where e: "e = Items h is" "header_ok fd h" "list_all (readable_item fd) is" using assms(1) by (cases e) auto
  show ?thesis
  proof (cases "json_payload malloc fd v")
    case (Some p)
    have p: "p = json_text fd v" using json_payload_text [OF assms(2,3) Some] .
    let ?n = "int32_of_len (sentry_value_get_length (sentry_value_get_by_key v ''items''))"
    let ?i = "sentry__envelope_item_set_header ''content_type'' (str_value ct) (sentry__envelope_item_set_header ''item_count'' ?n
      (sentry__envelope_item_set_header ''type'' (str_value type) (empty_item\<lparr>item_payload := Some p\<rparr>)))"
    have "header_ok fd (item_headers ?i)" using header_ok_new by (auto simp: empty_item_def intro!: header_ok_set)
    moreover have "item_type ?i = cstr type" by (simp add: empty_item_def sentry_value_new_object_def sentry_value_new_string_def)
    ultimately have "readable_item fd (sentry__envelope_item_set_header ''length'' (int32_of_len (length p)) ?i)"
      using assms(3,4) p by (intro readable_item_payload) (auto simp: sendable_def)
    then show ?thesis using e Some by (simp add: add_telemetry_def)
  qed (use e in \<open>simp add: add_telemetry_def empty_readable\<close>)
qed

lemma set_if_depth: "value_depth rv \<le> Suc n \<Longrightarrow> value_depth v \<le> n \<Longrightarrow> value_depth (set_if c k v rv) \<le> Suc n"
  by (simp add: set_if_def depth_set)

lemma set_if_safe: "json_safe fd rv \<Longrightarrow> json_safe fd v \<Longrightarrow> CHR 0x00 \<notin> set k \<Longrightarrow> json_safe fd (set_if c k v rv)"
  by (simp add: set_if_def json_safe_set)

lemma trace_header_ok:
  "envelope_ok fd e \<Longrightarrow> json_safe fd dsc \<Longrightarrow> value_depth dsc \<le> Suc 61 \<Longrightarrow> envelope_ok fd (add_trace_header dsc e)"
  by (simp add: add_trace_header_def envelope_header_ok)

lemma trace_id_depth:
  "value_depth v < 63 \<Longrightarrow> value_depth (sentry_value_get_by_key (sentry_value_get_by_key (sentry_value_get_by_key v a) b) c) \<le> 61"
  using depth_get [of v a] depth_get [of "sentry_value_get_by_key v a" b]
    depth_get [of "sentry_value_get_by_key (sentry_value_get_by_key v a) b" c] by linarith

lemmas get3_safe = json_safe_get [OF json_safe_get [OF json_safe_get]]

text \<open>The dynamic sampling context of the scope is small.\<close>

definition scope_ok :: "(double \<Rightarrow> string) \<Rightarrow> scope_view \<Rightarrow> bool" where
  "scope_ok fd scope \<longleftrightarrow> json_safe fd (view_dsc scope) \<and> value_depth (view_dsc scope) \<le> 61"

lemma event_dsc_ok:
  "scope_ok fd scope \<Longrightarrow> sendable fd event \<Longrightarrow> json_safe fd (event_dsc r (sentry__value_clone (view_dsc scope)) x event)
     \<and> value_depth (event_dsc r (sentry__value_clone (view_dsc scope)) x event) \<le> Suc 61"
  unfolding event_dsc_def Let_def scope_ok_def sendable_def
  by (intro conjI set_if_safe set_if_depth clone_safe get3_safe trace_id_depth) (auto simp: clone_depth)

lemma transaction_dsc_ok:
  assumes "scope_ok fd scope" "sendable fd tx"
  shows "json_safe fd (transaction_dsc (sentry__value_clone (view_dsc scope)) tx)
     \<and> value_depth (transaction_dsc (sentry__value_clone (view_dsc scope)) tx) \<le> Suc 61"
proof -
  have n: "value_depth (sentry_value_get_by_key tx k) \<le> 61" for k
    using depth_get [of tx k] assms(2) unfolding sendable_def by linarith
  let ?t = "sentry_value_get_by_key (sentry_value_get_by_key (sentry_value_get_by_key tx ''contexts'') ''trace'') ''trace_id''"
  let ?d = "sentry__value_clone (view_dsc scope)"
  let ?s = "set_key ''sampled'' (str_value ''true'') (set_key ''trace_id'' ?t ?d)"
  have d: "value_depth ?d \<le> Suc 61" "json_safe fd ?d" using assms(1) by (simp_all add: scope_ok_def clone_depth clone_safe)
  have t: "value_depth ?t \<le> 61" "json_safe fd ?t" using assms(2) trace_id_depth get3_safe by (simp_all add: sendable_def)
  have "value_depth ?s \<le> Suc 61" by (rule depth_set [OF depth_set [OF d(1) t(1)]]) simp
  moreover have "json_safe fd ?s" by (rule json_safe_set [OF json_safe_set [OF d(2) t(2)]]) simp_all
  moreover have "json_safe fd tx" using assms(2) by (simp add: sendable_def)
  ultimately show ?thesis using d n unfolding transaction_dsc_def Let_def
    by (intro conjI set_if_safe set_if_depth json_safe_get n) simp_all
qed

lemma add_with_id_event:
  "add_with_id malloc fd new_id type keeps e event = (e', Some i, ev) \<Longrightarrow> ev = snd (sentry__ensure_event_id new_id event)"
  by (cases e) (auto simp: add_with_id_def split: prod.splits option.splits)

lemma add_event_ok:
  assumes "envelope_ok fd e" "malloc_sized malloc" "scope_ok fd scope" "sendable fd (snd (sentry__ensure_event_id new_id event))"
  shows "envelope_ok fd (fst (sentry__envelope_add_event malloc fd new_id scope e event))"
proof -
  obtain e' r ev where a: "add_with_id malloc fd new_id ''event'' True e event = (e', r, ev)" by (rule prod_cases3)
  have "envelope_ok fd e'" using add_with_id_ok [OF assms(1,2,4), of "''event''" True] a by simp
  moreover have "sendable fd ev" if "r = Some i" for i using add_with_id_event a that assms(4) by simp
  ultimately show ?thesis using a event_dsc_ok [OF assms(3)]
    by (auto simp: sentry__envelope_add_event_def Let_def intro!: trace_header_ok split: option.splits)
qed

lemma add_transaction_ok:
  assumes "envelope_ok fd e" "malloc_sized malloc" "scope_ok fd scope" "sendable fd (snd (sentry__ensure_event_id new_id tx))"
  shows "envelope_ok fd (fst (sentry__envelope_add_transaction malloc fd new_id scope now_iso e tx))"
proof -
  obtain e' r ev where a: "add_with_id malloc fd new_id ''transaction'' True e tx = (e', r, ev)" by (rule prod_cases3)
  have "envelope_ok fd e'" using add_with_id_ok [OF assms(1,2,4), of "''transaction''" True] a by simp
  moreover have "sendable fd ev" if "r = Some i" for i using add_with_id_event a that assms(4) by simp
  ultimately show ?thesis using a transaction_dsc_ok [OF assms(3)]
    by (auto simp: sentry__envelope_add_transaction_def Let_def intro!: envelope_header_ok trace_header_ok split: option.splits)
qed

lemma add_feedback_ok:
  assumes "envelope_ok fd e" "malloc_sized malloc" "scope_ok fd scope" "sendable fd (snd (sentry__ensure_event_id new_id event))"
  shows "envelope_ok fd (fst (sentry__envelope_add_feedback_event malloc fd new_id scope e event))"
  using add_event_ok [OF assms] readable_item_retype [of fd _ "''feedback''"]
  by (auto simp: sentry__envelope_add_feedback_event_def cstr_def intro!: on_readable split: prod.splits option.splits)

lemma add_buffer_ok:
  assumes "envelope_ok fd e" "\<And>b. buf = Some b \<Longrightarrow> length b < 2 ^ 31" "cstr type \<notin> {''event'', ''transaction''}"
  shows "envelope_ok fd (fst (sentry__envelope_add_from_buffer malloc e buf type))"
  unfolding sentry__envelope_add_from_buffer_def
  by (rule add_owned_ok) (use assms in \<open>auto split: option.splits if_splits\<close>)

lemma add_attachment_ok:
  assumes "envelope_ok fd e" "\<And>b. att_buf a = Some b \<Longrightarrow> length b < 2 ^ 31" "\<And>p b. read p = Some b \<Longrightarrow> length b < 2 ^ 31"
  shows "envelope_ok fd (fst (sentry__envelope_add_attachment malloc read e a))"
proof -
  have n: "cstr ''attachment'' \<notin> {''event'', ''transaction''}" by (simp add: cstr_def)
  define r where "r = (case sentry__attachment_get_bytes (Some a) of
           (Some b, _) \<Rightarrow> sentry__envelope_add_from_buffer malloc e (Some b) ''attachment''
         | (None, _) \<Rightarrow> (case sentry__envelope_add_from_path read (Some e) (sentry__attachment_get_path (Some a)) ''attachment'' of
                (e, i) \<Rightarrow> (the e, i)))"
  have "envelope_ok fd (fst r)"
  proof (cases "att_buf a")
    case None
    have "envelope_ok fd (fst (envelope_add_from_owned_buffer e (Some b) ''attachment''))" if "read p = Some b" for p b
      by (rule add_owned_ok) (use assms n that in auto)
    with None assms(1) show ?thesis
      by (auto simp: r_def sentry__attachment_get_bytes_def sentry__envelope_add_from_path_def split: option.splits prod.splits)
        (metis fst_conv)
  next
    case (Some b)
    then show ?thesis using assms n by (auto simp: r_def sentry__attachment_get_bytes_def intro!: add_buffer_ok)
  qed
  then show ?thesis
    unfolding sentry__envelope_add_attachment_def r_def [symmetric]
    by (auto simp: Let_def case_prod_beta intro!: on_readable readable_item_header split: option.splits)
qed

lemma ref_headers_frame: "item_payload (attachment_ref_headers f t n i) = item_payload i" "item_event (attachment_ref_headers f t n i) = item_event i"
  by (simp_all add: attachment_ref_headers_def Let_def)

lemma ref_headers_ok: "header_ok fd (item_headers i) \<Longrightarrow> header_ok fd (item_headers (attachment_ref_headers f t n i))"
  by (auto simp: attachment_ref_headers_def Let_def intro!: header_ok_set)

lemma as_string_new: "sentry_value_as_string (sentry_value_new_string (Some t)) = cstr t"
  by (simp add: sentry_value_new_string_def)

lemma ref_headers_get: "header_ok fd (item_headers i) \<Longrightarrow>
    item_type (attachment_ref_headers f t n i) = ''attachment''
    \<and> sentry_value_get_by_key (item_headers (attachment_ref_headers f t n i)) ''length'' = sentry_value_get_by_key (item_headers i) ''length''"
  by (erule header_okE) (simp add: attachment_ref_headers_def Let_def as_string_new cstr_def [of "''attachment''"])

lemma add_attachment_ref_ok:
  assumes "envelope_ok fd e" "\<And>r p. ref = Some r \<Longrightarrow> attachment_ref_payload_to_string malloc fd r = Some p \<Longrightarrow> length p < 2 ^ 31"
  shows "envelope_ok fd (fst (sentry__envelope_add_attachment_ref malloc fd e ref f t n))"
proof -
  obtain h "is" where e: "e = Items h is" "header_ok fd h" "list_all (readable_item fd) is" using assms(1) by (cases e) auto
  let ?i = "attachment_ref_headers f t n empty_item"
  have h0: "header_ok fd (item_headers empty_item)" using header_ok_new by (simp add: empty_item_def)
  note h = ref_headers_ok [OF h0, of f t n] ref_headers_get [OF h0, of f t n]
  have "readable_item fd ?i" using h ref_headers_frame [of f t n empty_item]
    by (simp add: readable_item_def length_ok_def empty_item_def sentry_value_new_object_def)
  moreover have "readable_item fd (sentry__envelope_item_set_header ''length'' (int32_of_len (length p)) (?i\<lparr>item_payload := Some p\<rparr>))"
    if "length p < 2 ^ 31" for p
    using h that by (intro readable_item_payload) auto
  ultimately show ?thesis using e assms(2)
    by (auto simp: sentry__envelope_add_attachment_ref_def Let_def attachment_ref_has_payload_def split: option.splits)
qed

end
