(* ===== verification/FileIO.thy ===== *)
theory FileIO
  imports Attachments Writer
begin

text \<open>
  Paths and files (\<open>path/sentry_path.c\<close>, \<open>path/sentry_path_unix.c\<close>).  A path is its C string; a file is the bytes
  it holds.  What the operating system does with the calls of \<open>read\<close> and \<open>write\<close> is a list with the outcome of each
  call in turn: a number of bytes, an interruption that the code retries, or an error.  Behind the end of the list a
  call transfers everything that is asked for.  A call never transfers more bytes than it was asked to.
\<close>

datatype io_result = IoDone nat | IoAgain | IoError

section \<open>Path strings\<close>

text \<open>The paths built with a string builder, which must not fail for the result to be a path.\<close>

definition sentry__path_append_str :: "malloc \<Rightarrow> string \<Rightarrow> string \<Rightarrow> string option" where
  "sentry__path_append_str malloc base suf =
     map_option cstr (sentry__stringbuilder_into_string malloc (sb_append_all malloc sentry__stringbuilder_init [base, suf]))"

definition sentry__path_join_str :: "malloc \<Rightarrow> string \<Rightarrow> string \<Rightarrow> string option" where
  "sentry__path_join_str malloc base other =
     (if at other CHR ''/'' then Some other
      else
        map_option cstr (sentry__stringbuilder_into_string malloc
          (sb_append_all malloc sentry__stringbuilder_init
             (if base = [] \<or> last base \<noteq> CHR ''/'' then [base, ''/'', other] else [base, other]))))"

definition sentry__path_eq :: "string \<Rightarrow> string \<Rightarrow> bool" where
  "sentry__path_eq a b \<longleftrightarrow> cstr a = cstr b"

definition sentry__path_ends_with :: "string \<Rightarrow> string \<Rightarrow> bool" where
  "sentry__path_ends_with path suf =
     (if length suf > length path then False else drop (length path - length suf) path = suf)"

definition sentry__path_filename_matches :: "string \<Rightarrow> string \<Rightarrow> bool" where
  "sentry__path_filename_matches path filename \<longleftrightarrow> sentry__path_filename path = filename"

text \<open>The position of the last dot of a name, if it is not its first character.\<close>

definition last_dot :: "string \<Rightarrow> nat option" where
  "last_dot name =
     (let n = length (takeWhile (\<lambda>c. c \<noteq> CHR ''.'') (rev name))
      in if n \<ge> length name \<or> length name - 1 - n = 0 then None else Some (length name - 1 - n))"

definition sentry__path_basename :: "string \<Rightarrow> string option \<Rightarrow> string option" where
  "sentry__path_basename path suf =
     (case suf of
        Some s \<Rightarrow>
          if length s > 0 \<and> length path > length s \<and> drop (length path - length s) path = s
          then Some (take (length path - length s) path) else None
      | None \<Rightarrow>
          (case last_dot (sentry__path_filename path) of
             None \<Rightarrow> None
           | Some d \<Rightarrow> Some (take (length path - length (sentry__path_filename path) + d) path)))"

text \<open>The candidates of \<open>sentry__path_unique\<close>: names cut to the 511 characters of its buffer.\<close>

definition unique_name :: "string \<Rightarrow> nat \<Rightarrow> string" where
  "unique_name basename n =
     (let stem_len = (case last_dot basename of Some d \<Rightarrow> d | None \<Rightarrow> length basename)
      in take 511 (if n = 0 then basename else take stem_len basename @ ''-'' @ dec_str n @ drop stem_len basename))"

definition sentry__path_unique :: "malloc \<Rightarrow> (string \<Rightarrow> bool) \<Rightarrow> string option \<Rightarrow> string option \<Rightarrow> string option" where
  "sentry__path_unique malloc is_file dir basename =
     (case (dir, basename) of
        (Some d, Some b) \<Rightarrow>
          if b = [] then None
          else (case for_first (\<lambda>n. case sentry__path_join_str malloc d (unique_name b n) of None \<Rightarrow> True | Some p \<Rightarrow> \<not> is_file p) 0 10000 of
                  None \<Rightarrow> None
                | Some n \<Rightarrow> sentry__path_join_str malloc d (unique_name b n))
      | _ \<Rightarrow> None)"

section \<open>Writing\<close>

text \<open>The loop around \<open>write\<close>: the file, the number of bytes left and the outcomes that remain.\<close>

fun write_loop :: "io_result list \<Rightarrow> string \<Rightarrow> string \<Rightarrow> string \<times> nat \<times> io_result list" where
  "write_loop os file [] = (file, 0, os)"
| "write_loop [] file buf = (file @ buf, 0, [])"
| "write_loop (IoAgain # os) file buf = write_loop os file buf"
| "write_loop (IoError # os) file buf = (file, length buf, os)"
| "write_loop (IoDone n # os) file buf =
     (if n = 0 then (file, length buf, os) else write_loop os (file @ take n buf) (drop n buf))"

text \<open>\<open>file\<close> is \<open>None\<close> when the file cannot be opened; \<open>trunc\<close> is the flag that empties it.\<close>

definition write_buffer_with_flags :: "io_result list \<Rightarrow> string option \<Rightarrow> string \<Rightarrow> bool \<Rightarrow> nat \<times> string option" where
  "write_buffer_with_flags os file buf trunc =
     (case file of
        None \<Rightarrow> (1, None)
      | Some f \<Rightarrow>
          (case write_loop os (if trunc then [] else f) buf of
             (f', remaining, _) \<Rightarrow> (if remaining = 0 then 0 else 1, Some f')))"

definition sentry__path_write_buffer :: "io_result list \<Rightarrow> string option \<Rightarrow> string \<Rightarrow> nat \<times> string option" where
  "sentry__path_write_buffer os file buf = write_buffer_with_flags os file buf True"

definition sentry__path_append_buffer :: "io_result list \<Rightarrow> string option \<Rightarrow> string \<Rightarrow> nat \<times> string option" where
  "sentry__path_append_buffer os file buf = write_buffer_with_flags os file buf False"

text \<open>A file writer with the file behind its descriptor; \<open>fw_close_ok\<close> is the outcome of \<open>close\<close>.\<close>

record sentry_filewriter_t =
  fw_byte_count :: nat
  fw_failed :: bool
  fw_closed :: bool
  fw_file :: string
  fw_os :: "io_result list"
  fw_close_ok :: bool

definition sentry__filewriter_new :: "io_result list \<Rightarrow> bool \<Rightarrow> string option \<Rightarrow> sentry_filewriter_t option" where
  "sentry__filewriter_new os close_ok file =
     map_option (\<lambda>_. \<lparr>fw_byte_count = 0, fw_failed = False, fw_closed = False, fw_file = [], fw_os = os, fw_close_ok = close_ok\<rparr>) file"

text \<open>The loop of \<open>sentry__filewriter_write\<close> is \<open>write_loop\<close> with a byte count and a failure flag.\<close>

definition sentry__filewriter_write :: "sentry_filewriter_t \<Rightarrow> string \<Rightarrow> sentry_filewriter_t \<times> nat" where
  "sentry__filewriter_write fw buf =
     (if fw_failed fw \<or> fw_closed fw then (fw, length buf)
      else case write_loop (fw_os fw) (fw_file fw) buf of
          (file, remaining, os) \<Rightarrow>
            (fw\<lparr>fw_file := file, fw_os := os, fw_byte_count := fw_byte_count fw + (length buf - remaining),
                fw_failed := remaining \<noteq> 0\<rparr>, remaining))"

definition sentry__filewriter_close :: "sentry_filewriter_t \<Rightarrow> sentry_filewriter_t \<times> bool" where
  "sentry__filewriter_close fw =
     (if fw_closed fw then (fw, \<not> fw_failed fw)
      else
        let fw = fw\<lparr>fw_closed := True\<rparr>;
            fw = (if \<not> fw_close_ok fw then fw\<lparr>fw_failed := True\<rparr> else fw)
        in (fw, \<not> fw_failed fw))"

definition sentry__filewriter_has_failed :: "sentry_filewriter_t option \<Rightarrow> bool" where
  "sentry__filewriter_has_failed fw = (case fw of None \<Rightarrow> True | Some fw \<Rightarrow> fw_failed fw)"

definition sentry__filewriter_byte_count :: "sentry_filewriter_t option \<Rightarrow> nat" where
  "sentry__filewriter_byte_count fw = (case fw of None \<Rightarrow> 0 | Some fw \<Rightarrow> fw_byte_count fw)"

abbreviation unix_file_ops :: "(sentry_filewriter_t \<times> bool) sentry_writer_ops_t" where
  "unix_file_ops \<equiv> file_writer_ops sentry__filewriter_write sentry__filewriter_close (\<lambda>fw. sentry__filewriter_has_failed (Some fw))"

section \<open>Reading\<close>

text \<open>The loop around \<open>read\<close>; \<open>file\<close> is what is behind the position, so a call at the end transfers nothing.\<close>

fun read_loop :: "io_result list \<Rightarrow> string \<Rightarrow> nat \<Rightarrow> string \<Rightarrow> string" where
  "read_loop os file 0 acc = acc"
| "read_loop [] file remaining acc = acc @ take remaining file"
| "read_loop (IoAgain # os) file remaining acc = read_loop os file remaining acc"
| "read_loop (IoError # os) file remaining acc = acc"
| "read_loop (IoDone n # os) file remaining acc =
     (let got = take (min n remaining) file
      in if got = [] then acc else read_loop os (drop (length got) file) (remaining - length got) (acc @ got))"

abbreviation MAX_READ_TO_BUFFER :: nat where "MAX_READ_TO_BUFFER \<equiv> 536870912"

text \<open>\<open>file\<close> is \<open>None\<close> when the file cannot be opened; its size is the length of its contents.\<close>

definition sentry__path_read_to_buffer :: "malloc \<Rightarrow> io_result list \<Rightarrow> string option \<Rightarrow> string option" where
  "sentry__path_read_to_buffer malloc os file =
     (case file of
        None \<Rightarrow> None
      | Some f \<Rightarrow>
          let len = length f in
          if len = 0 then (if malloc 1 = None then None else Some [])
          else if len > MAX_READ_TO_BUFFER then None
          else if malloc (len + 1) = None then None
          else Some (read_loop os f len []))"

section \<open>What is written and read\<close>

lemma write_loop_spec:
  "write_loop os f buf = (f', r, os') \<Longrightarrow> r \<le> length buf \<and> f' = f @ take (length buf - r) buf"
proof (induction os f buf rule: write_loop.induct)
  case (5 n os f c cs)
  show ?case
  proof (cases "n = 0")
    case False
    with 5 have ih: "r \<le> length (drop n (c # cs))" "f' = (f @ take n (c # cs)) @ take (length (drop n (c # cs)) - r) (drop n (c # cs))" by auto
    have "take (length (c # cs) - r) (c # cs) = take n (c # cs) @ take (length (drop n (c # cs)) - r) (drop n (c # cs))"
    proof (cases "n \<le> length (c # cs)")
      case True
      then have "length (c # cs) - r = n + (length (drop n (c # cs)) - r)" using ih(1) by simp
      then show ?thesis using take_add by metis
    qed (use ih(1) in simp)
    with ih show ?thesis by simp
  qed (use 5 in auto)
qed auto

text \<open>A file is a sink for the writer.\<close>

interpretation file_sink: sink "\<lambda>_. True" "\<lambda>(fw, own). fw_file fw" unix_file_ops 0
proof
  fix st :: "sentry_filewriter_t \<times> bool" and bs :: string
  obtain fw own where st: "st = (fw, own)" by (cases st)
  obtain f r os where w: "write_loop (fw_os fw) (fw_file fw) bs = (f, r, os)" by (rule prod_cases3)
  have r: "op_write unix_file_ops (fw, own) bs = ((fst (sentry__filewriter_write fw bs), own), snd (sentry__filewriter_write fw bs))"
    by (simp add: file_writer_ops_def case_prod_beta)
  show "snd (op_write unix_file_ops st bs) \<le> length bs"
    and "(case fst (op_write unix_file_ops st bs) of (fw, own) \<Rightarrow> fw_file fw) =
      (case st of (fw, own) \<Rightarrow> fw_file fw) @ take (length bs - snd (op_write unix_file_ops st bs)) bs"
    unfolding st r using write_loop_spec [OF w] by (simp_all add: sentry__filewriter_write_def w)
qed simp_all

text \<open>One successful call of \<open>read\<close>.\<close>

lemma read_loop_step:
  assumes "got = take (min n (Suc m)) f" "got \<noteq> []"
  shows "read_loop (IoDone n # os) f (Suc m) acc = read_loop os (drop (length got) f) (Suc m - length got) (acc @ got)"
  unfolding read_loop.simps Let_def assms(1) [symmetric] using assms(2) by (simp only: if_False)

lemma take_more: "got = take (min n (Suc m)) f \<Longrightarrow> got @ take k (drop (length got) f) = take (length got + k) f"
  by (simp add: take_add min_def)

text \<open>A read gives a prefix of the file, and all of it unless the operating system reports an error.\<close>

lemma read_loop_prefix: "\<exists>k. read_loop os f n acc = acc @ take k f"
proof (induction os f n acc rule: read_loop.induct)
  case (5 n os f m acc)
  define got where "got = take (min n (Suc m)) f"
  show ?case
  proof (cases "got = []")
    case False
    from 5 [OF got_def False] obtain k where "read_loop os (drop (length got) f) (Suc m - length got) (acc @ got) = (acc @ got) @ take k (drop (length got) f)"
      by blast
    with read_loop_step [OF got_def False] take_more [OF got_def] show ?thesis by (metis append.assoc)
  qed (auto simp: got_def [symmetric] intro: exI [of _ 0])
qed (auto intro: exI [of _ 0])

lemma read_loop_all: "list_all (\<lambda>r. r = IoAgain \<or> (\<exists>n > 0. r = IoDone n)) os \<Longrightarrow> read_loop os f n acc = acc @ take n f"
proof (induction os f n acc rule: read_loop.induct)
  case (5 n os f m acc)
  define got where "got = take (min n (Suc m)) f"
  show ?case
  proof (cases "got = []")
    case True
    then have "f = []" using 5 by (auto simp: got_def)
    then show ?thesis by simp
  next
    case False
    have "length got \<le> Suc m" by (simp add: got_def)
    then have "got @ take (Suc m - length got) (drop (length got) f) = take (Suc m) f" using take_more [OF got_def, of "Suc m - length got"] by simp
    moreover have "read_loop os (drop (length got) f) (Suc m - length got) (acc @ got) = (acc @ got) @ take (Suc m - length got) (drop (length got) f)"
      using 5(1) [OF got_def False] 5(2) by simp
    ultimately show ?thesis using read_loop_step [OF got_def False] by simp
  qed
qed auto

end
