(* ===== verification/EnvelopeOps.thy ===== *)
theory EnvelopeOps
  imports Envelope FileIO
begin

text \<open>
  The operations on whole envelopes (\<open>sentry_envelope.c\<close>): writing to a file and to the cache directory, client
  reports, the accounting of discarded items, access to items and the resolution of attachment references.  The
  theory ends with the properties of envelopes: what can be built can be read back, what a file holds after a
  write, which items a rate limiter holds back and that each dropped item is counted once.
\<close>

section \<open>Items\<close>

fun sentry__envelope_is_raw :: "sentry_envelope_t option \<Rightarrow> bool" where
  "sentry__envelope_is_raw (Some (Raw _)) = True"
| "sentry__envelope_is_raw _ = False"

fun sentry__envelope_get_item_count :: "sentry_envelope_t \<Rightarrow> nat" where
  "sentry__envelope_get_item_count (Raw _) = 0"
| "sentry__envelope_get_item_count (Items h is) = length is"

fun sentry__envelope_get_item :: "sentry_envelope_t \<Rightarrow> nat \<Rightarrow> sentry_envelope_item_t option" where
  "sentry__envelope_get_item (Raw _) idx = None"
| "sentry__envelope_get_item (Items h is) idx = (if idx < length is then Some (is ! idx) else None)"

text \<open>The item is given by its index; an index out of range is a pointer that is not in the list.\<close>

fun sentry__envelope_remove_item :: "sentry_envelope_t option \<Rightarrow> nat option \<Rightarrow> bool \<times> sentry_envelope_t option" where
  "sentry__envelope_remove_item (Some (Items h is)) (Some i) =
     (if i < length is then (True, Some (Items h (take i is @ drop (i + 1) is))) else (False, Some (Items h is)))"
| "sentry__envelope_remove_item e _ = (False, e)"

section \<open>Client reports\<close>

fun discard_reason_to_string :: "sentry_discard_reason_t \<Rightarrow> string" where
  "discard_reason_to_string SENTRY_DISCARD_REASON_QUEUE_OVERFLOW = ''queue_overflow''"
| "discard_reason_to_string SENTRY_DISCARD_REASON_CACHE_OVERFLOW = ''cache_overflow''"
| "discard_reason_to_string SENTRY_DISCARD_REASON_RATELIMIT_BACKOFF = ''ratelimit_backoff''"
| "discard_reason_to_string SENTRY_DISCARD_REASON_NETWORK_ERROR = ''network_error''"
| "discard_reason_to_string SENTRY_DISCARD_REASON_SAMPLE_RATE = ''sample_rate''"
| "discard_reason_to_string SENTRY_DISCARD_REASON_BEFORE_SEND = ''before_send''"
| "discard_reason_to_string SENTRY_DISCARD_REASON_SEND_ERROR = ''send_error''"

fun data_category_to_string :: "sentry_data_category_t \<Rightarrow> string" where
  "data_category_to_string SENTRY_DATA_CATEGORY_ERROR = ''error''"
| "data_category_to_string SENTRY_DATA_CATEGORY_SESSION = ''session''"
| "data_category_to_string SENTRY_DATA_CATEGORY_TRANSACTION = ''transaction''"
| "data_category_to_string SENTRY_DATA_CATEGORY_ATTACHMENT = ''attachment''"
| "data_category_to_string SENTRY_DATA_CATEGORY_LOG_ITEM = ''log_item''"
| "data_category_to_string SENTRY_DATA_CATEGORY_FEEDBACK = ''feedback''"
| "data_category_to_string SENTRY_DATA_CATEGORY_TRACE_METRIC = ''trace_metric''"
| "data_category_to_string SENTRY_DATA_CATEGORY_REPLAY = ''replay''"

text \<open>One entry of the list, and the whole report, as the calls of the JSON writer.\<close>

definition write_report_cell where
  "write_report_cell ops report jw c =
     (if sint (report c :: i64) > 0
      then
        let jw = sentry__jsonwriter_write_object_start ops jw;
            jw = sentry__jsonwriter_write_key ops jw ''reason'';
            jw = sentry__jsonwriter_write_str ops jw (Some (discard_reason_to_string (fst c)));
            jw = sentry__jsonwriter_write_key ops jw ''category'';
            jw = sentry__jsonwriter_write_str ops jw (Some (data_category_to_string (snd c)));
            jw = sentry__jsonwriter_write_key ops jw ''quantity'';
            jw = sentry__jsonwriter_write_int64 ops jw (report c)
        in sentry__jsonwriter_write_object_end ops jw
      else jw)"

definition write_client_report where
  "write_client_report ops timestamp report jw =
     (let jw = sentry__jsonwriter_write_object_start ops jw;
          jw = sentry__jsonwriter_write_key ops jw ''timestamp'';
          jw = sentry__jsonwriter_write_str ops jw timestamp;
          jw = sentry__jsonwriter_write_key ops jw ''discarded_events'';
          jw = sentry__jsonwriter_write_list_start ops jw;
          jw = foldl (write_report_cell ops report) jw cells;
          jw = sentry__jsonwriter_write_list_end ops jw
      in sentry__jsonwriter_write_object_end ops jw)"

definition sentry__envelope_add_client_report ::
  "malloc \<Rightarrow> string option \<Rightarrow> sentry_envelope_t \<Rightarrow> discard_counts option \<Rightarrow> sentry_envelope_t \<times> nat option" where
  "sentry__envelope_add_client_report malloc timestamp envelope report =
     (case (envelope, report) of
        (Items h is, Some r) \<Rightarrow>
          let jw = write_client_report (sb_writer_ops malloc) timestamp r (jsonwriter_new (sentry__writer_new_sb None))
          in (case sentry__jsonwriter_into_string (sb_writer_ops malloc) jw True of
                (None, _) \<Rightarrow> (envelope, None)
              | (Some payload, n) \<Rightarrow> sentry__envelope_add_from_buffer malloc envelope (Some (take n payload)) ''client_report'')
      | _ \<Rightarrow> (envelope, None))"

text \<open>The accounting of an envelope that is dropped.\<close>

text \<open>The clock is read for every item.\<close>

definition discard_item :: "u64 \<Rightarrow> sentry_discard_reason_t \<Rightarrow> sentry_rate_limiter_t option \<Rightarrow> discard_counts \<Rightarrow> sentry_envelope_item_t \<Rightarrow> discard_counts" where
  "discard_item now reason rl g item =
     (case envelope_item_get_ratelimiter_category item of
        None \<Rightarrow> g
      | Some category \<Rightarrow>
          if limited now rl category then g
          else sentry__client_report_discard (reason, item_type_to_data_category (item_type item)) 1 g)"

fun discard_items ::
  "(nat \<Rightarrow> u64) \<Rightarrow> sentry_discard_reason_t \<Rightarrow> sentry_rate_limiter_t option \<Rightarrow> nat \<Rightarrow> sentry_envelope_item_t list \<Rightarrow> discard_counts \<Rightarrow> discard_counts" where
  "discard_items clock reason rl j [] g = g"
| "discard_items clock reason rl j (item # is) g = discard_items clock reason rl (Suc j) is (discard_item (clock j) reason rl g item)"

fun sentry__envelope_discard ::
  "(nat \<Rightarrow> u64) \<Rightarrow> sentry_envelope_t \<Rightarrow> sentry_discard_reason_t \<Rightarrow> sentry_rate_limiter_t option \<Rightarrow> discard_counts \<Rightarrow> discard_counts" where
  "sentry__envelope_discard clock (Raw _) reason rl g = g"
| "sentry__envelope_discard clock (Items h is) reason rl g = discard_items clock reason rl 0 is g"

section \<open>Attachment references\<close>

definition sentry__envelope_item_is_attachment_ref :: "sentry_envelope_item_t \<Rightarrow> bool" where
  "sentry__envelope_item_is_attachment_ref item \<longleftrightarrow>
     sentry_value_as_string (sentry_value_get_by_key (item_headers item) ''content_type'') = SENTRY_ATTACHMENT_REF_MIME"

text \<open>The fields of the payload are strings, empty where the payload has none.\<close>

definition sentry__envelope_item_get_attachment_ref ::
  "(string \<Rightarrow> double) \<Rightarrow> sentry_envelope_item_t \<Rightarrow> sentry_attachment_ref_t option" where
  "sentry__envelope_item_get_attachment_ref strtod item =
     (if \<not> sentry__envelope_item_is_attachment_ref item then None
      else case item_payload item of
          None \<Rightarrow> Some \<lparr>ref_path = None, ref_location = None, ref_content_type = None, ref_attachment_type = None\<rparr>
        | Some payload \<Rightarrow>
            let owner = sentry__value_from_json strtod payload;
                field = (\<lambda>v k. Some (sentry_value_as_string (sentry_value_get_by_key v k)))
            in Some \<lparr>ref_path = field owner ''path'', ref_location = field owner ''location'',
                     ref_content_type = field owner ''content_type'',
                     ref_attachment_type = field (item_headers item) ''attachment_type''\<rparr>)"

definition set_attachment_ref_payload ::
  "malloc \<Rightarrow> (double \<Rightarrow> string) \<Rightarrow> sentry_envelope_item_t \<Rightarrow> sentry_attachment_ref_t \<Rightarrow> bool \<times> sentry_envelope_item_t" where
  "set_attachment_ref_payload malloc fd item ref =
     (if \<not> attachment_ref_has_payload (Some ref) then (False, item)
      else case attachment_ref_payload_to_string malloc fd ref of
          None \<Rightarrow> (False, item)
        | Some payload \<Rightarrow>
            (True, sentry__envelope_item_set_header ''length'' (int32_of_len (length payload)) (item\<lparr>item_payload := Some payload\<rparr>)))"

definition sentry__envelope_item_resolve_attachment_ref ::
  "malloc \<Rightarrow> (double \<Rightarrow> string) \<Rightarrow> (string \<Rightarrow> double) \<Rightarrow> sentry_envelope_item_t \<Rightarrow> string option \<Rightarrow> bool \<times> sentry_envelope_item_t" where
  "sentry__envelope_item_resolve_attachment_ref malloc fd strtod item location =
     (if sentry__string_empty location then (False, item)
      else case sentry__envelope_item_get_attachment_ref strtod item of
          None \<Rightarrow> (False, item)
        | Some ref \<Rightarrow>
            let keep = (\<lambda>s. if \<not> sentry__string_empty s then s else None)
            in set_attachment_ref_payload malloc fd item
                 \<lparr>ref_path = keep (ref_path ref), ref_location = location, ref_content_type = keep (ref_content_type ref),
                  ref_attachment_type = keep (ref_attachment_type ref)\<rparr>)"

text \<open>The search for a content type: in the raw bytes, or among the headers.\<close>

definition raw_contains :: "string \<Rightarrow> string \<Rightarrow> bool" where
  "raw_contains payload needle =
     (if length payload < length needle \<or> length needle = 0 then False
      else list_ex (\<lambda>p. take (length needle) (drop p payload) = needle) [0..<length payload - length needle + 1])"

fun sentry__envelope_has_content_type :: "sentry_envelope_t option \<Rightarrow> string option \<Rightarrow> bool" where
  "sentry__envelope_has_content_type (Some (Raw payload)) (Some content_type) = raw_contains payload (cstr content_type)"
| "sentry__envelope_has_content_type (Some (Items h is)) (Some content_type) =
     list_ex (\<lambda>item. sentry_value_as_string (sentry_value_get_by_key (item_headers item) ''content_type'') = cstr content_type) is"
| "sentry__envelope_has_content_type _ _ = False"

section \<open>Writing to a file\<close>

text \<open>The loop over the items; \<open>item_writer\<close> says whether it has written the item elsewhere and may change \<open>data\<close>.
  The JSON writer and the calls on \<open>output\<close> share the writer.\<close>

fun write_items ::
  "(double \<Rightarrow> string) \<Rightarrow> 's sentry_writer_ops_t \<Rightarrow> (sentry_envelope_item_t \<Rightarrow> 'd \<Rightarrow> bool \<times> 'd)
     \<Rightarrow> sentry_envelope_item_t list \<Rightarrow> 's sentry_jsonwriter_t \<Rightarrow> 'd \<Rightarrow> 's sentry_jsonwriter_t \<times> 'd" where
  "write_items fd ops item_writer [] jw data = (jw, data)"
| "write_items fd ops item_writer (item # is) jw data =
     (case item_writer item data of
        (True, data) \<Rightarrow> write_items fd ops item_writer is jw data
      | (False, data) \<Rightarrow>
          let jw = jw\<lparr>jw_writer := fst (sentry__writer_write_char ops (jw_writer jw) CHR 0x0A)\<rparr>;
              jw = sentry__jsonwriter_reset (sentry__jsonwriter_write_value fd ops jw (item_headers item))
          in if sentry__jsonwriter_has_failed jw then (jw, data)
             else
               let output = fst (sentry__writer_write_char ops (jw_writer jw) CHR 0x0A);
                   output = fst (sentry__writer_write ops output (payload_bytes item));
                   jw = jw\<lparr>jw_writer := output\<rparr>
               in if sentry__writer_has_failed output then (jw, data) else write_items fd ops item_writer is jw data)"

text \<open>The result code, the writer and the data; a failure also removes the file.\<close>

definition envelope_write_with ::
  "(double \<Rightarrow> string) \<Rightarrow> 's sentry_writer_ops_t \<Rightarrow> 's sentry_writer_t \<Rightarrow> sentry_envelope_t
     \<Rightarrow> (sentry_envelope_item_t \<Rightarrow> 'd \<Rightarrow> bool \<times> 'd) \<Rightarrow> 'd \<Rightarrow> nat \<times> 's sentry_writer_t \<times> 'd" where
  "envelope_write_with fd ops output envelope item_writer data =
     (case envelope of
        Raw payload \<Rightarrow>
          (case sentry__writer_close ops (fst (sentry__writer_write ops output payload)) of
             (output, ok) \<Rightarrow> (if ok then 0 else 1, output, data))
      | Items h is \<Rightarrow>
          let jw = sentry__jsonwriter_reset (sentry__jsonwriter_write_value fd ops (jsonwriter_new output) h);
              (jw, data) = (if sentry__jsonwriter_has_failed jw then (jw, data) else write_items fd ops item_writer is jw data);
              (output, ok) = sentry__writer_close ops (jw_writer jw);
              jw = jw\<lparr>jw_writer := output\<rparr>
          in (if \<not> ok \<or> sentry__jsonwriter_has_failed jw then 1 else 0, output, data))"

text \<open>A file system: the files, which paths can be opened and unlinked, what the calls on each path do.\<close>

record file_system =
  fs_files :: "string \<Rightarrow> string option"
  fs_can_open :: "string \<Rightarrow> bool"
  fs_io :: "string \<Rightarrow> io_result list"
  fs_close :: "string \<Rightarrow> bool"
  fs_can_remove :: "string \<Rightarrow> bool"

text \<open>After a failed write the file is removed, which is only an attempt: what had been written stays when the file cannot be
  unlinked.\<close>

definition envelope_write_to_path ::
  "(double \<Rightarrow> string) \<Rightarrow> sentry_envelope_t \<Rightarrow> string \<Rightarrow> (sentry_envelope_item_t \<Rightarrow> nat \<times> 'f file_system_scheme \<Rightarrow> bool \<times> nat \<times> 'f file_system_scheme)
     \<Rightarrow> nat \<times> 'f file_system_scheme \<Rightarrow> nat \<times> nat \<times> 'f file_system_scheme" where
  "envelope_write_to_path fd envelope p item_writer data =
     (let fs = snd data in
      case sentry__filewriter_new (fs_io fs p) (fs_close fs p) (if fs_can_open fs p then Some [] else None) of
        None \<Rightarrow> (1, data)
      | Some fw \<Rightarrow>
          (case envelope_write_with fd unix_file_ops (writer_new (fw, True)) envelope item_writer data of
             (rv, output, (index, fs)) \<Rightarrow>
               (rv, index, fs\<lparr>fs_files := (fs_files fs)(p := if rv \<noteq> 0 \<and> fs_can_remove fs p then None else Some (fw_file (fst (w_state output))))\<rparr>)))"

definition sentry_envelope_write_to_path ::
  "(double \<Rightarrow> string) \<Rightarrow> sentry_envelope_t \<Rightarrow> string \<Rightarrow> 'f file_system_scheme \<Rightarrow> nat \<times> 'f file_system_scheme" where
  "sentry_envelope_write_to_path fd envelope p fs =
     (case envelope_write_to_path fd envelope p (\<lambda>item d. (False, d)) (0, fs) of (rv, _, fs) \<Rightarrow> (rv, fs))"

definition write_minidump ::
  "malloc \<Rightarrow> string \<Rightarrow> sentry_uuid_t \<Rightarrow> sentry_envelope_item_t \<Rightarrow> nat \<times> 'f file_system_scheme \<Rightarrow> bool \<times> nat \<times> 'f file_system_scheme" where
  "write_minidump malloc dir event_id item data =
     (let (index, fs) = data;
          header = (\<lambda>k. sentry_value_as_string (sentry_value_get_by_key (item_headers item) k))
      in if header ''attachment_type'' \<noteq> ''event.minidump'' \<or> payload_bytes item = [] \<or> header ''content_type'' = SENTRY_ATTACHMENT_REF_MIME
         then (False, data)
         else case sentry__uuid_as_filename malloc event_id
                (Some (if index = 0 then ''.dmp'' else take 15 (''-'' @ dec_str index @ ''.dmp''))) of
             None \<Rightarrow> (False, data)
           | Some filename \<Rightarrow>
               (case sentry__path_join_str malloc dir (cstr filename) of
                  None \<Rightarrow> (False, data)
                | Some p \<Rightarrow>
                    (case sentry__path_write_buffer (fs_io fs p) (if fs_can_open fs p then Some [] else None) (payload_bytes item) of
                       (rv, f) \<Rightarrow>
                         let fs = (case f of None \<Rightarrow> fs | Some c \<Rightarrow> fs\<lparr>fs_files := (fs_files fs)(p \<mapsto> c)\<rparr>)
                         in if rv \<noteq> 0 then (False, index, fs) else (True, index + 1, fs))))"

definition sentry__envelope_write_to_cache ::
  "malloc \<Rightarrow> (double \<Rightarrow> string) \<Rightarrow> (string \<Rightarrow> double) \<Rightarrow> sentry_uuid_t \<Rightarrow> sentry_envelope_t \<Rightarrow> string \<Rightarrow> 'f file_system_scheme \<Rightarrow> nat \<times> 'f file_system_scheme" where
  "sentry__envelope_write_to_cache malloc fd strtod new_id envelope cache_dir fs =
     (let event_id = sentry__envelope_get_event_id strtod (Some envelope);
          event_id = (if sentry_uuid_is_nil event_id then new_id else event_id)
      in case sentry__uuid_as_filename malloc event_id (Some ''.envelope'') of
           None \<Rightarrow> (1, fs)
         | Some filename \<Rightarrow>
             (case sentry__path_join_str malloc cache_dir (cstr filename) of
                None \<Rightarrow> (1, fs)
              | Some p \<Rightarrow>
                  if fs_files fs p \<noteq> None then (0, fs)
                  else case envelope_materialize malloc strtod (Some envelope) of
                      None \<Rightarrow> (1, fs)
                    | Some materialized \<Rightarrow>
                        (case envelope_write_to_path fd materialized p (write_minidump malloc cache_dir event_id) (0, fs) of
                           (rv, _, fs) \<Rightarrow> (rv, fs))))"

text \<open>Reading an envelope from a file.\<close>

definition parse_envelope_from_file :: "malloc \<Rightarrow> (string \<Rightarrow> double) \<Rightarrow> io_result list \<Rightarrow> string option \<Rightarrow> sentry_envelope_t option" where
  "parse_envelope_from_file malloc strtod os file =
     (case sentry__path_read_to_buffer malloc os file of
        None \<Rightarrow> None
      | Some buf \<Rightarrow> sentry_envelope_deserialize malloc strtod buf)"

section \<open>What a file holds\<close>

definition item_print :: "(double \<Rightarrow> string) \<Rightarrow> sentry_envelope_item_t \<Rightarrow> string" where
  "item_print fd item = CHR 0x0A # json_print fd 0 (item_headers item) @ CHR 0x0A # payload_bytes item"

fun envelope_print :: "(double \<Rightarrow> string) \<Rightarrow> sentry_envelope_t \<Rightarrow> string" where
  "envelope_print fd (Raw payload) = payload"
| "envelope_print fd (Items h is) = json_print fd 0 h @ concat (map (item_print fd) is)"

text \<open>The items that are left to the envelope, and the data at the end.\<close>

fun kept_items :: "(sentry_envelope_item_t \<Rightarrow> 'd \<Rightarrow> bool \<times> 'd) \<Rightarrow> sentry_envelope_item_t list \<Rightarrow> 'd \<Rightarrow> sentry_envelope_item_t list" where
  "kept_items f [] d = []"
| "kept_items f (i # is) d = (case f i d of (True, d) \<Rightarrow> kept_items f is d | (False, d) \<Rightarrow> i # kept_items f is d)"

fun shallow :: "sentry_envelope_t \<Rightarrow> bool" where
  "shallow (Raw _) = True"
| "shallow (Items h is) = (value_depth h < 2 ^ 32 \<and> list_all (\<lambda>i. value_depth (item_headers i) < 2 ^ 32) is)"

context sink
begin

text \<open>A JSON writer at the start of a value.\<close>

definition fresh_jw :: "'s sentry_jsonwriter_t \<Rightarrow> bool" where
  "fresh_jw jw \<longleftrightarrow> depth jw = 0 \<and> want_comma jw = 0 \<and> \<not> last_was_key jw \<and> wf (w_state (jw_writer jw))"

lemma writer_write_sticky:
  assumes "wf (w_state w)" "\<not> w_failed (fst (sentry__writer_write ops w bs))"
  shows "\<not> w_failed w" "view (w_state (fst (sentry__writer_write ops w bs))) = view (w_state w) @ bs"
proof -
  obtain w' ok where r: "sentry__writer_write ops w bs = (w', ok)" by (cases "sentry__writer_write ops w bs")
  with assms write_failed(2) [OF assms(1)] have "sentry__writer_write ops w bs = (w', True)" by (cases ok) auto
  from write_ok [OF assms(1) this] r show "\<not> w_failed w" "view (w_state (fst (sentry__writer_write ops w bs))) = view (w_state w) @ bs" by simp_all
qed

lemma writer_write_wf: "wf (w_state w) \<Longrightarrow> wf (w_state (fst (sentry__writer_write ops w bs)))"
  using write_ok(1) [of w bs] write_failed(1) [of w bs]
  by (cases "sentry__writer_write ops w bs") (metis (full_types) fst_conv)

lemma fresh_write:
  fixes fd
  assumes "fresh_jw jw" "value_depth v < 2 ^ 32"
  defines "jw' \<equiv> sentry__jsonwriter_reset (sentry__jsonwriter_write_value fd ops jw v)"
  shows "fresh_jw jw'" "\<not> failed jw' \<Longrightarrow> \<not> failed jw \<and> out jw' = out jw @ json_print fd 0 v"
proof -
  let ?j = "sentry__jsonwriter_write_value fd ops jw v"
  have w: "wf (w_state (jw_writer jw))" "unat (depth jw) = 0" "sep jw = []" using assms(1) by (simp_all add: fresh_jw_def sep_def)
  have "writes_item 0 (\<lambda>jw. sentry__jsonwriter_write_value fd ops jw v) (json_print fd 0 v)"
    by (rule write_value_item) (use assms(2) in simp)
  then have e: "emits jw ?j (json_print fd 0 v)" using w unfolding writes_item_def by force
  have r: "jw_writer jw' = jw_writer ?j" "failed jw' = failed ?j" "out jw' = out ?j"
    by (simp_all add: jw'_def sentry__jsonwriter_reset_def sentry__jsonwriter_has_failed_def out_def)
  show "fresh_jw jw'" using emitsD(1) [OF e w(1)] by (simp add: fresh_jw_def r(1)) (simp add: jw'_def sentry__jsonwriter_reset_def)
  show "\<not> failed jw' \<Longrightarrow> \<not> failed jw \<and> out jw' = out jw @ json_print fd 0 v" using emitsD(3,4) [OF e w(1)] r by simp
qed

lemma fresh_upd: "fresh_jw jw \<Longrightarrow> fresh_jw (jw\<lparr>jw_writer := fst (sentry__writer_write ops (jw_writer jw) bs)\<rparr>)"
  by (simp add: fresh_jw_def writer_write_wf)

lemma upd_failed:
  assumes "fresh_jw jw" "\<not> failed (jw\<lparr>jw_writer := fst (sentry__writer_write ops (jw_writer jw) bs)\<rparr>)"
  shows "\<not> failed jw \<and> out (jw\<lparr>jw_writer := fst (sentry__writer_write ops (jw_writer jw) bs)\<rparr>) = out jw @ bs"
  using assms writer_write_sticky [of "jw_writer jw" bs]
  by (simp add: fresh_jw_def sentry__jsonwriter_has_failed_def sentry__writer_has_failed_def out_def)

lemma write_items_out:
  "fresh_jw jw \<Longrightarrow> list_all (\<lambda>i. value_depth (item_headers i) < 2 ^ 32) is \<Longrightarrow>
     fresh_jw (fst (write_items fd ops f is jw d)) \<and>
     (\<not> failed (fst (write_items fd ops f is jw d)) \<longrightarrow>
        \<not> failed jw \<and> out (fst (write_items fd ops f is jw d)) = out jw @ concat (map (item_print fd) (kept_items f is d)))"
proof (induction "is" arbitrary: jw d)
  case (Cons i "is")
  obtain skip d' where f: "f i d = (skip, d')" by (cases "f i d")
  define jw1 where "jw1 = jw\<lparr>jw_writer := fst (sentry__writer_write ops (jw_writer jw) [CHR 0x0A])\<rparr>"
  define jw2 where "jw2 = sentry__jsonwriter_reset (sentry__jsonwriter_write_value fd ops jw1 (item_headers i))"
  define jw3 where "jw3 = jw2\<lparr>jw_writer := fst (sentry__writer_write ops (jw_writer jw2) [CHR 0x0A])\<rparr>"
  define jw4 where "jw4 = jw3\<lparr>jw_writer := fst (sentry__writer_write ops (jw_writer jw3) (payload_bytes i))\<rparr>"
  have j1: "fresh_jw jw1" unfolding jw1_def using Cons.prems(1) by (rule fresh_upd)
  have j2: "fresh_jw jw2" "\<not> failed jw2 \<Longrightarrow> \<not> failed jw1 \<and> out jw2 = out jw1 @ json_print fd 0 (item_headers i)"
    unfolding jw2_def using fresh_write [OF j1, of "item_headers i" fd] Cons.prems(2) by simp_all
  have j3: "fresh_jw jw3" unfolding jw3_def using j2(1) by (rule fresh_upd)
  have j4: "fresh_jw jw4" unfolding jw4_def using j3 by (rule fresh_upd)
  have all: "\<not> failed jw \<and> out jw4 = out jw @ item_print fd i" if "\<not> failed jw4"
  proof -
    have "\<not> failed jw3 \<and> out jw4 = out jw3 @ payload_bytes i" using upd_failed [OF j3] that unfolding jw4_def by blast
    moreover from this have "\<not> failed jw2 \<and> out jw3 = out jw2 @ [CHR 0x0A]" using upd_failed [OF j2(1)] unfolding jw3_def by blast
    moreover from this have "\<not> failed jw1 \<and> out jw2 = out jw1 @ json_print fd 0 (item_headers i)" using j2(2) by blast
    moreover from this have "\<not> failed jw \<and> out jw1 = out jw @ [CHR 0x0A]" using upd_failed [OF Cons.prems(1)] unfolding jw1_def by blast
    ultimately show ?thesis by (simp add: item_print_def)
  qed
  have step: "write_items fd ops f (i # is) jw d = (if skip then write_items fd ops f is jw d'
      else if failed jw2 then (jw2, d') else if sentry__writer_has_failed (jw_writer jw4) then (jw4, d') else write_items fd ops f is jw4 d')"
    using f by (cases skip) (simp_all add: Let_def sentry__writer_write_char_def jw1_def jw2_def jw3_def jw4_def)
  have w4: "failed jw4" if "sentry__writer_has_failed (jw_writer jw4)" using that by (simp add: sentry__jsonwriter_has_failed_def)
  have ih: "fresh_jw (fst (write_items fd ops f is j d')) \<and> (\<not> failed (fst (write_items fd ops f is j d')) \<longrightarrow>
      \<not> failed j \<and> out (fst (write_items fd ops f is j d')) = out j @ concat (map (item_print fd) (kept_items f is d')))"
    if "fresh_jw j" for j using Cons.IH [OF that] Cons.prems(2) by simp
  show ?case
  proof (cases skip)
    case True
    then show ?thesis using ih [OF Cons.prems(1)] f unfolding step by simp
  next
    case False
    then show ?thesis using ih [OF j4] all w4 j2(1) j4 f unfolding step by auto
  qed
qed simp

text \<open>A write that returns 0 has put exactly the text of the envelope, without the items written elsewhere, into the sink.\<close>

lemma envelope_write_out:
  assumes "wf (w_state w0)" "shallow e" "envelope_write_with fd ops w0 e f d = (0, w1, d')"
    and close: "\<And>st. wf st \<Longrightarrow> view (fst (op_close ops st)) = view st"
  shows "view (w_state w1) = view (w_state w0)
    @ (case e of Raw p \<Rightarrow> p | Items h is \<Rightarrow> envelope_print fd (Items h (kept_items f is d)))"
proof -
  have cl: "\<not> w_failed w \<and> view (w_state w') = view (w_state w)" if "sentry__writer_close ops w = (w', True)" "wf (w_state w)" for w w'
    using that close [OF that(2)] by (auto simp: sentry__writer_close_def Let_def split: prod.splits if_splits)
  show ?thesis
  proof (cases e)
    case (Raw p)
    then have "sentry__writer_close ops (fst (sentry__writer_write ops w0 p)) = (w1, True)"
      using assms(3) by (auto simp: envelope_write_with_def split: prod.splits if_splits)
    from cl [OF this writer_write_wf [OF assms(1)]] writer_write_sticky [OF assms(1), of p] Raw show ?thesis by simp
  next
    case (Items h "is")
    define jw1 where "jw1 = sentry__jsonwriter_reset (sentry__jsonwriter_write_value fd ops (jsonwriter_new w0) h)"
    define r where "r = (if failed jw1 then (jw1, d) else write_items fd ops f is jw1 d)"
    have n: "fresh_jw (jsonwriter_new w0)" "out (jsonwriter_new w0) = view (w_state w0)"
      using assms(1) by (simp_all add: fresh_jw_def jsonwriter_new_def out_def)
    have j1: "fresh_jw jw1" "\<not> failed jw1 \<Longrightarrow> out jw1 = view (w_state w0) @ json_print fd 0 h"
      unfolding jw1_def using fresh_write [OF n(1), of h fd] assms(2) Items n(2) by simp_all
    have items: "list_all (\<lambda>i. value_depth (item_headers i) < 2 ^ 32) is" using assms(2) Items by simp
    have r': "fresh_jw (fst r)" "\<not> failed (fst r) \<Longrightarrow> out (fst r) = view (w_state w0) @ envelope_print fd (Items h (kept_items f is d))"
      using write_items_out [OF j1(1) items, of fd f d] j1 by (auto simp: r_def)
    have "envelope_write_with fd ops w0 e f d =
        (case sentry__writer_close ops (jw_writer (fst r)) of (w, ok) \<Rightarrow> (if \<not> ok \<or> failed ((fst r)\<lparr>jw_writer := w\<rparr>) then 1 else 0, w, snd r))"
      by (simp add: envelope_write_with_def Items Let_def case_prod_beta r_def jw1_def)
    then have c: "sentry__writer_close ops (jw_writer (fst r)) = (w1, True)" "\<not> failed ((fst r)\<lparr>jw_writer := w1\<rparr>)"
      using assms(3) by (auto split: prod.splits if_splits)
    have "wf (w_state (jw_writer (fst r)))" using r'(1) by (simp add: fresh_jw_def)
    from cl [OF c(1) this] have "\<not> failed (fst r)" "view (w_state w1) = out (fst r)"
      using c(2) by (auto simp: sentry__jsonwriter_has_failed_def sentry__writer_has_failed_def out_def)
    then show ?thesis using r'(2) Items by simp
  qed
qed

end

lemma file_close_view: "(case fst (op_close unix_file_ops st) of (fw, own) \<Rightarrow> fw_file fw) = (case st of (fw, own) \<Rightarrow> fw_file fw)"
  by (cases st) (auto simp: file_writer_ops_def sentry__filewriter_close_def Let_def)

lemma kept_all: "kept_items (\<lambda>i d. (False, d)) is d = is"
  by (induction "is") simp_all

lemma write_to_path_spec:
  fixes fs :: "'f file_system_scheme"
  assumes "shallow e" and w: "sentry_envelope_write_to_path fd e p fs = (rv, fs1)"
  shows "\<exists>partial. fs1 = fs\<lparr>fs_files := (fs_files fs)(p := if rv = 0 then Some (envelope_print fd e) else if \<not> fs_can_open fs p then fs_files fs p
      else if fs_can_remove fs p then None else Some partial)\<rparr> \<and> rv \<le> 1"
proof (cases "fs_can_open fs p")
  case True
  let ?fw = "\<lparr>fw_byte_count = 0, fw_failed = False, fw_closed = False, fw_file = [], fw_os = fs_io fs p, fw_close_ok = fs_close fs p\<rparr>"
  obtain r w n fs' where r: "envelope_write_with fd unix_file_ops (writer_new (?fw, True)) e (\<lambda>item d. (False, d)) (0 :: nat, fs) = (r, w, n, fs')"
    by (metis prod_cases4)
  have d: "snd (write_items fd unix_file_ops (\<lambda>item d. (False, d)) is jw x) = x" for "is" jw and x :: "nat \<times> 'f file_system_scheme"
    by (induction "is" arbitrary: jw) (simp_all add: Let_def)
  have fs: "fs' = fs" "r \<le> 1" using r d by (cases e; auto simp: envelope_write_with_def Let_def split: prod.splits if_splits; metis snd_conv)+
  have "fw_file (fst (w_state w)) = envelope_print fd e" if "r = 0"
    using file_sink.envelope_write_out [where ?w0.0 = "writer_new (?fw, True)" and e = e and fd = fd and f = "\<lambda>item d. (False, d)" and d = "(0, fs)"
        and ?w1.0 = w and d' = "(n, fs')"] assms r that file_close_view
    by (cases e) (auto simp: writer_new_def kept_all case_prod_beta)
  with True r fs assms show ?thesis
    by (intro exI [of _ "fw_file (fst (w_state w))"])
      (auto simp: sentry_envelope_write_to_path_def envelope_write_to_path_def sentry__filewriter_new_def Let_def)
next
  case False
  then show ?thesis using w
    by (auto simp: sentry_envelope_write_to_path_def envelope_write_to_path_def sentry__filewriter_new_def Let_def)
qed



section \<open>What can be built can be read\<close>

text \<open>The operations that build and change an envelope, with the conditions on the data: values with distinct keys whose doubles are
  formatted as numbers, at most 62 levels deep, texts and payloads below 2 GiB.  \<open>step_owned_buffer\<close> is the common end of
  adding sessions, client reports and files; \<open>step_item_header\<close> sets a header of an item as the capture of a minidump does, and
  \<open>step_resolve\<close> rewrites the payload of an attachment reference when its upload has a location.\<close>

inductive envelope_step :: "malloc \<Rightarrow> (double \<Rightarrow> string) \<Rightarrow> sentry_envelope_t \<Rightarrow> sentry_envelope_t \<Rightarrow> bool"
  for malloc :: malloc and fd :: "double \<Rightarrow> string" where
  step_header: "json_safe fd v \<Longrightarrow> value_depth v < 63 \<Longrightarrow> CHR 0x00 \<notin> set k \<Longrightarrow> envelope_step malloc fd e (sentry__envelope_set_header e k v)"
| step_event: "scope_ok fd scope \<Longrightarrow> sendable fd (snd (sentry__ensure_event_id new_id event)) \<Longrightarrow>
     envelope_step malloc fd e (fst (sentry__envelope_add_event malloc fd new_id scope e event))"
| step_transaction: "scope_ok fd scope \<Longrightarrow> sendable fd (snd (sentry__ensure_event_id new_id tx)) \<Longrightarrow>
     envelope_step malloc fd e (fst (sentry__envelope_add_transaction malloc fd new_id scope now_iso e tx))"
| step_user_report: "sendable fd (snd (sentry__ensure_event_id new_id v)) \<Longrightarrow>
     envelope_step malloc fd e (fst (sentry__envelope_add_user_report malloc fd new_id e v))"
| step_feedback: "scope_ok fd scope \<Longrightarrow> sendable fd (snd (sentry__ensure_event_id new_id event)) \<Longrightarrow>
     envelope_step malloc fd e (fst (sentry__envelope_add_feedback_event malloc fd new_id scope e event))"
| step_logs: "sendable fd v \<Longrightarrow> envelope_step malloc fd e (fst (sentry__envelope_add_logs malloc fd e v))"
| step_metrics: "sendable fd v \<Longrightarrow> envelope_step malloc fd e (fst (sentry__envelope_add_metrics malloc fd e v))"
| step_buffer: "length b < 2 ^ 31 \<Longrightarrow> cstr type \<notin> {''event'', ''transaction''} \<Longrightarrow>
     envelope_step malloc fd e (fst (sentry__envelope_add_from_buffer malloc e (Some b) type))"
| step_attachment: "(\<And>b. att_buf a = Some b \<Longrightarrow> length b < 2 ^ 31) \<Longrightarrow> (\<And>p b. read p = Some b \<Longrightarrow> length b < 2 ^ 31) \<Longrightarrow>
     envelope_step malloc fd e (fst (sentry__envelope_add_attachment malloc read e a))"
| step_attachment_ref: "(\<And>r p. ref = Some r \<Longrightarrow> attachment_ref_payload_to_string malloc fd r = Some p \<Longrightarrow> length p < 2 ^ 31) \<Longrightarrow>
     envelope_step malloc fd e (fst (sentry__envelope_add_attachment_ref malloc fd e ref f t n))"
| step_owned_buffer: "length b < 2 ^ 31 \<Longrightarrow> cstr type \<notin> {''event'', ''transaction''} \<Longrightarrow>
     envelope_step malloc fd e (fst (envelope_add_from_owned_buffer e (Some b) type))"
| step_item_header: "json_safe fd v \<Longrightarrow> value_depth v < 63 \<Longrightarrow> CHR 0x00 \<notin> set k \<Longrightarrow> k \<notin> {''type'', ''length''} \<Longrightarrow>
     envelope_step malloc fd e (on_item n (sentry__envelope_item_set_header k v) e)"
| step_resolve: "sentry__envelope_get_item e n = Some item \<Longrightarrow> item_type item \<notin> {''event'', ''transaction''} \<Longrightarrow>
     (\<And>r p. attachment_ref_payload_to_string malloc fd r = Some p \<Longrightarrow> ref_location r = location \<Longrightarrow> length p < 2 ^ 31) \<Longrightarrow>
     envelope_step malloc fd e (on_item n (\<lambda>i. snd (sentry__envelope_item_resolve_attachment_ref malloc fd strtod i location)) e)"
| step_remove: "sentry__envelope_remove_item (Some e) i = (r, Some e') \<Longrightarrow> envelope_step malloc fd e e'"

lemma remove_item_ok: "envelope_ok fd e \<Longrightarrow> sentry__envelope_remove_item (Some e) i = (r, Some e') \<Longrightarrow> envelope_ok fd e'"
  by (cases e; cases i) (auto simp: list_all_iff split: if_splits, (blast dest: in_set_takeD in_set_dropD)+)

lemma resolve_readable:
  assumes "readable_item fd item" "item_type item \<notin> {''event'', ''transaction''}"
    and "\<And>r p. attachment_ref_payload_to_string malloc fd r = Some p \<Longrightarrow> ref_location r = location \<Longrightarrow> length p < 2 ^ 31"
  shows "readable_item fd (snd (sentry__envelope_item_resolve_attachment_ref malloc fd strtod item location))"
proof -
  have "readable_item fd (sentry__envelope_item_set_header ''length'' (int32_of_len (length p)) (item\<lparr>item_payload := Some p\<rparr>))"
    if "length p < 2 ^ 31" for p
    using assms(1,2) that by (intro readable_item_payload) (auto simp: readable_item_def)
  then show ?thesis using assms(1,3)
    by (auto simp: sentry__envelope_item_resolve_attachment_ref_def set_attachment_ref_payload_def Let_def split: option.splits)
qed

lemma telemetry_types: "cstr ''log'' \<notin> {''event'', ''transaction''}" "cstr ''trace_metric'' \<notin> {''event'', ''transaction''}"
    "cstr ''user_report'' \<notin> {''event'', ''transaction''}"
  by (simp_all add: cstr_def)

lemma envelope_step_ok:
  assumes "envelope_step malloc fd e e'" "malloc_sized malloc" "envelope_ok fd e"
  shows "envelope_ok fd e'"
  using assms(1)
proof (cases rule: envelope_step.cases)
  case step_header
  then show ?thesis using assms(3) by (simp add: envelope_header_ok)
next
  case (step_user_report new_id v)
  then show ?thesis using add_with_id_ok [OF assms(3,2), of new_id v "''user_report''" False] telemetry_types(3)
    by (simp add: sentry__envelope_add_user_report_def)
next
  case step_buffer
  then show ?thesis using assms(3) by (auto intro: add_buffer_ok)
next
  case step_attachment
  then show ?thesis using add_attachment_ok [OF assms(3)] by blast
next
  case step_attachment_ref
  then show ?thesis using add_attachment_ref_ok [OF assms(3)] by blast
next
  case step_owned_buffer
  then show ?thesis using assms(3) by (auto intro: add_owned_ok)
next
  case step_item_header
  then show ?thesis using assms(3) by (auto intro: on_readable readable_item_header)
next
  case (step_resolve n item location strtod)
  then obtain h "is" where e: "e = Items h is" "n < length is" "item = is ! n" by (cases e) (auto split: if_splits)
  then have "readable_item fd (is ! n)" using assms(3) by (simp add: list_all_length)
  then have "readable_item fd (snd (sentry__envelope_item_resolve_attachment_ref malloc fd strtod (is ! n) location))"
    using step_resolve e by (intro resolve_readable) auto
  then show ?thesis using step_resolve(1) e assms(3) by (auto simp: list_all_iff dest!: set_update_subset_insert [THEN subsetD])
next
  case step_remove
  then show ?thesis using assms(3) remove_item_ok by blast
qed (use assms(2,3) telemetry_types in \<open>simp_all add: add_event_ok add_transaction_ok add_feedback_ok add_buffer_ok add_telemetry_ok
    sentry__envelope_add_logs_def sentry__envelope_add_metrics_def\<close>)

text \<open>C9. Every envelope that the operations of \<open>envelope_step\<close> build from a new one, out of values that JSON can carry, at most 62 levels
  deep, and payloads below 2 GiB, is well formed: its headers and those of its
  items are unfrozen objects that JSON can carry, the length header of every item is the length of its payload, and an
  item of type event or transaction has the text of its event as its payload.\<close>

theorem envelope_well_formed:
  assumes "malloc_sized malloc" "(envelope_step malloc fd)\<^sup>*\<^sup>* (sentry__envelope_new_with_dsn dsn) e"
  shows "envelope_ok fd e"
  using assms(2) by (induction rule: rtranclp_induct) (auto simp: new_with_dsn_ok intro: envelope_step_ok [OF _ assms(1)])

theorem envelope_well_formed_witness:
  "envelope_ok (\<lambda>_. ''0'') (fst (sentry__envelope_add_from_buffer (\<lambda>n. Some (replicate n CHR ''?'')) (sentry__envelope_new_with_dsn None) (Some ''abc'') ''attachment''))"
proof (rule envelope_well_formed [of "\<lambda>n. Some (replicate n CHR ''?'')" "\<lambda>_. ''0''" None])
  show "malloc_sized (\<lambda>n. Some (replicate n CHR ''?''))" by (simp add: malloc_sized_def)
  show "(envelope_step (\<lambda>n. Some (replicate n CHR ''?'')) (\<lambda>_. ''0''))\<^sup>*\<^sup>* (sentry__envelope_new_with_dsn None)
      (fst (sentry__envelope_add_from_buffer (\<lambda>n. Some (replicate n CHR ''?'')) (sentry__envelope_new_with_dsn None) (Some ''abc'') ''attachment''))"
    by (rule r_into_rtranclp, rule step_buffer) (simp_all add: cstr_def)
qed

text \<open>C2. A well-formed envelope survives storage: \<open>sentry_envelope_serialize\<close> gives its text, and
  \<open>sentry_envelope_deserialize\<close> of that text gives the envelope back: the same headers and payloads in the same order, the
  events and transactions parsed again, integers in their narrowest type and doubles as their text
  denotes them.\<close>

theorem envelope_roundtrip:
  assumes "malloc_sized malloc" "\<forall>n. malloc n \<noteq> None" "envelope_ok fd e" "length (envelope_text fd e) < SIZE_MAX"
  shows "\<exists>b n. sentry_envelope_serialize malloc fd e = (Some b, n) \<and> sentry_envelope_deserialize malloc strtod (take n b) = Some (stored fd strtod e)"
proof (cases e)
  case (Items h "is")
  then have "header_ok fd h" "\<forall>i \<in> set is. header_ok fd (item_headers i)" using assms(3) by (auto simp: list_all_iff readable_item_def)
  from serialize_text [OF this assms(1,2)] assms(4) Items obtain b where
    "sentry_envelope_serialize malloc fd e = (Some b, length (envelope_text fd e))" "take (length (envelope_text fd e)) b = envelope_text fd e" by metis
  then show ?thesis using deserialize_stored [OF assms(2,3), of strtod] by auto
qed (use assms in simp)

text \<open>A small envelope for the witnesses: a double in its headers and one attachment.\<close>

definition demo_header :: sentry_value where
  "demo_header = VObject False [(''sample_rate'', VDouble 0x3FE0000000000000)]"

definition demo_item :: sentry_envelope_item_t where
  "demo_item = \<lparr>item_headers = VObject False [(''type'', VString ''attachment''), (''length'', VInt32 3)], item_event = VNull, item_payload = Some ''abc''\<rparr>"

lemma demo_item_ok: "readable_item fd demo_item"
  by (simp add: demo_item_def readable_item_def header_ok_def length_ok_def keys_ok_def cstr_def)

lemma demo_envelope_ok: "envelope_ok (\<lambda>_. ''0.5'') (Items demo_header [demo_item])"
  using demo_item_ok half_text by (simp add: demo_header_def header_ok_def keys_ok_def)

lemma demo_text: "length (envelope_text (\<lambda>_. ''0.5'') (Items demo_header [demo_item])) < SIZE_MAX"
  using half_text
  by (simp add: demo_header_def demo_item_def item_text_def SIZE_MAX_def quoted_def escape_def needs_escaping_iff int_str_def dec_str.simps)

theorem envelope_roundtrip_witness:
  "\<exists>b n. sentry_envelope_serialize (\<lambda>n. Some (replicate n CHR ''?'')) (\<lambda>_. ''0.5'') (Items demo_header [demo_item]) = (Some b, n)
     \<and> sentry_envelope_deserialize (\<lambda>n. Some (replicate n CHR ''?'')) (\<lambda>_. 0x3FE0000000000000) (take n b) = Some (Items demo_header [demo_item])"
proof -
  have "stored (\<lambda>_. ''0.5'') (\<lambda>_. 0x3FE0000000000000) (Items demo_header [demo_item]) = Items demo_header [demo_item]"
    using half_reread by (simp add: demo_header_def stored_item_def demo_item_def cstr_def del: reread.simps(3))
  then show ?thesis
    using envelope_roundtrip [of "\<lambda>n. Some (replicate n CHR ''?'')" "\<lambda>_. ''0.5''" "Items demo_header [demo_item]" "\<lambda>_. 0x3FE0000000000000"]
      demo_envelope_ok demo_text by (simp add: malloc_sized_def)
qed

text \<open>C18. An envelope file that was cut off inside the payload of its last item is rejected as a whole: when the item says how long
  its payload is, no text that ends before that many bytes is read as an envelope.\<close>

theorem envelope_truncation_rejected:
  assumes "\<forall>n. malloc n \<noteq> None" "envelope_ok fd (Items h (is @ [i]))" "sentry_value_get_by_key (item_headers i) ''length'' \<noteq> VNull"
    and "0 < k" "k \<le> length (payload_bytes i)"
  shows "sentry_envelope_deserialize malloc strtod
    (take (length (envelope_text fd (Items h (is @ [i]))) - k) (envelope_text fd (Items h (is @ [i])))) = None"
proof -
  let ?p = "payload_bytes i" and ?t = "envelope_text fd (Items h is) @ CHR 0x0A # json_text fd (item_headers i) @ [CHR 0x0A]"
  have t: "envelope_text fd (Items h (is @ [i])) = ?t @ ?p" by (simp add: item_text_def)
  have "take (length (a @ ?p) - k) (a @ ?p) = a @ take (length ?p - k) ?p" for a using assms(5) by simp
  from this [of ?t] have "take (length (?t @ ?p) - k) (?t @ ?p) = ?t @ take (length ?p - k) ?p" .
  with deserialize_truncated [OF assms(1-3), of "length ?p - k" strtod] assms(4,5) show ?thesis unfolding t by simp
qed

theorem envelope_truncation_rejected_witness:
  "sentry_envelope_deserialize (\<lambda>n. Some (replicate n CHR ''?'')) (\<lambda>_. 0)
     (let t = envelope_text (\<lambda>_. ''0.5'') (Items demo_header [demo_item]) in take (length t - 1) t) = None"
  using envelope_truncation_rejected [of "\<lambda>n. Some (replicate n CHR ''?'')" "\<lambda>_. ''0.5''" demo_header "[]" demo_item 1 "\<lambda>_. 0"] demo_envelope_ok
  by (simp add: demo_item_def Let_def)

section \<open>Rate limits and the accounting of dropped items\<close>

definition held_back :: "u64 \<Rightarrow> sentry_rate_limiter_t option \<Rightarrow> sentry_envelope_item_t \<Rightarrow> bool" where
  "held_back now rl item = (case envelope_item_get_ratelimiter_category item of None \<Rightarrow> False | Some category \<Rightarrow> limited now rl category)"

text \<open>The number of items of a data category that pass a test of their position and contents, and the items that pass the limiter.\<close>

definition items_at :: "(nat \<Rightarrow> sentry_envelope_item_t \<Rightarrow> bool) \<Rightarrow> nat \<Rightarrow> sentry_envelope_item_t list \<Rightarrow> sentry_data_category_t \<Rightarrow> nat" where
  "items_at P j is category = length (filter (\<lambda>(n, i). P n i \<and> item_type_to_data_category (item_type i) = category) (enumerate j is))"

lemma items_at_simps [simp]:
  "items_at P j [] c = 0"
  "items_at P j (i # is) c = of_bool (P j i \<and> item_type_to_data_category (item_type i) = c) + items_at P (Suc j) is c"
  by (simp_all add: items_at_def)

definition passed_items :: "(nat \<Rightarrow> u64) \<Rightarrow> sentry_rate_limiter_t option \<Rightarrow> nat \<Rightarrow> sentry_envelope_item_t list \<Rightarrow> sentry_envelope_item_t list" where
  "passed_items clock rl j is = map snd (filter (\<lambda>(n, i). \<not> held_back (clock n) rl i) (enumerate j is))"

lemma passed_items_simps [simp]:
  "passed_items clock rl j [] = []"
  "passed_items clock rl j (i # is) = (if held_back (clock j) rl i then [] else [i]) @ passed_items clock rl (Suc j) is"
  by (simp_all add: passed_items_def)

definition add_counts :: "discard_counts \<Rightarrow> sentry_discard_reason_t \<Rightarrow> (sentry_data_category_t \<Rightarrow> nat) \<Rightarrow> discard_counts" where
  "add_counts g reason n = (\<lambda>(r, c). g (r, c) + (if r = reason then word_of_nat (n c) else 0))"

lemma add_counts_0 [simp]: "add_counts g reason (\<lambda>_. 0) = g"
  by (auto simp: add_counts_def)

lemma add_counts_Cons:
  "add_counts g reason (items_at P j (i # is)) = add_counts
     (if P j i then sentry__client_report_discard (reason, item_type_to_data_category (item_type i)) 1 g else g) reason (items_at P (Suc j) is)"
  by (auto simp: add_counts_def sentry__client_report_discard_def fun_eq_iff)

lemma ratelimited_loop_spec:
  assumes "\<forall>i \<in> set is. header_ok fd (item_headers i)" "roomy malloc sb (length (concat (map (item_text fd) (passed_items clock rl j is))))"
  shows "\<exists>sb'. ratelimited_loop malloc fd clock rl j is sb n g =
      (sb', n + length (passed_items clock rl j is), add_counts g SENTRY_DISCARD_REASON_RATELIMIT_BACKOFF (items_at (\<lambda>j. held_back (clock j) rl) j is))
    \<and> extended sb (concat (map (item_text fd) (passed_items clock rl j is))) sb'"
  using assms
proof (induction "is" arbitrary: sb n g j)
  case Nil
  then show ?case by (simp add: extended_def roomy_def)
next
  case (Cons i "is")
  show ?case
  proof (cases "held_back (clock j) rl i")
    case True
    then show ?thesis using Cons.IH [of sb "Suc j" n] Cons.prems by (simp add: held_back_def [symmetric] add_counts_Cons del: items_at_simps)
  next
    case False
    let ?sb = "sentry__envelope_serialize_item_into_stringbuilder malloc fd i sb"
    have e: "extended sb (item_text fd i) ?sb"
      by (rule serialize_item_extends) (use Cons.prems False in \<open>auto elim: roomy_mono\<close>)
    have "roomy malloc ?sb (length (concat (map (item_text fd) (passed_items clock rl (Suc j) is))))"
      by (rule roomy_step [OF e]) (use Cons.prems(2) False in simp)
    with Cons.IH [of ?sb "Suc j" "n + 1" g] Cons.prems(1) obtain sb' where "ratelimited_loop malloc fd clock rl (Suc j) is ?sb (n + 1) g =
        (sb', n + 1 + length (passed_items clock rl (Suc j) is),
         add_counts g SENTRY_DISCARD_REASON_RATELIMIT_BACKOFF (items_at (\<lambda>j. held_back (clock j) rl) (Suc j) is))"
      "extended ?sb (concat (map (item_text fd) (passed_items clock rl (Suc j) is))) sb'" by auto
    then show ?thesis using False extended_trans [OF e] by (auto simp: held_back_def [symmetric] add_counts_Cons simp del: items_at_simps)
  qed
qed

lemma kept_text_le: "length (concat (map (item_text fd) (passed_items clock rl j is))) \<le> length (concat (map (item_text fd) is))"
  by (induction "is" arbitrary: j) (auto intro: le_SucI trans_le_add2)

lemma serialize_ratelimited_spec:
  fixes clock rl
  assumes "malloc_sized malloc" "\<forall>n. malloc n \<noteq> None" "envelope_ok fd (Items h is)" "length (envelope_text fd (Items h is)) < SIZE_MAX"
  defines "kept \<equiv> passed_items clock rl 0 is"
  shows "case sentry_envelope_serialize_ratelimited malloc fd clock (Items h is) rl g of ((text, n, owned), g') \<Rightarrow>
    map_option (take n) text = (if kept = [] then None else Some (envelope_text fd (Items h kept)))
    \<and> g' = add_counts g SENTRY_DISCARD_REASON_RATELIMIT_BACKOFF (items_at (\<lambda>j. held_back (clock j) rl) 0 is)"
proof -
  let ?sb = "sentry__envelope_serialize_headers_into_stringbuilder malloc fd h sentry__stringbuilder_init" and ?t = "concat (map (item_text fd) kept)"
  have ok: "header_ok fd h" "\<forall>i \<in> set is. header_ok fd (item_headers i)" using assms(3) by (auto simp: list_all_iff readable_item_def)
  have l: "length (json_text fd h) + length ?t < SIZE_MAX" using assms(4) kept_text_le [of fd clock rl 0 "is"] unfolding kept_def by simp
  have e: "extended sentry__stringbuilder_init (json_text fd h) ?sb"
    unfolding sentry__envelope_serialize_headers_into_stringbuilder_def
    by (rule write_json_extends) (use ok(1) l assms(1,2) in \<open>auto simp: header_ok_def roomy_def\<close>)
  have "roomy malloc ?sb (length ?t)" by (rule roomy_step [OF e]) (use l assms(1,2) in \<open>simp add: roomy_def\<close>)
  from ratelimited_loop_spec [OF ok(2) this [unfolded kept_def], of 0 g] obtain sb' where
    r: "ratelimited_loop malloc fd clock rl 0 is ?sb 0 g
      = (sb', length kept, add_counts g SENTRY_DISCARD_REASON_RATELIMIT_BACKOFF (items_at (\<lambda>j. held_back (clock j) rl) 0 is))"
    and e': "extended ?sb ?t sb'" by (auto simp: kept_def)
  have s: "sb_wf sb'" "sb_view sb' = envelope_text fd (Items h kept)" using extended_trans [OF e e'] by (simp_all add: extended_def)
  from into_string_block [OF s(1) assms(1,2)] obtain b where "sentry__stringbuilder_into_string malloc sb' = Some b" "take (sb_len sb') b = sb_view sb'" by blast
  with r s(2) show ?thesis by simp
qed

text \<open>C19. Serialisation under rate limits sends exactly the items that are not held back, each at the time the limiter reads for it: the
  text is that of the envelope with only those items (none at all when every item is held back), and each item held back is
  counted once as dropped by the rate limit, in its data category.  Client reports are never held back.\<close>

theorem envelope_ratelimited:
  fixes clock rl
  assumes "malloc_sized malloc" "\<forall>n. malloc n \<noteq> None" "envelope_ok fd (Items h is)" "length (envelope_text fd (Items h is)) < SIZE_MAX"
  defines "kept \<equiv> passed_items clock rl 0 is"
  shows "case sentry_envelope_serialize_ratelimited malloc fd clock (Items h is) rl g of ((text, n, owned), g') \<Rightarrow>
    map_option (take n) text = (if kept = [] then None else Some (envelope_text fd (Items h kept)))
    \<and> g' = add_counts g SENTRY_DISCARD_REASON_RATELIMIT_BACKOFF (items_at (\<lambda>j. held_back (clock j) rl) 0 is)"
  unfolding kept_def using assms(1-4) by (rule serialize_ratelimited_spec)

theorem envelope_ratelimited_witness:
  "case sentry_envelope_serialize_ratelimited (\<lambda>n. Some (replicate n CHR ''?'')) (\<lambda>_. ''0.5'') (\<lambda>_. 7) (Items demo_header [demo_item])
      (Some \<lparr>disabled_until = [0, 9, 0, 0, 0]\<rparr>) (\<lambda>_. 0) of ((text, n, owned), g') \<Rightarrow>
    map_option (take n) text = None \<and> g' (SENTRY_DISCARD_REASON_RATELIMIT_BACKOFF, SENTRY_DATA_CATEGORY_ATTACHMENT) = 1"
proof -
  let ?rl = "Some \<lparr>disabled_until = [0, 9, 0, 0, 0]\<rparr>"
  have "held_back 7 ?rl demo_item" "items_at (\<lambda>_. held_back 7 ?rl) 0 [demo_item] SENTRY_DATA_CATEGORY_ATTACHMENT = 1"
    by (simp_all add: held_back_def demo_item_def envelope_item_get_ratelimiter_category_def item_type_to_data_category_def cstr_def
        limited_def sentry__rate_limiter_is_disabled_def)
  then show ?thesis
    using envelope_ratelimited [of "\<lambda>n. Some (replicate n CHR ''?'')" "\<lambda>_. ''0.5''" demo_header "[demo_item]" "\<lambda>_. 7" ?rl "\<lambda>_. 0"] demo_envelope_ok demo_text
    by (simp add: malloc_sized_def add_counts_def case_prod_beta del: sentry_envelope_serialize_ratelimited.simps items_at_simps)
qed

text \<open>The items that take part in the accounting: all but client reports.\<close>

definition accounted :: "sentry_envelope_item_t \<Rightarrow> bool" where
  "accounted item \<longleftrightarrow> envelope_item_get_ratelimiter_category item \<noteq> None"

lemma discard_items_spec:
  "discard_items clock reason rl j is g = add_counts g reason (items_at (\<lambda>n i. accounted i \<and> \<not> held_back (clock n) rl i) j is)"
proof (induction "is" arbitrary: g j)
  case (Cons i "is")
  have "discard_item (clock j) reason rl g i =
      (if accounted i \<and> \<not> held_back (clock j) rl i then sentry__client_report_discard (reason, item_type_to_data_category (item_type i)) 1 g else g)"
    by (auto simp: discard_item_def accounted_def held_back_def split: option.splits)
  with Cons show ?case by (auto simp: add_counts_def sentry__client_report_discard_def fun_eq_iff)
qed (simp add: add_counts_def fun_eq_iff)

text \<open>C14. The accounting of an envelope that is serialised under rate limits and later dropped for another reason, with the limiter
  as it is at that later time and the clock as it is read for each item: in every category the two counters grow together by the
  number of its items, client reports apart, plus those that were held back but are no longer limited when the envelope is dropped
  (they are counted for both reasons), less those that were sent and are limited by then (they are taken for held back and not
  counted).  So every item is counted exactly once when no limit begins or ends in between.\<close>

theorem envelope_items_accounted:
  fixes clock clock' rl rl' malloc fd g
  assumes "malloc_sized malloc" "\<forall>n. malloc n \<noteq> None" "envelope_ok fd (Items h is)" "length (envelope_text fd (Items h is)) < SIZE_MAX"
    and "reason \<noteq> SENTRY_DISCARD_REASON_RATELIMIT_BACKOFF"
  defines "g' \<equiv> sentry__envelope_discard clock' (Items h is) reason rl' (snd (sentry_envelope_serialize_ratelimited malloc fd clock (Items h is) rl g))"
  shows "g' (SENTRY_DISCARD_REASON_RATELIMIT_BACKOFF, c) + g' (reason, c)
      + word_of_nat (items_at (\<lambda>j i. \<not> held_back (clock j) rl i \<and> held_back (clock' j) rl' i) 0 is c)
    = g (SENTRY_DISCARD_REASON_RATELIMIT_BACKOFF, c) + g (reason, c) + word_of_nat (items_at (\<lambda>_. accounted) 0 is c)
      + word_of_nat (items_at (\<lambda>j i. held_back (clock j) rl i \<and> \<not> held_back (clock' j) rl' i) 0 is c)"
proof -
  have "snd (sentry_envelope_serialize_ratelimited malloc fd clock (Items h is) rl g)
      = add_counts g SENTRY_DISCARD_REASON_RATELIMIT_BACKOFF (items_at (\<lambda>j. held_back (clock j) rl) 0 is)"
    using serialize_ratelimited_spec [OF assms(1-4), where clock = clock and rl = rl and g = g] by (auto split: prod.splits)
  then have g': "g' = add_counts (add_counts g SENTRY_DISCARD_REASON_RATELIMIT_BACKOFF (items_at (\<lambda>j. held_back (clock j) rl) 0 is)) reason
      (items_at (\<lambda>n i. accounted i \<and> \<not> held_back (clock' n) rl' i) 0 is)" by (simp add: g'_def discard_items_spec)
  have ac: "held_back t r i \<Longrightarrow> accounted i" for t r i by (auto simp: held_back_def accounted_def split: option.splits)
  have "items_at (\<lambda>j. held_back (clock j) rl) j is c + items_at (\<lambda>n i. accounted i \<and> \<not> held_back (clock' n) rl' i) j is c
      + items_at (\<lambda>j i. \<not> held_back (clock j) rl i \<and> held_back (clock' j) rl' i) j is c
    = items_at (\<lambda>_. accounted) j is c + items_at (\<lambda>j i. held_back (clock j) rl i \<and> \<not> held_back (clock' j) rl' i) j is c" for j
  proof (induction "is" arbitrary: j)
    case (Cons i "is")
    from Cons [of "Suc j"] ac [of "clock j" rl i] ac [of "clock' j" rl' i] show ?case by (auto simp: of_bool_def)
  qed simp
  from arg_cong [OF this [of 0], of "word_of_nat :: nat \<Rightarrow> i64"] show ?thesis using assms(5) by (simp add: g' add_counts_def algebra_simps)
qed

theorem envelope_items_accounted_witness:
  "let g' = sentry__envelope_discard (\<lambda>_. 9) (Items demo_header [demo_item]) SENTRY_DISCARD_REASON_SEND_ERROR None
       (snd (sentry_envelope_serialize_ratelimited (\<lambda>n. Some (replicate n CHR ''?'')) (\<lambda>_. ''0.5'') (\<lambda>_. 7) (Items demo_header [demo_item]) None (\<lambda>_. 0)))
   in g' (SENTRY_DISCARD_REASON_RATELIMIT_BACKOFF, SENTRY_DATA_CATEGORY_ATTACHMENT) + g' (SENTRY_DISCARD_REASON_SEND_ERROR, SENTRY_DATA_CATEGORY_ATTACHMENT) = 1"
proof -
  have "items_at (\<lambda>_. accounted) 0 [demo_item] SENTRY_DATA_CATEGORY_ATTACHMENT = 1" "\<not> held_back t None demo_item" for t
    by (simp_all add: accounted_def held_back_def demo_item_def envelope_item_get_ratelimiter_category_def item_type_to_data_category_def cstr_def
        limited_def)
  then show ?thesis
    using envelope_items_accounted [of "\<lambda>n. Some (replicate n CHR ''?'')" "\<lambda>_. ''0.5''" demo_header "[demo_item]" SENTRY_DISCARD_REASON_SEND_ERROR
        "\<lambda>_. 9" None "\<lambda>_. 7" None "\<lambda>_. 0" SENTRY_DATA_CATEGORY_ATTACHMENT] demo_envelope_ok demo_text
    by (simp add: malloc_sized_def)
qed

section \<open>A length header that wraps\<close>

text \<open>The length header is written through \<open>int32_t\<close>: of a payload of 2 GiB and more (and below 4 GiB) it is negative, and the reader
  rejects the envelope.\<close>

lemma length_header_wraps:
  assumes "2 ^ 31 \<le> n" "n < 2 ^ 32" "header_ok fd h"
  shows "item_payload_len (set_key ''length'' (int32_of_len n) h) r = None"
proof -
  have w: "word_of_nat n = (word_of_int (int n - 2 ^ 32) :: 32 word)" by simp
  have i: "2 ^ 31 \<le> int n" "int n < 2 ^ 32"
    using assms(1,2) by (metis of_nat_le_iff of_nat_numeral of_nat_power, metis of_nat_less_iff of_nat_numeral of_nat_power)
  then have "- (2 ^ 31) \<le> int n - 2 ^ 32" "int n - 2 ^ 32 < 2 ^ 31" by simp_all
  then have "sint (word_of_nat n :: 32 word) = int n - 2 ^ 32" unfolding w by (rule sint_of_int)
  moreover have "sint (scast (word_of_nat n :: 32 word) :: i64) = sint (word_of_nat n :: 32 word)" by (simp add: sint_up_scast is_up)
  ultimately have "sint (scast (word_of_nat n :: 32 word) :: i64) < 0" using i(2) by simp
  then show ?thesis using assms(3) by (simp add: item_payload_len_def set_key_get sentry_value_is_null_def)
qed

end
