(* ===== verification/Disk.thy ===== *)
theory Disk
  imports EnvelopeOps
begin

text \<open>
  The operations of \<open>path/sentry_path.c\<close> and \<open>path/sentry_path_unix.c\<close> that change or list directories.  The record
  extends the file system of the envelope writer: \<open>fs_files\<close> are the regular files with their contents, \<open>fs_readdir\<close> lists
  the names in a directory for given files, in any order the operating system likes, and the other fields say which calls
  the operating system lets succeed.  The directories that exist are \<open>fs_is_dir\<close>.
\<close>

datatype mkdir_result = Mkdir_ok | Mkdir_exists | Mkdir_failed

datatype copy_result = Copied | Copy_not_opened | Copied_part nat

record disk = file_system +
  fs_readdir :: "(string \<Rightarrow> string option) \<Rightarrow> string \<Rightarrow> string list"
  fs_is_dir :: "string \<Rightarrow> bool"
  fs_is_symlink :: "string \<Rightarrow> bool"
  fs_mtime :: "string \<Rightarrow> int"
  fs_can_rename :: "string \<Rightarrow> string \<Rightarrow> bool"
  fs_mkdir :: "string \<Rightarrow> mkdir_result"
  fs_copy :: "string \<Rightarrow> string \<Rightarrow> copy_result"

abbreviation is_slash :: "char \<Rightarrow> bool" where
  "is_slash c \<equiv> c = CHR ''/''"

text \<open>\<open>dirname\<close> of POSIX.\<close>

definition strip_last :: "(char \<Rightarrow> bool) \<Rightarrow> string \<Rightarrow> string" where
  "strip_last P s = rev (dropWhile P (rev s))"

definition dirname :: "string \<Rightarrow> string" where
  "dirname p =
     (let q = strip_last is_slash p in
      if p = [] then ''.''
      else if q = [] then ''/''
      else if CHR ''/'' \<notin> set q then ''.''
      else let d = strip_last is_slash (strip_last (\<lambda>c. \<not> is_slash c) q)
           in if d = [] then ''/'' else d)"

definition sentry__path_dir :: "string \<Rightarrow> string" where
  "sentry__path_dir p = dirname p"

definition sentry__path_is_file :: "disk \<Rightarrow> string \<Rightarrow> bool" where
  "sentry__path_is_file fs p \<longleftrightarrow> fs_files fs p \<noteq> None"

definition sentry__path_is_dir :: "disk \<Rightarrow> string \<Rightarrow> bool" where
  "sentry__path_is_dir fs p \<longleftrightarrow> fs_is_dir fs p"

definition sentry__path_is_symlink :: "disk \<Rightarrow> string \<Rightarrow> bool" where
  "sentry__path_is_symlink fs p \<longleftrightarrow> fs_is_symlink fs p"

definition sentry__path_get_size :: "disk \<Rightarrow> string \<Rightarrow> nat" where
  "sentry__path_get_size fs p = (case fs_files fs p of Some f \<Rightarrow> length f | None \<Rightarrow> 0)"

definition sentry__path_get_mtime :: "disk \<Rightarrow> string \<Rightarrow> int" where
  "sentry__path_get_mtime fs p = (if fs_files fs p \<noteq> None \<or> fs_is_dir fs p then fs_mtime fs p else 0)"

text \<open>A path that does not exist counts as removed (\<open>ENOENT\<close>).\<close>

definition sentry__path_remove :: "string \<Rightarrow> disk \<Rightarrow> nat \<times> disk" where
  "sentry__path_remove p fs =
     (if fs_files fs p = None \<and> \<not> fs_is_dir fs p \<and> \<not> fs_is_symlink fs p then (0, fs)
      else if fs_can_remove fs p
      then (0, fs\<lparr>fs_files := (fs_files fs)(p := None), fs_is_dir := (fs_is_dir fs)(p := False), fs_is_symlink := (fs_is_symlink fs)(p := False)\<rparr>)
      else (1, fs))"

text \<open>Renaming a regular file.\<close>

definition sentry__path_rename :: "string \<Rightarrow> string \<Rightarrow> disk \<Rightarrow> nat \<times> disk" where
  "sentry__path_rename src dst fs =
     (if fs_files fs src \<noteq> None \<and> fs_can_rename fs src dst
      then (0, fs\<lparr>fs_files := (fs_files fs)(src := None, dst := fs_files fs src)\<rparr>)
      else (1, fs))"

definition sentry__path_copy :: "string \<Rightarrow> string \<Rightarrow> disk \<Rightarrow> nat \<times> disk" where
  "sentry__path_copy src dst fs =
     (case fs_files fs src of
        None \<Rightarrow> (1, fs)
      | Some f \<Rightarrow>
          (case fs_copy fs src dst of
             Copied \<Rightarrow> (0, fs\<lparr>fs_files := (fs_files fs)(dst \<mapsto> f)\<rparr>)
           | Copy_not_opened \<Rightarrow> (1, fs)
           | Copied_part n \<Rightarrow> (1, fs\<lparr>fs_files := (fs_files fs)(dst \<mapsto> take n f)\<rparr>)))"

text \<open>The loop of \<open>sentry__path_create_dir_all\<close> makes every prefix of the path that ends before a slash, then the path;
  a directory that exists already is no failure.\<close>

fun make_dirs :: "string list \<Rightarrow> disk \<Rightarrow> nat \<times> disk" where
  "make_dirs [] fs = (0, fs)"
| "make_dirs (p # ps) fs =
     (case fs_mkdir fs p of
        Mkdir_ok \<Rightarrow> make_dirs ps (fs\<lparr>fs_is_dir := (fs_is_dir fs)(p := True)\<rparr>)
      | Mkdir_exists \<Rightarrow> make_dirs ps fs
      | Mkdir_failed \<Rightarrow> (1, fs))"

definition sentry__path_create_dir_all :: "string \<Rightarrow> disk \<Rightarrow> nat \<times> disk" where
  "sentry__path_create_dir_all p fs =
     make_dirs (map (\<lambda>i. take i p) (filter (\<lambda>i. p ! i = CHR ''/'') [1 ..< length p]) @ [p]) fs"

definition sentry__path_touch :: "string \<Rightarrow> disk \<Rightarrow> nat \<times> disk" where
  "sentry__path_touch p fs =
     (if fs_can_open fs p
      then (0, fs\<lparr>fs_files := (fs_files fs)(p := Some (case fs_files fs p of Some f \<Rightarrow> f | None \<Rightarrow> []))\<rparr>)
      else (1, fs))"

text \<open>Iterating over a directory: the special names are skipped, and the iteration ends where a path cannot be built.\<close>

fun join_entries :: "malloc \<Rightarrow> string \<Rightarrow> string list \<Rightarrow> string list" where
  "join_entries malloc dir [] = []"
| "join_entries malloc dir (n # ns) =
     (case sentry__path_join_str malloc dir n of None \<Rightarrow> [] | Some p \<Rightarrow> p # join_entries malloc dir ns)"

definition directory_paths :: "malloc \<Rightarrow> disk \<Rightarrow> string \<Rightarrow> string list" where
  "directory_paths malloc fs dir =
     join_entries malloc dir (filter (\<lambda>n. n \<noteq> ''.'' \<and> n \<noteq> ''..'') (fs_readdir fs (fs_files fs) dir))"

text \<open>Reading and writing whole files.\<close>

definition read_file :: "malloc \<Rightarrow> disk \<Rightarrow> string \<Rightarrow> string option" where
  "read_file malloc fs p = sentry__path_read_to_buffer malloc (fs_io fs p) (if fs_can_open fs p then fs_files fs p else None)"

definition write_file :: "string \<Rightarrow> string \<Rightarrow> disk \<Rightarrow> nat \<times> disk" where
  "write_file p buf fs =
     (case sentry__path_write_buffer (fs_io fs p) (if fs_can_open fs p then Some [] else None) buf of
        (rv, None) \<Rightarrow> (rv, fs)
      | (rv, Some f) \<Rightarrow> (rv, fs\<lparr>fs_files := (fs_files fs)(p \<mapsto> f)\<rparr>))"

section \<open>Joined paths\<close>

text \<open>With memory, joining is concatenation with one slash in between.\<close>

definition good_malloc :: "malloc \<Rightarrow> bool" where
  "good_malloc malloc \<longleftrightarrow> malloc_sized malloc \<and> (\<forall>n. malloc n \<noteq> None)"

definition joined :: "string \<Rightarrow> string \<Rightarrow> string" where
  "joined base other = (if base = [] \<or> last base \<noteq> CHR ''/'' then base @ ''/'' @ other else base @ other)"

text \<open>Names of files: no slash, no NUL, of a length a path may have.\<close>

definition name_ok :: "string \<Rightarrow> bool" where
  "name_ok s \<longleftrightarrow> CHR ''/'' \<notin> set s \<and> CHR 0x00 \<notin> set s \<and> length s \<le> 4096 \<and> s \<noteq> []"

definition dir_ok :: "string \<Rightarrow> bool" where
  "dir_ok s \<longleftrightarrow> CHR 0x00 \<notin> set s \<and> length s \<le> 4096 \<and> s \<noteq> []"

lemma cstr_c_str: "cstr = c_str"
  by (auto simp: cstr_def c_str_def)

lemma join_str_eq:
  assumes "good_malloc malloc" "dir_ok base" "name_ok other"
  shows "sentry__path_join_str malloc base other = Some (joined base other)"
proof -
  have "\<not> at other CHR ''/''" using assms(3) by (cases other) (auto simp: name_ok_def)
  moreover have "length (concat [base, ''/'', other]) < SIZE_MAX" "length (concat [base, other]) < SIZE_MAX"
    using assms(2,3) by (auto simp: name_ok_def dir_ok_def SIZE_MAX_def)
  moreover have "CHR 0x00 \<notin> set base" "CHR 0x00 \<notin> set other" using assms by (auto simp: name_ok_def dir_ok_def)
  ultimately show ?thesis
    using into_string_pieces [of malloc "[base, ''/'', other]"] into_string_pieces [of malloc "[base, other]"] assms(1)
    by (simp add: sentry__path_join_str_def joined_def cstr_c_str good_malloc_def)
qed

lemma filename_joined: "name_ok other \<Longrightarrow> sentry__path_filename (joined base other) = other"
proof -
  assume o: "name_ok other"
  have "takeWhile (\<lambda>c. c \<noteq> CHR ''/'') (rev other @ CHR ''/'' # zs) = rev other" for zs
    using o by (subst takeWhile_append2) (auto simp: name_ok_def)
  then show ?thesis
    by (cases base rule: rev_cases) (auto simp: sentry__path_filename_def joined_def)
qed

section \<open>What the calls keep\<close>

text \<open>Everything of the disk but its files and directories: what the operating system will do, and the listing.\<close>

definition same_env :: "disk \<Rightarrow> disk \<Rightarrow> bool" where
  "same_env fs fs' \<longleftrightarrow>
     fs' = fs\<lparr>fs_files := fs_files fs', fs_is_dir := fs_is_dir fs', fs_is_symlink := fs_is_symlink fs'\<rparr>"

lemma same_env_refl [simp]: "same_env fs fs"
  by (simp add: same_env_def)

lemma same_env_trans [trans]: "same_env a b \<Longrightarrow> same_env b c \<Longrightarrow> same_env a c"
  by (cases a; cases b; cases c) (simp add: same_env_def)

lemma same_env_fields:
  "same_env fs fs' \<Longrightarrow> fs_can_remove fs' = fs_can_remove fs \<and> fs_can_rename fs' = fs_can_rename fs \<and> fs_can_open fs' = fs_can_open fs
     \<and> fs_readdir fs' = fs_readdir fs \<and> fs_io fs' = fs_io fs \<and> fs_close fs' = fs_close fs \<and> fs_mtime fs' = fs_mtime fs
     \<and> fs_mkdir fs' = fs_mkdir fs \<and> fs_copy fs' = fs_copy fs"
  by (cases fs; cases fs') (simp add: same_env_def)

lemma remove_env: "same_env fs (snd (sentry__path_remove p fs))"
  by (simp add: sentry__path_remove_def same_env_def)

lemma rename_env: "same_env fs (snd (sentry__path_rename p q fs))"
  by (simp add: sentry__path_rename_def same_env_def)

lemma make_dirs_env: "same_env fs (snd (make_dirs ps fs)) \<and> fs_files (snd (make_dirs ps fs)) = fs_files fs"
proof (induction ps fs rule: make_dirs.induct)
  case (2 p ps fs)
  show ?case
  proof (cases "fs_mkdir fs p")
    case Mkdir_ok
    let ?fs = "fs\<lparr>fs_is_dir := (fs_is_dir fs)(p := True)\<rparr>"
    have "same_env fs ?fs" by (simp add: same_env_def)
    with 2(1) [OF Mkdir_ok] Mkdir_ok show ?thesis by (auto intro: same_env_trans)
  next
    case Mkdir_exists
    with 2(2) show ?thesis by simp
  qed simp
qed simp

lemma create_dir_all_env:
  "same_env fs (snd (sentry__path_create_dir_all p fs))" "fs_files (snd (sentry__path_create_dir_all p fs)) = fs_files fs"
  using make_dirs_env by (auto simp: sentry__path_create_dir_all_def)

lemma remove_files:
  "fs_files (snd (sentry__path_remove p fs)) = (fs_files fs)(p := if fst (sentry__path_remove p fs) = 0 then None else fs_files fs p)"
  by (auto simp: sentry__path_remove_def fun_upd_idem_iff)

lemma remove_gone: "fs_can_remove fs p \<Longrightarrow> sentry__path_remove p fs = (0, snd (sentry__path_remove p fs))
    \<and> fs_files (snd (sentry__path_remove p fs)) = (fs_files fs)(p := None)"
  by (auto simp: sentry__path_remove_def fun_upd_idem_iff)

section \<open>Files that can be read and written\<close>

text \<open>The calls on a file make progress: they may be interrupted or transfer a part, but none fails.\<close>

definition io_works :: "disk \<Rightarrow> string \<Rightarrow> bool" where
  "io_works fs p \<longleftrightarrow> fs_can_open fs p \<and> list_all (\<lambda>r. r = IoAgain \<or> (\<exists>n > 0. r = IoDone n)) (fs_io fs p)"

lemma write_loop_all:
  "list_all (\<lambda>r. r = IoAgain \<or> (\<exists>n > 0. r = IoDone n)) os \<Longrightarrow> \<exists>os'. write_loop os f buf = (f @ buf, 0, os')"
proof (induction os f buf rule: write_loop.induct)
  case (5 n os f c cs)
  then have "n \<noteq> 0" by auto
  with 5 show ?case by fastforce
qed auto

lemma write_file_ok: "io_works fs p \<Longrightarrow> write_file p buf fs = (0, fs\<lparr>fs_files := (fs_files fs)(p \<mapsto> buf)\<rparr>)"
  using write_loop_all [of "fs_io fs p" "[]" buf]
  by (auto simp: io_works_def write_file_def sentry__path_write_buffer_def write_buffer_with_flags_def)

lemma read_file_ok:
  "good_malloc malloc \<Longrightarrow> io_works fs p \<Longrightarrow> fs_files fs p = Some f \<Longrightarrow> length f \<le> MAX_READ_TO_BUFFER \<Longrightarrow> read_file malloc fs p = Some f"
  by (cases "malloc 1"; cases "malloc (length f + 1)") (auto simp: good_malloc_def io_works_def read_file_def sentry__path_read_to_buffer_def read_loop_all Let_def, (metis option.distinct(1))+)

end
