(* ===== verification/Qsort.thy ===== *)
theory Qsort
  imports Prelude "HOL-Library.Multiset"
begin

text \<open>
  \<open>qsort\<close> and \<open>strcmp\<close> of the C library, for the components that sort directory entries.  A comparison function returns a
  negative number, zero or a positive number.  The C standard leaves the order of elements that compare equal open; the
  model is a stable sort, and the lemmas that the components use say only that the result is a sorted permutation.
  The locale is the contract that a comparison function has to keep for \<open>qsort\<close> to be defined.
\<close>

fun insert_cmp :: "('a \<Rightarrow> 'a \<Rightarrow> int) \<Rightarrow> 'a \<Rightarrow> 'a list \<Rightarrow> 'a list" where
  "insert_cmp cmp x [] = [x]"
| "insert_cmp cmp x (y # ys) = (if cmp x y \<le> 0 then x # y # ys else y # insert_cmp cmp x ys)"

definition qsort :: "('a \<Rightarrow> 'a \<Rightarrow> int) \<Rightarrow> 'a list \<Rightarrow> 'a list" where
  "qsort cmp xs = foldr (insert_cmp cmp) xs []"

fun strcmp :: "string \<Rightarrow> string \<Rightarrow> int" where
  "strcmp [] [] = 0"
| "strcmp [] (b # bs) = - int (code b)"
| "strcmp (a # as) [] = int (code a)"
| "strcmp (a # as) (b # bs) = (if a = b then strcmp as bs else int (code a) - int (code b))"

lemma mset_insert_cmp: "mset (insert_cmp cmp x ys) = add_mset x (mset ys)"
  by (induction ys) auto

lemma mset_qsort [simp]: "mset (qsort cmp xs) = mset xs"
  unfolding qsort_def by (induction xs) (auto simp: mset_insert_cmp)

lemma set_qsort [simp]: "set (qsort cmp xs) = set xs"
  using mset_qsort by (metis set_mset_mset)

lemma length_qsort [simp]: "length (qsort cmp xs) = length xs"
  using mset_qsort by (metis size_mset)

lemma qsort_single: "length xs \<le> 1 \<Longrightarrow> qsort cmp xs = xs"
  by (cases xs) (auto simp: qsort_def)

locale comparison =
  fixes cmp :: "'a \<Rightarrow> 'a \<Rightarrow> int" and ok :: "'a \<Rightarrow> bool"
  assumes cmp_total: "ok a \<Longrightarrow> ok b \<Longrightarrow> cmp a b \<le> 0 \<or> cmp b a \<le> 0"
    and cmp_trans: "ok a \<Longrightarrow> ok b \<Longrightarrow> ok c \<Longrightarrow> cmp a b \<le> 0 \<Longrightarrow> cmp b c \<le> 0 \<Longrightarrow> cmp a c \<le> 0"
begin

lemma insert_sorted:
  assumes "ok x" "\<forall>y\<in>set ys. ok y" "sorted_wrt (\<lambda>a b. cmp a b \<le> 0) ys"
  shows "sorted_wrt (\<lambda>a b. cmp a b \<le> 0) (insert_cmp cmp x ys)"
  using assms
proof (induction ys)
  case (Cons y ys)
  have set: "set (insert_cmp cmp x ys) = insert x (set ys)"
    using mset_insert_cmp [of cmp x ys] by (metis set_mset_add_mset_insert set_mset_mset)
  show ?case
  proof (cases "cmp x y \<le> 0")
    case True
    have "cmp x z \<le> 0" if "z \<in> set ys" for z
      using Cons.prems cmp_trans [of x y z] True that by auto
    then show ?thesis using True Cons.prems by auto
  next
    case False
    then have "cmp y x \<le> 0" using Cons.prems cmp_total [of x y] by auto
    then show ?thesis using False Cons by (auto simp: set)
  qed
qed simp

lemma qsort_sorted: "\<forall>x\<in>set xs. ok x \<Longrightarrow> sorted_wrt (\<lambda>a b. cmp a b \<le> 0) (qsort cmp xs)"
proof (induction xs)
  case (Cons x xs)
  have "qsort cmp (x # xs) = insert_cmp cmp x (qsort cmp xs)" by (simp add: qsort_def)
  then show ?case using Cons by (simp add: insert_sorted)
qed (simp add: qsort_def)

end

text \<open>\<open>strcmp\<close> compares as the lexicographic order of the character codes.\<close>

lemma code_inj: "code a = code b \<longleftrightarrow> a = b"
  by (metis char_of_char)

lemma strcmp_total: "strcmp a b \<le> 0 \<or> strcmp b a \<le> 0"
  by (induction a b rule: strcmp.induct) auto

lemma code_pos: "c \<noteq> CHR 0x00 \<Longrightarrow> 0 < code c"
  using code_inj [of c "CHR 0x00"] by (cases "code c = 0") auto

lemma strcmp_trans:
  "CHR 0x00 \<notin> set a \<Longrightarrow> strcmp a b \<le> 0 \<Longrightarrow> strcmp b c \<le> 0 \<Longrightarrow> strcmp a c \<le> 0"
proof (induction a b arbitrary: c rule: strcmp.induct)
  case (2 b bs)
  then show ?case by (cases c) auto
next
  case (3 a as)
  then show ?case using code_pos [of a] by auto
next
  case (4 a as b bs)
  then show ?case by (cases c) (auto split: if_splits)
qed simp

lemma strcmp_eq: "CHR 0x00 \<notin> set a \<Longrightarrow> CHR 0x00 \<notin> set b \<Longrightarrow> strcmp a b = 0 \<longleftrightarrow> a = b"
  by (induction a b rule: strcmp.induct) (auto simp: code_inj code_pos dest: code_pos)

interpretation strcmp_order: comparison strcmp "\<lambda>s. CHR 0x00 \<notin> set s"
  by unfold_locales (auto simp: strcmp_total intro: strcmp_trans)

end
