(* ===== verification/Cache.thy ===== *)
theory Cache
  imports Disk Urls Qsort
begin

text \<open>
  The cache directory of \<open>sentry_database.c\<close>: the names of its files, the siblings of an envelope, and the pruning of
  \<open>sentry__cleanup_cache\<close>.  An envelope that waits for a retry is \<open><ts>-<count>-<uuid>.envelope\<close>, an envelope that is only kept is
  \<open><uuid>.envelope\<close>, and a sibling (a minidump or an attachment) is \<open><uuid>.*\<close> or \<open><uuid>-*\<close>.
\<close>

section \<open>File names\<close>

text \<open>The result has the time stamp, the count and the text from the start of the identifier on: \<open>uuid_out\<close> points into
  the name.  \<open>strtol\<close> on a 64-bit \<open>long\<close> is \<open>strtoll\<close>; the count is cast to \<open>int\<close>.\<close>

definition sentry__parse_cache_filename :: "string option \<Rightarrow> (u64 \<times> int \<times> string) option" where
  "sentry__parse_cache_filename filename =
     (case filename of
        None \<Rightarrow> None
      | Some f \<Rightarrow>
          if length f = 45 \<and> drop 36 f = ''.envelope'' then Some (0, - 1, f)
          else if length f \<le> 45 then None
          else
            let (ts, e, _) = strtoull f; end1 = drop e f in
            if \<not> at end1 CHR ''-'' then None
            else
              let count_str = drop 1 end1; (count, e, _) = strtoll count_str; end2 = drop e count_str in
              if \<not> at end2 CHR ''-'' \<or> count < 0 then None
              else
                let uuid = drop 1 end2 in
                if length uuid \<noteq> 45 \<or> drop 36 uuid \<noteq> ''.envelope'' then None
                else Some (ts, long_to_int count, uuid))"

text \<open>\<open>%02d\<close> of a number that is not negative.\<close>

definition pad2 :: "nat \<Rightarrow> string" where
  "pad2 n = (if n < 10 then CHR ''0'' # dec_str n else dec_str n)"

text \<open>The name that \<open>sentry__run_make_cache_path\<close> formats into its buffer of 128 bytes.\<close>

definition cache_filename :: "u64 \<Rightarrow> int \<Rightarrow> string \<Rightarrow> string" where
  "cache_filename ts cnt uuid =
     take 127 ((if cnt \<ge> 0 then dec_str (unat ts) @ ''-'' @ pad2 (nat cnt) @ ''-'' else []) @ take 36 uuid @ ''.envelope'')"

definition sentry__run_make_cache_path :: "malloc \<Rightarrow> string \<Rightarrow> u64 \<Rightarrow> int \<Rightarrow> string \<Rightarrow> string option" where
  "sentry__run_make_cache_path malloc cache_path ts cnt uuid =
     sentry__path_join_str malloc cache_path (cache_filename ts cnt uuid)"

section \<open>Siblings\<close>

text \<open>\<open>strncmp(name, uuid, 36)\<close> on strings that have no NUL.\<close>

definition is_cache_sibling :: "string \<Rightarrow> string \<Rightarrow> bool" where
  "is_cache_sibling name uuid =
     (if take 36 name \<noteq> take 36 uuid then False
      else if \<not> at (drop 36 name) CHR ''.'' \<and> \<not> at (drop 36 name) CHR ''-'' then False
      else \<not> at (drop 36 name) CHR ''.'' \<or> drop 36 name \<noteq> ''.envelope'')"

text \<open>The snapshot of the siblings that \<open>foreach_cache_sibling\<close> takes before it calls back.\<close>

definition cache_siblings :: "malloc \<Rightarrow> disk \<Rightarrow> string \<Rightarrow> string list" where
  "cache_siblings malloc fs envelope_path =
     (case sentry__parse_cache_filename (Some (sentry__path_filename envelope_path)) of
        None \<Rightarrow> []
      | Some (_, _, uuid) \<Rightarrow>
          filter (\<lambda>p. is_cache_sibling (sentry__path_filename p) uuid) (directory_paths malloc fs (sentry__path_dir envelope_path)))"

definition foreach_cache_sibling :: "malloc \<Rightarrow> disk \<Rightarrow> string \<Rightarrow> (string \<Rightarrow> 'd \<Rightarrow> 'd) \<Rightarrow> 'd \<Rightarrow> 'd" where
  "foreach_cache_sibling malloc fs envelope_path callback data = fold callback (cache_siblings malloc fs envelope_path) data"

definition accumulate_size :: "disk \<Rightarrow> string \<Rightarrow> nat \<Rightarrow> nat" where
  "accumulate_size fs p n = (n + sentry__path_get_size fs p) mod 2 ^ 64"

definition remove_file :: "string \<Rightarrow> disk \<Rightarrow> disk" where
  "remove_file p fs = snd (sentry__path_remove p fs)"

definition sentry__cache_remove_envelope :: "malloc \<Rightarrow> string option \<Rightarrow> disk \<Rightarrow> disk" where
  "sentry__cache_remove_envelope malloc envelope_path fs =
     (case envelope_path of
        None \<Rightarrow> fs
      | Some p \<Rightarrow> snd (sentry__path_remove p (foreach_cache_sibling malloc fs p remove_file fs)))"

definition sentry__cache_remove_siblings :: "malloc \<Rightarrow> string option \<Rightarrow> sentry_uuid_t \<Rightarrow> disk \<Rightarrow> disk" where
  "sentry__cache_remove_siblings malloc cache_path event_id fs =
     (case cache_path of
        None \<Rightarrow> fs
      | Some c \<Rightarrow>
          if sentry_uuid_is_nil event_id then fs
          else case sentry__run_make_cache_path malloc c 0 (- 1) (sentry_uuid_as_string event_id) of
              None \<Rightarrow> fs
            | Some p \<Rightarrow> foreach_cache_sibling malloc fs p remove_file fs)"

section \<open>Pruning\<close>

record cache_entry_t =
  ce_path :: string
  ce_mtime :: int
  ce_size :: nat

definition compare_cache_entries_newest_first :: "cache_entry_t \<Rightarrow> cache_entry_t \<Rightarrow> int" where
  "compare_cache_entries_newest_first a b =
     (if ce_mtime b > ce_mtime a then 1 else if ce_mtime b < ce_mtime a then - 1 else 0)"

text \<open>The envelope is read back to count its items, or counts as one error.\<close>

definition record_cache_overflow_discard ::
  "malloc \<Rightarrow> (string \<Rightarrow> double) \<Rightarrow> u64 \<Rightarrow> disk \<Rightarrow> string \<Rightarrow> discard_counts \<Rightarrow> discard_counts" where
  "record_cache_overflow_discard malloc strtod now fs p g =
     (case sentry__envelope_from_path (read_file malloc fs p) of
        None \<Rightarrow> sentry__client_report_discard (SENTRY_DISCARD_REASON_CACHE_OVERFLOW, SENTRY_DATA_CATEGORY_ERROR) 1 g
      | Some envelope \<Rightarrow>
          (case sentry__envelope_materialize malloc strtod envelope of
             (True, e) \<Rightarrow> sentry__envelope_discard (\<lambda>_. now) e SENTRY_DISCARD_REASON_CACHE_OVERFLOW None g
           | (False, _) \<Rightarrow> sentry__client_report_discard (SENTRY_DISCARD_REASON_CACHE_OVERFLOW, SENTRY_DATA_CATEGORY_ERROR) 1 g))"

text \<open>The options that bound the cache.\<close>

record cache_limits =
  cache_max_age :: int
  cache_max_size :: nat
  cache_max_items :: nat

definition cache_entry :: "malloc \<Rightarrow> disk \<Rightarrow> string \<Rightarrow> cache_entry_t" where
  "cache_entry malloc fs p =
     \<lparr>ce_path = p, ce_mtime = sentry__path_get_mtime fs p,
      ce_size = foreach_cache_sibling malloc fs p (accumulate_size fs) (sentry__path_get_size fs p)\<rparr>"

text \<open>The first pass.  The array starts with 16 entries of 24 bytes and doubles; a failure to grow ends the pass.\<close>

fun collect_entries :: "malloc \<Rightarrow> disk \<Rightarrow> nat \<Rightarrow> string list \<Rightarrow> cache_entry_t list \<Rightarrow> cache_entry_t list" where
  "collect_entries malloc fs capacity [] entries = entries"
| "collect_entries malloc fs capacity (p # ps) entries =
     (if sentry__path_is_dir fs p \<or> \<not> sentry__path_ends_with p ''.envelope'' then collect_entries malloc fs capacity ps entries
      else if length entries \<ge> capacity
      then (if malloc (24 * (2 * capacity)) = None then entries
            else collect_entries malloc fs (2 * capacity) ps (entries @ [cache_entry malloc fs p]))
      else collect_entries malloc fs capacity ps (entries @ [cache_entry malloc fs p]))"

text \<open>The decision of the second pass: whether the entry is pruned, whether it counts as an overflow, and the
  accumulated size.\<close>

definition should_prune :: "cache_limits \<Rightarrow> int \<Rightarrow> nat \<Rightarrow> nat \<Rightarrow> cache_entry_t \<Rightarrow> bool \<times> bool \<times> nat" where
  "should_prune lim oldest_allowed i accumulated_size e =
     (if cache_max_age lim > 0 \<and> ce_mtime e < oldest_allowed then (True, False, accumulated_size)
      else
        let accumulated_size = (accumulated_size + ce_size e) mod 2 ^ 64;
            overflow = (cache_max_size lim > 0 \<and> accumulated_size > cache_max_size lim)
                     \<or> (cache_max_items lim > 0 \<and> i \<ge> cache_max_items lim)
        in (overflow, overflow, accumulated_size))"

text \<open>Pruned entries are regular files, for which \<open>sentry__path_remove_all\<close> is \<open>sentry__path_remove\<close>.\<close>

fun prune_entries ::
  "malloc \<Rightarrow> (string \<Rightarrow> double) \<Rightarrow> u64 \<Rightarrow> cache_limits \<Rightarrow> int \<Rightarrow> nat \<Rightarrow> nat \<Rightarrow> cache_entry_t list \<Rightarrow> disk \<times> discard_counts \<Rightarrow> disk \<times> discard_counts" where
  "prune_entries malloc strtod now lim oldest_allowed i accumulated_size [] (fs, g) = (fs, g)"
| "prune_entries malloc strtod now lim oldest_allowed i accumulated_size (e # es) (fs, g) =
     (case should_prune lim oldest_allowed i accumulated_size e of
        (prune, overflow, accumulated_size) \<Rightarrow>
          if prune then
            let g = (if overflow then record_cache_overflow_discard malloc strtod now fs (ce_path e) g else g);
                fs = foreach_cache_sibling malloc fs (ce_path e) remove_file fs;
                fs = snd (sentry__path_remove (ce_path e) fs)
            in prune_entries malloc strtod now lim oldest_allowed (Suc i) accumulated_size es (fs, g)
          else prune_entries malloc strtod now lim oldest_allowed (Suc i) accumulated_size es (fs, g))"

text \<open>\<open>time_now\<close> is \<open>time(NULL)\<close>; \<open>now\<close> is the monotonic clock that the rate limiter argument of the discard would use.\<close>

definition sentry__cleanup_cache ::
  "malloc \<Rightarrow> (string \<Rightarrow> double) \<Rightarrow> u64 \<Rightarrow> int \<Rightarrow> string option \<Rightarrow> cache_limits \<Rightarrow> disk \<times> discard_counts \<Rightarrow> disk \<times> discard_counts" where
  "sentry__cleanup_cache malloc strtod now time_now database_path lim st =
     (case database_path of
        None \<Rightarrow> st
      | Some db \<Rightarrow>
          (case sentry__path_join_str malloc db ''cache'' of
             None \<Rightarrow> st
           | Some cache_dir \<Rightarrow>
               if \<not> sentry__path_is_dir (fst st) cache_dir then st
               else if malloc (24 * 16) = None then st
               else
                 let entries = collect_entries malloc (fst st) 16 (directory_paths malloc (fst st) cache_dir) [];
                     entries = qsort compare_cache_entries_newest_first entries
                 in prune_entries malloc strtod now lim (time_now - cache_max_age lim) 0 0 entries st))"

interpretation newest_first: comparison compare_cache_entries_newest_first "\<lambda>e. True"
  by unfold_locales (auto simp: compare_cache_entries_newest_first_def split: if_splits)

section \<open>Names are read back\<close>

lemma pad2_digits: "pad2 n \<noteq> []" "\<forall>c \<in> set (pad2 n). isdigit c" "dec_val (pad2 n) = n"
  using dec_str_digits [of n] dec_val_dec_str [of n]
  by (auto simp: pad2_def isdigit_def dec_val_def digit_val_def)

lemma dec_str_u64: "length (dec_str (unat (ts :: u64))) \<le> 20"
  using unat_less(3) [of ts] by (intro dec_str_length) auto

lemma pad2_length: "n < 2 ^ 31 \<Longrightarrow> length (pad2 n) \<le> 11"
  using dec_str_length [of n 10] by (auto simp: pad2_def)

lemma strtoll_pad2:
  assumes "n < 2 ^ 31"
  shows "strtoll (pad2 n @ CHR ''-'' # rest) = (int n, length (pad2 n), False)"
  using num_prefix_digits [of "pad2 n" "CHR ''-'' # rest"] pad2_digits [of n] assms
  by (simp add: strtoll_def isdigit_def)

lemma cache_filename_retry:
  assumes "length uuid = 36" "0 \<le> cnt" "cnt < 2 ^ 31"
  shows "cache_filename ts cnt uuid = dec_str (unat ts) @ CHR ''-'' # pad2 (nat cnt) @ CHR ''-'' # uuid @ ''.envelope''"
  using assms dec_str_u64 [of ts] pad2_length [of "nat cnt"] by (simp add: cache_filename_def nat_less_iff)

lemma cache_filename_bare: "length uuid = 36 \<Longrightarrow> cnt < 0 \<Longrightarrow> cache_filename ts cnt uuid = uuid @ ''.envelope''"
  by (simp add: cache_filename_def)

lemma parse_bare: "length uuid = 36 \<Longrightarrow> sentry__parse_cache_filename (Some (uuid @ ''.envelope'')) = Some (0, - 1, uuid @ ''.envelope'')"
  by (simp add: sentry__parse_cache_filename_def)

lemma parse_retry:
  assumes "length uuid = 36" "n < 2 ^ 31"
  shows "sentry__parse_cache_filename (Some (dec_str (unat (ts :: u64)) @ CHR ''-'' # pad2 n @ CHR ''-'' # uuid @ ''.envelope''))
    = Some (ts, int n, uuid @ ''.envelope'')"
proof -
  let ?f = "dec_str (unat ts) @ CHR ''-'' # pad2 n @ CHR ''-'' # uuid @ ''.envelope''"
  have t: "strtoull ?f = (ts, length (dec_str (unat ts)), False)"
    using strtoull_dec_str [of "unat ts" "CHR ''-'' # pad2 n @ CHR ''-'' # uuid @ ''.envelope''"] unat_less(3) [of ts]
    by (simp add: isdigit_def)
  have c: "strtoll (pad2 n @ CHR ''-'' # uuid @ ''.envelope'') = (int n, length (pad2 n), False)"
    using assms strtoll_pad2 by simp
  have l: "45 < length ?f" using assms by simp
  have i: "long_to_int (int n) = int n" using assms by (simp add: long_to_int_def)
  show ?thesis using l t c i assms by (simp add: sentry__parse_cache_filename_def at_def)
qed

text \<open>C39. The names of cached envelopes are read back exactly: parsing the name built from a time stamp, an attempt count
  and an identifier gives the three back, and a name without a count is recognised as one that is not to be retried.\<close>

theorem cache_filename_roundtrip:
  assumes "length uuid = 36" "cnt < 2 ^ 31"
  shows "sentry__parse_cache_filename (Some (cache_filename ts cnt uuid)) =
    Some (if cnt \<ge> 0 then (ts, cnt, uuid @ ''.envelope'') else (0, - 1, uuid @ ''.envelope''))"
proof (cases "cnt \<ge> 0")
  case True
  with assms show ?thesis using parse_retry [of uuid "nat cnt" ts] by (simp add: cache_filename_retry nat_less_iff)
next
  case False
  with assms show ?thesis by (simp add: cache_filename_bare parse_bare)
qed

theorem cache_filename_roundtrip_witness:
  "let uuid = ''c993afb6-b4ac-48a6-b61b-2558e601d65d'' in
   length uuid = 36 \<and> sentry__parse_cache_filename (Some (cache_filename 1700000000000 3 uuid)) = Some (1700000000000, 3, uuid @ ''.envelope'')"
  using cache_filename_roundtrip [of "''c993afb6-b4ac-48a6-b61b-2558e601d65d''" 3 1700000000000] by simp

section \<open>What pruning leaves\<close>

text \<open>The entries that the second pass does not prune.\<close>

fun kept_entries :: "cache_limits \<Rightarrow> int \<Rightarrow> nat \<Rightarrow> nat \<Rightarrow> cache_entry_t list \<Rightarrow> cache_entry_t list" where
  "kept_entries lim oldest i acc [] = []"
| "kept_entries lim oldest i acc (e # es) =
     (case should_prune lim oldest i acc e of
        (prune, _, acc) \<Rightarrow> (if prune then [] else [e]) @ kept_entries lim oldest (Suc i) acc es)"

lemma kept_subset: "set (kept_entries lim oldest i acc es) \<subseteq> set es"
  by (induction es arbitrary: i acc) (auto split: prod.splits)

lemma kept_age: "cache_max_age lim > 0 \<Longrightarrow> e \<in> set (kept_entries lim oldest i acc es) \<Longrightarrow> ce_mtime e \<ge> oldest"
  by (induction es arbitrary: i acc) (auto simp: should_prune_def Let_def split: prod.splits if_splits)

lemma kept_items: "cache_max_items lim > 0 \<Longrightarrow> length (kept_entries lim oldest i acc es) \<le> cache_max_items lim - i"
proof (induction es arbitrary: i acc)
  case (Cons e es)
  obtain pr ov acc' where p: "should_prune lim oldest i acc e = (pr, ov, acc')" by (metis prod_cases3)
  have "length (kept_entries lim oldest (Suc i) acc' es) \<le> cache_max_items lim - Suc i"
    using Cons by simp
  moreover have "pr" if "i \<ge> cache_max_items lim"
    using p that Cons.prems by (auto simp: should_prune_def Let_def split: if_splits)
  ultimately show ?case using p by (cases "i \<ge> cache_max_items lim"; cases pr) auto
qed simp

text \<open>Once an entry overflows, every later one that is not too old does.\<close>

lemma kept_none:
  "cache_max_size lim > 0 \<Longrightarrow> acc > cache_max_size lim \<Longrightarrow> acc + sum_list (map ce_size es) < 2 ^ 64 \<Longrightarrow> kept_entries lim oldest i acc es = []"
proof (induction es arbitrary: i acc)
  case (Cons e es)
  have l: "acc + ce_size e < 2 ^ 64" using Cons.prems by simp
  obtain pr ov acc' where p: "should_prune lim oldest i acc e = (pr, ov, acc')" by (metis prod_cases3)
  then have "pr \<and> (acc' = acc \<or> acc' = acc + ce_size e)"
    using Cons.prems l by (auto simp: should_prune_def Let_def split: if_splits)
  moreover from this have "kept_entries lim oldest (Suc i) acc' es = []"
    using Cons.prems by (intro Cons.IH) auto
  ultimately show ?case using p by simp
qed simp

lemma kept_size:
  assumes "cache_max_size lim > 0" "acc + sum_list (map ce_size es) < 2 ^ 64" "acc \<le> cache_max_size lim"
  shows "acc + sum_list (map ce_size (kept_entries lim oldest i acc es)) \<le> cache_max_size lim"
  using assms
proof (induction es arbitrary: i acc)
  case (Cons e es)
  have l: "acc + ce_size e < 2 ^ 64" using Cons.prems by simp
  obtain pr ov acc' where p: "should_prune lim oldest i acc e = (pr, ov, acc')" by (metis prod_cases3)
  then consider (old) "pr" "acc' = acc" | (over) "pr" "acc' = acc + ce_size e"
    | (keep) "\<not> pr" "acc' = acc + ce_size e" "acc' \<le> cache_max_size lim"
    using Cons.prems l by (auto simp: should_prune_def Let_def split: if_splits)
  then show ?case
  proof cases
    case old
    then show ?thesis using Cons p by simp
  next
    case over
    show ?thesis
    proof (cases "acc' \<le> cache_max_size lim")
      case True
      then show ?thesis using Cons.IH [of acc' "Suc i"] Cons.prems over p by auto
    next
      case False
      then have "kept_entries lim oldest (Suc i) acc' es = []"
        using over Cons.prems by (intro kept_none) auto
      then show ?thesis using over p Cons.prems by simp
    qed
  next
    case keep
    then show ?thesis using Cons.IH [of acc' "Suc i"] Cons.prems p by auto
  qed
qed simp

text \<open>The entries that are kept are the newest ones.\<close>

lemma kept_none_items: "cache_max_items lim > 0 \<Longrightarrow> i \<ge> cache_max_items lim \<Longrightarrow> kept_entries lim oldest i acc es = []"
  using kept_items [of lim oldest i acc es] by simp

lemma kept_none_old: "cache_max_age lim > 0 \<Longrightarrow> \<forall>e \<in> set es. ce_mtime e < oldest \<Longrightarrow> kept_entries lim oldest i acc es = []"
  by (induction es arbitrary: i acc) (auto simp: should_prune_def)

lemma kept_prefix:
  assumes "acc + sum_list (map ce_size es) < 2 ^ 64" "sorted_wrt (\<lambda>a b. compare_cache_entries_newest_first a b \<le> 0) es"
  shows "\<exists>ys. es = kept_entries lim oldest i acc es @ ys"
  using assms
proof (induction es arbitrary: i acc)
  case (Cons e es)
  have l: "acc + ce_size e < 2 ^ 64" using Cons.prems by simp
  have older: "ce_mtime x \<le> ce_mtime e" if "x \<in> set es" for x
    using Cons.prems that by (auto simp: compare_cache_entries_newest_first_def split: if_splits)
  obtain pr ov acc' where p: "should_prune lim oldest i acc e = (pr, ov, acc')" by (metis prod_cases3)
  have acc': "acc' + sum_list (map ce_size es) < 2 ^ 64"
    using p Cons.prems l by (auto simp: should_prune_def Let_def split: if_splits)
  show ?case
  proof (cases pr)
    case False
    with p Cons.IH [OF acc'] Cons.prems show ?thesis by auto
  next
    case True
    consider (old) "cache_max_age lim > 0" "ce_mtime e < oldest"
      | (size) "cache_max_size lim > 0" "acc' > cache_max_size lim" | (items) "cache_max_items lim > 0" "i \<ge> cache_max_items lim"
      using p True by (auto simp: should_prune_def Let_def split: if_splits)
    then have "kept_entries lim oldest (Suc i) acc' es = []"
    proof cases
      case old
      then show ?thesis using older by (intro kept_none_old) force+
    next
      case size
      then show ?thesis using acc' by (intro kept_none)
    next
      case items
      then show ?thesis by (intro kept_none_items) auto
    qed
    then show ?thesis using p True by simp
  qed
qed simp

text \<open>The effect on the disk: files only disappear, and a pruned entry is gone.\<close>

definition sibling_of :: "string \<Rightarrow> string \<Rightarrow> bool" where
  "sibling_of p q =
     (case sentry__parse_cache_filename (Some (sentry__path_filename q)) of
        None \<Rightarrow> False
      | Some (_, _, uuid) \<Rightarrow> is_cache_sibling (sentry__path_filename p) uuid)"

lemma siblings_sibling: "p \<in> set (cache_siblings malloc fs q) \<Longrightarrow> sibling_of p q"
  by (cases "sentry__parse_cache_filename (Some (sentry__path_filename q))") (auto simp: cache_siblings_def sibling_of_def)

lemma remove_file_env: "same_env fs (remove_file p fs)"
  by (simp add: remove_file_def remove_env)

lemma remove_file_files: "q \<noteq> p \<Longrightarrow> fs_files (remove_file p fs) q = fs_files fs q" "fs_files fs q = None \<Longrightarrow> fs_files (remove_file p fs) q = None"
  by (auto simp: remove_file_def remove_files)

lemma remove_all_files:
  "same_env fs (fold remove_file ps fs)"
  "q \<notin> set ps \<Longrightarrow> fs_files (fold remove_file ps fs) q = fs_files fs q"
  "fs_files fs q = None \<Longrightarrow> fs_files (fold remove_file ps fs) q = None"
proof (induction ps arbitrary: fs)
  case (Cons p ps)
  {
    case 1
    then show ?case using Cons.IH(1) [of "remove_file p fs"] remove_file_env same_env_trans by simp blast
  next
    case 2
    then show ?case using Cons.IH(2) [of "remove_file p fs"] remove_file_files(1) by simp
  next
    case 3
    then show ?case using Cons.IH(3) [of "remove_file p fs"] remove_file_files(2) by simp
  }
qed simp_all

text \<open>Removing an envelope with its siblings.\<close>

definition drop_envelope :: "malloc \<Rightarrow> string \<Rightarrow> disk \<Rightarrow> disk" where
  "drop_envelope malloc p fs = snd (sentry__path_remove p (foreach_cache_sibling malloc fs p remove_file fs))"

lemma cache_remove_envelope_Some: "sentry__cache_remove_envelope malloc (Some p) fs = drop_envelope malloc p fs"
  by (simp add: sentry__cache_remove_envelope_def drop_envelope_def)

lemma drop_envelope_files:
  "same_env fs (drop_envelope malloc p fs)"
  "q \<noteq> p \<Longrightarrow> \<not> sibling_of q p \<Longrightarrow> fs_files (drop_envelope malloc p fs) q = fs_files fs q"
  "fs_files fs q = None \<Longrightarrow> fs_files (drop_envelope malloc p fs) q = None"
  "fs_can_remove fs p \<Longrightarrow> fs_files (drop_envelope malloc p fs) p = None"
proof -
  let ?fs = "foreach_cache_sibling malloc fs p remove_file fs"
  have env: "same_env fs ?fs" by (simp add: foreach_cache_sibling_def remove_all_files(1))
  then show "same_env fs (drop_envelope malloc p fs)"
    using remove_env same_env_trans by (fastforce simp: drop_envelope_def)
  have f: "q \<notin> set (cache_siblings malloc fs p) \<Longrightarrow> fs_files ?fs q = fs_files fs q" "fs_files fs q = None \<Longrightarrow> fs_files ?fs q = None"
    by (simp_all add: foreach_cache_sibling_def remove_all_files)
  then show "q \<noteq> p \<Longrightarrow> \<not> sibling_of q p \<Longrightarrow> fs_files (drop_envelope malloc p fs) q = fs_files fs q"
    using siblings_sibling by (fastforce simp: drop_envelope_def remove_files)
  show "fs_files fs q = None \<Longrightarrow> fs_files (drop_envelope malloc p fs) q = None"
    using f(2) by (auto simp: drop_envelope_def remove_files)
  show "fs_can_remove fs p \<Longrightarrow> fs_files (drop_envelope malloc p fs) p = None"
    using same_env_fields [OF env] remove_gone [of ?fs p] by (simp add: drop_envelope_def)
qed

lemma prune_step:
  "prune_entries malloc strtod now lim oldest i acc (e # es) (fs, g) =
     (case should_prune lim oldest i acc e of
        (prune, overflow, acc') \<Rightarrow>
          prune_entries malloc strtod now lim oldest (Suc i) acc' es
            (if prune then drop_envelope malloc (ce_path e) fs else fs,
             if prune \<and> overflow then record_cache_overflow_discard malloc strtod now fs (ce_path e) g else g))"
  by (auto simp: drop_envelope_def Let_def split: prod.splits)

declare prune_entries.simps(2) [simp del]

lemma prune_shrinks:
  "fs_files fs q = None \<Longrightarrow> fs_files (fst (prune_entries malloc strtod now lim oldest i acc es (fs, g))) q = None"
proof (induction es arbitrary: i acc fs g)
  case (Cons e es)
  then show ?case by (auto simp: prune_step drop_envelope_files(3) split: prod.splits)
qed simp

lemma prune_prunes:
  assumes "\<forall>p. fs_can_remove fs p" "e \<in> set es" "e \<notin> set (kept_entries lim oldest i acc es)"
  shows "fs_files (fst (prune_entries malloc strtod now lim oldest i acc es (fs, g))) (ce_path e) = None"
  using assms
proof (induction es arbitrary: i acc fs g)
  case (Cons x es)
  obtain pr ov acc' where p: "should_prune lim oldest i acc x = (pr, ov, acc')" by (metis prod_cases3)
  let ?fs = "if pr then drop_envelope malloc (ce_path x) fs else fs"
  have env: "\<forall>p. fs_can_remove ?fs p"
    using Cons.prems(1) same_env_fields [OF drop_envelope_files(1)] by auto
  show ?case
  proof (cases "e \<in> set es")
    case True
    moreover have "e \<notin> set (kept_entries lim oldest (Suc i) acc' es)" using Cons.prems(3) p by simp
    ultimately show ?thesis using Cons.IH [OF env] p by (simp add: prune_step)
  next
    case False
    then have "e = x" "pr" using Cons.prems p by (auto split: if_splits)
    then have "fs_files ?fs (ce_path e) = None" using Cons.prems(1) by (simp add: drop_envelope_files(4))
    then show ?thesis using p by (simp add: prune_step prune_shrinks)
  qed
qed simp

lemma prune_keeps:
  assumes "\<forall>e \<in> set es. e \<notin> set (kept_entries lim oldest i acc es) \<longrightarrow> ce_path e \<noteq> q \<and> \<not> sibling_of q (ce_path e)"
    and "distinct es"
  shows "fs_files (fst (prune_entries malloc strtod now lim oldest i acc es (fs, g))) q = fs_files fs q"
  using assms
proof (induction es arbitrary: i acc fs g)
  case (Cons x es)
  obtain pr ov acc' where p: "should_prune lim oldest i acc x = (pr, ov, acc')" by (metis prod_cases3)
  have x: "x \<notin> set (kept_entries lim oldest (Suc i) acc' es)"
    using Cons.prems(2) kept_subset by force
  have "fs_files (fst (prune_entries malloc strtod now lim oldest (Suc i) acc' es (fs1, g1))) q = fs_files fs1 q" for fs1 g1
    using Cons.prems p by (intro Cons.IH; cases pr) auto
  moreover have "fs_files (if pr then drop_envelope malloc (ce_path x) fs else fs) q = fs_files fs q"
    using Cons.prems(1) p x by (auto intro!: drop_envelope_files(2))
  ultimately show ?case using p by (simp add: prune_step)
qed simp

lemma collect_all:
  assumes "\<And>n. malloc n \<noteq> None"
  shows "collect_entries malloc fs cap ps es =
    es @ map (cache_entry malloc fs) (filter (\<lambda>p. \<not> fs_is_dir fs p \<and> sentry__path_ends_with p ''.envelope'') ps)"
  by (induction ps arbitrary: cap es) (simp_all add: assms sentry__path_is_dir_def del: not_None_eq)

text \<open>The envelope files of the cache directory.\<close>

definition envelope_files :: "malloc \<Rightarrow> disk \<Rightarrow> string \<Rightarrow> string list" where
  "envelope_files malloc fs dir =
     filter (\<lambda>p. \<not> fs_is_dir fs p \<and> sentry__path_ends_with p ''.envelope'') (directory_paths malloc fs dir)"

lemma cleanup_cache_eq:
  assumes "\<And>n. malloc n \<noteq> None" "sentry__path_join_str malloc db ''cache'' = Some dir" "fs_is_dir fs dir"
  shows "sentry__cleanup_cache malloc strtod now t (Some db) lim (fs, g) =
    prune_entries malloc strtod now lim (t - cache_max_age lim) 0 0
      (qsort compare_cache_entries_newest_first (map (cache_entry malloc fs) (envelope_files malloc fs dir))) (fs, g)"
  using assms(2,3) by (simp add: assms(1) sentry__cleanup_cache_def sentry__path_is_dir_def collect_all envelope_files_def del: not_None_eq)

lemma sum_list_qsort: "sum_list (map f (qsort cmp xs)) = (sum_list (map f xs) :: nat)"
  by (metis mset_map mset_qsort sum_mset_sum_list)

lemma distinct_qsort: "distinct (qsort cmp xs) = distinct xs"
  by (metis mset_qsort mset_eq_imp_distinct_iff)

lemma distinct_le:
  assumes "distinct xs" "distinct ys" "set xs \<subseteq> set ys"
  shows "length xs \<le> length ys" "sum_list (map (f :: 'a \<Rightarrow> nat) xs) \<le> sum_list (map f ys)"
  using assms card_mono [of "set ys" "set xs"] sum_mono2 [of "set ys" "set xs" f]
  by (auto simp: distinct_card sum_list_distinct_conv_sum_set)

lemma cache_entry_path [simp]: "ce_path (cache_entry malloc fs p) = p" "ce_mtime (cache_entry malloc fs p) = sentry__path_get_mtime fs p"
  by (simp_all add: cache_entry_def)

text \<open>C17. Pruning brings the cache directory back within the options, whatever it holds: the envelope files that are left
  number at most \<open>cache_max_items\<close>, take (with their siblings) at most \<open>cache_max_size\<close> bytes, and none is older than
  \<open>cache_max_age\<close>.  When no envelope file is named like the sibling of another, the files that go are not newer than
  those that stay.\<close>

theorem cleanup_cache_within_limits:
  fixes malloc :: malloc and fs :: disk and dir :: string
  defines "envelopes \<equiv> envelope_files malloc fs dir"
  assumes malloc: "\<forall>n. malloc n \<noteq> None" and dir: "sentry__path_join_str malloc db ''cache'' = Some dir" "fs_is_dir fs dir"
    and remove: "\<forall>p. fs_can_remove fs p" and distinct: "distinct envelopes"
    and sum: "(\<Sum>p\<leftarrow>envelopes. ce_size (cache_entry malloc fs p)) < 2 ^ 64"
    and after: "sentry__cleanup_cache malloc strtod now t (Some db) lim (fs, g) = (fs', g')"
    and left: "left = filter (\<lambda>p. fs_files fs' p \<noteq> None) envelopes"
  shows "(cache_max_items lim > 0 \<longrightarrow> length left \<le> cache_max_items lim)
    \<and> (cache_max_size lim > 0 \<longrightarrow> (\<Sum>p\<leftarrow>left. ce_size (cache_entry malloc fs p)) \<le> cache_max_size lim)
    \<and> (cache_max_age lim > 0 \<longrightarrow> (\<forall>p \<in> set left. sentry__path_get_mtime fs p \<ge> t - cache_max_age lim))
    \<and> ((\<forall>p \<in> set envelopes. \<forall>q \<in> set envelopes. \<not> sibling_of q p) \<longrightarrow>
        (\<forall>p \<in> set left. \<forall>q \<in> set envelopes. fs_files fs q \<noteq> None \<and> fs_files fs' q = None \<longrightarrow>
           sentry__path_get_mtime fs q \<le> sentry__path_get_mtime fs p))"
proof -
  let ?e = "cache_entry malloc fs"
  let ?es = "qsort compare_cache_entries_newest_first (map ?e envelopes)"
  let ?kept = "kept_entries lim (t - cache_max_age lim) 0 0 ?es"
  have fs': "fs' = fst (prune_entries malloc strtod now lim (t - cache_max_age lim) 0 0 ?es (fs, g))"
    using cleanup_cache_eq [OF _ dir, of strtod now t lim g] malloc after unfolding envelopes_def by (metis fst_conv)
  have inj: "inj_on ?e A" for A by (metis cache_entry_path(1) inj_on_def)
  have des: "distinct ?es" using distinct inj by (simp add: distinct_qsort distinct_map)
  have total: "sum_list (map ce_size ?es) < 2 ^ 64" using sum by (simp add: sum_list_qsort comp_def)
  obtain ys where ys: "?es = ?kept @ ys"
    using kept_prefix [of 0 ?es lim _ 0] total newest_first.qsort_sorted by fastforce
  have lk: "?e p \<in> set ?kept" if p: "p \<in> set left" for p
  proof (rule ccontr)
    assume "?e p \<notin> set ?kept"
    moreover have "?e p \<in> set ?es" using p left by auto
    ultimately have "fs_files fs' p = None"
      using prune_prunes [OF remove, of "?e p" ?es lim "t - cache_max_age lim" 0 0 malloc strtod now g] fs' by simp
    then show False using p left by simp
  qed
  have sub: "set (map ?e left) \<subseteq> set ?kept" "distinct (map ?e left)" "distinct ?kept"
    using lk distinct left inj des ys by (auto simp: distinct_map) (metis distinct_append)
  have items: "length left \<le> length ?kept" and size: "(\<Sum>p\<leftarrow>left. ce_size (?e p)) \<le> sum_list (map ce_size ?kept)"
    using distinct_le(1) [OF sub(2,3,1)] distinct_le(2) [OF sub(2,3,1), of ce_size] by (auto simp: comp_def)
  have newest: "sentry__path_get_mtime fs q \<le> sentry__path_get_mtime fs p"
    if nosib: "\<forall>p \<in> set envelopes. \<forall>q \<in> set envelopes. \<not> sibling_of q p" and p: "p \<in> set left"
      and q: "q \<in> set envelopes" "fs_files fs q \<noteq> None" "fs_files fs' q = None" for p q
  proof -
    have "?e q \<notin> set ?kept"
    proof
      assume k: "?e q \<in> set ?kept"
      have "fs_files fs' q = fs_files fs q"
        unfolding fs' using nosib q k des by (intro prune_keeps) auto
      with q show False by simp
    qed
    then have "?e q \<in> set ys" using q ys by (metis Un_iff image_eqI list.set_map set_append set_qsort)
    moreover have "sorted_wrt (\<lambda>a b. compare_cache_entries_newest_first a b \<le> 0) (?kept @ ys)"
      using ys newest_first.qsort_sorted by (metis (mono_tags, lifting))
    ultimately have "compare_cache_entries_newest_first (?e p) (?e q) \<le> 0"
      using lk [OF p] by (simp add: sorted_wrt_append)
    then show ?thesis by (simp add: compare_cache_entries_newest_first_def split: if_splits)
  qed
  have "length left \<le> cache_max_items lim" if "cache_max_items lim > 0"
    using items kept_items [OF that, of "t - cache_max_age lim" 0 0 ?es] by simp
  moreover have "(\<Sum>p\<leftarrow>left. ce_size (?e p)) \<le> cache_max_size lim" if "cache_max_size lim > 0"
    using size kept_size [OF that, of 0 ?es "t - cache_max_age lim" 0] total by simp
  moreover have "sentry__path_get_mtime fs p \<ge> t - cache_max_age lim" if "cache_max_age lim > 0" "p \<in> set left" for p
    using kept_age [OF that(1) lk [OF that(2)]] by simp
  ultimately show ?thesis using newest by blast
qed

definition demo_malloc :: malloc where
  "demo_malloc n = Some (replicate n CHR 0x00)"

definition demo_names :: "string list" where
  "demo_names = [''b.envelope'', ''a.envelope'', ''note.txt'']"

definition demo_disk :: disk where
  "demo_disk = \<lparr>fs_files = (\<lambda>p. if p = ''d/cache/a.envelope'' then Some ''one'' else if p = ''d/cache/b.envelope'' then Some ''other'' else None),
     fs_can_open = (\<lambda>_. True), fs_io = (\<lambda>_. []), fs_close = (\<lambda>_. True), fs_can_remove = (\<lambda>_. True), fs_readdir = (\<lambda>_ _. demo_names),
     fs_is_dir = (\<lambda>p. p = ''d'' \<or> p = ''d/cache''), fs_is_symlink = (\<lambda>_. False),
     fs_mtime = (\<lambda>p. if p = ''d/cache/a.envelope'' then 100 else 50), fs_can_rename = (\<lambda>_ _. True),
     fs_mkdir = (\<lambda>_. Mkdir_exists), fs_copy = (\<lambda>_ _. Copied)\<rparr>"

lemma demo_listing:
  "sentry__path_join_str demo_malloc ''d'' ''cache'' = Some ''d/cache''"
  "envelope_files demo_malloc demo_disk ''d/cache'' = [''d/cache/b.envelope'', ''d/cache/a.envelope'']"
  by (simp_all add: join_str_eq good_malloc_def demo_malloc_def malloc_sized_def dir_ok_def name_ok_def joined_def
      envelope_files_def directory_paths_def demo_disk_def demo_names_def sentry__path_ends_with_def)

theorem cleanup_cache_within_limits_witness:
  "\<exists>fs' g'. sentry__cleanup_cache demo_malloc (\<lambda>_. 0) 0 120 (Some ''d'') \<lparr>cache_max_age = 60, cache_max_size = 4, cache_max_items = 1\<rparr>
       (demo_disk, \<lambda>_. 0) = (fs', g')
     \<and> length (filter (\<lambda>p. fs_files fs' p \<noteq> None) [''d/cache/b.envelope'', ''d/cache/a.envelope'']) \<le> 1"
proof -
  obtain fs' g' where c: "sentry__cleanup_cache demo_malloc (\<lambda>_. 0) 0 120 (Some ''d'') \<lparr>cache_max_age = 60, cache_max_size = 4, cache_max_items = 1\<rparr>
       (demo_disk, \<lambda>_. 0) = (fs', g')" by fastforce
  have s: "parsed = None \<Longrightarrow> cache_siblings demo_malloc demo_disk p = []"
    if "parsed = sentry__parse_cache_filename (Some (sentry__path_filename p))" for p parsed
    using that by (simp add: cache_siblings_def)
  have n: "cache_siblings demo_malloc demo_disk ''d/cache/b.envelope'' = []" "cache_siblings demo_malloc demo_disk ''d/cache/a.envelope'' = []"
    by (rule s, rule refl, simp add: sentry__path_filename_def sentry__parse_cache_filename_def)+
  have d: "\<forall>n. demo_malloc n \<noteq> None" "fs_is_dir demo_disk ''d/cache''" "\<forall>p. fs_can_remove demo_disk p"
    "fs_files demo_disk ''d/cache/b.envelope'' = Some ''other''" "fs_files demo_disk ''d/cache/a.envelope'' = Some ''one''"
    by (simp_all add: demo_malloc_def demo_disk_def)
  have e: "distinct (envelope_files demo_malloc demo_disk ''d/cache'')"
    "(\<Sum>p\<leftarrow>envelope_files demo_malloc demo_disk ''d/cache''. ce_size (cache_entry demo_malloc demo_disk p)) < 2 ^ 64"
    by (simp_all add: demo_listing(2) cache_entry_def foreach_cache_sibling_def n sentry__path_get_size_def d)
  have "length (filter (\<lambda>p. fs_files fs' p \<noteq> None) (envelope_files demo_malloc demo_disk ''d/cache'')) \<le> 1"
    using cleanup_cache_within_limits [OF d(1) demo_listing(1) d(2,3) e c refl] by simp
  then show ?thesis using c by (auto simp: demo_listing(2))
qed

end
