(* ===== verification/Database.thy ===== *)
theory Database
  imports Cache
begin

text \<open>
  The run of an application (\<open>sentry_database.c\<close>): its directory and lock, the consent of the user, the installation
  identifier, the envelopes and markers written into the run, the external and the cache directory, and the attachments
  cached beside an envelope.  Locks are an outcome of the operating system; the reference count of a run is not modelled.
\<close>

section \<open>Runs\<close>

datatype sentry_user_consent_t = SENTRY_USER_CONSENT_UNKNOWN | SENTRY_USER_CONSENT_GIVEN | SENTRY_USER_CONSENT_REVOKED

datatype sentry_cache_keep_t = SENTRY_CACHE_KEEP_NONE | SENTRY_CACHE_KEEP_OFFLINE | SENTRY_CACHE_KEEP_ALWAYS

record sentry_run_t =
  run_uuid :: sentry_uuid_t
  run_path :: string
  session_path :: string
  external_path :: string
  cache_path :: string
  run_locked :: bool
  retain :: bool
  require_user_consent :: bool
  user_consent :: sentry_user_consent_t
  installation_id :: "string option"

text \<open>\<open>try_lock\<close> is whether the lock file can be locked.\<close>

definition run_new :: "malloc \<Rightarrow> bool \<Rightarrow> string option \<Rightarrow> string option \<Rightarrow> string option \<Rightarrow> disk \<Rightarrow> sentry_run_t option \<times> disk" where
  "run_new malloc try_lock database_path rp lock_path fs =
     (case (database_path, rp, lock_path) of
        (Some db, Some rp, Some _) \<Rightarrow>
          (case (sentry__path_join_str malloc rp ''session.json'', sentry__path_join_str malloc db ''external'', sentry__path_join_str malloc db ''cache'') of
             (Some sp, Some ep, Some cp) \<Rightarrow>
               if \<not> try_lock then (None, fs)
               else
                 (Some \<lparr>run_uuid = sentry_uuid_nil, run_path = rp, session_path = sp, external_path = ep, cache_path = cp, run_locked = True,
                        retain = False, require_user_consent = False, user_consent = SENTRY_USER_CONSENT_UNKNOWN, installation_id = None\<rparr>,
                  snd (sentry__path_create_dir_all rp fs))
           | _ \<Rightarrow> (None, fs))
      | _ \<Rightarrow> (None, fs))"

text \<open>\<open>uuid\<close> is the random identifier; the names are written into one buffer.\<close>

definition sentry__run_new :: "malloc \<Rightarrow> bool \<Rightarrow> sentry_uuid_t \<Rightarrow> string \<Rightarrow> disk \<Rightarrow> sentry_run_t option \<times> disk" where
  "sentry__run_new malloc try_lock uuid database_path fs =
     (let run_name = sentry_uuid_as_string uuid @ ''.run'';
          rp = sentry__path_join_str malloc database_path run_name;
          lock_path = sentry__path_join_str malloc database_path (run_name @ ''.lock'')
      in case run_new malloc try_lock (Some database_path) rp lock_path fs of
           (r, fs) \<Rightarrow> (map_option (\<lambda>run. run\<lparr>run_uuid := uuid\<rparr>) r, fs))"

definition sentry__run_adopt :: "malloc \<Rightarrow> bool \<Rightarrow> string option \<Rightarrow> string option \<Rightarrow> disk \<Rightarrow> sentry_run_t option \<times> disk" where
  "sentry__run_adopt malloc try_lock database_path rp fs =
     (case (database_path, rp) of
        (Some db, Some p) \<Rightarrow> run_new malloc try_lock (Some db) (Some p) (sentry__path_append_str malloc p ''.daemon.lock'') fs
      | _ \<Rightarrow> (None, fs))"

definition sentry__run_should_skip_upload :: "sentry_run_t \<Rightarrow> bool" where
  "sentry__run_should_skip_upload run \<longleftrightarrow> require_user_consent run \<and> user_consent run \<noteq> SENTRY_USER_CONSENT_GIVEN"

text \<open>The first character of the file decides; the path of the consent file may not be built.\<close>

definition sentry__run_load_user_consent :: "malloc \<Rightarrow> string \<Rightarrow> disk \<Rightarrow> sentry_run_t \<Rightarrow> sentry_run_t" where
  "sentry__run_load_user_consent malloc database_path fs run =
     (let contents = (case sentry__path_join_str malloc database_path ''user-consent'' of None \<Rightarrow> None | Some p \<Rightarrow> read_file malloc fs p)
      in run\<lparr>user_consent :=
           (case contents of
              Some (c # _) \<Rightarrow>
                if c = CHR ''1'' then SENTRY_USER_CONSENT_GIVEN
                else if c = CHR ''0'' then SENTRY_USER_CONSENT_REVOKED
                else SENTRY_USER_CONSENT_UNKNOWN
            | _ \<Rightarrow> SENTRY_USER_CONSENT_UNKNOWN)\<rparr>)"

text \<open>The identifier stored in the contents of the file for this key, if there is one.\<close>

definition stored_installation_id :: "string option \<Rightarrow> string \<Rightarrow> string" where
  "stored_installation_id contents pkey =
     (case contents of
        None \<Rightarrow> []
      | Some c \<Rightarrow>
          if length c \<ge> 36 then
            let tail = \<lparr>ptr = drop 36 c, len = length c - 36\<rparr>; key = sentry__slice_trim tail
            in if (len tail = 0 \<or> isspace (ptr tail ! 0)) \<and> sentry__slice_eqs key pkey
               then cstr (take 36 c) else []
          else [])"

definition sentry__run_load_installation_id ::
  "malloc \<Rightarrow> sentry_uuid_t \<Rightarrow> string \<Rightarrow> string option \<Rightarrow> disk \<Rightarrow> sentry_run_t \<Rightarrow> sentry_run_t \<times> disk" where
  "sentry__run_load_installation_id malloc new_uuid database_path pkey fs run =
     (case sentry__path_join_str malloc database_path ''installation_id'' of
        None \<Rightarrow> (run, fs)
      | Some id_path \<Rightarrow>
          let key = (case pkey of None \<Rightarrow> [] | Some k \<Rightarrow> k);
              uuid_str = stored_installation_id (read_file malloc fs id_path) key
          in if uuid_str = []
             then
               let uuid_str = sentry_uuid_as_string new_uuid;
                   fs = (if malloc (36 + 1 + length key + 1) = None then fs
                         else snd (write_file id_path (uuid_str @ [CHR 0x0A] @ key @ [CHR 0x0A]) fs))
               in (run\<lparr>installation_id := Some uuid_str\<rparr>, fs)
             else (run\<lparr>installation_id := Some uuid_str\<rparr>, fs))"

text \<open>\<open>sentry__path_remove_all\<close>: directories are emptied first.  The fuel bounds the depth of the directories below a path;
  a path longer than \<open>PATH_MAX\<close> (4096) cannot be opened, and each level makes the path longer.\<close>

fun path_remove_all :: "nat \<Rightarrow> malloc \<Rightarrow> string \<Rightarrow> disk \<Rightarrow> disk" where
  "path_remove_all 0 malloc p fs = snd (sentry__path_remove p fs)"
| "path_remove_all (Suc n) malloc p fs =
     (let fs = (if sentry__path_is_dir fs p \<and> \<not> sentry__path_is_symlink fs p
                then fold (path_remove_all n malloc) (directory_paths malloc fs p) fs else fs)
      in snd (sentry__path_remove p fs))"

abbreviation PATH_MAX :: nat where "PATH_MAX \<equiv> 4096"

definition sentry__path_remove_all :: "malloc \<Rightarrow> string \<Rightarrow> disk \<Rightarrow> disk" where
  "sentry__path_remove_all malloc p fs = path_remove_all PATH_MAX malloc p fs"

definition sentry__run_clean :: "malloc \<Rightarrow> bool \<Rightarrow> sentry_run_t \<Rightarrow> disk \<Rightarrow> sentry_run_t \<times> disk" where
  "sentry__run_clean malloc force run fs =
     (if \<not> force \<and> retain run then (run\<lparr>run_locked := False\<rparr>, fs)
      else (run\<lparr>run_locked := False\<rparr>, sentry__path_remove_all malloc (run_path run) fs))"

section \<open>Envelopes of a run\<close>

definition write_envelope ::
  "malloc \<Rightarrow> (double \<Rightarrow> string) \<Rightarrow> (string \<Rightarrow> double) \<Rightarrow> sentry_uuid_t \<Rightarrow> string \<Rightarrow> sentry_envelope_t \<Rightarrow> disk \<Rightarrow> bool \<times> disk" where
  "write_envelope malloc fd strtod new_id dir envelope fs =
     (let event_id = sentry__envelope_get_event_id strtod (Some envelope);
          event_id = (if sentry_uuid_is_nil event_id then new_id else event_id)
      in case sentry__uuid_as_filename malloc event_id (Some ''.envelope'') of
           None \<Rightarrow> (False, fs)
         | Some envelope_filename \<Rightarrow>
             (case sentry__path_join_str malloc dir (cstr envelope_filename) of
                None \<Rightarrow> (False, fs)
              | Some output_path \<Rightarrow>
                  (case sentry_envelope_write_to_path fd envelope output_path fs of (rv, fs) \<Rightarrow> (rv = 0, fs))))"

definition sentry__run_write_envelope where
  "sentry__run_write_envelope malloc fd strtod new_id run envelope fs =
     (case write_envelope malloc fd strtod new_id (run_path run) envelope fs of
        (False, fs) \<Rightarrow> (False, run, fs)
      | (True, fs) \<Rightarrow> (True, run\<lparr>retain := True\<rparr>, fs))"

definition sentry__run_write_external where
  "sentry__run_write_external malloc fd strtod new_id run envelope fs =
     (case sentry__path_create_dir_all (external_path run) fs of
        (rv, fs) \<Rightarrow> if rv \<noteq> 0 then (False, fs) else write_envelope malloc fd strtod new_id (external_path run) envelope fs)"

text \<open>\<open>t\<close> is the time in milliseconds.\<close>

definition sentry__run_write_cache ::
  "malloc \<Rightarrow> (double \<Rightarrow> string) \<Rightarrow> (string \<Rightarrow> double) \<Rightarrow> u64 \<Rightarrow> sentry_uuid_t \<Rightarrow> string \<Rightarrow> sentry_envelope_t \<Rightarrow> int \<Rightarrow> disk \<Rightarrow> bool \<times> disk" where
  "sentry__run_write_cache malloc fd strtod t new_id cache envelope retry_count fs =
     (case sentry__path_create_dir_all cache fs of
        (rv, fs) \<Rightarrow>
          if rv \<noteq> 0 then (False, fs)
          else if retry_count < 0
          then (case sentry__envelope_write_to_cache malloc fd strtod new_id envelope cache fs of (rv, fs) \<Rightarrow> (rv = 0, fs))
          else
            let event_id = sentry__envelope_get_event_id strtod (Some envelope);
                event_id = (if sentry_uuid_is_nil event_id then new_id else event_id)
            in case sentry__run_make_cache_path malloc cache t retry_count (sentry_uuid_as_string event_id) of
                 None \<Rightarrow> (False, fs)
               | Some p \<Rightarrow> (case sentry_envelope_write_to_path fd envelope p fs of (rv, fs) \<Rightarrow> (rv = 0, fs)))"

definition sentry__run_move_cache :: "malloc \<Rightarrow> u64 \<Rightarrow> string \<Rightarrow> string \<Rightarrow> int \<Rightarrow> disk \<Rightarrow> bool \<times> disk" where
  "sentry__run_move_cache malloc t cache src retry_count fs =
     (case sentry__path_create_dir_all cache fs of
        (rv, fs) \<Rightarrow>
          if rv \<noteq> 0 then (False, fs)
          else
            let src_name = sentry__path_filename src;
                cache_name = (case sentry__parse_cache_filename (Some src_name) of Some (_, _, u) \<Rightarrow> u | None \<Rightarrow> src_name)
            in case sentry__run_make_cache_path malloc cache t retry_count cache_name of
                 None \<Rightarrow> (False, fs)
               | Some dst_path \<Rightarrow> (case sentry__path_rename src dst_path fs of (rv, fs) \<Rightarrow> (rv = 0, fs)))"

text \<open>The marker of a crash, which is written only beside its envelope.\<close>

definition run_crash_marker_path :: "malloc \<Rightarrow> string option \<Rightarrow> sentry_uuid_t option \<Rightarrow> string option" where
  "run_crash_marker_path malloc rp event_id =
     (case (rp, event_id) of
        (Some rp, Some eid) \<Rightarrow>
          if sentry_uuid_is_nil eid then None
          else (case sentry__uuid_as_filename malloc eid (Some ''.crash'') of
                  None \<Rightarrow> None | Some filename \<Rightarrow> sentry__path_join_str malloc rp (cstr filename))
      | _ \<Rightarrow> None)"

definition sentry__run_write_crash_marker :: "malloc \<Rightarrow> sentry_run_t option \<Rightarrow> sentry_uuid_t option \<Rightarrow> disk \<Rightarrow> bool \<times> disk" where
  "sentry__run_write_crash_marker malloc run event_id fs =
     (case (run, event_id) of
        (Some run, Some eid) \<Rightarrow>
          if sentry_uuid_is_nil eid then (False, fs)
          else
            let envelope_path =
              (case sentry__uuid_as_filename malloc eid (Some ''.envelope'') of
                 None \<Rightarrow> None | Some filename \<Rightarrow> sentry__path_join_str malloc (run_path run) (cstr filename))
            in (case envelope_path of
                  None \<Rightarrow> (False, fs)
                | Some p \<Rightarrow>
                    if \<not> sentry__path_is_file fs p then (False, fs)
                    else (case run_crash_marker_path malloc (Some (run_path run)) (Some eid) of
                            None \<Rightarrow> (False, fs)
                          | Some marker \<Rightarrow> (case sentry__path_touch marker fs of (rv, fs) \<Rightarrow> (rv = 0, fs))))
      | _ \<Rightarrow> (False, fs))"

definition sentry__run_clear_session :: "sentry_run_t \<Rightarrow> disk \<Rightarrow> bool \<times> disk" where
  "sentry__run_clear_session run fs = (case sentry__path_remove (session_path run) fs of (rv, fs) \<Rightarrow> (rv = 0, fs))"

text \<open>The marker that the last run crashed; \<open>iso_time\<close> is the formatted time, if it could be allocated.\<close>

definition sentry__write_crash_marker :: "malloc \<Rightarrow> string option \<Rightarrow> string \<Rightarrow> disk \<Rightarrow> bool \<times> disk" where
  "sentry__write_crash_marker malloc iso_time database_path fs =
     (case iso_time of
        None \<Rightarrow> (False, fs)
      | Some stamp \<Rightarrow>
          (case sentry__path_join_str malloc database_path ''last_crash'' of
             None \<Rightarrow> (False, fs)
           | Some p \<Rightarrow> (case write_file p stamp fs of (rv, fs) \<Rightarrow> (rv = 0, fs))))"

definition sentry__has_crash_marker :: "malloc \<Rightarrow> string \<Rightarrow> disk \<Rightarrow> bool" where
  "sentry__has_crash_marker malloc database_path fs =
     (case sentry__path_join_str malloc database_path ''last_crash'' of None \<Rightarrow> False | Some p \<Rightarrow> sentry__path_is_file fs p)"

definition sentry__clear_crash_marker :: "malloc \<Rightarrow> string \<Rightarrow> disk \<Rightarrow> bool \<times> disk" where
  "sentry__clear_crash_marker malloc database_path fs =
     (case sentry__path_join_str malloc database_path ''last_crash'' of
        None \<Rightarrow> (False, fs)
      | Some p \<Rightarrow> (case sentry__path_remove p fs of (rv, fs) \<Rightarrow> (rv = 0, fs)))"

section \<open>Attachments beside an envelope\<close>

definition basename_char :: "char \<Rightarrow> char" where
  "basename_char c = (if isupper c \<or> islower c \<or> isdigit c \<or> c = CHR ''.'' \<or> c = CHR ''_'' \<or> c = CHR ''-'' then c else CHR ''_'')"

text \<open>The text in the buffer, which is not touched when it has no room.\<close>

definition sanitize_basename :: "string option \<Rightarrow> nat \<Rightarrow> string option" where
  "sanitize_basename src out_size =
     (if out_size = 0 then None
      else
        let name = (case src of None \<Rightarrow> [] | Some s \<Rightarrow> map basename_char (take (out_size - 1) (dropWhile (\<lambda>c. c = CHR ''.'') s)))
        in Some (if name = [] then take (out_size - 1) ''attachment'' else name))"

text \<open>A minidump is named by the identifier alone, in a buffer of 41 bytes; other attachments keep their cleaned name, in a
  buffer of 256 bytes.\<close>

definition build_sibling_path :: "malloc \<Rightarrow> disk \<Rightarrow> string \<Rightarrow> string \<Rightarrow> sentry_attachment_t \<Rightarrow> string option" where
  "build_sibling_path malloc fs cache uuid_str att =
     (if att_type att = Some ''event.minidump''
      then sentry__path_unique malloc (sentry__path_is_file fs) (Some cache) (Some (take 40 (uuid_str @ ''.dmp'')))
      else sentry__path_unique malloc (sentry__path_is_file fs) (Some cache)
             (Some (take 36 uuid_str @ ''-'' @ the (sanitize_basename (sentry__attachment_get_filename att) (256 - 37)))))"

definition cache_attachment_ref ::
  "malloc \<Rightarrow> (double \<Rightarrow> string) \<Rightarrow> sentry_attachment_t \<Rightarrow> string \<Rightarrow> string \<Rightarrow> string option \<Rightarrow> sentry_envelope_t \<times> disk
     \<Rightarrow> bool \<times> sentry_envelope_t \<times> disk" where
  "cache_attachment_ref malloc fd att cache uuid_str rp st =
     (let (envelope, fs) = st;
          (bytes, _) = sentry__attachment_get_bytes (Some att);
          path = (if bytes \<noteq> None then None else sentry__attachment_get_path (Some att))
      in if bytes = None \<and> (case path of None \<Rightarrow> True | Some p \<Rightarrow> \<not> sentry__path_is_file fs p) then (False, envelope, fs)
         else
           let (rv, fs) = sentry__path_create_dir_all cache fs in
           if rv \<noteq> 0 then (False, envelope, fs)
           else case build_sibling_path malloc fs cache uuid_str att of
               None \<Rightarrow> (False, envelope, fs)
             | Some dst \<Rightarrow>
                 let (rv, fs) =
                   (case bytes of
                      Some b \<Rightarrow> write_file dst b fs
                    | None \<Rightarrow>
                        if (case rp of None \<Rightarrow> False | Some r \<Rightarrow> sentry__path_eq (sentry__path_dir (the path)) r)
                        then sentry__path_rename (the path) dst fs else sentry__path_copy (the path) dst fs)
                 in if rv \<noteq> 0 then (False, envelope, snd (sentry__path_remove dst fs))
                    else
                      let ref = \<lparr>ref_path = Some (sentry__path_filename dst), ref_location = None, ref_content_type = att_content_type att,
                                 ref_attachment_type = None\<rparr>
                      in (case sentry__envelope_add_attachment_ref malloc fd envelope (Some ref) (sentry__attachment_get_filename att)
                              (att_type att) (sentry__path_get_size fs dst) of
                            (envelope, None) \<Rightarrow> (False, envelope, snd (sentry__path_remove dst fs))
                          | (envelope, Some _) \<Rightarrow> (True, envelope, fs)))"

definition sentry__cache_attachment_ref where
  "sentry__cache_attachment_ref malloc fd strtod attachment cache rp st =
     (case (st, attachment, cache) of
        ((Some envelope, fs), Some att, Some c) \<Rightarrow>
          let event_id = sentry__envelope_get_event_id strtod (Some envelope)
          in if sentry_uuid_is_nil event_id then (False, Some envelope, fs)
             else (case cache_attachment_ref malloc fd att c (sentry_uuid_as_string event_id) rp (envelope, fs) of
                     (ok, e, fs) \<Rightarrow> (ok, Some e, fs))
      | ((e, fs), _, _) \<Rightarrow> (False, e, fs))"

text \<open>The loop over the attachments: those too large to be sent inline are cached, and counted when that fails.\<close>

fun cache_refs ::
  "malloc \<Rightarrow> (double \<Rightarrow> string) \<Rightarrow> bool option \<Rightarrow> string \<Rightarrow> string \<Rightarrow> string option \<Rightarrow> sentry_attachment_t list
     \<Rightarrow> sentry_envelope_t \<times> disk \<times> discard_counts \<Rightarrow> sentry_envelope_t \<times> disk \<times> discard_counts" where
  "cache_refs malloc fd options cache uuid_str rp [] st = st"
| "cache_refs malloc fd options cache uuid_str rp (att # atts) (envelope, fs, g) =
     (if \<not> sentry__attachment_is_placeholder (\<lambda>p. case p of None \<Rightarrow> 0 | Some p \<Rightarrow> sentry__path_get_size fs p) (Some att) options
      then cache_refs malloc fd options cache uuid_str rp atts (envelope, fs, g)
      else case cache_attachment_ref malloc fd att cache uuid_str rp (envelope, fs) of
          (ok, envelope, fs) \<Rightarrow>
            cache_refs malloc fd options cache uuid_str rp atts
              (envelope, fs,
               if ok then g else sentry__client_report_discard (SENTRY_DISCARD_REASON_SEND_ERROR, SENTRY_DATA_CATEGORY_ATTACHMENT) 1 g))"

definition sentry__cache_attachment_refs where
  "sentry__cache_attachment_refs malloc fd strtod attachments options cache rp st =
     (case (st, cache) of
        ((envelope, fs, g), Some c) \<Rightarrow>
          let event_id = sentry__envelope_get_event_id strtod (Some envelope)
          in if attachments = [] \<or> sentry_uuid_is_nil event_id then st
             else cache_refs malloc fd options c (sentry_uuid_as_string event_id) rp attachments st
      | _ \<Rightarrow> st)"

section \<open>The installation identifier is stable\<close>

lemma length_uuid_string [simp]: "length (sentry_uuid_as_string u) = 36"
  by (simp add: as_string_dashed dashed_def)

lemma hex_bytes_digits: "c \<in> set (hex_bytes u ixs) \<Longrightarrow> isxdigit c"
  using hex_byte_isxdigit by (auto simp: hex_bytes_def list_all_iff)

lemma uuid_string_chars: "c \<in> set (sentry_uuid_as_string u) \<Longrightarrow> isxdigit c \<or> c = CHR ''-''"
  by (auto simp: sentry_uuid_as_string_def dest: hex_bytes_digits)

lemma trim_spec_around:
  assumes "\<forall>c \<in> set pre \<union> set post. is_space c" "trim_spec s = s"
  shows "trim_spec (pre @ s @ post) = s"
proof (cases "s = []")
  case True
  then show ?thesis using assms trim_spec_pad [of "pre @ post" "[]"] by (auto simp: trim_spec_def)
next
  case False
  then have "\<not> is_space (hd s)" "\<not> is_space (last s)" using assms(2) trim_spec_hd trim_spec_last by metis+
  then have "dropWhile is_space (pre @ s @ post) = s @ post" "dropWhile is_space (rev post @ rev s) = rev s"
    using False assms(1) by (cases s, auto simp: dropWhile_append) (cases s rule: rev_cases, auto simp: dropWhile_append)
  then show ?thesis by (simp add: trim_spec_def)
qed

lemma stored_id_written:
  assumes "trim_spec key = key"
  shows "stored_installation_id (Some (sentry_uuid_as_string u @ [CHR 0x0A] @ key @ [CHR 0x0A])) key = sentry_uuid_as_string u"
proof -
  let ?t = "\<lparr>ptr = CHR 0x0A # key @ [CHR 0x0A], len = length key + 2\<rparr>"
  have "slice_wf ?t" "slice_view ?t = [CHR 0x0A] @ key @ [CHR 0x0A]" by (simp_all add: slice_wf_def slice_view_def)
  then have v: "slice_view (sentry__slice_trim ?t) = key" "slice_wf (sentry__slice_trim ?t)"
    using trim_view [of ?t] trim_spec_around [of "[CHR 0x0A]" "[CHR 0x0A]" key] assms by (auto simp: is_space_def)
  then have "sentry__slice_eqs (sentry__slice_trim ?t) key"
    using slice_view_length [OF v(2)] by (simp add: sentry__slice_eqs_def sentry__slice_eq_def sentry__slice_from_str_def slice_view_def)
  moreover have "cstr (sentry_uuid_as_string u) = sentry_uuid_as_string u"
    unfolding cstr_def using uuid_string_chars isxdigit_not_skipped by (intro takeWhile_all) fastforce
  ultimately show ?thesis by (simp add: stored_installation_id_def isspace_def)
qed

text \<open>C40. The installation identifier is stable: once an identifier was loaded for a key, loading it again for the same key
  (in this run or a later one, with another random identifier at hand) gives the same identifier and leaves the disk as
  it is.\<close>

theorem installation_id_stable:
  assumes malloc: "good_malloc malloc" and dir: "dir_ok db" and key: "trim_spec key = key" "length key \<le> 4096"
    and io: "io_works fs (joined db ''installation_id'')"
    and first: "sentry__run_load_installation_id malloc new1 db (Some key) fs run = (run1, fs1)"
    and again: "sentry__run_load_installation_id malloc new2 db (Some key) fs1 other = (run2, fs2)"
  shows "installation_id run2 = installation_id run1 \<and> fs2 = fs1"
proof -
  let ?p = "joined db ''installation_id''"
  have p: "sentry__path_join_str malloc db ''installation_id'' = Some ?p"
    using join_str_eq [OF malloc dir] by (simp add: name_ok_def)
  show ?thesis
  proof (cases "stored_installation_id (read_file malloc fs ?p) key = []")
    case False
    then show ?thesis using first again p by (auto simp: sentry__run_load_installation_id_def Let_def)
  next
    case True
    let ?text = "sentry_uuid_as_string new1 @ [CHR 0x0A] @ key @ [CHR 0x0A]"
    have m: "malloc n \<noteq> None" for n using malloc by (simp add: good_malloc_def)
    have w: "fs1 = fs\<lparr>fs_files := (fs_files fs)(?p \<mapsto> ?text)\<rparr>" and r1: "installation_id run1 = Some (sentry_uuid_as_string new1)"
      using first True p write_file_ok [OF io] m by (auto simp: sentry__run_load_installation_id_def Let_def split: if_splits)
    have "read_file malloc fs1 ?p = Some ?text"
      using malloc io key(2) by (intro read_file_ok) (auto simp: w io_works_def)
    then have "stored_installation_id (read_file malloc fs1 ?p) key = sentry_uuid_as_string new1"
      using stored_id_written [OF key(1)] by simp
    then show ?thesis
      using again p r1 by (auto simp: sentry__run_load_installation_id_def Let_def split: if_splits)
         (metis length_uuid_string list.size(3) zero_neq_numeral)+
  qed
qed

definition demo_run :: sentry_run_t where
  "demo_run = \<lparr>run_uuid = sentry_uuid_nil, run_path = ''d/r.run'', session_path = ''d/r.run/session.json'', external_path = ''d/external'',
     cache_path = ''d/cache'', run_locked = True, retain = False, require_user_consent = False,
     user_consent = SENTRY_USER_CONSENT_UNKNOWN, installation_id = None\<rparr>"

lemma demo_malloc_good: "good_malloc demo_malloc"
  by (simp add: good_malloc_def malloc_sized_def demo_malloc_def)

theorem installation_id_stable_witness:
  "\<exists>run1 fs1 run2 fs2.
     sentry__run_load_installation_id demo_malloc \<lparr>bytes = replicate 16 CHR ''a''\<rparr> ''d'' (Some ''key'') demo_disk demo_run = (run1, fs1)
     \<and> sentry__run_load_installation_id demo_malloc \<lparr>bytes = replicate 16 CHR ''b''\<rparr> ''d'' (Some ''key'') fs1 demo_run = (run2, fs2)
     \<and> installation_id run2 = installation_id run1"
proof -
  obtain run1 fs1 where a: "sentry__run_load_installation_id demo_malloc \<lparr>bytes = replicate 16 CHR ''a''\<rparr> ''d'' (Some ''key'') demo_disk demo_run = (run1, fs1)"
    by fastforce
  obtain run2 fs2 where b: "sentry__run_load_installation_id demo_malloc \<lparr>bytes = replicate 16 CHR ''b''\<rparr> ''d'' (Some ''key'') fs1 demo_run = (run2, fs2)"
    by fastforce
  have "dir_ok ''d''" "trim_spec ''key'' = ''key''" "io_works demo_disk (joined ''d'' ''installation_id'')"
    by (simp_all add: dir_ok_def trim_spec_def is_space_def io_works_def demo_disk_def)
  then have "installation_id run2 = installation_id run1"
    using installation_id_stable [OF demo_malloc_good _ _ _ _ a b] by simp
  then show ?thesis using a b by blast
qed

end
