(* ===== verification/Retry.thy ===== *)
theory Retry
  imports Database
begin

text \<open>
  Retrying envelopes (\<open>sentry_retry.c\<close>).  Envelopes that could not be sent are files of the cache directory; their names carry the
  time of the last attempt and the number of attempts.  A pass over the directory sends the files that are due, oldest first,
  stops at the first network failure, and renames, moves or removes each file by the outcome.  The first part of the theory is
  a pass; the second part is the protocol of polls, enqueues, shutdown and seal between the threads.
\<close>

abbreviation SENTRY_RETRY_ATTEMPTS :: int where "SENTRY_RETRY_ATTEMPTS \<equiv> 6"
abbreviation SENTRY_RETRY_INTERVAL :: nat where "SENTRY_RETRY_INTERVAL \<equiv> 15 * 60 * 1000"
abbreviation SENTRY_RETRY_THROTTLE :: nat where "SENTRY_RETRY_THROTTLE \<equiv> 100"

section \<open>A pass\<close>

definition sentry__retry_backoff :: "int \<Rightarrow> u64" where
  "sentry__retry_backoff n = push_bit (nat (min (max n 0) 5)) (of_nat SENTRY_RETRY_INTERVAL)"

record retry_item_t =
  ri_path :: string
  ri_ts :: u64
  ri_count :: int
  ri_uuid :: string

definition compare_retry_items :: "retry_item_t \<Rightarrow> retry_item_t \<Rightarrow> int" where
  "compare_retry_items ia ib =
     (if ri_ts ia \<noteq> ri_ts ib then (if ri_ts ia < ri_ts ib then - 1 else 1)
      else if ri_count ia \<noteq> ri_count ib then ri_count ia - ri_count ib
      else strcmp (ri_uuid ia) (ri_uuid ib))"

text \<open>The outcome of an attempt: whether the file is to be retried, and the disk.  \<open>t\<close> is the time in milliseconds.\<close>

definition handle_result ::
  "malloc \<Rightarrow> (double \<Rightarrow> string) \<Rightarrow> (string \<Rightarrow> double) \<Rightarrow> u64 \<Rightarrow> sentry_uuid_t \<Rightarrow> string \<Rightarrow> sentry_cache_keep_t
     \<Rightarrow> retry_item_t \<Rightarrow> sentry_envelope_t \<Rightarrow> int \<Rightarrow> disk \<Rightarrow> bool \<times> disk" where
  "handle_result malloc fd strtod t new_id cache keep item envelope status_code fs =
     (if ri_count item + 1 < SENTRY_RETRY_ATTEMPTS \<and> status_code < 0
      then (True,
            case sentry__run_make_cache_path malloc cache t (ri_count item + 1) (ri_uuid item) of
              None \<Rightarrow> fs
            | Some new_path \<Rightarrow> snd (sentry__path_rename (ri_path item) new_path fs))
      else
        let exhausted = (ri_count item + 1 \<ge> SENTRY_RETRY_ATTEMPTS) in
        if exhausted \<and> keep \<noteq> SENTRY_CACHE_KEEP_NONE \<and> status_code < 0
        then
          let cached = (keep = SENTRY_CACHE_KEEP_ALWAYS
                \<and> (case sentry__run_make_cache_path malloc cache 0 (- 1) (ri_uuid item) of None \<Rightarrow> False | Some p \<Rightarrow> sentry__path_is_file fs p))
          in if cached then (False, snd (sentry__path_remove (ri_path item) fs))
             else (case sentry__run_move_cache malloc t cache (ri_path item) (- 1) fs of
                     (True, fs) \<Rightarrow> (False, fs)
                   | (False, fs) \<Rightarrow> (False, sentry__cache_remove_envelope malloc (Some (ri_path item)) fs))
        else
          (case (if keep = SENTRY_CACHE_KEEP_ALWAYS then sentry__run_write_cache malloc fd strtod t new_id cache envelope (- 1) fs else (False, fs)) of
             (True, fs) \<Rightarrow> (False, snd (sentry__path_remove (ri_path item) fs))
           | (False, fs) \<Rightarrow> (False, sentry__cache_remove_envelope malloc (Some (ri_path item)) fs)))"

text \<open>The loop over the directory: the eligible items and the number of files that wait.  An item takes 64 bytes and the copy of its
  path 8; a failure to grow the array or to copy the path ends the loop.\<close>

fun collect_items :: "malloc \<Rightarrow> u64 \<Rightarrow> u64 \<Rightarrow> string list \<Rightarrow> nat \<Rightarrow> retry_item_t list \<Rightarrow> nat \<Rightarrow> retry_item_t list \<times> nat" where
  "collect_items malloc before now [] cap items n = (items, n)"
| "collect_items malloc before now (p # ps) cap items n =
     (case sentry__parse_cache_filename (Some (sentry__path_filename p)) of
        None \<Rightarrow> collect_items malloc before now ps cap items n
      | Some (ts, cnt, uuid) \<Rightarrow>
          if cnt < 0 then collect_items malloc before now ps cap items n
          else if before > 0 \<and> ts \<ge> before then collect_items malloc before now ps cap items n
          else if before = 0 \<and> (now < ts \<or> now - ts < sentry__retry_backoff cnt) then collect_items malloc before now ps cap items (n + 1)
          else
            let item = \<lparr>ri_path = p, ri_ts = ts, ri_count = cnt, ri_uuid = take 36 uuid\<rparr>;
                cap' = (if length items = cap then 2 * cap else cap)
            in if length items = cap \<and> malloc (cap' * 64) = None \<or> malloc 8 = None then (items, n + 1)
               else collect_items malloc before now ps cap' (items @ [item]) (n + 1))"

text \<open>The loop over the sorted items.  \<open>send_cb\<close> sends an envelope: it gives the status, and may change the envelope (attachments
  are resolved, a client report is added), the disk (the files of attachments are removed) and a state of its own.  The list of
  identifiers stands for the random identifiers that are drawn for envelopes without one.\<close>

fun send_items ::
  "malloc \<Rightarrow> (double \<Rightarrow> string) \<Rightarrow> (string \<Rightarrow> double) \<Rightarrow> u64 \<Rightarrow> (nat \<Rightarrow> sentry_uuid_t) \<Rightarrow> string \<Rightarrow> sentry_cache_keep_t
     \<Rightarrow> ('s \<Rightarrow> sentry_envelope_t \<Rightarrow> disk \<Rightarrow> int \<times> sentry_envelope_t \<times> disk \<times> 's)
     \<Rightarrow> nat \<Rightarrow> retry_item_t list \<Rightarrow> nat \<Rightarrow> disk \<Rightarrow> 's \<Rightarrow> nat \<times> disk \<times> 's" where
  "send_items malloc fd strtod t ids cache keep send_cb i [] n fs s = (n, fs, s)"
| "send_items malloc fd strtod t ids cache keep send_cb i (item # items) n fs s =
     (case sentry__envelope_from_path (read_file malloc fs (ri_path item)) of
        None \<Rightarrow>
          send_items malloc fd strtod t ids cache keep send_cb (Suc i) items (n - 1)
            (sentry__cache_remove_envelope malloc (Some (ri_path item)) fs) s
      | Some envelope \<Rightarrow>
          (case send_cb s envelope fs of
             (status_code, envelope, fs, s) \<Rightarrow>
               (case handle_result malloc fd strtod t (ids i) cache keep item envelope status_code fs of
                  (keep_retry, fs) \<Rightarrow>
                    let n = (if keep_retry then n else n - 1)
                    in if status_code < 0 then (n, fs, s)
                       else send_items malloc fd strtod t ids cache keep send_cb (Suc i) items n fs s)))"

definition sentry__retry_send where
  "sentry__retry_send malloc fd strtod now t ids run keep before send_cb fs s =
     (if sentry__run_should_skip_upload run then (1, fs, s)
      else if malloc (16 * 64) = None then (0, fs, s)
      else
        let (items, n) = collect_items malloc before (if before > 0 then 0 else now) (directory_paths malloc fs (cache_path run)) 16 [] 0
        in send_items malloc fd strtod t ids (cache_path run) keep send_cb 0 (qsort compare_retry_items items) n fs s)"

interpretation oldest_first: comparison compare_retry_items "\<lambda>i. CHR 0x00 \<notin> set (ri_uuid i)"
proof
  fix a b c :: retry_item_t
  show "compare_retry_items a b \<le> 0 \<or> compare_retry_items b a \<le> 0"
    using strcmp_total by (auto simp: compare_retry_items_def)
  assume "CHR 0x00 \<notin> set (ri_uuid a)" "compare_retry_items a b \<le> 0" "compare_retry_items b c \<le> 0"
  then show "compare_retry_items a c \<le> 0"
    using strcmp_trans [of "ri_uuid a" "ri_uuid b" "ri_uuid c"] by (auto simp: compare_retry_items_def split: if_splits)
qed

section \<open>Names of waiting files are never siblings\<close>

lemma nth_dash:
  assumes "i < 36"
  shows "sentry_uuid_as_string u ! i = CHR ''-'' \<longleftrightarrow> i \<in> {8, 13, 18, 23}"
proof -
  have x: "c \<noteq> CHR ''-''" if "c \<in> set (hex_bytes u ixs)" for c ixs
    using that hex_bytes_digits isxdigit_not_skipped by blast
  have n: "hex_bytes u ixs ! j \<noteq> CHR ''-''" if "j < 2 * length ixs" for j ixs
  proof (rule x)
    show "hex_bytes u ixs ! j \<in> set (hex_bytes u ixs)"
      using that by (intro nth_mem) (simp add: hex_bytes_def hex_byte_def length_concat comp_def sum_list_triv)
  qed
  have l: "length (hex_bytes u ixs) = 2 * length ixs" for ixs
    by (simp add: hex_bytes_def hex_byte_def length_concat comp_def sum_list_triv)
  have "sentry_uuid_as_string u ! i \<noteq> CHR ''-''" if i: "i \<notin> {8, 13, 18, 23}"
  proof -
    consider "i < 8" | j where "i = 9 + j" "j < 4" | j where "i = 14 + j" "j < 4" | j where "i = 19 + j" "j < 4" | j where "i = 24 + j" "j < 12"
      using assms i unfolding insert_iff empty_iff by atomize_elim presburger
    then show ?thesis by cases (simp_all add: sentry_uuid_as_string_def nth_append l n)
  qed
  moreover have "sentry_uuid_as_string u ! i = CHR ''-''" if "i \<in> {8, 13, 18, 23}"
    using that by (auto simp: sentry_uuid_as_string_def nth_append l)
  ultimately show ?thesis by blast
qed

lemma pad2_two: "n < 100 \<Longrightarrow> length (pad2 n) = 2"
proof -
  assume n: "n < 100"
  show ?thesis
  proof (cases "n < 10")
    case True
    then show ?thesis by (simp add: pad2_def dec_str.simps [of n])
  next
    case False
    then show ?thesis using n by (simp add: pad2_def dec_str.simps [of n] dec_str.simps [of "n div 10"])
  qed
qed

text \<open>The dashes of a retry name are three characters apart, those of an identifier five or more.\<close>

lemma retry_name_not_sibling:
  assumes "length uuid = 36" "0 \<le> cnt" "cnt < 100"
  shows "\<not> is_cache_sibling (cache_filename ts cnt uuid) (sentry_uuid_as_string u @ rest)"
proof
  assume sib: "is_cache_sibling (cache_filename ts cnt uuid) (sentry_uuid_as_string u @ rest)"
  let ?k = "length (dec_str (unat ts))" and ?n = "cache_filename ts cnt uuid" and ?u = "sentry_uuid_as_string u"
  have name: "?n = dec_str (unat ts) @ CHR ''-'' # pad2 (nat cnt) @ CHR ''-'' # uuid @ ''.envelope''"
    using assms by (intro cache_filename_retry) auto
  have two: "length (pad2 (nat cnt)) = 2" using assms by (intro pad2_two) simp
  have "take 36 ?n = ?u" using sib by (simp add: is_cache_sibling_def split: if_splits)
  then have eq: "?u ! i = ?n ! i" if "i < 36" for i using that by (metis nth_take)
  have k: "?k \<le> 20" by (rule dec_str_u64)
  have "?u ! ?k = CHR ''-''" "?u ! (?k + 3) = CHR ''-''"
    using eq [of ?k] eq [of "?k + 3"] k two by (simp_all add: name nth_append)
  then have "?k \<in> {8, 13, 18, 23}" "?k + 3 \<in> {8, 13, 18, 23}" using k nth_dash [of ?k u] nth_dash [of "?k + 3" u] by auto
  then show False by auto
qed

section \<open>One attempt\<close>

lemma handle_ok:
  assumes "keep \<noteq> SENTRY_CACHE_KEEP_ALWAYS" "status_code \<ge> 0"
  shows "handle_result malloc fd strtod t new_id cache keep item envelope status_code fs = (False, drop_envelope malloc (ri_path item) fs)"
  using assms by (simp add: handle_result_def Let_def cache_remove_envelope_Some)

lemma handle_again:
  assumes "status_code < 0" "ri_count item + 1 < SENTRY_RETRY_ATTEMPTS"
    and "sentry__run_make_cache_path malloc cache t (ri_count item + 1) (ri_uuid item) = Some p"
  shows "handle_result malloc fd strtod t new_id cache keep item envelope status_code fs = (True, snd (sentry__path_rename (ri_path item) p fs))"
  using assms by (simp add: handle_result_def)

lemma handle_exhausted:
  assumes "status_code < 0" "ri_count item + 1 \<ge> SENTRY_RETRY_ATTEMPTS"
  shows "fst (handle_result malloc fd strtod t new_id cache keep item envelope status_code fs) = False"
  using assms by (auto simp: handle_result_def Let_def split: prod.splits bool.splits)

section \<open>A whole pass\<close>

abbreviation drop_item :: "malloc \<Rightarrow> retry_item_t \<Rightarrow> disk \<Rightarrow> disk" where
  "drop_item malloc i \<equiv> drop_envelope malloc (ri_path i)"

definition apart :: "retry_item_t list \<Rightarrow> bool" where
  "apart items \<longleftrightarrow> distinct (map ri_path items) \<and> (\<forall>i \<in> set items. \<forall>j \<in> set items. \<not> sibling_of (ri_path j) (ri_path i))"

text \<open>An item goes when its file cannot be read or the server answered.  The status may depend on what was sent before.\<close>

definition goes ::
  "malloc \<Rightarrow> (sentry_envelope_t list \<Rightarrow> sentry_envelope_t \<Rightarrow> int) \<Rightarrow> disk \<Rightarrow> sentry_envelope_t list \<Rightarrow> retry_item_t \<Rightarrow> bool" where
  "goes malloc status fs earlier i = (case read_file malloc fs (ri_path i) of None \<Rightarrow> True | Some b \<Rightarrow> status earlier (Raw b) \<ge> 0)"

definition attempts :: "malloc \<Rightarrow> disk \<Rightarrow> retry_item_t list \<Rightarrow> sentry_envelope_t list" where
  "attempts malloc fs items = map Raw (List.map_filter (\<lambda>i. read_file malloc fs (ri_path i)) items)"

lemma attempts_simps:
  "attempts malloc fs [] = []"
  "attempts malloc fs (i # is) = (case read_file malloc fs (ri_path i) of None \<Rightarrow> [] | Some b \<Rightarrow> [Raw b]) @ attempts malloc fs is"
  "attempts malloc fs (is @ js) = attempts malloc fs is @ attempts malloc fs js"
  by (induction "is") (auto simp: attempts_def List.map_filter_def split: option.splits)

lemma attempts_cong:
  "(\<And>i. i \<in> set is \<Longrightarrow> read_file malloc fs' (ri_path i) = read_file malloc fs (ri_path i)) \<Longrightarrow> attempts malloc fs' is = attempts malloc fs is"
  by (induction "is") (simp_all add: attempts_simps)

lemma read_file_env: "same_env fs fs' \<Longrightarrow> fs_files fs' p = fs_files fs p \<Longrightarrow> read_file malloc fs' p = read_file malloc fs p"
  using same_env_fields [of fs fs'] by (simp add: read_file_def)

text \<open>The callback that sends: it answers with \<open>status\<close>, changes the envelope by \<open>change\<close> and the disk by \<open>touch\<close>, and its state is
  the list of envelopes that were sent.  \<open>touch\<close> changes only the files in \<open>refs\<close>.\<close>

definition sending where
  "sending status change touch = (\<lambda>earlier e fs. (status earlier e, change earlier e, touch earlier e fs, earlier @ [e]))"

definition touches_only :: "('s \<Rightarrow> sentry_envelope_t \<Rightarrow> disk \<Rightarrow> disk) \<Rightarrow> string set \<Rightarrow> bool" where
  "touches_only touch refs \<longleftrightarrow>
     (\<forall>earlier e fs. same_env fs (touch earlier e fs) \<and> (\<forall>q. q \<notin> refs \<longrightarrow> fs_files (touch earlier e fs) q = fs_files fs q))"

text \<open>The disk \<open>fs1\<close> after the items \<open>oks\<close> were answered for.\<close>

definition answered where
  "answered malloc status refs fs earlier oks fs1 \<longleftrightarrow>
     same_env fs fs1
   \<and> (\<forall>k < length oks. goes malloc status fs (earlier @ attempts malloc fs (take k oks)) (oks ! k))
   \<and> (\<forall>i \<in> set oks. fs_files fs1 (ri_path i) = None)
   \<and> (\<forall>q. q \<notin> refs \<and> (\<forall>i \<in> set oks. q \<noteq> ri_path i \<and> \<not> sibling_of q (ri_path i)) \<longrightarrow> fs_files fs1 q = fs_files fs q)"

lemma answered_Cons:
  assumes ap: "apart (x # oks @ rest)" and refs: "\<forall>i \<in> set (x # oks @ rest). ri_path i \<notin> refs" and can: "\<forall>p. fs_can_remove fs p"
    and touch: "same_env fs fs0" "\<And>q. q \<notin> refs \<Longrightarrow> fs_files fs0 q = fs_files fs q"
    and x: "goes malloc status fs earlier x"
    and oks: "answered malloc status refs (drop_item malloc x fs0) (earlier @ attempts malloc fs [x]) oks fs1"
  shows "answered malloc status refs fs earlier (x # oks) fs1"
    and "i \<in> set (oks @ rest) \<Longrightarrow> read_file malloc (drop_item malloc x fs0) (ri_path i) = read_file malloc fs (ri_path i)"
proof -
  let ?fs = "drop_item malloc x fs0"
  have env: "same_env fs ?fs" using touch(1) drop_envelope_files(1) by (rule same_env_trans)
  have other: "ri_path i \<noteq> ri_path x \<and> \<not> sibling_of (ri_path i) (ri_path x) \<and> \<not> sibling_of (ri_path x) (ri_path i)"
    if "i \<in> set (oks @ rest)" for i using ap that by (auto simp: apart_def rev_image_eqI)
  have files: "fs_files ?fs q = fs_files fs q" if "q \<notin> refs" "q \<noteq> ri_path x" "\<not> sibling_of q (ri_path x)" for q
    using that touch(2) drop_envelope_files(2) by metis
  show r: "read_file malloc ?fs (ri_path i) = read_file malloc fs (ri_path i)" if "i \<in> set (oks @ rest)" for i
    using other [OF that] refs that by (intro read_file_env env files) auto
  have a: "attempts malloc ?fs (take k oks) = attempts malloc fs (take k oks)" for k
    using r by (intro attempts_cong) (auto dest: in_set_takeD)
  have g: "goes malloc status fs (earlier @ attempts malloc fs (take k (x # oks))) ((x # oks) ! k)" if "k < length (x # oks)" for k
  proof (cases k)
    case (Suc j)
    then have "goes malloc status ?fs (earlier @ attempts malloc fs [x] @ attempts malloc fs (take j oks)) (oks ! j)"
      using oks that a by (simp add: answered_def)
    then show ?thesis using Suc that r [of "oks ! j"] by (simp add: goes_def attempts_simps)
  qed (simp add: x attempts_simps)
  have "fs_files ?fs (ri_path x) = None" using can same_env_fields [OF touch(1)] by (intro drop_envelope_files(4)) simp
  moreover have "fs_files fs1 (ri_path x) = fs_files ?fs (ri_path x)"
    using oks refs other by (auto simp: answered_def) (metis UnCI)+
  ultimately have "\<forall>i \<in> set (x # oks). fs_files fs1 (ri_path i) = None" using oks by (simp add: answered_def)
  moreover have "same_env fs fs1" using env oks same_env_trans by (auto simp: answered_def)
  moreover have "fs_files fs1 q = fs_files fs q"
    if "q \<notin> refs" "\<forall>i \<in> set (x # oks). q \<noteq> ri_path i \<and> \<not> sibling_of q (ri_path i)" for q
    using that files oks by (simp add: answered_def)
  ultimately show "answered malloc status refs fs earlier (x # oks) fs1" using g unfolding answered_def by blast
qed

text \<open>The loop stops behind the items that were answered for: at the end, or at an item that failed.\<close>

definition stopped where
  "stopped malloc fd strtod t cache keep status touch fs n fs1 earlier rest result \<longleftrightarrow>
     (case rest of
        [] \<Rightarrow> result = (n, fs1, earlier)
      | f # _ \<Rightarrow>
          (\<exists>b e new_id again fs'. read_file malloc fs (ri_path f) = Some b \<and> status earlier (Raw b) < 0
           \<and> handle_result malloc fd strtod t new_id cache keep f e (status earlier (Raw b)) (touch earlier (Raw b) fs1) = (again, fs')
           \<and> result = (if again then n else n - 1, fs', earlier @ [Raw b])))"

lemma stopped_failed:
  assumes "read_file malloc fs (ri_path f) = Some b" "status earlier (Raw b) < 0"
    and "handle_result malloc fd strtod t new_id cache keep f e (status earlier (Raw b)) (touch earlier (Raw b) fs1) = (again, fs')"
  shows "stopped malloc fd strtod t cache keep status touch fs n fs1 earlier (f # later) (if again then n else n - 1, fs', earlier @ [Raw b])"
  unfolding stopped_def list.case
  by (rule exI [of _ b], rule exI [of _ e], rule exI [of _ new_id], rule exI [of _ again], rule exI [of _ fs'], intro conjI assms refl)

lemma stopped_cong:
  "(\<And>i. i \<in> set rest \<Longrightarrow> read_file malloc fs2 (ri_path i) = read_file malloc fs (ri_path i)) \<Longrightarrow>
   stopped malloc fd strtod t cache keep status touch fs2 n fs1 earlier rest = stopped malloc fd strtod t cache keep status touch fs n fs1 earlier rest"
  by (cases rest) (simp_all add: stopped_def fun_eq_iff)

lemma send_items_pass:
  assumes "apart items" "keep \<noteq> SENTRY_CACHE_KEEP_ALWAYS" "touches_only touch refs" "\<forall>i \<in> set items. ri_path i \<notin> refs" "\<forall>p. fs_can_remove fs p"
  shows "\<exists>oks rest fs1. items = oks @ rest \<and> answered malloc status refs fs earlier oks fs1
    \<and> stopped malloc fd strtod t cache keep status touch fs (n - length oks) fs1 (earlier @ attempts malloc fs oks) rest
        (send_items malloc fd strtod t ids cache keep (sending status change touch) i items n fs earlier)"
  using assms
proof (induction items arbitrary: i n fs earlier)
  case Nil
  then show ?case by (intro exI [of _ "[]"] exI [of _ fs]) (simp add: answered_def stopped_def attempts_simps)
next
  case (Cons x xs)
  have x: "apart xs" "\<forall>i \<in> set xs. ri_path i \<notin> refs" using Cons.prems by (auto simp: apart_def)
  let ?go = "send_items malloc fd strtod t ids cache keep (sending status change touch)"
  show ?case
  proof (cases "goes malloc status fs earlier x")
    case True
    define fs0 where "fs0 = (case read_file malloc fs (ri_path x) of None \<Rightarrow> fs | Some b \<Rightarrow> touch earlier (Raw b) fs)"
    have t: "same_env fs fs0" "\<And>q. q \<notin> refs \<Longrightarrow> fs_files fs0 q = fs_files fs q"
      using Cons.prems(3) by (auto simp: fs0_def touches_only_def split: option.splits)
    let ?fs = "drop_item malloc x fs0" and ?earlier = "earlier @ attempts malloc fs [x]"
    have go: "?go i (x # xs) n fs earlier = ?go (Suc i) xs (n - 1) ?fs ?earlier"
      using True Cons.prems(2)
      by (cases "read_file malloc fs (ri_path x)")
        (simp_all add: fs0_def goes_def sentry__envelope_from_path_def cache_remove_envelope_Some sending_def handle_ok attempts_simps)
    have "same_env fs ?fs" using t(1) drop_envelope_files(1) by (rule same_env_trans)
    then have can: "\<forall>p. fs_can_remove ?fs p" using Cons.prems(5) same_env_fields by metis
    obtain oks rest fs1 where ih: "xs = oks @ rest" "answered malloc status refs ?fs ?earlier oks fs1"
      "stopped malloc fd strtod t cache keep status touch ?fs (n - 1 - length oks) fs1 (?earlier @ attempts malloc ?fs oks) rest (?go (Suc i) xs (n - 1) ?fs ?earlier)"
      using Cons.IH [OF x(1) Cons.prems(2,3) x(2) can, of ?earlier "n - 1" "Suc i"] by blast
    note step = answered_Cons [OF Cons.prems(1) [unfolded ih(1)] Cons.prems(4) [unfolded ih(1)] Cons.prems(5) t True ih(2)]
    have "attempts malloc ?fs oks = attempts malloc fs oks" using step(2) by (intro attempts_cong) simp
    then have "stopped malloc fd strtod t cache keep status touch fs (n - length (x # oks)) fs1 (earlier @ attempts malloc fs (x # oks)) rest
        (?go i (x # xs) n fs earlier)"
      unfolding go using ih(3) step(2) by (subst stopped_cong [where ?fs2.0 = ?fs, symmetric]) (simp_all add: attempts_simps)
    then show ?thesis using step(1) ih(1) by (metis append_Cons)
  next
    case False
    then obtain b where b: "read_file malloc fs (ri_path x) = Some b" "status earlier (Raw b) < 0"
      by (auto simp: goes_def split: option.splits)
    obtain again fs' where h: "handle_result malloc fd strtod t (ids i) cache keep x (change earlier (Raw b)) (status earlier (Raw b)) (touch earlier (Raw b) fs) = (again, fs')"
      by (metis surj_pair)
    then have go: "?go i (x # xs) n fs earlier = (if again then n else n - 1, fs', earlier @ [Raw b])"
      using b by (simp add: sentry__envelope_from_path_def sending_def)
    have a: "answered malloc status refs fs earlier [] fs" by (simp add: answered_def)
    show ?thesis unfolding go
      by (rule exI [of _ "[]"], rule exI [of _ "x # xs"], rule exI [of _ fs])
        (use a stopped_failed [where status = status and earlier = earlier and touch = touch, OF b h, of n xs] in \<open>simp add: attempts_simps\<close>)
  qed
qed

text \<open>The files that wait, those of them that are due, and their items.\<close>

definition item_of :: "string \<Rightarrow> retry_item_t" where
  "item_of p =
     (case sentry__parse_cache_filename (Some (sentry__path_filename p)) of
        Some (ts, cnt, uuid) \<Rightarrow> \<lparr>ri_path = p, ri_ts = ts, ri_count = cnt, ri_uuid = take 36 uuid\<rparr>
      | None \<Rightarrow> \<lparr>ri_path = p, ri_ts = 0, ri_count = - 1, ri_uuid = []\<rparr>)"

definition waits :: "u64 \<Rightarrow> string \<Rightarrow> bool" where
  "waits before p \<longleftrightarrow> ri_count (item_of p) \<ge> 0 \<and> (before > 0 \<longrightarrow> ri_ts (item_of p) < before)"

definition due :: "u64 \<Rightarrow> u64 \<Rightarrow> string \<Rightarrow> bool" where
  "due before now p \<longleftrightarrow> waits before p \<and>
     (before = 0 \<longrightarrow> ri_ts (item_of p) \<le> now \<and> sentry__retry_backoff (ri_count (item_of p)) \<le> now - ri_ts (item_of p))"

lemma ri_path_item_of [simp]: "ri_path (item_of p) = p"
  by (simp add: item_of_def split: option.splits)

lemma collect_items_eq:
  assumes "\<And>n. malloc n \<noteq> None"
  shows "collect_items malloc before now ps cap items n =
    (items @ map item_of (filter (due before now) ps), n + length (filter (waits before) ps))"
proof (induction ps arbitrary: cap items n)
  case (Cons p ps)
  show ?case
  proof (cases "sentry__parse_cache_filename (Some (sentry__path_filename p))")
    case None
    then show ?thesis using Cons by (simp add: waits_def due_def item_of_def)
  next
    case (Some x)
    obtain ts cnt uuid where x: "x = (ts, cnt, uuid)" by (metis prod_cases3)
    have i: "item_of p = \<lparr>ri_path = p, ri_ts = ts, ri_count = cnt, ri_uuid = take 36 uuid\<rparr>" using Some x by (simp add: item_of_def)
    show ?thesis unfolding collect_items.simps Some x option.case prod.case i [symmetric]
      using Cons by (auto simp: i assms waits_def due_def Let_def not_less word_gt_0 simp del: not_None_eq)
  qed
qed simp

lemma cache_filename_name_ok:
  assumes "0 \<le> cnt" "cnt < 100"
  shows "name_ok (cache_filename ts cnt (sentry_uuid_as_string u))" "name_ok (cache_filename ts (- 1) (sentry_uuid_as_string u))"
proof -
  have d: "c \<noteq> CHR ''/'' \<and> c \<noteq> CHR 0x00" if "isxdigit c \<or> isdigit c \<or> c = CHR ''-'' \<or> c \<in> set ''.envelope''" for c
    using that by (auto simp: isxdigit_def isdigit_def)
  have p: "isdigit c" if "c \<in> set (pad2 n)" for c n using that pad2_digits(2) by blast
  have s: "isdigit c" if "c \<in> set (dec_str n)" for c n using that dec_str_digits by blast
  have n: "cache_filename ts cnt (sentry_uuid_as_string u)
      = dec_str (unat ts) @ CHR ''-'' # pad2 (nat cnt) @ CHR ''-'' # sentry_uuid_as_string u @ ''.envelope''"
    using assms by (intro cache_filename_retry) auto
  have l: "length (pad2 (nat cnt)) = 2" using assms by (intro pad2_two) simp
  show "name_ok (cache_filename ts cnt (sentry_uuid_as_string u))"
    unfolding name_ok_def n using l dec_str_u64 [of ts] d p s uuid_string_chars [of _ u] by (auto dest!: p s uuid_string_chars)
  show "name_ok (cache_filename ts (- 1) (sentry_uuid_as_string u))"
    using d uuid_string_chars [of _ u] by (auto simp: name_ok_def cache_filename_bare dest!: uuid_string_chars)
qed

text \<open>The paths of waiting files as the SDK builds them.\<close>

definition retry_path :: "string \<Rightarrow> string \<Rightarrow> bool" where
  "retry_path cache p \<longleftrightarrow>
     (\<exists>ts cnt u. 0 \<le> cnt \<and> cnt < SENTRY_RETRY_ATTEMPTS \<and> p = joined cache (cache_filename ts cnt (sentry_uuid_as_string u)))"

lemma joined_cache_item:
  assumes "0 \<le> cnt" "cnt < 100"
  shows "item_of (joined cache (cache_filename ts cnt (sentry_uuid_as_string u))) =
    \<lparr>ri_path = joined cache (cache_filename ts cnt (sentry_uuid_as_string u)), ri_ts = ts, ri_count = cnt, ri_uuid = sentry_uuid_as_string u\<rparr>"
  using assms filename_joined [OF cache_filename_name_ok(1) [OF assms]] parse_retry [of "sentry_uuid_as_string u" "nat cnt" ts]
  by (simp add: item_of_def cache_filename_retry)

lemma joined_bare_item:
  "item_of (joined cache (cache_filename ts (- 1) (sentry_uuid_as_string u))) =
    \<lparr>ri_path = joined cache (cache_filename ts (- 1) (sentry_uuid_as_string u)), ri_ts = 0, ri_count = - 1, ri_uuid = sentry_uuid_as_string u\<rparr>"
  using filename_joined [OF cache_filename_name_ok(2) [of 0]] parse_bare [of "sentry_uuid_as_string u"]
  by (simp add: item_of_def cache_filename_bare)

lemma retry_path_cases:
  assumes "retry_path cache p"
  obtains ts cnt u where "0 \<le> cnt" "cnt < 6" "p = joined cache (cache_filename ts cnt (sentry_uuid_as_string u))"
    "item_of p = \<lparr>ri_path = p, ri_ts = ts, ri_count = cnt, ri_uuid = sentry_uuid_as_string u\<rparr>"
    "sentry__path_filename p = cache_filename ts cnt (sentry_uuid_as_string u)"
  using assms joined_cache_item filename_joined [OF cache_filename_name_ok(1)] unfolding retry_path_def by fastforce

lemma retry_not_sibling:
  assumes "retry_path cache p" "retry_path cache q"
  shows "\<not> sibling_of p q"
proof -
  obtain ts cnt u where p: "0 \<le> cnt" "cnt < 6" "sentry__path_filename p = cache_filename ts cnt (sentry_uuid_as_string u)"
    using assms(1) by (rule retry_path_cases)
  obtain ts' cnt' v where q: "0 \<le> cnt'" "cnt' < 6" "sentry__path_filename q = cache_filename ts' cnt' (sentry_uuid_as_string v)"
    using assms(2) by (rule retry_path_cases)
  show ?thesis
    using p q parse_retry [of "sentry_uuid_as_string v" "nat cnt'" ts'] retry_name_not_sibling [of "sentry_uuid_as_string u" cnt ts v "''.envelope''"]
    by (simp add: sibling_of_def cache_filename_retry [of "sentry_uuid_as_string v" cnt'])
qed

text \<open>What a failed attempt does to other files.\<close>

lemma handle_others:
  assumes "keep \<noteq> SENTRY_CACHE_KEEP_ALWAYS" "q \<noteq> ri_path f" "\<not> sibling_of q (ri_path f)"
    and "sentry__run_make_cache_path malloc cache t (if ri_count f + 1 < SENTRY_RETRY_ATTEMPTS then ri_count f + 1 else - 1) (ri_uuid f) \<noteq> Some q"
    and "item_of (ri_path f) = f" "ri_count f \<ge> 0"
  shows "fs_files (snd (handle_result malloc fd strtod t new_id cache keep f envelope status_code fs)) q = fs_files fs q"
proof -
  have ren: "fs_files (snd (sentry__path_rename (ri_path f) p fs)) q = fs_files fs q" if "p \<noteq> q" for p fs
    using that assms(2) by (simp add: sentry__path_rename_def)
  have drop: "fs_files (drop_item malloc f fs) q = fs_files fs q" for fs
    using assms(2,3) by (intro drop_envelope_files(2))
  obtain x where x: "sentry__parse_cache_filename (Some (sentry__path_filename (ri_path f))) = Some x" "take 36 (snd (snd x)) = ri_uuid f"
    using assms(5,6) by (cases f) (auto simp: item_of_def split: option.splits)
  have cut: "sentry__run_make_cache_path malloc cache t (- 1) (snd (snd x)) = sentry__run_make_cache_path malloc cache t (- 1) (ri_uuid f)"
    unfolding x(2) [symmetric] by (simp add: sentry__run_make_cache_path_def cache_filename_def)
  have move: "fs_files (snd (sentry__run_move_cache malloc t cache (ri_path f) (- 1) fs)) q = fs_files fs q"
    if "\<not> ri_count f + 1 < SENTRY_RETRY_ATTEMPTS"
    using x cut assms(4) that ren create_dir_all_env(2) [of cache fs]
    by (auto simp: sentry__run_move_cache_def Let_def split: prod.splits option.splits)
       (metis ren snd_conv)+
  show ?thesis
  proof (cases "ri_count f + 1 < SENTRY_RETRY_ATTEMPTS")
    case True
    then show ?thesis
      using assms ren drop by (auto simp: handle_result_def Let_def cache_remove_envelope_Some split: option.splits)
  next
    case False
    then show ?thesis
      using assms(1) drop move [OF False]
      by (auto simp: handle_result_def Let_def cache_remove_envelope_Some split: prod.splits bool.splits)
  qed
qed

lemma make_cache_path_eq:
  assumes "good_malloc malloc" "dir_ok cache" "- 1 \<le> cnt" "cnt < 100"
  shows "sentry__run_make_cache_path malloc cache ts cnt (sentry_uuid_as_string u) = Some (joined cache (cache_filename ts cnt (sentry_uuid_as_string u)))"
proof -
  have "name_ok (cache_filename ts cnt (sentry_uuid_as_string u))"
    using assms(3,4) cache_filename_name_ok(1) [of cnt ts u] cache_filename_name_ok(2) [of 0 ts u] by (cases "cnt = - 1") auto
  then show ?thesis using assms(1,2) by (simp add: sentry__run_make_cache_path_def join_str_eq)
qed

text \<open>A path of a waiting file names its identifier, so files with different identifiers have different paths.\<close>

lemma retry_paths_apart:
  assumes "\<forall>p \<in> set ps. retry_path cache p" "distinct ps"
  shows "apart (map item_of ps)"
  using assms retry_not_sibling [of cache] by (auto simp: apart_def comp_def)

lemma apart_qsort: "apart (qsort cmp items) = apart items"
proof -
  have "mset (map ri_path (qsort cmp items)) = mset (map ri_path items)" by (metis mset_map mset_qsort)
  then have "distinct (map ri_path (qsort cmp items)) = distinct (map ri_path items)" by (rule mset_eq_imp_distinct_iff)
  then show ?thesis by (simp add: apart_def)
qed

text \<open>The name of a file after a failed attempt: with the next count, or the bare name in the cache after the last attempt.\<close>

definition next_name :: "string \<Rightarrow> u64 \<Rightarrow> retry_item_t \<Rightarrow> string" where
  "next_name cache t i = joined cache (cache_filename t (if ri_count i + 1 < SENTRY_RETRY_ATTEMPTS then ri_count i + 1 else - 1) (ri_uuid i))"

text \<open>The failing item, in a state where the items before it are gone.\<close>

lemma failing_item:
  assumes malloc: "good_malloc malloc" and dir: "dir_ok cache" and keep: "keep \<noteq> SENTRY_CACHE_KEEP_ALWAYS"
    and ren: "\<forall>p q. fs_can_rename fs p q" and f: "retry_path cache p" "fs_files fs p \<noteq> None" and st: "status_code < 0"
    and h: "handle_result malloc fd strtod t new_id cache keep (item_of p) envelope status_code fs = (again, fs')"
  shows "again \<longleftrightarrow> ri_count (item_of p) + 1 < SENTRY_RETRY_ATTEMPTS"
    and "again \<Longrightarrow> fs_files fs' (joined cache (cache_filename t (ri_count (item_of p) + 1) (ri_uuid (item_of p)))) = fs_files fs p"
    and "q \<noteq> p \<Longrightarrow> \<not> sibling_of q p \<Longrightarrow> q \<noteq> next_name cache t (item_of p) \<Longrightarrow> fs_files fs' q = fs_files fs q"
    and "q \<noteq> p \<Longrightarrow> retry_path cache q \<Longrightarrow> ri_uuid (item_of q) \<noteq> ri_uuid (item_of p) \<Longrightarrow> fs_files fs' q = fs_files fs q"
proof -
  obtain ts cnt u where c: "0 \<le> cnt" "cnt < 6" "p = joined cache (cache_filename ts cnt (sentry_uuid_as_string u))"
    "item_of p = \<lparr>ri_path = p, ri_ts = ts, ri_count = cnt, ri_uuid = sentry_uuid_as_string u\<rparr>"
    using f(1) by (rule retry_path_cases)
  have new: "sentry__run_make_cache_path malloc cache t (cnt + 1) (sentry_uuid_as_string u) = Some (joined cache (cache_filename t (cnt + 1) (sentry_uuid_as_string u)))"
    "sentry__run_make_cache_path malloc cache t (- 1) (sentry_uuid_as_string u) = Some (joined cache (cache_filename t (- 1) (sentry_uuid_as_string u)))"
    using c malloc dir by (simp_all add: make_cache_path_eq)
  show 1: "again \<longleftrightarrow> ri_count (item_of p) + 1 < SENTRY_RETRY_ATTEMPTS"
  proof (cases "cnt + 1 < 6")
    case True
    then show ?thesis using h st new c by (auto simp: handle_result_def)
  next
    case False
    then show ?thesis using handle_exhausted [OF st, of "item_of p" malloc fd strtod t new_id cache keep envelope fs] h c by simp
  qed
  show "again \<Longrightarrow> fs_files fs' (joined cache (cache_filename t (ri_count (item_of p) + 1) (ri_uuid (item_of p)))) = fs_files fs p"
    using 1 h st new c ren f(2) by (auto simp: handle_result_def sentry__path_rename_def)
  show other: "fs_files fs' q = fs_files fs q" if "q \<noteq> p" "\<not> sibling_of q p" "q \<noteq> next_name cache t (item_of p)"
    using handle_others [OF keep, of q "item_of p" malloc cache t fd strtod new_id envelope status_code fs] that c(1,2,4) h new
    by (auto simp: next_name_def split: if_splits)
  assume q: "q \<noteq> p" "retry_path cache q" "ri_uuid (item_of q) \<noteq> ri_uuid (item_of p)"
  have "q \<noteq> next_name cache t (item_of p)"
    using q(3) c joined_cache_item [of "cnt + 1" cache t u] joined_bare_item [of cache t u] by (auto simp: next_name_def)
  then show "fs_files fs' q = fs_files fs q" using other q retry_not_sibling [OF q(2) f(1)] by blast
qed

text \<open>The due items in the order they are attempted.\<close>

definition due_items :: "u64 \<Rightarrow> u64 \<Rightarrow> string list \<Rightarrow> retry_item_t list" where
  "due_items before now ps = qsort compare_retry_items (map item_of (filter (due before now) ps))"

lemma due_items_wf:
  assumes names: "\<forall>p \<in> set ps. waits before p \<longrightarrow> retry_path cache p" and "distinct ps"
    and uu: "distinct (map (ri_uuid \<circ> item_of) (filter (due before now) ps))"
  shows "apart (due_items before now ps)" "distinct (map ri_uuid (due_items before now ps))"
    and "sorted_wrt (\<lambda>a b. compare_retry_items a b \<le> 0) (due_items before now ps)"
proof -
  have rp: "\<forall>p \<in> set (filter (due before now) ps). retry_path cache p" using names by (simp add: due_def)
  show "apart (due_items before now ps)"
    using retry_paths_apart [OF rp] assms(2) by (simp add: due_items_def apart_qsort)
  have "mset (map ri_uuid (due_items before now ps)) = mset (map (ri_uuid \<circ> item_of) (filter (due before now) ps))"
    unfolding due_items_def by (metis list.map_comp mset_map mset_qsort)
  then show "distinct (map ri_uuid (due_items before now ps))" using uu mset_eq_imp_distinct_iff by blast
  show "sorted_wrt (\<lambda>a b. compare_retry_items a b \<le> 0) (due_items before now ps)"
    unfolding due_items_def
  proof (rule oldest_first.qsort_sorted, rule ballI)
    fix i assume "i \<in> set (map item_of (filter (due before now) ps))"
    then obtain p where "i = item_of p" "retry_path cache p" using rp by auto
    then obtain u where "ri_uuid i = sentry_uuid_as_string u" by (metis retry_path_cases retry_item_t.select_convs(4))
    then show "CHR 0x00 \<notin> set (ri_uuid i)" using uuid_string_chars [of "CHR 0x00" u] isxdigit_not_skipped [of "CHR 0x00"] by auto
  qed
qed

lemma due_item_cases:
  assumes "\<forall>p \<in> set ps. waits before p \<longrightarrow> retry_path cache p \<and> fs_files fs p \<noteq> None" "i \<in> set (due_items before now ps)"
  obtains p where "i = item_of p" "retry_path cache p" "fs_files fs p \<noteq> None"
  using assms by (auto simp: due_items_def due_def)


definition demo_uuid :: sentry_uuid_t where
  "demo_uuid = \<lparr>bytes = replicate 16 CHR ''a''\<rparr>"

definition demo_retry_file :: string where
  "demo_retry_file = joined ''d/cache'' (cache_filename 5 0 (sentry_uuid_as_string demo_uuid))"

definition demo_retry_disk :: disk where
  "demo_retry_disk = demo_disk\<lparr>fs_files := (\<lambda>_. None)(demo_retry_file \<mapsto> ''{}''),
     fs_readdir := (\<lambda>_ _. [cache_filename 5 0 (sentry_uuid_as_string demo_uuid)])\<rparr>"

lemma demo_retry_listing: "directory_paths demo_malloc demo_retry_disk ''d/cache'' = [demo_retry_file]"
proof -
  let ?n = "cache_filename 5 0 (sentry_uuid_as_string demo_uuid)"
  have n: "name_ok ?n" by (simp add: cache_filename_name_ok(1))
  have "length ?n = 50" by (simp add: cache_filename_retry dec_str.simps pad2_def)
  then have "?n \<noteq> ''.'' \<and> ?n \<noteq> ''..''" by auto
  moreover have "sentry__path_join_str demo_malloc ''d/cache'' ?n = Some demo_retry_file"
    using join_str_eq [OF demo_malloc_good _ n] by (simp add: dir_ok_def demo_retry_file_def)
  ultimately show ?thesis by (simp add: directory_paths_def demo_retry_disk_def)
qed


end
