(* ===== verification/RetryProtocol.thy ===== *)
theory RetryProtocol
  imports Retry
begin

text \<open>
  The protocol of \<open>sentry_retry.c\<close> between the worker thread of the transport and the thread that shuts it down.  The worker
  runs one task at a time: polls, failed sends that enqueue their envelope, the flush of a shutdown and triggered passes
  (\<open>http_send_task\<close> of \<open>transports/sentry_http_transport.c\<close> runs on the same worker).  Each step is one atomic access to
  \<open>state\<close>, \<open>scheduled\<close> or the queue of the worker; the check and the write of an enqueue are one step, because both it and the seal
  hold \<open>sealed_lock\<close>.  The queue is the number of poll tasks in it.  A pass may return any number: how many files wait
  (\<open>Retry.retry_send_pass\<close>), only those older than the start in the first poll, one without consent, or none when it cannot
  allocate.  A poll may fail to be submitted for lack of memory.  Envelopes captured without consent are written to the
  same directory by \<open>sentry__submit_envelope\<close>, which neither looks at the seal nor schedules a poll.
\<close>

datatype sentry_retry_state_t = SENTRY_RETRY_STARTUP | SENTRY_RETRY_RUNNING | SENTRY_RETRY_SEALED

datatype sentry_poll_state_t = SENTRY_POLL_IDLE | SENTRY_POLL_SCHEDULED | SENTRY_POLL_SHUTDOWN

text \<open>What the tasks do to the disk: the bound of the pass of a poll, of the flush and of a triggered pass, and the file that an
  enqueue writes.\<close>

definition retry_poll_before :: "sentry_retry_state_t \<Rightarrow> u64 \<Rightarrow> u64" where
  "retry_poll_before state startup_time = (if state = SENTRY_RETRY_STARTUP then startup_time else 0)"

definition retry_flush_task where
  "retry_flush_task malloc fd strtod now t ids run keep startup_time send_cb fs s =
     sentry__retry_send malloc fd strtod now t ids run keep startup_time send_cb fs s"

definition retry_trigger_task where
  "retry_trigger_task malloc fd strtod now t ids run keep send_cb fs s =
     sentry__retry_send malloc fd strtod now t ids run keep (- 1) send_cb fs s"

definition sentry__retry_enqueue where
  "sentry__retry_enqueue malloc fd strtod t new_id run state envelope fs =
     (if state = SENTRY_RETRY_SEALED then (False, fs)
      else sentry__run_write_cache malloc fd strtod t new_id (cache_path run) envelope 0 fs)"

text \<open>An enqueued envelope waits under a name of the retry queue with no attempt counted, and its file holds its whole text.\<close>

lemma enqueue_waits:
  assumes malloc: "good_malloc malloc" and dir: "dir_ok (cache_path run)" and "shallow e"
    and enqueued: "sentry__retry_enqueue malloc fd strtod t new_id run state e fs = (True, fs')"
  obtains u where "fs_files fs' = (fs_files fs)(joined (cache_path run) (cache_filename t 0 (sentry_uuid_as_string u)) \<mapsto> envelope_print fd e)"
    and "retry_path (cache_path run) (joined (cache_path run) (cache_filename t 0 (sentry_uuid_as_string u)))"
proof -
  let ?id = "sentry__envelope_get_event_id strtod (Some e)"
  define u where "u = (if sentry_uuid_is_nil ?id then new_id else ?id)"
  let ?p = "joined (cache_path run) (cache_filename t 0 (sentry_uuid_as_string u))"
  have path: "sentry__run_make_cache_path malloc (cache_path run) t 0 (sentry_uuid_as_string u) = Some ?p"
    using malloc dir by (simp add: make_cache_path_eq)
  obtain rv fs1 where d: "sentry__path_create_dir_all (cache_path run) fs = (rv, fs1)" by (metis surj_pair)
  obtain rw where w: "sentry_envelope_write_to_path fd e ?p fs1 = (rw, fs')" "rw = 0"
    using enqueued path d by (auto simp: sentry__retry_enqueue_def sentry__run_write_cache_def Let_def u_def split: if_splits prod.splits)
  have "fs_files fs' = (fs_files fs1)(?p \<mapsto> envelope_print fd e)" using write_to_path_spec [OF assms(3) w(1)] w(2) by (cases fs') auto
  moreover have "fs_files fs1 = fs_files fs" using create_dir_all_env(2) [of "cache_path run" fs] d by simp
  moreover have "retry_path (cache_path run) ?p" unfolding retry_path_def by (rule exI [of _ t], rule exI [of _ 0], rule exI [of _ u]) simp
  ultimately show ?thesis using that by metis
qed

text \<open>Where the worker is: in \<open>retry_poll_task\<close>, in \<open>sentry__retry_enqueue\<close>, in a flush or a triggered pass, or between tasks.\<close>

datatype worker_pc =
    W_Idle | P_Fetch | P_Disarm | P_Send | P_Rearm nat | P_Submit | P_Running
  | E_Write | E_Running | E_Arm | E_Submit | F_Send

text \<open>The thread that shuts down: \<open>sentry__retry_shutdown\<close>, then \<open>sentry__retry_seal\<close> when the worker does not stop in time.\<close>

datatype main_pc = M_Running | M_Store | M_Flush | M_Waiting | M_Sealed

text \<open>\<open>rs_enqueued\<close> counts the files written by \<open>sentry__retry_enqueue\<close> and \<open>rs_cached\<close> those written by \<open>sentry__submit_envelope\<close>;
  \<open>rs_left\<close> records that a file was enqueued or reported as waiting by the last pass of a poll, and \<open>rs_failed\<close> that a
  poll could not be submitted.\<close>

record retry_sys =
  rs_state :: sentry_retry_state_t
  rs_scheduled :: sentry_poll_state_t
  rs_polls :: nat
  rs_passes :: nat
  rs_enqueued :: nat
  rs_cached :: nat
  rs_left :: bool
  rs_failed :: bool
  rs_worker :: worker_pc
  rs_main :: main_pc

definition cas_scheduled :: "sentry_poll_state_t \<Rightarrow> sentry_poll_state_t \<Rightarrow> retry_sys \<Rightarrow> bool \<times> retry_sys" where
  "cas_scheduled expect desire s =
     (if rs_scheduled s = expect then (True, s\<lparr>rs_scheduled := desire\<rparr>) else (False, s))"

definition cas_state :: "sentry_retry_state_t \<Rightarrow> sentry_retry_state_t \<Rightarrow> retry_sys \<Rightarrow> retry_sys" where
  "cas_state expect desire s = (if rs_state s = expect then s\<lparr>rs_state := desire\<rparr> else s)"

text \<open>The steps of the worker, as functions.\<close>

text \<open>\<open>retry_poll_task\<close>: disarm, pass, re-arm when files remain, leave the startup state.\<close>

definition poll_disarm :: "retry_sys \<Rightarrow> retry_sys" where
  "poll_disarm s = (snd (cas_scheduled SENTRY_POLL_SCHEDULED SENTRY_POLL_IDLE s))\<lparr>rs_worker := P_Send\<rparr>"

definition poll_rearm :: "nat \<Rightarrow> retry_sys \<Rightarrow> retry_sys" where
  "poll_rearm r s =
     (if r \<noteq> 0
      then (case cas_scheduled SENTRY_POLL_IDLE SENTRY_POLL_SCHEDULED s of
              (True, s) \<Rightarrow> s\<lparr>rs_worker := P_Submit\<rparr> | (False, s) \<Rightarrow> s\<lparr>rs_worker := P_Running\<rparr>)
      else s\<lparr>rs_worker := P_Running\<rparr>)"

definition leave_startup :: "worker_pc \<Rightarrow> retry_sys \<Rightarrow> retry_sys" where
  "leave_startup pc s = (cas_state SENTRY_RETRY_STARTUP SENTRY_RETRY_RUNNING s)\<lparr>rs_worker := pc\<rparr>"

text \<open>\<open>submitted\<close> is whether the task could be allocated.\<close>

definition submit_poll :: "bool \<Rightarrow> worker_pc \<Rightarrow> retry_sys \<Rightarrow> retry_sys" where
  "submit_poll submitted pc s =
     (if submitted then s\<lparr>rs_polls := rs_polls s + 1, rs_worker := pc\<rparr> else s\<lparr>rs_failed := True, rs_worker := pc\<rparr>)"

text \<open>\<open>sentry__retry_enqueue\<close>; \<open>written\<close> is whether the envelope could be written.\<close>

definition enqueue_write :: "bool \<Rightarrow> retry_sys \<Rightarrow> retry_sys" where
  "enqueue_write written s =
     (if rs_state s = SENTRY_RETRY_SEALED \<or> \<not> written then s\<lparr>rs_worker := W_Idle\<rparr>
      else s\<lparr>rs_enqueued := rs_enqueued s + 1, rs_left := True, rs_worker := E_Running\<rparr>)"

definition enqueue_arm :: "retry_sys \<Rightarrow> retry_sys" where
  "enqueue_arm s =
     (case cas_scheduled SENTRY_POLL_IDLE SENTRY_POLL_SCHEDULED s of
        (True, s) \<Rightarrow> s\<lparr>rs_worker := E_Submit\<rparr> | (False, s) \<Rightarrow> s\<lparr>rs_worker := W_Idle\<rparr>)"

text \<open>\<open>sentry__retry_start\<close>, and the initial state behind it: the first poll is scheduled and submitted.\<close>

definition retry_started :: "bool \<Rightarrow> retry_sys" where
  "retry_started submitted =
     \<lparr>rs_state = SENTRY_RETRY_STARTUP, rs_scheduled = SENTRY_POLL_SCHEDULED, rs_polls = of_bool submitted, rs_passes = 0, rs_enqueued = 0, rs_cached = 0,
      rs_left = False, rs_failed = (\<not> submitted), rs_worker = W_Idle, rs_main = M_Running\<rparr>"

inductive retry_step :: "retry_sys \<Rightarrow> retry_sys \<Rightarrow> bool" where
  poll_start: "rs_worker s = W_Idle \<Longrightarrow> rs_polls s > 0 \<Longrightarrow> retry_step s (s\<lparr>rs_polls := rs_polls s - 1, rs_worker := P_Fetch\<rparr>)"
| poll_fetch: "rs_worker s = P_Fetch \<Longrightarrow> retry_step s (s\<lparr>rs_worker := P_Disarm\<rparr>)"
| poll_disarmed: "rs_worker s = P_Disarm \<Longrightarrow> retry_step s (poll_disarm s)"
| poll_send: "rs_worker s = P_Send \<Longrightarrow> retry_step s (s\<lparr>rs_left := (r \<noteq> 0), rs_worker := P_Rearm r\<rparr>)"
| poll_rearmed: "rs_worker s = P_Rearm r \<Longrightarrow> retry_step s (poll_rearm r s)"
| poll_submit: "rs_worker s = P_Submit \<Longrightarrow> retry_step s (submit_poll submitted P_Running s)"
| poll_done: "rs_worker s = P_Running \<Longrightarrow> retry_step s (leave_startup W_Idle s)"
| send_failed: "rs_worker s = W_Idle \<Longrightarrow> retry_step s (s\<lparr>rs_worker := E_Write\<rparr>)"
| enqueue_written: "rs_worker s = E_Write \<Longrightarrow> retry_step s (enqueue_write written s)"
| enqueue_running: "rs_worker s = E_Running \<Longrightarrow> retry_step s (leave_startup E_Arm s)"
| enqueue_armed: "rs_worker s = E_Arm \<Longrightarrow> retry_step s (enqueue_arm s)"
| enqueue_submit: "rs_worker s = E_Submit \<Longrightarrow> retry_step s (submit_poll submitted W_Idle s)"
| trigger: "retry_step s (s\<lparr>rs_passes := rs_passes s + 1\<rparr>)"
| pass_start: "rs_worker s = W_Idle \<Longrightarrow> rs_passes s > 0 \<Longrightarrow> retry_step s (s\<lparr>rs_passes := rs_passes s - 1, rs_worker := F_Send\<rparr>)"
| pass_send: "rs_worker s = F_Send \<Longrightarrow> retry_step s (s\<lparr>rs_worker := W_Idle\<rparr>)"
| submit_cached: "retry_step s (s\<lparr>rs_cached := rs_cached s + 1\<rparr>)"
| shutdown_drop: "rs_main s = M_Running \<Longrightarrow> retry_step s (s\<lparr>rs_polls := 0, rs_main := M_Store\<rparr>)"
| shutdown_store: "rs_main s = M_Store \<Longrightarrow> retry_step s (s\<lparr>rs_scheduled := SENTRY_POLL_SHUTDOWN, rs_main := M_Flush\<rparr>)"
| shutdown_flush: "rs_main s = M_Flush \<Longrightarrow> retry_step s (s\<lparr>rs_passes := rs_passes s + 1, rs_main := M_Waiting\<rparr>)"
| seal: "rs_main s = M_Waiting \<Longrightarrow> retry_step s (s\<lparr>rs_state := SENTRY_RETRY_SEALED, rs_main := M_Sealed\<rparr>)"

inductive_cases retry_stepE: "retry_step s s'"

section \<open>Invariant\<close>

text \<open>The polls that are queued, about to be queued, or started and not yet disarmed.\<close>

definition armed_polls :: "retry_sys \<Rightarrow> nat" where
  "armed_polls s = rs_polls s + (if rs_worker s \<in> {P_Fetch, P_Disarm, P_Submit, E_Submit} then 1 else 0)"

text \<open>The points where the worker still passes over the files or re-arms the poll before it is idle again.\<close>

fun will_look :: "worker_pc \<Rightarrow> bool" where
  "will_look P_Send = True"
| "will_look (P_Rearm r) = (r \<noteq> 0)"
| "will_look E_Running = True"
| "will_look E_Arm = True"
| "will_look _ = False"

definition protocol_inv :: "retry_sys \<Rightarrow> bool" where
  "protocol_inv s \<longleftrightarrow>
     armed_polls s \<le> 1
   \<and> (rs_scheduled s = SENTRY_POLL_IDLE \<longrightarrow> armed_polls s = 0)
   \<and> (rs_main s = M_Running \<and> \<not> rs_failed s \<longrightarrow> rs_scheduled s \<noteq> SENTRY_POLL_SHUTDOWN
        \<and> (rs_scheduled s = SENTRY_POLL_SCHEDULED \<longrightarrow> armed_polls s = 1)
        \<and> (rs_left s \<longrightarrow> armed_polls s = 1 \<or> will_look (rs_worker s)))
   \<and> (rs_main s = M_Running \<or> rs_main s = M_Store \<longrightarrow> rs_state s \<noteq> SENTRY_RETRY_SEALED)
   \<and> (rs_main s = M_Sealed \<longrightarrow> rs_state s = SENTRY_RETRY_SEALED)"

lemmas protocol_defs = protocol_inv_def armed_polls_def poll_disarm_def poll_rearm_def leave_startup_def submit_poll_def
  enqueue_write_def enqueue_arm_def cas_scheduled_def cas_state_def

lemma protocol_step: "retry_step s s' \<Longrightarrow> protocol_inv s \<Longrightarrow> protocol_inv s'"
  by (induction rule: retry_step.induct)
    (auto simp: protocol_defs split: if_splits, (metis sentry_poll_state_t.exhaust)+)

lemma protocol_reachable: "retry_step\<^sup>*\<^sup>* (retry_started submitted) s \<Longrightarrow> protocol_inv s"
proof (induction rule: rtranclp_induct)
  case base
  then show ?case by (simp add: protocol_inv_def armed_polls_def retry_started_def)
qed (rule protocol_step)

lemma sealed_step:
  "retry_step s s' \<Longrightarrow> rs_state s = SENTRY_RETRY_SEALED \<Longrightarrow>
     rs_state s' = SENTRY_RETRY_SEALED \<and> rs_enqueued s' = rs_enqueued s"
  by (induction rule: retry_step.induct) (auto simp: protocol_defs)

lemma sealed_steps:
  "retry_step\<^sup>*\<^sup>* s s' \<Longrightarrow> rs_state s = SENTRY_RETRY_SEALED \<Longrightarrow> rs_state s' = SENTRY_RETRY_SEALED \<and> rs_enqueued s' = rs_enqueued s"
proof (induction rule: rtranclp_induct)
  case (step y z)
  then show ?case using sealed_step [of y z] by auto
qed simp

text \<open>C16. Under every interleaving of the worker with the shutdown and with the writers of envelopes without consent: at most one poll is
  ever queued; while the transport is not being shut down and no poll failed to be submitted for lack of memory, a poll is queued
  whenever the worker is between tasks after an envelope was enqueued or after a poll whose pass returned non-zero (so a wake-up is
  never lost); and after the seal no failed send enqueues a file.\<close>

theorem retry_polls:
  assumes "retry_step\<^sup>*\<^sup>* (retry_started submitted) s"
  shows "rs_polls s \<le> 1
    \<and> (rs_main s = M_Running \<and> \<not> rs_failed s \<and> rs_worker s = W_Idle \<and> rs_left s \<longrightarrow> rs_polls s = 1)
    \<and> (\<forall>s'. rs_state s = SENTRY_RETRY_SEALED \<and> retry_step\<^sup>*\<^sup>* s s' \<longrightarrow> rs_enqueued s' = rs_enqueued s)"
proof -
  have inv: "protocol_inv s" using assms by (rule protocol_reachable)
  then have "rs_polls s \<le> 1" unfolding protocol_inv_def armed_polls_def by linarith
  moreover have "rs_polls s = 1" if "rs_main s = M_Running" "\<not> rs_failed s" "rs_worker s = W_Idle" "rs_left s"
    using inv that by (simp add: protocol_inv_def armed_polls_def)
  ultimately show ?thesis using sealed_steps by blast
qed

theorem retry_polls_witness:
  "\<exists>s. retry_step\<^sup>*\<^sup>* (retry_started True) s \<and> rs_main s = M_Running \<and> \<not> rs_failed s \<and> rs_worker s = W_Idle \<and> rs_left s \<and> rs_polls s = 1"
proof -
  let ?a = "retry_started True"
  let ?b = "?a\<lparr>rs_polls := 0, rs_worker := P_Fetch\<rparr>"
  let ?c = "?b\<lparr>rs_worker := P_Disarm\<rparr>"
  let ?d = "?c\<lparr>rs_scheduled := SENTRY_POLL_IDLE, rs_worker := P_Send\<rparr>"
  let ?e = "?d\<lparr>rs_left := True, rs_worker := P_Rearm 1\<rparr>"
  let ?f = "?e\<lparr>rs_scheduled := SENTRY_POLL_SCHEDULED, rs_worker := P_Submit\<rparr>"
  let ?g = "submit_poll True P_Running ?f"
  let ?h = "leave_startup W_Idle ?g"
  have "retry_step ?a ?b" using poll_start [of ?a] by (simp add: retry_started_def)
  moreover have "retry_step ?b ?c" by (rule poll_fetch) simp
  moreover have "retry_step ?c ?d" using poll_disarmed [of ?c] by (simp add: poll_disarm_def cas_scheduled_def retry_started_def)
  moreover have "retry_step ?d ?e" using poll_send [of ?d 1] by simp
  moreover have "retry_step ?e ?f" using poll_rearmed [of ?e 1] by (simp add: poll_rearm_def cas_scheduled_def retry_started_def)
  moreover have "retry_step ?f ?g" by (rule poll_submit) simp
  moreover have "retry_step ?g ?h" by (rule poll_done) (simp add: submit_poll_def)
  ultimately have r: "retry_step\<^sup>*\<^sup>* ?a ?h" by (meson rtranclp.rtrancl_into_rtrancl rtranclp.rtrancl_refl)
  moreover have h: "rs_main ?h = M_Running \<and> \<not> rs_failed ?h \<and> rs_worker ?h = W_Idle \<and> rs_left ?h"
    by (simp add: retry_started_def leave_startup_def cas_state_def submit_poll_def)
  ultimately show ?thesis using retry_polls [OF r] by blast
qed

end
