(* ===== verification/Timestamps.thy ===== *)
theory Timestamps
  imports Prelude
begin

text \<open>
  Time stamps as text (\<open>sentry__usec_time_to_iso8601\<close> and \<open>sentry__iso8601_to_usec\<close> of \<open>sentry_utils.c\<close>).  The calendar functions
  \<open>gmtime_r\<close> and \<open>timegm\<close> of the C library are modelled by counting years and months, \<open>strftime\<close> and \<open>sscanf\<close> by the one format
  that the code uses.
\<close>

section \<open>The calendar\<close>

definition leap :: "int \<Rightarrow> bool" where
  "leap y \<longleftrightarrow> y mod 4 = 0 \<and> (y mod 100 \<noteq> 0 \<or> y mod 400 = 0)"

definition year_len :: "int \<Rightarrow> nat" where
  "year_len y = (if leap y then 366 else 365)"

definition month_lens :: "int \<Rightarrow> nat list" where
  "month_lens y = [31, if leap y then 29 else 28, 31, 30, 31, 30, 31, 31, 30, 31, 30, 31]"

record tm =
  tm_year :: int
  tm_mon :: int
  tm_mday :: int
  tm_hour :: int
  tm_min :: int
  tm_sec :: int

text \<open>The year that a day falls into, counted from the start of the year \<open>y\<close>, and the day within it.\<close>

function split_year :: "nat \<Rightarrow> int \<Rightarrow> int \<times> nat" where
  "split_year d y = (if d < year_len y then (y, d) else split_year (d - year_len y) (y + 1))"
  by pat_completeness auto
termination
  by (relation "measure fst") (auto simp: year_len_def split: if_splits)

declare split_year.simps [simp del]

fun split_month :: "nat list \<Rightarrow> nat \<Rightarrow> nat \<times> nat" where
  "split_month [] d = (0, d)"
| "split_month (l # ls) d = (if d < l then (0, d) else case split_month ls (d - l) of (m, d) \<Rightarrow> (Suc m, d))"

definition gmtime :: "nat \<Rightarrow> tm" where
  "gmtime secs =
     (let (y, yday) = split_year (secs div 86400) 1970;
          (m, mday) = split_month (month_lens y) yday;
          s = secs mod 86400
      in \<lparr>tm_year = y - 1900, tm_mon = int m, tm_mday = int mday + 1, tm_hour = int (s div 3600), tm_min = int (s div 60 mod 60),
          tm_sec = int (s mod 60)\<rparr>)"

text \<open>\<open>timegm\<close> takes the month modulo 12 and adds the rest of the fields up, whatever their values.\<close>

definition days_before_year :: "int \<Rightarrow> int" where
  "days_before_year y =
     (if y \<ge> 1970 then (\<Sum>i\<leftarrow>[0 ..< nat (y - 1970)]. int (year_len (1970 + int i)))
      else - (\<Sum>i\<leftarrow>[0 ..< nat (1970 - y)]. int (year_len (y + int i))))"

definition timegm :: "tm \<Rightarrow> int" where
  "timegm t =
     (let y = 1900 + tm_year t + tm_mon t div 12; m = nat (tm_mon t mod 12);
          days = days_before_year y + (\<Sum>l\<leftarrow>take m (month_lens y). int l) + tm_mday t - 1
      in days * 86400 + tm_hour t * 3600 + tm_min t * 60 + tm_sec t)"

section \<open>Formatting\<close>

text \<open>\<open>%0kd\<close> of a number that is not negative.\<close>

definition zero_padded :: "nat \<Rightarrow> int \<Rightarrow> string" where
  "zero_padded k n = replicate (k - length (dec_str (nat n))) CHR ''0'' @ dec_str (nat n)"

text \<open>\<open>%Y-%m-%dT%H:%M:%S\<close>.\<close>

definition strftime_iso :: "tm \<Rightarrow> string" where
  "strftime_iso t =
     int_str (tm_year t + 1900) @ ''-'' @ zero_padded 2 (tm_mon t + 1) @ ''-'' @ zero_padded 2 (tm_mday t) @ ''T''
     @ zero_padded 2 (tm_hour t) @ '':'' @ zero_padded 2 (tm_min t) @ '':'' @ zero_padded 2 (tm_sec t)"

text \<open>The buffer has 64 bytes.\<close>

definition sentry__usec_time_to_iso8601 :: "u64 \<Rightarrow> string option" where
  "sentry__usec_time_to_iso8601 time =
     (let t = gmtime (unat (time div 1000000)); buf = strftime_iso t; usecs = unat (time mod 1000000)
      in if tm_year t > 9000 then None
         else if length buf \<ge> 64 then None
         else
           let frac = (if usecs \<noteq> 0 then ''.'' @ zero_padded 6 (int usecs) else [])
           in if length frac \<ge> 64 - length buf then None
              else if length buf + length frac + 2 > 64 then None
              else Some (buf @ frac @ ''Z''))"

section \<open>Parsing\<close>

text \<open>\<open>%d\<close>: the number and the text behind it.\<close>

definition scan_int :: "string \<Rightarrow> (int \<times> string) option" where
  "scan_int s =
     (case num_prefix s of (k, neg, ds) \<Rightarrow>
        if ds = [] then None else Some (if neg then - int (dec_val ds) else int (dec_val ds), drop (k + length ds) s))"

definition scan_char :: "char \<Rightarrow> string \<Rightarrow> string option" where
  "scan_char c s = (if at s c then Some (drop 1 s) else None)"

text \<open>\<open>%d-%d-%dT%d:%d:%d%n\<close>: the six numbers and the text behind them.\<close>

fun scan_fields :: "string \<Rightarrow> string \<Rightarrow> (int list \<times> string) option" where
  "scan_fields [] s = (case scan_int s of None \<Rightarrow> None | Some (n, r) \<Rightarrow> Some ([n], r))"
| "scan_fields (c # cs) s =
     (case scan_int s of
        None \<Rightarrow> None
      | Some (n, r) \<Rightarrow>
          (case scan_char c r of
             None \<Rightarrow> None
           | Some r \<Rightarrow> (case scan_fields cs r of None \<Rightarrow> None | Some (ns, r) \<Rightarrow> Some (n # ns, r))))"

definition sentry__iso8601_to_usec :: "string option \<Rightarrow> u64" where
  "sentry__iso8601_to_usec str =
     (let s = (case str of None \<Rightarrow> [] | Some s \<Rightarrow> s) in
      if length s \<noteq> 20 \<and> length s \<noteq> 27 then 0
      else case scan_fields ''--T::'' s of
          None \<Rightarrow> 0
        | Some (ns, rest) \<Rightarrow>
            if length s - length rest \<noteq> 19 then 0
            else
              (case (if at rest CHR ''.''
                     then (case scan_int (drop 1 rest) of
                             None \<Rightarrow> None
                           | Some (usec, r) \<Rightarrow> if length rest - length r \<noteq> 7 then None else Some (usec, r))
                     else Some (0, rest)) of
                 None \<Rightarrow> 0
               | Some (usec, r) \<Rightarrow>
                   if \<not> at r CHR ''Z'' then 0
                   else
                     let time = timegm \<lparr>tm_year = ns ! 0 - 1900, tm_mon = ns ! 1 - 1, tm_mday = ns ! 2, tm_hour = ns ! 3,
                                        tm_min = ns ! 4, tm_sec = ns ! 5\<rparr>
                     in if time = - 1 then 0 else word_of_int time * 1000000 + word_of_int usec))"

section \<open>The calendar functions are inverse\<close>

lemma split_year_spec:
  "split_year d y = (y', r) \<Longrightarrow> y \<le> y' \<and> r < year_len y' \<and> int d = (\<Sum>i\<leftarrow>[0 ..< nat (y' - y)]. int (year_len (y + int i))) + int r"
proof (induction d y arbitrary: y' r rule: split_year.induct)
  case (1 d y)
  show ?case
  proof (cases "d < year_len y")
    case True
    with "1.prems" show ?thesis by (auto simp: split_year.simps [of d y])
  next
    case False
    then have s: "split_year (d - year_len y) (y + 1) = (y', r)" using "1.prems" by (simp add: split_year.simps [of d y])
    note ih = "1.IH" [OF False s]
    have "[0 ..< nat (y' - y)] = 0 # map Suc [0 ..< nat (y' - (y + 1))]"
      using ih by (simp add: map_Suc_upt upt_conv_Cons nat_diff_distrib' Suc_nat_eq_nat_zadd1)
    then have "(\<Sum>i\<leftarrow>[0 ..< nat (y' - y)]. int (year_len (y + int i)))
        = int (year_len y) + (\<Sum>i\<leftarrow>[0 ..< nat (y' - (y + 1))]. int (year_len (y + 1 + int i)))"
      by (simp add: comp_def algebra_simps)
    then show ?thesis using ih False by simp
  qed
qed

lemma split_month_spec:
  "split_month ls d = (m, r) \<Longrightarrow> d < sum_list ls \<Longrightarrow> m < length ls \<and> r < ls ! m \<and> d = sum_list (take m ls) + r"
proof (induction ls arbitrary: d m r)
  case (Cons l ls)
  show ?case
  proof (cases "d < l")
    case False
    obtain m' r' where s: "split_month ls (d - l) = (m', r')" by (metis surj_pair)
    have "d - l < sum_list ls" using Cons.prems(2) False by simp
    from Cons.IH [OF s this] False Cons.prems(1) s show ?thesis by auto
  qed (use Cons.prems in auto)
qed simp

lemma year_months: "sum_list (month_lens y) = year_len y" "length (month_lens y) = 12" "\<forall>l \<in> set (month_lens y). l \<le> 31"
  by (auto simp: month_lens_def year_len_def)

lemma int_sum_list: "(\<Sum>l\<leftarrow>ls. int l) = int (sum_list ls)"
  by (induction ls) auto

lemma hms: "s div 3600 * 3600 + s div 60 mod 60 * 60 + s mod 60 = (s :: nat)"
proof -
  have "s div 3600 = s div 60 div 60" by (simp add: div_mult2_eq [symmetric])
  then show ?thesis using div_mult_mod_eq [of "s div 60" 60] div_mult_mod_eq [of s 60] by linarith
qed

lemma gmtime_fields:
  assumes "t = gmtime secs"
  shows "0 \<le> tm_mon t \<and> tm_mon t < 12" "1 \<le> tm_mday t \<and> tm_mday t \<le> 31" "0 \<le> tm_hour t \<and> tm_hour t < 24"
    "0 \<le> tm_min t \<and> tm_min t < 60" "0 \<le> tm_sec t \<and> tm_sec t < 60" "70 \<le> tm_year t" "timegm t = int secs"
proof -
  obtain y yd where y: "split_year (secs div 86400) 1970 = (y, yd)" by (metis surj_pair)
  obtain m md where m: "split_month (month_lens y) yd = (m, md)" by (metis surj_pair)
  note ys = split_year_spec [OF y]
  have ms: "m < 12 \<and> md < month_lens y ! m \<and> yd = sum_list (take m (month_lens y)) + md"
    using split_month_spec [OF m] ys by (simp add: year_months)
  let ?s = "secs mod 86400"
  have t: "t = \<lparr>tm_year = y - 1900, tm_mon = int m, tm_mday = int md + 1, tm_hour = int (?s div 3600), tm_min = int (?s div 60 mod 60), tm_sec = int (?s mod 60)\<rparr>"
    using y m by (simp add: assms gmtime_def Let_def)
  have "month_lens y ! m \<le> 31" using year_months(2,3) ms by (metis nth_mem)
  then show "0 \<le> tm_mon t \<and> tm_mon t < 12" "1 \<le> tm_mday t \<and> tm_mday t \<le> 31" "0 \<le> tm_min t \<and> tm_min t < 60" "0 \<le> tm_sec t \<and> tm_sec t < 60"
    "70 \<le> tm_year t"
    using ms ys by (auto simp: t)
  have "?s < 86400" by simp
  then have "?s div 3600 < 24" by (simp add: div_less_iff_less_mult)
  then show "0 \<le> tm_hour t \<and> tm_hour t < 24" by (simp add: t)
  have days: "days_before_year y + (\<Sum>l\<leftarrow>take m (month_lens y). int l) + int md = int (secs div 86400)"
  proof -
    have "days_before_year y = (\<Sum>i\<leftarrow>[0 ..< nat (y - 1970)]. int (year_len (1970 + int i)))" using ys unfolding days_before_year_def by presburger
    moreover have "int yd = int (sum_list (take m (month_lens y))) + int md" using ms by presburger
    ultimately show ?thesis using ys unfolding int_sum_list by presburger
  qed
  have "timegm t = (days_before_year y + (\<Sum>l\<leftarrow>take m (month_lens y). int l) + int md) * 86400
      + int (?s div 3600 * 3600 + ?s div 60 mod 60 * 60 + ?s mod 60)"
    using ms unfolding timegm_def t by (simp add: Let_def)
  also have "\<dots> = int (secs div 86400) * 86400 + int ?s" unfolding days hms ..
  finally have "timegm t = int (secs div 86400) * 86400 + int ?s" .
  then show "timegm t = int secs" by (metis div_mult_mod_eq of_nat_add of_nat_mult of_nat_numeral)
qed

section \<open>Texts are read back\<close>

lemma dec_val_zeros: "dec_val (replicate k CHR ''0'' @ ds) = dec_val ds"
  by (induction k) (simp_all add: dec_val_def digit_val_def)

lemma zero_padded_digits:
  "zero_padded k n \<noteq> []" "\<forall>c \<in> set (zero_padded k n). isdigit c" "0 \<le> n \<Longrightarrow> int (dec_val (zero_padded k n)) = n"
  using dec_str_digits [of "nat n"] by (auto simp: zero_padded_def isdigit_def dec_val_zeros)

lemma digits_no_nul: "CHR 0x00 \<notin> set (zero_padded k n)" "CHR 0x00 \<notin> set (int_str i)"
proof -
  have "\<not> isdigit CHR 0x00" by (simp add: isdigit_def)
  then show "CHR 0x00 \<notin> set (zero_padded k n)" "CHR 0x00 \<notin> set (int_str i)"
    using zero_padded_digits(2) [of k n] dec_str_digits [of "nat i"] dec_str_digits [of "nat (- i)"] by (auto simp: int_str_def)
qed

lemma zero_padded_length: "0 \<le> n \<Longrightarrow> n < 10 ^ k \<Longrightarrow> 0 < k \<Longrightarrow> length (zero_padded k n) = k"
  using dec_str_length [of "nat n" k] by (simp add: zero_padded_def nat_less_iff)

lemma scan_int_digits:
  assumes "ds \<noteq> []" "\<forall>c \<in> set ds. isdigit c" "\<not> isdigit c"
  shows "scan_int (ds @ c # rest) = Some (int (dec_val ds), c # rest)"
  using num_prefix_digits [of ds "c # rest"] assms by (simp add: scan_int_def)

lemma scan_int_padded: "0 \<le> n \<Longrightarrow> \<not> isdigit c \<Longrightarrow> scan_int (zero_padded k n @ c # rest) = Some (n, c # rest)"
  using scan_int_digits [OF zero_padded_digits(1,2)] zero_padded_digits(3) by simp

lemma scan_int_year: "1000 \<le> y \<Longrightarrow> \<not> isdigit c \<Longrightarrow> scan_int (int_str y @ c # rest) = Some (y, c # rest)"
  using scan_int_digits [OF dec_str_nonempty dec_str_digits, of c "nat y" rest] by (simp add: int_str_def)

lemma dec_val_less: "\<forall>c \<in> set ds. isdigit c \<Longrightarrow> dec_val ds < 10 ^ length ds"
proof (induction ds rule: rev_induct)
  case (snoc c ds)
  then have "digit_val c < 10" "dec_val ds < 10 ^ length ds" by (auto simp: isdigit_def digit_val_def)
  then show ?case by simp
qed (simp add: dec_val_def)

lemma length_year: "1000 \<le> y \<Longrightarrow> y \<le> 9999 \<Longrightarrow> length (int_str y) = 4"
proof -
  assume y: "1000 \<le> y" "y \<le> 9999"
  have "length (dec_str (nat y)) \<le> 4" using y by (intro dec_str_length) auto
  moreover have "\<not> length (dec_str (nat y)) \<le> 3"
  proof
    assume "length (dec_str (nat y)) \<le> 3"
    then have "dec_val (dec_str (nat y)) < 10 ^ 3"
      using dec_val_less [OF dec_str_digits, of "nat y"] power_increasing [of "length (dec_str (nat y))" 3 "10 :: nat"] by linarith
    then show False using y by simp
  qed
  ultimately show ?thesis using y by (simp add: int_str_def)
qed

text \<open>The text of the date and the time is 19 characters long, and scanning it gives the fields back.\<close>

lemma strftime_scan:
  assumes t: "t = gmtime secs" and y: "tm_year t \<le> 8099" and c: "\<not> isdigit c"
  shows "length (strftime_iso t) = 19"
    and "scan_fields ''--T::'' (strftime_iso t @ c # rest) =
      Some ([tm_year t + 1900, tm_mon t + 1, tm_mday t, tm_hour t, tm_min t, tm_sec t], c # rest)"
proof -
  note f = gmtime_fields [OF t]
  show "length (strftime_iso t) = 19"
    unfolding strftime_iso_def using f y by (simp add: length_year zero_padded_length)
  have d: "\<not> isdigit CHR ''-''" "\<not> isdigit CHR ''T''" "\<not> isdigit CHR '':''" by (simp_all add: isdigit_def)
  show "scan_fields ''--T::'' (strftime_iso t @ c # rest) =
      Some ([tm_year t + 1900, tm_mon t + 1, tm_mday t, tm_hour t, tm_min t, tm_sec t], c # rest)"
    unfolding strftime_iso_def using f c d by (simp add: scan_int_year scan_int_padded scan_char_def)
qed

lemma word_split: "word_of_int (int (unat (time div 1000000))) * 1000000 + word_of_int (int (unat (time mod 1000000))) = (time :: u64)"
  using div_mult_mod_eq [of time 1000000] by simp

lemma iso8601_text:
  assumes "tm_year (gmtime (unat (time div 1000000))) \<le> 8099"
  obtains s where "sentry__usec_time_to_iso8601 time = Some s" "sentry__iso8601_to_usec (Some s) = time" "CHR 0x00 \<notin> set s"
proof -
  define t where "t = gmtime (unat (time div 1000000))"
  define usecs where "usecs = unat (time mod 1000000)"
  define frac where "frac = (if usecs \<noteq> 0 then ''.'' @ zero_padded 6 (int usecs) else [])"
  have y: "tm_year t \<le> 8099" using assms t_def by simp
  have "usecs < 1000000"
    using word_mod_less_divisor [of 1000000 time] unfolding usecs_def by (simp add: word_less_nat_alt)
  then have us: "int usecs < 10 ^ 6" by simp
  have lf: "length frac \<le> 7" "usecs \<noteq> 0 \<Longrightarrow> length frac = 7"
    using us zero_padded_length [of "int usecs" 6] by (auto simp: frac_def)
  have l: "length (strftime_iso t) = 19" using strftime_scan(1) [OF t_def y, of "CHR ''Z''"] by (simp add: isdigit_def)
  have s: "sentry__usec_time_to_iso8601 time = Some (strftime_iso t @ frac @ ''Z'')"
    using y l lf unfolding sentry__usec_time_to_iso8601_def t_def [symmetric] usecs_def [symmetric] Let_def frac_def [symmetric] by simp
  have tg: "timegm t = int (unat (time div 1000000))" using gmtime_fields(7) [OF t_def] .
  then have "timegm t \<noteq> - 1" by linarith
  have surj: "\<lparr>tm_year = tm_year t, tm_mon = tm_mon t, tm_mday = tm_mday t, tm_hour = tm_hour t, tm_min = tm_min t, tm_sec = tm_sec t\<rparr> = t"
    by simp
  have sum: "word_of_int (timegm t) * 1000000 + word_of_int (int usecs) = time"
    unfolding tg usecs_def by (rule word_split)
  have "sentry__iso8601_to_usec (Some (strftime_iso t @ frac @ ''Z'')) = time"
  proof (cases "usecs = 0")
    case True
    then show ?thesis using l sum \<open>timegm t \<noteq> - 1\<close> strftime_scan(2) [OF t_def y, of "CHR ''Z''" "[]"]
      by (simp add: sentry__iso8601_to_usec_def frac_def isdigit_def surj Let_def)
  next
    case False
    then have f: "frac = CHR ''.'' # zero_padded 6 (int usecs)" by (simp add: frac_def)
    have z: "scan_int (zero_padded 6 (int usecs) @ ''Z'') = Some (int usecs, ''Z'')" by (simp add: scan_int_padded isdigit_def)
    have "length (zero_padded 6 (int usecs)) = 6" using us by (simp add: zero_padded_length)
    then show ?thesis using l sum \<open>timegm t \<noteq> - 1\<close> z strftime_scan(2) [OF t_def y, of "CHR ''.''" "zero_padded 6 (int usecs) @ ''Z''"]
      by (simp add: sentry__iso8601_to_usec_def f isdigit_def surj Let_def)
  qed
  moreover have "CHR 0x00 \<notin> set (strftime_iso t @ frac @ ''Z'')"
    by (simp add: strftime_iso_def frac_def digits_no_nul)
  ultimately show ?thesis using s that by blast
qed

text \<open>C35. Time stamps survive their text: up to the year 9999, every time in microseconds is formatted, and parsing the text
  gives the time back.\<close>

theorem iso8601_roundtrip:
  assumes "tm_year (gmtime (unat (time div 1000000))) \<le> 8099"
  shows "\<exists>s. sentry__usec_time_to_iso8601 time = Some s \<and> sentry__iso8601_to_usec (Some s) = time"
  using iso8601_text [OF assms] by metis

theorem iso8601_roundtrip_witness:
  "\<exists>s. sentry__usec_time_to_iso8601 90061000001 = Some s \<and> sentry__iso8601_to_usec (Some s) = 90061000001"
proof -
  have "unat (90061000001 div 1000000 :: u64) = 90061" by simp
  moreover have "tm_year (gmtime 90061) \<le> 8099"
    by (simp add: gmtime_def split_year.simps year_len_def leap_def month_lens_def)
  ultimately show ?thesis by (intro iso8601_roundtrip) simp
qed

end
