(* ===== verification/Scope.thy ===== *)
theory Scope
  imports Spans Ringbuffer Envelope "HOL-Library.Sublist"
begin

text \<open>
  The scope (\<open>sentry_scope.c\<close>): the data that is merged into every event, its setters, the observers that are told about
  changes, and the merging itself.  A bound transaction or span is represented by its inner value.  A setter returns the scope and the
  notification that it broadcasts to the observers, if any; the broadcast, with callbacks that change the scope and its observers
  again, is a relation of its own.  Memory for the array of observers is an argument.
\<close>

section \<open>The scope\<close>

record sentry_scope_t =
  sc_release :: "string option"
  sc_environment :: "string option"
  sc_transaction :: "string option"
  sc_fingerprint :: sentry_value
  sc_user :: sentry_value
  sc_tags :: sentry_value
  sc_extra :: sentry_value
  sc_attributes :: sentry_value
  sc_contexts :: sentry_value
  sc_propagation_context :: sentry_value
  sc_breadcrumbs :: sentry_ringbuffer_t
  sc_dsc :: sentry_value
  sc_level :: sentry_level_t
  sc_last_event_id :: sentry_uuid_t
  sc_client_sdk :: sentry_value
  sc_attachments :: "sentry_attachment_t list"
  sc_transaction_object :: "sentry_value option"
  sc_span :: "sentry_value option"
  sc_trace_managed :: bool
  sc_observers :: "nat option list"
  sc_is_notifying :: nat
  sc_pending_flush :: bool
  sc_one_shot :: bool

abbreviation SENTRY_BREADCRUMBS_MAX :: nat where "SENTRY_BREADCRUMBS_MAX \<equiv> 100"

abbreviation SENTRY_SDK_NAME :: string where "SENTRY_SDK_NAME \<equiv> ''sentry.native''"

abbreviation SENTRY_SDK_VERSION :: string where "SENTRY_SDK_VERSION \<equiv> ''0.16.6''"

text \<open>\<open>backend\<close> is the name of the backend the library was built with.\<close>

definition get_client_sdk :: "string option \<Rightarrow> sentry_value" where
  "get_client_sdk backend =
     (let client_sdk = set_key ''name'' (str_value SENTRY_SDK_NAME) sentry_value_new_object;
          version = str_value SENTRY_SDK_VERSION;
          client_sdk = set_key ''version'' version client_sdk;
          package = set_key ''name'' (str_value ''github:getsentry/sentry-native'') sentry_value_new_object;
          package = set_key ''version'' version package;
          packages = snd (sentry_value_append sentry_value_new_list package);
          client_sdk = set_key ''packages'' packages client_sdk
      in case backend of
           None \<Rightarrow> client_sdk
         | Some b \<Rightarrow> set_key ''integrations'' (snd (sentry_value_append sentry_value_new_list (str_value b))) client_sdk)"

definition init_scope :: sentry_scope_t where
  "init_scope =
     \<lparr>sc_release = None, sc_environment = None, sc_transaction = None, sc_fingerprint = VNull, sc_user = VNull,
      sc_tags = sentry_value_new_object, sc_extra = sentry_value_new_object, sc_attributes = sentry_value_new_object,
      sc_contexts = sentry_value_new_object, sc_propagation_context = sentry_value_new_object,
      sc_breadcrumbs = sentry__ringbuffer_new SENTRY_BREADCRUMBS_MAX, sc_dsc = sentry_value_new_object,
      sc_level = SENTRY_LEVEL_ERROR, sc_last_event_id = sentry_uuid_nil, sc_client_sdk = VNull, sc_attachments = [],
      sc_transaction_object = None, sc_span = None, sc_trace_managed = True, sc_observers = [], sc_is_notifying = 0,
      sc_pending_flush = False, sc_one_shot = False\<rparr>"

text \<open>The global scope is \<open>None\<close> until it is used; \<open>os_context\<close> describes the operating system.\<close>

definition get_scope :: "sentry_value \<Rightarrow> string option \<Rightarrow> sentry_scope_t option \<Rightarrow> sentry_scope_t" where
  "get_scope os_context backend g_scope =
     (case g_scope of
        Some s \<Rightarrow> s
      | None \<Rightarrow>
          let s = init_scope\<lparr>sc_user := sentry_value_new_object\<rparr>;
              s = s\<lparr>sc_contexts := set_key ''os'' os_context (sc_contexts s)\<rparr>
          in s\<lparr>sc_client_sdk := get_client_sdk backend\<rparr>)"

definition sentry_scope_new :: sentry_scope_t where
  "sentry_scope_new = init_scope"

definition sentry_local_scope_new :: sentry_scope_t where
  "sentry_local_scope_new = sentry_scope_new\<lparr>sc_one_shot := True\<rparr>"

text \<open>Whether the backend is to be flushed, after the scope is unlocked.\<close>

definition unlock_scope :: "bool \<Rightarrow> sentry_scope_t \<Rightarrow> sentry_scope_t \<times> bool" where
  "unlock_scope flush s =
     (if sc_is_notifying s > 0 then (s\<lparr>sc_pending_flush := flush \<or> sc_pending_flush s\<rparr>, False)
      else (s\<lparr>sc_pending_flush := False\<rparr>, flush \<or> sc_pending_flush s))"

definition sentry__scope_unlock :: "sentry_scope_t \<Rightarrow> sentry_scope_t \<times> bool" where
  "sentry__scope_unlock s = unlock_scope False s"

definition sentry__scope_flush_unlock :: "sentry_scope_t \<Rightarrow> sentry_scope_t \<times> bool" where
  "sentry__scope_flush_unlock s = unlock_scope True s"

text \<open>The clone of a scope: \<open>addrs\<close> are the addresses of the cloned attachments.  It has no observers and is not single-use.\<close>

definition sentry_scope_clone :: "(string option \<Rightarrow> nat) \<Rightarrow> nat list \<Rightarrow> sentry_scope_t \<Rightarrow> sentry_scope_t" where
  "sentry_scope_clone path_size addrs s =
     (let dsc = sentry__value_clone (sc_dsc s)
      in \<lparr>sc_release = sc_release s, sc_environment = sc_environment s, sc_transaction = sc_transaction s,
          sc_fingerprint = sentry__value_clone (sc_fingerprint s), sc_user = sentry__value_clone (sc_user s),
          sc_tags = sentry__value_clone (sc_tags s), sc_extra = sentry__value_clone (sc_extra s),
          sc_attributes = sentry__value_clone (sc_attributes s), sc_contexts = sentry__value_clone (sc_contexts s),
          sc_propagation_context = sentry__value_clone (sc_propagation_context s),
          sc_breadcrumbs = sentry__ringbuffer_clone (sc_breadcrumbs s),
          sc_dsc = (if sentry_value_is_frozen (sc_dsc s) then sentry_value_freeze dsc else dsc),
          sc_level = sc_level s, sc_last_event_id = sc_last_event_id s, sc_client_sdk = sentry__value_clone (sc_client_sdk s),
          sc_attachments = sentry__attachments_extend path_size addrs [] (sc_attachments s),
          sc_transaction_object = sc_transaction_object s, sc_span = sc_span s, sc_trace_managed = sc_trace_managed s,
          sc_observers = [], sc_is_notifying = 0, sc_pending_flush = False, sc_one_shot = False\<rparr>)"

text \<open>What \<open>sentry_scope_clear\<close> does after it has notified the observers.\<close>

definition sentry_scope_clear :: "sentry_scope_t \<Rightarrow> sentry_scope_t" where
  "sentry_scope_clear s =
     init_scope\<lparr>sc_propagation_context := sc_propagation_context s, sc_dsc := sc_dsc s, sc_trace_managed := sc_trace_managed s,
       sc_one_shot := sc_one_shot s, sc_observers := sc_observers s, sc_is_notifying := sc_is_notifying s,
       sc_pending_flush := sc_pending_flush s\<rparr>"

section \<open>The dynamic sampling context\<close>

definition sentry__scope_freeze_dsc :: "sentry_value \<Rightarrow> sentry_scope_t \<Rightarrow> sentry_scope_t" where
  "sentry__scope_freeze_dsc incoming s =
     s\<lparr>sc_dsc := sentry_value_freeze (snd (sentry__value_merge_objects sentry_value_new_object incoming))\<rparr>"

text \<open>The organisation of the options, or else of the DSN.\<close>

definition sentry__options_get_org_id :: "string option \<Rightarrow> string option \<Rightarrow> string option" where
  "sentry__options_get_org_id opt_org_id dsn_id =
     (if \<not> sentry__string_empty opt_org_id then opt_org_id
      else if \<not> sentry__string_empty dsn_id then dsn_id else None)"

text \<open>\<open>public_key\<close> is that of the DSN, if there is one; \<open>one\<close> is \<open>1.0\<close>.\<close>

definition sentry__scope_update_dsc ::
  "string option option \<Rightarrow> string option \<Rightarrow> double \<Rightarrow> bool \<Rightarrow> sentry_scope_t \<Rightarrow> sentry_scope_t" where
  "sentry__scope_update_dsc pkey oid traces_sample_rate traces_sampler s =
     (let dsc = sentry_value_new_object;
          dsc = (case pkey of None \<Rightarrow> dsc | Some k \<Rightarrow> set_key ''public_key'' (sentry_value_new_string k) dsc);
          dsc = set_if (oid \<noteq> None) ''org_id'' (sentry_value_new_string oid) dsc;
          dsc = set_key ''sample_rate'' (VDouble traces_sample_rate) dsc;
          dsc = set_if traces_sampler ''sample_rate'' (VDouble (double_of_int 1)) dsc;
          sample_rand = sentry_value_get_by_key (sentry_value_get_by_key (sc_propagation_context s) ''trace'') ''sample_rand'';
          dsc = set_key ''sample_rand'' sample_rand dsc;
          dsc = set_key ''release'' (sentry_value_new_string (sc_release s)) dsc;
          dsc = set_key ''environment'' (sentry_value_new_string (sc_environment s)) dsc
      in s\<lparr>sc_dsc := dsc\<rparr>)"

section \<open>Setters\<close>

text \<open>What the observers are told; one callback for each of them.\<close>

datatype notification =
    NClear
  | NRelease "string option" | NEnvironment "string option" | NTransaction "string option"
  | NFingerprint sentry_value | NLevel sentry_level_t | NUser sentry_value | NBreadcrumb sentry_value
  | NSetTag string "string option" | NRemoveTag string
  | NSetExtra string sentry_value | NRemoveExtra string
  | NSetContext string sentry_value | NRemoveContext string
  | NAddAttachment nat | NRemoveAttachment nat

definition sentry_scope_add_breadcrumb :: "sentry_value \<Rightarrow> sentry_scope_t \<Rightarrow> sentry_scope_t \<times> notification option" where
  "sentry_scope_add_breadcrumb breadcrumb s =
     (case sentry__ringbuffer_append (sc_breadcrumbs s) breadcrumb of
        (rc, rb) \<Rightarrow> (s\<lparr>sc_breadcrumbs := rb\<rparr>, if rc = 0 then Some (NBreadcrumb breadcrumb) else None))"

definition sentry_scope_set_user :: "sentry_value \<Rightarrow> sentry_scope_t \<Rightarrow> sentry_scope_t \<times> notification option" where
  "sentry_scope_set_user user s = (s\<lparr>sc_user := user\<rparr>, Some (NUser user))"

definition sentry_scope_set_tag :: "string \<Rightarrow> string option \<Rightarrow> sentry_scope_t \<Rightarrow> sentry_scope_t \<times> notification option" where
  "sentry_scope_set_tag key value s =
     (case sentry_value_set_by_key (sc_tags s) key (sentry_value_new_string value) of
        (rc, tags) \<Rightarrow> (s\<lparr>sc_tags := tags\<rparr>, if rc = 0 then Some (NSetTag key value) else None))"

text \<open>In the variants with lengths \<open>key\<close> is the given number of bytes; the observers see the stored key, which ends at its first NUL.\<close>

definition sentry_scope_set_tag_n :: "string \<Rightarrow> string option \<Rightarrow> nat \<Rightarrow> sentry_scope_t \<Rightarrow> sentry_scope_t \<times> notification option" where
  "sentry_scope_set_tag_n key value value_len s =
     (let v = sentry_value_new_string_n value value_len
      in case sentry_value_set_by_key (sc_tags s) key v of
           (rc, tags) \<Rightarrow> (s\<lparr>sc_tags := tags\<rparr>, if rc = 0 then Some (NSetTag (cstr key) (Some (sentry_value_as_string v))) else None))"

definition set_tag_value :: "string \<Rightarrow> sentry_value \<Rightarrow> sentry_scope_t \<Rightarrow> sentry_scope_t \<times> notification option" where
  "set_tag_value key value s =
     (if sentry_value_get_type value \<noteq> SENTRY_VALUE_TYPE_STRING then (s, None)
      else sentry_scope_set_tag key (Some (sentry_value_as_string value)) s)"

text \<open>Several notifications, in order; each broadcast happens before the next tag is set.\<close>

definition sentry_scope_set_tags :: "sentry_value \<Rightarrow> sentry_scope_t \<Rightarrow> sentry_scope_t \<times> notification list" where
  "sentry_scope_set_tags tags s =
     (case tags of
        VObject _ ps \<Rightarrow>
          foldl (\<lambda>(s, ns) (k, v). case set_tag_value k v s of (s, n) \<Rightarrow> (s, ns @ (case n of None \<Rightarrow> [] | Some n \<Rightarrow> [n]))) (s, []) ps
      | _ \<Rightarrow> (s, []))"

definition sentry_scope_remove_tag :: "string \<Rightarrow> sentry_scope_t \<Rightarrow> sentry_scope_t \<times> notification option" where
  "sentry_scope_remove_tag key s =
     (case sentry_value_remove_by_key_n (sc_tags s) key of
        (rc, tags) \<Rightarrow> (s\<lparr>sc_tags := tags\<rparr>, if rc = 0 then Some (NRemoveTag key) else None))"

definition sentry_scope_set_extra :: "string \<Rightarrow> sentry_value \<Rightarrow> sentry_scope_t \<Rightarrow> sentry_scope_t \<times> notification option" where
  "sentry_scope_set_extra key value s =
     (case sentry_value_set_by_key (sc_extra s) key value of
        (rc, extra) \<Rightarrow> (s\<lparr>sc_extra := extra\<rparr>, if rc = 0 then Some (NSetExtra (cstr key) value) else None))"

definition sentry_scope_remove_extra :: "string \<Rightarrow> sentry_scope_t \<Rightarrow> sentry_scope_t \<times> notification option" where
  "sentry_scope_remove_extra key s =
     (case sentry_value_remove_by_key_n (sc_extra s) key of
        (rc, extra) \<Rightarrow> (s\<lparr>sc_extra := extra\<rparr>, if rc = 0 then Some (NRemoveExtra key) else None))"

definition sentry_scope_set_attribute_n :: "string \<Rightarrow> sentry_value \<Rightarrow> sentry_scope_t \<Rightarrow> sentry_scope_t" where
  "sentry_scope_set_attribute_n key attribute s =
     (if sentry_value_is_null (sentry_value_get_by_key attribute ''value'') \<or> sentry_value_is_null (sentry_value_get_by_key attribute ''type'') then s
      else s\<lparr>sc_attributes := set_key key attribute (sc_attributes s)\<rparr>)"

definition sentry_scope_remove_attribute_n :: "string \<Rightarrow> sentry_scope_t \<Rightarrow> sentry_scope_t" where
  "sentry_scope_remove_attribute_n key s = s\<lparr>sc_attributes := snd (sentry_value_remove_by_key_n (sc_attributes s) key)\<rparr>"

definition sentry_scope_set_context :: "string \<Rightarrow> sentry_value \<Rightarrow> sentry_scope_t \<Rightarrow> sentry_scope_t \<times> notification option" where
  "sentry_scope_set_context key value s =
     (case sentry_value_set_by_key (sc_contexts s) key value of
        (rc, contexts) \<Rightarrow> (s\<lparr>sc_contexts := contexts\<rparr>, if rc = 0 then Some (NSetContext (cstr key) value) else None))"

definition sentry_scope_remove_context :: "string \<Rightarrow> sentry_scope_t \<Rightarrow> sentry_scope_t \<times> notification option" where
  "sentry_scope_remove_context key s =
     (case sentry_value_remove_by_key_n (sc_contexts s) key of
        (rc, contexts) \<Rightarrow> (s\<lparr>sc_contexts := contexts\<rparr>, if rc = 0 then Some (NRemoveContext key) else None))"

text \<open>The members of the context that the new value lacks are kept.\<close>

definition sentry_scope_update_context_n :: "string \<Rightarrow> sentry_value \<Rightarrow> sentry_scope_t \<Rightarrow> sentry_scope_t \<times> notification option" where
  "sentry_scope_update_context_n key value s =
     (let context = sentry_value_get_by_key (sc_contexts s) key;
          value = (if sentry_value_is_null context then value else snd (sentry__value_merge_objects value context))
      in sentry_scope_set_context key value s)"

definition sentry_scope_set_release_n :: "string option \<Rightarrow> nat \<Rightarrow> sentry_scope_t \<Rightarrow> sentry_scope_t \<times> notification option" where
  "sentry_scope_set_release_n release n s =
     (let r = clone_n release n
      in (s\<lparr>sc_release := r, sc_dsc := set_key ''release'' (sentry_value_new_string r) (sc_dsc s)\<rparr>, Some (NRelease r)))"

definition sentry_scope_set_environment_n :: "string option \<Rightarrow> nat \<Rightarrow> sentry_scope_t \<Rightarrow> sentry_scope_t \<times> notification option" where
  "sentry_scope_set_environment_n environment n s =
     (let e = clone_n environment n
      in (s\<lparr>sc_environment := e, sc_dsc := set_key ''environment'' (sentry_value_new_string e) (sc_dsc s)\<rparr>, Some (NEnvironment e)))"

text \<open>The name of a bound transaction follows.\<close>

definition sentry_scope_set_transaction_n :: "string option \<Rightarrow> nat \<Rightarrow> sentry_scope_t \<Rightarrow> sentry_scope_t \<times> notification option" where
  "sentry_scope_set_transaction_n transaction n s =
     (let t = clone_n transaction n
      in (s\<lparr>sc_transaction := t,
            sc_transaction_object := map_option (set_key ''transaction'' (sentry_value_new_string_n transaction n)) (sc_transaction_object s)\<rparr>,
          Some (NTransaction t)))"

definition sentry__scope_set_fingerprint_va :: "string list \<Rightarrow> sentry_scope_t \<Rightarrow> sentry_scope_t \<times> notification option" where
  "sentry__scope_set_fingerprint_va fingerprints s =
     (let v = foldl (\<lambda>l f. snd (sentry_value_append l (str_value f))) sentry_value_new_list fingerprints
      in (s\<lparr>sc_fingerprint := v\<rparr>, Some (NFingerprint v)))"

definition sentry_scope_set_fingerprints :: "sentry_value \<Rightarrow> sentry_scope_t \<Rightarrow> sentry_scope_t \<times> notification option" where
  "sentry_scope_set_fingerprints fingerprints s =
     (if sentry_value_get_type fingerprints \<noteq> SENTRY_VALUE_TYPE_LIST then (s, None)
      else (s\<lparr>sc_fingerprint := fingerprints\<rparr>, Some (NFingerprint fingerprints)))"

definition sentry_scope_remove_fingerprint :: "sentry_scope_t \<Rightarrow> sentry_scope_t \<times> notification option" where
  "sentry_scope_remove_fingerprint s = (s\<lparr>sc_fingerprint := VNull\<rparr>, Some (NFingerprint VNull))"

definition sentry_scope_set_level :: "sentry_level_t \<Rightarrow> sentry_scope_t \<Rightarrow> sentry_scope_t \<times> notification option" where
  "sentry_scope_set_level level s = (s\<lparr>sc_level := level\<rparr>, Some (NLevel level))"

definition sentry_scope_set_transaction_object :: "sentry_value option \<Rightarrow> sentry_scope_t \<Rightarrow> sentry_scope_t" where
  "sentry_scope_set_transaction_object transaction s = s\<lparr>sc_span := None, sc_transaction_object := transaction\<rparr>"

definition sentry_scope_set_span :: "sentry_value option \<Rightarrow> sentry_scope_t \<Rightarrow> sentry_scope_t" where
  "sentry_scope_set_span inner s = s\<lparr>sc_transaction_object := None, sc_span := inner\<rparr>"

definition sentry__scope_add_attachment ::
  "(string option \<Rightarrow> nat) \<Rightarrow> sentry_attachment_t option \<Rightarrow> sentry_scope_t \<Rightarrow> sentry_scope_t \<times> sentry_attachment_t option \<times> notification option" where
  "sentry__scope_add_attachment path_size attachment s =
     (case attachment of
        None \<Rightarrow> (s, None, None)
      | Some a \<Rightarrow>
          (case sentry__attachments_add path_size (sc_attachments s) (Some a) of
             (atts, added) \<Rightarrow>
               (s\<lparr>sc_attachments := atts\<rparr>, added,
                if map_option att_addr added = Some (att_addr a) then Some (NAddAttachment (att_addr a)) else None)))"

definition sentry_scope_remove_attachment :: "nat option \<Rightarrow> sentry_scope_t \<Rightarrow> sentry_scope_t \<times> notification option" where
  "sentry_scope_remove_attachment attachment s =
     (case sentry__attachments_remove (sc_attachments s) attachment of
        (atts, ok) \<Rightarrow> (s\<lparr>sc_attachments := atts\<rparr>, if ok then map_option NRemoveAttachment attachment else None))"

definition sentry_scope_attach_file_n ::
  "(string option \<Rightarrow> nat) \<Rightarrow> nat \<Rightarrow> string option \<Rightarrow> nat \<Rightarrow> sentry_scope_t \<Rightarrow> sentry_scope_t \<times> sentry_attachment_t option \<times> notification option" where
  "sentry_scope_attach_file_n path_size a p n s =
     sentry__scope_add_attachment path_size (sentry__attachment_from_path a (clone_n p n)) s"

section \<open>Observers\<close>

text \<open>\<open>mem\<close> is whether the array could be allocated.\<close>

definition sentry__scope_add_observer :: "bool \<Rightarrow> nat option \<Rightarrow> sentry_scope_t \<Rightarrow> bool \<times> sentry_scope_t" where
  "sentry__scope_add_observer mem observer s =
     (case observer of
        None \<Rightarrow> (False, s)
      | Some a \<Rightarrow> if \<not> mem then (False, s) else (True, s\<lparr>sc_observers := sc_observers s @ [Some a]\<rparr>))"

text \<open>The loop over the array: the entry found becomes a tombstone while a broadcast runs, and is removed otherwise.\<close>

fun remove_observer_loop :: "bool \<Rightarrow> nat \<Rightarrow> nat option list \<Rightarrow> nat option list" where
  "remove_observer_loop notifying a [] = []"
| "remove_observer_loop notifying a (x # xs) =
     (if x \<noteq> Some a then x # remove_observer_loop notifying a xs else if notifying then None # xs else xs)"

definition sentry__scope_remove_observer :: "nat option \<Rightarrow> sentry_scope_t \<Rightarrow> sentry_scope_t" where
  "sentry__scope_remove_observer observer s =
     (case observer of
        None \<Rightarrow> s
      | Some a \<Rightarrow> s\<lparr>sc_observers := remove_observer_loop (sc_is_notifying s > 0) a (sc_observers s)\<rparr>)"

definition sentry__scope_begin_notify :: "sentry_scope_t \<Rightarrow> sentry_scope_t \<times> nat" where
  "sentry__scope_begin_notify s = (s\<lparr>sc_is_notifying := sc_is_notifying s + 1\<rparr>, length (sc_observers s))"

definition sentry__scope_end_notify :: "sentry_scope_t \<Rightarrow> sentry_scope_t" where
  "sentry__scope_end_notify s =
     (let s = s\<lparr>sc_is_notifying := sc_is_notifying s - 1\<rparr>
      in if sc_is_notifying s > 0 then s else s\<lparr>sc_observers := filter (\<lambda>x. x \<noteq> None) (sc_observers s)\<rparr>)"

section \<open>Merging a scope into an event\<close>

text \<open>What is merged besides the members every event gets.\<close>

record sentry_scope_mode_t =
  mode_breadcrumbs :: bool
  mode_modules :: bool
  mode_stacktraces :: bool

definition place_string :: "string \<Rightarrow> string option \<Rightarrow> sentry_value \<Rightarrow> sentry_value" where
  "place_string k source event =
     (if sentry_value_is_null (sentry_value_get_by_key event k) \<and> \<not> sentry__string_empty source
      then set_key k (sentry_value_new_string source) event else event)"

definition place_key :: "string \<Rightarrow> sentry_value \<Rightarrow> sentry_value \<Rightarrow> sentry_value" where
  "place_key k source event =
     (if sentry_value_is_null (sentry_value_get_by_key event k) \<and> \<not> sentry_value_is_null source then set_key k source event else event)"

text \<open>The user: \<open>installation_id\<close> is that of the run.\<close>

definition apply_user :: "string option \<Rightarrow> sentry_value \<Rightarrow> sentry_value \<Rightarrow> sentry_value" where
  "apply_user iid scope_user event =
     (if sentry_value_get_type scope_user \<noteq> SENTRY_VALUE_TYPE_OBJECT then event
      else case iid of
          Some _ \<Rightarrow>
            let event = (if sentry_value_is_null (sentry_value_get_by_key event ''user'')
                         then set_key ''user'' (sentry__value_clone scope_user) event else event);
                user = sentry_value_get_by_key event ''user''
            in if sentry_value_get_type user = SENTRY_VALUE_TYPE_OBJECT \<and> sentry_value_is_null (sentry_value_get_by_key user ''id'')
               then put_child event ''user'' (set_key ''id'' (sentry_value_new_string iid) user) else event
        | None \<Rightarrow>
            if sentry_value_get_length scope_user > 0 then place_key ''user'' (sentry__value_clone scope_user) event else event)"

text \<open>Tags and extra data: cloned when the event has none, otherwise merged into those of the event.\<close>

definition apply_merged :: "string \<Rightarrow> sentry_value \<Rightarrow> sentry_value \<Rightarrow> sentry_value" where
  "apply_merged k source event =
     (let own = sentry_value_get_by_key event k
      in if sentry_value_is_null own then place_key k (sentry__value_clone source) event
         else put_child event k (snd (sentry__value_merge_objects own source)))"

definition get_span_or_transaction :: "sentry_scope_t \<Rightarrow> sentry_value" where
  "get_span_or_transaction s =
     (case sc_span s of Some v \<Rightarrow> v | None \<Rightarrow> (case sc_transaction_object s of Some v \<Rightarrow> v | None \<Rightarrow> VNull))"

text \<open>The contexts of the scope, with the trace of the bound span or else, when the event has no trace of its own, the
  propagation context.\<close>

definition scope_contexts :: "sentry_scope_t \<Rightarrow> bool \<Rightarrow> sentry_value \<Rightarrow> sentry_value" where
  "scope_contexts s is_transaction event_contexts =
     (let contexts = sentry__value_clone (sc_contexts s);
          contexts = (if is_transaction \<and> \<not> sentry_value_is_null contexts
                      then snd (sentry_value_remove_by_key_n contexts ''trace'') else contexts);
          txn_or_span = (if is_transaction then VNull else get_span_or_transaction s);
          scope_trace = (if is_transaction then VNull else sentry__value_get_trace_context txn_or_span);
          contexts = (if sentry_value_is_null scope_trace then contexts
                      else
                        let contexts = (if sentry_value_is_null contexts then sentry_value_new_object else contexts);
                            data = sentry_value_get_by_key txn_or_span ''data''
                        in set_key ''trace'' (set_if (\<not> sentry_value_is_null data) ''data'' data scope_trace) contexts)
      in if \<not> is_transaction \<and> sentry_value_is_null scope_trace
            \<and> sentry_value_is_null (sentry_value_get_by_key event_contexts ''trace'')
         then snd (sentry__value_merge_objects contexts (sc_propagation_context s)) else contexts)"

definition apply_contexts :: "sentry_scope_t \<Rightarrow> sentry_value \<Rightarrow> sentry_value" where
  "apply_contexts s event =
     (let event_contexts = sentry_value_get_by_key event ''contexts'';
          contexts = scope_contexts s (sentry__event_is_transaction event) event_contexts
      in if sentry_value_is_null event_contexts then place_key ''contexts'' contexts event
         else put_child event ''contexts'' (snd (sentry__value_merge_objects event_contexts contexts)))"

text \<open>Symbolication: \<open>symbolize\<close> is what the symbolizer reports for an address.\<close>

record sentry_frame_info_t =
  fi_load_addr :: u64
  fi_symbol_addr :: u64
  fi_symbol :: "string option"
  fi_object_name :: "string option"

definition sentry__symbolize_frame :: "string \<Rightarrow> sentry_value \<Rightarrow> sentry_frame_info_t \<Rightarrow> sentry_value" where
  "sentry__symbolize_frame buf frame info =
     (let null = (\<lambda>frame k. sentry_value_is_null (sentry_value_get_by_key frame k));
          frame = set_if (fi_symbol info \<noteq> None \<and> null frame ''function'') ''function'' (sentry_value_new_string (fi_symbol info)) frame;
          frame = set_if (fi_object_name info \<noteq> None \<and> null frame ''package'') ''package'' (sentry_value_new_string (fi_object_name info)) frame;
          frame = set_if (fi_symbol_addr info \<noteq> 0 \<and> null frame ''symbol_addr'') ''symbol_addr'' (sentry__value_new_addr buf (fi_symbol_addr info)) frame
      in set_if (fi_load_addr info \<noteq> 0 \<and> null frame ''image_addr'') ''image_addr'' (sentry__value_new_addr buf (fi_load_addr info)) frame)"

text \<open>\<open>strtoll(s, NULL, 0)\<close>: the prefix decides between the bases 16, 8 and 10; out of range the result is the nearest bound.\<close>

definition strtoll_base0 :: "string \<Rightarrow> int" where
  "strtoll_base0 str =
     (let s = dropWhile isspace str; neg = at s CHR ''-'';
          s = (if neg \<or> at s CHR ''+'' then drop 1 s else s);
          hex = (at s CHR ''0'' \<and> (at (drop 1 s) CHR ''x'' \<or> at (drop 1 s) CHR ''X'') \<and> drop 2 s \<noteq> [] \<and> isxdigit (hd (drop 2 s)));
          base = (if hex then 16 else if at s CHR ''0'' then 8 else 10);
          val = (\<lambda>c. case hex_val c of None \<Rightarrow> 16 | Some d \<Rightarrow> d);
          ds = takeWhile (\<lambda>c. val c < base) (if hex then drop 2 s else s);
          n = foldl (\<lambda>n c. int base * n + int (val c)) 0 ds
      in if neg then max (- (2 ^ 63)) (- n) else min (2 ^ 63 - 1) n)"

definition symbolize_frame_at :: "string \<Rightarrow> (u64 \<Rightarrow> sentry_frame_info_t list) \<Rightarrow> sentry_value \<Rightarrow> sentry_value" where
  "symbolize_frame_at buf symbolize frame =
     (let addr_value = sentry_value_get_by_key frame ''instruction_addr''
      in if sentry_value_is_null addr_value then frame
         else
           let addr = word_of_int (strtoll_base0 (sentry_value_as_string addr_value))
           in if addr = 0 then frame else foldl (sentry__symbolize_frame buf) frame (symbolize addr))"

text \<open>Writing through the pointers to the elements of a list.\<close>

fun map_items :: "(sentry_value \<Rightarrow> sentry_value) \<Rightarrow> sentry_value \<Rightarrow> sentry_value" where
  "map_items f (VList b xs) = VList b (map f xs)"
| "map_items f v = v"

definition sentry__symbolize_stacktrace :: "string \<Rightarrow> (u64 \<Rightarrow> sentry_frame_info_t list) \<Rightarrow> sentry_value \<Rightarrow> sentry_value" where
  "sentry__symbolize_stacktrace buf symbolize stacktrace =
     (let frames = sentry_value_get_by_key stacktrace ''frames''
      in if sentry_value_get_type frames \<noteq> SENTRY_VALUE_TYPE_LIST then stacktrace
         else put_child stacktrace ''frames'' (map_items (symbolize_frame_at buf symbolize) frames))"

definition on_stacktrace :: "(sentry_value \<Rightarrow> sentry_value) \<Rightarrow> sentry_value \<Rightarrow> sentry_value" where
  "on_stacktrace func item =
     (let stacktrace = sentry_value_get_by_key item ''stacktrace''
      in if sentry_value_is_null stacktrace then item else put_child item ''stacktrace'' (func stacktrace))"

text \<open>The items are a list, or the list below \<open>values\<close>.\<close>

definition on_stacktraces :: "(sentry_value \<Rightarrow> sentry_value) \<Rightarrow> sentry_value \<Rightarrow> sentry_value" where
  "on_stacktraces func v =
     (if sentry_value_get_type v = SENTRY_VALUE_TYPE_OBJECT
      then put_child v ''values'' (map_items (on_stacktrace func) (sentry_value_get_by_key v ''values''))
      else map_items (on_stacktrace func) v)"

definition sentry__foreach_stacktrace :: "(sentry_value \<Rightarrow> sentry_value) \<Rightarrow> sentry_value \<Rightarrow> sentry_value" where
  "sentry__foreach_stacktrace func event =
     (let event = put_child event ''exception'' (on_stacktraces func (sentry_value_get_by_key event ''exception''))
      in put_child event ''threads'' (on_stacktraces func (sentry_value_get_by_key event ''threads'')))"

text \<open>\<open>dist\<close> and \<open>max_breadcrumbs\<close> are options, \<open>iid\<close> is the installation identifier of the run; \<open>modules\<close> and \<open>symbolize\<close> are the
  module finder and the symbolizer.\<close>

definition sentry__scope_apply_to_event ::
  "string option \<Rightarrow> string option \<Rightarrow> nat \<Rightarrow> sentry_value \<Rightarrow> string \<Rightarrow> (u64 \<Rightarrow> sentry_frame_info_t list) \<Rightarrow> sentry_scope_t
     \<Rightarrow> sentry_scope_mode_t \<Rightarrow> sentry_value \<Rightarrow> sentry_value" where
  "sentry__scope_apply_to_event dist iid max_breadcrumbs modules buf symbolize s mode event =
     (let event = place_string ''platform'' (Some ''native'') event;
          event = place_string ''release'' (sc_release s) event;
          event = place_string ''dist'' dist event;
          event = place_string ''environment'' (sc_environment s) event;
          event = set_if (sentry_value_is_null (sentry_value_get_by_key event ''type'') \<and> sentry_value_is_null (sentry_value_get_by_key event ''level''))
                    ''level'' (sentry__value_new_level (sc_level s)) event;
          event = apply_user iid (sc_user s) event;
          event = place_key ''fingerprint'' (sentry__value_clone (sc_fingerprint s)) event;
          event = place_string ''transaction'' (sc_transaction s) event;
          event = place_key ''sdk'' (sc_client_sdk s) event;
          event = apply_merged ''tags'' (sc_tags s) event;
          event = apply_merged ''extra'' (sc_extra s) event;
          event = apply_contexts s event;
          event = (if mode_breadcrumbs mode
                   then set_key ''breadcrumbs'' (sentry__value_merge_breadcrumbs (sentry_value_get_by_key event ''breadcrumbs'')
                          (sentry__ringbuffer_to_list (sc_breadcrumbs s)) max_breadcrumbs) event
                   else event);
          event = set_if (mode_modules mode \<and> \<not> sentry_value_is_null modules) ''debug_meta''
                    (set_key ''images'' modules sentry_value_new_object) event
      in if mode_stacktraces mode then sentry__foreach_stacktrace (sentry__symbolize_stacktrace buf symbolize) event else event)"

section \<open>Merging a scope into telemetry\<close>

definition add_attribute_if :: "sentry_value \<Rightarrow> string \<Rightarrow> sentry_value \<Rightarrow> sentry_value" where
  "add_attribute_if v name attributes =
     (if sentry_value_is_null v then attributes else sentry__value_add_attribute attributes v ''string'' name)"

definition sentry__scope_apply_to_telemetry :: "sentry_scope_t \<Rightarrow> sentry_value \<times> sentry_value \<Rightarrow> sentry_value \<times> sentry_value" where
  "sentry__scope_apply_to_telemetry s = (\<lambda>(telemetry, attributes).
     (let attributes = snd (sentry__value_merge_objects_shallow attributes (sc_attributes s));
          bound = (case sc_transaction_object s of Some v \<Rightarrow> Some v | None \<Rightarrow> sc_span s);
          trace_id = (case bound of
                        None \<Rightarrow> sentry_value_get_by_key (sentry_value_get_by_key (sc_propagation_context s) ''trace'') ''trace_id''
                      | Some v \<Rightarrow> sentry_value_get_by_key v ''trace_id'');
          parent_span_id = (case bound of
                              None \<Rightarrow> sentry_value_new_object
                            | Some v \<Rightarrow> set_key ''value'' (sentry_value_get_by_key v ''span_id'') sentry_value_new_object);
          parent_span_id = set_key ''type'' (str_value ''string'') parent_span_id;
          attributes = set_if (bound \<noteq> None \<and> sentry_value_is_null (sentry_value_get_by_key attributes ''sentry.trace.parent_span_id''))
                         ''sentry.trace.parent_span_id'' parent_span_id attributes;
          telemetry = set_if (\<not> sentry_value_is_null trace_id \<and> sentry_value_is_null (sentry_value_get_by_key telemetry ''trace_id''))
                        ''trace_id'' trace_id telemetry;
          attributes = (if sentry_value_is_null (sc_user s) then attributes
                        else
                          let user = sc_user s;
                              attributes = add_attribute_if (sentry_value_get_by_key user ''id'') ''user.id'' attributes;
                              attributes = add_attribute_if (sentry_value_get_by_key user ''username'') ''user.name'' attributes
                          in add_attribute_if (sentry_value_get_by_key user ''email'') ''user.email'' attributes);
          os_context = sentry_value_get_by_key (sc_contexts s) ''os'';
          attributes = (if sentry_value_is_null os_context then attributes
                        else add_attribute_if (sentry_value_get_by_key os_context ''version'') ''os.version''
                               (add_attribute_if (sentry_value_get_by_key os_context ''name'') ''os.name'' attributes));
          attributes = (case sc_environment s of
                          None \<Rightarrow> attributes
                        | Some e \<Rightarrow> sentry__value_add_attribute attributes (str_value e) ''string'' ''sentry.environment'');
          attributes = (case sc_release s of
                          None \<Rightarrow> attributes
                        | Some r \<Rightarrow> sentry__value_add_attribute attributes (str_value r) ''string'' ''sentry.release'')
      in (telemetry, attributes)))"

end
