(* ===== verification/ScopeObservers.thy ===== *)
theory ScopeObservers
  imports Scope
begin

text \<open>
  The broadcast of a change to the observers of a scope (\<open>SENTRY_SCOPE_NOTIFY\<close> of \<open>sentry_scope.h\<close>).  A callback may register and remove
  observers and change the scope again, which starts a nested broadcast: the relations below allow every such behaviour.  The theory
  shows who is called and what is left of the array.  An observer without a callback for a notification is passed over by the macro;
  here it counts as called, with a callback that does nothing.
\<close>

section \<open>Broadcasts\<close>

text \<open>A change of the scope that leaves the observers alone, as each of the setters is.\<close>

definition keeps_observers :: "(sentry_scope_t \<Rightarrow> sentry_scope_t) \<Rightarrow> bool" where
  "keeps_observers f \<longleftrightarrow> (\<forall>s. sc_observers (f s) = sc_observers s \<and> sc_is_notifying (f s) = sc_is_notifying s)"

text \<open>\<open>scope_notify s n called s'\<close>: the broadcast of \<open>n\<close> calls the observers \<open>called\<close>, in this order.  \<open>notify_loop s i end n called s'\<close> is its
  loop from index \<open>i\<close> on, \<open>callback s s'\<close> what one callback does to the scope.  An observer that is registered meanwhile is a new one, not one of
  those in \<open>old\<close>.\<close>

inductive scope_notify :: "nat set \<Rightarrow> sentry_scope_t \<Rightarrow> notification \<Rightarrow> nat list \<Rightarrow> sentry_scope_t \<Rightarrow> bool"
  and notify_loop :: "nat set \<Rightarrow> sentry_scope_t \<Rightarrow> nat \<Rightarrow> nat \<Rightarrow> notification \<Rightarrow> nat list \<Rightarrow> sentry_scope_t \<Rightarrow> bool"
  and callback :: "nat set \<Rightarrow> sentry_scope_t \<Rightarrow> sentry_scope_t \<Rightarrow> bool"
  for old :: "nat set" where
  notify: "sentry__scope_begin_notify s = (s0, e) \<Longrightarrow> notify_loop old s0 0 e n called s1 \<Longrightarrow> scope_notify old s n called (sentry__scope_end_notify s1)"
| loop_end: "\<not> (i < e \<and> i < length (sc_observers s)) \<Longrightarrow> notify_loop old s i e n [] s"
| loop_skip: "i < e \<Longrightarrow> i < length (sc_observers s) \<Longrightarrow> sc_observers s ! i = None \<Longrightarrow> notify_loop old s (i + 1) e n called s' \<Longrightarrow>
    notify_loop old s i e n called s'"
| loop_call: "i < e \<Longrightarrow> i < length (sc_observers s) \<Longrightarrow> sc_observers s ! i = Some a \<Longrightarrow> callback old s s1 \<Longrightarrow>
    notify_loop old s1 (i + 1) e n called s' \<Longrightarrow> notify_loop old s i e n (a # called) s'"
| callback_done: "callback old s s"
| callback_add: "a \<notin> old \<Longrightarrow> Some a \<notin> set (sc_observers s) \<Longrightarrow> callback old (snd (sentry__scope_add_observer mem (Some a) s)) s' \<Longrightarrow> callback old s s'"
| callback_remove: "callback old (sentry__scope_remove_observer a s) s' \<Longrightarrow> callback old s s'"
| callback_change: "keeps_observers f \<Longrightarrow> scope_notify old (f s) n called s1 \<Longrightarrow> callback old s1 s' \<Longrightarrow> callback old s s'"

section \<open>The array during a broadcast\<close>

definition live :: "nat option list \<Rightarrow> nat list" where
  "live xs = map the (filter (\<lambda>x. x \<noteq> None) xs)"

text \<open>While a broadcast runs, entries become tombstones and new ones, none of the old, are added at the end; nothing moves.\<close>

definition only_grows :: "nat set \<Rightarrow> nat option list \<Rightarrow> nat option list \<Rightarrow> bool" where
  "only_grows old xs ys \<longleftrightarrow> length xs \<le> length ys \<and> (\<forall>i < length xs. ys ! i \<in> {xs ! i, None})
     \<and> (\<forall>i \<ge> length xs. \<forall>a. i < length ys \<longrightarrow> ys ! i = Some a \<longrightarrow> a \<notin> old)"

lemma only_grows_refl [simp]: "only_grows old xs xs"
  by (simp add: only_grows_def)

lemma only_grows_trans: "only_grows old xs ys \<Longrightarrow> only_grows old ys zs \<Longrightarrow> only_grows old xs zs"
proof -
  assume g: "only_grows old xs ys" "only_grows old ys zs"
  have l: "length xs \<le> length ys" "length ys \<le> length zs" using g by (simp_all add: only_grows_def)
  have "zs ! i = xs ! i \<or> zs ! i = None" if "i < length xs" for i
  proof -
    have "ys ! i = xs ! i \<or> ys ! i = None" using g(1) that by (simp add: only_grows_def)
    moreover have "zs ! i = ys ! i \<or> zs ! i = None" using g(2) that l(1) by (simp add: only_grows_def)
    ultimately show ?thesis by auto
  qed
  moreover have "a \<notin> old" if "length xs \<le> i" "i < length zs" "zs ! i = Some a" for i a
  proof (cases "i < length ys")
    case True
    then have "zs ! i = ys ! i \<or> zs ! i = None" using g(2) by (simp add: only_grows_def)
    then show ?thesis using g(1) that True by (simp add: only_grows_def)
  next
    case False
    then show ?thesis using g(2) that by (auto simp: only_grows_def not_less)
  qed
  ultimately show ?thesis using l by (simp add: only_grows_def)
qed

lemma live_simps [simp]: "live [] = []" "live (None # xs) = live xs" "live (Some a # xs) = a # live xs" "live (xs @ ys) = live xs @ live ys"
  by (simp_all add: live_def)

lemma live_set: "a \<in> set (live xs) \<longleftrightarrow> Some a \<in> set xs"
  by (force simp: live_def)

lemma remove_loop_grows: "only_grows old xs (remove_observer_loop True a xs)"
proof (induction xs)
  case (Cons x xs)
  then show ?case by (auto simp: only_grows_def nth_Cons split: nat.splits)
qed simp

lemma remove_loop_live: "subseq (live (remove_observer_loop b a xs)) (live xs)"
proof (induction xs)
  case (Cons x xs)
  then show ?case by (cases x) auto
qed simp

text \<open>What each relation keeps; the claims on distinct observers are for the theorem below.\<close>

definition kept :: "nat set \<Rightarrow> sentry_scope_t \<Rightarrow> sentry_scope_t \<Rightarrow> bool" where
  "kept old s s' \<longleftrightarrow> sc_is_notifying s' = sc_is_notifying s \<and> only_grows old (sc_observers s) (sc_observers s')
     \<and> (distinct (live (sc_observers s)) \<longrightarrow> distinct (live (sc_observers s')))"

lemma subseq_distinct: "subseq xs ys \<Longrightarrow> distinct ys \<Longrightarrow> distinct xs"
  by (induction rule: list_emb.induct) (auto dest: list_emb_set)

lemma kept_refl [simp]: "kept old s s"
  by (simp add: kept_def)

lemma kept_trans: "kept old s s1 \<Longrightarrow> kept old s1 s2 \<Longrightarrow> kept old s s2"
  by (auto simp: kept_def intro: only_grows_trans)

lemma kept_add: "a \<notin> old \<Longrightarrow> Some a \<notin> set (sc_observers s) \<Longrightarrow> kept old s (snd (sentry__scope_add_observer mem (Some a) s))"
  by (auto simp: kept_def sentry__scope_add_observer_def only_grows_def nth_append live_set)

lemma kept_remove: "sc_is_notifying s > 0 \<Longrightarrow> kept old s (sentry__scope_remove_observer a s)"
  using remove_loop_grows subseq_distinct [OF remove_loop_live]
  by (cases a) (auto simp: kept_def sentry__scope_remove_observer_def)

lemma kept_change: "keeps_observers f \<Longrightarrow> kept old s (f s)"
  by (simp add: keeps_observers_def kept_def)

lemma broadcast_kept:
  "scope_notify old s n called s' \<Longrightarrow> sc_is_notifying s > 0 \<Longrightarrow> kept old s s'"
  "notify_loop old s i e n called s' \<Longrightarrow> sc_is_notifying s > 0 \<Longrightarrow> kept old s s'"
  "callback old s s' \<Longrightarrow> sc_is_notifying s > 0 \<Longrightarrow> kept old s s'"
proof (induction rule: scope_notify_notify_loop_callback.inducts)
  case (notify s s0 e n called s1)
  then have "kept old s0 s1" by (auto simp: sentry__scope_begin_notify_def)
  with notify.hyps(1) notify.prems show ?case
    by (auto simp: kept_def sentry__scope_begin_notify_def sentry__scope_end_notify_def Let_def)
next
  case (loop_call i e s a s1 n called s')
  then show ?case by (metis kept_def kept_trans)
next
  case (callback_add a s mem s')
  then show ?case using kept_add by (metis kept_def kept_trans)
next
  case (callback_remove a s s')
  then show ?case using kept_remove by (metis kept_def kept_trans)
next
  case (callback_change f s n called s1 s')
  then show ?case using kept_change by (metis kept_def kept_trans)
qed simp_all

text \<open>The entries from \<open>i\<close> to \<open>e\<close> that are still there at the end were called, and only entries that were there at the start.\<close>

abbreviation window :: "nat \<Rightarrow> nat \<Rightarrow> nat option list \<Rightarrow> nat option list" where
  "window i e xs \<equiv> drop i (take e xs)"

lemma window_Cons: "i < e \<Longrightarrow> i < length xs \<Longrightarrow> window i e xs = xs ! i # window (i + 1) e xs"
  using Cons_nth_drop_Suc [of i "take e xs"] by simp

lemma window_grows: "only_grows old xs ys \<Longrightarrow> subseq (live (window i e ys)) (live (window i e xs))" if "e \<le> length xs"
proof -
  have "only_grows old as bs \<Longrightarrow> length as = length bs \<Longrightarrow> subseq (live bs) (live as)" for as bs
  proof (induction as bs rule: list_induct2')
    case (4 x xs y ys)
    have "only_grows old xs ys" using "4.prems" by (force simp: only_grows_def)
    moreover have "y \<in> {x, None}" using "4.prems" by (force simp: only_grows_def)
    ultimately show ?case using "4.IH" "4.prems" by (cases x; cases y) auto
  qed simp_all
  then show "only_grows old xs ys \<Longrightarrow> subseq (live (window i e ys)) (live (window i e xs))"
    using that by (simp add: only_grows_def)
qed

lemma loop_calls:
  "notify_loop old s i e n called s' \<Longrightarrow> sc_is_notifying s > 0 \<Longrightarrow> e \<le> length (sc_observers s) \<Longrightarrow>
     subseq called (live (window i e (sc_observers s))) \<and> subseq (live (window i e (sc_observers s'))) called"
proof (induction rule: scope_notify_notify_loop_callback.inducts(2) [where ?P1.0 = "\<lambda>s n called s'. True" and ?P3.0 = "\<lambda>s s'. True"])
  case (loop_skip i e s n called s')
  have "kept old s s'" using broadcast_kept(2) [OF loop_skip.hyps(4)] loop_skip.prems(1) by simp
  then have g: "only_grows old (sc_observers s) (sc_observers s')" by (simp add: kept_def)
  have l: "i < length (sc_observers s')" "sc_observers s' ! i = None" using g loop_skip.hyps by (auto simp: only_grows_def)
  then show ?case using loop_skip by (simp add: window_Cons)
next
  case (loop_call i e s a s1 n called s')
  have k1: "kept old s s1" using broadcast_kept(3) [OF loop_call.hyps(4)] loop_call.prems(1) by simp
  then have n1: "sc_is_notifying s1 > 0" "e \<le> length (sc_observers s1)" using loop_call.prems by (auto simp: kept_def only_grows_def)
  note ih = loop_call.IH [OF n1]
  have k2: "kept old s1 s'" using broadcast_kept(2) [OF loop_call.hyps(6)] n1(1) by simp
  have g: "only_grows old (sc_observers s) (sc_observers s1)" "only_grows old (sc_observers s) (sc_observers s')"
    using k1 k2 kept_trans by (auto simp: kept_def intro: only_grows_trans)
  have "subseq called (live (window (i + 1) e (sc_observers s)))"
    using ih window_grows [OF loop_call.prems(2) g(1)] subseq_order.trans by blast
  moreover have "subseq (live (window i e (sc_observers s'))) (a # live (window (i + 1) e (sc_observers s')))"
  proof -
    have "i < length (sc_observers s')" "sc_observers s' ! i \<in> {Some a, None}"
      using g(2) loop_call.hyps(1-3) by (auto simp: only_grows_def)
    then show ?thesis using loop_call.hyps(1) by (auto simp: window_Cons)
  qed
  then have "subseq (live (window i e (sc_observers s'))) (a # called)"
    using subseq_order.trans [of _ "a # live (window (i + 1) e (sc_observers s'))" "a # called"] ih by simp
  ultimately show ?case using loop_call.hyps(1-3) by (simp add: window_Cons)
qed simp_all

section \<open>Who is called, and who is left\<close>

lemma filter_live: "filter (\<lambda>x. x \<noteq> None) xs = map Some (live xs)"
  by (induction xs) auto

lemma live_left:
  assumes "distinct (live xs)" "only_grows (set (live xs)) xs ys" "None \<notin> set xs"
  shows "live (take (length xs) ys) = filter (\<lambda>a. Some a \<in> set ys) (live xs)"
proof -
  have new: "Some a \<in> set ys \<longleftrightarrow> Some a \<in> set (take (length xs) ys)" if "a \<in> set (live xs)" for a
  proof
    assume "Some a \<in> set ys"
    then obtain j where j: "j < length ys" "ys ! j = Some a" by (auto simp: in_set_conv_nth)
    then have "j < length xs" using assms(2) that unfolding only_grows_def by (metis not_le)
    then show "Some a \<in> set (take (length xs) ys)" using j by (force simp: in_set_conv_nth)
  qed (rule in_set_takeD)
  have "only_grows old as bs \<Longrightarrow> length as = length bs \<Longrightarrow> None \<notin> set as \<Longrightarrow> distinct (live as) \<Longrightarrow>
      live bs = filter (\<lambda>a. Some a \<in> set bs) (live as) \<and> set (live bs) \<subseteq> set (live as)" for old as bs
  proof (induction as bs rule: list_induct2')
    case (4 x as y bs)
    have g: "only_grows old as bs" "y \<in> {x, None}" using "4.prems" by (force simp: only_grows_def)+
    obtain a where x: "x = Some a" using "4.prems"(3) by (cases x) auto
    have ih: "live bs = filter (\<lambda>a. Some a \<in> set bs) (live as)" "set (live bs) \<subseteq> set (live as)"
      using "4.IH" [OF g(1)] "4.prems"(2-4) x by auto
    have "Some a \<notin> set bs" using ih(2) "4.prems"(4) x by (auto simp flip: live_set)
    moreover have "filter (\<lambda>b. Some b \<in> set (y # bs)) (live as) = filter (\<lambda>b. Some b \<in> set bs) (live as)"
      using g(2) x "4.prems"(4) by (intro filter_cong) auto
    ultimately show ?case using ih g(2) x by auto
  qed simp_all
  from this [of "set (live xs)" xs "take (length xs) ys"] assms
  have "live (take (length xs) ys) = filter (\<lambda>a. Some a \<in> set (take (length xs) ys)) (live xs)" by (simp add: only_grows_def)
  then show ?thesis using new by (auto intro: filter_cong)
qed

text \<open>C12. A change of the scope reaches its observers, whatever the callbacks do: the observers that were registered when the broadcast
  started are called in the order of their registration, each at most once and none that is still registered at the end is left out;
  observers registered meanwhile are not called.  Afterwards the array holds those that are left, in order, then the new ones, without gaps.\<close>

theorem observers_notified:
  assumes "scope_notify (set before) s n called s'" "sc_is_notifying s = 0" "sc_observers s = map Some before" "distinct before"
  shows "subseq called before \<and> subseq (filter (\<lambda>a. Some a \<in> set (sc_observers s')) before) called \<and> sc_is_notifying s' = 0
    \<and> (\<exists>added. sc_observers s' = map Some (filter (\<lambda>a. Some a \<in> set (sc_observers s')) before @ added) \<and> set added \<inter> set before = {} \<and> distinct added)"
  using assms(1)
proof (cases rule: scope_notify.cases)
  case (notify s0 e s1)
  have lb: "live (map Some before) = before" "None \<notin> set (map Some before)" by (induction before) auto
  have s0: "sc_is_notifying s0 = 1" "sc_observers s0 = map Some before" "e = length before"
    using notify(2) assms(2,3) by (auto simp: sentry__scope_begin_notify_def)
  have k: "kept (set before) s0 s1" using broadcast_kept(2) [OF notify(3)] s0(1) by simp
  then have g: "only_grows (set before) (map Some before) (sc_observers s1)" "distinct (live (sc_observers s1))" "sc_is_notifying s1 = 1"
    using s0 lb(1) assms(4) by (auto simp: kept_def)
  have s': "sc_is_notifying s' = 0" "sc_observers s' = map Some (live (sc_observers s1))"
    using notify(1) g(3) by (simp_all add: sentry__scope_end_notify_def filter_live del: not_None_eq)
  let ?n = "length before" and ?xs = "sc_observers s1"
  have c: "subseq called before" "subseq (live (take ?n ?xs)) called"
    using loop_calls [OF notify(3)] s0 lb(1) by simp_all
  have i: "Some a \<in> set (sc_observers s') \<longleftrightarrow> Some a \<in> set ?xs" for a using s'(2) by (auto simp: live_set)
  have l: "live (take ?n ?xs) = filter (\<lambda>a. Some a \<in> set (sc_observers s')) before"
    using live_left [of "map Some before" ?xs] g(1) lb assms(4) by (simp add: i)
  have sp: "live ?xs = live (take ?n ?xs) @ live (drop ?n ?xs)" by (metis append_take_drop_id live_simps(4))
  have "set (live (drop ?n ?xs)) \<inter> set before = {}"
  proof -
    have new: "a \<notin> set before" if "?n \<le> i" "i < length ?xs" "?xs ! i = Some a" for i a
      using g(1) that by (simp add: only_grows_def)
    have n: "?n \<le> length ?xs" using g(1) by (simp add: only_grows_def)
    have "a \<notin> set before" if d: "Some a \<in> set (drop ?n ?xs)" for a
    proof -
      obtain j where "j < length ?xs - ?n" "?xs ! (?n + j) = Some a" using d n by (auto simp: in_set_conv_nth)
      then show ?thesis by (intro new [of "?n + j"]) simp_all
    qed
    then show ?thesis by (auto simp: live_set)
  qed
  moreover have "distinct (live (drop ?n ?xs))" using g(2) sp by simp
  ultimately have "sc_observers s' = map Some (filter (\<lambda>a. Some a \<in> set (sc_observers s')) before @ live (drop ?n ?xs))
      \<and> set (live (drop ?n ?xs)) \<inter> set before = {} \<and> distinct (live (drop ?n ?xs))"
    unfolding l [symmetric] using s'(2) sp by simp
  then show ?thesis using c s'(1) unfolding l [symmetric] by blast
qed

text \<open>A broadcast to two observers, the first of which removes the second and registers a third.\<close>

theorem observers_notified_witness:
  "\<exists>s'. scope_notify {1, 2} (init_scope\<lparr>sc_observers := [Some 1, Some 2]\<rparr>) NClear [1] s' \<and> sc_observers s' = [Some 1, Some 3]
     \<and> subseq [1 :: nat] [1, 2]"
proof -
  let ?s = "init_scope\<lparr>sc_observers := [Some 1, Some 2]\<rparr>"
  let ?begun = "?s\<lparr>sc_is_notifying := 1\<rparr>" and ?ended = "?s\<lparr>sc_is_notifying := 1, sc_observers := [Some 1, None, Some 3]\<rparr>"
  have c: "callback {1, 2} ?begun ?ended"
    by (rule callback_remove [where a = "Some 2"], rule callback_add [where a = 3 and mem = True])
      (auto simp: sentry__scope_remove_observer_def sentry__scope_add_observer_def init_scope_def intro: callback_done)
  have l: "notify_loop {1, 2} ?ended 1 2 NClear [] ?ended"
    by (rule loop_skip) (auto intro: loop_end)
  have "notify_loop {1, 2} ?begun 0 2 NClear [1] ?ended" by (rule loop_call [OF _ _ _ c]) (use l in simp_all)
  moreover have "sentry__scope_begin_notify ?s = (?begun, 2)" by (simp add: sentry__scope_begin_notify_def init_scope_def numeral_2_eq_2)
  ultimately have n: "scope_notify {1, 2} ?s NClear [1] (sentry__scope_end_notify ?ended)" by (intro notify)
  have "subseq [1 :: nat] [1, 2]" using observers_notified [of "[1, 2]" ?s NClear "[1]"] n by (simp add: init_scope_def)
  moreover have "sc_observers (sentry__scope_end_notify ?ended) = [Some 1, Some 3]" by (simp add: sentry__scope_end_notify_def)
  ultimately show ?thesis using n by blast
qed

end
