(* ===== verification/ScopeApply.thy ===== *)
theory ScopeApply
  imports ScopeObservers
begin

text \<open>
  What merging a scope into an event gives, member by member.  The code is a sequence of updates of one object, several of which read
  what earlier ones wrote; the specification says what each member of the event is in terms of the event that was given, and the theorem
  shows that the sequence computes it: the data of the event always comes first, and no step disturbs the member of another.
\<close>

section \<open>The specification\<close>

definition or_else :: "sentry_value \<Rightarrow> sentry_value \<Rightarrow> sentry_value" where
  "or_else v w = (if sentry_value_is_null v then w else v)"

definition text_value :: "string option \<Rightarrow> sentry_value" where
  "text_value t = (if sentry__string_empty t then VNull else sentry_value_new_string t)"

definition merged_user :: "string option \<Rightarrow> sentry_value \<Rightarrow> sentry_value \<Rightarrow> sentry_value" where
  "merged_user iid scope_user own =
     (if sentry_value_get_type scope_user \<noteq> SENTRY_VALUE_TYPE_OBJECT then own
      else case iid of
          None \<Rightarrow> if sentry_value_get_length scope_user > 0 then or_else own (sentry__value_clone scope_user) else own
        | Some _ \<Rightarrow>
            let user = or_else own (sentry__value_clone scope_user)
            in if sentry_value_get_type user = SENTRY_VALUE_TYPE_OBJECT \<and> sentry_value_is_null (sentry_value_get_by_key user ''id'')
               then set_key ''id'' (sentry_value_new_string iid) user else user)"

definition merged_with :: "sentry_value \<Rightarrow> sentry_value \<Rightarrow> sentry_value" where
  "merged_with source own = (if sentry_value_is_null own then source else snd (sentry__value_merge_objects own source))"

definition applied_member ::
  "string option \<Rightarrow> string option \<Rightarrow> nat \<Rightarrow> sentry_value \<Rightarrow> string \<Rightarrow> (u64 \<Rightarrow> sentry_frame_info_t list) \<Rightarrow> sentry_scope_t
     \<Rightarrow> sentry_scope_mode_t \<Rightarrow> sentry_value \<Rightarrow> string \<Rightarrow> sentry_value" where
  "applied_member dist iid mx modules buf symbolize s mode event k =
     (let own = sentry_value_get_by_key event k in
      if k = ''platform'' then or_else own (VString ''native'')
      else if k = ''release'' then or_else own (text_value (sc_release s))
      else if k = ''dist'' then or_else own (text_value dist)
      else if k = ''environment'' then or_else own (text_value (sc_environment s))
      else if k = ''level'' then
        (if sentry_value_is_null (sentry_value_get_by_key event ''type'') then or_else own (sentry__value_new_level (sc_level s)) else own)
      else if k = ''user'' then merged_user iid (sc_user s) own
      else if k = ''fingerprint'' then or_else own (sentry__value_clone (sc_fingerprint s))
      else if k = ''transaction'' then or_else own (text_value (sc_transaction s))
      else if k = ''sdk'' then or_else own (sc_client_sdk s)
      else if k = ''tags'' then merged_with (if sentry_value_is_null own then sentry__value_clone (sc_tags s) else sc_tags s) own
      else if k = ''extra'' then merged_with (if sentry_value_is_null own then sentry__value_clone (sc_extra s) else sc_extra s) own
      else if k = ''contexts'' then merged_with (scope_contexts s (sentry__event_is_transaction event) own) own
      else if k = ''breadcrumbs'' \<and> mode_breadcrumbs mode then
        sentry__value_merge_breadcrumbs own (sentry__ringbuffer_to_list (sc_breadcrumbs s)) mx
      else if k = ''debug_meta'' \<and> mode_modules mode \<and> \<not> sentry_value_is_null modules then
        set_key ''images'' modules sentry_value_new_object
      else if (k = ''exception'' \<or> k = ''threads'') \<and> mode_stacktraces mode then
        on_stacktraces (sentry__symbolize_stacktrace buf symbolize) own
      else own)"

section \<open>The steps\<close>

abbreviation open_object :: "sentry_value \<Rightarrow> bool" where
  "open_object v \<equiv> (\<exists>ps. v = VObject False ps)"

lemma is_null_iff [simp]: "sentry_value_is_null v \<longleftrightarrow> v = VNull"
  by (simp add: sentry_value_is_null_def)

lemma unfrozen_set [simp]: "open_object e \<Longrightarrow> open_object (set_key k v e)"
  by auto

lemma get_set: "open_object e \<Longrightarrow> CHR 0x00 \<notin> set k \<Longrightarrow>
    sentry_value_get_by_key (set_key k v e) k' = (if k' = k then v else sentry_value_get_by_key e k')"
  by auto

lemma unfrozen_put [simp]: "open_object e \<Longrightarrow> open_object (put_child e k v)"
  by auto

lemma get_put: "open_object e \<Longrightarrow> (sentry_value_get_by_key e k = VNull \<Longrightarrow> v = VNull) \<Longrightarrow>
    sentry_value_get_by_key (put_child e k v) k' = (if k' = k then v else sentry_value_get_by_key e k')"
  by (auto simp: obj_get_put split: option.splits)

text \<open>A step updates one member, by a function of the event that it finds.\<close>

definition updates :: "string \<Rightarrow> (sentry_value \<Rightarrow> sentry_value) \<Rightarrow> (sentry_value \<Rightarrow> sentry_value) \<Rightarrow> bool" where
  "updates k f step \<longleftrightarrow> (\<forall>e. open_object e \<longrightarrow> open_object (step e) \<and>
     (\<forall>k'. sentry_value_get_by_key (step e) k' = (if k' = k then f e else sentry_value_get_by_key e k')))"

lemma updatesD:
  "updates k f step \<Longrightarrow> open_object e \<Longrightarrow> open_object (step e)"
  "updates k f step \<Longrightarrow> open_object e \<Longrightarrow> sentry_value_get_by_key (step e) k' = (if k' = k then f e else sentry_value_get_by_key e k')"
  by (auto simp: updates_def)

lemma updates_place_string: "CHR 0x00 \<notin> set k \<Longrightarrow> updates k (\<lambda>e. or_else (sentry_value_get_by_key e k) (text_value t)) (place_string k t)"
  by (auto simp: updates_def place_string_def or_else_def text_value_def)

lemma updates_place_key: "CHR 0x00 \<notin> set k \<Longrightarrow> updates k (\<lambda>e. or_else (sentry_value_get_by_key e k) v) (place_key k v)"
  by (auto simp: updates_def place_key_def or_else_def)

lemma updates_set_if: "CHR 0x00 \<notin> set k \<Longrightarrow>
    updates k (\<lambda>e. if c e then v else sentry_value_get_by_key e k) (\<lambda>e. set_if (c e) k v e)"
  by (auto simp: updates_def set_if_def)

lemma updates_set: "CHR 0x00 \<notin> set k \<Longrightarrow>
    updates k (\<lambda>e. if c then f e else sentry_value_get_by_key e k) (\<lambda>e. if c then set_key k (f e) e else e)"
  by (auto simp: updates_def)

lemma updates_merged: "CHR 0x00 \<notin> set k \<Longrightarrow>
    updates k (\<lambda>e. let own = sentry_value_get_by_key e k in merged_with (if sentry_value_is_null own then sentry__value_clone v else v) own)
      (apply_merged k v)"
  using updatesD [OF updates_place_key, of k]
  by (auto simp: updates_def apply_merged_def merged_with_def or_else_def Let_def obj_get_put simp del: sentry__value_merge_objects.simps split: option.splits)

lemma updates_contexts:
  "updates ''contexts'' (\<lambda>e. let own = sentry_value_get_by_key e ''contexts'' in merged_with (scope_contexts s (sentry__event_is_transaction e) own) own)
     (apply_contexts s)"
  using updatesD [OF updates_place_key, of "''contexts''"]
  by (auto simp: updates_def apply_contexts_def merged_with_def or_else_def Let_def obj_get_put simp del: sentry__value_merge_objects.simps split: option.splits)

lemma updates_user: "updates ''user'' (\<lambda>e. merged_user iid u (sentry_value_get_by_key e ''user'')) (apply_user iid u)"
proof -
  have p: "open_object e \<Longrightarrow> open_object (place_key ''user'' v e)"
    "open_object e \<Longrightarrow> sentry_value_get_by_key (place_key ''user'' v e) k = (if k = ''user'' then or_else (sentry_value_get_by_key e ''user'') v else sentry_value_get_by_key e k)" for e k v
    using updatesD [OF updates_place_key [of "''user''" v], of e] by simp_all
  have e: "(if sentry_value_get_by_key e ''user'' = VNull then set_key ''user'' (sentry__value_clone u) e else e) = place_key ''user'' (sentry__value_clone u) e"
    if "sentry_value_get_type u = SENTRY_VALUE_TYPE_OBJECT" for e
    using that by (cases u) (auto simp: place_key_def)
  have "open_object (apply_user iid u e) \<and> (\<forall>k. sentry_value_get_by_key (apply_user iid u e) k
      = (if k = ''user'' then merged_user iid u (sentry_value_get_by_key e ''user'') else sentry_value_get_by_key e k))" if o: "open_object e" for e
  proof (cases "sentry_value_get_type u = SENTRY_VALUE_TYPE_OBJECT")
    case True
    define e' where "e' = place_key ''user'' (sentry__value_clone u) e"
    have o': "open_object e'" using p(1) [OF o] by (simp add: e'_def)
    have g: "sentry_value_get_by_key e' k = (if k = ''user'' then or_else (sentry_value_get_by_key e ''user'') (sentry__value_clone u) else sentry_value_get_by_key e k)" for k
      unfolding e'_def by (rule p(2) [OF o])
    have put: "sentry_value_get_by_key (put_child e' ''user'' v) k = (if k = ''user'' then v else sentry_value_get_by_key e' k)"
      if "sentry_value_get_by_key e' ''user'' \<noteq> VNull" for v k using get_put [OF o', of "''user''"] that by blast
    have n: "sentry_value_get_type v = SENTRY_VALUE_TYPE_OBJECT \<Longrightarrow> v \<noteq> VNull" for v by auto
    show ?thesis using True o' g o
      by (cases iid) (auto simp: apply_user_def merged_user_def Let_def e e'_def [symmetric] put n simp del: sentry_value_get_by_key_n.simps put_child.simps)
  qed (use o in \<open>simp add: apply_user_def merged_user_def\<close>)
  then show ?thesis unfolding updates_def by blast
qed

lemma updates_stacktraces:
  "updates k (\<lambda>e. on_stacktraces func (sentry_value_get_by_key e k)) (\<lambda>e. put_child e k (on_stacktraces func (sentry_value_get_by_key e k)))"
  by (auto simp: updates_def obj_get_put on_stacktraces_def split: option.splits)

lemmas apply_steps = updates_place_string updates_place_key updates_merged updates_contexts updates_user

section \<open>The event that is sent\<close>

lemma scope_apply_spec:
  fixes dist iid mx modules buf symbolize s mode ps
  defines "e' \<equiv> sentry__scope_apply_to_event dist iid mx modules buf symbolize s mode (VObject False ps)"
  shows "open_object e'" "sentry_value_get_by_key e' k = applied_member dist iid mx modules buf symbolize s mode (VObject False ps) k"
proof -
  let ?get = sentry_value_get_by_key and ?func = "sentry__symbolize_stacktrace buf symbolize"
  define e0 where "e0 = VObject False ps"
  define e1 where "e1 = place_string ''platform'' (Some ''native'') e0"
  define e2 where "e2 = place_string ''release'' (sc_release s) e1"
  define e3 where "e3 = place_string ''dist'' dist e2"
  define e4 where "e4 = place_string ''environment'' (sc_environment s) e3"
  define e5 where "e5 = set_if (sentry_value_is_null (?get e4 ''type'') \<and> sentry_value_is_null (?get e4 ''level'')) ''level'' (sentry__value_new_level (sc_level s)) e4"
  define e6 where "e6 = apply_user iid (sc_user s) e5"
  define e7 where "e7 = place_key ''fingerprint'' (sentry__value_clone (sc_fingerprint s)) e6"
  define e8 where "e8 = place_string ''transaction'' (sc_transaction s) e7"
  define e9 where "e9 = place_key ''sdk'' (sc_client_sdk s) e8"
  define e10 where "e10 = apply_merged ''tags'' (sc_tags s) e9"
  define e11 where "e11 = apply_merged ''extra'' (sc_extra s) e10"
  define e12 where "e12 = apply_contexts s e11"
  define e13 where "e13 = (if mode_breadcrumbs mode then set_key ''breadcrumbs'' (sentry__value_merge_breadcrumbs (?get e12 ''breadcrumbs'')
      (sentry__ringbuffer_to_list (sc_breadcrumbs s)) mx) e12 else e12)"
  define e14 where "e14 = set_if (mode_modules mode \<and> \<not> sentry_value_is_null modules) ''debug_meta'' (set_key ''images'' modules sentry_value_new_object) e13"
  define e15 where "e15 = put_child e14 ''exception'' (on_stacktraces ?func (?get e14 ''exception''))"
  define e16 where "e16 = put_child e15 ''threads'' (on_stacktraces ?func (?get e15 ''threads''))"
  have u0: "open_object e0" by (simp add: e0_def)
  note s1 = updatesD [OF updates_place_string u0, of "''platform''" "Some ''native''", folded e1_def]
  note s2 = updatesD [OF updates_place_string s1(1), of "''release''" "sc_release s", folded e2_def]
  note s3 = updatesD [OF updates_place_string s2(1), of "''dist''" dist, folded e3_def]
  note s4 = updatesD [OF updates_place_string s3(1), of "''environment''" "sc_environment s", folded e4_def]
  note s5 = updatesD [OF updates_set_if s4(1), of "''level''" "\<lambda>e. sentry_value_is_null (?get e ''type'') \<and> sentry_value_is_null (?get e ''level'')"
      "sentry__value_new_level (sc_level s)", folded e5_def]
  note s6 = updatesD [OF updates_user s5(1), of iid "sc_user s", folded e6_def]
  note s7 = updatesD [OF updates_place_key s6(1), of "''fingerprint''" "sentry__value_clone (sc_fingerprint s)", folded e7_def]
  note s8 = updatesD [OF updates_place_string s7(1), of "''transaction''" "sc_transaction s", folded e8_def]
  note s9 = updatesD [OF updates_place_key s8(1), of "''sdk''" "sc_client_sdk s", folded e9_def]
  note s10 = updatesD [OF updates_merged s9(1), of "''tags''" "sc_tags s", folded e10_def]
  note s11 = updatesD [OF updates_merged s10(1), of "''extra''" "sc_extra s", folded e11_def]
  note s12 = updatesD [OF updates_contexts s11(1), of s, folded e12_def]
  note s13 = updatesD [OF updates_set s12(1), of "''breadcrumbs''" "mode_breadcrumbs mode"
      "\<lambda>e. sentry__value_merge_breadcrumbs (?get e ''breadcrumbs'') (sentry__ringbuffer_to_list (sc_breadcrumbs s)) mx", folded e13_def]
  note s14 = updatesD [OF updates_set_if s13(1), of "''debug_meta''" "\<lambda>_. mode_modules mode \<and> \<not> sentry_value_is_null modules"
      "set_key ''images'' modules sentry_value_new_object", folded e14_def]
  note s15 = updatesD [OF updates_stacktraces s14(1), of "''exception''" ?func, folded e15_def]
  note s16 = updatesD [OF updates_stacktraces s15(1), of "''threads''" ?func, folded e16_def]
  have e': "e' = (if mode_stacktraces mode then e16 else e14)"
    unfolding e'_def e0_def [symmetric] sentry__scope_apply_to_event_def sentry__foreach_stacktrace_def Let_def e16_def e15_def e14_def e13_def e12_def e11_def e10_def e9_def
      e8_def e7_def e6_def e5_def e4_def e3_def e2_def e1_def by (rule refl)
  then show "open_object e'" using s14(1) s16(1) by simp
  have "sentry__event_is_transaction e11 = sentry__event_is_transaction e0"
    unfolding sentry__event_is_transaction_def by (simp add: s11(2) s10(2) s9(2) s8(2) s7(2) s6(2) s5(2) s4(2) s3(2) s2(2) s1(2))
  moreover have "text_value (Some ''native'') = VString ''native''"
    by (simp add: text_value_def sentry__string_empty_def sentry_value_new_string_def cstr_def)
  moreover have "or_else VNull v = v" "w \<noteq> VNull \<Longrightarrow> or_else w v = w" for v w by (simp_all add: or_else_def)
  ultimately show "sentry_value_get_by_key e' k = applied_member dist iid mx modules buf symbolize s mode (VObject False ps) k"
    unfolding e0_def [symmetric] by (simp add: e' applied_member_def Let_def s16(2) s15(2) s14(2) s13(2) s12(2) s11(2) s10(2) s9(2) s8(2) s7(2) s6(2) s5(2) s4(2) s3(2) s2(2) s1(2))
qed

text \<open>C11. Merging a scope into an event gives every member of the event the value that the specification says, in terms of the event as it
  was given: its own data where it has any, otherwise that of the scope, with objects merged member by member and breadcrumbs by
  time; all other members of the event are left as they are.\<close>

theorem scope_apply_members:
  "sentry_value_get_by_key (sentry__scope_apply_to_event dist iid mx modules buf symbolize s mode (VObject False ps)) k
     = applied_member dist iid mx modules buf symbolize s mode (VObject False ps) k"
  by (rule scope_apply_spec(2))

end
