(* ===== verification/Session.thy ===== *)
theory Session
  imports Database Timestamps Scope
begin

text \<open>
  Release-health sessions (\<open>sentry_session.c\<close>): the session record, its JSON form and the reading of it, the file of the running
  session in the directory of the run (\<open>sentry__run_write_session\<close> of \<open>sentry_database.c\<close>) and the envelope item
  (\<open>sentry__envelope_add_session\<close> of \<open>sentry_envelope.c\<close>).  Floating point is an argument: \<open>fd\<close> and \<open>fmt_g\<close> format doubles, \<open>strtod\<close> reads
  them, \<open>secs\<close> is \<open>(double)us / 1000000.0\<close> and \<open>usecs\<close> is \<open>(uint64_t)(d * 1000000)\<close>.
\<close>

section \<open>Sessions\<close>

datatype sentry_session_status_t =
    SENTRY_SESSION_STATUS_OK | SENTRY_SESSION_STATUS_CRASHED | SENTRY_SESSION_STATUS_ABNORMAL | SENTRY_SESSION_STATUS_EXITED

fun status_as_string :: "sentry_session_status_t \<Rightarrow> string" where
  "status_as_string SENTRY_SESSION_STATUS_OK = ''ok''"
| "status_as_string SENTRY_SESSION_STATUS_CRASHED = ''crashed''"
| "status_as_string SENTRY_SESSION_STATUS_ABNORMAL = ''abnormal''"
| "status_as_string SENTRY_SESSION_STATUS_EXITED = ''exited''"

definition status_from_string :: "string \<Rightarrow> sentry_session_status_t" where
  "status_from_string status =
     (if status = ''ok'' then SENTRY_SESSION_STATUS_OK
      else if status = ''exited'' then SENTRY_SESSION_STATUS_EXITED
      else if status = ''crashed'' then SENTRY_SESSION_STATUS_CRASHED
      else if status = ''abnormal'' then SENTRY_SESSION_STATUS_ABNORMAL
      else SENTRY_SESSION_STATUS_OK)"

record sentry_session_t =
  ses_release :: string
  ses_environment :: "string option"
  session_id :: sentry_uuid_t
  distinct_id :: sentry_value
  started_us :: u64
  duration_us :: u64
  ses_errors :: u64
  ses_status :: sentry_session_status_t
  ses_init :: bool

text \<open>\<open>sentry__string_clone\<close>, and the size of the record on a 64-bit target.\<close>

definition sentry__string_clone :: "malloc \<Rightarrow> string option \<Rightarrow> string option" where
  "sentry__string_clone malloc s =
     (case s of None \<Rightarrow> None | Some s \<Rightarrow> if malloc (length (cstr s) + 1) = None then None else Some (cstr s))"

abbreviation SESSION_SIZE :: nat where "SESSION_SIZE \<equiv> 80"

text \<open>\<open>new_id\<close> is the random identifier, \<open>now\<close> the time in microseconds.\<close>

definition sentry__session_new :: "malloc \<Rightarrow> sentry_uuid_t \<Rightarrow> u64 \<Rightarrow> sentry_scope_t \<Rightarrow> sentry_session_t option" where
  "sentry__session_new malloc new_id now scope =
     (let release = sentry__string_clone malloc (sc_release scope); environment = sentry__string_clone malloc (sc_environment scope)
      in case release of
           None \<Rightarrow> None
         | Some r \<Rightarrow>
             if malloc SESSION_SIZE = None then None
             else Some \<lparr>ses_release = r, ses_environment = environment, session_id = new_id, distinct_id = VNull, started_us = now,
                        duration_us = - 1, ses_errors = 0, ses_status = SENTRY_SESSION_STATUS_OK, ses_init = True\<rparr>)"

section \<open>The JSON form\<close>

definition sentry__jsonwriter_write_usec_timestamp where
  "sentry__jsonwriter_write_usec_timestamp ops jw time = sentry__jsonwriter_write_str ops jw (sentry__usec_time_to_iso8601 time)"

definition session_duration :: "(u64 \<Rightarrow> double) \<Rightarrow> u64 \<Rightarrow> sentry_session_t \<Rightarrow> double" where
  "session_duration secs now session =
     (if duration_us session \<noteq> - 1 then secs (duration_us session) else secs (now - started_us session))"

definition sentry__session_to_json where
  "sentry__session_to_json fd fmt_g secs now ops session jw =
     (let jw = sentry__jsonwriter_write_object_start ops jw;
          jw = (if ses_init session then sentry__jsonwriter_write_bool ops (sentry__jsonwriter_write_key ops jw ''init'') True else jw);
          jw = sentry__jsonwriter_write_key ops jw ''sid'';
          jw = sentry__jsonwriter_write_uuid ops jw (Some (session_id session));
          jw = sentry__jsonwriter_write_key ops jw ''status'';
          jw = sentry__jsonwriter_write_str ops jw (Some (status_as_string (ses_status session)));
          jw = (if sentry_value_is_null (distinct_id session) then jw
                else sentry__jsonwriter_write_str ops (sentry__jsonwriter_write_key ops jw ''did'')
                       (Some (sentry__value_stringify fmt_g (distinct_id session))));
          jw = sentry__jsonwriter_write_key ops jw ''errors'';
          jw = sentry__jsonwriter_write_int32 ops jw (ucast (ses_errors session));
          jw = sentry__jsonwriter_write_key ops jw ''started'';
          jw = sentry__jsonwriter_write_usec_timestamp ops jw (started_us session);
          jw = sentry__jsonwriter_write_key ops jw ''duration'';
          jw = sentry__jsonwriter_write_double fd ops jw (session_duration secs now session);
          jw = sentry__jsonwriter_write_key ops jw ''attrs'';
          jw = sentry__jsonwriter_write_object_start ops jw;
          jw = sentry__jsonwriter_write_key ops jw ''release'';
          jw = sentry__jsonwriter_write_str ops jw (Some (ses_release session));
          jw = sentry__jsonwriter_write_key ops jw ''environment'';
          jw = sentry__jsonwriter_write_str ops jw (ses_environment session);
          jw = sentry__jsonwriter_write_object_end ops jw
      in sentry__jsonwriter_write_object_end ops jw)"

definition session_text_buf :: "malloc \<Rightarrow> (double \<Rightarrow> string) \<Rightarrow> (double \<Rightarrow> string) \<Rightarrow> (u64 \<Rightarrow> double) \<Rightarrow> u64 \<Rightarrow> sentry_session_t \<Rightarrow> string option" where
  "session_text_buf malloc fd fmt_g secs now session =
     (case sentry__jsonwriter_into_string (sb_writer_ops malloc)
             (sentry__session_to_json fd fmt_g secs now (sb_writer_ops malloc) session (jsonwriter_new (sentry__writer_new_sb None))) True of
        (None, _) \<Rightarrow> None
      | (Some b, n) \<Rightarrow> Some (take n b))"

definition sentry__session_from_json :: "malloc \<Rightarrow> (string \<Rightarrow> double) \<Rightarrow> (double \<Rightarrow> u64) \<Rightarrow> string \<Rightarrow> sentry_session_t option" where
  "sentry__session_from_json malloc strtod usecs buf =
     (let v = sentry__value_from_json strtod buf
      in if sentry_value_is_null v then None
         else
           let attrs = sentry_value_get_by_key v ''attrs''
           in if sentry_value_is_null attrs then None
              else case sentry__string_clone malloc (Some (sentry_value_as_string (sentry_value_get_by_key attrs ''release''))) of
                  None \<Rightarrow> None
                | Some release \<Rightarrow>
                    if malloc SESSION_SIZE = None then None
                    else Some
                      \<lparr>ses_release = release,
                       ses_environment = sentry__string_clone malloc (Some (sentry_value_as_string (sentry_value_get_by_key attrs ''environment''))),
                       session_id = sentry__value_as_uuid (sentry_value_get_by_key v ''sid''),
                       distinct_id = sentry_value_get_by_key v ''did'',
                       started_us = sentry__iso8601_to_usec (Some (sentry_value_as_string (sentry_value_get_by_key v ''started''))),
                       duration_us = usecs (sentry_value_as_double (sentry_value_get_by_key v ''duration'')),
                       ses_errors = scast (sentry_value_as_int32 (sentry_value_get_by_key v ''errors'')),
                       ses_status = status_from_string (sentry_value_as_string (sentry_value_get_by_key v ''status'')),
                       ses_init = sentry_value_is_true (sentry_value_get_by_key v ''init'')\<rparr>)"

section \<open>The file and the envelope item\<close>

definition sentry__session_from_path :: "malloc \<Rightarrow> (string \<Rightarrow> double) \<Rightarrow> (double \<Rightarrow> u64) \<Rightarrow> disk \<Rightarrow> string \<Rightarrow> sentry_session_t option" where
  "sentry__session_from_path malloc strtod usecs fs p =
     (case read_file malloc fs p of None \<Rightarrow> None | Some buf \<Rightarrow> sentry__session_from_json malloc strtod usecs buf)"

definition sentry__run_write_session where
  "sentry__run_write_session malloc fd fmt_g secs now run session fs =
     (case session_text_buf malloc fd fmt_g secs now session of
        None \<Rightarrow> (False, fs)
      | Some buf \<Rightarrow> (case write_file (session_path run) buf fs of (rv, fs) \<Rightarrow> (rv = 0, fs)))"

definition sentry__envelope_add_session where
  "sentry__envelope_add_session malloc fd fmt_g secs now envelope session =
     (case (envelope, session) of
        (Some e, Some s) \<Rightarrow>
          (case envelope_add_from_owned_buffer e (session_text_buf malloc fd fmt_g secs now s) ''session'' of (e, i) \<Rightarrow> (Some e, i))
      | _ \<Rightarrow> (envelope, None))"

definition sentry__session_sync_user :: "sentry_value \<Rightarrow> string option \<Rightarrow> sentry_session_t \<Rightarrow> sentry_session_t" where
  "sentry__session_sync_user user iid session =
     (let did = sentry_value_get_by_key user ''id''
      in if sentry_value_is_null did \<and> iid \<noteq> None then session\<lparr>distinct_id := sentry_value_new_string iid\<rparr>
         else session\<lparr>distinct_id := did\<rparr>)"

section \<open>The session as a value\<close>

text \<open>What the operations on the writer amount to: one object, whose strings end at their first NUL.\<close>

definition string_value :: "string option \<Rightarrow> sentry_value" where
  "string_value s = (case s of None \<Rightarrow> VNull | Some s \<Rightarrow> VString (cstr s))"

definition session_value where
  "session_value fmt_g secs now session =
     VObject False
       ((if ses_init session then [(''init'', VBool True)] else [])
        @ [(''sid'', string_value (Some (sentry_uuid_as_string (session_id session)))),
           (''status'', string_value (Some (status_as_string (ses_status session))))]
        @ (if sentry_value_is_null (distinct_id session) then []
           else [(''did'', string_value (Some (sentry__value_stringify fmt_g (distinct_id session))))])
        @ [(''errors'', VInt32 (ucast (ses_errors session))),
           (''started'', string_value (sentry__usec_time_to_iso8601 (started_us session))),
           (''duration'', VDouble (session_duration secs now session)),
           (''attrs'', VObject False [(''release'', string_value (Some (ses_release session))),
                                      (''environment'', string_value (ses_environment session))])])"

lemma write_string_value: "sentry__jsonwriter_write_value fd ops jw (string_value s) = sentry__jsonwriter_write_str ops jw s"
  by (cases s) (simp_all add: string_value_def sentry__jsonwriter_write_str_def sentry__jsonwriter_write_str_n_def write_json_str_def)

lemma session_to_json_value:
  "sentry__session_to_json fd fmt_g secs now ops session jw = sentry__jsonwriter_write_value fd ops jw (session_value fmt_g secs now session)"
  by (simp add: sentry__session_to_json_def session_value_def write_string_value sentry__jsonwriter_write_usec_timestamp_def
      sentry__jsonwriter_write_uuid_def sentry_value_is_true_def Let_def)

lemma session_text_json:
  "session_text_buf malloc fd fmt_g secs now session =
     (case sentry__value_to_json malloc fd (session_value fmt_g secs now session) of (None, _) \<Rightarrow> None | (Some b, n) \<Rightarrow> Some (take n b))"
  by (simp add: session_text_buf_def session_to_json_value sentry__value_to_json_def)

section \<open>A session comes back from its file\<close>

lemma string_value_cstr: "sentry_value_as_string (string_value s) = (case s of None \<Rightarrow> [] | Some s \<Rightarrow> cstr s)"
  by (simp add: string_value_def split: option.splits)

lemma reread_string_value: "reread fd sd (string_value s) = string_value s" "json_safe fd (string_value s)" "value_depth (string_value s) = 0"
  by (simp_all add: string_value_def split: option.splits)

lemma status_roundtrip: "status_from_string (cstr (status_as_string st)) = st"
  by (cases st) (simp_all add: status_from_string_def)

lemma session_value_ok:
  "json_safe fd (VDouble (session_duration secs now s)) \<Longrightarrow> json_safe fd (session_value fmt_g secs now s)"
  "value_depth (session_value fmt_g secs now s) = 2"
  by (auto simp: session_value_def keys_ok_def reread_string_value simp del: json_safe.simps(1))

lemma session_text_good:
  assumes "good_malloc malloc" "json_safe fd (VDouble (session_duration secs now s))"
    and "length (json_text fd (session_value fmt_g secs now s)) < SIZE_MAX"
  shows "session_text_buf malloc fd fmt_g secs now s = Some (json_text fd (session_value fmt_g secs now s))"
proof -
  let ?v = "session_value fmt_g secs now s"
  have "json_print fd 0 ?v = json_text fd ?v"
    by (rule json_print_text) (use assms(2) session_value_ok in \<open>simp_all del: json_safe.simps\<close>)
  with value_to_json_exact [of malloc ?v fd] assms(1,3) show ?thesis
    by (auto simp: good_malloc_def session_text_json session_value_ok split: prod.splits option.splits)
qed

lemma errors_fit: "unat (n :: u64) < 2 ^ 31 \<Longrightarrow> scast (ucast n :: 32 word) = n"
proof -
  assume n: "unat n < 2 ^ 31"
  have u: "(ucast n :: 32 word) = word_of_int (uint n)" by simp
  have "uint n < 2 ^ 31" using n of_nat_less_iff [of "unat n" "2 ^ 31", where ?'a = int] by simp
  then have "sint (ucast n :: 32 word) = uint n" unfolding u by (intro sint_of_int) (simp_all add: order_trans [of _ 0])
  then show ?thesis by (simp add: scast_eq)
qed

lemma session_from_text:
  assumes "good_malloc malloc" "json_safe fd (VDouble (session_duration secs now s))" "uuid_wf (session_id s)"
    and "tm_year (gmtime (unat (started_us s div 1000000))) \<le> 8099" "unat (ses_errors s) < 2 ^ 31"
  shows "sentry__session_from_json malloc strtod usecs (json_text fd (session_value fmt_g secs now s)) =
    Some (s\<lparr>ses_release := cstr (ses_release s),
            ses_environment := Some (case ses_environment s of None \<Rightarrow> [] | Some e \<Rightarrow> cstr e),
            distinct_id := (if distinct_id s = VNull then VNull else VString (sentry__value_stringify fmt_g (distinct_id s))),
            duration_us := usecs (sentry_value_as_double (reread fd strtod (VDouble (session_duration secs now s))))\<rparr>)"
proof -
  have r: "sentry__value_from_json strtod (json_text fd (session_value fmt_g secs now s)) = reread fd strtod (session_value fmt_g secs now s)"
    by (rule from_json_safe) (use assms(2) session_value_ok in \<open>simp_all del: json_safe.simps\<close>)
  obtain t where t: "sentry__usec_time_to_iso8601 (started_us s) = Some t" "sentry__iso8601_to_usec (Some t) = started_us s"
      "CHR 0x00 \<notin> set t"
    using iso8601_text [OF assms(4)] .
  have m: "malloc n \<noteq> None" for n using assms(1) by (simp add: good_malloc_def)
  define v where "v = reread fd strtod (session_value fmt_g secs now s)"
  have o: "sentry_value_is_null v = False"
    "sentry_value_get_by_key v ''attrs'' = VObject False [(''release'', string_value (Some (ses_release s))), (''environment'', string_value (ses_environment s))]"
    "sentry_value_get_by_key v ''sid'' = string_value (Some (sentry_uuid_as_string (session_id s)))"
    "sentry_value_get_by_key v ''status'' = string_value (Some (status_as_string (ses_status s)))"
    "sentry_value_get_by_key v ''did'' = (if distinct_id s = VNull then VNull else string_value (Some (sentry__value_stringify fmt_g (distinct_id s))))"
    "sentry_value_get_by_key v ''errors'' = VInt32 (ucast (ses_errors s))"
    "sentry_value_get_by_key v ''started'' = string_value (Some t)"
    "sentry_value_get_by_key v ''duration'' = reread fd strtod (VDouble (session_duration secs now s))"
    "sentry_value_get_by_key v ''init'' = (if ses_init s then VBool True else VNull)"
    by (simp_all add: v_def session_value_def reread_string_value t sentry_value_is_null_def del: reread.simps(3))
  have "CHR 0x00 \<notin> set (sentry_uuid_as_string (session_id s))" using uuid_string_chars by (fastforce simp: isxdigit_def isdigit_def)
  then have "sentry__value_as_uuid (sentry_value_get_by_key v ''sid'') = session_id s"
    using from_printed [OF assms(3)] by (simp add: o string_value_cstr sentry__value_as_uuid_def)
  moreover have "sentry__iso8601_to_usec (Some (sentry_value_as_string (sentry_value_get_by_key v ''started''))) = started_us s"
    using t by (simp add: o string_value_cstr)
  moreover have "scast (sentry_value_as_int32 (sentry_value_get_by_key v ''errors'')) = ses_errors s"
    using errors_fit [OF assms(5)] by (simp add: o)
  moreover have "status_from_string (sentry_value_as_string (sentry_value_get_by_key v ''status'')) = ses_status s"
    by (simp only: o string_value_cstr option.case status_roundtrip)
  moreover have "sentry_value_is_true (sentry_value_get_by_key v ''init'') = ses_init s"
    by (simp add: o sentry_value_is_true_def)
  moreover have "sentry_value_get_by_key v ''did'' = (if distinct_id s = VNull then VNull else VString (sentry__value_stringify fmt_g (distinct_id s)))"
    using stringify_no_nul [of fmt_g "distinct_id s"] by (simp add: o string_value_def)
  moreover have clone: "sentry__string_clone malloc (Some u) = Some (cstr u)" for u using m by (simp add: sentry__string_clone_def)
  ultimately show ?thesis using m
    unfolding sentry__session_from_json_def r v_def [symmetric] Let_def o(1,2,8)
    by (simp add: sentry_value_is_null_def string_value_cstr del: reread.simps(3) split: option.splits)
qed

text \<open>C23. A session survives a restart: when the file of the session can be written and read, a session whose start lies before the
  year 10000 and whose number of errors fits 31 bits is written completely, and reading the file gives it back with every field (the
  identifier, the start, the status, the errors, the flag of the first update, the release); a missing environment becomes the empty
  one, the distinct identifier becomes its text, and the duration is the one that was written.\<close>

theorem session_file_roundtrip:
  assumes malloc: "good_malloc malloc" and io: "io_works fs (session_path run)"
    and double: "json_safe fd (VDouble (session_duration secs now s))" and wf: "uuid_wf (session_id s)"
    and year: "tm_year (gmtime (unat (started_us s div 1000000))) \<le> 8099" and errors: "unat (ses_errors s) < 2 ^ 31"
    and len: "length (json_text fd (session_value fmt_g secs now s)) \<le> MAX_READ_TO_BUFFER"
  shows "\<exists>fs'. sentry__run_write_session malloc fd fmt_g secs now run s fs = (True, fs')
    \<and> sentry__session_from_path malloc strtod usecs fs' (session_path run) =
        Some (s\<lparr>ses_release := cstr (ses_release s),
            ses_environment := Some (case ses_environment s of None \<Rightarrow> [] | Some e \<Rightarrow> cstr e),
            distinct_id := (if distinct_id s = VNull then VNull else VString (sentry__value_stringify fmt_g (distinct_id s))),
            duration_us := usecs (sentry_value_as_double (reread fd strtod (VDouble (session_duration secs now s))))\<rparr>)"
proof -
  let ?t = "json_text fd (session_value fmt_g secs now s)"
  let ?fs = "fs\<lparr>fs_files := (fs_files fs)(session_path run \<mapsto> ?t)\<rparr>"
  have "length ?t < SIZE_MAX" using len by (simp add: SIZE_MAX_def)
  then have "sentry__run_write_session malloc fd fmt_g secs now run s fs = (True, ?fs)"
    using session_text_good [OF malloc double] write_file_ok [OF io] by (simp add: sentry__run_write_session_def)
  moreover have "read_file malloc ?fs (session_path run) = Some ?t"
    using malloc io len by (intro read_file_ok) (simp_all add: io_works_def)
  ultimately show ?thesis
    using session_from_text [OF malloc double wf year errors] by (simp add: sentry__session_from_path_def)
qed

text \<open>An escaped text is at most six times as long.\<close>

lemma quoted_length: "length (quoted s) \<le> 6 * length s + 2"
proof -
  have c: "length (escape_char c) \<le> 6" for c by (simp add: escape_char_def hex_byte_def)
  have "length (escape s) \<le> 6 * length s"
  proof (induction s)
    case (Cons a s)
    then show ?case using c [of a] by (simp add: escape_def)
  qed (simp add: escape_def)
  then show ?thesis by (simp add: quoted_def)
qed

lemma iso8601_length: "sentry__usec_time_to_iso8601 time = Some t \<Longrightarrow> length t \<le> 64"
  by (auto simp: sentry__usec_time_to_iso8601_def Let_def split: if_splits)

lemma cstr_length: "length (cstr s) \<le> length s"
  by (simp add: cstr_def length_takeWhile_le)

definition demo_session :: sentry_session_t where
  "demo_session = \<lparr>ses_release = ''app@1'', ses_environment = None, session_id = \<lparr>bytes = replicate 16 CHR ''a''\<rparr>, distinct_id = VInt32 7,
     started_us = 90061000001, duration_us = 500000, ses_errors = 3, ses_status = SENTRY_SESSION_STATUS_OK, ses_init = True\<rparr>"

theorem session_file_roundtrip_witness:
  "\<exists>fs'. sentry__run_write_session demo_malloc (\<lambda>_. ''0.5'') (\<lambda>_. ''0.5'') (\<lambda>_. 0x3FE0000000000000) 0 demo_run demo_session demo_disk = (True, fs')
    \<and> sentry__session_from_path demo_malloc (\<lambda>_. 0x3FE0000000000000) (\<lambda>_. 500000) fs' (session_path demo_run) =
        Some (demo_session\<lparr>ses_environment := Some [], distinct_id := VString ''7''\<rparr>)"
proof -
  let ?fd = "\<lambda>_ :: double. ''0.5''" and ?secs = "\<lambda>_ :: u64. 0x3FE0000000000000 :: double"
  have d: "session_duration ?secs 0 demo_session = 0x3FE0000000000000" by (simp add: session_duration_def)
  have 1: "unat (started_us demo_session div 1000000) = 90061" by (simp add: demo_session_def)
  have 2: "tm_year (gmtime 90061) \<le> 8099"
    by (simp add: gmtime_def split_year.simps year_len_def leap_def month_lens_def)
  have seven: "char_of (55 :: nat) = CHR ''7''" and three: "char_of (51 :: nat) = CHR ''3''" by code_simp+
  have 7: "sentry__value_stringify ?fd (distinct_id demo_session) = ''7''"
    by (simp add: demo_session_def sentry__value_stringify_def stringify_numeric_def int_str_def dec_str.simps digit_char_def seven)
  have 3: "length (json_text ?fd (session_value ?fd ?secs 0 demo_session)) \<le> MAX_READ_TO_BUFFER"
  proof -
    obtain t where t: "sentry__usec_time_to_iso8601 (started_us demo_session) = Some t"
      using iso8601_text [of "started_us demo_session"] 1 2 by metis
    have q: "length (quoted u) \<le> 6 * 64 + 2" if "length u \<le> 64" for u using quoted_length [of u] that by linarith
    have "length (cstr t) \<le> 64" using iso8601_length [OF t] cstr_length [of t] by simp
    note l = q [OF this] q [of "''init''"] q [of "''sid''"] q [of "''status''"] q [of "''did''"] q [of "''errors''"] q [of "''started''"] q [of "''duration''"]
      q [of "''attrs''"] q [of "''release''"] q [of "''environment''"] q [of "''ok''"] q [of "''7''"] q [of "''app@1''"]
      q [of "cstr (sentry_uuid_as_string (session_id demo_session))"]
    have "length (cstr (sentry_uuid_as_string (session_id demo_session))) \<le> 64"
      using cstr_length [of "sentry_uuid_as_string (session_id demo_session)"] by simp
    moreover have "int_str (sint (ucast (ses_errors demo_session) :: 32 word)) = ''3''" using three
      by (simp add: demo_session_def int_str_def dec_str.simps digit_char_def)
    moreover have "ses_init demo_session" "status_as_string (ses_status demo_session) = ''ok''" "ses_release demo_session = ''app@1''"
      "ses_environment demo_session = None" "distinct_id demo_session = VInt32 7" by (simp_all add: demo_session_def)
    ultimately show ?thesis using l 7 d t
      by (simp add: session_value_def string_value_def half_text sentry_value_is_null_def)
  qed
  have 4: "io_works demo_disk (session_path demo_run)" by (simp add: io_works_def demo_disk_def)
  have 5: "uuid_wf (session_id demo_session)" by (simp add: uuid_wf_def demo_session_def)
  have 6: "json_safe ?fd (VDouble (session_duration ?secs 0 demo_session))" unfolding d by (simp add: half_text)
  have 8: "unat (ses_errors demo_session) < 2 ^ 31" by (simp add: demo_session_def)
  show ?thesis
    using session_file_roundtrip [OF demo_malloc_good 4 6 5 _ 8 3, of "\<lambda>_. 0x3FE0000000000000" "\<lambda>_. 500000"] 1 2 7
    by (simp add: demo_session_def)
qed

end
