(* ===== verification/Capture.thy ===== *)
theory Capture
  imports Session
begin

text \<open>
  The path of an event through the SDK (\<open>sentry_core.c\<close>, with the hand-over of \<open>sentry_transport.c\<close> and the operations of
  \<open>sentry_session.c\<close> on the current session): the event is merged with the scopes, shown to the hook of the application, put into an
  envelope with its attachments and the session, sampled, and then handed to the transport, cached or dropped, as the consent of the
  user allows.  The state holds what the operations change; the envelopes handed to the transport are a list.  The options are
  constant and absent when the SDK is not initialised.  A run exists once it is.
\<close>

section \<open>The state of the SDK\<close>

text \<open>The library functions and the platform: formatting, reading and arithmetic of doubles (\<open>en_frac\<close> is \<open>(double)rnd /
  (double)UINT64_MAX\<close>), the list of modules, the symbolizer and its buffer.\<close>

record environment =
  en_malloc :: malloc
  en_fd :: "double \<Rightarrow> string"
  en_fmt_g :: "double \<Rightarrow> string"
  en_strtod :: "string \<Rightarrow> double"
  en_secs :: "u64 \<Rightarrow> double"
  en_usecs :: "double \<Rightarrow> u64"
  en_frac :: "u64 \<Rightarrow> double"
  en_modules :: sentry_value
  en_buf :: string
  en_symbolize :: "u64 \<Rightarrow> sentry_frame_info_t list"

text \<open>What one call takes from the clocks, the random generator (the identifiers it draws, numbered) and the allocator, and whether the user gives consent while the
  call caches an envelope.\<close>

record fresh_inputs =
  fr_ids :: "nat \<Rightarrow> sentry_uuid_t"
  fr_file_id :: sentry_uuid_t
  fr_now_us :: u64
  fr_now_ms :: u64
  fr_random :: "u64 option"
  fr_rolls :: "u64 list"
  fr_addrs :: "nat list"
  fr_consent :: bool

record sentry_options_t =
  opt_dsn :: "sentry_dsn_t option"
  opt_org_id :: "string option"
  opt_strict_trace_continuation :: bool
  opt_dist :: "string option"
  opt_max_breadcrumbs :: nat
  opt_symbolize_stacktraces :: bool
  opt_before_send :: "(sentry_value \<Rightarrow> sentry_value) option"
  opt_before_transaction :: "(sentry_value \<Rightarrow> sentry_value) option"
  opt_before_send_feedback :: "(sentry_value \<Rightarrow> sentry_attachment_t list option \<Rightarrow> sentry_value \<times> sentry_attachment_t list option) option"
  opt_sample_rate :: double
  opt_traces_sample_rate :: double
  opt_traces_sampler :: "(sentry_value \<Rightarrow> sentry_value \<Rightarrow> int option \<Rightarrow> double) option"
  opt_enable_large_attachments :: bool
  opt_cache_keep :: sentry_cache_keep_t
  opt_http_retry :: bool
  opt_database_path :: string

text \<open>A transport: whether it is suspended before and after an envelope is sent, how it dumps its queue, and whether it can retry.\<close>

record sentry_transport_t =
  tr_suspended :: bool
  tr_suspended_after :: bool
  tr_dump :: "(sentry_run_t \<Rightarrow> disk \<Rightarrow> nat \<times> disk) option"
  tr_retry :: bool

text \<open>The transport and the options share one run.\<close>

record sdk =
  sdk_session :: "sentry_session_t option"
  sdk_run :: sentry_run_t
  sdk_scope :: sentry_scope_t
  sdk_transport :: "sentry_transport_t option"
  sdk_disk :: disk
  sdk_discards :: discard_counts
  sdk_sent :: "sentry_envelope_t list"
  sdk_retries :: nat

definition discard :: "sentry_discard_reason_t \<Rightarrow> sentry_data_category_t \<Rightarrow> sdk \<Rightarrow> sdk" where
  "discard reason category st = st\<lparr>sdk_discards := sentry__client_report_discard (reason, category) 1 (sdk_discards st)\<rparr>"

section \<open>Handing an envelope over\<close>

definition sentry__transport_dump_queue :: "sentry_transport_t option \<Rightarrow> sdk \<Rightarrow> nat \<times> sdk" where
  "sentry__transport_dump_queue transport st =
     (case transport of
        None \<Rightarrow> (0, st)
      | Some tr \<Rightarrow>
          (case tr_dump tr of
             None \<Rightarrow> (0, st)
           | Some dump \<Rightarrow> (case dump (sdk_run st) (sdk_disk st) of (n, fs) \<Rightarrow> (n, st\<lparr>sdk_disk := fs\<rparr>))))"

definition sentry__transport_send_envelope :: "environment \<Rightarrow> fresh_inputs \<Rightarrow> sentry_envelope_t option \<Rightarrow> sdk \<Rightarrow> sdk" where
  "sentry__transport_send_envelope env fr envelope st =
     (case (envelope, sdk_transport st) of
        (Some e, Some tr) \<Rightarrow>
          if tr_suspended tr
          then (case sentry__run_write_envelope (en_malloc env) (en_fd env) (en_strtod env) (fr_file_id fr) (sdk_run st) e (sdk_disk st) of
                  (_, run, fs) \<Rightarrow> st\<lparr>sdk_run := run, sdk_disk := fs\<rparr>)
          else
            let st = st\<lparr>sdk_sent := sdk_sent st @ [e]\<rparr>
            in if tr_suspended_after tr then snd (sentry__transport_dump_queue (Some tr) st) else st
      | _ \<Rightarrow> st)"

definition sentry_transport_retry :: "sdk \<Rightarrow> sdk" where
  "sentry_transport_retry st =
     (case sdk_transport st of None \<Rightarrow> st | Some tr \<Rightarrow> if tr_retry tr then st\<lparr>sdk_retries := Suc (sdk_retries st)\<rparr> else st)"

definition sentry__submit_envelope :: "environment \<Rightarrow> sentry_options_t \<Rightarrow> fresh_inputs \<Rightarrow> sentry_envelope_t \<Rightarrow> sdk \<Rightarrow> sdk" where
  "sentry__submit_envelope env opts fr envelope st =
     (if \<not> sentry__run_should_skip_upload (sdk_run st) then sentry__transport_send_envelope env fr (Some envelope) st
      else if opt_cache_keep opts \<noteq> SENTRY_CACHE_KEEP_NONE \<or> opt_http_retry opts
      then
        let retry_count = (if opt_http_retry opts then 0 else - 1);
            (cached, fs) = sentry__run_write_cache (en_malloc env) (en_fd env) (en_strtod env) (fr_now_ms fr) (fr_file_id fr)
              (cache_path (sdk_run st)) envelope retry_count (sdk_disk st);
            st = st\<lparr>sdk_disk := fs,
                    sdk_run := (if fr_consent fr then (sdk_run st)\<lparr>user_consent := SENTRY_USER_CONSENT_GIVEN\<rparr> else sdk_run st)\<rparr>
        in if cached \<and> \<not> sentry__run_should_skip_upload (sdk_run st) then sentry_transport_retry st else st
      else st)"

definition sentry__capture_envelope :: "environment \<Rightarrow> sentry_options_t \<Rightarrow> fresh_inputs \<Rightarrow> sentry_envelope_t \<Rightarrow> sdk \<Rightarrow> sdk" where
  "sentry__capture_envelope env opts fr envelope st =
     (let event_id = sentry__envelope_get_event_id (en_strtod env) (Some envelope);
          st = (if sentry_uuid_is_nil event_id then st else st\<lparr>sdk_scope := (sdk_scope st)\<lparr>sc_last_event_id := event_id\<rparr>\<rparr>)
      in sentry__submit_envelope env opts fr envelope st)"

definition sentry_capture_envelope :: "environment \<Rightarrow> sentry_options_t option \<Rightarrow> fresh_inputs \<Rightarrow> sentry_envelope_t option \<Rightarrow> sdk \<Rightarrow> sdk" where
  "sentry_capture_envelope env options fr envelope st =
     (case (envelope, options) of (Some e, Some opts) \<Rightarrow> sentry__capture_envelope env opts fr e st | _ \<Rightarrow> st)"

definition sentry__scope_capture_envelope ::
  "environment \<Rightarrow> sentry_options_t \<Rightarrow> fresh_inputs \<Rightarrow> sentry_scope_t \<Rightarrow> sentry_envelope_t \<Rightarrow> sdk \<Rightarrow> sentry_scope_t \<times> sdk" where
  "sentry__scope_capture_envelope env opts fr scope envelope st =
     (let event_id = sentry__envelope_get_event_id (en_strtod env) (Some envelope);
          scope = (if sentry_uuid_is_nil event_id then scope else scope\<lparr>sc_last_event_id := event_id\<rparr>)
      in (scope, sentry__submit_envelope env opts fr envelope st))"

section \<open>The current session\<close>

definition add_session where
  "add_session env fr session envelope =
     (case sentry__envelope_add_session (en_malloc env) (en_fd env) (en_fmt_g env) (en_secs env) (fr_now_us fr) (Some envelope) session of
        (e, _) \<Rightarrow> the e)"

definition write_session :: "environment \<Rightarrow> fresh_inputs \<Rightarrow> sentry_session_t \<Rightarrow> sdk \<Rightarrow> sdk" where
  "write_session env fr session st =
     st\<lparr>sdk_disk := snd (sentry__run_write_session (en_malloc env) (en_fd env) (en_fmt_g env) (en_secs env) (fr_now_us fr)
        (sdk_run st) session (sdk_disk st))\<rparr>"

definition sentry__end_session_internal :: "sentry_options_t option \<Rightarrow> sdk \<Rightarrow> sentry_session_t option \<times> sdk" where
  "sentry__end_session_internal options st =
     (case options of
        None \<Rightarrow> (None, st)
      | Some _ \<Rightarrow>
          (map_option (\<lambda>s. if ses_status s = SENTRY_SESSION_STATUS_OK then s\<lparr>ses_status := SENTRY_SESSION_STATUS_EXITED\<rparr> else s)
             (sdk_session st),
           st\<lparr>sdk_session := None, sdk_disk := snd (sentry__run_clear_session (sdk_run st) (sdk_disk st))\<rparr>))"

definition sentry__end_current_session_with_status ::
  "sentry_session_status_t \<Rightarrow> sentry_options_t option \<Rightarrow> sdk \<Rightarrow> sentry_session_t option \<times> sdk" where
  "sentry__end_current_session_with_status status options st =
     (case sentry__end_session_internal options st of (s, st) \<Rightarrow> (map_option (\<lambda>s. s\<lparr>ses_status := status\<rparr>) s, st))"

text \<open>\<open>sentry__envelope_new\<close> takes the DSN from the options.\<close>

definition sentry__envelope_new :: "sentry_options_t option \<Rightarrow> sentry_envelope_t" where
  "sentry__envelope_new options = sentry__envelope_new_with_dsn (case options of None \<Rightarrow> None | Some o' \<Rightarrow> opt_dsn o')"

definition sentry__capture_session :: "environment \<Rightarrow> sentry_options_t option \<Rightarrow> fresh_inputs \<Rightarrow> sentry_session_t \<Rightarrow> sdk \<Rightarrow> sdk" where
  "sentry__capture_session env options fr session st =
     (let envelope = add_session env fr (Some session) (sentry__envelope_new options)
      in case options of None \<Rightarrow> st | Some opts \<Rightarrow> sentry__capture_envelope env opts fr envelope st)"

definition sentry_end_session :: "environment \<Rightarrow> sentry_options_t option \<Rightarrow> fresh_inputs \<Rightarrow> sdk \<Rightarrow> sdk" where
  "sentry_end_session env options fr st =
     (case sentry__end_session_internal options st of
        (None, st) \<Rightarrow> st | (Some s, st) \<Rightarrow> sentry__capture_session env options fr s st)"

definition sentry_end_session_with_status ::
  "sentry_session_status_t \<Rightarrow> environment \<Rightarrow> sentry_options_t option \<Rightarrow> fresh_inputs \<Rightarrow> sdk \<Rightarrow> sdk" where
  "sentry_end_session_with_status status env options fr st =
     (case sentry__end_current_session_with_status status options st of
        (None, st) \<Rightarrow> st | (Some s, st) \<Rightarrow> sentry__capture_session env options fr s st)"

definition sentry_start_session :: "environment \<Rightarrow> sentry_options_t option \<Rightarrow> fresh_inputs \<Rightarrow> sdk \<Rightarrow> sdk" where
  "sentry_start_session env options fr st =
     (let st = sentry_end_session env options fr st
      in case options of
           None \<Rightarrow> st
         | Some _ \<Rightarrow>
             (case sentry__session_new (en_malloc env) (fr_ids fr 0) (fr_now_us fr) (sdk_scope st) of
                None \<Rightarrow> st\<lparr>sdk_session := None\<rparr>
              | Some s \<Rightarrow>
                  let s = sentry__session_sync_user (sc_user (sdk_scope st)) (installation_id (sdk_run st)) s
                  in write_session env fr s (st\<lparr>sdk_session := Some s\<rparr>)))"

definition sentry__record_errors_on_current_session :: "sentry_options_t option \<Rightarrow> u32 \<Rightarrow> sdk \<Rightarrow> sdk" where
  "sentry__record_errors_on_current_session options error_count st =
     (if options = None then st
      else st\<lparr>sdk_session := map_option (\<lambda>s. s\<lparr>ses_errors := ses_errors s + ucast error_count\<rparr>) (sdk_session st)\<rparr>)"

definition sentry_set_user :: "environment \<Rightarrow> sentry_options_t option \<Rightarrow> fresh_inputs \<Rightarrow> sentry_value \<Rightarrow> sdk \<Rightarrow> sdk \<times> notification option" where
  "sentry_set_user env options fr user st =
     (let st = (case (options, sdk_session st) of
                  (Some _, Some s) \<Rightarrow>
                    if sentry_value_is_null user then st
                    else
                      let s = sentry__session_sync_user user (installation_id (sdk_run st)) s
                      in write_session env fr s (st\<lparr>sdk_session := Some s\<rparr>)
                | _ \<Rightarrow> st)
      in case sentry_scope_set_user user (sdk_scope st) of (scope, n) \<Rightarrow> (st\<lparr>sdk_scope := scope\<rparr>, n))"

section \<open>Consent\<close>

definition set_user_consent :: "environment \<Rightarrow> sentry_options_t option \<Rightarrow> sentry_user_consent_t \<Rightarrow> sdk \<Rightarrow> sdk" where
  "set_user_consent env options new_val st =
     (case options of
        None \<Rightarrow> st
      | Some opts \<Rightarrow>
          let old_val = user_consent (sdk_run st); st = st\<lparr>sdk_run := (sdk_run st)\<lparr>user_consent := new_val\<rparr>\<rparr>
          in if old_val = new_val then st
             else
               let consent_path = sentry__path_join_str (en_malloc env) (opt_database_path opts) ''user-consent'';
                   on_path = (\<lambda>f st. case consent_path of None \<Rightarrow> st | Some p \<Rightarrow> st\<lparr>sdk_disk := snd (f p (sdk_disk st))\<rparr>)
               in (case new_val of
                     SENTRY_USER_CONSENT_GIVEN \<Rightarrow> sentry_transport_retry (on_path (\<lambda>p. write_file p [CHR ''1'', CHR 0x0A]) st)
                   | SENTRY_USER_CONSENT_REVOKED \<Rightarrow> on_path (\<lambda>p. write_file p [CHR ''0'', CHR 0x0A]) st
                   | SENTRY_USER_CONSENT_UNKNOWN \<Rightarrow> on_path sentry__path_remove st))"

section \<open>Sampling\<close>

definition sentry__roll_dice :: "environment \<Rightarrow> u64 option \<Rightarrow> double \<Rightarrow> bool" where
  "sentry__roll_dice env rnd probability \<longleftrightarrow>
     double_ge probability (double_of_int 1) \<or> (case rnd of None \<Rightarrow> True | Some r \<Rightarrow> double_ge probability (en_frac env r))"

definition double_less :: "double \<Rightarrow> double \<Rightarrow> bool" where
  "double_less a b \<longleftrightarrow> \<not> double_isnan a \<and> \<not> double_isnan b \<and> double_key a < double_key b"

text \<open>The context of the transaction is handed to the sampler of the application, with the custom one and the decision of the parent.\<close>

definition sentry__should_send_transaction ::
  "sentry_options_t option \<Rightarrow> sentry_value \<Rightarrow> sentry_value \<Rightarrow> sentry_value \<Rightarrow> double \<Rightarrow> bool" where
  "sentry__should_send_transaction options tx_ctx transaction_context custom_sampling_context sample_rand =
     (let context_setting = sentry_value_get_by_key tx_ctx ''sampled'';
          parent_sampled = (if sentry_value_is_null context_setting then None else Some (sentry_value_is_true context_setting))
      in case options of
           None \<Rightarrow> False
         | Some opts \<Rightarrow>
             (case opt_traces_sampler opts of
                Some sampler \<Rightarrow>
                  double_less sample_rand
                    (sampler transaction_context custom_sampling_context (map_option (\<lambda>b. if b then 1 else 0) parent_sampled))
              | None \<Rightarrow>
                  (case parent_sampled of Some b \<Rightarrow> b | None \<Rightarrow> double_less sample_rand (opt_traces_sample_rate opts))))"

section \<open>Preparing envelopes\<close>

definition event_is_considered_error :: "sentry_value \<Rightarrow> bool" where
  "event_is_considered_error event \<longleftrightarrow>
     sentry_value_as_string (sentry_value_get_by_key event ''level'') \<in> {''fatal'', ''error''}
     \<or> \<not> sentry_value_is_null (sentry_value_get_by_key event ''exception'')"

definition apply_scope :: "environment \<Rightarrow> sentry_options_t \<Rightarrow> sdk \<Rightarrow> sentry_scope_t \<Rightarrow> sentry_scope_mode_t \<Rightarrow> sentry_value \<Rightarrow> sentry_value" where
  "apply_scope env opts st scope mode event =
     sentry__scope_apply_to_event (opt_dist opts) (installation_id (sdk_run st)) (opt_max_breadcrumbs opts) (en_modules env) (en_buf env)
       (en_symbolize env) scope mode event"

definition sdk_view :: "sentry_options_t \<Rightarrow> sdk \<Rightarrow> scope_view" where
  "sdk_view opts st = \<lparr>view_sample_rate = opt_traces_sample_rate opts, view_dsc = sc_dsc (sdk_scope st),
     view_propagation_context = sc_propagation_context (sdk_scope st)\<rparr>"

definition file_size :: "sdk \<Rightarrow> string option \<Rightarrow> nat" where
  "file_size st p = (case p of None \<Rightarrow> 0 | Some p \<Rightarrow> sentry__path_get_size (sdk_disk st) p)"

text \<open>The attachments of an envelope, added inline or cached beside it.\<close>

definition add_attachments ::
  "environment \<Rightarrow> sentry_options_t \<Rightarrow> sentry_attachment_t list \<Rightarrow> sentry_envelope_t \<Rightarrow> sdk \<Rightarrow> sentry_envelope_t \<times> sdk" where
  "add_attachments env opts attachments envelope st =
     (let large = Some (opt_enable_large_attachments opts);
          envelope = sentry__envelope_add_attachments (en_malloc env) (read_file (en_malloc env) (sdk_disk st)) (file_size st) large
            envelope attachments;
          (envelope, fs, g) = sentry__cache_attachment_refs (en_malloc env) (en_fd env) (en_strtod env) attachments large
            (Some (cache_path (sdk_run st))) (Some (run_path (sdk_run st))) (envelope, sdk_disk st, sdk_discards st)
      in (envelope, st\<lparr>sdk_disk := fs, sdk_discards := g\<rparr>))"

text \<open>Clones of lists of attachments, put together without duplicates.\<close>

fun extend_all :: "(string option \<Rightarrow> nat) \<Rightarrow> nat list \<Rightarrow> sentry_attachment_t list \<Rightarrow> sentry_attachment_t list list \<Rightarrow> sentry_attachment_t list" where
  "extend_all path_size addrs acc [] = acc"
| "extend_all path_size addrs acc (as # ass) =
     extend_all path_size (drop (length as) addrs) (sentry__attachments_extend path_size addrs acc as) ass"

definition sentry__prepare_event ::
  "environment \<Rightarrow> sentry_options_t \<Rightarrow> fresh_inputs \<Rightarrow> bool \<Rightarrow> sentry_scope_t option \<Rightarrow> sentry_value \<Rightarrow> sdk
     \<Rightarrow> (sentry_envelope_t \<times> sentry_uuid_t) option \<times> sdk" where
  "sentry__prepare_event env opts fr invoke_before_send local_scope event st =
     (let st = (if event_is_considered_error event then sentry__record_errors_on_current_session (Some opts) 1 st else st);
          event = (case local_scope of
                     None \<Rightarrow> event
                   | Some ls \<Rightarrow> apply_scope env opts st ls \<lparr>mode_breadcrumbs = True, mode_modules = False, mode_stacktraces = False\<rparr> event);
          event = apply_scope env opts st (sdk_scope st)
            \<lparr>mode_breadcrumbs = True, mode_modules = True, mode_stacktraces = opt_symbolize_stacktraces opts\<rparr> event;
          hook = (if invoke_before_send then opt_before_send opts else None);
          event = (case hook of None \<Rightarrow> event | Some f \<Rightarrow> f event)
      in if hook \<noteq> None \<and> sentry_value_is_null event then (None, discard SENTRY_DISCARD_REASON_BEFORE_SEND SENTRY_DATA_CATEGORY_ERROR st)
         else
           let (event_id, event) = sentry__ensure_event_id (fr_ids fr 0) event
           in case sentry__envelope_add_event (en_malloc env) (en_fd env) (fr_ids fr 1) (sdk_view opts st) (sentry__envelope_new (Some opts)) event of
                (_, None, _) \<Rightarrow> (None, st)
              | (envelope, Some _, _) \<Rightarrow>
                  let global = sc_attachments (sdk_scope st);
                      attachments = (case local_scope of
                                       None \<Rightarrow> global
                                     | Some ls \<Rightarrow>
                                         if sc_attachments ls = [] then global
                                         else extend_all (file_size st) (fr_addrs fr) [] [sc_attachments ls, global]);
                      (envelope, st) = add_attachments env opts attachments envelope st
                  in (Some (envelope, event_id), st))"

text \<open>The text of the current time is the header \<open>sent_at\<close>.\<close>

definition sentry__prepare_transaction ::
  "environment \<Rightarrow> sentry_options_t \<Rightarrow> fresh_inputs \<Rightarrow> sentry_value \<Rightarrow> sdk \<Rightarrow> (sentry_envelope_t \<times> sentry_uuid_t) option \<times> sdk" where
  "sentry__prepare_transaction env opts fr transaction st =
     (let transaction = apply_scope env opts st (sdk_scope st)
            \<lparr>mode_breadcrumbs = True, mode_modules = False, mode_stacktraces = False\<rparr> transaction;
          transaction = (case opt_before_transaction opts of None \<Rightarrow> transaction | Some f \<Rightarrow> f transaction)
      in if opt_before_transaction opts \<noteq> None \<and> sentry_value_is_null transaction
         then (None, discard SENTRY_DISCARD_REASON_BEFORE_SEND SENTRY_DATA_CATEGORY_TRANSACTION st)
         else
           let (event_id, transaction) = sentry__ensure_event_id (fr_ids fr 0) transaction
           in case sentry__envelope_add_transaction (en_malloc env) (en_fd env) (fr_ids fr 1) (sdk_view opts st)
                     (sentry__usec_time_to_iso8601 (fr_now_us fr)) (sentry__envelope_new (Some opts)) transaction of
                (_, None, _) \<Rightarrow> (None, st)
              | (envelope, Some _, _) \<Rightarrow> (Some (envelope, event_id), st))"

definition prepare_user_report :: "environment \<Rightarrow> sentry_options_t option \<Rightarrow> fresh_inputs \<Rightarrow> sentry_value \<Rightarrow> sentry_envelope_t option" where
  "prepare_user_report env options fr user_report =
     (case sentry__envelope_add_user_report (en_malloc env) (en_fd env) (fr_ids fr 0) (sentry__envelope_new options) user_report of
        (_, None, _) \<Rightarrow> None | (envelope, Some _, _) \<Rightarrow> Some envelope)"

text \<open>A hint is its list of attachments, which the hook may change.\<close>

definition prepare_user_feedback ::
  "environment \<Rightarrow> sentry_options_t \<Rightarrow> fresh_inputs \<Rightarrow> sentry_value \<Rightarrow> sentry_attachment_t list option \<Rightarrow> sentry_scope_t option \<Rightarrow> sdk
     \<Rightarrow> (sentry_envelope_t \<times> sentry_uuid_t) option \<times> sdk" where
  "prepare_user_feedback env opts fr user_feedback hint local_scope st =
     (let event = sentry__value_new_event_with_id (sentry__usec_time_to_iso8601 (fr_now_us fr)) (fr_ids fr 0);
          contexts = set_key ''feedback'' user_feedback sentry_value_new_object;
          event = set_key ''contexts'' contexts event;
          event = set_key ''level'' (sentry__value_new_level SENTRY_LEVEL_INFO) event;
          none = \<lparr>mode_breadcrumbs = False, mode_modules = False, mode_stacktraces = False\<rparr>;
          event = (case local_scope of None \<Rightarrow> event | Some ls \<Rightarrow> apply_scope env opts st ls none event);
          event = apply_scope env opts st (sdk_scope st) none event;
          (event, hint) = (case opt_before_send_feedback opts of None \<Rightarrow> (event, hint) | Some f \<Rightarrow> f event hint)
      in if opt_before_send_feedback opts \<noteq> None \<and> sentry_value_is_null event
         then (None, discard SENTRY_DISCARD_REASON_BEFORE_SEND SENTRY_DATA_CATEGORY_FEEDBACK st)
         else
           let (event_id, event) = sentry__ensure_event_id (fr_ids fr 1) event
           in case sentry__envelope_add_feedback_event (en_malloc env) (en_fd env) (fr_ids fr 2) (sdk_view opts st)
                     (sentry__envelope_new (Some opts)) event of
                (_, None, _) \<Rightarrow> (None, st)
              | (envelope, Some _, _) \<Rightarrow>
                  let global = sc_attachments (sdk_scope st);
                      own = [case hint of None \<Rightarrow> [] | Some as \<Rightarrow> as, case local_scope of None \<Rightarrow> [] | Some ls \<Rightarrow> sc_attachments ls];
                      all_attachments = extend_all (file_size st) (fr_addrs fr) [] own;
                      attachments = (if all_attachments = [] then global
                                     else extend_all (file_size st) (fr_addrs fr) [] (own @ [global]));
                      (envelope, st) = add_attachments env opts attachments envelope st
                  in (Some (envelope, event_id), st))"

section \<open>Capturing\<close>

text \<open>A single-use scope is freed.\<close>

definition sentry__scope_free_one_shot :: "sentry_scope_t option \<Rightarrow> sentry_scope_t option" where
  "sentry__scope_free_one_shot scope = (case scope of None \<Rightarrow> None | Some s \<Rightarrow> if sc_one_shot s then None else Some s)"

definition hand_over ::
  "environment \<Rightarrow> sentry_options_t \<Rightarrow> fresh_inputs \<Rightarrow> sentry_scope_t option \<Rightarrow> sentry_envelope_t \<Rightarrow> sdk \<Rightarrow> sentry_scope_t option \<times> sdk" where
  "hand_over env opts fr local_scope envelope st =
     (case local_scope of
        None \<Rightarrow> (None, sentry__capture_envelope env opts fr envelope st)
      | Some ls \<Rightarrow> (case sentry__scope_capture_envelope env opts fr ls envelope st of (ls, st) \<Rightarrow> (Some ls, st)))"

text \<open>The session goes along with the event and is no longer in its initial update afterwards.\<close>

definition attach_session :: "environment \<Rightarrow> fresh_inputs \<Rightarrow> sentry_envelope_t \<Rightarrow> sdk \<Rightarrow> sentry_envelope_t \<times> sdk" where
  "attach_session env fr envelope st =
     (case sdk_session st of
        None \<Rightarrow> (envelope, st)
      | Some s \<Rightarrow> (add_session env fr (Some s) envelope, st\<lparr>sdk_session := Some (s\<lparr>ses_init := False\<rparr>)\<rparr>))"

definition sentry__capture_event ::
  "environment \<Rightarrow> sentry_options_t option \<Rightarrow> fresh_inputs \<Rightarrow> sentry_value \<Rightarrow> sentry_scope_t option \<Rightarrow> sdk
     \<Rightarrow> sentry_uuid_t \<times> sentry_scope_t option \<times> sdk" where
  "sentry__capture_event env options fr event local_scope st =
     (case options of
        None \<Rightarrow> (sentry_uuid_nil, sentry__scope_free_one_shot local_scope, st)
      | Some opts \<Rightarrow>
          (case (if sentry__event_is_transaction event then sentry__prepare_transaction env opts fr event st
                 else sentry__prepare_event env opts fr True local_scope event st) of
             (None, st) \<Rightarrow> (sentry_uuid_nil, sentry__scope_free_one_shot local_scope, st)
           | (Some (envelope, event_id), st) \<Rightarrow>
               let (envelope, st) = attach_session env fr envelope st
               in if \<not> sentry__roll_dice env (fr_random fr) (opt_sample_rate opts)
                  then (sentry_uuid_nil, sentry__scope_free_one_shot local_scope,
                        discard SENTRY_DISCARD_REASON_SAMPLE_RATE SENTRY_DATA_CATEGORY_ERROR st)
                  else (case hand_over env opts fr local_scope envelope st of
                          (local_scope, st) \<Rightarrow> (event_id, sentry__scope_free_one_shot local_scope, st))))"

definition sentry_scope_capture_event where
  "sentry_scope_capture_event env options fr scope event st =
     (if sentry__event_is_transaction event then (sentry_uuid_nil, scope, st) else sentry__capture_event env options fr event scope st)"

definition sentry_capture_event where
  "sentry_capture_event env options fr event st =
     (if sentry__event_is_transaction event then (sentry_uuid_nil, None, st) else sentry__capture_event env options fr event None st)"

definition sentry_capture_user_feedback :: "environment \<Rightarrow> sentry_options_t option \<Rightarrow> fresh_inputs \<Rightarrow> sentry_value \<Rightarrow> sdk \<Rightarrow> sdk" where
  "sentry_capture_user_feedback env options fr user_report st =
     (case options of
        None \<Rightarrow> st
      | Some opts \<Rightarrow>
          (case prepare_user_report env options fr user_report of
             None \<Rightarrow> st | Some envelope \<Rightarrow> sentry__capture_envelope env opts fr envelope st))"

text \<open>A hook gets an empty hint when the caller has none.\<close>

definition capture_feedback ::
  "environment \<Rightarrow> sentry_options_t option \<Rightarrow> fresh_inputs \<Rightarrow> sentry_value \<Rightarrow> sentry_attachment_t list option \<Rightarrow> sentry_scope_t option \<Rightarrow> sdk
     \<Rightarrow> sentry_uuid_t \<times> sentry_scope_t option \<times> sdk" where
  "capture_feedback env options fr user_feedback hint local_scope st =
     (case options of
        None \<Rightarrow> (sentry_uuid_nil, sentry__scope_free_one_shot local_scope, st)
      | Some opts \<Rightarrow>
          let hint = (if hint = None \<and> opt_before_send_feedback opts \<noteq> None \<and> en_malloc env 8 \<noteq> None then Some [] else hint)
          in (case prepare_user_feedback env opts fr user_feedback hint local_scope st of
                (None, st) \<Rightarrow> (sentry_uuid_nil, sentry__scope_free_one_shot local_scope, st)
              | (Some (envelope, event_id), st) \<Rightarrow>
                  (case hand_over env opts fr local_scope envelope st of
                     (local_scope, st) \<Rightarrow> (event_id, sentry__scope_free_one_shot local_scope, st))))"

definition capture_minidump ::
  "environment \<Rightarrow> sentry_options_t option \<Rightarrow> fresh_inputs \<Rightarrow> string option \<Rightarrow> sdk \<Rightarrow> sentry_uuid_t \<times> sdk" where
  "capture_minidump env options fr dump_path st =
     (case (dump_path, options) of
        (Some p, Some opts) \<Rightarrow>
          let event = sentry__value_new_event_with_id (sentry__usec_time_to_iso8601 (fr_now_us fr)) (fr_ids fr 0);
              event = set_key ''level'' (sentry__value_new_level SENTRY_LEVEL_FATAL) event
          in (case sentry__prepare_event env opts (fr\<lparr>fr_ids := (\<lambda>n. fr_ids fr (Suc n))\<rparr>) True None event st of
                (None, st) \<Rightarrow> (sentry_uuid_nil, st)
              | (Some (envelope, event_id), st) \<Rightarrow>
                  if sentry_uuid_is_nil event_id then (sentry_uuid_nil, st)
                  else if opt_enable_large_attachments opts \<and> file_size st (Some p) \<ge> SENTRY_LARGE_ATTACHMENT_SIZE
                  then
                    let tmp = \<lparr>att_addr = 0, att_path = Some p, att_buf = None, att_filename = None, att_type = Some ''event.minidump'',
                               att_content_type = None\<rparr>
                    in (case sentry__cache_attachment_ref (en_malloc env) (en_fd env) (en_strtod env) (Some tmp)
                               (Some (cache_path (sdk_run st))) None (Some envelope, sdk_disk st) of
                          (ok, envelope, fs) \<Rightarrow>
                            let st = st\<lparr>sdk_disk := fs\<rparr>
                            in if \<not> ok then (sentry_uuid_nil, discard SENTRY_DISCARD_REASON_SEND_ERROR SENTRY_DATA_CATEGORY_ATTACHMENT st)
                               else (event_id, sentry__capture_envelope env opts fr (the envelope) st))
                  else
                    (case sentry__envelope_add_from_path (read_file (en_malloc env) (sdk_disk st)) (Some envelope) (Some p) ''attachment'' of
                       (_, None) \<Rightarrow> (sentry_uuid_nil, st)
                     | (envelope, Some i) \<Rightarrow>
                         let envelope = on_item i (\<lambda>item. sentry__envelope_item_set_header ''filename'' (str_value (sentry__path_filename p))
                               (sentry__envelope_item_set_header ''attachment_type'' (str_value ''event.minidump'') item)) (the envelope)
                         in (event_id, sentry__capture_envelope env opts fr envelope st)))
      | _ \<Rightarrow> (sentry_uuid_nil, st))"

end
