(* ===== verification/CaptureFlow.thy ===== *)
theory CaptureFlow
  imports Capture ScopeApply
begin

text \<open>
  What becomes of captured events: without the consent of the user no operation hands an envelope to the transport (the theory \<open>Consent\<close> draws
  the conclusion), and an event that is captured is handed over exactly once, in an envelope that carries the identifier the caller gets.
\<close>

section \<open>What preparing an envelope keeps\<close>

text \<open>Preparing changes the session, the disk and the counts only.\<close>

definition frame :: "sdk \<Rightarrow> sdk \<Rightarrow> bool" where
  "frame st st' \<longleftrightarrow> sdk_run st' = sdk_run st \<and> sdk_scope st' = sdk_scope st \<and> sdk_transport st' = sdk_transport st
     \<and> sdk_sent st' = sdk_sent st \<and> sdk_retries st' = sdk_retries st"

lemma frame_refl [simp]: "frame st st"
  by (simp add: frame_def)

lemma frame_trans [trans]: "frame a b \<Longrightarrow> frame b c \<Longrightarrow> frame a c"
  by (simp add: frame_def)

lemma frame_upd [simp]:
  "frame st (st\<lparr>sdk_disk := fs\<rparr>)" "frame st (st\<lparr>sdk_session := s\<rparr>)" "frame st (st\<lparr>sdk_discards := g\<rparr>)"
  "frame st (st\<lparr>sdk_disk := fs, sdk_discards := g\<rparr>)" "frame st (st\<lparr>sdk_session := s, sdk_disk := fs\<rparr>)"
  by (simp_all add: frame_def)

lemma frame_discard [simp]: "frame st (discard r c st)"
  by (simp add: discard_def)

lemma frame_errors [simp]: "frame st (sentry__record_errors_on_current_session o' n st)"
  by (simp add: sentry__record_errors_on_current_session_def)

lemma frame_attachments: "add_attachments env opts as e st = (e', st') \<Longrightarrow> frame st st'"
  by (auto simp: add_attachments_def Let_def split: prod.splits)

lemma frame_session: "attach_session env fr e st = (e', st') \<Longrightarrow> frame st st'"
  by (auto simp: attach_session_def split: option.splits)

lemma frame_prepare_event: "sentry__prepare_event env opts fr invoke ls ev st = (r, st') \<Longrightarrow> frame st st'"
proof -
  assume p: "sentry__prepare_event env opts fr invoke ls ev st = (r, st')"
  define st1 where "st1 = (if event_is_considered_error ev then sentry__record_errors_on_current_session (Some opts) 1 st else st)"
  have "frame st st1" by (simp add: st1_def)
  moreover have "frame st1 st'"
    using p frame_attachments unfolding sentry__prepare_event_def st1_def [symmetric]
    by (auto simp: Let_def split: if_splits prod.splits option.splits)
  ultimately show ?thesis by (rule frame_trans)
qed

lemma frame_prepare_transaction: "sentry__prepare_transaction env opts fr tr st = (r, st') \<Longrightarrow> frame st st'"
  by (auto simp: sentry__prepare_transaction_def Let_def split: if_splits prod.splits option.splits)

lemma frame_prepare_feedback: "prepare_user_feedback env opts fr v hint ls st = (r, st') \<Longrightarrow> frame st st'"
  using frame_attachments by (auto simp: prepare_user_feedback_def Let_def split: if_splits prod.splits option.splits)

section \<open>Consent\<close>

text \<open>Nothing was sent, no retry was triggered, and consent is still missing.\<close>

definition withheld :: "sdk \<Rightarrow> sdk \<Rightarrow> bool" where
  "withheld st st' \<longleftrightarrow> sdk_sent st' = sdk_sent st \<and> sdk_retries st' = sdk_retries st \<and> sentry__run_should_skip_upload (sdk_run st')"

lemma withheld_frame: "frame a b \<Longrightarrow> withheld b c \<Longrightarrow> withheld a c" "withheld a b \<Longrightarrow> frame b c \<Longrightarrow> withheld a c"
  by (auto simp: withheld_def frame_def)

lemma withheld_trans: "withheld a b \<Longrightarrow> withheld b c \<Longrightarrow> withheld a c"
  by (simp add: withheld_def)

lemma withheld_refl: "sentry__run_should_skip_upload (sdk_run st) \<Longrightarrow> withheld st st"
  by (simp add: withheld_def)

lemma withheld_submit:
  "sentry__run_should_skip_upload (sdk_run st) \<Longrightarrow> \<not> fr_consent fr \<Longrightarrow> withheld st (sentry__submit_envelope env opts fr e st)"
  by (auto simp: sentry__submit_envelope_def withheld_def Let_def split: prod.splits)

lemma withheld_capture:
  assumes "sentry__run_should_skip_upload (sdk_run st)" "\<not> fr_consent fr"
  shows "withheld st (sentry__capture_envelope env opts fr e st)"
  using assms withheld_submit [of "st\<lparr>sdk_scope := _\<rparr>" fr] withheld_submit [of st fr]
  by (simp add: sentry__capture_envelope_def Let_def withheld_def)

lemma withheld_hand_over:
  assumes "sentry__run_should_skip_upload (sdk_run st)" "\<not> fr_consent fr" "hand_over env opts fr ls e st = (ls', st')"
  shows "withheld st st'"
  using assms withheld_capture withheld_submit
  by (auto simp: hand_over_def sentry__scope_capture_envelope_def Let_def split: option.splits)

lemma frame_skip: "frame st st' \<Longrightarrow> sentry__run_should_skip_upload (sdk_run st') = sentry__run_should_skip_upload (sdk_run st)"
  by (simp add: frame_def)

lemma withheld_after: "frame st st1 \<Longrightarrow> sentry__run_should_skip_upload (sdk_run st) \<Longrightarrow>
    (sentry__run_should_skip_upload (sdk_run st1) \<Longrightarrow> withheld st1 st2) \<Longrightarrow> withheld st st2"
  using withheld_frame(1) frame_skip by blast

lemma withheld_of_frame: "frame st st' \<Longrightarrow> sentry__run_should_skip_upload (sdk_run st) \<Longrightarrow> withheld st st'"
  by (auto simp: withheld_def frame_def)

lemma withheld_capture_event:
  assumes skip: "sentry__run_should_skip_upload (sdk_run st)" and fr: "\<not> fr_consent fr"
  shows "withheld st (snd (snd (sentry__capture_event env o' fr ev ls st)))"
proof (cases o')
  case None
  then show ?thesis using skip by (simp add: sentry__capture_event_def withheld_refl)
next
  case (Some opts)
  obtain r st1 where p: "(if sentry__event_is_transaction ev then sentry__prepare_transaction env opts fr ev st
      else sentry__prepare_event env opts fr True ls ev st) = (r, st1)" by fastforce
  then have f: "frame st st1" using frame_prepare_transaction frame_prepare_event by (metis (full_types))
  show ?thesis
  proof (cases r)
    case None
    then show ?thesis using Some p f skip by (simp add: sentry__capture_event_def withheld_of_frame)
  next
    case r: (Some x)
    obtain e u e2 st2 where a: "x = (e, u)" "attach_session env fr e st1 = (e2, st2)" by (metis surj_pair)
    have f2: "frame st st2" using f frame_session [OF a(2)] by (rule frame_trans)
    obtain ls3 st3 where h: "hand_over env opts fr ls e2 st2 = (ls3, st3)" by fastforce
    have "withheld st st3" using f2 skip by (rule withheld_after) (use h fr withheld_hand_over in blast)
    moreover have "withheld st (discard SENTRY_DISCARD_REASON_SAMPLE_RATE SENTRY_DATA_CATEGORY_ERROR st2)"
      using f2 frame_discard skip by (meson frame_trans withheld_of_frame)
    ultimately show ?thesis using Some p r a h by (simp add: sentry__capture_event_def)
  qed
qed

lemma withheld_feedback:
  assumes skip: "sentry__run_should_skip_upload (sdk_run st)" and fr: "\<not> fr_consent fr"
  shows "withheld st (snd (snd (capture_feedback env o' fr v hint ls st)))"
proof (cases o')
  case None
  then show ?thesis using skip by (simp add: capture_feedback_def withheld_refl)
next
  case (Some opts)
  define hint' where "hint' = (if hint = None \<and> opt_before_send_feedback opts \<noteq> None \<and> en_malloc env 8 \<noteq> None then Some [] else hint)"
  obtain r st1 where p: "prepare_user_feedback env opts fr v hint' ls st = (r, st1)" by fastforce
  note f = frame_prepare_feedback [OF p]
  show ?thesis
  proof (cases r)
    case None
    then show ?thesis using p f skip unfolding capture_feedback_def Some option.case Let_def hint'_def [symmetric] by (simp add: withheld_of_frame)
  next
    case r: (Some x)
    obtain e u where a: "x = (e, u)" by (metis surj_pair)
    obtain ls2 st2 where h: "hand_over env opts fr ls e st1 = (ls2, st2)" by fastforce
    have "withheld st st2" using f skip by (rule withheld_after) (use h fr withheld_hand_over in blast)
    then show ?thesis using p r a h unfolding capture_feedback_def Some option.case Let_def hint'_def [symmetric] by simp
  qed
qed

lemma withheld_minidump:
  assumes skip: "sentry__run_should_skip_upload (sdk_run st)" and fr: "\<not> fr_consent fr"
  shows "withheld st (snd (capture_minidump env o' fr dump st))"
proof (cases "\<exists>p opts. dump = Some p \<and> o' = Some opts")
  case True
  then obtain p opts where d: "dump = Some p" "o' = Some opts" by blast
  define ev where "ev = set_key ''level'' (sentry__value_new_level SENTRY_LEVEL_FATAL)
    (sentry__value_new_event_with_id (sentry__usec_time_to_iso8601 (fr_now_us fr)) (fr_ids fr 0))"
  obtain r st1 where q: "sentry__prepare_event env opts (fr\<lparr>fr_ids := (\<lambda>n. fr_ids fr (Suc n))\<rparr>) True None ev st = (r, st1)" by fastforce
  have f: "frame st st1" using q by (rule frame_prepare_event)
  have w: "withheld st st1" using f skip by (rule withheld_of_frame)
  have c: "withheld st (sentry__capture_envelope env opts fr e (st1\<lparr>sdk_disk := fs\<rparr>))" "withheld st (sentry__capture_envelope env opts fr e st1)"
    "withheld st (discard a b (st1\<lparr>sdk_disk := fs\<rparr>))" for e fs a b
    using f skip fr withheld_capture withheld_after frame_trans [OF f frame_upd(1)] withheld_of_frame frame_trans frame_discard by meson+
  show ?thesis using d q w c unfolding capture_minidump_def ev_def
    by (auto simp: Let_def split: option.splits prod.splits)
qed (use skip in \<open>auto simp: capture_minidump_def withheld_refl split: option.splits\<close>)

lemma withheld_end_session:
  assumes skip: "sentry__run_should_skip_upload (sdk_run st)" and fr: "\<not> fr_consent fr"
  shows "withheld st (sentry_end_session env o' fr st)" "withheld st (sentry_end_session_with_status status env o' fr st)"
proof -
  have f: "frame st st'" if "sentry__end_session_internal o' st = (s, st')" for s st'
    using that by (auto simp: sentry__end_session_internal_def split: option.splits)
  have w: "withheld st st'" "withheld st (sentry__capture_session env o' fr u st')" if "sentry__end_session_internal o' st = (s, st')" for s u st'
  proof -
    show "withheld st st'" using f [OF that] skip by (rule withheld_of_frame)
    then show "withheld st (sentry__capture_session env o' fr u st')"
      using withheld_capture [of st' fr] withheld_trans fr by (auto simp: sentry__capture_session_def withheld_def split: option.splits)
  qed
  show "withheld st (sentry_end_session env o' fr st)" "withheld st (sentry_end_session_with_status status env o' fr st)"
    using w by (auto simp: sentry_end_session_def sentry_end_session_with_status_def sentry__end_current_session_with_status_def
        split: prod.splits option.splits)
qed

lemma withheld_start_session:
  assumes "sentry__run_should_skip_upload (sdk_run st)" "\<not> fr_consent fr"
  shows "withheld st (sentry_start_session env o' fr st)"
  using withheld_end_session(1) [OF assms, of env o']
  by (auto simp: sentry_start_session_def write_session_def Let_def withheld_def split: option.splits)

lemma withheld_consent:
  assumes "sentry__run_should_skip_upload (sdk_run st)" "c \<noteq> SENTRY_USER_CONSENT_GIVEN"
  shows "withheld st (set_user_consent env o' c st)"
  using assms by (cases c) (auto simp: set_user_consent_def withheld_def sentry__run_should_skip_upload_def Let_def split: option.splits)

definition demo_env :: environment where
  "demo_env = \<lparr>en_malloc = demo_malloc, en_fd = (\<lambda>_. ''0.5''), en_fmt_g = (\<lambda>_. ''0.5''), en_strtod = (\<lambda>_. 0x3FE0000000000000),
     en_secs = (\<lambda>_. 0x3FE0000000000000), en_usecs = (\<lambda>_. 500000), en_frac = (\<lambda>_. 0x3FE0000000000000), en_modules = VNull, en_buf = [],
     en_symbolize = (\<lambda>_. [])\<rparr>"

definition demo_fresh :: fresh_inputs where
  "demo_fresh = \<lparr>fr_ids = (\<lambda>n. \<lparr>bytes = CHR ''a'' # replicate 15 (char_of n)\<rparr>), fr_file_id = \<lparr>bytes = replicate 16 CHR ''f''\<rparr>, fr_now_us = 90061000001,
     fr_now_ms = 90061000, fr_random = Some 0, fr_rolls = [0], fr_addrs = [1, 2, 3], fr_consent = False\<rparr>"

definition demo_options :: sentry_options_t where
  "demo_options = \<lparr>opt_dsn = None, opt_org_id = None, opt_strict_trace_continuation = False, opt_dist = None, opt_max_breadcrumbs = 100, opt_symbolize_stacktraces = False,
     opt_before_send = Some (\<lambda>_. VObject False []), opt_before_transaction = None, opt_before_send_feedback = None,
     opt_sample_rate = 0x3FE0000000000000, opt_traces_sample_rate = 0, opt_traces_sampler = None, opt_enable_large_attachments = False,
     opt_cache_keep = SENTRY_CACHE_KEEP_OFFLINE, opt_http_retry = True, opt_database_path = ''d''\<rparr>"

definition demo_sdk :: sdk where
  "demo_sdk = \<lparr>sdk_session = Some demo_session, sdk_run = demo_run\<lparr>require_user_consent := True\<rparr>, sdk_scope = init_scope\<lparr>sc_release := Some ''app@1''\<rparr>,
     sdk_transport = Some \<lparr>tr_suspended = False, tr_suspended_after = False, tr_dump = None, tr_retry = True\<rparr>, sdk_disk = demo_disk,
     sdk_discards = (\<lambda>_. 0), sdk_sent = [], sdk_retries = 0\<rparr>"

section \<open>The identifier in the header\<close>

fun header_of :: "sentry_envelope_t \<Rightarrow> sentry_value" where
  "header_of (Raw _) = VNull"
| "header_of (Items h is) = h"

lemma header_on_item [simp]: "header_of (on_item i f e) = header_of e"
  by (cases e) simp_all

lemma header_add_item [simp]: "envelope_add_item e = (e', r) \<Longrightarrow> header_of e' = header_of e"
  by (cases e) (auto split: if_splits)

lemma header_add_owned: "header_of (fst (envelope_add_from_owned_buffer e b t)) = header_of e"
  by (auto simp: envelope_add_from_owned_buffer_def split: option.splits prod.splits)

lemma header_add_attachment: "header_of (fst (sentry__envelope_add_attachment malloc rd e a)) = header_of e"
  using header_add_owned [of e]
  by (auto simp: sentry__envelope_add_attachment_def sentry__envelope_add_from_buffer_def sentry__envelope_add_from_path_def
      split: option.splits prod.splits) (metis fst_conv)+

lemma header_add_attachments: "header_of (sentry__envelope_add_attachments malloc rd sz o' e as) = header_of e"
  unfolding sentry__envelope_add_attachments_def by (induction as arbitrary: e) (simp_all add: header_add_attachment)

lemma header_cache_ref: "cache_attachment_ref malloc fd a c u rp (e, fs) = (ok, e', fs') \<Longrightarrow> header_of e' = header_of e"
  by (auto simp: cache_attachment_ref_def sentry__envelope_add_attachment_ref_def Let_def split: option.splits prod.splits if_splits)

lemma header_cache_refs: "cache_refs malloc fd o' c u rp as (e, fs, g) = (e', fs', g') \<Longrightarrow> header_of e' = header_of e"
proof (induction as arbitrary: e fs g)
  case (Cons a as)
  then show ?case by (auto split: if_splits prod.splits) (metis header_cache_ref)+
qed simp

lemma header_attachments: "add_attachments env opts as e st = (e', st') \<Longrightarrow> header_of e' = header_of e"
  by (auto simp: add_attachments_def sentry__cache_attachment_refs_def Let_def header_add_attachments split: prod.splits if_splits
      dest!: header_cache_refs)

lemma header_session: "attach_session env fr e st = (e', st') \<Longrightarrow> header_of e' = header_of e"
  using header_add_owned [of e]
  by (auto simp: attach_session_def add_session_def sentry__envelope_add_session_def split: option.splits prod.splits) (metis fst_conv)

lemma from_string_wf: "uuid_wf (sentry_uuid_from_string s)"
proof -
  have "from_string_loop cs pos nib n rv = Some r \<Longrightarrow> length r = length rv" for cs pos nib n rv r
    by (induction cs arbitrary: pos nib n rv) (auto split: if_splits option.splits)
  then have "from_string_loop cs 0 True 0 (replicate 16 CHR 0x00) = Some r \<Longrightarrow> length r = 16" for cs r by fastforce
  then show ?thesis
    by (auto simp: sentry_uuid_from_string_def sentry_uuid_from_string_n_def uuid_wf_def sentry_uuid_nil_def split: option.splits)
qed

lemma as_uuid_new: "uuid_wf u \<Longrightarrow> sentry__value_as_uuid (sentry__value_new_uuid u) = u"
proof -
  assume u: "uuid_wf u"
  have "CHR 0x00 \<notin> set (sentry_uuid_as_string u)" using uuid_string_chars by (fastforce simp: isxdigit_def isdigit_def)
  then show ?thesis using from_printed [OF u]
    by (simp add: sentry__value_as_uuid_def sentry__value_new_uuid_def sentry_value_new_string_n_def)
qed

text \<open>The identifier of an event is drawn once.\<close>

lemma ensure_event_id_spec:
  assumes "sentry__ensure_event_id a ev = (u, ev')" "open_object ev" "uuid_wf a" "\<not> sentry_uuid_is_nil a"
  shows "uuid_wf u" "\<not> sentry_uuid_is_nil u" "sentry__ensure_event_id b ev' = (u, ev')"
proof -
  have g: "sentry_value_get_by_key (set_key ''event_id'' v ev) ''event_id'' = v" for v using get_set [OF assms(2), of "''event_id''"] by simp
  have c: "(u = a \<and> ev' = set_key ''event_id'' (sentry__value_new_uuid a) ev) \<or>
      (ev' = ev \<and> u = sentry__value_as_uuid (sentry_value_get_by_key ev ''event_id'') \<and> \<not> sentry_uuid_is_nil u)"
    using assms(1) by (auto simp: sentry__ensure_event_id_def Let_def split: if_splits)
  then show "uuid_wf u" "\<not> sentry_uuid_is_nil u"
    using assms(3,4) from_string_wf by (auto simp: sentry__value_as_uuid_def)
  show "sentry__ensure_event_id b ev' = (u, ev')"
    using c g as_uuid_new [OF assms(3)] assms(4)
    unfolding sentry__ensure_event_id_def Let_def by (elim disjE conjE) (simp_all del: sentry_value_get_by_key_n.simps)
qed

text \<open>An envelope that carries an identifier in its header.\<close>

definition carries :: "sentry_uuid_t \<Rightarrow> sentry_envelope_t \<Rightarrow> bool" where
  "carries u e \<longleftrightarrow> open_object (header_of e) \<and> sentry_value_get_by_key (header_of e) ''event_id'' = sentry__value_new_uuid u"

lemma carries_id: "carries u e \<Longrightarrow> uuid_wf u \<Longrightarrow> sentry__envelope_get_event_id strtod (Some e) = u"
  using as_uuid_new [of u] by (cases e) (auto simp: carries_def sentry__value_as_uuid_def)

lemma carries_header: "header_of e' = header_of e \<Longrightarrow> carries u e \<Longrightarrow> carries u e'"
  by (simp add: carries_def)

lemma carries_set: "carries u e \<Longrightarrow> CHR 0x00 \<notin> set k \<Longrightarrow> k \<noteq> ''event_id'' \<Longrightarrow> carries u (sentry__envelope_set_header e k v)"
  by (cases e) (auto simp: carries_def)

lemma carries_trace: "carries u e \<Longrightarrow> carries u (add_trace_header dsc e)"
  by (simp add: add_trace_header_def carries_set)

lemma carries_add_with_id:
  assumes "add_with_id malloc fd b t keeps e ev = (e', Some i, ev')" "open_object (header_of e)" "sentry__ensure_event_id b ev = (u, ev)"
  shows "carries u e'"
proof -
  obtain h "is" where e: "e = Items h is" using assms(2) by (cases e) auto
  then obtain ps where h: "h = VObject False ps" using assms(2) by auto
  show ?thesis using assms(1,3) unfolding e h
    by (auto simp: add_with_id_def sentry__envelope_set_event_id_def carries_def Let_def split: option.splits if_splits)
qed

lemma envelope_new_open: "open_object (header_of (sentry__envelope_new o'))"
  by (auto simp: sentry__envelope_new_def sentry__envelope_new_with_dsn_def sentry_value_new_object_def Let_def split: option.splits)

lemma carries_add_event:
  assumes "sentry__envelope_add_event malloc fd b sc e ev = (e', Some i, ev')" "open_object (header_of e)" "sentry__ensure_event_id b ev = (u, ev)"
  shows "carries u e'"
  using assms carries_add_with_id [OF _ assms(2,3)] carries_trace
  by (auto simp: sentry__envelope_add_event_def Let_def split: prod.splits option.splits if_splits)

lemma carries_add_transaction:
  assumes "sentry__envelope_add_transaction malloc fd b sc now e ev = (e', Some i, ev')" "open_object (header_of e)" "sentry__ensure_event_id b ev = (u, ev)"
  shows "carries u e'"
  using assms carries_add_with_id [OF _ assms(2,3)] carries_trace carries_set
  by (auto simp: sentry__envelope_add_transaction_def Let_def split: prod.splits option.splits if_splits)

section \<open>Events are sent once\<close>

text \<open>Hooks return the event, possibly changed, or null; the random identifiers are well-formed and not nil.\<close>

definition hooks_ok :: "sentry_options_t \<Rightarrow> bool" where
  "hooks_ok opts \<longleftrightarrow> (\<forall>f ev. opt_before_send opts = Some f \<or> opt_before_transaction opts = Some f \<longrightarrow> open_object ev \<longrightarrow>
     f ev = VNull \<or> open_object (f ev))"

definition ids_ok :: "fresh_inputs \<Rightarrow> bool" where
  "ids_ok fr \<longleftrightarrow> (\<forall>n. uuid_wf (fr_ids fr n) \<and> \<not> sentry_uuid_is_nil (fr_ids fr n))"

lemma apply_scope_open: "open_object ev \<Longrightarrow> open_object (apply_scope env opts st sc mode ev)"
  using scope_apply_spec(1) unfolding apply_scope_def by blast

lemma prepare_event_carries:
  assumes p: "sentry__prepare_event env opts fr invoke ls ev st = (Some (e, u), st')"
    and ev: "open_object ev" and hooks: "hooks_ok opts" and ids: "ids_ok fr"
  shows "carries u e \<and> uuid_wf u \<and> \<not> sentry_uuid_is_nil u"
proof -
  define st1 where "st1 = (if event_is_considered_error ev then sentry__record_errors_on_current_session (Some opts) 1 st else st)"
  define ev1 where "ev1 = (case ls of None \<Rightarrow> ev
    | Some l \<Rightarrow> apply_scope env opts st1 l \<lparr>mode_breadcrumbs = True, mode_modules = False, mode_stacktraces = False\<rparr> ev)"
  define ev2 where "ev2 = apply_scope env opts st1 (sdk_scope st1)
    \<lparr>mode_breadcrumbs = True, mode_modules = True, mode_stacktraces = opt_symbolize_stacktraces opts\<rparr> ev1"
  define hook where "hook = (if invoke then opt_before_send opts else None)"
  define ev3 where "ev3 = (case hook of None \<Rightarrow> ev2 | Some f \<Rightarrow> f ev2)"
  obtain u' ev4 where en: "sentry__ensure_event_id (fr_ids fr 0) ev3 = (u', ev4)" by fastforce
  have "open_object ev2" using ev apply_scope_open unfolding ev2_def ev1_def by (simp split: option.splits)
  moreover note p' = p [unfolded sentry__prepare_event_def, folded st1_def, unfolded Let_def, folded ev1_def, folded ev2_def, folded hook_def, folded ev3_def]
  ultimately have "open_object ev3"
    using hooks by (auto simp: ev3_def hook_def hooks_ok_def split: option.splits if_splits)
  then have o: "uuid_wf u'" "\<not> sentry_uuid_is_nil u'" "sentry__ensure_event_id (fr_ids fr 1) ev4 = (u', ev4)"
    using ensure_event_id_spec [OF en] ids by (simp_all add: ids_ok_def)
  obtain e1 i ev5 where a: "sentry__envelope_add_event (en_malloc env) (en_fd env) (fr_ids fr 1) (sdk_view opts st1) (sentry__envelope_new (Some opts)) ev4
      = (e1, Some i, ev5)" using p' en by (auto split: if_splits prod.splits option.splits)
  then have c: "carries u' e1" using o(3) envelope_new_open by (intro carries_add_event) auto
  have "u = u' \<and> header_of e = header_of e1"
    using p' en a by (auto split: if_splits prod.splits dest: header_attachments)
  then show ?thesis using c o carries_header by blast
qed

lemma prepare_transaction_carries:
  assumes p: "sentry__prepare_transaction env opts fr ev st = (Some (e, u), st')"
    and ev: "open_object ev" and hooks: "hooks_ok opts" and ids: "ids_ok fr"
  shows "carries u e \<and> uuid_wf u \<and> \<not> sentry_uuid_is_nil u"
proof -
  define ev1 where "ev1 = apply_scope env opts st (sdk_scope st) \<lparr>mode_breadcrumbs = True, mode_modules = False, mode_stacktraces = False\<rparr> ev"
  define ev2 where "ev2 = (case opt_before_transaction opts of None \<Rightarrow> ev1 | Some f \<Rightarrow> f ev1)"
  obtain u' ev3 where en: "sentry__ensure_event_id (fr_ids fr 0) ev2 = (u', ev3)" by fastforce
  have "open_object ev1" using apply_scope_open ev by (simp add: ev1_def)
  moreover note p' = p [unfolded sentry__prepare_transaction_def Let_def, folded ev1_def, folded ev2_def]
  ultimately have "open_object ev2" using hooks by (auto simp: ev2_def hooks_ok_def split: option.splits if_splits)
  then have o: "uuid_wf u'" "\<not> sentry_uuid_is_nil u'" "sentry__ensure_event_id (fr_ids fr 1) ev3 = (u', ev3)"
    using ensure_event_id_spec [OF en] ids by (simp_all add: ids_ok_def)
  then show ?thesis using p' en envelope_new_open
    by (auto split: if_splits prod.splits option.splits intro: carries_add_transaction)
qed

lemma submit_sends:
  assumes "\<not> sentry__run_should_skip_upload (sdk_run st)" "sdk_transport st = Some tr" "\<not> tr_suspended tr"
  shows "sdk_sent (sentry__submit_envelope env opts fr e st) = sdk_sent st @ [e]" "sdk_scope (sentry__submit_envelope env opts fr e st) = sdk_scope st"
  using assms by (auto simp: sentry__submit_envelope_def sentry__transport_send_envelope_def sentry__transport_dump_queue_def Let_def
      split: option.splits prod.splits)

text \<open>C1. A captured event is sent exactly once and under the identifier that the caller gets: with consent and a running transport,
  capturing an event or a transaction either returns the nil identifier and hands nothing to the transport, or hands over exactly one
  envelope, whose identifier is the one returned, which is also remembered as that of the last event.\<close>

theorem captured_event_sent_once:
  assumes cap: "sentry__capture_event env (Some opts) fr event ls st = (u, ls', st')"
    and run: "\<not> sentry__run_should_skip_upload (sdk_run st)" "sdk_transport st = Some tr" "\<not> tr_suspended tr"
    and event: "open_object event" and hooks: "hooks_ok opts" and ids: "ids_ok fr"
  shows "if sentry_uuid_is_nil u then sdk_sent st' = sdk_sent st
    else \<exists>e. sdk_sent st' = sdk_sent st @ [e] \<and> sentry__envelope_get_event_id (en_strtod env) (Some e) = u
           \<and> (ls = None \<longrightarrow> sc_last_event_id (sdk_scope st') = u)"
proof -
  obtain r st1 where p: "(if sentry__event_is_transaction event then sentry__prepare_transaction env opts fr event st
      else sentry__prepare_event env opts fr True ls event st) = (r, st1)" by fastforce
  have f: "frame st st1" using p frame_prepare_transaction frame_prepare_event by (metis (full_types))
  have nil: "sentry_uuid_is_nil sentry_uuid_nil" by (simp add: sentry_uuid_is_nil_def sentry_uuid_nil_def for_first_None)
  show ?thesis
  proof (cases r)
    case None
    then show ?thesis using cap p f nil by (simp add: sentry__capture_event_def frame_def)
  next
    case (Some x)
    obtain e v e2 st2 where x: "x = (e, v)" and a: "attach_session env fr e st1 = (e2, st2)" by (metis surj_pair)
    have c: "carries v e \<and> uuid_wf v \<and> \<not> sentry_uuid_is_nil v"
      using p Some x prepare_transaction_carries [OF _ event hooks ids] prepare_event_carries [OF _ event hooks ids] by (metis (full_types))
    then have id: "sentry__envelope_get_event_id (en_strtod env) (Some e2) = v"
      using carries_header [OF header_session [OF a]] by (intro carries_id) auto
    have f2: "frame st st2" using f frame_session [OF a] by (rule frame_trans)
    then have g: "\<not> sentry__run_should_skip_upload (sdk_run st2)" "sdk_transport st2 = Some tr" "sdk_sent st2 = sdk_sent st"
      using run by (simp_all add: frame_def)
    show ?thesis
    proof (cases "sentry__roll_dice env (fr_random fr) (opt_sample_rate opts)")
      case False
      then show ?thesis using cap p Some x a nil g(3) by (auto simp: sentry__capture_event_def discard_def)
    next
      case True
      then have h: "u = v" "st' = snd (hand_over env opts fr ls e2 st2)"
        using cap p Some x a by (auto simp: sentry__capture_event_def split: prod.splits)
      have "sdk_sent st' = sdk_sent st @ [e2] \<and> (ls = None \<longrightarrow> sc_last_event_id (sdk_scope st') = u)"
        using g run(3) id c h(1) submit_sends [of "st2\<lparr>sdk_scope := _\<rparr>" tr] submit_sends [of st2 tr]
        by (auto simp: h(2) hand_over_def sentry__capture_envelope_def sentry__scope_capture_envelope_def Let_def split: option.splits)
      then show ?thesis using id h(1) c by auto
    qed
  qed
qed

lemma envelope_new_item: "\<exists>e. envelope_add_item (sentry__envelope_new o') = (e, Some 0)"
  by (auto simp: sentry__envelope_new_def sentry__envelope_new_with_dsn_def Let_def split: option.splits)

text \<open>An event whose text can be made is not lost on the way.\<close>

lemma prepare_event_some:
  assumes p: "sentry__prepare_event env opts fr True ls ev st = (None, st')"
    and hook: "opt_before_send opts = Some (\<lambda>_. w)" "open_object w" and ids: "ids_ok fr"
    and payload: "json_payload (en_malloc env) (en_fd env) (snd (sentry__ensure_event_id (fr_ids fr 0) w)) \<noteq> None"
  shows False
proof -
  obtain u w' where en: "sentry__ensure_event_id (fr_ids fr 0) w = (u, w')" by fastforce
  then have "sentry__ensure_event_id (fr_ids fr 1) w' = (u, w')"
    using ensure_event_id_spec(3) [OF en hook(2)] ids by (simp add: ids_ok_def)
  then show False using p hook payload en envelope_new_item [of "Some opts"]
    by (auto simp: sentry__prepare_event_def sentry__envelope_add_event_def add_with_id_def Let_def split: prod.splits option.splits)
qed

text \<open>The session of the demonstration state, an event that was given its consent and passes the hook.\<close>

theorem captured_event_sent_once_witness:
  "\<exists>u ls' st'. sentry__capture_event demo_env (Some demo_options) demo_fresh (VObject False [(''message'', VString ''hi'')]) None
       (demo_sdk\<lparr>sdk_run := demo_run\<rparr>) = (u, ls', st')
     \<and> \<not> sentry_uuid_is_nil u \<and> (\<exists>e. sdk_sent st' = [e] \<and> sentry__envelope_get_event_id (en_strtod demo_env) (Some e) = u)"
proof -
  let ?ev = "VObject False [(''message'', VString ''hi'')]" and ?st = "demo_sdk\<lparr>sdk_run := demo_run\<rparr>"
  obtain u ls' st' where c: "sentry__capture_event demo_env (Some demo_options) demo_fresh ?ev None ?st = (u, ls', st')"
    by (metis surj_pair)
  have hooks: "hooks_ok demo_options" by (auto simp: hooks_ok_def demo_options_def)
  have ids: "ids_ok demo_fresh" by (auto simp: ids_ok_def demo_fresh_def uuid_wf_def sentry_uuid_is_nil_def for_first_None intro!: exI [of _ 0])
  have st: "\<not> sentry__run_should_skip_upload (sdk_run ?st)" "sdk_transport ?st = Some \<lparr>tr_suspended = False, tr_suspended_after = False, tr_dump = None, tr_retry = True\<rparr>"
    "sdk_sent ?st = []" by (simp_all add: demo_sdk_def demo_run_def sentry__run_should_skip_upload_def)
  note t = captured_event_sent_once [OF c st(1,2) _ _ hooks ids]
  let ?e = "VObject False [(''event_id'', sentry__value_new_uuid (fr_ids demo_fresh 0))]"
  have j: "json_payload demo_malloc (\<lambda>_. ''0.5'') ?e \<noteq> None"
  proof -
    have "length (json_print (\<lambda>_. ''0.5'') 0 ?e) < SIZE_MAX"
      using quoted_length [of "''event_id''"] quoted_length [of "sentry_uuid_as_string (fr_ids demo_fresh 0)"]
      by (simp add: sentry__value_new_uuid_def sentry_value_new_string_n_def SIZE_MAX_def)
    then show ?thesis using value_to_json_exact [of demo_malloc ?e "\<lambda>_. ''0.5''"] demo_malloc_good
      by (auto simp: json_payload_def good_malloc_def sentry__value_new_uuid_def sentry_value_new_string_n_def split: prod.splits)
  qed
  have r: "sentry__roll_dice demo_env (fr_random demo_fresh) (opt_sample_rate demo_options)"
  proof -
    have "double_is_finite 0x3FE0000000000000" by code_simp
    then have "double_ge 0x3FE0000000000000 0x3FE0000000000000" by (simp add: double_ge_def double_isnan_def)
    then show ?thesis by (simp add: sentry__roll_dice_def demo_options_def demo_env_def demo_fresh_def)
  qed
  have "\<not> sentry_uuid_is_nil u"
  proof
    assume nil: "sentry_uuid_is_nil u"
    obtain r st1 where p: "sentry__prepare_event demo_env demo_options demo_fresh True None ?ev ?st = (r, st1)" by fastforce
    moreover have "\<not> sentry__event_is_transaction ?ev" by (simp add: sentry__event_is_transaction_def)
    ultimately have "r = None"
      using c r nil prepare_event_carries [OF _ _ hooks ids, of demo_env True None ?ev ?st]
      by (auto simp: sentry__capture_event_def hand_over_def split: option.splits prod.splits)
    moreover have "sentry__ensure_event_id (fr_ids demo_fresh 0) (VObject False []) = (fr_ids demo_fresh 0, ?e)"
      by (simp add: sentry__ensure_event_id_def sentry__value_as_uuid_def sentry_uuid_from_string_def sentry_uuid_from_string_n_def
          sentry_uuid_is_nil_def for_first_None)
    ultimately show False using prepare_event_some [of demo_env demo_options demo_fresh None ?ev ?st st1 "VObject False []"] p j ids
      by (simp add: demo_options_def demo_env_def)
  qed
  then show ?thesis using t c st(3) by auto
qed

end
