(* ===== verification/OldRuns.thy ===== *)
theory OldRuns
  imports CaptureFlow "HOL-Library.Sublist"
begin

text \<open>
  The runs that earlier processes left behind (\<open>sentry__process_run_envelopes\<close> and \<open>sentry__process_old_runs\<close> of \<open>sentry_database.c\<close>): their
  envelopes are captured, the sessions that were not closed are reported as crashed or abnormal, and the directories are removed.  What a
  capture takes from the clocks and the random generator is given by the path of the file it is made for.  The sessions that are read are
  logged with the time of the reading, and so are the envelopes of sessions that are captured.
\<close>

section \<open>The loops\<close>

abbreviation SENTRY_MAX_ENVELOPE_SESSIONS :: nat where "SENTRY_MAX_ENVELOPE_SESSIONS \<equiv> 100"

text \<open>\<open>crashed_last_run\<close> is whether the application registered \<open>on_crashed_last_run\<close>; the envelopes it is shown are returned.\<close>

definition run_envelope_marker :: "environment \<Rightarrow> bool \<Rightarrow> string \<Rightarrow> sentry_envelope_t \<Rightarrow> sdk \<Rightarrow> sentry_envelope_t \<times> sentry_envelope_t list \<times> sdk" where
  "run_envelope_marker env crashed_last_run rp envelope st =
     (let event_id = sentry__envelope_get_event_id (en_strtod env) (Some envelope)
      in case run_crash_marker_path (en_malloc env) (Some rp) (Some event_id) of
           None \<Rightarrow> (envelope, [], st)
         | Some marker \<Rightarrow>
             if \<not> sentry__path_is_file (sdk_disk st) marker then (envelope, [], st)
             else (case sentry__path_remove marker (sdk_disk st) of
                     (rv, fs) \<Rightarrow>
                       let st = st\<lparr>sdk_disk := fs\<rparr>
                       in if rv = 0 \<and> crashed_last_run
                          then (case sentry__envelope_materialize (en_malloc env) (en_strtod env) envelope of
                                  (ok, envelope) \<Rightarrow> (envelope, if ok then [envelope] else [], st))
                          else (envelope, [], st)))"

definition process_run_envelope ::
  "environment \<Rightarrow> sentry_options_t \<Rightarrow> (string \<Rightarrow> fresh_inputs) \<Rightarrow> bool \<Rightarrow> string \<Rightarrow> string \<Rightarrow> sentry_envelope_t list \<times> sdk
     \<Rightarrow> sentry_envelope_t list \<times> sdk" where
  "process_run_envelope env opts frs crashed_last_run rp p = (\<lambda>(shown, st).
     if \<not> sentry__path_is_file (sdk_disk st) p \<or> sentry__path_is_symlink (sdk_disk st) p \<or> \<not> sentry__path_ends_with p ''.envelope''
        \<or> sentry__path_filename_matches p ''__sentry-crash.envelope'' then (shown, st)
     else
       let (shown, st) =
         (case sentry__envelope_from_path (read_file (en_malloc env) (sdk_disk st) p) of
            None \<Rightarrow> (shown, st)
          | Some envelope \<Rightarrow>
              (case run_envelope_marker env crashed_last_run rp envelope st of
                 (envelope, calls, st) \<Rightarrow> (shown @ calls, sentry__capture_envelope env opts (frs p) envelope st)))
       in (shown, st\<lparr>sdk_disk := snd (sentry__path_remove p (sdk_disk st))\<rparr>))"

definition sentry__process_run_envelopes ::
  "environment \<Rightarrow> sentry_options_t \<Rightarrow> (string \<Rightarrow> fresh_inputs) \<Rightarrow> bool \<Rightarrow> string \<Rightarrow> sentry_envelope_t list \<times> sdk \<Rightarrow> sentry_envelope_t list \<times> sdk" where
  "sentry__process_run_envelopes env opts frs crashed_last_run rp = (\<lambda>(shown, st).
     fold (process_run_envelope env opts frs crashed_last_run rp) (directory_paths (en_malloc env) (sdk_disk st) rp) (shown, st))"

text \<open>The variables of the loop over the runs, with the log.\<close>

record old_runs =
  or_last_crash :: u64
  or_envelope :: "sentry_envelope_t option"
  or_session_num :: nat
  or_log :: "(u64 \<times> sentry_session_t) list"
  or_submitted :: "sentry_envelope_t list"
  or_shown :: "sentry_envelope_t list"
  or_sdk :: sdk

text \<open>A session that was not closed: the last crash is used up by the first one that it falls into.\<close>

definition close_session :: "u64 \<Rightarrow> sentry_session_t \<Rightarrow> sentry_session_t \<times> u64" where
  "close_session last_crash session =
     (if ses_status session \<noteq> SENTRY_SESSION_STATUS_OK then (session, last_crash)
      else if last_crash \<noteq> 0 \<and> last_crash > started_us session
      then (session\<lparr>duration_us := last_crash - started_us session, ses_errors := ses_errors session + 1,
                    ses_status := SENTRY_SESSION_STATUS_CRASHED\<rparr>, 0)
      else (session\<lparr>ses_status := SENTRY_SESSION_STATUS_ABNORMAL\<rparr>, last_crash))"

definition submit_sessions :: "environment \<Rightarrow> sentry_options_t \<Rightarrow> fresh_inputs \<Rightarrow> sentry_envelope_t \<Rightarrow> old_runs \<Rightarrow> old_runs" where
  "submit_sessions env opts fr envelope r =
     r\<lparr>or_envelope := None, or_session_num := 0, or_submitted := or_submitted r @ [envelope],
       or_sdk := sentry__capture_envelope env opts fr envelope (or_sdk r)\<rparr>"

definition process_session :: "environment \<Rightarrow> sentry_options_t \<Rightarrow> fresh_inputs \<Rightarrow> string \<Rightarrow> old_runs \<Rightarrow> old_runs" where
  "process_session env opts fr p r =
     (let envelope = (case or_envelope r of Some e \<Rightarrow> e | None \<Rightarrow> sentry__envelope_new (Some opts));
          r = r\<lparr>or_envelope := Some envelope\<rparr>
      in case sentry__session_from_path (en_malloc env) (en_strtod env) (en_usecs env) (sdk_disk (or_sdk r)) p of
           None \<Rightarrow> r
         | Some s \<Rightarrow>
             (case close_session (or_last_crash r) s of
                (s', last_crash) \<Rightarrow>
                  let envelope = add_session env fr (Some s') envelope;
                      r = r\<lparr>or_last_crash := last_crash, or_envelope := Some envelope, or_session_num := or_session_num r + 1,
                            or_log := or_log r @ [(fr_now_us fr, s)]\<rparr>
                  in if or_session_num r \<ge> SENTRY_MAX_ENVELOPE_SESSIONS then submit_sessions env opts fr envelope r else r))"

definition remove_in :: "string \<Rightarrow> old_runs \<Rightarrow> old_runs" where
  "remove_in p r = r\<lparr>or_sdk := (or_sdk r)\<lparr>sdk_disk := snd (sentry__path_remove p (sdk_disk (or_sdk r)))\<rparr>\<rparr>"

definition process_file :: "environment \<Rightarrow> sentry_options_t \<Rightarrow> (string \<Rightarrow> fresh_inputs) \<Rightarrow> bool \<Rightarrow> string \<Rightarrow> old_runs \<Rightarrow> old_runs" where
  "process_file env opts frs processed p r =
     (if sentry__path_ends_with p ''.crash'' then r
      else if sentry__path_filename_matches p ''session.json'' then remove_in p (process_session env opts (frs p) p r)
      else if processed then remove_in p r else r)"

text \<open>What the other processes and the backend do: whether the lock of a run and that of its daemon can be taken, and how the backend
  processes the run, if it does.\<close>

record surroundings =
  su_lock :: "string \<Rightarrow> bool"
  su_daemon_lock :: "string \<Rightarrow> bool"
  su_backend :: "(string \<Rightarrow> sdk \<Rightarrow> bool \<times> sdk) option"
  su_crashed_last_run :: bool
  su_now :: int

definition prune_external :: "environment \<Rightarrow> int \<Rightarrow> string \<Rightarrow> old_runs \<Rightarrow> old_runs" where
  "prune_external env now dir r =
     fold (\<lambda>p r. if (now - sentry__path_get_mtime (sdk_disk (or_sdk r)) p) div 3600 > 0 then remove_in p r else r)
       (directory_paths (en_malloc env) (sdk_disk (or_sdk r)) dir) r"

definition run_is_free :: "environment \<Rightarrow> surroundings \<Rightarrow> string \<Rightarrow> disk \<Rightarrow> bool" where
  "run_is_free env su run_dir fs \<longleftrightarrow>
     (case sentry__path_append_str (en_malloc env) run_dir ''.lock'' of None \<Rightarrow> False | Some p \<Rightarrow> su_lock su p)
     \<and> (case sentry__path_append_str (en_malloc env) run_dir ''.daemon.lock'' of
          None \<Rightarrow> False | Some p \<Rightarrow> sentry__path_is_file fs p \<longrightarrow> su_daemon_lock su p)"

definition process_run :: "environment \<Rightarrow> sentry_options_t \<Rightarrow> (string \<Rightarrow> fresh_inputs) \<Rightarrow> surroundings \<Rightarrow> string \<Rightarrow> old_runs \<Rightarrow> old_runs" where
  "process_run env opts frs su run_dir r =
     (let (processed, st) = (case su_backend su of None \<Rightarrow> (True, or_sdk r) | Some f \<Rightarrow> f run_dir (or_sdk r));
          (shown, st) = sentry__process_run_envelopes env opts frs (su_crashed_last_run su) run_dir (or_shown r, st);
          r = r\<lparr>or_shown := shown, or_sdk := st\<rparr>;
          r = fold (process_file env opts frs processed) (directory_paths (en_malloc env) (sdk_disk st) run_dir) r
      in if processed
         then r\<lparr>or_sdk := (or_sdk r)\<lparr>sdk_disk := sentry__path_remove_all (en_malloc env) run_dir (sdk_disk (or_sdk r))\<rparr>\<rparr> else r)"

definition process_entry :: "environment \<Rightarrow> sentry_options_t \<Rightarrow> (string \<Rightarrow> fresh_inputs) \<Rightarrow> surroundings \<Rightarrow> string \<Rightarrow> old_runs \<Rightarrow> old_runs" where
  "process_entry env opts frs su run_dir r =
     (let fs = sdk_disk (or_sdk r)
      in if \<not> sentry__path_is_dir fs run_dir \<or> sentry__path_is_symlink fs run_dir then r
         else if sentry__path_filename_matches run_dir ''external'' then prune_external env (su_now su) run_dir r
         else if \<not> sentry__path_ends_with run_dir ''.run'' then r
         else if sentry__path_eq run_dir (run_path (sdk_run (or_sdk r))) then r
         else if \<not> run_is_free env su run_dir fs then r
         else process_run env opts frs su run_dir r)"

definition old_runs_start :: "u64 \<Rightarrow> sdk \<Rightarrow> old_runs" where
  "old_runs_start last_crash st = \<lparr>or_last_crash = last_crash, or_envelope = None, or_session_num = 0, or_log = [], or_submitted = [], or_shown = [], or_sdk = st\<rparr>"

definition sentry__process_old_runs ::
  "environment \<Rightarrow> sentry_options_t \<Rightarrow> (string \<Rightarrow> fresh_inputs) \<Rightarrow> surroundings \<Rightarrow> u64 \<Rightarrow> sdk \<Rightarrow> old_runs" where
  "sentry__process_old_runs env opts frs su last_crash st =
     (let r = fold (process_entry env opts frs su) (directory_paths (en_malloc env) (sdk_disk st) (opt_database_path opts))
                (old_runs_start last_crash st)
      in case or_envelope r of None \<Rightarrow> r | Some e \<Rightarrow> submit_sessions env opts (frs (opt_database_path opts)) e r)"

section \<open>What is reported\<close>

text \<open>The crash belongs to the first session, in the order they are read, that was left open and started before it.\<close>

definition crashed_in :: "u64 \<Rightarrow> sentry_session_t \<Rightarrow> bool" where
  "crashed_in t s \<longleftrightarrow> ses_status s = SENTRY_SESSION_STATUS_OK \<and> t \<noteq> 0 \<and> started_us s < t"

definition first_crashed :: "u64 \<Rightarrow> sentry_session_t list \<Rightarrow> nat option" where
  "first_crashed t ss = find (\<lambda>i. crashed_in t (ss ! i)) [0..<length ss]"

text \<open>That session is reported as crashed, with the time from its start to the crash as its duration and one more error, the other open
  ones as abnormal, and closed ones as they are.\<close>

definition reported :: "u64 \<Rightarrow> bool \<Rightarrow> sentry_session_t \<Rightarrow> sentry_session_t" where
  "reported t crashed s =
     (if ses_status s \<noteq> SENTRY_SESSION_STATUS_OK then s
      else if crashed
      then s\<lparr>duration_us := t - started_us s, ses_errors := ses_errors s + 1, ses_status := SENTRY_SESSION_STATUS_CRASHED\<rparr>
      else s\<lparr>ses_status := SENTRY_SESSION_STATUS_ABNORMAL\<rparr>)"

definition closed_sessions :: "u64 \<Rightarrow> sentry_session_t list \<Rightarrow> sentry_session_t list" where
  "closed_sessions t ss = map (\<lambda>i. reported t (first_crashed t ss = Some i) (ss ! i)) [0..<length ss]"

lemma find_append: "find P (xs @ ys) = (case find P xs of None \<Rightarrow> find P ys | Some x \<Rightarrow> Some x)"
  by (induction xs) auto

lemma first_crashed_snoc:
  "first_crashed t (ss @ [s]) =
     (case first_crashed t ss of Some i \<Rightarrow> Some i | None \<Rightarrow> if crashed_in t s then Some (length ss) else None)"
proof -
  have "find (\<lambda>i. crashed_in t ((ss @ [s]) ! i)) [0..<length ss] = find (\<lambda>i. crashed_in t (ss ! i)) [0..<length ss]"
    by (intro find_cong) (auto simp: nth_append)
  then show ?thesis by (auto simp: first_crashed_def find_append split: option.splits)
qed

lemma first_crashed_bound: "first_crashed t ss = Some i \<Longrightarrow> i < length ss"
  by (auto simp: first_crashed_def find_Some_iff)

lemma closed_sessions_snoc:
  "closed_sessions t (ss @ [s]) = closed_sessions t ss @ [reported t (first_crashed t ss = None \<and> crashed_in t s) s]"
proof -
  have "map (\<lambda>i. reported t (first_crashed t (ss @ [s]) = Some i) ((ss @ [s]) ! i)) [0..<length ss] = closed_sessions t ss"
    unfolding closed_sessions_def by (intro map_cong) (auto simp: nth_append first_crashed_snoc split: option.splits)
  moreover have "(first_crashed t (ss @ [s]) = Some (length ss)) = (first_crashed t ss = None \<and> crashed_in t s)"
    using first_crashed_bound [of t ss] by (auto simp: first_crashed_snoc split: option.splits)
  ultimately show ?thesis by (simp add: closed_sessions_def)
qed

lemma close_session_reported:
  "close_session (if first_crashed t ss = None then t else 0) s =
     (reported t (first_crashed t ss = None \<and> crashed_in t s) s, if first_crashed t (ss @ [s]) = None then t else 0)"
  by (auto simp: close_session_def reported_def crashed_in_def first_crashed_snoc split: option.splits)

text \<open>The type and the payload of the items of an envelope, and the items that the reported sessions make: a session whose text cannot be
  made for lack of memory makes none.\<close>

fun item_contents :: "sentry_envelope_t \<Rightarrow> (string \<times> string option) list" where
  "item_contents (Raw b) = []"
| "item_contents (Items h is) = map (\<lambda>i. (item_type i, item_payload i)) is"

definition session_contents :: "environment \<Rightarrow> u64 \<Rightarrow> (u64 \<times> sentry_session_t) list \<Rightarrow> (string \<times> string option) list" where
  "session_contents env t log =
     map (\<lambda>b. (''session'', Some b))
       (List.map_filter (\<lambda>(now, s). session_text_buf (en_malloc env) (en_fd env) (en_fmt_g env) (en_secs env) now s)
          (zip (map fst log) (closed_sessions t (map snd log))))"

lemma closed_length [simp]: "length (closed_sessions t ss) = length ss"
  by (simp add: closed_sessions_def)

lemma session_contents_snoc:
  "session_contents env t (log @ [(now, s)]) = session_contents env t log @
     (case session_text_buf (en_malloc env) (en_fd env) (en_fmt_g env) (en_secs env) now (reported t (first_crashed t (map snd log) = None \<and> crashed_in t s) s) of
        None \<Rightarrow> [] | Some b \<Rightarrow> [(''session'', Some b)])"
  by (auto simp: session_contents_def closed_sessions_snoc List.map_filter_def split: option.splits)

definition few_sessions :: "sentry_envelope_t \<Rightarrow> bool" where
  "few_sessions e \<longleftrightarrow> sentry__envelope_get_item_count e \<le> SENTRY_MAX_ENVELOPE_SESSIONS"

lemma add_session_items:
  assumes "e = Items h is"
  shows "\<exists>is'. add_session env fr (Some s) e = Items h is' \<and> length is' \<le> Suc (length is)
    \<and> item_contents (Items h is') = item_contents e @
        (case session_text_buf (en_malloc env) (en_fd env) (en_fmt_g env) (en_secs env) (fr_now_us fr) s of
           None \<Rightarrow> [] | Some b \<Rightarrow> [(''session'', Some b)])"
  by (cases "session_text_buf (en_malloc env) (en_fd env) (en_fmt_g env) (en_secs env) (fr_now_us fr) s")
    (auto simp: assms add_session_def sentry__envelope_add_session_def envelope_add_from_owned_buffer_def empty_item_def sentry_value_new_object_def
      sentry_value_new_string_def cstr_def)

text \<open>The invariant of the loops: the crash is used up by the first session it falls into, and the envelopes hold the closed sessions
  that were read, in the order of reading.\<close>

definition open_envelopes :: "old_runs \<Rightarrow> sentry_envelope_t list" where
  "open_envelopes r = or_submitted r @ (case or_envelope r of None \<Rightarrow> [] | Some e \<Rightarrow> [e])"

definition sessions_inv :: "environment \<Rightarrow> u64 \<Rightarrow> old_runs \<Rightarrow> bool" where
  "sessions_inv env t r \<longleftrightarrow>
     or_last_crash r = (if first_crashed t (map snd (or_log r)) = None then t else 0)
     \<and> concat (map item_contents (open_envelopes r)) = session_contents env t (or_log r)
     \<and> or_session_num r < SENTRY_MAX_ENVELOPE_SESSIONS
     \<and> (\<forall>e. or_envelope r = Some e \<longrightarrow> (\<exists>h is. e = Items h is \<and> length is \<le> or_session_num r))
     \<and> (or_envelope r = None \<longrightarrow> or_session_num r = 0)
     \<and> list_all few_sessions (or_submitted r)"

text \<open>Steps that change the SDK only.\<close>

lemma inv_sdk: "sessions_inv env t (r\<lparr>or_sdk := st\<rparr>) = sessions_inv env t r" "sessions_inv env t (r\<lparr>or_shown := sh\<rparr>) = sessions_inv env t r"
  by (simp_all add: sessions_inv_def open_envelopes_def)

lemma runs_inv_remove: "sessions_inv env t (remove_in p r) = sessions_inv env t r"
  by (simp add: remove_in_def inv_sdk)

lemma fold_inv: "(\<And>x r. P r \<Longrightarrow> P (f x r)) \<Longrightarrow> P r \<Longrightarrow> P (fold f xs r)"
  by (induction xs arbitrary: r) auto

lemma inv_prune: "sessions_inv env t r \<Longrightarrow> sessions_inv env t (prune_external env' now dir r)"
  unfolding prune_external_def by (rule fold_inv) (simp_all add: runs_inv_remove)

lemma inv_submit:
  assumes "or_last_crash r = (if first_crashed t (map snd (or_log r)) = None then t else 0)"
    and "concat (map item_contents (or_submitted r @ [e])) = session_contents env t (or_log r)" "list_all few_sessions (or_submitted r)" "few_sessions e"
  shows "sessions_inv env t (submit_sessions env' opts fr e r)"
  using assms by (simp add: sessions_inv_def submit_sessions_def open_envelopes_def)

lemma inv_session:
  assumes i: "sessions_inv env t r"
  shows "sessions_inv env t (process_session env opts fr p r)"
proof -
  define e where "e = (case or_envelope r of Some e \<Rightarrow> e | None \<Rightarrow> sentry__envelope_new (Some opts))"
  have "\<exists>h. sentry__envelope_new (Some opts) = Items h []"
    by (auto simp: sentry__envelope_new_def sentry__envelope_new_with_dsn_def Let_def split: option.splits)
  then obtain h "is" where e: "e = Items h is" "length is \<le> or_session_num r"
    "concat (map item_contents (or_submitted r @ [e])) = session_contents env t (or_log r)"
    using i by (auto simp: e_def sessions_inv_def open_envelopes_def split: option.splits)
  show ?thesis
  proof (cases "sentry__session_from_path (en_malloc env) (en_strtod env) (en_usecs env) (sdk_disk (or_sdk r)) p")
    case None
    then show ?thesis using i e by (simp add: process_session_def e_def [symmetric] sessions_inv_def open_envelopes_def Let_def)
  next
    case (Some s)
    let ?ss = "map snd (or_log r)"
    define s' where "s' = reported t (first_crashed t ?ss = None \<and> crashed_in t s) s"
    define c where "c = (if first_crashed t (?ss @ [s]) = None then t else 0)"
    have c: "close_session (or_last_crash r) s = (s', c)"
      using i close_session_reported [of t ?ss s] by (simp add: sessions_inv_def s'_def c_def)
    define e' where "e' = add_session env fr (Some s') e"
    define r' where "r' = r\<lparr>or_last_crash := c, or_envelope := Some e', or_session_num := or_session_num r + 1, or_log := or_log r @ [(fr_now_us fr, s)]\<rparr>"
    obtain is' where a: "e' = Items h is'" "length is' \<le> Suc (length is)" "item_contents e' = item_contents e @
        (case session_text_buf (en_malloc env) (en_fd env) (en_fmt_g env) (en_secs env) (fr_now_us fr) s' of None \<Rightarrow> [] | Some b \<Rightarrow> [(''session'', Some b)])"
      using add_session_items [OF e(1), of env fr s'] unfolding e'_def by auto
    have items: "concat (map item_contents (or_submitted r' @ [e'])) = session_contents env t (or_log r')"
      using e(3) a(3) by (simp add: r'_def session_contents_snoc s'_def)
    have crash: "or_last_crash r' = (if first_crashed t (map snd (or_log r')) = None then t else 0)" by (simp add: r'_def c_def)
    have eq: "process_session env opts fr p r = (if or_session_num r + 1 \<ge> SENTRY_MAX_ENVELOPE_SESSIONS then submit_sessions env opts fr e' r' else r')"
      using Some c by (simp add: process_session_def e_def [symmetric] e'_def r'_def Let_def)
    show ?thesis
    proof (cases "or_session_num r + 1 \<ge> SENTRY_MAX_ENVELOPE_SESSIONS")
      case True
      have "few_sessions e'" using a e(2) i by (simp add: few_sessions_def sessions_inv_def)
      moreover have "list_all few_sessions (or_submitted r')" using i by (simp add: r'_def sessions_inv_def)
      ultimately show ?thesis using inv_submit [OF crash items] True unfolding eq by simp
    next
      case False
      have "or_envelope r' = Some e'" "or_session_num r' = or_session_num r + 1" "or_submitted r' = or_submitted r" by (simp_all add: r'_def)
      then show ?thesis unfolding eq using False i items crash a(1,2) e(2) by (simp add: sessions_inv_def open_envelopes_def)
    qed
  qed
qed

lemma inv_run: "sessions_inv env t r \<Longrightarrow> sessions_inv env t (process_run env opts frs su run_dir r)"
proof -
  assume i: "sessions_inv env t r"
  have f: "sessions_inv env t r' \<Longrightarrow> sessions_inv env t (fold (process_file env opts frs b) ps r')" for r' b ps
    by (rule fold_inv) (simp_all add: process_file_def runs_inv_remove inv_session)
  show ?thesis using i unfolding process_run_def
    by (auto simp: Let_def inv_sdk f split: prod.splits)
qed

lemma inv_old_runs:
  "concat (map item_contents (or_submitted (sentry__process_old_runs env opts frs su t st))) =
     session_contents env t (or_log (sentry__process_old_runs env opts frs su t st))"
  "list_all few_sessions (or_submitted (sentry__process_old_runs env opts frs su t st))"
proof -
  define r where "r = fold (process_entry env opts frs su) (directory_paths (en_malloc env) (sdk_disk st) (opt_database_path opts)) (old_runs_start t st)"
  have "sessions_inv env t (old_runs_start t st)"
    by (simp add: sessions_inv_def old_runs_start_def open_envelopes_def first_crashed_def session_contents_def closed_sessions_def List.map_filter_def)
  moreover have "sessions_inv env t r' \<Longrightarrow> sessions_inv env t (process_entry env opts frs su d r')" for d r'
    by (auto simp: process_entry_def Let_def inv_prune inv_run)
  ultimately have i: "sessions_inv env t r" unfolding r_def by (rule fold_inv [rotated])
  have "sessions_inv env t (submit_sessions env opts fr e r)" if "or_envelope r = Some e" for fr e
    using i that by (intro inv_submit) (auto simp: sessions_inv_def open_envelopes_def few_sessions_def)
  then have "sessions_inv env t (sentry__process_old_runs env opts frs su t st) \<and> or_envelope (sentry__process_old_runs env opts frs su t st) = None"
    using i unfolding sentry__process_old_runs_def r_def [symmetric] by (auto simp: submit_sessions_def split: option.splits)
  then show "concat (map item_contents (or_submitted (sentry__process_old_runs env opts frs su t st))) =
     session_contents env t (or_log (sentry__process_old_runs env opts frs su t st))"
    "list_all few_sessions (or_submitted (sentry__process_old_runs env opts frs su t st))"
    by (auto simp: sessions_inv_def open_envelopes_def)
qed

section \<open>What reaches the transport\<close>

text \<open>With consent and a transport that is not suspended, every captured envelope is sent, and the run and the transport stay.\<close>

definition sending_sdk :: "sentry_run_t \<Rightarrow> sentry_transport_t \<Rightarrow> sdk \<Rightarrow> bool" where
  "sending_sdk run tr st \<longleftrightarrow> \<not> sentry__run_should_skip_upload run \<and> \<not> tr_suspended tr \<and> sdk_run st = run \<and> sdk_transport st = Some tr"

lemma capture_envelope_sends:
  assumes "sending_sdk run tr st"
  shows "sdk_sent (sentry__capture_envelope env opts fr e st) = sdk_sent st @ [e]" "sending_sdk run tr (sentry__capture_envelope env opts fr e st)"
  using assms by (auto simp: sending_sdk_def sentry__capture_envelope_def sentry__submit_envelope_def sentry__transport_send_envelope_def
      sentry__transport_dump_queue_def Let_def split: option.splits prod.splits)

text \<open>The envelopes of sessions are among the envelopes sent since \<open>sent0\<close>, in their order.\<close>

definition sent_inv :: "sentry_run_t \<Rightarrow> sentry_transport_t \<Rightarrow> sentry_envelope_t list \<Rightarrow> old_runs \<Rightarrow> bool" where
  "sent_inv run tr sent0 r \<longleftrightarrow> sending_sdk run tr (or_sdk r) \<and> (\<exists>new. sdk_sent (or_sdk r) = sent0 @ new \<and> subseq (or_submitted r) new)"

lemma sent_inv_disk: "sent_inv run tr sent0 r \<Longrightarrow> sent_inv run tr sent0 (r\<lparr>or_sdk := (or_sdk r)\<lparr>sdk_disk := fs\<rparr>\<rparr>)"
  by (auto simp: sent_inv_def sending_sdk_def)

lemma sent_inv_remove: "sent_inv run tr sent0 r \<Longrightarrow> sent_inv run tr sent0 (remove_in p r)"
  by (simp add: remove_in_def sent_inv_disk)

lemma sent_inv_prune: "sent_inv run tr sent0 r \<Longrightarrow> sent_inv run tr sent0 (prune_external env now dir r)"
  unfolding prune_external_def by (rule fold_inv) (simp_all add: sent_inv_remove)

lemma sent_inv_submit: "sent_inv run tr sent0 r \<Longrightarrow> sent_inv run tr sent0 (submit_sessions env opts fr e r)"
  using capture_envelope_sends [of run tr "or_sdk r" env opts fr e] by (fastforce simp: sent_inv_def submit_sessions_def list_emb_append_mono)

lemma sent_inv_session: "sent_inv run tr sent0 r \<Longrightarrow> sent_inv run tr sent0 (process_session env opts fr p r)"
proof -
  assume i: "sent_inv run tr sent0 r"
  have "sent_inv run tr sent0 (r\<lparr>or_last_crash := c, or_envelope := e, or_session_num := n, or_log := l\<rparr>)" "sent_inv run tr sent0 (r\<lparr>or_envelope := e\<rparr>)" for c e n l
    using i by (simp_all add: sent_inv_def)
  then show ?thesis by (auto simp: process_session_def Let_def intro: sent_inv_submit split: option.splits prod.splits)
qed

lemma marker_sends:
  assumes "run_envelope_marker env b rp e st = (e', calls, st')"
  shows "sdk_sent st' = sdk_sent st" "sending_sdk run tr st \<Longrightarrow> sending_sdk run tr st'"
  using assms by (auto simp: run_envelope_marker_def sending_sdk_def Let_def split: option.splits prod.splits if_splits)

lemma run_envelope_sends:
  assumes "process_run_envelope env opts frs b rp p (shown, st) = (shown', st')" "sending_sdk run tr st"
  shows "sending_sdk run tr st' \<and> (\<exists>new. sdk_sent st' = sdk_sent st @ new)"
  using assms capture_envelope_sends marker_sends
  by (auto simp: process_run_envelope_def Let_def sending_sdk_def split: option.splits prod.splits if_splits)

lemma run_envelopes_sends:
  assumes "sentry__process_run_envelopes env opts frs b rp (shown, st) = (shown', st')" "sending_sdk run tr st"
  shows "sending_sdk run tr st' \<and> (\<exists>new. sdk_sent st' = sdk_sent st @ new)"
proof -
  let ?P = "\<lambda>x. sending_sdk run tr (snd x) \<and> (\<exists>new. sdk_sent (snd x) = sdk_sent st @ new)"
  have "?P (process_run_envelope env opts frs b rp p x)" if "?P x" for p x
    using that run_envelope_sends [of env opts frs b rp p "fst x" "snd x" _ _ run tr]
    by (cases "process_run_envelope env opts frs b rp p x") fastforce
  then have "?P (sentry__process_run_envelopes env opts frs b rp (shown, st))"
    unfolding sentry__process_run_envelopes_def prod.case by (rule fold_inv) (use assms(2) in auto)
  then show ?thesis using assms(1) by simp
qed

lemma sent_inv_run:
  assumes i: "sent_inv run tr sent0 r" and b: "su_backend su = None"
  shows "sent_inv run tr sent0 (process_run env opts frs su run_dir r)"
proof -
  obtain shown st where p: "sentry__process_run_envelopes env opts frs (su_crashed_last_run su) run_dir (or_shown r, or_sdk r) = (shown, st)" by fastforce
  obtain new where new: "sending_sdk run tr st" "sdk_sent st = sdk_sent (or_sdk r) @ new"
    using run_envelopes_sends [OF p] i by (auto simp: sent_inv_def)
  have "sent_inv run tr sent0 (r\<lparr>or_shown := shown, or_sdk := st\<rparr>)"
    using i new by (auto simp: sent_inv_def intro: list_emb_append2 [THEN subseq_order.trans [rotated]])
  moreover have "sent_inv run tr sent0 r' \<Longrightarrow> sent_inv run tr sent0 (process_file env opts frs b p r')" for r' b p
    by (simp add: process_file_def sent_inv_remove sent_inv_session)
  ultimately have "sent_inv run tr sent0 (fold (process_file env opts frs True) (directory_paths (en_malloc env) (sdk_disk st) run_dir) (r\<lparr>or_shown := shown, or_sdk := st\<rparr>))"
    by (rule fold_inv [rotated])
  then show ?thesis using b p by (simp add: process_run_def Let_def sent_inv_disk)
qed

lemma old_runs_sends:
  assumes "\<not> sentry__run_should_skip_upload (sdk_run st)" "sdk_transport st = Some tr" "\<not> tr_suspended tr" "su_backend su = None"
  shows "sent_inv (sdk_run st) tr (sdk_sent st) (sentry__process_old_runs env opts frs su t st)"
proof -
  have "sent_inv (sdk_run st) tr (sdk_sent st) (old_runs_start t st)" using assms by (simp add: sent_inv_def sending_sdk_def old_runs_start_def)
  moreover have "sent_inv (sdk_run st) tr (sdk_sent st) r \<Longrightarrow> sent_inv (sdk_run st) tr (sdk_sent st) (process_entry env opts frs su d r)" for d r
    using assms(4) by (auto simp: process_entry_def Let_def sent_inv_prune sent_inv_run)
  ultimately have "sent_inv (sdk_run st) tr (sdk_sent st)
      (fold (process_entry env opts frs su) (directory_paths (en_malloc env) (sdk_disk st) (opt_database_path opts)) (old_runs_start t st))"
    by (rule fold_inv [rotated])
  then show ?thesis by (auto simp: sentry__process_old_runs_def Let_def sent_inv_submit split: option.splits)
qed

text \<open>C10. The sessions of old runs reach the transport closed, once and in order: with consent, a transport that is not suspended and no
  backend of its own for old runs, whatever the database holds and however the locks behave, the envelopes of sessions are sent in order;
  no envelope holds more than 100 items; and their items are exactly the sessions that were read from the files, in the order of
  reading, where a session that was closed is reported as it is, the first open session that started before the last crash is
  reported as crashed, with the time from its start to the crash as its duration and one more error, and every other open session
  is reported as abnormal (a session whose text cannot be allocated is left out).\<close>

theorem old_runs_sessions:
  assumes "\<not> sentry__run_should_skip_upload (sdk_run st)" "sdk_transport st = Some tr" "\<not> tr_suspended tr" "su_backend su = None"
  shows "let r = sentry__process_old_runs env opts frs su last_crash st
   in (\<exists>new. sdk_sent (or_sdk r) = sdk_sent st @ new \<and> subseq (or_submitted r) new)
      \<and> list_all few_sessions (or_submitted r)
      \<and> concat (map item_contents (or_submitted r)) = session_contents env last_crash (or_log r)"
  using old_runs_sends [OF assms, of env opts frs last_crash] inv_old_runs [of env opts frs su last_crash st]
  by (simp add: Let_def sent_inv_def)

definition demo_surroundings :: surroundings where
  "demo_surroundings = \<lparr>su_lock = (\<lambda>_. True), su_daemon_lock = (\<lambda>_. True), su_backend = None, su_crashed_last_run = False, su_now = 0\<rparr>"

theorem old_runs_sessions_witness:
  "let r = sentry__process_old_runs demo_env demo_options (\<lambda>_. demo_fresh) demo_surroundings 90062000000 (demo_sdk\<lparr>sdk_run := demo_run\<rparr>)
   in subseq (or_submitted r) (sdk_sent (or_sdk r))
      \<and> concat (map item_contents (or_submitted r)) = session_contents demo_env 90062000000 (or_log r)"
proof -
  let ?st = "demo_sdk\<lparr>sdk_run := demo_run\<rparr>" and ?tr = "\<lparr>tr_suspended = False, tr_suspended_after = False, tr_dump = None, tr_retry = True\<rparr>"
  have "\<not> sentry__run_should_skip_upload (sdk_run ?st)" "sdk_transport ?st = Some ?tr" "\<not> tr_suspended ?tr" "su_backend demo_surroundings = None"
    "sdk_sent ?st = []"
    by (simp_all add: demo_sdk_def demo_run_def sentry__run_should_skip_upload_def demo_surroundings_def)
  then show ?thesis
    using old_runs_sessions [of ?st ?tr demo_surroundings demo_env demo_options "\<lambda>_. demo_fresh" 90062000000] by (auto simp: Let_def)
qed

end
