(* ===== verification/Consent.thy ===== *)
theory Consent
  imports OldRuns
begin

text \<open>
  No upload without consent.  The operations that hand envelopes to the transport are gathered here: the captures of the application, the
  batches of logs and metrics (\<open>process_batch_sync\<close> and \<open>batch_task_complete\<close> of \<open>sentry_batcher.c\<close>) and the old runs that are
  processed at the start.  The crash handlers and the processing of old runs by a backend, and the session replay, are not among them.
\<close>

section \<open>The end of a batch\<close>

text \<open>\<open>batch_func\<close> adds the items to the envelope.  In a crash the envelope goes to the directory of the run.\<close>

definition write_run_envelope :: "environment \<Rightarrow> fresh_inputs \<Rightarrow> sentry_envelope_t \<Rightarrow> sdk \<Rightarrow> sdk" where
  "write_run_envelope env fr envelope st =
     (case sentry__run_write_envelope (en_malloc env) (en_fd env) (en_strtod env) (fr_file_id fr) (sdk_run st) envelope (sdk_disk st) of
        (_, run, fs) \<Rightarrow> st\<lparr>sdk_run := run, sdk_disk := fs\<rparr>)"

definition process_batch_sync ::
  "environment \<Rightarrow> fresh_inputs \<Rightarrow> (sentry_envelope_t \<Rightarrow> sentry_value \<Rightarrow> sentry_envelope_t) \<Rightarrow> bool \<Rightarrow> bool \<Rightarrow> sentry_envelope_t \<Rightarrow> sentry_value \<Rightarrow> sdk \<Rightarrow> sdk" where
  "process_batch_sync env fr batch_func crash_flush crash_safe envelope items st =
     (let envelope = batch_func envelope items
      in if crash_safe \<or> crash_flush then write_run_envelope env fr envelope st
         else if \<not> sentry__run_should_skip_upload (sdk_run st) then sentry__transport_send_envelope env fr (Some envelope) st
         else st)"

datatype sentry_batch_task_state_t =
    SENTRY_BATCH_TASK_PENDING | SENTRY_BATCH_TASK_RUNNING | SENTRY_BATCH_TASK_READY | SENTRY_BATCH_TASK_COMPLETING | SENTRY_BATCH_TASK_DUMPED

text \<open>The task of a batch, up to its list link; it is unlinked at the end.\<close>

record sentry_batch_task_t =
  bt_envelope :: "sentry_envelope_t option"
  bt_items :: sentry_value
  bt_state :: sentry_batch_task_state_t

definition batch_task_exec :: "(sentry_envelope_t \<Rightarrow> sentry_value \<Rightarrow> sentry_envelope_t) \<Rightarrow> sentry_batch_task_t \<Rightarrow> sentry_batch_task_t" where
  "batch_task_exec batch_func task =
     (if bt_state task \<noteq> SENTRY_BATCH_TASK_PENDING then task
      else task\<lparr>bt_envelope := map_option (\<lambda>e. batch_func e (bt_items task)) (bt_envelope task), bt_items := VNull, bt_state := SENTRY_BATCH_TASK_READY\<rparr>)"

definition batch_task_complete :: "environment \<Rightarrow> fresh_inputs \<Rightarrow> bool \<Rightarrow> sentry_batch_task_t \<Rightarrow> sdk \<Rightarrow> sentry_batch_task_t \<times> sdk" where
  "batch_task_complete env fr crash_flush task st =
     (if bt_state task = SENTRY_BATCH_TASK_DUMPED then (task, st)
      else
        (task\<lparr>bt_envelope := None, bt_state := SENTRY_BATCH_TASK_COMPLETING\<rparr>,
         case bt_envelope task of
           None \<Rightarrow> st
         | Some envelope \<Rightarrow>
             if crash_flush then write_run_envelope env fr envelope st
             else if \<not> sentry__run_should_skip_upload (sdk_run st) then sentry__transport_send_envelope env fr (Some envelope) st
             else st))"

section \<open>The operations\<close>

text \<open>The calls of the application that can lead to an upload, those that change the consent, the ends of batches, and the start.\<close>

datatype api_call =
    CaptureEvent sentry_value "sentry_scope_t option"
  | CaptureEnvelope "sentry_envelope_t option"
  | CaptureUserFeedback sentry_value
  | CaptureFeedback sentry_value "sentry_attachment_t list option" "sentry_scope_t option"
  | CaptureMinidump "string option"
  | StartSession | EndSession | EndSessionWith sentry_session_status_t
  | SetUser sentry_value
  | SetConsent sentry_user_consent_t
  | BatchSync "sentry_envelope_t \<Rightarrow> sentry_value \<Rightarrow> sentry_envelope_t" bool bool sentry_envelope_t sentry_value
  | BatchComplete bool sentry_batch_task_t
  | ProcessOldRuns "string \<Rightarrow> fresh_inputs" surroundings u64

fun api_exec :: "environment \<Rightarrow> sentry_options_t option \<Rightarrow> fresh_inputs \<times> api_call \<Rightarrow> sdk \<Rightarrow> sdk" where
  "api_exec env o' (fr, CaptureEvent ev ls) st = snd (snd (sentry__capture_event env o' fr ev ls st))"
| "api_exec env o' (fr, CaptureEnvelope e) st = sentry_capture_envelope env o' fr e st"
| "api_exec env o' (fr, CaptureUserFeedback v) st = sentry_capture_user_feedback env o' fr v st"
| "api_exec env o' (fr, CaptureFeedback v hint ls) st = snd (snd (capture_feedback env o' fr v hint ls st))"
| "api_exec env o' (fr, CaptureMinidump p) st = snd (capture_minidump env o' fr p st)"
| "api_exec env o' (fr, StartSession) st = sentry_start_session env o' fr st"
| "api_exec env o' (fr, EndSession) st = sentry_end_session env o' fr st"
| "api_exec env o' (fr, EndSessionWith status) st = sentry_end_session_with_status status env o' fr st"
| "api_exec env o' (fr, SetUser v) st = fst (sentry_set_user env o' fr v st)"
| "api_exec env o' (fr, SetConsent c) st = set_user_consent env o' c st"
| "api_exec env o' (fr, BatchSync f crash_flush crash_safe e items) st = process_batch_sync env fr f crash_flush crash_safe e items st"
| "api_exec env o' (fr, BatchComplete crash_flush task) st = snd (batch_task_complete env fr crash_flush task st)"
| "api_exec env o' (fr, ProcessOldRuns frs su last_crash) st =
     (case o' of None \<Rightarrow> st | Some opts \<Rightarrow> or_sdk (sentry__process_old_runs env opts frs su last_crash st))"

text \<open>Calls during which the user does not give consent; old runs are processed without a backend of their own.\<close>

fun without_consent :: "fresh_inputs \<times> api_call \<Rightarrow> bool" where
  "without_consent (fr, SetConsent c) \<longleftrightarrow> \<not> fr_consent fr \<and> c \<noteq> SENTRY_USER_CONSENT_GIVEN"
| "without_consent (fr, ProcessOldRuns frs su t) \<longleftrightarrow> \<not> fr_consent fr \<and> su_backend su = None \<and> (\<forall>p. \<not> fr_consent (frs p))"
| "without_consent (fr, call) \<longleftrightarrow> \<not> fr_consent fr"

section \<open>Each operation keeps the envelopes back\<close>

lemma withheld_disk: "withheld st st' \<Longrightarrow> withheld st (st'\<lparr>sdk_disk := fs\<rparr>)"
  by (simp add: withheld_def)

lemma withheld_next:
  assumes "withheld st st'" "sentry__run_should_skip_upload (sdk_run st') \<Longrightarrow> withheld st' st''"
  shows "withheld st st''"
  using assms withheld_trans by (simp add: withheld_def)

lemma withheld_write:
  assumes "sentry__run_should_skip_upload (sdk_run st)"
  shows "withheld st (write_run_envelope env fr e st)"
  using assms by (auto simp: write_run_envelope_def sentry__run_write_envelope_def withheld_def sentry__run_should_skip_upload_def Let_def
      split: prod.splits option.splits bool.splits)

lemma withheld_batch:
  assumes "sentry__run_should_skip_upload (sdk_run st)"
  shows "withheld st (process_batch_sync env fr f crash_flush crash_safe e items st)" "withheld st (snd (batch_task_complete env fr crash_flush task st))"
  using assms withheld_write withheld_refl by (auto simp: process_batch_sync_def batch_task_complete_def Let_def split: option.splits)

lemma withheld_marker: "run_envelope_marker env b rp e st = (e', calls, st') \<Longrightarrow> withheld st0 st \<Longrightarrow> withheld st0 st'"
  by (auto simp: run_envelope_marker_def withheld_def Let_def split: option.splits prod.splits if_splits)

lemma withheld_then_capture: "withheld st0 st \<Longrightarrow> \<not> fr_consent fr \<Longrightarrow> withheld st0 (sentry__capture_envelope env opts fr e st)"
  using withheld_next withheld_capture by blast

lemma withheld_run_envelopes:
  assumes quiet: "\<And>p. \<not> fr_consent (frs p)" and "withheld st0 st"
  shows "withheld st0 (snd (sentry__process_run_envelopes env opts frs b rp (shown, st)))"
proof -
  have "withheld st0 (snd (process_run_envelope env opts frs b rp p x))" if w: "withheld st0 (snd x)" for p x
  proof -
    obtain sh st1 where x: "x = (sh, st1)" by fastforce
    show ?thesis
    proof (cases "sentry__envelope_from_path (read_file (en_malloc env) (sdk_disk st1) p)")
      case None
      then show ?thesis using w x by (simp add: process_run_envelope_def Let_def withheld_disk)
    next
      case (Some e)
      obtain e' calls st2 where m: "run_envelope_marker env b rp e st1 = (e', calls, st2)" by (metis prod_cases3)
      have "withheld st0 (sentry__capture_envelope env opts (frs p) e' st2)"
        using withheld_marker [OF m] w x quiet by (intro withheld_then_capture) auto
      then show ?thesis using w x Some m by (simp add: process_run_envelope_def Let_def withheld_disk)
    qed
  qed
  then show ?thesis unfolding sentry__process_run_envelopes_def prod.case by (rule fold_inv) (use assms(2) in auto)
qed

lemma withheld_remove: "withheld st0 (or_sdk r) \<Longrightarrow> withheld st0 (or_sdk (remove_in p r))"
  by (simp add: remove_in_def withheld_disk)

lemma withheld_sessions: "withheld st0 (or_sdk r) \<Longrightarrow> \<not> fr_consent fr \<Longrightarrow> withheld st0 (or_sdk (submit_sessions env opts fr e r))"
  by (simp add: submit_sessions_def withheld_then_capture)

lemma withheld_file:
  assumes "withheld st0 (or_sdk r)" "\<And>p. \<not> fr_consent (frs p)"
  shows "withheld st0 (or_sdk (process_file env opts frs b p r))"
proof -
  have "withheld st0 (or_sdk (process_session env opts (frs p) p r))"
    using assms by (auto simp: process_session_def Let_def split: option.splits prod.splits intro!: withheld_sessions)
  then show ?thesis using assms(1) by (simp add: process_file_def withheld_remove)
qed

lemma withheld_run:
  assumes w: "withheld st0 (or_sdk r)" and quiet: "\<And>p. \<not> fr_consent (frs p)" and b: "su_backend su = None"
  shows "withheld st0 (or_sdk (process_run env opts frs su d r))"
proof -
  obtain shown st where p: "sentry__process_run_envelopes env opts frs (su_crashed_last_run su) d (or_shown r, or_sdk r) = (shown, st)" by fastforce
  have "withheld st0 st" using withheld_run_envelopes [of frs st0 "or_sdk r" env opts "su_crashed_last_run su" d "or_shown r"] quiet w p by simp
  then have "withheld st0 (or_sdk (r\<lparr>or_shown := shown, or_sdk := st\<rparr>))" by simp
  then have "withheld st0 (or_sdk (fold (process_file env opts frs True) (directory_paths (en_malloc env) (sdk_disk st) d) (r\<lparr>or_shown := shown, or_sdk := st\<rparr>)))"
    by (rule fold_inv [rotated]) (rule withheld_file [OF _ quiet])
  then show ?thesis using b p by (simp add: process_run_def Let_def withheld_disk)
qed

lemma withheld_old_runs:
  assumes "sentry__run_should_skip_upload (sdk_run st)" "\<And>p. \<not> fr_consent (frs p)" "su_backend su = None"
  shows "withheld st (or_sdk (sentry__process_old_runs env opts frs su t st))"
proof -
  let ?r = "fold (process_entry env opts frs su) (directory_paths (en_malloc env) (sdk_disk st) (opt_database_path opts)) (old_runs_start t st)"
  have "withheld st (or_sdk (old_runs_start t st))" using withheld_refl [OF assms(1)] by (simp add: old_runs_start_def)
  moreover have "withheld st (or_sdk (process_entry env opts frs su d r))" if w: "withheld st (or_sdk r)" for d r
  proof -
    have "withheld st (or_sdk (prune_external env (su_now su) d r))"
      unfolding prune_external_def by (rule fold_inv) (simp_all add: w withheld_remove)
    then show ?thesis using w withheld_run [OF w assms(2,3)] by (simp add: process_entry_def Let_def)
  qed
  ultimately have "withheld st (or_sdk ?r)" by (rule fold_inv [rotated])
  then show ?thesis using assms(2) by (auto simp: sentry__process_old_runs_def Let_def withheld_sessions split: option.splits)
qed

lemma withheld_exec:
  assumes "sentry__run_should_skip_upload (sdk_run st)" "without_consent (fr, call)"
  shows "withheld st (api_exec env o' (fr, call) st)"
proof (cases call)
  case (CaptureEnvelope e)
  then show ?thesis using assms withheld_capture withheld_refl by (auto simp: sentry_capture_envelope_def split: option.splits)
next
  case (CaptureUserFeedback v)
  then show ?thesis using assms withheld_capture withheld_refl by (auto simp: sentry_capture_user_feedback_def split: option.splits)
next
  case (SetUser v)
  then show ?thesis using assms
    by (auto simp: sentry_set_user_def write_session_def sentry_scope_set_user_def withheld_def Let_def split: option.splits)
next
  case (ProcessOldRuns frs su t)
  then show ?thesis using assms withheld_old_runs withheld_refl by (auto split: option.splits)
qed (use assms withheld_batch withheld_capture_event withheld_feedback withheld_minidump withheld_end_session withheld_start_session withheld_consent in auto)

text \<open>C4. Nothing is uploaded without consent by the modelled operations: when the user has to consent and has not, then whatever the
  application captures (events, transactions, envelopes, feedback, minidumps, sessions), whichever batches of logs and metrics
  end and whatever old runs are found at the start (with no backend of their own for them), in whatever order, no envelope is
  handed to the transport and no retry is triggered, as long as consent is not given.\<close>

theorem no_upload_without_consent:
  assumes "sentry__run_should_skip_upload (sdk_run st)"
    and "\<forall>c \<in> set calls. without_consent c"
  shows "sdk_sent (fold (api_exec env options) calls st) = sdk_sent st
    \<and> sdk_retries (fold (api_exec env options) calls st) = sdk_retries st"
proof -
  have "withheld st (fold (api_exec env options) calls st)"
    using assms
  proof (induction calls arbitrary: st)
    case (Cons c calls)
    obtain fr call where c: "c = (fr, call)" by (cases c)
    have w: "withheld st (api_exec env options (fr, call) st)" using Cons.prems c by (intro withheld_exec) auto
    then have "withheld (api_exec env options (fr, call) st) (fold (api_exec env options) calls (api_exec env options (fr, call) st))"
      using Cons.prems(2) by (intro Cons.IH) (auto simp: withheld_def)
    with w c show ?case by (auto intro: withheld_trans)
  qed (simp add: withheld_refl)
  then show ?thesis by (simp add: withheld_def)
qed

theorem no_upload_without_consent_witness:
  "sdk_sent (fold (api_exec demo_env (Some demo_options))
       [(demo_fresh, StartSession), (demo_fresh, CaptureEvent (VObject False []) None), (demo_fresh, EndSession), (demo_fresh, ProcessOldRuns (\<lambda>_. demo_fresh) demo_surroundings 5)] demo_sdk) = []"
proof -
  let ?calls = "[(demo_fresh, StartSession), (demo_fresh, CaptureEvent (VObject False []) None), (demo_fresh, EndSession), (demo_fresh, ProcessOldRuns (\<lambda>_. demo_fresh) demo_surroundings 5)]"
  have "sentry__run_should_skip_upload (sdk_run demo_sdk)" by (simp add: demo_sdk_def demo_run_def sentry__run_should_skip_upload_def)
  moreover have "\<forall>c \<in> set ?calls. without_consent c" by (simp add: demo_fresh_def demo_surroundings_def)
  ultimately have "sdk_sent (fold (api_exec demo_env (Some demo_options)) ?calls demo_sdk) = sdk_sent demo_sdk"
    using no_upload_without_consent by blast
  then show ?thesis by (simp add: demo_sdk_def)
qed

end
