(* ===== verification/Transactions.thy ===== *)
theory Transactions
  imports CaptureFlow
begin

text \<open>
  Starting and finishing transactions (\<open>sentry_core.c\<close>): the trace of the scope and its sample value, the continuation of an incoming trace or
  the fork to a new one, the sampling decision, and the event that a finished transaction becomes.  A transaction is represented by its
  inner value; whether one is the very object bound to the scope is an argument.
\<close>

section \<open>The propagation context\<close>

text \<open>\<open>sentry__generate_sample_rand\<close> rolls again while the number is one; \<open>None\<close> when it is still rolling after the given numbers.\<close>

definition sentry__generate_sample_rand :: "environment \<Rightarrow> u64 list \<Rightarrow> sentry_value \<Rightarrow> sentry_value option" where
  "sentry__generate_sample_rand env rolls context =
     map_option (\<lambda>d. set_key ''sample_rand'' (VDouble d) context) (find (\<lambda>d. d \<noteq> double_of_int 1) (map (en_frac env) rolls))"

definition generate_propagation_context :: "environment \<Rightarrow> fresh_inputs \<Rightarrow> sentry_value \<Rightarrow> sentry_value option" where
  "generate_propagation_context env fr propagation_context =
     (let trace = set_key ''trace_id'' (sentry__value_new_internal_uuid (fr_ids fr 10)) sentry_value_new_object;
          trace = set_key ''span_id'' (sentry__value_new_span_uuid (fr_ids fr 11)) trace
      in map_option (\<lambda>trace. set_key ''trace'' trace propagation_context) (sentry__generate_sample_rand env (fr_rolls fr) trace))"

definition update_dsc :: "sentry_options_t \<Rightarrow> sentry_scope_t \<Rightarrow> sentry_scope_t" where
  "update_dsc opts scope =
     sentry__scope_update_dsc (map_option public_key (opt_dsn opts))
       (sentry__options_get_org_id (opt_org_id opts) (case opt_dsn opts of None \<Rightarrow> None | Some d \<Rightarrow> org_id d))
       (opt_traces_sample_rate opts) (opt_traces_sampler opts \<noteq> None) scope"

definition sentry_set_trace_n ::
  "environment \<Rightarrow> sentry_options_t option \<Rightarrow> fresh_inputs \<Rightarrow> string option \<Rightarrow> nat \<Rightarrow> string option \<Rightarrow> nat \<Rightarrow> sdk \<Rightarrow> sdk option" where
  "sentry_set_trace_n env options fr trace_id trace_id_len parent_span_id parent_span_id_len st =
     (let context = set_key ''type'' (str_value ''trace'') sentry_value_new_object;
          context = set_key ''trace_id'' (sentry_value_new_string_n trace_id trace_id_len) context;
          context = set_if (parent_span_id \<noteq> None \<and> parent_span_id_len \<noteq> 0) ''parent_span_id''
            (sentry_value_new_string_n parent_span_id parent_span_id_len) context;
          context = set_key ''span_id'' (sentry__value_new_span_uuid (fr_ids fr 0)) context;
          scope = (sdk_scope st)\<lparr>sc_trace_managed := False\<rparr>
      in case sentry__generate_sample_rand env (fr_rolls fr) context of
           None \<Rightarrow> None
         | Some context \<Rightarrow>
             let scope = scope\<lparr>sc_propagation_context := set_key ''trace'' context (sc_propagation_context scope)\<rparr>
             in Some (st\<lparr>sdk_scope := (case options of None \<Rightarrow> scope | Some opts \<Rightarrow> update_dsc opts scope)\<rparr>))"

definition sentry_regenerate_trace :: "environment \<Rightarrow> sentry_options_t option \<Rightarrow> fresh_inputs \<Rightarrow> sdk \<Rightarrow> sdk option" where
  "sentry_regenerate_trace env options fr st =
     (case options of
        None \<Rightarrow> Some st
      | Some opts \<Rightarrow>
          (case generate_propagation_context env fr (sc_propagation_context (sdk_scope st)) of
             None \<Rightarrow> None
           | Some pc \<Rightarrow> Some (st\<lparr>sdk_scope := update_dsc opts ((sdk_scope st)\<lparr>sc_propagation_context := pc, sc_trace_managed := False\<rparr>)\<rparr>)))"

section \<open>Starting\<close>

abbreviation remove_key :: "string \<Rightarrow> sentry_value \<Rightarrow> sentry_value" where
  "remove_key k v \<equiv> snd (sentry_value_remove_by_key_n v k)"

abbreviation scope_trace_member :: "sentry_scope_t \<Rightarrow> string \<Rightarrow> sentry_value" where
  "scope_trace_member scope k \<equiv> sentry_value_get_by_key (sentry_value_get_by_key (sc_propagation_context scope) ''trace'') k"

text \<open>A trace that may not be continued is forked: the scope and the transaction get a new one.\<close>

definition continue_or_fork ::
  "environment \<Rightarrow> sentry_options_t \<Rightarrow> fresh_inputs \<Rightarrow> sentry_value \<Rightarrow> sentry_value \<Rightarrow> sentry_scope_t \<Rightarrow> (sentry_value \<times> sentry_scope_t) option" where
  "continue_or_fork env opts fr incoming txn scope =
     (if sentry__trace_can_continue incoming
           (sentry__options_get_org_id (opt_org_id opts) (case opt_dsn opts of None \<Rightarrow> None | Some d \<Rightarrow> org_id d))
           (opt_strict_trace_continuation opts)
      then Some (txn, if sentry_value_get_length incoming > 0 then sentry__scope_freeze_dsc incoming scope else update_dsc opts scope)
      else case generate_propagation_context env fr (sc_propagation_context scope) of
          None \<Rightarrow> None
        | Some pc \<Rightarrow>
            let scope = scope\<lparr>sc_propagation_context := pc\<rparr>;
                txn = set_key ''trace_id'' (scope_trace_member scope ''trace_id'') txn;
                txn = remove_key ''sampled'' (remove_key ''parent_span_id'' txn)
            in Some (txn, update_dsc opts scope))"

definition sentry_transaction_start_ts ::
  "environment \<Rightarrow> sentry_options_t option \<Rightarrow> fresh_inputs \<Rightarrow> sentry_value option \<Rightarrow> sentry_value \<Rightarrow> u64 \<Rightarrow> sdk
     \<Rightarrow> (Spans.sentry_transaction_t option \<times> sdk) option" where
  "sentry_transaction_start_ts env options fr opaque_tx_ctx custom_sampling_ctx timestamp st =
     (case opaque_tx_ctx of
        None \<Rightarrow> Some (None, st)
      | Some tx_ctx \<Rightarrow>
          let tx_ctx = (if sentry_value_get_length (sentry_value_get_by_key tx_ctx ''parent_span_id'') < 1
                        then remove_key ''parent_span_id'' tx_ctx else tx_ctx);
              txn = remove_key ''timestamp''
                     (sentry__value_new_event_with_id (sentry__usec_time_to_iso8601 (fr_now_us fr)) (fr_ids fr 0));
              txn = snd (sentry__value_merge_objects txn tx_ctx);
              incoming = sentry_value_get_by_key txn ''incoming_dsc''
          in (case (if sentry_value_is_null incoming then Some (txn, sdk_scope st)
                    else case options of
                        None \<Rightarrow> Some (txn, sdk_scope st) | Some opts \<Rightarrow> continue_or_fork env opts fr incoming txn (sdk_scope st)) of
                None \<Rightarrow> None
              | Some (txn, scope) \<Rightarrow>
                  let txn = remove_key ''incoming_dsc'' txn;
                      sample_rand = sentry_value_as_double (scope_trace_member scope ''sample_rand'');
                      should_sample = sentry__should_send_transaction options txn tx_ctx custom_sampling_ctx sample_rand;
                      txn = set_key ''sampled'' (VBool should_sample) txn;
                      txn = set_key ''start_timestamp'' (sentry_value_new_string (sentry__usec_time_to_iso8601 timestamp)) txn
                  in Some (sentry__transaction_new txn, st\<lparr>sdk_scope := scope\<rparr>)))"

section \<open>Finishing\<close>

definition sentry_transaction_discard :: "bool \<Rightarrow> bool \<Rightarrow> sdk \<Rightarrow> sdk" where
  "sentry_transaction_discard given is_bound st =
     (if given \<and> is_bound then st\<lparr>sdk_scope := (sdk_scope st)\<lparr>sc_transaction_object := None\<rparr>\<rparr> else st)"

text \<open>What finishing does to the scope: a bound transaction with the same span is unbound, and a trace that the SDK manages takes the trace
  of the transaction.\<close>

definition release_transaction :: "sentry_value \<Rightarrow> sentry_scope_t \<Rightarrow> sentry_scope_t" where
  "release_transaction txn scope =
     (let span_of = (\<lambda>v. sentry_value_as_string (sentry_value_get_by_key v ''span_id''));
          scope = (case sc_transaction_object scope of
                     None \<Rightarrow> scope
                   | Some scope_tx \<Rightarrow> if span_of txn = span_of scope_tx then scope\<lparr>sc_transaction_object := None\<rparr> else scope);
          pc = sc_propagation_context scope
      in if sc_trace_managed scope
         then scope\<lparr>sc_propagation_context :=
                put_child pc ''trace'' (set_key ''trace_id'' (sentry_value_get_by_key txn ''trace_id'') (sentry_value_get_by_key pc ''trace''))\<rparr>
         else scope)"

definition finish_members :: "sentry_value \<Rightarrow> string option \<Rightarrow> sentry_value \<Rightarrow> sentry_value" where
  "finish_members inner now txn =
     (let txn = remove_key ''sampled'' txn;
          txn = set_key ''type'' (str_value ''transaction'') txn;
          txn = set_key ''timestamp'' (sentry_value_new_string now) txn;
          txn = set_key ''level'' (str_value ''info'') txn;
          name = sentry_value_get_by_key txn ''transaction'';
          txn = set_if (sentry_value_is_null name \<or> sentry_value_get_length name = 0) ''transaction'' (str_value ''<unlabeled transaction>'') txn;
          trace_context = set_key ''data'' (sentry_value_get_by_key txn ''data'') (sentry__value_get_trace_context inner);
          contexts = set_key ''trace'' trace_context sentry_value_new_object;
          txn = set_key ''contexts'' contexts txn
      in fold remove_key [''trace_id'', ''span_id'', ''parent_span_id'', ''op'', ''description'', ''status'', ''data''] txn)"

definition sentry__transaction_finish_value :: "sentry_value option \<Rightarrow> u64 \<Rightarrow> sdk \<Rightarrow> sentry_value \<times> sdk" where
  "sentry__transaction_finish_value opaque_tx timestamp st =
     (case opaque_tx of
        None \<Rightarrow> (VNull, st)
      | Some inner \<Rightarrow>
          if sentry_value_is_null inner then (VNull, st)
          else
            let txn = sentry__value_clone inner;
                st = st\<lparr>sdk_scope := release_transaction txn (sdk_scope st)\<rparr>
            in if \<not> sentry_value_is_true (sentry_value_get_by_key txn ''sampled'') then (VNull, st)
               else (finish_members inner (sentry__usec_time_to_iso8601 timestamp) txn, st))"

definition sentry_transaction_finish_ts where
  "sentry_transaction_finish_ts env options fr opaque_tx timestamp st =
     (case sentry__transaction_finish_value opaque_tx timestamp st of
        (txn, st) \<Rightarrow>
          if sentry_value_is_null txn then (sentry_uuid_nil, st)
          else (case sentry__capture_event env options fr txn None st of (u, _, st) \<Rightarrow> (u, st)))"

section \<open>The finished transaction\<close>

text \<open>The member \<open>k\<close> of the event that the transaction \<open>v\<close> becomes.\<close>

definition finished_member :: "sentry_value \<Rightarrow> string option \<Rightarrow> string \<Rightarrow> sentry_value" where
  "finished_member v now k =
     (let own = sentry__value_clone (sentry_value_get_by_key v k)
      in if k \<in> {''sampled'', ''trace_id'', ''span_id'', ''parent_span_id'', ''op'', ''description'', ''status'', ''data''} then VNull
         else if k = ''type'' then str_value ''transaction''
         else if k = ''timestamp'' then sentry_value_new_string now
         else if k = ''level'' then str_value ''info''
         else if k = ''transaction'' then if own = VNull \<or> sentry_value_get_length own = 0 then str_value ''<unlabeled transaction>'' else own
         else if k = ''contexts''
         then VObject False [(''trace'', set_key ''data'' (sentry__value_clone (sentry_value_get_by_key v ''data'')) (sentry__value_get_trace_context v))]
         else own)"

definition keyed_object :: "sentry_value \<Rightarrow> bool" where
  "keyed_object v \<longleftrightarrow> (\<exists>ps. v = VObject False ps \<and> keys_ok ps)"

lemma keyed_set: "keyed_object v \<Longrightarrow> CHR 0x00 \<notin> set k \<Longrightarrow> keyed_object (set_key k x v)"
  "keyed_object v \<Longrightarrow> CHR 0x00 \<notin> set k \<Longrightarrow> sentry_value_get_by_key (set_key k x v) k' = (if k' = k then x else sentry_value_get_by_key v k')"
  using get_set by (auto simp: keyed_object_def keys_ok_set)

lemma obj_remove_keys: "obj_remove ps k = Some ps' \<Longrightarrow> set (map fst ps') \<subseteq> set (map fst ps) \<and> (distinct (map fst ps) \<longrightarrow> distinct (map fst ps'))"
proof (induction ps k arbitrary: ps' rule: obj_remove.induct)
  case (2 a v ps k)
  show ?case
  proof (cases "k = a")
    case False
    then obtain qs where "obj_remove ps k = Some qs" "ps' = (a, v) # qs" using "2.prems" by (cases "obj_remove ps k") auto
    with "2.IH" [OF False] show ?thesis by auto
  qed (use "2.prems" in auto)
qed simp

lemma keyed_remove: "keyed_object v \<Longrightarrow> keyed_object (remove_key k v)"
  "keyed_object v \<Longrightarrow> sentry_value_get_by_key (remove_key k v) k' = (if k' = k then VNull else sentry_value_get_by_key v k')"
proof -
  assume "keyed_object v"
  then obtain ps where v: "v = VObject False ps" "keys_ok ps" by (auto simp: keyed_object_def)
  show "keyed_object (remove_key k v)"
    using v obj_remove_keys [of ps k] by (cases "obj_remove ps k") (fastforce simp: keyed_object_def keys_ok_def)+
  show "sentry_value_get_by_key (remove_key k v) k' = (if k' = k then VNull else sentry_value_get_by_key v k')"
  proof (cases "obj_remove ps k")
    case None
    then have "obj_get ps k = None" by (simp add: obj_remove_None obj_get_None)
    then show ?thesis using v None by simp
  next
    case (Some qs)
    then show ?thesis using v obj_get_remove [OF Some, of k'] by (simp add: keys_ok_def)
  qed
qed

lemma keyed_fold_remove: "keyed_object v \<Longrightarrow> sentry_value_get_by_key (fold remove_key ks v) k' = (if k' \<in> set ks then VNull else sentry_value_get_by_key v k')"
  by (induction ks arbitrary: v) (auto simp: keyed_remove simp del: sentry_value_get_by_key_n.simps)

lemma keyed_clone: "keys_ok ps \<Longrightarrow> keyed_object (sentry__value_clone (VObject f ps))"
  by (auto simp: keyed_object_def keys_ok_def comp_def case_prod_beta)

lemma get_clone: "sentry_value_get_by_key (sentry__value_clone v) k = sentry__value_clone (sentry_value_get_by_key v k)"
  by (cases v) (auto simp: obj_get_clone split: option.splits)

lemma finish_members_get:
  assumes "keys_ok ps"
  shows "sentry_value_get_by_key (finish_members (VObject f ps) now (sentry__value_clone (VObject f ps))) k = finished_member (VObject f ps) now k"
proof -
  define v where "v = VObject f ps"
  define t0 where "t0 = sentry__value_clone v"
  have k0: "keyed_object t0" and g0: "sentry_value_get_by_key t0 k = sentry__value_clone (sentry_value_get_by_key v k)" for k
    using keyed_clone [OF assms, of f] get_clone [of v] by (simp_all add: t0_def v_def)
  define t1 where "t1 = remove_key ''sampled'' t0"
  define t2 where "t2 = set_key ''type'' (str_value ''transaction'') t1"
  define t3 where "t3 = set_key ''timestamp'' (sentry_value_new_string now) t2"
  define t4 where "t4 = set_key ''level'' (str_value ''info'') t3"
  define name where "name = sentry_value_get_by_key t4 ''transaction''"
  define t5 where "t5 = (if sentry_value_is_null name \<or> sentry_value_get_length name = 0 then set_key ''transaction'' (str_value ''<unlabeled transaction>'') t4 else t4)"
  define c where "c = set_key ''trace'' (set_key ''data'' (sentry_value_get_by_key t5 ''data'') (sentry__value_get_trace_context v)) sentry_value_new_object"
  define t6 where "t6 = set_key ''contexts'' c t5"
  note g1 = keyed_remove [OF k0, of "''sampled''", folded t1_def]
  note g2 = keyed_set [OF g1(1), of "''type''" "str_value ''transaction''", folded t2_def]
  note g3 = keyed_set [OF g2(1), of "''timestamp''" "sentry_value_new_string now", folded t3_def]
  note g4 = keyed_set [OF g3(1), of "''level''" "str_value ''info''", folded t4_def]
  have g5: "keyed_object t5" "sentry_value_get_by_key t5 k = (if k = ''transaction'' \<and> (sentry_value_is_null name \<or> sentry_value_get_length name = 0)
      then str_value ''<unlabeled transaction>'' else sentry_value_get_by_key t4 k)" for k
    using keyed_set [OF g4(1), of "''transaction''" "str_value ''<unlabeled transaction>''"] g4(1) by (auto simp: t5_def simp del: sentry_value_get_by_key_n.simps)
  note g6 = keyed_set [OF g5(1), of "''contexts''" c, folded t6_def]
  let ?ks = "[''trace_id'', ''span_id'', ''parent_span_id'', ''op'', ''description'', ''status'', ''data'']"
  have k6: "keyed_object t6" using g6(1) by simp
  have "finish_members v now t0 = fold remove_key ?ks t6"
    unfolding finish_members_def Let_def set_if_def t6_def c_def t5_def name_def t4_def t3_def t2_def t1_def by (rule refl)
  then have m: "sentry_value_get_by_key (finish_members v now t0) k = (if k \<in> set ?ks then VNull else sentry_value_get_by_key t6 k)"
    using keyed_fold_remove [OF k6, of ?ks] by (simp only:)
  have "c = VObject False [(''trace'', set_key ''data'' (sentry_value_get_by_key t5 ''data'') (sentry__value_get_trace_context v))]"
    by (simp add: c_def sentry_value_new_object_def)
  then show ?thesis unfolding v_def [symmetric] t0_def [symmetric] m
    by (simp add: g6(2) g5(2) g4(2) g3(2) g2(2) g1(2) g0 name_def finished_member_def Let_def del: sentry_value_get_by_key_n.simps)
qed

lemma release_unbinds: "sc_transaction_object (release_transaction (sentry__value_clone v) scope) \<noteq> Some v"
proof -
  have "sentry_value_as_string (sentry__value_clone w) = sentry_value_as_string w" for w by (cases w) simp_all
  then show ?thesis using get_clone [of v "''span_id''"]
    by (auto simp: release_transaction_def Let_def simp del: sentry_value_get_by_key_n.simps sentry__value_clone.simps split: option.splits)
qed

text \<open>C22. A finished transaction becomes exactly the event that is specified: without a positive sampling decision there is none, and
  otherwise each of its members is the specified one, the span's own members having moved into the trace context and everything that
  the application set being kept; in either case the transaction is not bound to the scope any more.\<close>

theorem transaction_finish_members:
  assumes "keys_ok ps"
    and "sentry__transaction_finish_value (Some (VObject f ps)) timestamp st = (r, st')"
  shows "(if sentry_value_is_true (sentry_value_get_by_key (VObject f ps) ''sampled'')
     then sentry_value_get_by_key r k = finished_member (VObject f ps) (sentry__usec_time_to_iso8601 timestamp) k
     else r = VNull) \<and> sc_transaction_object (sdk_scope st') \<noteq> Some (VObject f ps)"
proof -
  have b: "sentry_value_is_true (sentry__value_clone v) = sentry_value_is_true v" for v
    by (cases v) (simp_all add: sentry_value_is_true_def)
  show ?thesis using assms(2) finish_members_get [OF assms(1), of f] b get_clone [of "VObject f ps" "''sampled''"] release_unbinds [of "VObject f ps"]
    unfolding sentry__transaction_finish_value_def
    by (auto simp: Let_def split: if_splits simp del: sentry__value_clone.simps sentry_value_get_by_key_n.simps)
qed

theorem transaction_finish_members_witness:
  "\<exists>r st'. sentry__transaction_finish_value
       (Some (VObject False [(''transaction'', VString ''checkout''), (''span_id'', VString ''ab''), (''sampled'', VBool True)])) 0 demo_sdk = (r, st')
     \<and> sentry_value_get_by_key r ''transaction'' = VString ''checkout'' \<and> sentry_value_get_by_key r ''span_id'' = VNull"
proof -
  let ?ps = "[(''transaction'', VString ''checkout''), (''span_id'', VString ''ab''), (''sampled'', VBool True)]"
  obtain r st' where f: "sentry__transaction_finish_value (Some (VObject False ?ps)) 0 demo_sdk = (r, st')" by fastforce
  have "keys_ok ?ps" by (simp add: keys_ok_def)
  note t = transaction_finish_members [OF this f]
  have "sentry_value_is_true (sentry_value_get_by_key (VObject False ?ps) ''sampled'')" by (simp add: sentry_value_is_true_def)
  then have "sentry_value_get_by_key r ''transaction'' = VString ''checkout''" "sentry_value_get_by_key r ''span_id'' = VNull"
    using t [of "''transaction''"] t [of "''span_id''"] by (simp_all add: finished_member_def)
  then show ?thesis using f by blast
qed

end
