(* ===== verification/Batcher.thy ===== *)
theory Batcher
  imports Prelude "HOL-Library.Sublist"
begin

text \<open>
  The buffers of the telemetry batcher (\<open>sentry_batcher.c\<close>): a ring of buffers that any number of threads fill without locks while one
  thread at a time empties them into batches.  Every atomic operation of \<open>sentry__batcher_enqueue\<close>, \<open>rotate_buffer\<close> and
  \<open>sentry__batcher_flush\<close> is one step of a thread, and threads interleave in every way.  The atomics are sequentially consistent, as
  the wrappers of \<open>sentry_sync.h\<close> make them.
\<close>

section \<open>State\<close>

definition SENTRY_BATCHER_QUEUE_LENGTH :: nat where "SENTRY_BATCHER_QUEUE_LENGTH = 100"

definition SENTRY_BATCHER_BUFFER_COUNT :: nat where "SENTRY_BATCHER_BUFFER_COUNT = 3"

record 'v sentry_batcher_buffer_t =
  buf_items :: "nat \<Rightarrow> 'v"
  buf_index :: nat
  buf_adding :: nat
  buf_sealed :: bool

text \<open>Where a thread is inside \<open>rotate_buffer\<close>, and what called it: the producer of the last slot, a producer that found the buffer
  full, or the flusher with its \<open>flush_idx\<close> and mode.\<close>

datatype rotate_pc = RSealed | RIndex | RAdding | RStillActive | RSeal | RSwap

datatype 'v rotate_caller = ByFilled 'v | ByFull 'v | ByFlush bool nat

text \<open>Where a thread is inside \<open>sentry__batcher_enqueue\<close>; the first number is \<open>active_idx\<close>.\<close>

datatype enqueue_pc =
    ReadActive
  | CheckSealed nat
  | Announce nat
  | RecheckActive nat
  | RecheckSealed nat nat
  | BackOff nat
  | TakeSlot nat
  | WriteSlot nat nat
  | SignalFilled nat
  | Leave nat
  | SignalFull nat bool
  | LeaveFull nat bool
  | Decide nat bool

text \<open>Where a thread is inside \<open>sentry__batcher_flush\<close>; the first number is \<open>old_buf_idx\<close>.\<close>

datatype 'v flush_pc =
    ReadDrain
  | ReadSealed nat
  | ReadActiveIdx nat
  | ReadCount nat nat
  | AwaitProducers nat
  | TakeIndex nat
  | ReadItems nat nat "'v list"
  | Unseal nat
  | Advance nat
  | Finish

datatype 'v thread_pc =
    Idle
  | Enqueue 'v enqueue_pc
  | Rotate rotate_pc nat "'v rotate_caller"
  | TryFlush bool nat
  | StartFlush bool
  | Flush bool nat "'v flush_pc"

text \<open>The fields of \<open>sentry_batcher_t\<close> that the three functions use, the position of every thread, and what can be observed: the items
  for which \<open>sentry__batcher_enqueue\<close> returned true or false, and the lists of items given to \<open>process_batch\<close>.\<close>

record 'v sentry_batcher_t =
  buffers :: "nat \<Rightarrow> 'v sentry_batcher_buffer_t"
  active_idx :: nat
  drain_idx :: nat
  flushing :: bool
  request_flush :: bool
  pc :: "nat \<Rightarrow> 'v thread_pc"
  accepted :: "'v list"
  dropped :: "'v list"
  batches :: "'v list list"

definition go :: "nat \<Rightarrow> 'v thread_pc \<Rightarrow> 'v sentry_batcher_t \<Rightarrow> 'v sentry_batcher_t" where
  "go t p s = s\<lparr>pc := (pc s)(t := p)\<rparr>"

definition upd_buffer :: "nat \<Rightarrow> ('v sentry_batcher_buffer_t \<Rightarrow> 'v sentry_batcher_buffer_t) \<Rightarrow> 'v sentry_batcher_t \<Rightarrow> 'v sentry_batcher_t" where
  "upd_buffer b f s = s\<lparr>buffers := (buffers s)(b := f (buffers s b))\<rparr>"

definition sentry__batcher_new :: "(nat \<Rightarrow> 'v) \<Rightarrow> 'v sentry_batcher_t" where
  "sentry__batcher_new memory =
     \<lparr>buffers = (\<lambda>_. \<lparr>buf_items = memory, buf_index = 0, buf_adding = 0, buf_sealed = False\<rparr>), active_idx = 0, drain_idx = 0,
      flushing = False, request_flush = False, pc = (\<lambda>_. Idle), accepted = [], dropped = [], batches = []\<rparr>"

section \<open>Rotating the active buffer\<close>

definition next_idx :: "nat \<Rightarrow> nat" where
  "next_idx i = (i + 1) mod SENTRY_BATCHER_BUFFER_COUNT"

text \<open>What the callers do with the result.\<close>

fun rotated :: "bool \<Rightarrow> nat \<Rightarrow> 'v rotate_caller \<Rightarrow> 'v thread_pc" where
  "rotated r old (ByFilled x) = Enqueue x (SignalFilled old)"
| "rotated r old (ByFull x) = Enqueue x (SignalFull old r)"
| "rotated r old (ByFlush crash fi) = Flush crash fi (if r then AwaitProducers old else Finish)"

fun rotate_buffer :: "nat \<Rightarrow> nat \<Rightarrow> 'v rotate_caller \<Rightarrow> rotate_pc \<Rightarrow> 'v sentry_batcher_t \<Rightarrow> 'v sentry_batcher_t" where
  "rotate_buffer t old c RSealed s = go t (Rotate (if buf_sealed (buffers s (next_idx old)) then RStillActive else RIndex) old c) s"
| "rotate_buffer t old c RIndex s = go t (Rotate (if buf_index (buffers s (next_idx old)) \<noteq> 0 then RStillActive else RAdding) old c) s"
| "rotate_buffer t old c RAdding s = go t (Rotate (if buf_adding (buffers s (next_idx old)) \<noteq> 0 then RStillActive else RSeal) old c) s"
| "rotate_buffer t old c RStillActive s = go t (rotated (active_idx s \<noteq> old) old c) s"
| "rotate_buffer t old c RSeal s = go t (Rotate RSwap old c) (upd_buffer old (buf_sealed_update (\<lambda>_. True)) s)"
| "rotate_buffer t old c RSwap s =
     (if active_idx s = old then go t (rotated True old c) (s\<lparr>active_idx := next_idx old\<rparr>) else go t (Rotate RStillActive old c) s)"

section \<open>Enqueueing an item\<close>

fun sentry__batcher_enqueue :: "nat \<Rightarrow> 'v \<Rightarrow> enqueue_pc \<Rightarrow> 'v sentry_batcher_t \<Rightarrow> 'v sentry_batcher_t" where
  "sentry__batcher_enqueue t x ReadActive s = go t (Enqueue x (CheckSealed (active_idx s))) s"
| "sentry__batcher_enqueue t x (CheckSealed a) s = go t (Enqueue x (if buf_sealed (buffers s a) then ReadActive else Announce a)) s"
| "sentry__batcher_enqueue t x (Announce a) s = go t (Enqueue x (RecheckActive a)) (upd_buffer a (buf_adding_update (\<lambda>n. n + 1)) s)"
| "sentry__batcher_enqueue t x (RecheckActive a) s = go t (Enqueue x (RecheckSealed a (active_idx s))) s"
| "sentry__batcher_enqueue t x (RecheckSealed a check) s =
     go t (Enqueue x (if a \<noteq> check \<or> buf_sealed (buffers s a) then BackOff a else TakeSlot a)) s"
| "sentry__batcher_enqueue t x (BackOff a) s = go t (Enqueue x ReadActive) (upd_buffer a (buf_adding_update (\<lambda>n. n - 1)) s)"
| "sentry__batcher_enqueue t x (TakeSlot a) s =
     (let item_idx = buf_index (buffers s a)
      in go t (if item_idx < SENTRY_BATCHER_QUEUE_LENGTH then Enqueue x (WriteSlot a item_idx) else Rotate RSealed a (ByFull x))
           (upd_buffer a (buf_index_update (\<lambda>n. n + 1)) s))"
| "sentry__batcher_enqueue t x (WriteSlot a item_idx) s =
     go t (if item_idx = SENTRY_BATCHER_QUEUE_LENGTH - 1 then Rotate RSealed a (ByFilled x) else Enqueue x (Leave a))
       (upd_buffer a (buf_items_update (\<lambda>f. f(item_idx := x))) s)"
| "sentry__batcher_enqueue t x (SignalFilled a) s = go t (Enqueue x (Leave a)) (s\<lparr>request_flush := True\<rparr>)"
| "sentry__batcher_enqueue t x (Leave a) s =
     go t Idle ((upd_buffer a (buf_adding_update (\<lambda>n. n - 1)) s)\<lparr>accepted := accepted s @ [x]\<rparr>)"
| "sentry__batcher_enqueue t x (SignalFull a r) s = go t (Enqueue x (LeaveFull a r)) (s\<lparr>request_flush := True\<rparr>)"
| "sentry__batcher_enqueue t x (LeaveFull a r) s = go t (Enqueue x (Decide a r)) (upd_buffer a (buf_adding_update (\<lambda>n. n - 1)) s)"
| "sentry__batcher_enqueue t x (Decide a r) s =
     (if r \<or> active_idx s \<noteq> a then go t (Enqueue x ReadActive) s else go t Idle (s\<lparr>dropped := dropped s @ [x]\<rparr>))"

section \<open>Flushing\<close>

text \<open>Taking the flushing lock: a crash-safe flush spins up to 200 times, a normal one tries once.\<close>

definition flush_lock :: "nat \<Rightarrow> bool \<Rightarrow> nat \<Rightarrow> 'v sentry_batcher_t \<Rightarrow> 'v sentry_batcher_t" where
  "flush_lock t crash attempts s =
     (if \<not> flushing s then go t (StartFlush crash) (s\<lparr>flushing := True\<rparr>)
      else if crash \<and> attempts < 200 then go t (TryFlush crash (attempts + 1)) s
      else go t Idle s)"

fun sentry__batcher_flush :: "nat \<Rightarrow> bool \<Rightarrow> nat \<Rightarrow> 'v flush_pc \<Rightarrow> 'v sentry_batcher_t \<Rightarrow> 'v sentry_batcher_t" where
  "sentry__batcher_flush t crash fi ReadDrain s = go t (Flush crash fi (ReadSealed (drain_idx s))) s"
| "sentry__batcher_flush t crash fi (ReadSealed d) s =
     go t (Flush crash fi (if buf_sealed (buffers s d) then AwaitProducers d else ReadActiveIdx d)) s"
| "sentry__batcher_flush t crash fi (ReadActiveIdx d) s = go t (Flush crash fi (ReadCount d (active_idx s))) s"
| "sentry__batcher_flush t crash fi (ReadCount d active) s =
     (let n = buf_index (buffers s d)
      in if active \<noteq> d then go t (Flush crash fi (AwaitProducers d)) s
         else if n = 0 \<or> d \<noteq> fi \<and> n < SENTRY_BATCHER_QUEUE_LENGTH then go t (Flush crash fi Finish) s
         else go t (Rotate RSealed d (ByFlush crash fi)) s)"
| "sentry__batcher_flush t crash fi (AwaitProducers d) s =
     (if buf_adding (buffers s d) > 0 then s else go t (Flush crash fi (TakeIndex d)) s)"
| "sentry__batcher_flush t crash fi (TakeIndex d) s =
     go t (Flush crash fi (ReadItems d (min (buf_index (buffers s d)) SENTRY_BATCHER_QUEUE_LENGTH) []))
       (upd_buffer d (buf_index_update (\<lambda>_. 0)) s)"
| "sentry__batcher_flush t crash fi (ReadItems d n xs) s =
     (if length xs < n then go t (Flush crash fi (ReadItems d n (xs @ [buf_items (buffers s d) (length xs)]))) s
      else go t (Flush crash fi (Unseal d)) (if n > 0 then s\<lparr>batches := batches s @ [xs]\<rparr> else s))"
| "sentry__batcher_flush t crash fi (Unseal d) s = go t (Flush crash fi (Advance d)) (upd_buffer d (buf_sealed_update (\<lambda>_. False)) s)"
| "sentry__batcher_flush t crash fi (Advance d) s = go t (Flush crash fi ReadDrain) (s\<lparr>drain_idx := next_idx d\<rparr>)"
| "sentry__batcher_flush t crash fi Finish s = go t Idle (s\<lparr>flushing := False\<rparr>)"

section \<open>Interleavings\<close>

text \<open>One atomic operation of a thread.\<close>

definition thread_step :: "nat \<Rightarrow> 'v sentry_batcher_t \<Rightarrow> 'v sentry_batcher_t" where
  "thread_step t s = (case pc s t of
     Idle \<Rightarrow> s
   | Enqueue x e \<Rightarrow> sentry__batcher_enqueue t x e s
   | Rotate r old c \<Rightarrow> rotate_buffer t old c r s
   | TryFlush crash n \<Rightarrow> flush_lock t crash n s
   | StartFlush crash \<Rightarrow> go t (Flush crash (active_idx s) ReadDrain) s
   | Flush crash fi f \<Rightarrow> sentry__batcher_flush t crash fi f s)"

text \<open>Items are told apart by the thread that enqueues them, given by \<open>owner\<close>, so that the order of each producer can be stated.\<close>

inductive batcher_step :: "('v \<Rightarrow> nat) \<Rightarrow> 'v sentry_batcher_t \<Rightarrow> 'v sentry_batcher_t \<Rightarrow> bool" for owner where
  call_enqueue: "pc s t = Idle \<Longrightarrow> owner x = t \<Longrightarrow> batcher_step owner s (go t (Enqueue x ReadActive) s)"
| call_flush: "pc s t = Idle \<Longrightarrow> batcher_step owner s (go t (TryFlush crash 0) s)"
| thread: "batcher_step owner s (thread_step t s)"

inductive batcher_reachable :: "('v \<Rightarrow> nat) \<Rightarrow> 'v sentry_batcher_t \<Rightarrow> bool" for owner where
  start: "batcher_reachable owner (sentry__batcher_new memory)"
| step: "batcher_reachable owner s \<Longrightarrow> batcher_step owner s s' \<Longrightarrow> batcher_reachable owner s'"

section \<open>What every thread may rely on\<close>

text \<open>Buffers are numbered by generation: generation \<open>k\<close> lives in buffer \<open>k mod SENTRY_BATCHER_BUFFER_COUNT\<close>.  \<open>A\<close> is the active
  generation and \<open>D\<close> the one to be drained next.  While a flusher drains generation \<open>D\<close>, \<open>W\<close>, \<open>P\<close> and \<open>E\<close> advance past \<open>D\<close> one after
  the other: when no producer can be inside any more, when its batch has been processed, and when the buffer has been unsealed.
  \<open>C k\<close> are the items that got a slot in generation \<open>k\<close>, in the order of the slots.\<close>

definition gen :: "nat \<Rightarrow> nat" where
  "gen k = k mod SENTRY_BATCHER_BUFFER_COUNT"

record 'v ghosts =
  gA :: nat
  gD :: nat
  gW :: nat
  gP :: nat
  gE :: nat
  gC :: "nat \<Rightarrow> 'v list"

text \<open>The buffer whose \<open>adding\<close> counter a thread holds.\<close>

fun holds :: "'v thread_pc \<Rightarrow> nat option" where
  "holds (Enqueue x e) = (case e of RecheckActive a \<Rightarrow> Some a | RecheckSealed a c \<Rightarrow> Some a | BackOff a \<Rightarrow> Some a | TakeSlot a \<Rightarrow> Some a
     | WriteSlot a i \<Rightarrow> Some a | SignalFilled a \<Rightarrow> Some a | Leave a \<Rightarrow> Some a | SignalFull a r \<Rightarrow> Some a | LeaveFull a r \<Rightarrow> Some a | _ \<Rightarrow> None)"
| "holds (Rotate r old c) = (case c of ByFlush crash fi \<Rightarrow> None | _ \<Rightarrow> Some old)"
| "holds _ = None"

text \<open>The item that has a slot although its enqueue has not returned.\<close>

fun in_flight :: "'v thread_pc \<Rightarrow> 'v list" where
  "in_flight (Enqueue x e) = (case e of WriteSlot a i \<Rightarrow> [x] | SignalFilled a \<Rightarrow> [x] | Leave a \<Rightarrow> [x] | _ \<Rightarrow> [])"
| "in_flight (Rotate r old (ByFilled x)) = [x]"
| "in_flight _ = []"

fun is_flusher :: "'v thread_pc \<Rightarrow> bool" where
  "is_flusher (StartFlush crash) = True"
| "is_flusher (Flush crash fi f) = True"
| "is_flusher (Rotate r old (ByFlush crash fi)) = True"
| "is_flusher _ = False"

text \<open>How far the flusher is with the generation it drains.\<close>

fun stage :: "'v thread_pc \<Rightarrow> nat" where
  "stage (Flush crash fi f) = (case f of TakeIndex d \<Rightarrow> 1 | ReadItems d n xs \<Rightarrow> 1 | Unseal d \<Rightarrow> 2 | Advance d \<Rightarrow> 3 | _ \<Rightarrow> 0)"
| "stage _ = 0"

definition staged :: "nat \<Rightarrow> 'v ghosts \<Rightarrow> bool" where
  "staged n g \<longleftrightarrow> gW g = gD g + (if n \<ge> 1 then 1 else 0) \<and> gP g = gD g + (if n \<ge> 2 then 1 else 0)
     \<and> gE g = gD g + (if n \<ge> 3 then 1 else 0) \<and> (n > 0 \<longrightarrow> gD g < gA g)"

text \<open>Generation \<open>k\<close> is open for the thread that works on buffer \<open>b\<close>.\<close>

definition inside :: "'v ghosts \<Rightarrow> nat \<Rightarrow> nat \<Rightarrow> bool" where
  "inside g b k \<longleftrightarrow> gW g \<le> k \<and> k \<le> gA g \<and> b = gen k"

definition newest :: "('v \<Rightarrow> nat) \<Rightarrow> 'v ghosts \<Rightarrow> nat \<Rightarrow> nat \<Rightarrow> bool" where
  "newest owner g t k \<longleftrightarrow> (\<forall>k' > k. \<forall>y \<in> set (gC g k'). owner y \<noteq> t)"

text \<open>The assertion of a thread at each of its positions.\<close>

fun enqueue_ok :: "('v \<Rightarrow> nat) \<Rightarrow> 'v ghosts \<Rightarrow> nat \<Rightarrow> 'v \<Rightarrow> enqueue_pc \<Rightarrow> bool" where
  "enqueue_ok owner g t x (RecheckSealed a check) = (a = check \<longrightarrow> (\<exists>k. inside g a k \<and> newest owner g t k))"
| "enqueue_ok owner g t x (TakeSlot a) = (\<exists>k. inside g a k \<and> newest owner g t k)"
| "enqueue_ok owner g t x (WriteSlot a i) = (\<exists>k. inside g a k \<and> i < length (gC g k) \<and> gC g k ! i = x)"
| "enqueue_ok owner g t x _ = True"

definition rotate_ok :: "'v ghosts \<Rightarrow> 'v sentry_batcher_t \<Rightarrow> rotate_pc \<Rightarrow> nat \<Rightarrow> 'v rotate_caller \<Rightarrow> bool" where
  "rotate_ok g s r old c \<longleftrightarrow> (\<exists>k. inside g old k \<and> (r \<in> {RIndex, RAdding, RSeal, RSwap} \<and> k = gA g \<longrightarrow> k + 1 < gE g + SENTRY_BATCHER_BUFFER_COUNT)
     \<and> (r = RSwap \<longrightarrow> buf_sealed (buffers s old)) \<and> (\<forall>crash fi. c = ByFlush crash fi \<longrightarrow> k = gD g))"

fun flush_ok :: "'v ghosts \<Rightarrow> 'v sentry_batcher_t \<Rightarrow> 'v flush_pc \<Rightarrow> bool" where
  "flush_ok g s (ReadSealed d) = (d = gen (gD g))"
| "flush_ok g s (ReadActiveIdx d) = (d = gen (gD g))"
| "flush_ok g s (ReadCount d active) = (d = gen (gD g) \<and> (active \<noteq> d \<longrightarrow> gD g < gA g))"
| "flush_ok g s (AwaitProducers d) = (d = gen (gD g) \<and> (gD g < gA g \<or> buf_sealed (buffers s d)))"
| "flush_ok g s (TakeIndex d) = (d = gen (gD g) \<and> length (gC g (gD g)) = min (buf_index (buffers s d)) SENTRY_BATCHER_QUEUE_LENGTH)"
| "flush_ok g s (ReadItems d n xs) = (d = gen (gD g) \<and> n = length (gC g (gD g)) \<and> length xs \<le> n \<and> xs = take (length xs) (gC g (gD g))
     \<and> buf_index (buffers s d) = 0)"
| "flush_ok g s (Unseal d) = (d = gen (gD g) \<and> buf_index (buffers s d) = 0)"
| "flush_ok g s (Advance d) = (d = gen (gD g))"
| "flush_ok g s _ = True"

fun thread_ok :: "('v \<Rightarrow> nat) \<Rightarrow> 'v ghosts \<Rightarrow> 'v sentry_batcher_t \<Rightarrow> nat \<Rightarrow> 'v thread_pc \<Rightarrow> bool" where
  "thread_ok owner g s t (Enqueue x e) = (owner x = t \<and> enqueue_ok owner g t x e)"
| "thread_ok owner g s t (Rotate r old c) = (rotate_ok g s r old c \<and> (\<forall>x. c = ByFilled x \<or> c = ByFull x \<longrightarrow> owner x = t))"
| "thread_ok owner g s t (Flush crash fi f) = flush_ok g s f"
| "thread_ok owner g s t _ = True"

text \<open>The state of the ring: the buffers behind the active one are sealed, those in front of it empty and open.\<close>

definition ring_ok :: "'v ghosts \<Rightarrow> 'v sentry_batcher_t \<Rightarrow> bool" where
  "ring_ok g s \<longleftrightarrow> active_idx s = gen (gA g) \<and> drain_idx s = gen (gD g) \<and> gD g \<le> gA g \<and> gA g < gE g + SENTRY_BATCHER_BUFFER_COUNT
     \<and> (\<forall>k. gE g \<le> k \<and> k < gA g \<longrightarrow> buf_sealed (buffers s (gen k)))
     \<and> (\<forall>k. gA g < k \<and> k < gE g + SENTRY_BATCHER_BUFFER_COUNT \<longrightarrow> \<not> buf_sealed (buffers s (gen k)) \<and> buf_index (buffers s (gen k)) = 0)
     \<and> (buf_sealed (buffers s (active_idx s)) \<longrightarrow> (\<exists>t c. pc s t = Rotate RSwap (active_idx s) c))"

definition contents_ok :: "'v ghosts \<Rightarrow> 'v sentry_batcher_t \<Rightarrow> bool" where
  "contents_ok g s \<longleftrightarrow> (\<forall>k > gA g. gC g k = []) \<and> (\<forall>k. length (gC g k) \<le> SENTRY_BATCHER_QUEUE_LENGTH)
     \<and> (\<forall>k. gW g \<le> k \<and> k \<le> gA g \<longrightarrow> length (gC g k) = min (buf_index (buffers s (gen k))) SENTRY_BATCHER_QUEUE_LENGTH)
     \<and> (\<forall>k i. gP g \<le> k \<and> k \<le> gA g \<and> i < length (gC g k) \<longrightarrow> buf_items (buffers s (gen k)) i = gC g k ! i
          \<or> gW g \<le> k \<and> (\<exists>t. pc s t = Enqueue (gC g k ! i) (WriteSlot (gen k) i)))"

definition order_ok :: "('v \<Rightarrow> nat) \<Rightarrow> 'v ghosts \<Rightarrow> 'v sentry_batcher_t \<Rightarrow> bool" where
  "order_ok owner g s \<longleftrightarrow> (\<forall>t. filter (\<lambda>y. owner y = t) (accepted s) @ in_flight (pc s t)
     = filter (\<lambda>y. owner y = t) (concat (batches s) @ concat (map (gC g) [gP g..<gA g + 1])))"

definition lock_ok :: "'v ghosts \<Rightarrow> 'v sentry_batcher_t \<Rightarrow> bool" where
  "lock_ok g s \<longleftrightarrow> (\<forall>t. is_flusher (pc s t) \<longrightarrow> flushing s \<and> staged (stage (pc s t)) g) \<and> (\<not> flushing s \<longrightarrow> staged 0 g)
     \<and> (\<forall>t u. is_flusher (pc s t) \<and> is_flusher (pc s u) \<longrightarrow> t = u) \<and> (\<exists>n. staged n g)
     \<and> (flushing s \<longrightarrow> (\<exists>t. is_flusher (pc s t)))"

definition adding_ok :: "'v sentry_batcher_t \<Rightarrow> bool" where
  "adding_ok s \<longleftrightarrow> finite {t. pc s t \<noteq> Idle} \<and> (\<forall>b. buf_adding (buffers s b) = card {t. holds (pc s t) = Some b})"

definition batches_ok :: "'v sentry_batcher_t \<Rightarrow> bool" where
  "batches_ok s \<longleftrightarrow> list_all (\<lambda>b. b \<noteq> [] \<and> length b \<le> SENTRY_BATCHER_QUEUE_LENGTH) (batches s)"

definition batcher_ok :: "('v \<Rightarrow> nat) \<Rightarrow> 'v ghosts \<Rightarrow> 'v sentry_batcher_t \<Rightarrow> bool" where
  "batcher_ok owner g s \<longleftrightarrow> ring_ok g s \<and> contents_ok g s \<and> order_ok owner g s \<and> lock_ok g s \<and> adding_ok s \<and> batches_ok s
     \<and> (\<forall>t. thread_ok owner g s t (pc s t))"

section \<open>Interference\<close>


lemma gen_eq: "gen k = gen l \<Longrightarrow> k \<le> l \<Longrightarrow> l < k + SENTRY_BATCHER_BUFFER_COUNT \<Longrightarrow> k = l"
  by (auto simp: gen_def SENTRY_BATCHER_BUFFER_COUNT_def) presburger

lemma next_gen [simp]: "next_idx (gen k) = gen (k + 1)"
  by (simp add: next_idx_def gen_def SENTRY_BATCHER_BUFFER_COUNT_def mod_Suc_eq)

lemma gen_wrap [simp]: "gen (k + SENTRY_BATCHER_BUFFER_COUNT) = gen k"
  by (simp add: gen_def)

lemma gen_unique:
  "gen k = gen l \<Longrightarrow> n \<le> k \<Longrightarrow> n \<le> l \<Longrightarrow> k < n + SENTRY_BATCHER_BUFFER_COUNT \<Longrightarrow> l < n + SENTRY_BATCHER_BUFFER_COUNT \<Longrightarrow> k = l"
  using gen_eq [of k l] gen_eq [of l k] by linarith

text \<open>The assertion of a producer survives what others do, and so does that of a flusher.\<close>

lemma producer_stable:
  assumes "thread_ok owner g s u p" "\<not> is_flusher p" "gA g \<le> gA g'" "gE g \<le> gE g'"
    and ins: "\<And>k b. holds p = Some b \<Longrightarrow> inside g b k \<Longrightarrow> inside g' b k \<and> (buf_sealed (buffers s b) \<longrightarrow> buf_sealed (buffers s' b))"
    and new: "\<And>k. newest owner g u k \<Longrightarrow> newest owner g' u k"
    and C: "\<And>k. \<exists>ys. gC g' k = gC g k @ ys"
  shows "thread_ok owner g' s' u p"
proof -
  have nth: "i < length (gC g k) \<Longrightarrow> i < length (gC g' k) \<and> gC g' k ! i = gC g k ! i" for i k
    using C [of k] by (auto simp: nth_append)
  have ins': "inside g b k \<Longrightarrow> k = gA g' \<Longrightarrow> k = gA g" for b k using assms(3) by (auto simp: inside_def)
  show ?thesis
  proof (cases p)
    case (Enqueue x e)
    then show ?thesis using assms(1) ins new nth by (cases e) (auto, (metis nth)+)
  next
    case (Rotate r old c)
    then obtain k where k: "inside g old k"
      "r \<in> {RIndex, RAdding, RSeal, RSwap} \<and> k = gA g \<longrightarrow> k + 1 < gE g + SENTRY_BATCHER_BUFFER_COUNT"
      "r = RSwap \<longrightarrow> buf_sealed (buffers s old)" using assms(1) by (auto simp: rotate_ok_def)
    have "holds p = Some old" using Rotate assms(2) by (cases c) auto
    then have "inside g' old k" "r = RSwap \<longrightarrow> buf_sealed (buffers s' old)" using ins k by auto
    moreover have "r \<in> {RIndex, RAdding, RSeal, RSwap} \<and> k = gA g' \<longrightarrow> k + 1 < gE g' + SENTRY_BATCHER_BUFFER_COUNT"
      using k(2) ins' [OF k(1)] assms(4) by fastforce
    ultimately have "rotate_ok g' s' r old c" using assms(2) Rotate by (auto simp: rotate_ok_def)
    then show ?thesis using Rotate assms(1) by simp
  qed (use assms in auto)
qed

lemma flusher_stable:
  assumes ok: "thread_ok owner g s u p" "is_flusher p" "gA g \<le> gA g'" "gD g' = gD g" "gW g' = gW g" "gE g' = gE g"
    and sealed: "\<And>b. buf_sealed (buffers s b) \<Longrightarrow> buf_sealed (buffers s' b)"
    and D: "stage p \<in> {1, 2} \<Longrightarrow> gC g' (gD g) = gC g (gD g) \<and> buf_index (buffers s' (gen (gD g))) = buf_index (buffers s (gen (gD g)))"
  shows "thread_ok owner g' s' u p"
proof (cases p)
  case (Flush crash fi f)
  then show ?thesis using assms by (cases f) auto
next
  case (Rotate r old c)
  then obtain k where k: "inside g old k"
    "r \<in> {RIndex, RAdding, RSeal, RSwap} \<and> k = gA g \<longrightarrow> k + 1 < gE g + SENTRY_BATCHER_BUFFER_COUNT"
    "r = RSwap \<longrightarrow> buf_sealed (buffers s old)" "\<forall>crash fi. c = ByFlush crash fi \<longrightarrow> k = gD g" using ok(1) by (auto simp: rotate_ok_def)
  have "inside g' old k" using k(1) assms(3-6) by (auto simp: inside_def)
  moreover have "k = gA g' \<longrightarrow> k = gA g" using k(1) assms(3) by (auto simp: inside_def)
  ultimately have "rotate_ok g' s' r old c" using k sealed assms(4,6) unfolding rotate_ok_def by auto
  then show ?thesis using Rotate ok(1) by simp
qed (use assms in auto)

lemma others_ok:
  assumes ok: "batcher_ok owner g s" and pc: "pc s' = pc s" and g: "gA g \<le> gA g'" "gE g \<le> gE g'" "\<And>k. \<exists>ys. gC g' k = gC g k @ ys"
    and new: "\<And>u k. u \<noteq> t \<Longrightarrow> newest owner g u k \<Longrightarrow> newest owner g' u k"
    and ins: "\<And>u b k. u \<noteq> t \<Longrightarrow> holds (pc s u) = Some b \<Longrightarrow> inside g b k \<Longrightarrow> inside g' b k \<and> (buf_sealed (buffers s b) \<longrightarrow> buf_sealed (buffers s' b))"
    and fl: "is_flusher (pc s t) \<or> gD g' = gD g \<and> gW g' = gW g \<and> gE g' = gE g \<and> (\<forall>b. buf_sealed (buffers s b) \<longrightarrow> buf_sealed (buffers s' b))
      \<and> (gE g = gD g \<and> gD g < gW g \<longrightarrow> gC g' (gD g) = gC g (gD g) \<and> buf_index (buffers s' (gen (gD g))) = buf_index (buffers s (gen (gD g))))"
    and t: "thread_ok owner g' s' t p"
  shows "\<forall>u. thread_ok owner g' (go t p s') u (pc (go t p s') u)"
proof
  fix u
  have cong: "buffers a = buffers b \<Longrightarrow> thread_ok owner g' a v q = thread_ok owner g' b v q" for a b :: "'a sentry_batcher_t" and v q
  proof (cases q)
    case (Flush crash fi f)
    then show "buffers a = buffers b \<Longrightarrow> thread_ok owner g' a v q = thread_ok owner g' b v q" by (cases f) auto
  qed (auto simp: rotate_ok_def)
  have u: "thread_ok owner g s u (pc s u)" and l: "lock_ok g s" using ok by (auto simp: batcher_ok_def)
  have "thread_ok owner g' s' u (pc s u)" if ne: "u \<noteq> t"
  proof (cases "is_flusher (pc s u)")
    case True
    then have nf: "\<not> is_flusher (pc s t)" and st: "staged (stage (pc s u)) g" using l ne by (auto simp: lock_ok_def)
    have "stage (pc s u) \<in> {1, 2} \<Longrightarrow> gE g = gD g \<and> gD g < gW g" using st by (auto simp: staged_def)
    then show ?thesis using True nf fl g by (intro flusher_stable [OF u]) auto
  next
    case False
    then show ?thesis using ne ins new g by (intro producer_stable [OF u]) auto
  qed
  then show "thread_ok owner g' (go t p s') u (pc (go t p s') u)" using t pc
    by (cases "u = t") (auto simp: go_def cong [of "s'\<lparr>pc := (pc s)(t := p)\<rparr>" s'])
qed

section \<open>The counters and the lock\<close>

lemma adding_go:
  assumes ok: "adding_ok s" and pc: "pc s' = pc s"
    and add: "\<And>b. buf_adding (buffers s' b) + (if holds (pc s t) = Some b then 1 else 0) = buf_adding (buffers s b) + (if holds p = Some b then 1 else 0)"
  shows "adding_ok (go t p s')"
proof -
  have fin: "finite {u. pc s u \<noteq> Idle}" using ok by (simp add: adding_ok_def)
  have "buf_adding (buffers s' b) = card {u. holds (((pc s)(t := p)) u) = Some b}" for b
  proof -
    let ?U = "{u. u \<noteq> t \<and> holds (pc s u) = Some b}"
    have f: "finite ?U" by (rule finite_subset [OF _ fin]) auto
    have e: "{u. holds (pc s u) = Some b} = (if holds (pc s t) = Some b then insert t ?U else ?U)"
      "{u. holds (((pc s)(t := p)) u) = Some b} = (if holds p = Some b then insert t ?U else ?U)" by auto
    have "buf_adding (buffers s b) = card {u. holds (pc s u) = Some b}" using ok by (simp add: adding_ok_def)
    then show ?thesis using add [of b] f unfolding e by (auto split: if_splits)
  qed
  moreover have "finite {u. ((pc s)(t := p)) u \<noteq> Idle}"
    by (rule finite_subset [of _ "insert t {u. pc s u \<noteq> Idle}"]) (use fin in auto)
  ultimately show ?thesis using pc by (simp add: adding_ok_def go_def)
qed

lemma lock_go:
  assumes ok: "lock_ok g s" and "pc s' = pc s" "flushing s' = flushing s" "is_flusher p = is_flusher (pc s t)"
    and "is_flusher (pc s t) \<or> gD g' = gD g \<and> gW g' = gW g \<and> gP g' = gP g \<and> gE g' = gE g \<and> gA g \<le> gA g'"
    and "is_flusher p \<Longrightarrow> staged (stage p) g'"
  shows "lock_ok g' (go t p s')"
proof -
  have "staged n g \<Longrightarrow> gD g' = gD g \<and> gW g' = gW g \<and> gP g' = gP g \<and> gE g' = gE g \<and> gA g \<le> gA g' \<Longrightarrow> staged n g'" for n
    by (auto simp: staged_def)
  then show ?thesis using assms unfolding lock_ok_def go_def by (auto split: if_splits; metis)
qed

text \<open>The items that have a slot and are not processed.\<close>

definition waiting :: "'v ghosts \<Rightarrow> 'v list" where
  "waiting g = concat (map (gC g) [gP g..<gA g + 1])"

lemma order_go:
  assumes ok: "order_ok owner g s" and same: "pc s' = pc s" "accepted s' = accepted s @ ys"
    and fl: "in_flight (pc s t) @ zs = ys @ in_flight p" "list_all (\<lambda>y. owner y = t) ys"
    and w: "\<And>u. filter (\<lambda>y. owner y = u) (concat (batches s') @ waiting g')
      = filter (\<lambda>y. owner y = u) (concat (batches s) @ waiting g) @ (if u = t then zs else [])"
  shows "order_ok owner g' (go t p s')"
proof -
  have ys: "filter (\<lambda>y. owner y = u) ys = (if u = t then ys else [])" for u using fl(2) by (auto simp: list_all_iff filter_empty_conv)
  have o: "filter (\<lambda>y. owner y = u) (concat (batches s) @ waiting g) = filter (\<lambda>y. owner y = u) (accepted s) @ in_flight (pc s u)" for u
    using ok by (simp add: order_ok_def waiting_def)
  have "filter (\<lambda>y. owner y = u) (accepted s') @ in_flight (((pc s)(t := p)) u)
      = filter (\<lambda>y. owner y = u) (concat (batches s') @ waiting g')" for u
    unfolding w o same(2) using fl(1) by (simp add: ys)
  then show ?thesis using same(1) by (simp add: order_ok_def go_def waiting_def del: upt_Suc)
qed

section \<open>Every step keeps the invariant\<close>

lemma batcher_okD:
  assumes "batcher_ok owner g s"
  shows "ring_ok g s" "contents_ok g s" "order_ok owner g s" "lock_ok g s" "adding_ok s" "batches_ok s" "thread_ok owner g s t (pc s t)"
  using assms by (auto simp: batcher_ok_def)

definition same_slots :: "'v sentry_batcher_t \<Rightarrow> 'v sentry_batcher_t \<Rightarrow> bool" where
  "same_slots s s' \<longleftrightarrow> (\<forall>b. buf_items (buffers s' b) = buf_items (buffers s b) \<and> buf_index (buffers s' b) = buf_index (buffers s b)
     \<and> buf_sealed (buffers s' b) = buf_sealed (buffers s b))
     \<and> active_idx s' = active_idx s \<and> drain_idx s' = drain_idx s \<and> pc s' = pc s \<and> batches s' = batches s"

lemma ring_go:
  assumes ok: "ring_ok g s" and "pc s' = pc s" "active_idx s' = active_idx s" "drain_idx s' = drain_idx s" "gA g' = gA g" "gD g' = gD g" "gE g' = gE g"
    and "\<And>b. buf_sealed (buffers s' b) = buf_sealed (buffers s b)"
    and "\<And>k. gA g < k \<Longrightarrow> k < gE g + SENTRY_BATCHER_BUFFER_COUNT \<Longrightarrow> buf_index (buffers s' (gen k)) = buf_index (buffers s (gen k))"
    and "\<forall>c. pc s t \<noteq> Rotate RSwap (active_idx s) c"
  shows "ring_ok g' (go t p s')"
proof -
  have "\<exists>u c. pc (go t p s') u = Rotate RSwap (active_idx s) c" if "buf_sealed (buffers s (active_idx s))"
  proof -
    have "\<exists>u c. pc s u = Rotate RSwap (active_idx s) c" using ok that unfolding ring_ok_def by blast
    then obtain u c where "pc s u = Rotate RSwap (active_idx s) c" by blast
    moreover from this have "u \<noteq> t" using assms(10) by auto
    ultimately have "pc (go t p s') u = Rotate RSwap (active_idx s) c" using assms(2) by (simp add: go_def)
    then show ?thesis by blast
  qed
  then show ?thesis using assms unfolding ring_ok_def by (simp add: go_def)
qed

lemma contents_item:
  "contents_ok g s \<Longrightarrow> gP g \<le> k \<Longrightarrow> k \<le> gA g \<Longrightarrow> i < length (gC g k) \<Longrightarrow>
     buf_items (buffers s (gen k)) i = gC g k ! i \<or> gW g \<le> k \<and> (\<exists>t. pc s t = Enqueue (gC g k ! i) (WriteSlot (gen k) i))"
  by (simp add: contents_ok_def)

lemma contents_go:
  assumes ok: "contents_ok g s" and pc: "pc s' = pc s" and "gA g' = gA g" "gW g' = gW g" "gP g \<le> gP g'" "gC g' = gC g"
    and "\<And>k. gW g \<le> k \<Longrightarrow> k \<le> gA g \<Longrightarrow> buf_index (buffers s' (gen k)) = buf_index (buffers s (gen k))"
    and "\<And>b. buf_items (buffers s' b) = buf_items (buffers s b)" and wr: "\<forall>x a i. pc s t \<noteq> Enqueue x (WriteSlot a i)"
  shows "contents_ok g' (go t p s')"
proof -
  have "\<exists>u. pc (go t p s') u = Enqueue y (WriteSlot a j)" if "\<exists>u. pc s u = Enqueue y (WriteSlot a j)" for y a j
  proof -
    from that obtain u where u: "pc s u = Enqueue y (WriteSlot a j)" by blast
    then have "u \<noteq> t" using wr by auto
    then have "pc (go t p s') u = Enqueue y (WriteSlot a j)" using u pc by (simp add: go_def)
    then show ?thesis by blast
  qed
  then show ?thesis using assms unfolding contents_ok_def by (simp add: go_def) (meson le_trans)
qed

text \<open>A step that changes at most a counter \<open>adding\<close> and what has been accepted.\<close>

lemma quiet:
  assumes ok: "batcher_ok owner g s" and same: "same_slots s s'" "flushing s' = flushing s"
    and add: "\<And>b. buf_adding (buffers s' b) + (if holds (pc s t) = Some b then 1 else 0) = buf_adding (buffers s b) + (if holds p = Some b then 1 else 0)"
    and acc: "accepted s' = accepted s @ ys" "in_flight (pc s t) = ys @ in_flight p" "list_all (\<lambda>y. owner y = t) ys"
    and fl: "is_flusher p = is_flusher (pc s t)" "stage p = stage (pc s t)"
    and wr: "\<forall>x a i. pc s t \<noteq> Enqueue x (WriteSlot a i)" and sw: "\<forall>c. pc s t \<noteq> Rotate RSwap (active_idx s) c"
    and t: "thread_ok owner g s' t p"
  shows "batcher_ok owner g (go t p s')"
proof -
  note b = batcher_okD [OF ok]
  have "ring_ok g (go t p s')" using b(1) same(1) sw by (intro ring_go [of g s]) (auto simp: same_slots_def)
  moreover have "contents_ok g (go t p s')" using b(2) same(1) wr by (intro contents_go [of g s]) (auto simp: same_slots_def)
  moreover have "order_ok owner g (go t p s')"
using b(3) same(1) acc by (intro order_go [of owner g s s' ys t "[]"]) (auto simp: same_slots_def)
  moreover have "lock_ok g (go t p s')" using b same fl by (intro lock_go [of g s]) (auto simp: same_slots_def lock_ok_def)
  moreover have "adding_ok (go t p s')" using b same add by (intro adding_go [of s]) (auto simp: same_slots_def)
  moreover have "batches_ok (go t p s')" using b same by (simp add: batches_ok_def same_slots_def go_def)
  moreover have "\<forall>u. thread_ok owner g (go t p s') u (pc (go t p s') u)"
    using same t by (intro others_ok [OF ok]) (auto simp: same_slots_def)
  ultimately show ?thesis by (simp add: batcher_ok_def)
qed

lemma ghost_order:
  assumes "batcher_ok owner g s"
  shows "gD g \<le> gE g" "gE g \<le> gP g" "gP g \<le> gW g" "gW g \<le> gD g + 1" "gW g \<le> gA g" "gA g < gE g + SENTRY_BATCHER_BUFFER_COUNT"
  using assms by (auto simp: batcher_ok_def lock_ok_def ring_ok_def staged_def split: if_splits)

lemma inside_active: "batcher_ok owner g s \<Longrightarrow> inside g (active_idx s) (gA g)"
  using ghost_order(5) [of owner g s] batcher_okD(1) [of owner g s] by (simp add: inside_def ring_ok_def)

lemma newest_active: "batcher_ok owner g s \<Longrightarrow> newest owner g t (gA g)"
  by (simp add: newest_def batcher_ok_def contents_ok_def)

lemma inside_not_drained:
  assumes "batcher_ok owner g s" "inside g b k" "gE g = gD g" "gD g < gW g"
  shows "b \<noteq> gen (gD g)"
  using ghost_order [OF assms(1)] assms(2-4) gen_unique [of k "gD g" "gD g"] by (auto simp: inside_def)

lemmas slots_simps = same_slots_def go_def upd_buffer_def

text \<open>The steps of a producer that take no slot.\<close>

lemma enqueue_quiet:
  assumes ok: "batcher_ok owner g s" and pc: "pc s t = Enqueue x e" and e: "\<And>a. e \<noteq> TakeSlot a" "\<And>a i. e \<noteq> WriteSlot a i"
  shows "batcher_ok owner g (sentry__batcher_enqueue t x e s)"
proof -
  have t: "owner x = t" "enqueue_ok owner g t x e" using batcher_okD(7) [OF ok, of t] pc by auto
  have q: "batcher_ok owner g (go t p s')"
    if "same_slots s s'" "flushing s' = flushing s" "accepted s' = accepted s @ ys" "in_flight (pc s t) = ys @ in_flight p" "list_all (\<lambda>y. owner y = t) ys"
      "\<And>b. buf_adding (buffers s' b) + (if holds (pc s t) = Some b then 1 else 0) = buf_adding (buffers s b) + (if holds p = Some b then 1 else 0)"
      "\<not> is_flusher p" "stage p = 0" "thread_ok owner g s' t p" for p s' ys
    using that pc e by (intro quiet [OF ok, of s' t p ys]) auto
  have held: "buf_adding (buffers s a) \<noteq> 0" if "holds (pc s t) = Some a" for a
  proof -
    have "finite {u. holds (pc s u) = Some a}"
      by (rule finite_subset [of _ "{u. pc s u \<noteq> Idle}"]) (use batcher_okD(5) [OF ok] in \<open>auto simp: adding_ok_def\<close>)
    then show ?thesis using that batcher_okD(5) [OF ok] by (auto simp: adding_ok_def)
  qed
  show ?thesis
  proof (cases e)
    case (RecheckActive a)
    have "thread_ok owner g s t (Enqueue x (RecheckSealed a (active_idx s)))"
      using t inside_active [OF ok] newest_active [OF ok] by auto
    then show ?thesis unfolding RecheckActive sentry__batcher_enqueue.simps
      using RecheckActive pc by (intro q [of _ "[]"]) (simp_all add: slots_simps)
  next
    case (RecheckSealed a check)
    show ?thesis unfolding RecheckSealed sentry__batcher_enqueue.simps using RecheckSealed pc t by (intro q [of _ "[]"]) (auto simp: slots_simps)
  next
    case (BackOff a)
    show ?thesis unfolding BackOff sentry__batcher_enqueue.simps using BackOff held [of a] pc t by (intro q [of _ "[]"]) (auto simp: slots_simps)
  next
    case (Leave a)
    show ?thesis unfolding Leave sentry__batcher_enqueue.simps using Leave held [of a] pc t by (intro q [of _ "[x]"]) (auto simp: slots_simps)
  next
    case (LeaveFull a r)
    show ?thesis unfolding LeaveFull sentry__batcher_enqueue.simps using LeaveFull held [of a] pc t by (intro q [of _ "[]"]) (auto simp: slots_simps)
  next
    case (Decide a r)
    have "batcher_ok owner g (go t (Enqueue x ReadActive) s)" "batcher_ok owner g (go t Idle (s\<lparr>dropped := dropped s @ [x]\<rparr>))"
      by (intro q [of _ "[]"]; use Decide pc t in \<open>simp add: slots_simps\<close>)+
    then show ?thesis using Decide by simp
  next
    case ReadActive
    show ?thesis unfolding ReadActive sentry__batcher_enqueue.simps using ReadActive pc t by (intro q [of _ "[]"]) (auto simp: slots_simps)
  next
    case (CheckSealed a)
    show ?thesis unfolding CheckSealed sentry__batcher_enqueue.simps using CheckSealed pc t by (intro q [of _ "[]"]) (auto simp: slots_simps)
  next
    case (Announce a)
    show ?thesis unfolding Announce sentry__batcher_enqueue.simps using Announce pc t by (intro q [of _ "[]"]) (auto simp: slots_simps)
  next
    case (SignalFilled a)
    show ?thesis unfolding SignalFilled sentry__batcher_enqueue.simps using SignalFilled pc t by (intro q [of _ "[]"]) (auto simp: slots_simps)
  next
    case (SignalFull a r)
    show ?thesis unfolding SignalFull sentry__batcher_enqueue.simps using SignalFull pc t by (intro q [of _ "[]"]) (auto simp: slots_simps)
  qed (use e in auto)
qed

text \<open>Taking a slot.\<close>

lemma waiting_split:
  assumes "gP g \<le> k" "k \<le> gA g"
  shows "waiting g = concat (map (gC g) [gP g..<k]) @ gC g k @ concat (map (gC g) [k + 1..<gA g + 1])"
proof -
  have "[gP g..<gA g + 1] = [gP g..<k] @ k # [k + 1..<gA g + 1]"
    using assms by (metis Suc_eq_plus1 le_imp_less_Suc less_or_eq_imp_le upt_add_eq_append le_add_diff_inverse upt_conv_Cons)
  then show ?thesis by (simp add: waiting_def del: upt_Suc)
qed

lemma waiting_append:
  assumes "gP g \<le> k" "k \<le> gA g" and z: "\<And>k'. k < k' \<Longrightarrow> zs \<noteq> [] \<Longrightarrow> list_all Q zs \<Longrightarrow> filter Q (gC g k') = []" "list_all Q zs \<or> list_all (\<lambda>z. \<not> Q z) zs"
  shows "filter Q (waiting (g\<lparr>gC := (gC g)(k := gC g k @ zs)\<rparr>)) = filter Q (waiting g) @ filter Q zs"
proof -
  let ?g = "g\<lparr>gC := (gC g)(k := gC g k @ zs)\<rparr>"
  have l: "map (gC ?g) [gP g..<k] = map (gC g) [gP g..<k]" "map (gC ?g) [k + 1..<gA g + 1] = map (gC g) [k + 1..<gA g + 1]" by auto
  have "filter Q zs @ filter Q (concat (map (gC g) [k + 1..<gA g + 1])) = filter Q (concat (map (gC g) [k + 1..<gA g + 1])) @ filter Q zs"
  proof (cases "zs \<noteq> [] \<and> list_all Q zs")
    case True
    then have "zs \<noteq> []" "list_all Q zs" by auto
    then have "filter Q (gC g k') = []" if "k' \<in> set [k + 1..<gA g + 1]" for k' using that by (intro z(1)) auto
    then have "filter Q (concat (map (gC g) [k + 1..<gA g + 1])) = []" unfolding filter_empty_conv by fastforce
    then show ?thesis by (metis append_Nil append_Nil2)
  next
    case False
    then have "filter Q zs = []" using z(2) by (auto simp: list_all_iff filter_empty_conv)
    then show ?thesis by (metis append_Nil append_Nil2)
  qed
  then show ?thesis using waiting_split [of g k] waiting_split [of ?g k] assms(1,2) l by (simp del: upt_Suc)
qed

lemma slot_contents:
  assumes ok: "batcher_ok owner g s" and pc: "pc s t = Enqueue x (TakeSlot a)" and k: "inside g a k" and i: "i = buf_index (buffers s a)"
    and zs: "zs = (if i < SENTRY_BATCHER_QUEUE_LENGTH then [x] else [])" and g'_def: "g' = g\<lparr>gC := (gC g)(k := gC g k @ zs)\<rparr>"
    and p: "i < SENTRY_BATCHER_QUEUE_LENGTH \<Longrightarrow> p = Enqueue x (WriteSlot a i)"
    and s': "pc s' = pc s" "\<And>c. buf_items (buffers s' c) = buf_items (buffers s c)"
      "\<And>c. buf_index (buffers s' c) = buf_index (buffers s c) + (if c = a then 1 else 0)"
  shows "contents_ok g' (go t p s')"
proof -
  note b = batcher_okD [OF ok]
  note o = ghost_order [OF ok]
  have g': "gA g' = gA g" "gW g' = gW g" "gP g' = gP g" by (simp_all add: g'_def)
  have ak: "a = gen k" "gW g \<le> k" "k \<le> gA g" using k by (auto simp: inside_def)
  have only: "gen k' = a \<longleftrightarrow> k' = k" if "gE g \<le> k'" "k' < gE g + SENTRY_BATCHER_BUFFER_COUNT" for k'
    using that ak o gen_unique [of k' k "gE g"] by auto
  have lenk: "length (gC g k) = min i SENTRY_BATCHER_QUEUE_LENGTH" using b(2) ak by (auto simp: contents_ok_def i)
  have "length (gC g' k') = min (buf_index (buffers s' (gen k'))) SENTRY_BATCHER_QUEUE_LENGTH" if "gW g \<le> k'" "k' \<le> gA g" for k'
    using b(2) that lenk only [of k'] o by (auto simp: contents_ok_def g'_def s'(3) zs i ak(1))
  moreover have "buf_items (buffers s' (gen k')) j = gC g' k' ! j
      \<or> gW g \<le> k' \<and> (\<exists>u. ((pc s)(t := p)) u = Enqueue (gC g' k' ! j) (WriteSlot (gen k') j))"
    if "gP g \<le> k'" "k' \<le> gA g" "j < length (gC g' k')" for k' j
  proof (cases "j < length (gC g k')")
    case True
    then have "gC g' k' ! j = gC g k' ! j" by (auto simp: g'_def nth_append)
    moreover have "buf_items (buffers s (gen k')) j = gC g k' ! j \<or> gW g \<le> k' \<and> (\<exists>u. pc s u = Enqueue (gC g k' ! j) (WriteSlot (gen k') j))"
      using b(2) that True by (simp add: contents_ok_def)
    moreover have "pc s u = Enqueue y (WriteSlot c j) \<Longrightarrow> ((pc s)(t := p)) u = Enqueue y (WriteSlot c j)" for u y c using pc by auto
    ultimately show ?thesis unfolding s'(2) by metis
  next
    case False
    then have "k' = k" "i < SENTRY_BATCHER_QUEUE_LENGTH" "j = length (gC g k)" using that(3) by (auto simp: g'_def zs split: if_splits)
    then have "((pc s)(t := p)) t = Enqueue (gC g' k' ! j) (WriteSlot (gen k') j)" using lenk ak(1) by (simp add: p g'_def zs nth_append)
    then show ?thesis using \<open>k' = k\<close> ak(2) by blast
  qed
  moreover have "length (gC g' k') \<le> SENTRY_BATCHER_QUEUE_LENGTH" "gA g < k' \<Longrightarrow> gC g' k' = []" for k'
    using b(2) lenk ak(3) by (auto simp: contents_ok_def g'_def zs)
  ultimately show ?thesis unfolding contents_ok_def go_def by (simp add: g' s'(1))
qed

lemma take_slot:
  assumes ok: "batcher_ok owner g s" and pc: "pc s t = Enqueue x (TakeSlot a)"
  shows "\<exists>g'. batcher_ok owner g' (sentry__batcher_enqueue t x (TakeSlot a) s)"
proof -
  note b = batcher_okD [OF ok]
  note o = ghost_order [OF ok]
  have t: "owner x = t" using b(7) [of t] pc by auto
  obtain k where k: "inside g a k" "newest owner g t k" using b(7) [of t] pc by auto
  define i where "i = buf_index (buffers s a)"
  define zs where "zs = (if i < SENTRY_BATCHER_QUEUE_LENGTH then [x] else [])"
  define p where "p = (if i < SENTRY_BATCHER_QUEUE_LENGTH then Enqueue x (WriteSlot a i) else Rotate RSealed a (ByFull x))"
  define s' where "s' = upd_buffer a (buf_index_update (\<lambda>n. n + 1)) s"
  define g' where "g' = g\<lparr>gC := (gC g)(k := gC g k @ zs)\<rparr>"
  have s': "pc s' = pc s" "active_idx s' = active_idx s" "drain_idx s' = drain_idx s" "flushing s' = flushing s" "accepted s' = accepted s"
    "batches s' = batches s" "buf_sealed (buffers s' c) = buf_sealed (buffers s c)" "buf_items (buffers s' c) = buf_items (buffers s c)"
    "buf_adding (buffers s' c) = buf_adding (buffers s c)"
    "buf_index (buffers s' c) = buf_index (buffers s c) + (if c = a then 1 else 0)" for c
    by (simp_all add: s'_def upd_buffer_def)
  have g': "gA g' = gA g" "gD g' = gD g" "gW g' = gW g" "gP g' = gP g" "gE g' = gE g" by (simp_all add: g'_def)
  have ak: "a = gen k" "gW g \<le> k" "k \<le> gA g" using k(1) by (auto simp: inside_def)
  have only: "gen k' = a \<longleftrightarrow> k' = k" if "gE g \<le> k'" "k' < gE g + SENTRY_BATCHER_BUFFER_COUNT" for k'
    using that ak o gen_unique [of k' k "gE g"] by auto
  have lenk: "length (gC g k) = min i SENTRY_BATCHER_QUEUE_LENGTH" using b(2) ak by (auto simp: contents_ok_def i_def)
  have p: "holds p = Some a" "in_flight p = zs" "\<not> is_flusher p" by (simp_all add: p_def zs_def)
  have "ring_ok g' (go t p s')" using b(1) g' s' pc ak(3) o only by (intro ring_go [of g s]) auto
  moreover have "contents_ok g' (go t p s')"
    using s' by (intro slot_contents [OF ok pc k(1) i_def zs_def g'_def]) (simp_all add: p_def)
  moreover have "order_ok owner g' (go t p s')"
  proof (rule order_go [OF b(3), where ys = "[]" and zs = zs])
    fix u
    have "filter (\<lambda>y. owner y = u) (waiting g') = filter (\<lambda>y. owner y = u) (waiting g) @ filter (\<lambda>y. owner y = u) zs"
      unfolding g'_def
    proof (rule waiting_append)
      show "gP g \<le> k" "k \<le> gA g" using ak o by auto
      show "k < k' \<Longrightarrow> zs \<noteq> [] \<Longrightarrow> list_all (\<lambda>y. owner y = u) zs \<Longrightarrow> filter (\<lambda>y. owner y = u) (gC g k') = []" for k'
        using k(2) t by (auto simp: zs_def newest_def filter_empty_conv split: if_splits)
    qed (simp add: zs_def)
    moreover have "filter (\<lambda>y. owner y = u) zs = (if u = t then zs else [])"
      unfolding zs_def t [symmetric] by (cases "i < SENTRY_BATCHER_QUEUE_LENGTH"; cases "u = owner x") auto
    ultimately show "filter (\<lambda>y. owner y = u) (concat (batches s') @ waiting g')
      = filter (\<lambda>y. owner y = u) (concat (batches s) @ waiting g) @ (if u = t then zs else [])" by (simp add: s'(6))
  qed (use s' p pc in auto)
  moreover have "lock_ok g' (go t p s')" using b(4) s' g' p pc by (intro lock_go [of g s]) auto
  moreover have "adding_ok (go t p s')" using b(5) s' p pc by (intro adding_go [of s]) auto
  moreover have "batches_ok (go t p s')" using b(6) s' by (simp add: batches_ok_def go_def)
  moreover have "\<forall>u. thread_ok owner g' (go t p s') u (pc (go t p s') u)"
  proof (rule others_ok [OF ok])
    have "inside g' a k" using k(1) g' by (simp add: inside_def)
    moreover have "i < SENTRY_BATCHER_QUEUE_LENGTH \<Longrightarrow> i < length (gC g' k) \<and> gC g' k ! i = x" using lenk by (simp add: g'_def zs_def nth_append)
    ultimately show "thread_ok owner g' s' t p" using t by (auto simp: p_def rotate_ok_def)
  next
    fix u k' assume "u \<noteq> t" "newest owner g u k'"
    then show "newest owner g' u k'" using t by (auto simp: newest_def g'_def zs_def split: if_splits)
  next
    show "is_flusher (pc s t) \<or> gD g' = gD g \<and> gW g' = gW g \<and> gE g' = gE g \<and> (\<forall>b. buf_sealed (buffers s b) \<longrightarrow> buf_sealed (buffers s' b))
      \<and> (gE g = gD g \<and> gD g < gW g \<longrightarrow> gC g' (gD g) = gC g (gD g) \<and> buf_index (buffers s' (gen (gD g))) = buf_index (buffers s (gen (gD g))))"
      using inside_not_drained [OF ok k(1)] ak s' g' by (auto simp: g'_def)
  qed (use s' g' in \<open>auto simp: g'_def inside_def\<close>)
  ultimately have "batcher_ok owner g' (go t p s')" by (simp add: batcher_ok_def)
  then show ?thesis by (auto simp: p_def s'_def i_def Let_def)
qed

text \<open>Writing the item to the slot.\<close>

lemma write_slot:
  assumes ok: "batcher_ok owner g s" and pc: "pc s t = Enqueue x (WriteSlot a i)"
  shows "batcher_ok owner g (sentry__batcher_enqueue t x (WriteSlot a i) s)"
proof -
  note b = batcher_okD [OF ok]
  note o = ghost_order [OF ok]
  have t: "owner x = t" using b(7) [of t] pc by auto
  obtain k where k: "inside g a k" "i < length (gC g k)" "gC g k ! i = x" using b(7) [of t] pc by auto
  define p where "p = (if i = SENTRY_BATCHER_QUEUE_LENGTH - 1 then Rotate RSealed a (ByFilled x) else Enqueue x (Leave a))"
  define s' where "s' = upd_buffer a (buf_items_update (\<lambda>f. f(i := x))) s"
  have s': "pc s' = pc s" "active_idx s' = active_idx s" "drain_idx s' = drain_idx s" "flushing s' = flushing s" "accepted s' = accepted s"
    "batches s' = batches s" "buf_sealed (buffers s' c) = buf_sealed (buffers s c)" "buf_index (buffers s' c) = buf_index (buffers s c)"
    "buf_adding (buffers s' c) = buf_adding (buffers s c)"
    "buf_items (buffers s' c) j = (if c = a \<and> j = i then x else buf_items (buffers s c) j)" for c j
    by (simp_all add: s'_def upd_buffer_def)
  have p: "holds p = Some a" "in_flight p = [x]" "\<not> is_flusher p" by (simp_all add: p_def)
  have "ring_ok g (go t p s')" using b(1) s' pc by (intro ring_go [of g s]) auto
  moreover have "contents_ok g (go t p s')"
  proof -
    have "buf_items (buffers s' (gen k')) j = gC g k' ! j \<or> gW g \<le> k' \<and> (\<exists>u. ((pc s)(t := p)) u = Enqueue (gC g k' ! j) (WriteSlot (gen k') j))"
      if k': "gP g \<le> k'" "k' \<le> gA g" "j < length (gC g k')" for k' j
    proof (cases "gen k' = a \<and> j = i")
      case True
      then have "k' = k" using k(1) k' o gen_unique [of k' k "gE g"] by (auto simp: inside_def)
      then show ?thesis using True k(3) by (simp add: s'(10))
    next
      case False
      then have "pc s u = Enqueue y (WriteSlot (gen k') j) \<Longrightarrow> ((pc s)(t := p)) u = Enqueue y (WriteSlot (gen k') j)" for u y using pc by auto
      moreover have "buf_items (buffers s (gen k')) j = gC g k' ! j \<or> gW g \<le> k' \<and> (\<exists>u. pc s u = Enqueue (gC g k' ! j) (WriteSlot (gen k') j))"
        using b(2) k' by (simp add: contents_ok_def)
      ultimately show ?thesis using False unfolding s'(10) by metis
    qed
    then show ?thesis using b(2) unfolding contents_ok_def go_def by (simp add: s'(1,8))
  qed
  moreover have "order_ok owner g (go t p s')"
    using b(3) s' p pc by (intro order_go [of owner g s s' "[]" t "[]"]) auto
  moreover have "lock_ok g (go t p s')" using b(4) s' p pc by (intro lock_go [of g s]) auto
  moreover have "adding_ok (go t p s')" using b(5) s' p pc by (intro adding_go [of s]) auto
  moreover have "batches_ok (go t p s')" using b(6) s' by (simp add: batches_ok_def go_def)
  moreover have "thread_ok owner g s' t p" using t k(1) by (auto simp: p_def rotate_ok_def)
  then have "\<forall>u. thread_ok owner g (go t p s') u (pc (go t p s') u)" using s' by (intro others_ok [OF ok]) auto
  ultimately have "batcher_ok owner g (go t p s')" by (simp add: batcher_ok_def)
  then show ?thesis by (simp add: p_def s'_def)
qed

text \<open>Rotating.\<close>

lemma rotated_pc:
  "holds (rotated r old c) = holds (Rotate q old c)" "in_flight (rotated r old c) = in_flight (Rotate q old c)"
  "is_flusher (rotated r old c) = is_flusher (Rotate q old c)" "stage (rotated r old c) = 0"
  by (cases c; simp)+

lemma rotated_ok:
  assumes "thread_ok owner g s t (Rotate q old c)" and "r \<Longrightarrow> \<forall>k. inside g old k \<longrightarrow> k < gA g'" "gD g' = gD g"
  shows "thread_ok owner g' s' t (rotated r old c)"
  using assms by (cases c) (auto simp: rotate_ok_def inside_def)

lemma rotate_quiet:
  assumes ok: "batcher_ok owner g s" and pc: "pc s t = Rotate r old c" and r: "r \<noteq> RSeal" "r = RSwap \<Longrightarrow> active_idx s \<noteq> old"
  shows "batcher_ok owner g (rotate_buffer t old c r s)"
proof -
  note b = batcher_okD [OF ok]
  note o = ghost_order [OF ok]
  have th: "thread_ok owner g s t (Rotate r old c)" using b(7) [of t] pc by simp
  then obtain k where k: "inside g old k" "r \<in> {RIndex, RAdding} \<and> k = gA g \<longrightarrow> k + 1 < gE g + SENTRY_BATCHER_BUFFER_COUNT"
    "\<forall>crash fi. c = ByFlush crash fi \<longrightarrow> k = gD g" by (auto simp: rotate_ok_def)
  have q: "batcher_ok owner g (go t p s)"
    if "holds p = holds (Rotate r old c)" "in_flight p = in_flight (Rotate r old c)" "is_flusher p = is_flusher (Rotate r old c)" "stage p = 0"
      "thread_ok owner g s t p" for p
    using that pc r by (intro quiet [OF ok, where ys = "[]"]) (auto simp: same_slots_def)
  have rot: "batcher_ok owner g (go t (Rotate r' old c) s)"
    if "r' \<noteq> RStillActive \<Longrightarrow> k = gA g \<Longrightarrow> k + 1 < gE g + SENTRY_BATCHER_BUFFER_COUNT" "r' \<noteq> RSwap" for r'
  proof -
    have "rotate_ok g s r' old c" using that k unfolding rotate_ok_def by (intro exI [of _ k]) auto
    then show ?thesis using th by (intro q) (cases c; simp)+
  qed
  have free: "k + 1 < gE g + SENTRY_BATCHER_BUFFER_COUNT" if "k = gA g" "\<not> buf_sealed (buffers s (next_idx old))"
  proof (rule ccontr)
    assume "\<not> k + 1 < gE g + SENTRY_BATCHER_BUFFER_COUNT"
    then have e: "k + 1 = gE g + SENTRY_BATCHER_BUFFER_COUNT" using that(1) o by linarith
    then have "gE g < gA g" using that(1) by (simp add: SENTRY_BATCHER_BUFFER_COUNT_def)
    moreover have "next_idx old = gen (gE g)" using k(1) e gen_wrap [of "gE g"] by (simp add: inside_def)
    ultimately show False using b(1) that(2) by (simp add: ring_ok_def)
  qed
  show ?thesis
  proof (cases r)
    case RSealed
    then show ?thesis using free by (auto intro!: rot)
  next
    case RIndex
    then show ?thesis using k(2) by (auto intro!: rot)
  next
    case RAdding
    then show ?thesis using k(2) by (auto intro!: rot)
  next
    case RStillActive
    have "k' < gA g" if "active_idx s \<noteq> old" "inside g old k'" for k'
      using that b(1) by (cases "k' = gA g") (auto simp: inside_def ring_ok_def)
    then have "thread_ok owner g s t (rotated (active_idx s \<noteq> old) old c)" by (intro rotated_ok [OF th]) auto
    then show ?thesis unfolding RStillActive rotate_buffer.simps by (rule q [OF rotated_pc])
  next
    case RSwap
    then show ?thesis using r by (auto intro!: rot)
  qed (use r in simp)
qed

lemma rotate_seal:
  assumes ok: "batcher_ok owner g s" and pc: "pc s t = Rotate RSeal old c"
  shows "batcher_ok owner g (rotate_buffer t old c RSeal s)"
proof -
  note b = batcher_okD [OF ok]
  note o = ghost_order [OF ok]
  have th: "thread_ok owner g s t (Rotate RSeal old c)" using b(7) [of t] pc by simp
  then obtain k where k: "inside g old k" by (auto simp: rotate_ok_def)
  define p where "p = Rotate RSwap old c"
  define s' where "s' = upd_buffer old (buf_sealed_update (\<lambda>_. True)) s"
  have s': "pc s' = pc s" "active_idx s' = active_idx s" "drain_idx s' = drain_idx s" "flushing s' = flushing s" "accepted s' = accepted s"
    "batches s' = batches s" "buf_index (buffers s' b) = buf_index (buffers s b)" "buf_items (buffers s' b) = buf_items (buffers s b)"
    "buf_adding (buffers s' b) = buf_adding (buffers s b)" "buf_sealed (buffers s' b) \<longleftrightarrow> b = old \<or> buf_sealed (buffers s b)" for b
    by (simp_all add: s'_def upd_buffer_def)
  have p: "holds p = holds (pc s t)" "in_flight p = in_flight (pc s t)" "is_flusher p = is_flusher (pc s t)" "stage p = stage (pc s t)"
    unfolding pc p_def by (cases c; simp)+
  have "old \<noteq> gen k'" if "gA g < k'" "k' < gE g + SENTRY_BATCHER_BUFFER_COUNT" for k'
    using that k o gen_unique [of k k' "gE g"] by (auto simp: inside_def)
  moreover have "\<exists>u d. pc (go t p s') u = Rotate RSwap (active_idx s) d" if seal: "active_idx s = old \<or> buf_sealed (buffers s (active_idx s))"
  proof (cases "active_idx s = old")
    case True
    then have "pc (go t p s') t = Rotate RSwap (active_idx s) c" by (simp add: go_def p_def)
    then show ?thesis by blast
  next
    case False
    then obtain u d where "pc s u = Rotate RSwap (active_idx s) d" using b(1) seal unfolding ring_ok_def by blast
    then have "pc (go t p s') u = Rotate RSwap (active_idx s) d" using pc s'(1) by (auto simp: go_def)
    then show ?thesis by blast
  qed
  ultimately have "ring_ok g (go t p s')" using b(1) s' unfolding ring_ok_def by (auto simp: go_def)
  moreover have "contents_ok g (go t p s')" using b(2) pc s' by (intro contents_go [of g s]) auto
  moreover have "order_ok owner g (go t p s')" using b(3) s' p by (intro order_go [of owner g s s' "[]" t "[]"]) auto
  moreover have "lock_ok g (go t p s')" using b(4) s' p by (intro lock_go [of g s]) (auto simp: lock_ok_def)
  moreover have "adding_ok (go t p s')" using b(5) s' p by (intro adding_go [of s]) auto
  moreover have "batches_ok (go t p s')" using b(6) s' by (simp add: batches_ok_def go_def)
  moreover have "thread_ok owner g s' t p" using th s' by (auto simp: p_def rotate_ok_def)
  then have "\<forall>u. thread_ok owner g (go t p s') u (pc (go t p s') u)" using s' by (intro others_ok [OF ok]) auto
  ultimately have "batcher_ok owner g (go t p s')" by (simp add: batcher_ok_def)
  then show ?thesis by (simp add: p_def s'_def)
qed

lemma rotate_swap:
  assumes ok: "batcher_ok owner g s" and pc: "pc s t = Rotate RSwap (active_idx s) c"
  shows "\<exists>g'. batcher_ok owner g' (rotate_buffer t (active_idx s) c RSwap s)"
proof -
  note b = batcher_okD [OF ok]
  note o = ghost_order [OF ok]
  let ?old = "active_idx s"
  have a: "?old = gen (gA g)" using b(1) by (simp add: ring_ok_def)
  have th: "thread_ok owner g s t (Rotate RSwap ?old c)" using b(7) [of t] pc by simp
  then obtain k where k: "inside g ?old k" "k = gA g \<longrightarrow> k + 1 < gE g + SENTRY_BATCHER_BUFFER_COUNT" "buf_sealed (buffers s ?old)"
    by (auto simp: rotate_ok_def)
  have "k = gA g" using k(1) o a gen_unique [of k "gA g" "gE g"] by (auto simp: inside_def)
  then have free: "gA g + 1 < gE g + SENTRY_BATCHER_BUFFER_COUNT" using k(2) by simp
  define p where "p = rotated True ?old c"
  define s' where "s' = s\<lparr>active_idx := next_idx ?old\<rparr>"
  define g' where "g' = g\<lparr>gA := gA g + 1\<rparr>"
  have s': "pc s' = pc s" "active_idx s' = gen (gA g + 1)" "drain_idx s' = drain_idx s" "flushing s' = flushing s" "accepted s' = accepted s"
    "batches s' = batches s" "buffers s' = buffers s" by (simp_all add: s'_def a)
  have g': "gA g' = gA g + 1" "gD g' = gD g" "gW g' = gW g" "gP g' = gP g" "gE g' = gE g" "gC g' = gC g" by (simp_all add: g'_def)
  have p: "holds p = holds (pc s t)" "in_flight p = in_flight (pc s t)" "is_flusher p = is_flusher (pc s t)" "stage p = stage (pc s t)"
    unfolding pc p_def by (simp_all only: rotated_pc stage.simps)
  have new: "\<not> buf_sealed (buffers s (gen (gA g + 1)))" "buf_index (buffers s (gen (gA g + 1))) = 0" "gC g (gA g + 1) = []"
    using b(1,2) free by (auto simp: ring_ok_def contents_ok_def)
  have "ring_ok g' (go t p s')"
  proof -
    have "buf_sealed (buffers s (gen k'))" if "gE g \<le> k'" "k' < gA g + 1" for k'
      using that b(1) k(3) a by (cases "k' = gA g") (auto simp: ring_ok_def)
    then show ?thesis using b(1) free new(1) unfolding ring_ok_def by (simp add: g' s' go_def)
  qed
  moreover have "contents_ok g' (go t p s')"
  proof -
    have c: "contents_ok g (go t p s)" using b(2) pc by (intro contents_go [of g s]) auto
    have le: "k' \<le> gA g + 1 \<longleftrightarrow> k' \<le> gA g \<or> k' = gA g + 1" for k' by auto
    have same: "pc (go t p s') = pc (go t p s)" "buffers (go t p s') = buffers s" "buffers (go t p s) = buffers s" by (simp_all add: go_def s')
    show ?thesis using c new unfolding contents_ok_def g' le same by auto
  qed
  moreover have "waiting g' = waiting g" using o new(3) by (simp add: waiting_def g')
  then have "order_ok owner g' (go t p s')" using b(3) s' p by (intro order_go [of owner g s s' "[]" t "[]"]) auto
  moreover have "lock_ok g' (go t p s')" using b(4) s' p g' by (intro lock_go [of g s]) (auto simp: lock_ok_def staged_def)
  moreover have "adding_ok (go t p s')" using b(5) s' p by (intro adding_go [of s]) auto
  moreover have "batches_ok (go t p s')" using b(6) s' by (simp add: batches_ok_def go_def)
  moreover have "thread_ok owner g' s' t p" unfolding p_def by (rule rotated_ok [OF th]) (auto simp: g' inside_def)
  then have "\<forall>u. thread_ok owner g' (go t p s') u (pc (go t p s') u)"
    using s' g' by (intro others_ok [OF ok]) (auto simp: inside_def newest_def)
  ultimately have "batcher_ok owner g' (go t p s')" by (simp add: batcher_ok_def)
  then show ?thesis by (auto simp: p_def s'_def)
qed

text \<open>Taking and releasing the flushing lock.\<close>

lemma flush_take_lock:
  assumes ok: "batcher_ok owner g s" and pc: "pc s t = TryFlush crash n"
  shows "batcher_ok owner g (flush_lock t crash n s)"
proof (cases "flushing s")
  case True
  have "batcher_ok owner g (go t p s)" if "p \<in> {TryFlush crash (n + 1), Idle}" for p
    using that pc by (intro quiet [OF ok, where ys = "[]"]) (auto simp: same_slots_def)
  then show ?thesis using True by (simp add: flush_lock_def)
next
  case False
  note b = batcher_okD [OF ok]
  let ?s = "s\<lparr>flushing := True\<rparr>" and ?p = "StartFlush crash"
  have none: "\<not> is_flusher (pc s u)" for u using b(4) False by (auto simp: lock_ok_def)
  have "ring_ok g (go t ?p ?s)" using b(1) pc by (intro ring_go [of g s]) auto
  moreover have "contents_ok g (go t ?p ?s)" using b(2) pc by (intro contents_go [of g s]) auto
  moreover have "order_ok owner g (go t ?p ?s)" using b(3) pc by (intro order_go [of owner g s _ "[]" t "[]"]) auto
  moreover have "lock_ok g (go t ?p ?s)" using b(4) False none by (auto simp: lock_ok_def go_def)
  moreover have "adding_ok (go t ?p ?s)" using b(5) pc by (intro adding_go [of s]) auto
  moreover have "batches_ok (go t ?p ?s)" using b(6) by (simp add: batches_ok_def go_def)
  moreover have "\<forall>u. thread_ok owner g (go t ?p ?s) u (pc (go t ?p ?s) u)" by (intro others_ok [OF ok]) auto
  ultimately show ?thesis using False by (simp add: batcher_ok_def flush_lock_def)
qed

text \<open>The steps of the flusher.  Components that a step does not touch carry over.\<close>

lemma flusher_go:
  assumes ok: "batcher_ok owner g s" and fl: "is_flusher (pc s t)" "is_flusher p" "staged (stage p) g'"
    and h: "holds (pc s t) = None" "holds p = None" and i: "in_flight (pc s t) = []" "in_flight p = []"
    and s': "pc s' = pc s" "flushing s' = flushing s" "accepted s' = accepted s" "\<And>b. buf_adding (buffers s' b) = buf_adding (buffers s b)"
    and g': "gA g' = gA g" "gE g \<le> gE g'" "gC g' = gC g"
    and ins: "\<And>u b k. u \<noteq> t \<Longrightarrow> holds (pc s u) = Some b \<Longrightarrow> inside g b k \<Longrightarrow> inside g' b k \<and> (buf_sealed (buffers s b) \<longrightarrow> buf_sealed (buffers s' b))"
    and ring: "ring_ok g' (go t p s')" and contents: "contents_ok g' (go t p s')" and batches: "batches_ok (go t p s')"
    and w: "concat (batches s') @ waiting g' = concat (batches s) @ waiting g" and t: "thread_ok owner g' s' t p"
  shows "batcher_ok owner g' (go t p s')"
proof -
  note b = batcher_okD [OF ok]
  have "order_ok owner g' (go t p s')" using b(3) s' i w by (intro order_go [of owner g s s' "[]" t "[]"]) simp_all
  moreover have "lock_ok g' (go t p s')" using b(4) s' fl by (intro lock_go [of g s]) auto
  moreover have "adding_ok (go t p s')" using b(5) s' h by (intro adding_go [of s]) auto
  moreover have "\<forall>u. thread_ok owner g' (go t p s') u (pc (go t p s') u)"
    using s' g' ins t fl by (intro others_ok [OF ok]) (auto simp: newest_def)
  ultimately show ?thesis using ring contents batches by (simp add: batcher_ok_def)
qed

lemma flusher_stage:
  assumes "batcher_ok owner g s" "pc s t = Flush crash fi f"
  shows "flush_ok g s f" "staged (stage (Flush crash fi f)) g" "is_flusher (pc s u) \<Longrightarrow> u = t"
proof -
  have fl: "is_flusher (pc s t)" using assms(2) by simp
  then have "staged (stage (pc s t)) g" using batcher_okD(4) [OF assms(1)] unfolding lock_ok_def by blast
  then show "staged (stage (Flush crash fi f)) g" using assms(2) by simp
  show "flush_ok g s f" using batcher_okD(7) [OF assms(1), of t] assms(2) by simp
  show "is_flusher (pc s u) \<Longrightarrow> u = t" using batcher_okD(4) [OF assms(1)] fl unfolding lock_ok_def by blast
qed

lemma flush_quiet:
  assumes ok: "batcher_ok owner g s" and pc: "pc s t = Flush crash fi f"
    and f: "\<And>d. f \<noteq> AwaitProducers d" "\<And>d. f \<noteq> TakeIndex d" "\<And>d. f \<noteq> Unseal d" "\<And>d. f \<noteq> Advance d" "f \<noteq> Finish"
      "\<And>d n xs. f = ReadItems d n xs \<Longrightarrow> length xs < n"
  shows "batcher_ok owner g (sentry__batcher_flush t crash fi f s)"
proof -
  note b = batcher_okD [OF ok]
  have t: "flush_ok g s f" "staged (stage (pc s t)) g" using flusher_stage [OF ok pc] pc by auto
  have D: "active_idx s = gen (gA g)" "drain_idx s = gen (gD g)" "gD g \<le> gA g" using b(1) by (auto simp: ring_ok_def)
  have q: "batcher_ok owner g (go t p s)"
    if "holds p = None" "in_flight p = []" "is_flusher p" "stage p = stage (pc s t)" "thread_ok owner g s t p" for p
    using that pc by (intro quiet [OF ok, where ys = "[]"]) (auto simp: same_slots_def)
  show ?thesis
  proof (cases f)
    case ReadDrain
    then show ?thesis using D pc by (auto intro!: q)
  next
    case (ReadSealed d)
    then show ?thesis using t pc by (auto intro!: q)
  next
    case (ReadActiveIdx d)
    then show ?thesis using t D pc by (auto intro!: q simp: nat_less_le)
  next
    case (ReadCount d active)
    have "staged 0 g" using t(2) pc ReadCount by simp
    then have "rotate_ok g s RSealed d (ByFlush crash fi)"
      using t(1) D ReadCount unfolding rotate_ok_def by (intro exI [of _ "gD g"]) (auto simp: inside_def staged_def)
    then show ?thesis using t(1) pc ReadCount by (auto intro!: q simp: Let_def)
  next
    case (ReadItems d n xs)
    have l: "length xs < n" "n = length (gC g (gD g))" "d = gen (gD g)" "xs = take (length xs) (gC g (gD g))" using f(6) t(1) ReadItems by auto
    have "gP g = gD g" "gD g < gW g" using t(2) pc ReadItems by (auto simp: staged_def)
    then have "buf_items (buffers s d) (length xs) = gC g (gD g) ! length xs"
      using contents_item [OF b(2), of "gD g" "length xs"] l D(3) by auto
    then have "xs @ [buf_items (buffers s d) (length xs)] = take (length xs + 1) (gC g (gD g))"
      using l by (simp add: take_Suc_conv_app_nth)
    then have "flush_ok g s (ReadItems d n (xs @ [buf_items (buffers s d) (length xs)]))" using l t(1) ReadItems by simp
    then show ?thesis using l(1) pc ReadItems by (auto intro!: q)
  qed (use f in auto)
qed

lemma no_holders:
  assumes "batcher_ok owner g s" "buf_adding (buffers s b) = 0"
  shows "holds (pc s u) \<noteq> Some b"
proof
  assume u: "holds (pc s u) = Some b"
  have fin: "finite {u. holds (pc s u) = Some b}"
    by (rule finite_subset [of _ "{u. pc s u \<noteq> Idle}"]) (use batcher_okD(5) [OF assms(1)] in \<open>auto simp: adding_ok_def\<close>)
  have "card {u. holds (pc s u) = Some b} = 0" using assms batcher_okD(5) [OF assms(1)] by (simp add: adding_ok_def)
  then show False using u fin by auto
qed

lemma flush_await:
  assumes ok: "batcher_ok owner g s" and pc: "pc s t = Flush crash fi (AwaitProducers d)"
  shows "\<exists>g'. batcher_ok owner g' (sentry__batcher_flush t crash fi (AwaitProducers d) s)"
proof (cases "buf_adding (buffers s d) > 0")
  case True
  then show ?thesis using ok by auto
next
  case False
  note b = batcher_okD [OF ok]
  note st = flusher_stage [OF ok pc]
  have d: "d = gen (gD g)" "gD g < gA g \<or> buf_sealed (buffers s d)" using st(1) by auto
  have g: "gW g = gD g" "gP g = gD g" "gE g = gD g" using st(2) by (auto simp: staged_def)
  have free: "holds (pc s u) \<noteq> Some d" for u using no_holders [OF ok] False by simp
  have "gD g < gA g"
  proof (rule ccontr)
    assume "\<not> gD g < gA g"
    then have "buf_sealed (buffers s (active_idx s))" "active_idx s = d" using b(1) d by (auto simp: ring_ok_def le_antisym not_less)
    then obtain u c where u: "pc s u = Rotate RSwap d c" using b(1) unfolding ring_ok_def by blast
    then have "\<not> is_flusher (pc s u)" using st(3) [of u] pc by auto
    then have "holds (pc s u) = Some d" using u by (cases c) auto
    then show False using free by blast
  qed
  define g' where "g' = g\<lparr>gW := gD g + 1\<rparr>"
  have g': "gA g' = gA g" "gD g' = gD g" "gW g' = gD g + 1" "gP g' = gP g" "gE g' = gE g" "gC g' = gC g" by (simp_all add: g'_def)
  let ?p = "Flush crash fi (TakeIndex d)"
  have len: "length (gC g k) = min (buf_index (buffers s (gen k))) SENTRY_BATCHER_QUEUE_LENGTH" if "gD g \<le> k" "k \<le> gA g" for k
    using b(2) that g by (simp add: contents_ok_def)
  have "contents_ok g (go t ?p s)" using b(2) pc by (intro contents_go [of g s]) auto
  moreover have "pc (go t ?p s) u \<noteq> Enqueue y (WriteSlot d i)" for u y i using free [of u] by (auto simp: go_def)
  ultimately have item: "buf_items (buffers (go t ?p s) (gen k)) i = gC g k ! i
      \<or> gD g + 1 \<le> k \<and> (\<exists>u. pc (go t ?p s) u = Enqueue (gC g k ! i) (WriteSlot (gen k) i))"
    if "gD g \<le> k" "k \<le> gA g" "i < length (gC g k)" for k i
    using contents_item [of g "go t ?p s" k i] that g d(1) by (cases "k = gD g") auto
  have bu: "buffers (go t ?p s) = buffers s" by (simp add: go_def)
  have "\<forall>k. gD g + 1 \<le> k \<and> k \<le> gA g \<longrightarrow> length (gC g k) = min (buf_index (buffers s (gen k))) SENTRY_BATCHER_QUEUE_LENGTH"
    using len by simp
  then have "contents_ok g' (go t ?p s)" using b(2) item unfolding contents_ok_def g' bu g(2) by blast
  moreover have "ring_ok g' (go t ?p s)" using b(1) pc g' by (intro ring_go [of g s]) auto
  moreover have "inside g' c k" if "holds (pc s u) = Some c" "inside g c k" for u c k
    using that free [of u] g d(1) by (cases "k = gD g") (auto simp: inside_def g')
  moreover have "waiting g' = waiting g" by (simp add: waiting_def g')
  moreover have "batches_ok (go t ?p s)" using b(6) by (simp add: batches_ok_def go_def)
  ultimately have "batcher_ok owner g' (go t ?p s)"
    using pc g g' len [of "gD g"] \<open>gD g < gA g\<close> d(1) by (intro flusher_go [OF ok]) (auto simp: staged_def)
  then show ?thesis using False by auto
qed

lemma flush_take_index:
  assumes ok: "batcher_ok owner g s" and pc: "pc s t = Flush crash fi (TakeIndex d)"
  shows "batcher_ok owner g (sentry__batcher_flush t crash fi (TakeIndex d) s)"
proof -
  note b = batcher_okD [OF ok]
  note o = ghost_order [OF ok]
  note st = flusher_stage [OF ok pc]
  have d: "d = gen (gD g)" "length (gC g (gD g)) = min (buf_index (buffers s d)) SENTRY_BATCHER_QUEUE_LENGTH" using st(1) by auto
  have g: "gW g = gD g + 1" "gP g = gD g" "gE g = gD g" "gD g < gA g" using st(2) by (auto simp: staged_def)
  let ?p = "Flush crash fi (ReadItems d (min (buf_index (buffers s d)) SENTRY_BATCHER_QUEUE_LENGTH) [])"
  let ?s = "upd_buffer d (buf_index_update (\<lambda>_. 0)) s"
  have other: "gen k \<noteq> d" if "gD g < k" "k < gD g + SENTRY_BATCHER_BUFFER_COUNT" for k using that d gen_eq [of "gD g" k] by auto
  have "ring_ok g (go t ?p ?s)" using b(1) pc g other by (intro ring_go [of g s]) (auto simp: upd_buffer_def)
  moreover have "contents_ok g (go t ?p ?s)" using b(2) pc g o other by (intro contents_go [of g s]) (auto simp: upd_buffer_def)
  moreover have "batches_ok (go t ?p ?s)" using b(6) by (simp add: batches_ok_def go_def upd_buffer_def)
  ultimately have "batcher_ok owner g (go t ?p ?s)" using pc st(2) d by (intro flusher_go [OF ok]) (auto simp: upd_buffer_def)
  then show ?thesis by simp
qed

lemma flush_process:
  assumes ok: "batcher_ok owner g s" and pc: "pc s t = Flush crash fi (ReadItems d n xs)" and all: "\<not> length xs < n"
  shows "\<exists>g'. batcher_ok owner g' (sentry__batcher_flush t crash fi (ReadItems d n xs) s)"
proof -
  note b = batcher_okD [OF ok]
  note st = flusher_stage [OF ok pc]
  have d: "d = gen (gD g)" "n = length xs" "xs = gC g (gD g)" "buf_index (buffers s d) = 0" using st(1) all by auto
  have g: "gW g = gD g + 1" "gP g = gD g" "gE g = gD g" "gD g < gA g" using st(2) by (auto simp: staged_def)
  define g' where "g' = g\<lparr>gP := gD g + 1\<rparr>"
  have g': "gA g' = gA g" "gD g' = gD g" "gW g' = gW g" "gP g' = gD g + 1" "gE g' = gE g" "gC g' = gC g" by (simp_all add: g'_def)
  let ?p = "Flush crash fi (Unseal d)"
  define s' where "s' = (if n > 0 then s\<lparr>batches := batches s @ [xs]\<rparr> else s)"
  have s': "pc s' = pc s" "active_idx s' = active_idx s" "drain_idx s' = drain_idx s" "flushing s' = flushing s" "accepted s' = accepted s"
    "buffers s' = buffers s" "concat (batches s') = concat (batches s) @ xs" using d(2) by (auto simp: s'_def)
  have "ring_ok g' (go t ?p s')" using b(1) pc s' g' by (intro ring_go [of g s]) auto
  moreover have "contents_ok g' (go t ?p s')" using b(2) pc s' g' g by (intro contents_go [of g s]) auto
  moreover have "length xs \<le> SENTRY_BATCHER_QUEUE_LENGTH" using b(2) d(3) by (simp add: contents_ok_def)
  then have "batches_ok (go t ?p s')" using b(6) d(2) by (auto simp: batches_ok_def go_def s'_def)
  moreover have "waiting g = xs @ waiting g'" using waiting_split [of g "gD g"] g d(3) by (simp add: waiting_def g' del: upt_Suc)
  ultimately have "batcher_ok owner g' (go t ?p s')"
    using pc s' g g' d by (intro flusher_go [OF ok]) (auto simp: staged_def inside_def)
  then show ?thesis using all by (auto simp: s'_def)
qed

lemma flush_unseal:
  assumes ok: "batcher_ok owner g s" and pc: "pc s t = Flush crash fi (Unseal d)"
  shows "\<exists>g'. batcher_ok owner g' (sentry__batcher_flush t crash fi (Unseal d) s)"
proof -
  note b = batcher_okD [OF ok]
  note st = flusher_stage [OF ok pc]
  have d: "d = gen (gD g)" "buf_index (buffers s d) = 0" using st(1) by auto
  have g: "gW g = gD g + 1" "gP g = gD g + 1" "gE g = gD g" "gD g < gA g" "gA g < gD g + SENTRY_BATCHER_BUFFER_COUNT"
    using st(2) b(1) by (auto simp: staged_def ring_ok_def)
  define g' where "g' = g\<lparr>gE := gD g + 1\<rparr>"
  have g': "gA g' = gA g" "gD g' = gD g" "gW g' = gW g" "gP g' = gP g" "gE g' = gD g + 1" "gC g' = gC g" by (simp_all add: g'_def)
  let ?p = "Flush crash fi (Advance d)"
  define s' where "s' = upd_buffer d (buf_sealed_update (\<lambda>_. False)) s"
  have s': "pc s' = pc s" "active_idx s' = active_idx s" "drain_idx s' = drain_idx s" "flushing s' = flushing s" "accepted s' = accepted s"
    "batches s' = batches s" "buf_index (buffers s' b) = buf_index (buffers s b)" "buf_items (buffers s' b) = buf_items (buffers s b)"
    "buf_adding (buffers s' b) = buf_adding (buffers s b)" "buf_sealed (buffers s' b) \<longleftrightarrow> b \<noteq> d \<and> buf_sealed (buffers s b)" for b
    by (simp_all add: s'_def upd_buffer_def)
  have other: "gen k \<noteq> d" if "gD g < k" "k < gD g + SENTRY_BATCHER_BUFFER_COUNT" for k using that d gen_eq [of "gD g" k] by auto
  have "ring_ok g' (go t ?p s')"
  proof -
    have r: "ring_ok g (go t ?p s)" using b(1) pc by (intro ring_go [of g s]) auto
    have same: "pc (go t ?p s') = pc (go t ?p s)" "buffers (go t ?p s') = buffers s'" "buffers (go t ?p s) = buffers s"
      "active_idx (go t ?p s') = active_idx (go t ?p s)" "drain_idx (go t ?p s') = drain_idx (go t ?p s)" by (simp_all add: go_def s')
    have "\<not> buf_sealed (buffers s' (gen k)) \<and> buf_index (buffers s' (gen k)) = 0" if "gA g < k" "k < gD g + 1 + SENTRY_BATCHER_BUFFER_COUNT" for k
      using that b(1) d g(3) gen_wrap [of "gD g"] by (cases "k = gD g + SENTRY_BATCHER_BUFFER_COUNT") (auto simp: ring_ok_def s')
    moreover have "buf_sealed (buffers s' (gen k))" if "gD g + 1 \<le> k" "k < gA g" for k
      using that b(1) g other [of k] by (auto simp: ring_ok_def s')
    moreover have "active_idx (go t ?p s) = active_idx s" "drain_idx (go t ?p s) = drain_idx s" by (simp_all add: go_def)
    moreover have "buf_sealed (buffers s b) \<Longrightarrow> \<exists>u c. pc (go t ?p s) u = Rotate RSwap b c" if "b = active_idx s" for b
      using r that unfolding ring_ok_def same calculation(3) by blast
    ultimately show ?thesis using b(1) g s'(10) unfolding ring_ok_def g' same by auto
  qed
  moreover have "contents_ok g' (go t ?p s')" using b(2) pc s' g' by (intro contents_go [of g s]) auto
  moreover have "batches_ok (go t ?p s')" using b(6) by (simp add: batches_ok_def go_def s')
  moreover have "waiting g' = waiting g" by (simp add: waiting_def g')
  ultimately have "batcher_ok owner g' (go t ?p s')"
    using pc s' g g' d other by (intro flusher_go [OF ok]) (auto simp: staged_def inside_def)
  then show ?thesis by (auto simp: s'_def)
qed

lemma flush_advance:
  assumes ok: "batcher_ok owner g s" and pc: "pc s t = Flush crash fi (Advance d)"
  shows "\<exists>g'. batcher_ok owner g' (sentry__batcher_flush t crash fi (Advance d) s)"
proof -
  note b = batcher_okD [OF ok]
  note st = flusher_stage [OF ok pc]
  have d: "d = gen (gD g)" using st(1) by auto
  have g: "gW g = gD g + 1" "gP g = gD g + 1" "gE g = gD g + 1" "gD g < gA g" using st(2) by (auto simp: staged_def)
  define g' where "g' = g\<lparr>gD := gD g + 1\<rparr>"
  have g': "gA g' = gA g" "gD g' = gD g + 1" "gW g' = gW g" "gP g' = gP g" "gE g' = gE g" "gC g' = gC g" by (simp_all add: g'_def)
  let ?p = "Flush crash fi ReadDrain" and ?s = "s\<lparr>drain_idx := next_idx d\<rparr>"
  have "ring_ok g (go t ?p s)" using b(1) pc by (intro ring_go [of g s]) auto
  moreover have "pc (go t ?p ?s) = pc (go t ?p s)" "buffers (go t ?p ?s) = buffers (go t ?p s)"
    "active_idx (go t ?p ?s) = active_idx (go t ?p s)" "drain_idx (go t ?p ?s) = next_idx d" by (simp_all add: go_def)
  ultimately have "ring_ok g' (go t ?p ?s)" using g d unfolding ring_ok_def g' by auto
  moreover have "contents_ok g' (go t ?p ?s)" using b(2) pc g' by (intro contents_go [of g s]) auto
  moreover have "batches_ok (go t ?p ?s)" using b(6) by (simp add: batches_ok_def go_def)
  moreover have "waiting g' = waiting g" by (simp add: waiting_def g')
  ultimately have "batcher_ok owner g' (go t ?p ?s)" using pc g g' by (intro flusher_go [OF ok]) (auto simp: staged_def inside_def)
  then show ?thesis by auto
qed

lemma flush_finish:
  assumes ok: "batcher_ok owner g s" and pc: "pc s t = Flush crash fi Finish"
  shows "batcher_ok owner g (sentry__batcher_flush t crash fi Finish s)"
proof -
  note b = batcher_okD [OF ok]
  note st = flusher_stage [OF ok pc]
  let ?s = "s\<lparr>flushing := False\<rparr>"
  have "ring_ok g (go t Idle ?s)" using b(1) pc by (intro ring_go [of g s]) auto
  moreover have "contents_ok g (go t Idle ?s)" using b(2) pc by (intro contents_go [of g s]) auto
  moreover have "order_ok owner g (go t Idle ?s)" using b(3) pc by (intro order_go [of owner g s _ "[]" t "[]"]) auto
  moreover have "lock_ok g (go t Idle ?s)" using st by (auto simp: lock_ok_def go_def)
  moreover have "adding_ok (go t Idle ?s)" using b(5) pc by (intro adding_go [of s]) auto
  moreover have "batches_ok (go t Idle ?s)" using b(6) by (simp add: batches_ok_def go_def)
  moreover have "\<forall>u. thread_ok owner g (go t Idle ?s) u (pc (go t Idle ?s) u)" by (intro others_ok [OF ok]) auto
  ultimately show ?thesis by (simp add: batcher_ok_def)
qed

section \<open>No item is lost, duplicated or reordered\<close>

lemma thread_step_ok:
  assumes "batcher_ok owner g s"
  shows "\<exists>g'. batcher_ok owner g' (thread_step t s)"
proof (cases "pc s t")
  case Idle
  then show ?thesis using assms by (auto simp: thread_step_def)
next
  case (Enqueue x e)
  have "\<exists>g'. batcher_ok owner g' (sentry__batcher_enqueue t x e s)"
  proof (cases e)
    case (TakeSlot a)
    then show ?thesis using take_slot [OF assms] Enqueue by blast
  next
    case (WriteSlot a i)
    then show ?thesis using write_slot [OF assms] Enqueue by blast
  qed (use enqueue_quiet [OF assms Enqueue] in blast)+
  then show ?thesis using Enqueue by (simp add: thread_step_def)
next
  case (Rotate r old c)
  have "\<exists>g'. batcher_ok owner g' (rotate_buffer t old c r s)"
  proof (cases "r = RSeal \<or> r = RSwap \<and> active_idx s = old")
    case True
    then show ?thesis using rotate_seal [OF assms] rotate_swap [OF assms] Rotate by blast
  next
    case False
    then show ?thesis using rotate_quiet [OF assms Rotate] by blast
  qed
  then show ?thesis using Rotate by (simp add: thread_step_def)
next
  case (TryFlush crash n)
  then show ?thesis using flush_take_lock [OF assms] by (auto simp: thread_step_def)
next
  case (StartFlush crash)
  have "batcher_ok owner g (go t (Flush crash (active_idx s) ReadDrain) s)"
    using StartFlush by (intro quiet [OF assms, where ys = "[]"]) (auto simp: same_slots_def)
  then show ?thesis using StartFlush by (auto simp: thread_step_def)
next
  case (Flush crash fi f)
  have "\<exists>g'. batcher_ok owner g' (sentry__batcher_flush t crash fi f s)"
  proof (cases f)
    case (ReadItems d n xs)
    then show ?thesis using flush_quiet [OF assms Flush] flush_process [OF assms, of t crash fi d n xs] Flush by blast
  qed (use Flush flush_await [OF assms] flush_take_index [OF assms] flush_unseal [OF assms] flush_advance [OF assms] flush_finish [OF assms]
        flush_quiet [OF assms Flush] in blast)+
  then show ?thesis using Flush by (simp add: thread_step_def)
qed

lemma batcher_reachable_ok: "batcher_reachable owner s \<Longrightarrow> \<exists>g. batcher_ok owner g s"
proof (induction rule: batcher_reachable.induct)
  case (start memory)
  define g :: "'a ghosts" where "g = \<lparr>gA = 0, gD = 0, gW = 0, gP = 0, gE = 0, gC = (\<lambda>_. [])\<rparr>"
  have "batcher_ok owner g (sentry__batcher_new memory)"
    by (simp add: batcher_ok_def ring_ok_def contents_ok_def order_ok_def lock_ok_def adding_ok_def batches_ok_def staged_def
        sentry__batcher_new_def g_def gen_def SENTRY_BATCHER_BUFFER_COUNT_def)
  then show ?case by blast
next
  case (step s s')
  then obtain g where g: "batcher_ok owner g s" by blast
  from step.hyps(2) show ?case
  proof (cases rule: batcher_step.cases)
    case (call_enqueue t x)
    then have "batcher_ok owner g (go t (Enqueue x ReadActive) s)" by (intro quiet [OF g, where ys = "[]"]) (auto simp: same_slots_def)
    then show ?thesis using call_enqueue by blast
  next
    case (call_flush t crash)
    then have "batcher_ok owner g (go t (TryFlush crash 0) s)" by (intro quiet [OF g, where ys = "[]"]) (auto simp: same_slots_def)
    then show ?thesis using call_flush by blast
  next
    case (thread t)
    then show ?thesis using thread_step_ok [OF g] by simp
  qed
qed

text \<open>The items in the buffers, from the one to be drained next.\<close>

definition stored :: "'v sentry_batcher_buffer_t \<Rightarrow> 'v list" where
  "stored b = map (buf_items b) [0..<min (buf_index b) SENTRY_BATCHER_QUEUE_LENGTH]"

definition queued :: "'v sentry_batcher_t \<Rightarrow> 'v list" where
  "queued s = concat (map (\<lambda>j. stored (buffers s ((drain_idx s + j) mod SENTRY_BATCHER_BUFFER_COUNT))) [0..<SENTRY_BATCHER_BUFFER_COUNT])"

lemma queued_waiting:
  assumes ok: "batcher_ok owner g s" and idle: "\<And>t. pc s t = Idle" and st: "staged 0 g"
  shows "queued s = waiting g"
proof -
  note b = batcher_okD [OF ok]
  have g: "gW g = gD g" "gP g = gD g" "gE g = gD g" using st by (auto simp: staged_def)
  have C: "stored (buffers s (gen k)) = gC g k" if "gD g \<le> k" "k < gD g + SENTRY_BATCHER_BUFFER_COUNT" for k
  proof (cases "k \<le> gA g")
    case True
    then have "length (gC g k) = min (buf_index (buffers s (gen k))) SENTRY_BATCHER_QUEUE_LENGTH" using b(2) that g by (simp add: contents_ok_def)
    moreover have "i < length (gC g k) \<Longrightarrow> buf_items (buffers s (gen k)) i = gC g k ! i" for i
      using contents_item [OF b(2), of k i] that g True idle by auto
    ultimately show ?thesis unfolding stored_def by (intro nth_equalityI) auto
  next
    case False
    then show ?thesis using b(1,2) that g by (auto simp: ring_ok_def contents_ok_def stored_def)
  qed
  have "(drain_idx s + j) mod SENTRY_BATCHER_BUFFER_COUNT = gen (gD g + j)" for j
    using b(1) by (simp add: ring_ok_def gen_def mod_add_left_eq)
  then have "queued s = concat (map (\<lambda>j. gC g (gD g + j)) [0..<SENTRY_BATCHER_BUFFER_COUNT])"
    unfolding queued_def using C by (intro arg_cong [of _ _ concat] map_cong) auto
  also have "map (\<lambda>j. gC g (gD g + j)) [0..<SENTRY_BATCHER_BUFFER_COUNT] = map (gC g) [gD g..<gD g + SENTRY_BATCHER_BUFFER_COUNT]"
    by (rule nth_equalityI) auto
  also have "[gD g..<gD g + SENTRY_BATCHER_BUFFER_COUNT] = [gD g..<gA g + 1] @ [gA g + 1..<gD g + SENTRY_BATCHER_BUFFER_COUNT]"
    using ghost_order [OF ok] g by (metis Suc_eq_plus1 Suc_leI le_SucI le_add_diff_inverse upt_add_eq_append)
  finally show ?thesis using b(2) g by (simp add: waiting_def contents_ok_def del: upt_Suc)
qed

text \<open>C7. The lock-free buffers of the batcher lose, duplicate and reorder nothing: however any number of producers and flushers
  interleave, what has been batched of the items of one producer is the beginning of what it had accepted, in the order it enqueued them
  (the item whose enqueue is about to return included); batches are not empty and no longer than a buffer; and whenever no call is in
  progress, the accepted items of the producer are exactly those that were batched followed by those that wait in the buffers.\<close>

theorem batcher_delivers_in_order:
  assumes "batcher_reachable owner s"
  shows "prefix (filter (\<lambda>y. owner y = t) (concat (batches s))) (filter (\<lambda>y. owner y = t) (accepted s) @ in_flight (pc s t))
    \<and> list_all (\<lambda>b. b \<noteq> [] \<and> length b \<le> SENTRY_BATCHER_QUEUE_LENGTH) (batches s)
    \<and> ((\<forall>u. pc s u = Idle) \<longrightarrow>
         filter (\<lambda>y. owner y = t) (accepted s) = filter (\<lambda>y. owner y = t) (concat (batches s) @ queued s))"
proof -
  obtain g where g: "batcher_ok owner g s" using batcher_reachable_ok [OF assms] by blast
  note b = batcher_okD [OF g]
  have o: "filter (\<lambda>y. owner y = t) (accepted s) @ in_flight (pc s t) = filter (\<lambda>y. owner y = t) (concat (batches s) @ waiting g)"
    using b(3) by (simp add: order_ok_def waiting_def)
  have "queued s = waiting g" if "\<forall>u. pc s u = Idle" using that b(4) by (intro queued_waiting [OF g]) (auto simp: lock_ok_def)
  then show ?thesis using o b(6) by (auto simp: prefix_def batches_ok_def)
qed

text \<open>Two producers and a flusher that interleave: the second producer gets its slot before the flusher seals the buffer and writes it
  afterwards; a third item stays in the next buffer.\<close>

definition demo_calls :: "nat sentry_batcher_t" where
  "demo_calls = go 0 (TryFlush False 0) (go 1 (Enqueue 11 ReadActive) (go 2 (Enqueue 22 ReadActive) (sentry__batcher_new (\<lambda>_. 0))))"

definition demo_first :: "nat sentry_batcher_t" where
  "demo_first = fold thread_step ([1, 2, 1, 2, 1, 1, 2, 1, 1, 1, 1, 2, 2, 2] @ replicate 11 0 @ [2, 2] @ replicate 20 0) demo_calls"

definition demo_end :: "nat sentry_batcher_t" where
  "demo_end = fold thread_step (replicate 8 1) (go 1 (Enqueue 12 ReadActive) demo_first)"

lemma reachable_run: "batcher_reachable owner s \<Longrightarrow> batcher_reachable owner (fold thread_step ts s)"
  by (induction ts arbitrary: s) (auto intro: batcher_reachable.step batcher_step.thread)

lemma reachable_calls:
  assumes "batcher_reachable owner s" "pc s t = Idle"
  shows "owner x = t \<Longrightarrow> batcher_reachable owner (go t (Enqueue x ReadActive) s)" "batcher_reachable owner (go t (TryFlush crash 0) s)"
  using assms by (auto intro: batcher_reachable.step batcher_step.intros)

lemma thread_step_pc:
  assumes "u \<noteq> t"
  shows "pc (thread_step t s) u = pc s u"
proof -
  have "pc (sentry__batcher_enqueue t x e s) u = pc s u" for x e using assms by (cases e) (simp_all add: go_def upd_buffer_def Let_def)
  moreover have "pc (rotate_buffer t old c r s) u = pc s u" for old c r using assms by (cases r) (simp_all add: go_def upd_buffer_def)
  moreover have "pc (sentry__batcher_flush t crash fi f s) u = pc s u" for crash fi f
    using assms by (cases f) (simp_all add: go_def upd_buffer_def Let_def)
  ultimately show ?thesis using assms by (simp add: thread_step_def go_def flush_lock_def split: thread_pc.split)
qed

lemma run_pc: "u \<notin> set ts \<Longrightarrow> pc (fold thread_step ts s) u = pc s u"
  by (induction ts arbitrary: s) (auto simp: thread_step_pc)

theorem batcher_delivers_in_order_witness:
  "accepted demo_end = [11, 22, 12] \<and> batches demo_end = [[11, 22]]
   \<and> filter (\<lambda>y. y div 10 = 1) (accepted demo_end) = filter (\<lambda>y. y div 10 = 1) (concat (batches demo_end) @ queued demo_end)"
proof -
  let ?owner = "\<lambda>y::nat. y div 10"
  have "batcher_reachable ?owner demo_calls" unfolding demo_calls_def
    by (intro reachable_calls batcher_reachable.start) (simp_all add: go_def sentry__batcher_new_def)
  then have r: "batcher_reachable ?owner demo_first" unfolding demo_first_def by (rule reachable_run)
  have "pc demo_first 1 = Idle" by code_simp
  then have "batcher_reachable ?owner demo_end" unfolding demo_end_def by (intro reachable_run reachable_calls r) simp_all
  moreover have "pc demo_end u = Idle" for u
  proof (cases "u \<in> {0, 1, 2}")
    case True
    moreover have "pc demo_end 0 = Idle" "pc demo_end 1 = Idle" "pc demo_end 2 = Idle" by code_simp+
    ultimately show ?thesis by auto
  next
    case False
    have "pc demo_end u = pc (go 1 (Enqueue 12 ReadActive) demo_first) u" unfolding demo_end_def by (rule run_pc) (use False in auto)
    also have "\<dots> = pc demo_first u" using False by (simp add: go_def)
    also have "\<dots> = pc demo_calls u" unfolding demo_first_def by (rule run_pc) (use False in auto)
    finally show ?thesis using False by (simp add: demo_calls_def go_def sentry__batcher_new_def)
  qed
  ultimately have "filter (\<lambda>y. y div 10 = 1) (accepted demo_end) = filter (\<lambda>y. y div 10 = 1) (concat (batches demo_end) @ queued demo_end)"
    using batcher_delivers_in_order [of ?owner demo_end 1] by blast
  moreover have "accepted demo_end = [11, 22, 12]" "batches demo_end = [[11, 22]]" by code_simp+
  ultimately show ?thesis by blast
qed

end
