(* ===== verification/Spec2Isabelle.thy ===== *)
theory Spec2Isabelle
  imports RateLimiter Ringbuffer Uuids Urls JsonReader ValueOps Spans BgWorker ThreadPoolWakeups ClientReport EnvelopeOps RetryProtocol Timestamps ScopeObservers ScopeApply Consent
    Transactions Batcher
begin

text \<open>
  Verification of sentry-native, the C SDK of Sentry.  An application records events, transactions, spans, breadcrumbs and
  attachments as values; the SDK merges them with the state it keeps, packs them into envelopes, and hands the envelopes to a
  transport that sends them from a background thread, writes them to disk when it cannot, and tries again later.  The
  development models the parts of the SDK that carry this logic, function by function, and proves what makes them correct.

  \<^bold>\<open>Conventions.\<close>  A C string is a \<open>string\<close> without its NUL; a null pointer is \<open>None\<close>; integers are words where wrap-around
  matters and otherwise numbers.  The allocator, the clocks, the random source, the conversions of floating point numbers to and
  from text, the user's callbacks and the outcomes of system calls are arguments of the definitions, so the theorems hold for each
  of their behaviours.  Allocations of byte buffers can fail; allocations of a struct of fixed size and clones of short
  strings are taken to succeed.  Reference counts are modelled for the tasks of the background worker only.  Each theorem
  that is preceded by a claim number is a property of the manifest; the others are the library that proves them.

  \<^bold>\<open>Foundations.\<close>  \<open>Prelude\<close>: machine types, the C library functions the sources use, shared lemmas.  \<open>Qsort\<close>: \<open>qsort\<close> and
  \<open>strcmp\<close>, with the contract of a comparison function as a locale.  \<open>Slices\<close>: \<open>sentry_slice.c\<close>.  \<open>StringBuilder\<close>:
  the growable buffer of \<open>sentry_string.c\<close>, as an implementation of an abstract sink of bytes.  \<open>Encoding\<close>: base64, percent and
  UTF-8 encoding, addresses (\<open>sentry_utils.c\<close>, \<open>sentry_string.c\<close>).  \<open>Uuids\<close>: \<open>sentry_uuid.c\<close>.  \<open>Urls\<close>: URLs and DSNs
  (\<open>sentry_utils.c\<close>), with the printer that the parser inverts.  \<open>Timestamps\<close>: time stamps as text, over a model
  of the calendar.  \<open>Writer\<close>: \<open>sentry_writer.c\<close>, a writer over any sink, by
  interpretation of the sink locale for builders and, in \<open>FileIO\<close>, for files.

  \<^bold>\<open>Data.\<close>  \<open>Values\<close>: the value tree of \<open>sentry_value.c\<close>.  \<open>ValueOps\<close>: merging, breadcrumbs, cloning and the
  constructors of events.  \<open>JsonWriter\<close>: the streaming writer of \<open>sentry_json.c\<close>, a refinement of an abstract printer.
  \<open>Jsmn\<close> and \<open>JsonReader\<close>: the tokenizer and the reader, with the round trip of values through text, the bounds
  on tokens for any text below 2 GiB and the bound on the depth.  The positions of tokens are unbounded integers, which agree with the
  \<open>int\<close> members of the source below 2 GiB only.  \<open>Ringbuffer\<close>: \<open>sentry_ringbuffer.c\<close>.

  \<^bold>\<open>Tracing.\<close>  \<open>Tracing\<close>: the trace headers written and read (\<open>sentry_tracing.c\<close>).  \<open>Spans\<close>: transactions with their live spans
  as a step relation over the public operations (\<open>sentry_core.c\<close>, \<open>sentry_tracing.c\<close>) and its invariant.

  \<^bold>\<open>Envelopes.\<close>  \<open>Attachments\<close>: \<open>sentry_attachment.c\<close>.  \<open>Envelope\<close>: building, serialising and parsing
  envelopes (\<open>sentry_envelope.c\<close>).  \<open>FileIO\<close>: path strings, the read and write loops (\<open>path/sentry_path_unix.c\<close>).  \<open>EnvelopeOps\<close>:
  writing envelopes to files and to the cache, rate limits, client reports, and the properties of envelopes: everything
  that the operations build is well formed, well-formed envelopes survive the round trip through their text, truncated texts
  are rejected, a write to a file succeeds only with the whole text and otherwise tries to remove the file, and the counters of
  dropped items are exact up to the limits that begin or end between a serialisation and the drop.  \<open>ClientReport\<close>: the
  counters of \<open>sentry_client_report.c\<close> under every interleaving.  \<open>RateLimiter\<close>: \<open>sentry_ratelimiter.c\<close>.

  \<^bold>\<open>The SDK.\<close>  \<open>Scope\<close>: the scope of \<open>sentry_scope.c\<close> with its setters, its clone and the merge into events and telemetry;
  \<open>ScopeApply\<close> proves the merge equal to a specification of every member, and \<open>ScopeObservers\<close> that a change reaches the registered
  observers in order, whatever their callbacks add or remove.  \<open>Session\<close>: release-health sessions and their file
  (\<open>sentry_session.c\<close>).  \<open>Capture\<close>: the way of an event, transaction, feedback, minidump, session or envelope through
  \<open>sentry_core.c\<close> to the transport, as functions on the record \<open>sdk\<close> of the state that the globals of the SDK hold;
  \<open>CaptureFlow\<close>: with consent and a running transport a captured event is sent exactly once under the identifier
  its caller gets.  \<open>OldRuns\<close>: what the next start of the application makes of the runs left on disk (\<open>sentry_database.c\<close>) and
  which sessions it reports.  \<open>Consent\<close>: the end of a batch of logs or metrics (\<open>sentry_batcher.c\<close>), and that neither the captures, nor
  the batches, nor the old runs upload anything without consent.
  \<open>Transactions\<close>: starting and finishing transactions, trace propagation on the scope.  The capture path is sequential: the
  options and the scope are locked by each operation; the run exists once the SDK is initialised; arithmetic on
  floating point numbers (sample rates, durations) and the user's hooks are arguments.

  \<^bold>\<open>Persistence and retries.\<close>  \<open>Disk\<close>: directories, renames and removals.  \<open>Cache\<close>: the names of cached envelopes, their
  siblings and the pruning of the cache.  \<open>Database\<close>: the run of an application (\<open>sentry_database.c\<close>).  \<open>Retry\<close>: a pass
  of the retry queue (\<open>sentry_retry.c\<close>), with a callback that may change the envelope and the files of attachments.
  \<open>RetryProtocol\<close>: its polls as a step relation between the worker, the thread that shuts down and the writers of waiting files,
  with polls that cannot be submitted.

  \<^bold>\<open>Threads.\<close>  \<open>BgWorker\<close>: the background worker of \<open>sentry_sync.c\<close> with its linked list of reference counted tasks in a heap,
  at the granularity of the critical sections.  \<open>ThreadPool\<close>: the pool that completes tasks in order.  \<open>ThreadPoolWakeups\<close>:
  its condition variables, with the set of sleepers of each and what every operation signals; no wake-up is lost.  \<open>Batcher\<close>: the lock-free
  ring of telemetry buffers of \<open>sentry_batcher.c\<close>, with an assertion for each position of each thread.  The wake-ups of the background worker and of
  the batcher are left out, and no liveness is claimed for these two.

  \<^bold>\<open>Fuel and bounds.\<close>  Loops over lists and indices are total functions.  Loops over the linked list of the worker are partial
  functions into \<open>option\<close>, and \<open>BgWorker\<close> proves that they return in every reachable state.  The recursion of \<open>sentry__path_remove_all\<close> has the fuel \<open>PATH_MAX\<close>,
  because each level makes the path longer.

  \<^bold>\<open>Not modelled.\<close>  Windows, Apple and console variants of the platform code; the HTTP clients and the
  transport that drives them; initialisation and shutdown of the SDK; the batching thread and the list of batch tasks; signal handlers, minidump writers,
  unwinders and module finders, which read the memory of the process or the debug information of its files; the msgpack
  serialisation; screenshots and session replay; the crash daemon; vendored libraries other than the tokenizer.  They are calls of
  the operating system and of third-party code with little state of their own.
\<close>

end
